(* ===== verification/Sdk_Prelude.thy ===== *)
theory Sdk_Prelude
  imports Main "HOL-Library.Word" "HOL-Library.Monad_Syntax"
begin

text \<open>
  Shared vocabulary of the development: fixed-width integers, unsigned arithmetic of a given
  width, the collections of simplification facts, and the list lemmas the components share.
\<close>

unbundle bit_operations_syntax

type_synonym u8 = "8 word"
type_synonym u16 = "16 word"
type_synonym u32 = "32 word"
type_synonym u64 = "64 word"

text \<open>Facts about the memory operations, and facts that unfold the small C macros.\<close>

named_theorems mem_simps
named_theorems macro_defs


section \<open>Unsigned arithmetic of a given width\<close>

text \<open>
  \<open>uw w n\<close> is the conversion to an unsigned type of \<open>w\<close> bits, \<open>usub w a b\<close> the
  difference of two offsets converted to that type, and \<open>do_while_count w t\<close> the number of
  iterations of \<^verbatim>\<open>do { ... } while (--t > 0)\<close> for an unsigned \<open>t\<close> of \<open>w\<close> bits.
\<close>

definition uw :: "nat \<Rightarrow> nat \<Rightarrow> nat" where
  "uw w n = n mod 2 ^ w"

definition usub :: "nat \<Rightarrow> nat \<Rightarrow> nat \<Rightarrow> nat" where
  "usub w a b = nat ((int a - int b) mod 2 ^ w)"

definition do_while_count :: "nat \<Rightarrow> nat \<Rightarrow> nat" where
  "do_while_count w t = (if t = 0 then 2 ^ w else t)"

lemma uw_less [simp]: "n < 2 ^ w \<Longrightarrow> uw w n = n"
  by (simp add: uw_def)

lemma usub_le:
  assumes "b \<le> a" "a < 2 ^ w"
  shows "usub w a b = a - b"
proof -
  have "a - b < 2 ^ w" using assms(2) by (rule less_imp_diff_less)
  then have "int (a - b) = int (a - b) mod 2 ^ w"
    by (metis mod_less of_nat_mod of_nat_numeral of_nat_power)
  then have "nat ((int a - int b) mod 2 ^ w) = nat (int (a - b))"
    using assms(1) by (metis of_nat_diff)
  then show ?thesis by (simp add: usub_def)
qed

lemma u8_less: "unat (b :: u8) < 256"
  using unsigned_less [of b] by simp

lemma unat_u16_of_nat: "n < 65536 \<Longrightarrow> unat (word_of_nat n :: u16) = n"
  by (simp add: unat_of_nat)

lemma unat_u8_of_nat: "n < 256 \<Longrightarrow> unat (word_of_nat n :: u8) = n"
  by (simp add: unat_of_nat)

lemma all_less_Suc_split_first: "(\<forall>j < Suc k. P j) \<longleftrightarrow> P 0 \<and> (\<forall>j < k. P (Suc j))"
  by (auto simp: less_Suc_eq_0_disj)

lemma ex_less_Suc_split_first: "(\<exists>j < Suc k. P j) \<longleftrightarrow> P 0 \<or> (\<exists>j < k. P (Suc j))"
  by (auto simp: less_Suc_eq_0_disj)

lemma digit_inj:
  fixes x y a b :: nat
  assumes "x < 256" "y < 256"
  shows "x + 256 * a = y + 256 * b \<longleftrightarrow> x = y \<and> a = b"
proof
  assume eq: "x + 256 * a = y + 256 * b"
  have "x = y" using assms arg_cong [OF eq, of "\<lambda>n. n mod 256"] by simp
  with eq show "x = y \<and> a = b" by simp
qed simp

lemma do_while_count_pos [simp]: "0 < t \<Longrightarrow> do_while_count w t = t"
  by (simp add: do_while_count_def)

section \<open>Bits of bytes\<close>

lemma u8_eqI:
  assumes "bit x 0 = bit y 0" "bit x 1 = bit y 1" "bit x 2 = bit y 2" "bit x 3 = bit y 3"
    "bit x 4 = bit y 4" "bit x 5 = bit y 5" "bit x 6 = bit y 6" "bit x 7 = bit (y :: u8) 7"
  shows "x = y"
proof (rule bit_word_eqI)
  fix n assume "n < LENGTH(8)"
  then have "n = 0 \<or> n = 1 \<or> n = 2 \<or> n = 3 \<or> n = 4 \<or> n = 5 \<or> n = 6 \<or> n = 7" by auto
  then show "bit x n = bit y n" using assms by auto
qed

lemma u8_high_bit [simp]: "8 \<le> n \<Longrightarrow> \<not> bit (a :: u8) n"
  using bit_imp_le_length [of a n] by auto

lemma unat_and_mask: "unat (x AND mask k) = unat x mod 2 ^ k" for x :: "'w::len word"
  by (simp only: take_bit_eq_mask [symmetric] unsigned_take_bit_eq) (simp add: take_bit_eq_mod)

lemma unat_and_low:
  "unat (x AND 3) = unat x mod 4" "unat (x AND 0xf) = unat x mod 16"
  "unat (x AND 0x3f) = unat x mod 64" "unat (x AND 0x7f) = unat x mod 128" for x :: u8
  using unat_and_mask [of x 2] unat_and_mask [of x 4] unat_and_mask [of x 6] unat_and_mask [of x 7]
  by (simp_all add: mask_eq_exp_minus_1)

section \<open>Writing into a buffer\<close>

text \<open>The elements \<open>xs\<close> from index \<open>i\<close> on, if they fit.\<close>

definition put_at :: "nat \<Rightarrow> 'a list \<Rightarrow> 'a list \<Rightarrow> 'a list option" where
  "put_at i xs out = (if i + length xs \<le> length out then Some (take i out @ xs @ drop (i + length xs) out) else None)"

lemma put_at_append: "length pre = i \<Longrightarrow> length xs \<le> length out \<Longrightarrow> put_at i xs (pre @ out) = Some (pre @ xs @ drop (length xs) out)"
  by (simp add: put_at_def)

text \<open>\<^verbatim>\<open>resize\<close> of a vector of bytes: new elements are zero.\<close>

definition resize_bytes :: "nat \<Rightarrow> u8 list \<Rightarrow> u8 list" where
  "resize_bytes n xs = take n xs @ replicate (n - length xs) 0"

lemma length_resize_bytes [simp]: "length (resize_bytes n xs) = n"
  by (simp add: resize_bytes_def)

end
