(* ===== verification/Sdk_Memory.thy ===== *)
theory Sdk_Memory
  imports Sdk_Prelude
begin

text \<open>
  The byte-addressed memory the C code works on. Memory is a family of buffers, one per
  region; a pointer is a region with an offset into its buffer. Every access of the model is
  bounds-checked: an access outside the buffer is undefined behaviour in C and the value
  \<^term>\<open>None\<close> here, so a theorem that a routine does not yield \<^term>\<open>None\<close> is a
  memory-safety theorem. The theory characterises the forward byte copy, of which every copy
  loop of the library is an instance, on disjoint and on overlapping ranges.
\<close>

section \<open>Memory\<close>

type_synonym 'r mem = "'r \<Rightarrow> u8 list"
type_synonym 'r ptr = "'r \<times> nat"

definition rd :: "'r mem \<Rightarrow> 'r ptr \<Rightarrow> u8 option" where
  "rd m p = (if snd p < length (m (fst p)) then Some (m (fst p) ! snd p) else None)"

definition wr :: "'r mem \<Rightarrow> 'r ptr \<Rightarrow> u8 \<Rightarrow> 'r mem option" where
  "wr m p b = (if snd p < length (m (fst p))
     then Some (m(fst p := (m (fst p))[snd p := b])) else None)"

text \<open>Pointer addition within a buffer, and access through a possibly negative offset.\<close>

definition padd :: "'r ptr \<Rightarrow> nat \<Rightarrow> 'r ptr" where
  "padd p k = (fst p, snd p + k)"

text \<open>A wide load or store touches all its bytes at once.\<close>

definition load :: "'r mem \<Rightarrow> 'r ptr \<Rightarrow> nat \<Rightarrow> u8 list option" where
  "load m p n = (if snd p + n \<le> length (m (fst p))
     then Some (take n (drop (snd p) (m (fst p)))) else None)"

definition store :: "'r mem \<Rightarrow> 'r ptr \<Rightarrow> u8 list \<Rightarrow> 'r mem option" where
  "store m p bs = (if snd p + length bs \<le> length (m (fst p))
     then Some (m(fst p := take (snd p) (m (fst p)) @ bs @ drop (snd p + length bs) (m (fst p))))
     else None)"

text \<open>
  The byte-by-byte forward copy \<^verbatim>\<open>*d++ = *s++\<close>, \<open>n\<close> times. It is the meaning of every
  copy loop of the library; on overlapping ranges it replicates, as LZ77 matches need.
\<close>

fun mv :: "'r mem \<Rightarrow> 'r ptr \<Rightarrow> 'r ptr \<Rightarrow> nat \<Rightarrow> 'r mem option" where
  "mv m d s 0 = Some m"
| "mv m d s (Suc n) = do {
     b \<leftarrow> rd m s;
     m' \<leftarrow> wr m d b;
     mv m' (padd d 1) (padd s 1) n }"

lemma padd_simps [simp]:
  "fst (padd p k) = fst p" "snd (padd p k) = snd p + k"
  "padd (r, i) k = (r, i + k)" "padd (padd p j) k = padd p (j + k)" "padd p 0 = p"
  by (simp_all add: padd_def)

lemma mv_add: "mv m d s (j + k) = do { m' \<leftarrow> mv m d s j; mv m' (padd d j) (padd s j) k }"
proof (induction j arbitrary: m d s)
  case 0
  then show ?case by simp
next
  case (Suc j)
  then show ?case by (simp split: Option.bind_split)
qed

lemma mv_bind_add:
  "do { m' \<leftarrow> mv m d s j; mv m' (padd d j) (padd s j) k } = mv m d s (j + k)"
  by (simp add: mv_add)


section \<open>Copies between disjoint ranges\<close>

lemma rd_Some [simp]: "i < length (m r) \<Longrightarrow> rd m (r, i) = Some (m r ! i)"
  by (simp add: rd_def)

lemma rd_None [simp]: "length (m r) \<le> i \<Longrightarrow> rd m (r, i) = None"
  by (simp add: rd_def)

lemma wr_Some [simp]: "i < length (m r) \<Longrightarrow> wr m (r, i) b = Some (m(r := (m r)[i := b]))"
  by (simp add: wr_def)

lemma wr_None [simp]: "length (m r) \<le> i \<Longrightarrow> wr m (r, i) b = None"
  by (simp add: wr_def)

lemma load_0: "load m (padd p (Suc k)) 0 = (if snd p + k < length (m (fst p)) then Some [] else None)"
  by (simp add: load_def Suc_le_eq)

lemma load_Suc: "load m p (Suc n) = do { b \<leftarrow> rd m p; bs \<leftarrow> load m (padd p (Suc 0)) n; Some (b # bs) }"
  by (auto simp: load_def rd_def Cons_nth_drop_Suc [symmetric])

lemma wr_length: "wr m p b = Some m' \<Longrightarrow> length (m' r) = length (m r)"
  by (auto simp: wr_def split: if_splits)

lemma mv_length: "mv m d s n = Some m' \<Longrightarrow> length (m' r) = length (m r)"
  by (induction m d s n rule: mv.induct) (auto simp: bind_eq_Some_conv wr_length)

text \<open>\<open>wide m d s n\<close> moves \<open>n\<close> bytes with one load and one store.\<close>

definition wide :: "'r mem \<Rightarrow> 'r ptr \<Rightarrow> 'r ptr \<Rightarrow> nat \<Rightarrow> 'r mem option" where
  "wide m d s n = do { bs \<leftarrow> load m s n; store m d bs }"

text \<open>The source range is not overwritten before it is read.\<close>

definition no_overlap :: "'r ptr \<Rightarrow> 'r ptr \<Rightarrow> nat \<Rightarrow> bool" where
  "no_overlap d s n \<longleftrightarrow> fst d \<noteq> fst s \<or> snd s + n \<le> snd d"

lemma wide_Suc:
  assumes "no_overlap d s (Suc n)" "0 < n"
  shows "wide m d s (Suc n) = do { b \<leftarrow> rd m s; m' \<leftarrow> wr m d b; wide m' (padd d 1) (padd s 1) n }"
proof -
  obtain dr i where d: "d = (dr, i)" by (cases d)
  obtain sr j where s: "s = (sr, j)" by (cases s)
  show ?thesis
  proof (cases "j + Suc n \<le> length (m sr) \<and> i + Suc n \<le> length (m dr)")
    case True
    have src: "take n (drop (Suc j) ((m(dr := (m dr)[i := m sr ! j])) sr)) = take n (drop (Suc j) (m sr))"
      using assms(1) True by (auto simp: no_overlap_def d s take_drop)
    have "take (Suc n) (drop j (m sr)) = m sr ! j # take n (drop (Suc j) (m sr))"
      using True by (simp add: Cons_nth_drop_Suc [symmetric])
    moreover have "take (Suc i) ((m dr)[i := b]) = take i (m dr) @ [b]" for b
      using True by (simp add: take_Suc_conv_app_nth)
    ultimately show ?thesis
      using True src by (auto simp: wide_def load_def store_def d s)
  next
    case False
    then show ?thesis
      using assms by (auto simp: wide_def load_def store_def d s rd_def wr_def no_overlap_def)
  qed
qed

lemma wide_1: "wide m d s (Suc 0) = mv m d s (Suc 0)"
proof -
  obtain dr i sr j where ds: "d = (dr, i)" "s = (sr, j)" by (cases d, cases s)
  show ?thesis
    by (auto simp: wide_def load_def store_def ds rd_def wr_def upd_conv_take_nth_drop take_Suc
        hd_drop_conv_nth)
qed

lemma wide_eq_mv:
  assumes "no_overlap d s n" "0 < n"
  shows "wide m d s n = mv m d s n"
  using assms
proof (induction n arbitrary: m d s)
  case 0
  then show ?case by simp
next
  case (Suc n)
  show ?case
  proof (cases n)
    case 0
    then show ?thesis by (simp add: wide_1)
  next
    case (Suc k)
    then have "no_overlap (padd d 1) (padd s 1) n" "0 < n"
      using Suc.prems by (auto simp: no_overlap_def)
    then show ?thesis
      using Suc.prems Suc.IH by (simp add: wide_Suc Suc)
  qed
qed

lemma mv_disjoint:
  assumes "sr \<noteq> dr" "j + n \<le> length (m sr)" "i + n \<le> length (m dr)"
  shows "mv m (dr, i) (sr, j) n =
    Some (m(dr := take i (m dr) @ take n (drop j (m sr)) @ drop (i + n) (m dr)))"
proof (cases "n = 0")
  case True
  then show ?thesis by simp
next
  case False
  then have "mv m (dr, i) (sr, j) n = wide m (dr, i) (sr, j) n"
    using assms(1) by (intro wide_eq_mv [symmetric]) (auto simp: no_overlap_def)
  then show ?thesis using assms by (simp add: wide_def load_def store_def)
qed


section \<open>Copies within one buffer\<close>

text \<open>
  The meaning of an LZ77 match: append \<open>n\<close> bytes, each the one \<open>off\<close> places back from the
  end of what has been produced so far.
\<close>

fun lz_copy :: "'a list \<Rightarrow> nat \<Rightarrow> nat \<Rightarrow> 'a list" where
  "lz_copy out off 0 = out"
| "lz_copy out off (Suc n) = lz_copy (out @ [out ! (length out - off)]) off n"

lemma length_lz_copy [simp]: "length (lz_copy out off n) = length out + n"
  by (induction out off n rule: lz_copy.induct) simp_all

lemma lz_copy_add: "lz_copy out off (j + k) = lz_copy (lz_copy out off j) off k"
  by (induction out off j rule: lz_copy.induct) simp_all

lemma lz_copy_prefix: "take (length out) (lz_copy out off n) = out"
proof (induction out off n rule: lz_copy.induct)
  case (1 out off)
  then show ?case by simp
next
  case (2 out off n)
  then have "take (length out) (take (Suc (length out)) (lz_copy out off (Suc n))) = out"
    by simp
  then show ?case by simp
qed

lemma mv_within:
  assumes "0 < off" "off \<le> i" "i + n \<le> length (m r)"
  shows "mv m (r, i) (r, i - off) n =
    Some (m(r := lz_copy (take i (m r)) off n @ drop (i + n) (m r)))"
  using assms
proof (induction n arbitrary: m i)
  case 0
  then show ?case by simp
next
  case (Suc n)
  let ?b = "m r ! (i - off)"
  let ?m' = "m(r := (m r)[i := ?b])"
  have "mv m (r, i) (r, i - off) (Suc n) = mv ?m' (r, Suc i) (r, Suc i - off) n"
    using Suc.prems by (simp add: Suc_diff_le)
  also have "\<dots> = Some (?m'(r := lz_copy (take (Suc i) (?m' r)) off n @ drop (Suc i + n) (?m' r)))"
    using Suc.prems by (intro Suc.IH) auto
  also have "take (Suc i) (?m' r) = take i (m r) @ [?b]"
    using Suc.prems by (simp add: take_Suc_conv_app_nth)
  finally show ?case using Suc.prems by (simp add: fun_eq_iff)
qed

end
