(* ===== verification/Lzo_Conf.thy ===== *)
theory Lzo_Conf
  imports Sdk_Memory
begin

text \<open>
  The build configuration of the LZO library as the other theories use it, and the constants
  of \<^verbatim>\<open>lzoconf.h\<close>. The record \<open>lzo_cfg\<close> holds what the preprocessor decides
  (\<^verbatim>\<open>LZO_OPT_UNALIGNED*\<close>, \<^verbatim>\<open>LZO_ABI_*_ENDIAN\<close>, \<^verbatim>\<open>LZO_WORDSIZE\<close>, the width of
  \<^verbatim>\<open>lzo_uint\<close>), the byte order of the machine the code runs on, and the bit-scan
  operations of the compiler, which are not part of the sources: a field is \<^term>\<open>None\<close> when
  the corresponding \<^verbatim>\<open>lzo_bitops_*\<close> macro is not defined.
\<close>

datatype abi_endian = ABI_LITTLE | ABI_BIG | ABI_NEUTRAL

record lzo_cfg =
  uint_bits :: nat
  wordsize :: nat
  opt_unaligned16 :: bool
  opt_unaligned32 :: bool
  opt_unaligned64 :: bool
  aligned_ok_4 :: bool
  abi :: abi_endian
  host_big :: bool
  ctlz32 :: "(u32 \<Rightarrow> nat) option"
  cttz32 :: "(u32 \<Rightarrow> nat) option"
  ctlz64 :: "(u64 \<Rightarrow> nat) option"
  cttz64 :: "(u64 \<Rightarrow> nat) option"

text \<open>Error codes.\<close>

definition LZO_E_OK :: int where [macro_defs]: "LZO_E_OK = 0"
definition LZO_E_ERROR :: int where [macro_defs]: "LZO_E_ERROR = -1"
definition LZO_E_INPUT_OVERRUN :: int where [macro_defs]: "LZO_E_INPUT_OVERRUN = -4"
definition LZO_E_OUTPUT_OVERRUN :: int where [macro_defs]: "LZO_E_OUTPUT_OVERRUN = -5"
definition LZO_E_LOOKBEHIND_OVERRUN :: int where [macro_defs]: "LZO_E_LOOKBEHIND_OVERRUN = -6"
definition LZO_E_INPUT_NOT_CONSUMED :: int where [macro_defs]: "LZO_E_INPUT_NOT_CONSUMED = -8"

lemma lzo_codes_distinct [simp]:
  "LZO_E_OK \<noteq> LZO_E_ERROR" "LZO_E_OK \<noteq> LZO_E_INPUT_OVERRUN" "LZO_E_OK \<noteq> LZO_E_OUTPUT_OVERRUN"
  "LZO_E_OK \<noteq> LZO_E_LOOKBEHIND_OVERRUN" "LZO_E_OK \<noteq> LZO_E_INPUT_NOT_CONSUMED"
  "LZO_E_ERROR \<noteq> LZO_E_OK" "LZO_E_INPUT_OVERRUN \<noteq> LZO_E_OK" "LZO_E_OUTPUT_OVERRUN \<noteq> LZO_E_OK"
  "LZO_E_LOOKBEHIND_OVERRUN \<noteq> LZO_E_OK" "LZO_E_INPUT_NOT_CONSUMED \<noteq> LZO_E_OK"
  by (simp_all add: macro_defs)

text \<open>
  Documented behaviour of the compiler's bit scans: on a non-zero argument the count of
  leading (trailing) zero bits. On zero they are undefined, so nothing is required there.
\<close>

definition is_ctlz :: "('w::len word \<Rightarrow> nat) \<Rightarrow> bool" where
  "is_ctlz f \<longleftrightarrow> (\<forall>v. v \<noteq> 0 \<longrightarrow> f v < LENGTH('w) \<and> bit v (LENGTH('w) - 1 - f v) \<and>
     (\<forall>i. LENGTH('w) - 1 - f v < i \<longrightarrow> \<not> bit v i))"

definition is_cttz :: "('w::len word \<Rightarrow> nat) \<Rightarrow> bool" where
  "is_cttz f \<longleftrightarrow> (\<forall>v. v \<noteq> 0 \<longrightarrow> bit v (f v) \<and> (\<forall>i < f v. \<not> bit v i))"

definition bitscan_ok :: "lzo_cfg \<Rightarrow> bool" where
  "bitscan_ok c \<longleftrightarrow> pred_option is_ctlz (ctlz32 c) \<and> pred_option is_cttz (cttz32 c) \<and>
     pred_option is_ctlz (ctlz64 c) \<and> pred_option is_cttz (cttz64 c)"

text \<open>
  A configuration under which the library is meant to run: the ABI macros tell the truth
  about the machine, the compile-time assertions of \<^verbatim>\<open>lzoconf.h\<close> on \<^verbatim>\<open>lzo_uint\<close>
  hold, and the bit scans behave as documented.
\<close>

definition endian_ok :: "lzo_cfg \<Rightarrow> bool" where
  "endian_ok c \<longleftrightarrow> (abi c = ABI_LITTLE \<longrightarrow> \<not> host_big c) \<and> (abi c = ABI_BIG \<longrightarrow> host_big c)"

definition cfg_ok :: "lzo_cfg \<Rightarrow> bool" where
  "cfg_ok c \<longleftrightarrow> endian_ok c \<and> 32 \<le> uint_bits c \<and> bitscan_ok c"

text \<open>Counting zero bits one by one: a bit scan that meets its documentation.\<close>

fun count_low_zeros :: "nat \<Rightarrow> 'w::len word \<Rightarrow> nat" where
  "count_low_zeros 0 v = 0"
| "count_low_zeros (Suc n) v = (if bit v 0 then 0 else Suc (count_low_zeros n (drop_bit 1 v)))"

definition scan_ctz :: "'w::len word \<Rightarrow> nat" where
  "scan_ctz v = count_low_zeros LENGTH('w) v"

lemma count_low_zeros_bit:
  fixes v :: "'w::len word"
  assumes "bit v j" "j < n"
  shows "bit v (count_low_zeros n v) \<and> (\<forall>i < count_low_zeros n v. \<not> bit v i)"
  using assms
proof (induction n arbitrary: v j)
  case 0
  then show ?case by simp
next
  case (Suc n)
  show ?case
  proof (cases "bit v 0")
    case True
    then show ?thesis by simp
  next
    case False
    then obtain k where k: "j = Suc k" using Suc.prems(1) by (cases j) auto
    have "bit (drop_bit 1 v) k" using Suc.prems(1) k by (simp add: bit_drop_bit_eq)
    then have IH: "bit (drop_bit 1 v) (count_low_zeros n (drop_bit 1 v)) \<and>
        (\<forall>i < count_low_zeros n (drop_bit 1 v). \<not> bit (drop_bit 1 v) i)"
      using Suc.prems(2) k by (intro Suc.IH) simp_all
    then show ?thesis using False by (auto simp: bit_drop_bit_eq less_Suc_eq_0_disj)
  qed
qed

lemma is_cttz_scan: "is_cttz (scan_ctz :: 'w::len word \<Rightarrow> nat)"
  unfolding is_cttz_def
proof (intro allI impI)
  fix v :: "'w word"
  assume "v \<noteq> 0"
  then obtain j where "bit v j" by (auto simp: bit_eq_iff)
  then show "bit v (scan_ctz v) \<and> (\<forall>i < scan_ctz v. \<not> bit v i)"
    unfolding scan_ctz_def by (intro count_low_zeros_bit) (auto dest: bit_imp_le_length)
qed

text \<open>Three builds used in the witnesses: amd64, a byte-wise 32-bit one, and a big-endian one.\<close>

definition cfg_amd64 :: lzo_cfg where
  "cfg_amd64 = \<lparr> uint_bits = 64, wordsize = 8, opt_unaligned16 = True, opt_unaligned32 = True,
     opt_unaligned64 = True, aligned_ok_4 = False, abi = ABI_LITTLE, host_big = False,
     ctlz32 = None, cttz32 = None, ctlz64 = None, cttz64 = Some scan_ctz \<rparr>"

definition cfg_bytewise32 :: lzo_cfg where
  "cfg_bytewise32 = \<lparr> uint_bits = 32, wordsize = 4, opt_unaligned16 = False, opt_unaligned32 = False,
     opt_unaligned64 = False, aligned_ok_4 = False, abi = ABI_NEUTRAL, host_big = False,
     ctlz32 = None, cttz32 = None, ctlz64 = None, cttz64 = None \<rparr>"

definition cfg_be64 :: lzo_cfg where
  "cfg_be64 = \<lparr> uint_bits = 64, wordsize = 8, opt_unaligned16 = True, opt_unaligned32 = True,
     opt_unaligned64 = True, aligned_ok_4 = False, abi = ABI_BIG, host_big = True,
     ctlz32 = None, cttz32 = None, ctlz64 = None, cttz64 = None \<rparr>"

lemma cfg_ok_builds: "cfg_ok cfg_amd64" "cfg_ok cfg_bytewise32" "cfg_ok cfg_be64"
  by (simp_all add: cfg_ok_def endian_ok_def bitscan_ok_def cfg_amd64_def cfg_bytewise32_def
      cfg_be64_def is_cttz_scan)

end
