(* ===== verification/Lzo_Memops.thy ===== *)
theory Lzo_Memops
  imports Lzo_Conf
begin

text \<open>
  The memory-access macros and functions of \<^verbatim>\<open>minilzo.c\<close> (\<^verbatim>\<open>LZO_MEMOPS_*\<close>,
  \<^verbatim>\<open>lzo_memops_*\<close>, \<^verbatim>\<open>UA_*\<close>): byte moves, unaligned block copies, little-endian and
  native loads and stores. The theory shows that on ranges that do not overlap every variant
  is the forward byte copy, and that the little-endian loads do not depend on the build.
\<close>

definition LZO_BYTE :: "nat \<Rightarrow> u8" where
  "LZO_BYTE x = word_of_nat x"

section \<open>Setting and moving bytes\<close>

definition LZO_MEMOPS_SET1 :: "'r mem \<Rightarrow> 'r ptr \<Rightarrow> nat \<Rightarrow> 'r mem option" where
  "LZO_MEMOPS_SET1 m dd cc = wr m dd (LZO_BYTE cc)"

definition LZO_MEMOPS_SET2 :: "'r mem \<Rightarrow> 'r ptr \<Rightarrow> nat \<Rightarrow> 'r mem option" where
  "LZO_MEMOPS_SET2 m dd cc = do {
     m \<leftarrow> wr m dd (LZO_BYTE cc); wr m (padd dd 1) (LZO_BYTE cc) }"

definition LZO_MEMOPS_SET3 :: "'r mem \<Rightarrow> 'r ptr \<Rightarrow> nat \<Rightarrow> 'r mem option" where
  "LZO_MEMOPS_SET3 m dd cc = do {
     m \<leftarrow> wr m dd (LZO_BYTE cc); m \<leftarrow> wr m (padd dd 1) (LZO_BYTE cc);
     wr m (padd dd 2) (LZO_BYTE cc) }"

definition LZO_MEMOPS_SET4 :: "'r mem \<Rightarrow> 'r ptr \<Rightarrow> nat \<Rightarrow> 'r mem option" where
  "LZO_MEMOPS_SET4 m dd cc = do {
     m \<leftarrow> wr m dd (LZO_BYTE cc); m \<leftarrow> wr m (padd dd 1) (LZO_BYTE cc);
     m \<leftarrow> wr m (padd dd 2) (LZO_BYTE cc); wr m (padd dd 3) (LZO_BYTE cc) }"

definition LZO_MEMOPS_MOVE1 :: "'r mem \<Rightarrow> 'r ptr \<Rightarrow> 'r ptr \<Rightarrow> 'r mem option" where
  "LZO_MEMOPS_MOVE1 m dd ss = do { b \<leftarrow> rd m ss; wr m dd b }"

definition LZO_MEMOPS_MOVE2 :: "'r mem \<Rightarrow> 'r ptr \<Rightarrow> 'r ptr \<Rightarrow> 'r mem option" where
  "LZO_MEMOPS_MOVE2 m dd ss = do {
     m \<leftarrow> LZO_MEMOPS_MOVE1 m dd ss; LZO_MEMOPS_MOVE1 m (padd dd 1) (padd ss 1) }"

definition LZO_MEMOPS_MOVE3 :: "'r mem \<Rightarrow> 'r ptr \<Rightarrow> 'r ptr \<Rightarrow> 'r mem option" where
  "LZO_MEMOPS_MOVE3 m dd ss = do {
     m \<leftarrow> LZO_MEMOPS_MOVE1 m dd ss; m \<leftarrow> LZO_MEMOPS_MOVE1 m (padd dd 1) (padd ss 1);
     LZO_MEMOPS_MOVE1 m (padd dd 2) (padd ss 2) }"

definition LZO_MEMOPS_MOVE4 :: "'r mem \<Rightarrow> 'r ptr \<Rightarrow> 'r ptr \<Rightarrow> 'r mem option" where
  "LZO_MEMOPS_MOVE4 m dd ss = do {
     m \<leftarrow> LZO_MEMOPS_MOVE1 m dd ss; m \<leftarrow> LZO_MEMOPS_MOVE1 m (padd dd 1) (padd ss 1);
     m \<leftarrow> LZO_MEMOPS_MOVE1 m (padd dd 2) (padd ss 2); LZO_MEMOPS_MOVE1 m (padd dd 3) (padd ss 3) }"

definition LZO_MEMOPS_MOVE8 :: "'r mem \<Rightarrow> 'r ptr \<Rightarrow> 'r ptr \<Rightarrow> 'r mem option" where
  "LZO_MEMOPS_MOVE8 m dd ss = do {
     m \<leftarrow> LZO_MEMOPS_MOVE1 m dd ss; m \<leftarrow> LZO_MEMOPS_MOVE1 m (padd dd 1) (padd ss 1);
     m \<leftarrow> LZO_MEMOPS_MOVE1 m (padd dd 2) (padd ss 2);
     m \<leftarrow> LZO_MEMOPS_MOVE1 m (padd dd 3) (padd ss 3);
     m \<leftarrow> LZO_MEMOPS_MOVE1 m (padd dd 4) (padd ss 4);
     m \<leftarrow> LZO_MEMOPS_MOVE1 m (padd dd 5) (padd ss 5);
     m \<leftarrow> LZO_MEMOPS_MOVE1 m (padd dd 6) (padd ss 6); LZO_MEMOPS_MOVE1 m (padd dd 7) (padd ss 7) }"

section \<open>Block copies\<close>

text \<open>
  With \<^verbatim>\<open>LZO_OPT_UNALIGNEDn\<close> a block copy is one unaligned load and one store, otherwise
  the byte moves. The variants on \<^verbatim>\<open>lzo_memops_tcheck__\<close> are never compiled (its definition
  is disabled by \<^verbatim>\<open>&& 0\<close>).
\<close>

definition LZO_MEMOPS_COPY1 :: "'r mem \<Rightarrow> 'r ptr \<Rightarrow> 'r ptr \<Rightarrow> 'r mem option" where
  "LZO_MEMOPS_COPY1 m dd ss = LZO_MEMOPS_MOVE1 m dd ss"

definition LZO_MEMOPS_COPY2 :: "lzo_cfg \<Rightarrow> 'r mem \<Rightarrow> 'r ptr \<Rightarrow> 'r ptr \<Rightarrow> 'r mem option" where
  "LZO_MEMOPS_COPY2 c m dd ss =
     (if opt_unaligned16 c then wide m dd ss 2 else LZO_MEMOPS_MOVE2 m dd ss)"

definition LZO_MEMOPS_COPY4 :: "lzo_cfg \<Rightarrow> 'r mem \<Rightarrow> 'r ptr \<Rightarrow> 'r ptr \<Rightarrow> 'r mem option" where
  "LZO_MEMOPS_COPY4 c m dd ss =
     (if opt_unaligned32 c then wide m dd ss 4 else LZO_MEMOPS_MOVE4 m dd ss)"

definition LZO_MEMOPS_COPY8 :: "lzo_cfg \<Rightarrow> 'r mem \<Rightarrow> 'r ptr \<Rightarrow> 'r ptr \<Rightarrow> 'r mem option" where
  "LZO_MEMOPS_COPY8 c m dd ss =
     (if wordsize c \<noteq> 8 then
        do { m \<leftarrow> LZO_MEMOPS_COPY4 c m dd ss; LZO_MEMOPS_COPY4 c m (padd dd 4) (padd ss 4) }
      else if opt_unaligned64 c then wide m dd ss 8
      else if opt_unaligned32 c then
        do { m \<leftarrow> LZO_MEMOPS_COPY4 c m dd ss; LZO_MEMOPS_COPY4 c m (padd dd 4) (padd ss 4) }
      else LZO_MEMOPS_MOVE8 m dd ss)"

text \<open>The loop \<^verbatim>\<open>while (n >= k) { copy_k(d, s); d += k; s += k; n -= k; }\<close>.\<close>

function copy_chunks :: "('r mem \<Rightarrow> 'r ptr \<Rightarrow> 'r ptr \<Rightarrow> 'r mem option) \<Rightarrow> nat \<Rightarrow>
    'r mem \<Rightarrow> 'r ptr \<Rightarrow> 'r ptr \<Rightarrow> nat \<Rightarrow> ('r mem \<times> 'r ptr \<times> 'r ptr \<times> nat) option" where
  "copy_chunks cp k m d s n =
     (if 0 < k \<and> k \<le> n then do { m' \<leftarrow> cp m d s; copy_chunks cp k m' (padd d k) (padd s k) (n - k) }
      else Some (m, d, s, n))"
  by pat_completeness auto
termination
  by (relation "measure (\<lambda>(cp, k, m, d, s, n). n)") auto

declare copy_chunks.simps [simp del]

definition LZO_MEMOPS_COPYN :: "lzo_cfg \<Rightarrow> 'r mem \<Rightarrow> 'r ptr \<Rightarrow> 'r ptr \<Rightarrow> nat \<Rightarrow> 'r mem option" where
  "LZO_MEMOPS_COPYN c m dd ss nn = do {
     (m, d, s, n) \<leftarrow> copy_chunks (LZO_MEMOPS_COPY8 c) 8 m dd ss nn;
     (m, d, s, n) \<leftarrow> (if n \<ge> 4
        then do { m \<leftarrow> LZO_MEMOPS_COPY4 c m d s; Some (m, padd d 4, padd s 4, n - 4) }
        else Some (m, d, s, n));
     mv m d s n }"

section \<open>Block copies are forward byte copies\<close>

lemma MOVE1_eq_mv: "LZO_MEMOPS_MOVE1 m d s = mv m d s 1"
  by (simp add: LZO_MEMOPS_MOVE1_def)

lemma mv_unfold: "mv m d s (Suc (Suc k)) = do {
    m \<leftarrow> mv m d s 1; mv m (padd d 1) (padd s 1) (Suc k) }"
  by simp

lemma MOVE_eq_mv:
  "LZO_MEMOPS_MOVE2 m d s = mv m d s 2"
  "LZO_MEMOPS_MOVE3 m d s = mv m d s 3"
  "LZO_MEMOPS_MOVE4 m d s = mv m d s 4"
  "LZO_MEMOPS_MOVE8 m d s = mv m d s 8"
  by (simp_all add: mv_unfold LZO_MEMOPS_MOVE2_def LZO_MEMOPS_MOVE3_def
      LZO_MEMOPS_MOVE4_def LZO_MEMOPS_MOVE8_def MOVE1_eq_mv numeral_eq_Suc del: mv.simps)

lemma no_overlap_le: "no_overlap d s n \<Longrightarrow> k \<le> n \<Longrightarrow> no_overlap d s k"
  by (auto simp: no_overlap_def)

lemma no_overlap_padd [simp]: "no_overlap (padd d k) (padd s k) n = no_overlap d s n"
  by (simp add: no_overlap_def)

text \<open>
  A block-copy primitive of \<open>k\<close> bytes promises the forward byte copy whenever the source is
  not overwritten before it is read. What its clients need, the chunked loop, follows once.
\<close>

locale block_copy =
  fixes cp :: "'r mem \<Rightarrow> 'r ptr \<Rightarrow> 'r ptr \<Rightarrow> 'r mem option"
    and k :: nat
  assumes size_pos: "0 < k"
    and copy_law: "no_overlap d s k \<Longrightarrow> cp m d s = mv m d s k"
begin

lemma chunks:
  assumes "no_overlap d s k"
  shows "copy_chunks cp k m d s n =
    map_option (\<lambda>m'. (m', padd d (n - n mod k), padd s (n - n mod k), n mod k)) (mv m d s (n - n mod k))"
  using assms
proof (induction n arbitrary: m d s rule: less_induct)
  case (less n)
  show ?case
  proof (cases "k \<le> n")
    case True
    have r: "(n - k) mod k = n mod k" using True by (metis le_mod_geq)
    then have le: "n mod k \<le> n - k" by (metis mod_less_eq_dividend)
    then have e: "k + (n - k - n mod k) = n - n mod k" using True by simp
    have IH: "copy_chunks cp k m' (padd d k) (padd s k) (n - k) =
      map_option (\<lambda>m'. (m', padd d (n - n mod k), padd s (n - n mod k), n mod k))
        (mv m' (padd d k) (padd s k) (n - k - n mod k))" for m'
      using less.IH [of "n - k" "padd d k" "padd s k" m'] less.prems True size_pos
      by (simp only: r e padd_simps no_overlap_padd)
    have "mv m d s (n - n mod k) =
        do { m' \<leftarrow> mv m d s k; mv m' (padd d k) (padd s k) (n - k - n mod k) }"
      by (simp only: mv_add e [symmetric])
    then show ?thesis
      using True size_pos copy_law [OF less.prems] IH
      by (subst copy_chunks.simps) (simp add: map_option_bind comp_def)
  next
    case False
    then show ?thesis by (subst copy_chunks.simps) simp
  qed
qed

text \<open>Chunks, then the rest byte by byte.\<close>

lemma chunks_rest:
  assumes "no_overlap d s k"
  shows "do { (m, d, s, t) \<leftarrow> copy_chunks cp k m d s t;
      m \<leftarrow> (if t > 0 then mv m d s t else Some m); f m (snd d + t) } =
    do { m \<leftarrow> mv m d s t; f m (snd d + t) }"
proof -
  let ?q = "t - t mod k"
  have "mv m d s t = do { m \<leftarrow> mv m d s ?q; mv m (padd d ?q) (padd s ?q) (t mod k) }"
    using mv_add [of m d s ?q "t mod k"] by simp
  moreover have "snd d + t - t mod k + t mod k = snd d + t"
    using mod_less_eq_dividend [of t k] by linarith
  ultimately show ?thesis
    unfolding chunks [OF assms] by (cases "mv m d s ?q") auto
qed

end

interpretation c2: block_copy "LZO_MEMOPS_COPY2 c" 2 for c
  by unfold_locales (simp_all add: LZO_MEMOPS_COPY2_def wide_eq_mv MOVE_eq_mv)

interpretation c4: block_copy "LZO_MEMOPS_COPY4 c" 4 for c
  by unfold_locales (simp_all add: LZO_MEMOPS_COPY4_def wide_eq_mv MOVE_eq_mv)

interpretation c8: block_copy "LZO_MEMOPS_COPY8 c" 8 for c
proof unfold_locales
  fix d s :: "'a ptr" and m :: "'a mem"
  assume ov: "no_overlap d s 8"
  then have "no_overlap d s 4" by (rule no_overlap_le) simp
  then have "do { m \<leftarrow> LZO_MEMOPS_COPY4 c m d s; LZO_MEMOPS_COPY4 c m (padd d 4) (padd s 4) } = mv m d s 8"
    using mv_add [of m d s 4 4] by (simp add: c4.copy_law)
  then show "LZO_MEMOPS_COPY8 c m d s = mv m d s 8"
    using ov by (simp add: LZO_MEMOPS_COPY8_def wide_eq_mv MOVE_eq_mv)
qed simp

lemma COPYN_eq_mv:
  assumes "no_overlap d s 8"
  shows "LZO_MEMOPS_COPYN c m d s n = mv m d s n"
proof -
  let ?q = "n - n mod 8"
  have four: "no_overlap (padd d ?q) (padd s ?q) 4" using no_overlap_le [OF assms, of 4] by simp
  have split: "mv m d s n = do { m' \<leftarrow> mv m d s ?q; mv m' (padd d ?q) (padd s ?q) (n mod 8) }"
    using mv_add [of m d s ?q "n mod 8"] by simp
  have tail: "do { (m, d, s, n) \<leftarrow> (if n \<ge> 4
        then do { m \<leftarrow> LZO_MEMOPS_COPY4 c m d s; Some (m, padd d 4, padd s 4, n - 4) }
        else Some (m, d, s, n)); mv m d s n } = mv m d s n" if "no_overlap d s 4" for m d s n
    using that by (auto simp: c4.copy_law le_iff_add mv_add)
  show ?thesis
    unfolding LZO_MEMOPS_COPYN_def c8.chunks [OF assms] split
    using tail [OF four] by (cases "mv m d s ?q") (simp_all only: option.map Option.bind.simps prod.case)
qed

section \<open>Multi-byte values\<close>

text \<open>The value of a byte string, least significant byte first.\<close>

fun le_val :: "u8 list \<Rightarrow> nat" where
  "le_val [] = 0"
| "le_val (b # bs) = unat b + 256 * le_val bs"

text \<open>The value the machine reads from bytes in memory, and the bytes it writes for a value.\<close>

definition native_val :: "lzo_cfg \<Rightarrow> u8 list \<Rightarrow> nat" where
  "native_val c bs = le_val (if host_big c then rev bs else bs)"

fun le_bytes :: "nat \<Rightarrow> nat \<Rightarrow> u8 list" where
  "le_bytes 0 v = []"
| "le_bytes (Suc k) v = word_of_nat v # le_bytes k (v div 256)"

definition native_bytes :: "lzo_cfg \<Rightarrow> nat \<Rightarrow> nat \<Rightarrow> u8 list" where
  "native_bytes c k v = (if host_big c then rev (le_bytes k v) else le_bytes k v)"

definition lzo_memops_get_le16 :: "lzo_cfg \<Rightarrow> 'r mem \<Rightarrow> 'r ptr \<Rightarrow> u16 option" where
  "lzo_memops_get_le16 c m ss =
     (if abi c = ABI_LITTLE then map_option (\<lambda>v. word_of_nat (native_val c v)) (load m ss 2)
      else do { b0 \<leftarrow> rd m ss; b1 \<leftarrow> rd m (padd ss 1); Some (ucast b0 OR push_bit 8 (ucast b1)) })"

definition lzo_memops_get_le32 :: "lzo_cfg \<Rightarrow> 'r mem \<Rightarrow> 'r ptr \<Rightarrow> u32 option" where
  "lzo_memops_get_le32 c m ss =
     (if abi c = ABI_LITTLE then map_option (\<lambda>v. word_of_nat (native_val c v)) (load m ss 4)
      else do { b0 \<leftarrow> rd m ss; b1 \<leftarrow> rd m (padd ss 1); b2 \<leftarrow> rd m (padd ss 2); b3 \<leftarrow> rd m (padd ss 3);
        Some (ucast b0 OR push_bit 8 (ucast b1) OR push_bit 16 (ucast b2) OR push_bit 24 (ucast b3)) })"

definition lzo_memops_get_ne16 :: "lzo_cfg \<Rightarrow> 'r mem \<Rightarrow> 'r ptr \<Rightarrow> u16 option" where
  "lzo_memops_get_ne16 c m ss = map_option (\<lambda>v. word_of_nat (native_val c v)) (load m ss 2)"

definition lzo_memops_get_ne32 :: "lzo_cfg \<Rightarrow> 'r mem \<Rightarrow> 'r ptr \<Rightarrow> u32 option" where
  "lzo_memops_get_ne32 c m ss = map_option (\<lambda>v. word_of_nat (native_val c v)) (load m ss 4)"

definition lzo_memops_put_le16 :: "lzo_cfg \<Rightarrow> 'r mem \<Rightarrow> 'r ptr \<Rightarrow> u16 \<Rightarrow> 'r mem option" where
  "lzo_memops_put_le16 c m dd vv =
     (if abi c = ABI_LITTLE then store m dd (native_bytes c 2 (unat vv))
      else do { m \<leftarrow> wr m dd (ucast (vv AND 0xff)); wr m (padd dd 1) (ucast (drop_bit 8 vv AND 0xff)) })"

definition lzo_memops_put_le32 :: "lzo_cfg \<Rightarrow> 'r mem \<Rightarrow> 'r ptr \<Rightarrow> u32 \<Rightarrow> 'r mem option" where
  "lzo_memops_put_le32 c m dd vv =
     (if abi c = ABI_LITTLE then store m dd (native_bytes c 4 (unat vv))
      else do { m \<leftarrow> wr m dd (ucast (vv AND 0xff)); m \<leftarrow> wr m (padd dd 1) (ucast (drop_bit 8 vv AND 0xff));
        m \<leftarrow> wr m (padd dd 2) (ucast (drop_bit 16 vv AND 0xff));
        wr m (padd dd 3) (ucast (drop_bit 24 vv AND 0xff)) })"

definition lzo_memops_put_ne16 :: "lzo_cfg \<Rightarrow> 'r mem \<Rightarrow> 'r ptr \<Rightarrow> u16 \<Rightarrow> 'r mem option" where
  "lzo_memops_put_ne16 c m dd vv = store m dd (native_bytes c 2 (unat vv))"

definition lzo_memops_put_ne32 :: "lzo_cfg \<Rightarrow> 'r mem \<Rightarrow> 'r ptr \<Rightarrow> u32 \<Rightarrow> 'r mem option" where
  "lzo_memops_put_ne32 c m dd vv = store m dd (native_bytes c 4 (unat vv))"

text \<open>The \<^verbatim>\<open>UA_*\<close> accessors: a direct unaligned access where the build allows one.\<close>

definition UA_GET_LE16 :: "lzo_cfg \<Rightarrow> 'r mem \<Rightarrow> 'r ptr \<Rightarrow> u16 option" where
  "UA_GET_LE16 c m ss = (if opt_unaligned16 c \<and> abi c = ABI_LITTLE
     then map_option (\<lambda>v. word_of_nat (native_val c v)) (load m ss 2) else lzo_memops_get_le16 c m ss)"

definition UA_GET_LE32 :: "lzo_cfg \<Rightarrow> 'r mem \<Rightarrow> 'r ptr \<Rightarrow> u32 option" where
  "UA_GET_LE32 c m ss = (if opt_unaligned32 c \<and> abi c = ABI_LITTLE
     then map_option (\<lambda>v. word_of_nat (native_val c v)) (load m ss 4) else lzo_memops_get_le32 c m ss)"

definition UA_GET_LE64 :: "lzo_cfg \<Rightarrow> 'r mem \<Rightarrow> 'r ptr \<Rightarrow> u64 option" where
  "UA_GET_LE64 c m ss = map_option (\<lambda>v. word_of_nat (native_val c v)) (load m ss 8)"

definition UA_GET_NE16 :: "lzo_cfg \<Rightarrow> 'r mem \<Rightarrow> 'r ptr \<Rightarrow> u16 option" where
  "UA_GET_NE16 c m ss = (if opt_unaligned16 c
     then map_option (\<lambda>v. word_of_nat (native_val c v)) (load m ss 2) else lzo_memops_get_ne16 c m ss)"

definition UA_GET_NE32 :: "lzo_cfg \<Rightarrow> 'r mem \<Rightarrow> 'r ptr \<Rightarrow> u32 option" where
  "UA_GET_NE32 c m ss = (if opt_unaligned32 c
     then map_option (\<lambda>v. word_of_nat (native_val c v)) (load m ss 4) else lzo_memops_get_ne32 c m ss)"

definition UA_GET_NE64 :: "lzo_cfg \<Rightarrow> 'r mem \<Rightarrow> 'r ptr \<Rightarrow> u64 option" where
  "UA_GET_NE64 c m ss = map_option (\<lambda>v. word_of_nat (native_val c v)) (load m ss 8)"

section \<open>Values and bytes\<close>

lemma le_val_less: "le_val bs < 256 ^ length bs"
proof (induction bs)
  case Nil
  then show ?case by simp
next
  case (Cons b bs)
  with u8_less [of b] show ?case by simp
qed

lemma le_val_inj: "length xs = length ys \<Longrightarrow> le_val xs = le_val ys \<longleftrightarrow> xs = ys"
proof (induction xs ys rule: list_induct2)
  case Nil
  then show ?case by simp
next
  case (Cons x xs y ys)
  have "unat x + 256 * le_val xs = unat y + 256 * le_val ys \<longleftrightarrow> unat x = unat y \<and> le_val xs = le_val ys"
    by (rule digit_inj) (rule u8_less)+
  with Cons show ?case by (simp add: word_unat_eq_iff)
qed

lemma length_le_bytes [simp]: "length (le_bytes k v) = k"
  by (induction k v rule: le_bytes.induct) simp_all

lemma le_val_le_bytes: "le_val (le_bytes k v) = v mod 256 ^ k"
proof (induction k v rule: le_bytes.induct)
  case (1 v)
  then show ?case by simp
next
  case (2 k v)
  then show ?case by (simp add: unat_of_nat mod_mult2_eq)
qed

lemma native_val_native_bytes: "native_val c (native_bytes c k v) = v mod 256 ^ k"
  by (simp add: native_val_def native_bytes_def le_val_le_bytes)

lemma length_native_bytes [simp]: "length (native_bytes c k v) = k"
  by (simp add: native_bytes_def)

lemma native_val_inj: "length xs = length ys \<Longrightarrow> native_val c xs = native_val c ys \<longleftrightarrow> xs = ys"
  by (simp add: native_val_def le_val_inj)

lemma native_val_less: "native_val c bs < 256 ^ length bs"
  using le_val_less [of bs] le_val_less [of "rev bs"] by (simp add: native_val_def)

lemma load_store_same: "store m p bs = Some m' \<Longrightarrow> load m' p (length bs) = Some bs"
  by (auto simp: store_def load_def split: if_splits)

text \<open>Assembling a value from its bytes by shifts is its little-endian value.\<close>

lemma or_shift_eq_plus:
  fixes a :: "'w::len word"
  assumes "\<And>n. bit a n \<Longrightarrow> n < k"
  shows "a OR push_bit k b = a + 2 ^ k * b"
proof -
  have "a AND push_bit k b = 0"
    using assms by (auto simp: bit_eq_iff bit_simps not_less [symmetric])
  then show ?thesis by (simp add: disjunctive_add_eq_or push_bit_eq_mult mult.commute)
qed

lemma bit_ucast_u8: "bit (ucast (b :: u8) :: 'w::len word) n \<Longrightarrow> n < 8"
  using bit_imp_le_length [of b n] by (simp add: bit_simps)

lemma ucast_or_shift8:
  "ucast (b :: u8) OR push_bit 8 (word_of_nat v) = (word_of_nat (unat b + 256 * v) :: 'w::len word)"
  by (simp add: or_shift_eq_plus bit_ucast_u8)

lemma le16_assemble:
  "ucast b0 OR push_bit 8 (ucast b1) = (word_of_nat (le_val [b0, b1]) :: u16)"
  using ucast_or_shift8 [of b0 "unat b1", where 'w = 16] by simp

lemma le32_assemble:
  "ucast b0 OR push_bit 8 (ucast b1) OR push_bit 16 (ucast b2) OR push_bit 24 (ucast b3) =
   (word_of_nat (le_val [b0, b1, b2, b3]) :: u32)"
proof -
  have "ucast b0 OR push_bit 8 (ucast b1) OR push_bit 16 (ucast b2) OR push_bit 24 (ucast b3) =
     (ucast b0 OR push_bit 8 (ucast b1 OR push_bit 8 (ucast b2 OR push_bit 8 (word_of_nat (unat b3)))) :: u32)"
    by (simp add: push_bit_or)
  also have "\<dots> = word_of_nat (unat b0 + 256 * (unat b1 + 256 * (unat b2 + 256 * unat b3)))"
    by (simp only: ucast_or_shift8)
  finally show ?thesis by simp
qed

lemma load_bytes:
  "load m p 2 = do { b0 \<leftarrow> rd m p; b1 \<leftarrow> rd m (padd p 1); Some [b0, b1] }"
  "load m p 4 = do { b0 \<leftarrow> rd m p; b1 \<leftarrow> rd m (padd p 1); b2 \<leftarrow> rd m (padd p 2);
     b3 \<leftarrow> rd m (padd p 3); Some [b0, b1, b2, b3] }"
  by (auto simp: numeral_eq_Suc load_Suc load_0 rd_def split: Option.bind_splits)

lemma UA_GET_LE16_eq: "endian_ok c \<Longrightarrow>
    UA_GET_LE16 c m p = map_option (\<lambda>bs. word_of_nat (le_val bs)) (load m p 2)"
  by (cases "abi c") (simp_all add: UA_GET_LE16_def lzo_memops_get_le16_def endian_ok_def
      native_val_def load_bytes le16_assemble map_option_bind comp_def)

lemma UA_GET_LE32_eq: "endian_ok c \<Longrightarrow>
    UA_GET_LE32 c m p = map_option (\<lambda>bs. word_of_nat (le_val bs)) (load m p 4)"
  by (cases "abi c") (simp_all add: UA_GET_LE32_def lzo_memops_get_le32_def endian_ok_def
      native_val_def load_bytes le32_assemble map_option_bind comp_def)

end
