(* ===== verification/Lzo_Machine.thy ===== *)
theory Lzo_Machine
  imports Lzo_Memops
begin

text \<open>
  What the two LZO1X decompressors of \<^verbatim>\<open>minilzo.c\<close> share: the local variables as a state
  record, the labels the code jumps to, the return paths, the copy loops that the build
  options select, and the run of a label machine. The theory shows that every copy variant is
  the forward byte copy, for any build.
\<close>

datatype region = In | Out

text \<open>The arguments: the two lengths and the addresses of the two buffers.\<close>

record lzo_env =
  in_len :: nat
  out_cap :: nat
  in_addr :: nat
  out_addr :: nat

record d_state =
  d_mem :: "region mem"
  d_ip :: nat
  d_op :: nat
  d_t :: nat

datatype d_label = L_top | L_first_literal_run | L_match | L_match_done | L_match_next

datatype d_result = Goto d_label d_state | Return int d_state

definition M2_MAX_OFFSET :: nat where [macro_defs]: "M2_MAX_OFFSET = 0x0800"

text \<open>
  Running the machine: \<open>Some None\<close> is undefined behaviour, \<open>Some (Some (r, s))\<close> a return
  with code \<open>r\<close>, \<open>None\<close> a loop that never returns.
\<close>

partial_function (option) d_run ::
    "(d_label \<Rightarrow> d_state \<Rightarrow> d_result option) \<Rightarrow> d_label \<Rightarrow> d_state \<Rightarrow> (int \<times> d_state) option option" where
  "d_run step l s = (case step l s of None \<Rightarrow> Some None
     | Some res \<Rightarrow> (case res of Return r s' \<Rightarrow> Some (Some (r, s')) | Goto l' s' \<Rightarrow> d_run step l' s'))"

declare d_run.simps [code]

definition d_enter :: "(d_label \<Rightarrow> d_state \<Rightarrow> d_result option) \<Rightarrow> d_result option \<Rightarrow>
    (int \<times> d_state) option option" where
  "d_enter step st = (case st of None \<Rightarrow> Some None
     | Some res \<Rightarrow> (case res of Return r s \<Rightarrow> Some (Some (r, s)) | Goto l s \<Rightarrow> d_run step l s))"

section \<open>Pointers into the output\<close>

text \<open>A pointer computed backwards from \<^verbatim>\<open>op\<close> may lie before the buffer.\<close>

definition out_ptr :: "int \<Rightarrow> region ptr option" where
  "out_ptr i = (if 0 \<le> i then Some (Out, nat i) else None)"

definition PTR :: "lzo_cfg \<Rightarrow> nat \<Rightarrow> int \<Rightarrow> nat" where
  "PTR c base i = nat ((int base + i) mod 2 ^ uint_bits c)"

definition PTR_ALIGNED2_4 :: "nat \<Rightarrow> nat \<Rightarrow> bool" where
  "PTR_ALIGNED2_4 a b \<longleftrightarrow> (a OR b) AND 3 = 0"

section \<open>The copy loops\<close>

text \<open>\<open>t + 3\<close> literal bytes from \<^verbatim>\<open>ip\<close> to \<^verbatim>\<open>op\<close>; the result is the memory and the two pointers.\<close>

definition copy_literals :: "lzo_cfg \<Rightarrow> lzo_env \<Rightarrow> region mem \<Rightarrow> nat \<Rightarrow> nat \<Rightarrow> nat \<Rightarrow>
    (region mem \<times> nat \<times> nat) option" where
  "copy_literals c e m op ip t =
     (if opt_unaligned64 c \<and> opt_unaligned32 c then do {
        (m, d, s, t) \<leftarrow> copy_chunks (LZO_MEMOPS_COPY8 c) 8 m (Out, op) (In, ip) (uw (uint_bits c) (t + 3));
        (m, d, s, t) \<leftarrow> (if t \<ge> 4
           then do { m \<leftarrow> LZO_MEMOPS_COPY4 c m d s; Some (m, padd d 4, padd s 4, t - 4) }
           else Some (m, d, s, t));
        m \<leftarrow> (if t > 0 then (if t > 1 then (if t > 2 then mv m d s 3 else mv m d s 2) else mv m d s 1)
           else Some m);
        Some (m, snd d + t, snd s + t) }
      else if opt_unaligned32 c \<or>
          (aligned_ok_4 c \<and> PTR_ALIGNED2_4 (PTR c (out_addr e) (int op)) (PTR c (in_addr e) (int ip))) then do {
        m \<leftarrow> LZO_MEMOPS_COPY4 c m (Out, op) (In, ip);
        let t = usub (uint_bits c) t 1;
        (if t > 0 then
           (if t \<ge> 4 then do {
              (m, d, s, t') \<leftarrow> copy_chunks (LZO_MEMOPS_COPY4 c) 4 m (Out, op + 4) (In, ip + 4) t;
              m \<leftarrow> (if t' > 0 then mv m d s t' else Some m);
              Some (m, op + 4 + t, ip + 4 + t) }
            else do { m \<leftarrow> mv m (Out, op + 4) (In, ip + 4) t; Some (m, op + 4 + t, ip + 4 + t) })
         else Some (m, op + 4, ip + 4)) }
      else do {
        m \<leftarrow> mv m (Out, op) (In, ip) 3;
        let n = do_while_count (uint_bits c) t;
        m \<leftarrow> mv m (Out, op + 3) (In, ip + 3) n;
        Some (m, op + 3 + n, ip + 3 + n) })"

text \<open>The label \<^verbatim>\<open>copy_match\<close>: two bytes, then the loop on \<open>t\<close>.\<close>

definition copy_match :: "lzo_cfg \<Rightarrow> region mem \<Rightarrow> nat \<Rightarrow> int \<Rightarrow> nat \<Rightarrow> (region mem \<times> nat) option" where
  "copy_match c m op m_pos t = do {
     p \<leftarrow> out_ptr m_pos;
     m \<leftarrow> mv m (Out, op) p 2;
     let n = do_while_count (uint_bits c) t;
     m \<leftarrow> mv m (Out, op + 2) (padd p 2) n;
     Some (m, op + 2 + n) }"

text \<open>The copy after a long match (\<open>t + 2\<close> bytes), which falls back on \<^verbatim>\<open>copy_match\<close>.\<close>

definition copy_match_fast :: "lzo_cfg \<Rightarrow> lzo_env \<Rightarrow> region mem \<Rightarrow> nat \<Rightarrow> int \<Rightarrow> nat \<Rightarrow>
    (region mem \<times> nat) option" where
  "copy_match_fast c e m op m_pos t =
     (if opt_unaligned64 c \<and> opt_unaligned32 c then
        (if int op - m_pos \<ge> 8 then do {
           p \<leftarrow> out_ptr m_pos;
           (m, d, s, t) \<leftarrow> copy_chunks (LZO_MEMOPS_COPY8 c) 8 m (Out, op) p (uw (uint_bits c) (t + 2));
           (m, d, s, t) \<leftarrow> (if t \<ge> 4
              then do { m \<leftarrow> LZO_MEMOPS_COPY4 c m d s; Some (m, padd d 4, padd s 4, t - 4) }
              else Some (m, d, s, t));
           m \<leftarrow> (if t > 0 then (if t > 1 then (if t > 2 then mv m d s 3 else mv m d s 2) else mv m d s 1)
              else Some m);
           Some (m, snd d + t) }
         else copy_match c m op m_pos t)
      else if (opt_unaligned32 c \<and> t \<ge> 2 * 4 - (3 - 1) \<and> int op - m_pos \<ge> 4) \<or>
          (\<not> opt_unaligned32 c \<and> aligned_ok_4 c \<and> t \<ge> 2 * 4 - (3 - 1) \<and>
           PTR_ALIGNED2_4 (PTR c (out_addr e) (int op)) (PTR c (out_addr e) m_pos)) then do {
        p \<leftarrow> out_ptr m_pos;
        m \<leftarrow> LZO_MEMOPS_COPY4 c m (Out, op) p;
        (m, d, s, t) \<leftarrow> copy_chunks (LZO_MEMOPS_COPY4 c) 4 m (Out, op + 4) (padd p 4) (t - (4 - (3 - 1)));
        m \<leftarrow> (if t > 0 then mv m d s t else Some m);
        Some (m, snd d + t) }
      else copy_match c m op m_pos t)"

text \<open>The 14-bit offset in the two bytes at \<^verbatim>\<open>ip\<close>.\<close>

definition get_off14 :: "lzo_cfg \<Rightarrow> region mem \<Rightarrow> nat \<Rightarrow> nat option" where
  "get_off14 c m ip =
     (if opt_unaligned16 c \<and> abi c = ABI_LITTLE
      then map_option (\<lambda>v. unat v div 4) (UA_GET_LE16 c m (In, ip))
      else do { b0 \<leftarrow> rd m (In, ip); b1 \<leftarrow> rd m (In, ip + 1); Some (unat b0 div 4 + unat b1 * 64) })"

text \<open>The return at \<^verbatim>\<open>eof_found\<close>.\<close>

definition eof_found :: "lzo_env \<Rightarrow> d_state \<Rightarrow> d_result" where
  "eof_found e s = Return (if d_ip s = in_len e then LZO_E_OK
     else if d_ip s < in_len e then LZO_E_INPUT_NOT_CONSUMED else LZO_E_INPUT_OVERRUN) s"

section \<open>Every copy variant is the byte copy\<close>

lemma tail_mv:
  assumes "t \<le> 3"
  shows "(if t > 0 then (if t > 1 then (if t > 2 then mv m d s 3 else mv m d s 2) else mv m d s 1)
     else Some m) = mv m d s t"
proof -
  have "t = 0 \<or> t = 1 \<or> t = 2 \<or> t = 3" using assms by arith
  then show ?thesis by auto
qed

text \<open>Chunks of eight, one of four, and up to three bytes: \<open>t\<close> bytes in all.\<close>

lemma copy_8_4_1:
  assumes "no_overlap d s 8"
  shows "do { (m, d, s, t) \<leftarrow> copy_chunks (LZO_MEMOPS_COPY8 c) 8 m d s t;
      (m, d, s, t) \<leftarrow> (if t \<ge> 4
         then do { m \<leftarrow> LZO_MEMOPS_COPY4 c m d s; Some (m, padd d 4, padd s 4, t - 4) }
         else Some (m, d, s, t));
      m \<leftarrow> (if t > 0 then (if t > 1 then (if t > 2 then mv m d s 3 else mv m d s 2) else mv m d s 1)
         else Some m);
      f m (snd d + t) (snd s + t) } =
    do { m \<leftarrow> mv m d s t; f m (snd d + t) (snd s + t) }"
proof -
  let ?q = "t - t mod 8"
  have four: "no_overlap (padd d ?q) (padd s ?q) 4" using no_overlap_le [OF assms, of 4] by simp
  have part: "do { (m, d, s, t) \<leftarrow> (if t \<ge> 4
         then do { m \<leftarrow> LZO_MEMOPS_COPY4 c m d s; Some (m, padd d 4, padd s 4, t - 4) }
         else Some (m, d, s, t));
      m \<leftarrow> (if t > 0 then (if t > 1 then (if t > 2 then mv m d s 3 else mv m d s 2) else mv m d s 1)
         else Some m);
      f m (snd d + t) (snd s + t) } = do { m \<leftarrow> mv m d s t; f m (snd d + t) (snd s + t) }"
    if ov: "no_overlap d s 4" and lt: "t < 8" for m d s t
  proof (cases "4 \<le> t")
    case True
    then obtain k where "t = 4 + k" by (auto simp: le_iff_add)
    moreover from this have "k \<le> 3" using lt by simp
    ultimately show ?thesis using ov by (simp add: c4.copy_law tail_mv mv_add add.assoc)
  next
    case False
    then show ?thesis by (simp add: tail_mv)
  qed
  have "mv m d s t = do { m \<leftarrow> mv m d s ?q; mv m (padd d ?q) (padd s ?q) (t mod 8) }"
    using mv_add [of m d s ?q "t mod 8"] by simp
  then show ?thesis
    unfolding c8.chunks [OF assms]
    by (cases "mv m d s ?q")
      (simp_all only: option.map Option.bind.simps prod.case part [OF four] mod_less_divisor,
       simp_all)
qed

lemma no_overlap_regions [simp]: "no_overlap (Out, i) (In, j) n"
  by (simp add: no_overlap_def)

lemma copy_literals_eq:
  assumes "0 < t" "t + 3 < 2 ^ uint_bits c"
  shows "copy_literals c e m op ip t =
    do { m \<leftarrow> mv m (Out, op) (In, ip) (t + 3); Some (m, op + (t + 3), ip + (t + 3)) }"
proof -
  have three: "mv m (Out, op) (In, ip) (t + 3) =
      do { m \<leftarrow> mv m (Out, op) (In, ip) 3; mv m (Out, op + 3) (In, ip + 3) t }"
    using mv_add [of m "(Out, op)" "(In, ip)" 3 t] by (simp add: add.commute)
  have four: "mv m (Out, op) (In, ip) (t + 3) =
      do { m \<leftarrow> mv m (Out, op) (In, ip) 4; mv m (Out, op + 4) (In, ip + 4) (t - 1) }"
    using mv_add [of m "(Out, op)" "(In, ip)" 4 "t - 1"] assms(1) by (simp add: add.commute)
  have t1: "usub (uint_bits c) t 1 = t - 1" using assms by (simp add: usub_le)
  consider "opt_unaligned64 c \<and> opt_unaligned32 c"
    | "\<not> (opt_unaligned64 c \<and> opt_unaligned32 c)"
      "opt_unaligned32 c \<or> (aligned_ok_4 c \<and>
        PTR_ALIGNED2_4 (PTR c (out_addr e) (int op)) (PTR c (in_addr e) (int ip)))"
    | "\<not> (opt_unaligned64 c \<and> opt_unaligned32 c)"
      "\<not> (opt_unaligned32 c \<or> (aligned_ok_4 c \<and>
        PTR_ALIGNED2_4 (PTR c (out_addr e) (int op)) (PTR c (in_addr e) (int ip))))"
    by blast
  then show ?thesis
  proof cases
    case 1
    then show ?thesis
      unfolding copy_literals_def
      using copy_8_4_1 [of "(Out, op)" "(In, ip)" c m "t + 3" "\<lambda>m a b. Some (m, a, b)"] assms(2)
      by simp
  next
    case 2
    have loop: "do { (m, d, s, t') \<leftarrow> copy_chunks (LZO_MEMOPS_COPY4 c) 4 m (Out, op + 4) (In, ip + 4) (t - 1);
        m \<leftarrow> (if t' > 0 then mv m d s t' else Some m);
        Some (m, op + 4 + (t - 1), ip + 4 + (t - 1)) } =
      do { m \<leftarrow> mv m (Out, op + 4) (In, ip + 4) (t - 1); Some (m, op + 4 + (t - 1), ip + 4 + (t - 1)) }" for m
      using c4.chunks_rest [of "(Out, op + 4)" "(In, ip + 4)" c m "t - 1"
          "\<lambda>m _. Some (m, op + 4 + (t - 1), ip + 4 + (t - 1))"] by simp
    have z: "t - 1 = 0 \<Longrightarrow> t = 1" using assms(1) by simp
    show ?thesis
      unfolding copy_literals_def if_not_P [OF 2(1)] if_P [OF 2(2)] t1 Let_def loop four
      using assms(1) z by (cases "t - 1 = 0") (auto simp: c4.copy_law ac_simps)
  next
    case 3
    then show ?thesis
      unfolding copy_literals_def if_not_P [OF 3(1)] if_not_P [OF 3(2)] three
      using assms(1) by (simp add: Let_def ac_simps)
  qed
qed

lemma copy_match_eq:
  assumes "0 < t" "0 \<le> m_pos"
  shows "copy_match c m op m_pos t =
    do { m \<leftarrow> mv m (Out, op) (Out, nat m_pos) (t + 2); Some (m, op + (t + 2)) }"
  using assms mv_add [of m "(Out, op)" "(Out, nat m_pos)" 2 t]
  by (simp add: copy_match_def out_ptr_def Let_def add.commute [of 2] add.assoc)

lemma PTR_ALIGNED2_4_iff: "PTR_ALIGNED2_4 a b \<longleftrightarrow> a mod 4 = 0 \<and> b mod 4 = 0"
proof -
  have and3: "x AND 3 = x mod 4" for x :: nat
    using take_bit_eq_mask [of 2 x] by (simp add: take_bit_eq_mod mask_eq_exp_minus_1)
  have "(a OR b) AND 3 = (a AND 3) OR (b AND 3)"
    by (rule bit_eqI) (auto simp: bit_simps)
  then show ?thesis by (simp add: PTR_ALIGNED2_4_def and3 or_eq_0_iff)
qed

lemma PTR_in:
  assumes "0 \<le> i" "i \<le> int k" "base + k < 2 ^ uint_bits c"
  shows "PTR c base i = nat (int base + i)"
proof -
  have "int (base + k) < 2 ^ uint_bits c"
    using assms(3) by (metis of_nat_less_iff of_nat_numeral of_nat_power)
  then show ?thesis using assms(1,2) by (simp add: PTR_def)
qed

lemma aligned_gap:
  assumes "nat (a + int k) mod 4 = 0" "nat (a + i) mod 4 = 0" "0 \<le> a" "0 \<le> i" "i < int k"
  shows "4 \<le> int k - i"
proof -
  obtain p q where "nat (a + int k) = 4 * p" "nat (a + i) = 4 * q"
    using assms(1,2) by (meson dvdE mod_0_imp_dvd)
  then have "a + int k = 4 * int p" "a + i = 4 * int q" using assms(3-5) by linarith+
  then show ?thesis using assms(5) by presburger
qed

lemma copy_match_fast_eq:
  assumes t: "0 < t" "t + 2 < 2 ^ uint_bits c"
    and mp: "0 \<le> m_pos" "m_pos < int op" and addr: "out_addr e + op < 2 ^ uint_bits c"
  shows "copy_match_fast c e m op m_pos t =
    do { m \<leftarrow> mv m (Out, op) (Out, nat m_pos) (t + 2); Some (m, op + (t + 2)) }"
proof -
  let ?p = "(Out, nat m_pos)"
  have p: "out_ptr m_pos = Some ?p" using mp(1) by (simp add: out_ptr_def)
  define al where "al \<longleftrightarrow> (opt_unaligned32 c \<and> t \<ge> 2 * 4 - (3 - 1) \<and> int op - m_pos \<ge> 4) \<or>
      (\<not> opt_unaligned32 c \<and> aligned_ok_4 c \<and> t \<ge> 2 * 4 - (3 - 1) \<and>
       PTR_ALIGNED2_4 (PTR c (out_addr e) (int op)) (PTR c (out_addr e) m_pos))"
  show ?thesis
  proof (cases "opt_unaligned64 c \<and> opt_unaligned32 c")
    case True
    then show ?thesis
    proof (cases "int op - m_pos \<ge> 8")
      case ge: True
      then have "no_overlap (Out, op) ?p 8" using mp by (simp add: no_overlap_def)
      then show ?thesis
        unfolding copy_match_fast_def
        using True ge p copy_8_4_1 [of "(Out, op)" ?p c m "t + 2" "\<lambda>m a b. Some (m, a)"] t(2) by simp
    qed (simp add: copy_match_fast_def True copy_match_eq t mp)
  next
    case False
    show ?thesis
    proof (cases al)
      case True
      have six: "6 \<le> t" using True by (auto simp: al_def)
      have "int op - m_pos \<ge> 4"
      proof (cases "opt_unaligned32 c")
        case False
        then have "nat (int (out_addr e) + int op) mod 4 = 0" "nat (int (out_addr e) + m_pos) mod 4 = 0"
          using True mp by (auto simp: al_def PTR_ALIGNED2_4_iff PTR_in [OF _ _ addr])
        then show ?thesis using mp by (intro aligned_gap [of "int (out_addr e)"]) simp_all
      qed (use True in \<open>simp add: al_def\<close>)
      then have ov: "no_overlap (Out, op) ?p 4" using mp by (simp add: no_overlap_def)
      then have ov4: "no_overlap (Out, op + 4) (padd ?p 4) 4" by (simp add: no_overlap_def)
      have "t + 2 = 4 + (t - 2)" using six by simp
      then have "mv m (Out, op) ?p (t + 2) =
          do { m \<leftarrow> mv m (Out, op) ?p 4; mv m (Out, op + 4) (padd ?p 4) (t - 2) }"
        by (simp only: mv_add padd_simps)
      moreover have "op + 4 + (t - 2) = op + (t + 2)" using six by simp
      ultimately show ?thesis
        unfolding copy_match_fast_def al_def [symmetric] if_not_P [OF False] if_P [OF True]
        using p c4.copy_law [OF ov] c4.chunks_rest [OF ov4, of c _ "t - 2" "\<lambda>m a. Some (m, a)"] by simp
    next
      case al: False
      show ?thesis
        unfolding copy_match_fast_def al_def [symmetric] if_not_P [OF False] if_not_P [OF al]
        by (rule copy_match_eq [OF t(1) mp(1)])
    qed
  qed
qed

lemma get_off14_eq:
  assumes "endian_ok c"
  shows "get_off14 c m ip =
    do { b0 \<leftarrow> rd m (In, ip); b1 \<leftarrow> rd m (In, ip + 1); Some (unat b0 div 4 + unat b1 * 64) }"
proof -
  have "unat (word_of_nat (le_val [b0, b1]) :: u16) div 4 = unat b0 div 4 + unat b1 * 64" for b0 b1 :: u8
  proof -
    have "unat (word_of_nat (le_val [b0, b1]) :: u16) = le_val [b0, b1]"
      by (rule unat_u16_of_nat) (use le_val_less [of "[b0, b1]"] in simp)
    then have "unat (word_of_nat (le_val [b0, b1]) :: u16) = unat b0 + 4 * (unat b1 * 64)"
      by simp
    then show ?thesis by (simp only:)
  qed
  then show ?thesis
    using assms by (simp add: get_off14_def UA_GET_LE16_eq load_bytes map_option_bind comp_def)
qed

section \<open>Running a label machine\<close>

lemma d_run_Goto: "step l s = Some (Goto l' s') \<Longrightarrow> d_run step l s = d_run step l' s'"
  by (simp add: d_run.simps [of step l s])

lemma d_run_Return: "step l s = Some (Return r s') \<Longrightarrow> d_run step l s = Some (Some (r, s'))"
  by (simp add: d_run.simps [of step l s])

lemma d_enter_simps [simp]:
  "d_enter step (Some (Goto l s)) = d_run step l s"
  "d_enter step (Some (Return r s)) = Some (Some (r, s))"
  by (simp_all add: d_enter_def)

text \<open>
  A machine whose steps never fault, keep an invariant and decrease a rank returns, and every
  return meets the postcondition.
\<close>

locale label_machine =
  fixes step :: "d_label \<Rightarrow> d_state \<Rightarrow> d_result option"
    and inv :: "d_label \<Rightarrow> d_state \<Rightarrow> bool"
    and rank :: "d_label \<Rightarrow> d_state \<Rightarrow> nat"
    and post :: "int \<Rightarrow> d_state \<Rightarrow> bool"
  assumes step_ok: "inv l s \<Longrightarrow>
      (\<exists>l' s'. step l s = Some (Goto l' s') \<and> inv l' s' \<and> rank l' s' < rank l s) \<or>
      (\<exists>r s'. step l s = Some (Return r s') \<and> post r s')"
begin

lemma run_returns:
  assumes "inv l s"
  shows "\<exists>r s'. d_run step l s = Some (Some (r, s')) \<and> post r s'"
  using assms
proof (induction "rank l s" arbitrary: l s rule: less_induct)
  case less
  from step_ok [OF less.prems] show ?case
  proof (elim disjE exE conjE)
    fix l' s' assume "step l s = Some (Goto l' s')" "inv l' s'" "rank l' s' < rank l s"
    then show ?thesis using less.hyps by (simp add: d_run_Goto)
  qed (auto simp: d_run_Return)
qed

end

text \<open>
  A machine \<open>B\<close> that does whatever \<open>A\<close> does, as long as \<open>A\<close> goes on or returns a code of
  interest, has the runs of \<open>A\<close> that end in such a code.
\<close>

locale machine_simulation =
  fixes A B :: "d_label \<Rightarrow> d_state \<Rightarrow> d_result option"
    and good :: "int \<Rightarrow> bool"
  assumes goes_on: "A l s = Some (Goto l' s') \<Longrightarrow> B l s = Some (Goto l' s')"
    and returns: "A l s = Some (Return r s') \<Longrightarrow> good r \<Longrightarrow> B l s = Some (Return r s')"
begin

lemma same_run:
  assumes "d_run A l s = Some (Some (r, s'))" "good r"
  shows "d_run B l s = Some (Some (r, s'))"
proof -
  have "st = A \<longrightarrow> y = Some (r, s') \<longrightarrow> d_run B l s = Some y" if "d_run st l s = Some y" for st l s y
  proof (rule d_run.raw_induct [OF _ that])
    fix run st l s y
    assume IH: "\<And>st l s y. run st l s = Some y \<Longrightarrow>
        st = A \<longrightarrow> y = Some (r, s') \<longrightarrow> d_run B l s = Some y"
      and y: "(case st l s of None \<Rightarrow> Some None | Some res \<Rightarrow>
        (case res of Return r s' \<Rightarrow> Some (Some (r, s')) | Goto l' s' \<Rightarrow> run st l' s')) = Some y"
    show "st = A \<longrightarrow> y = Some (r, s') \<longrightarrow> d_run B l s = Some y"
      using y IH assms(2) goes_on returns
      by (auto simp: d_run_Goto d_run_Return split: option.splits d_result.splits)
  qed
  then show ?thesis using assms by blast
qed

end

section \<open>What a copy changes\<close>

lemma mv_frame:
  assumes "mv m (r, i) p n = Some m'" "i + n \<le> k"
  shows "drop k (m' r) = drop k (m r)" "r' \<noteq> r \<Longrightarrow> m' r' = m r'"
  using assms
proof (induction n arbitrary: m i p)
  case (Suc n)
  {
    case 1
    then obtain b m1 where "wr m (r, i) b = Some m1" "mv m1 (r, i + 1) (padd p 1) n = Some m'"
      by (auto simp: bind_eq_Some_conv)
    then show ?case using Suc.IH(1) [of m1 "i + 1"] 1 by (auto simp: wr_def split: if_splits)
  next
    case 2
    then obtain b m1 where "wr m (r, i) b = Some m1" "mv m1 (r, i + 1) (padd p 1) n = Some m'"
      by (auto simp: bind_eq_Some_conv)
    then show ?case using Suc.IH(2) [of m1 "i + 1"] 2 by (auto simp: wr_def split: if_splits)
  }
qed simp_all

lemma mv_back:
  assumes "0 \<le> m_pos" "m_pos < int op" "op + n \<le> length (m Out)"
  shows "mv m (Out, op) (Out, nat m_pos) n =
    Some (m(Out := lz_copy (take op (m Out)) (nat (int op - m_pos)) n @ drop (op + n) (m Out)))"
proof -
  have "nat m_pos = op - nat (int op - m_pos)" using assms(1,2) by linarith
  moreover have "0 < nat (int op - m_pos)" "nat (int op - m_pos) \<le> op" using assms(1,2) by linarith+
  ultimately show ?thesis using mv_within [of "nat (int op - m_pos)" op n m Out] assms(3) by simp
qed

end
