(* ===== verification/Lzo_Compress.thy ===== *)
theory Lzo_Compress
  imports Lzo_Machine
begin

text \<open>
  \<^verbatim>\<open>lzo1x_1_compress\<close> and its core \<^verbatim>\<open>do_compress\<close>: the dictionary macros, the search
  for a match, the scan for its length in the variants the build selects, the emission of
  literals and matches, the loop over blocks. Positions are offsets into the input
  and the output buffer; \<^verbatim>\<open>wrkmem\<close> is the list of its 16-bit entries. \<^verbatim>\<open>UA_GET_LE32\<close> is
  always defined, so \<^verbatim>\<open>LZO_DICT_USE_PTR\<close> is 0, \<^verbatim>\<open>LZO_DETERMINISTIC\<close> is 1 and the
  other search loop of \<^verbatim>\<open>do_compress\<close> is never compiled.
\<close>

section \<open>Constants and the dictionary\<close>

definition D_BITS :: nat where [macro_defs]: "D_BITS = 14"
definition D_MASK :: u32 where [macro_defs]: "D_MASK = 0x3fff"
definition M2_MAX_LEN :: nat where [macro_defs]: "M2_MAX_LEN = 8"
definition M3_MAX_OFFSET :: nat where [macro_defs]: "M3_MAX_OFFSET = 0x4000"
definition M3_MAX_LEN :: nat where [macro_defs]: "M3_MAX_LEN = 33"
definition M4_MAX_OFFSET :: nat where [macro_defs]: "M4_MAX_OFFSET = 0xbfff"
definition M4_MAX_LEN :: nat where [macro_defs]: "M4_MAX_LEN = 9"
definition M3_MARKER :: nat where [macro_defs]: "M3_MARKER = 32"
definition M4_MARKER :: nat where [macro_defs]: "M4_MARKER = 16"

definition DINDEX :: "u32 \<Rightarrow> nat" where
  "DINDEX dv = unat (drop_bit (32 - D_BITS) (0x1824429d * dv) AND D_MASK)"

definition DENTRY :: "nat \<Rightarrow> nat \<Rightarrow> u16" where
  "DENTRY p inb = word_of_nat (p - inb)"

text \<open>\<^verbatim>\<open>GINDEX(m_off,m_pos,in+dict,dindex,in)\<close> is \<^verbatim>\<open>m_pos = in+dict[dindex]\<close>.\<close>

definition GINDEX :: "u16 list \<Rightarrow> nat \<Rightarrow> nat \<Rightarrow> nat option" where
  "GINDEX dict dindex inb = (if dindex < length dict then Some (inb + unat (dict ! dindex)) else None)"

definition UPDATE_I :: "u16 list \<Rightarrow> nat \<Rightarrow> nat \<Rightarrow> nat \<Rightarrow> u16 list option" where
  "UPDATE_I dict dindex p inb =
     (if dindex < length dict then Some (dict[dindex := DENTRY p inb]) else None)"

section \<open>The search for a match\<close>

text \<open>
  The labels \<^verbatim>\<open>literal\<close> and \<^verbatim>\<open>next\<close>, entered at \<^verbatim>\<open>next\<close>: the dictionary, the position and
  the place of the match, or no place when the loop is left at \<^verbatim>\<open>ip_end\<close>.
\<close>

definition c_literal :: "nat \<Rightarrow> nat \<Rightarrow> nat" where
  "c_literal ip ii = ip + (1 + (ip - ii) div 32)"

function c_next :: "lzo_cfg \<Rightarrow> region mem \<Rightarrow> nat \<Rightarrow> nat \<Rightarrow> nat \<Rightarrow> u16 list \<Rightarrow> nat \<Rightarrow>
    (u16 list \<times> nat \<times> nat option) option" where
  "c_next c m inb ip_end ii dict ip =
     (if ip_end \<le> ip then Some (dict, ip, None)
      else do {
        dv \<leftarrow> UA_GET_LE32 c m (In, ip);
        let dindex = DINDEX dv;
        m_pos \<leftarrow> GINDEX dict dindex inb;
        dict \<leftarrow> UPDATE_I dict dindex ip inb;
        w \<leftarrow> UA_GET_LE32 c m (In, m_pos);
        (if dv \<noteq> w then c_next c m inb ip_end ii dict (c_literal ip ii)
         else Some (dict, ip, Some m_pos)) })"
  by pat_completeness auto
termination
  by (relation "measure (\<lambda>(c, m, inb, ip_end, ii, dict, ip). ip_end - ip)") (auto simp: c_literal_def)

declare c_next.simps [simp del]

section \<open>The length of a match\<close>

text \<open>\<^verbatim>\<open>while ((v & UCHAR_MAX) == 0)\<close> and its big-endian twin; a zero \<open>v\<close> would never end.\<close>

fun low_zero_bytes :: "nat \<Rightarrow> 'w::len word \<Rightarrow> nat option" where
  "low_zero_bytes 0 v = None"
| "low_zero_bytes (Suc n) v =
     (if v AND 255 = 0 then map_option Suc (low_zero_bytes n (drop_bit 8 v)) else Some 0)"

fun high_zero_bytes :: "nat \<Rightarrow> 'w::len word \<Rightarrow> nat option" where
  "high_zero_bytes 0 v = None"
| "high_zero_bytes (Suc n) v =
     (if drop_bit (LENGTH('w) - 8) v = 0 then map_option Suc (high_zero_bytes n (push_bit 8 v)) else Some 0)"

text \<open>\<^verbatim>\<open>while (ip[m_len] == m_pos[m_len]) m_len += 1\<close>\<close>

function c_equal_bytes :: "region mem \<Rightarrow> nat \<Rightarrow> nat \<Rightarrow> nat \<Rightarrow> nat option" where
  "c_equal_bytes m ip m_pos m_len =
     (if ip + m_len < length (m In) \<and> m_pos + m_len < length (m In) then
        if m In ! (ip + m_len) = m In ! (m_pos + m_len) then c_equal_bytes m ip m_pos (m_len + 1)
        else Some m_len
      else None)"
  by pat_completeness auto
termination
  by (relation "measure (\<lambda>(m, ip, m_pos, m_len). length (m In) - (ip + m_len))") auto

declare c_equal_bytes.simps [simp del]

text \<open>Where the words differ: the byte, counted from the first one in memory.\<close>

definition c_tail64 :: "lzo_cfg \<Rightarrow> region mem \<Rightarrow> nat \<Rightarrow> nat \<Rightarrow> nat \<Rightarrow> u64 \<Rightarrow> nat option" where
  "c_tail64 c m ip m_pos m_len v =
     (case abi c of
        ABI_BIG \<Rightarrow> (case ctlz64 c of Some f \<Rightarrow> Some (m_len + f v div 8)
          | None \<Rightarrow> map_option ((+) m_len) (high_zero_bytes 8 v))
      | ABI_LITTLE \<Rightarrow> (case cttz64 c of Some f \<Rightarrow> Some (m_len + f v div 8)
          | None \<Rightarrow> map_option ((+) m_len) (low_zero_bytes 8 v))
      | ABI_NEUTRAL \<Rightarrow> c_equal_bytes m ip m_pos m_len)"

definition c_tail32 :: "lzo_cfg \<Rightarrow> region mem \<Rightarrow> nat \<Rightarrow> nat \<Rightarrow> nat \<Rightarrow> u32 \<Rightarrow> nat option" where
  "c_tail32 c m ip m_pos m_len v =
     (case abi c of
        ABI_BIG \<Rightarrow> (case ctlz32 c of Some f \<Rightarrow> Some (m_len + f v div 8)
          | None \<Rightarrow> map_option ((+) m_len) (high_zero_bytes 4 v))
      | ABI_LITTLE \<Rightarrow> (case cttz32 c of Some f \<Rightarrow> Some (m_len + f v div 8)
          | None \<Rightarrow> map_option ((+) m_len) (low_zero_bytes 4 v))
      | ABI_NEUTRAL \<Rightarrow> c_equal_bytes m ip m_pos m_len)"

definition c_xor64 :: "lzo_cfg \<Rightarrow> region mem \<Rightarrow> nat \<Rightarrow> nat \<Rightarrow> nat \<Rightarrow> u64 option" where
  "c_xor64 c m ip m_pos m_len = do {
     a \<leftarrow> UA_GET_NE64 c m (In, ip + m_len); b \<leftarrow> UA_GET_NE64 c m (In, m_pos + m_len); Some (a XOR b) }"

definition c_xor32 :: "lzo_cfg \<Rightarrow> region mem \<Rightarrow> nat \<Rightarrow> nat \<Rightarrow> nat \<Rightarrow> u32 option" where
  "c_xor32 c m ip m_pos m_len = do {
     a \<leftarrow> UA_GET_NE32 c m (In, ip + m_len); b \<leftarrow> UA_GET_NE32 c m (In, m_pos + m_len); Some (a XOR b) }"

text \<open>
  The \<^verbatim>\<open>do { } while (v == 0)\<close> loops, entered with equal words at \<open>m_len\<close>. The result is the
  new \<open>m_len\<close> with the differing word, or without one at \<^verbatim>\<open>goto m_len_done\<close>.
\<close>

function c_scan64 :: "lzo_cfg \<Rightarrow> region mem \<Rightarrow> nat \<Rightarrow> nat \<Rightarrow> nat \<Rightarrow> nat \<Rightarrow> (nat \<times> u64 option) option" where
  "c_scan64 c m ip m_pos ip_end m_len = do {
     v \<leftarrow> c_xor64 c m ip m_pos (m_len + 8);
     (if ip_end \<le> ip + (m_len + 8) then Some (m_len + 8, None)
      else if v = 0 then c_scan64 c m ip m_pos ip_end (m_len + 8)
      else Some (m_len + 8, Some v)) }"
  by pat_completeness auto
termination
  by (relation "measure (\<lambda>(c, m, ip, m_pos, ip_end, m_len). ip_end - (ip + m_len))") auto

declare c_scan64.simps [simp del]

function c_scan32 :: "lzo_cfg \<Rightarrow> region mem \<Rightarrow> nat \<Rightarrow> nat \<Rightarrow> nat \<Rightarrow> nat \<Rightarrow> (nat \<times> u32 option) option" where
  "c_scan32 c m ip m_pos ip_end m_len = do {
     v \<leftarrow> c_xor32 c m ip m_pos (m_len + 4);
     (if v \<noteq> 0 then Some (m_len + 4, Some v)
      else do {
        v \<leftarrow> c_xor32 c m ip m_pos (m_len + 8);
        (if ip_end \<le> ip + (m_len + 8) then Some (m_len + 8, None)
         else if v = 0 then c_scan32 c m ip m_pos ip_end (m_len + 8)
         else Some (m_len + 8, Some v)) }) }"
  by pat_completeness auto
termination
  by (relation "measure (\<lambda>(c, m, ip, m_pos, ip_end, m_len). ip_end - (ip + m_len))") auto

declare c_scan32.simps [simp del]

text \<open>
  The byte loop: up to seven times \<^verbatim>\<open>m_len += 1; if (ip[m_len] != m_pos[m_len]) break;\<close>, then
  the test for the end of the block. \<open>True\<close> means that none of the seven was a \<^verbatim>\<open>break\<close>.
\<close>

definition c_differ :: "region mem \<Rightarrow> nat \<Rightarrow> nat \<Rightarrow> nat \<Rightarrow> bool option" where
  "c_differ m ip m_pos m_len = do {
     a \<leftarrow> rd m (In, ip + m_len); b \<leftarrow> rd m (In, m_pos + m_len); Some (a \<noteq> b) }"

fun c_bytes :: "region mem \<Rightarrow> nat \<Rightarrow> nat \<Rightarrow> nat \<Rightarrow> nat \<Rightarrow> (nat \<times> bool) option" where
  "c_bytes m ip m_pos 0 m_len = Some (m_len, True)"
| "c_bytes m ip m_pos (Suc n) m_len = do {
     d \<leftarrow> c_differ m ip m_pos (m_len + 1);
     (if d then Some (m_len + 1, False) else c_bytes m ip m_pos n (m_len + 1)) }"

lemma c_bytes_all: "c_bytes m ip m_pos n k = Some (k', True) \<Longrightarrow> k' = k + n"
  by (induction m ip m_pos n k rule: c_bytes.induct) (auto simp: bind_eq_Some_conv split: if_splits)

function c_scan8 :: "region mem \<Rightarrow> nat \<Rightarrow> nat \<Rightarrow> nat \<Rightarrow> nat \<Rightarrow> nat option" where
  "c_scan8 m ip m_pos ip_end m_len = do {
     (k, all) \<leftarrow> c_bytes m ip m_pos 7 m_len;
     (if \<not> all then Some k
      else if ip_end \<le> ip + (k + 1) then Some (k + 1)
      else do {
        d \<leftarrow> c_differ m ip m_pos (k + 1);
        (if d then Some (k + 1) else c_scan8 m ip m_pos ip_end (k + 1)) }) }"
  by pat_completeness auto
termination
  by (relation "measure (\<lambda>(m, ip, m_pos, ip_end, m_len). ip_end - (ip + m_len))") (auto dest: c_bytes_all)

declare c_scan8.simps [simp del]

text \<open>From \<^verbatim>\<open>m_len = 4\<close> to \<^verbatim>\<open>m_len_done\<close>.\<close>

definition c_match_len :: "lzo_cfg \<Rightarrow> region mem \<Rightarrow> nat \<Rightarrow> nat \<Rightarrow> nat \<Rightarrow> nat option" where
  "c_match_len c m ip m_pos ip_end =
     (if opt_unaligned64 c then do {
        v \<leftarrow> c_xor64 c m ip m_pos 4;
        (m_len, r) \<leftarrow> (if v = 0 then c_scan64 c m ip m_pos ip_end 4 else Some (4, Some v));
        (case r of None \<Rightarrow> Some m_len | Some v \<Rightarrow> c_tail64 c m ip m_pos m_len v) }
      else if opt_unaligned32 c then do {
        v \<leftarrow> c_xor32 c m ip m_pos 4;
        (m_len, r) \<leftarrow> (if v = 0 then c_scan32 c m ip m_pos ip_end 4 else Some (4, Some v));
        (case r of None \<Rightarrow> Some m_len | Some v \<Rightarrow> c_tail32 c m ip m_pos m_len v) }
      else do {
        d \<leftarrow> c_differ m ip m_pos 4;
        (if d then Some 4 else c_scan8 m ip m_pos ip_end 4) })"

section \<open>Emission\<close>

text \<open>\<^verbatim>\<open>while (tt > 255) { tt -= 255; UA_SET1(op, 0); op++; }  *op++ = LZO_BYTE(tt);\<close>\<close>

function c_zeros :: "region mem \<Rightarrow> nat \<Rightarrow> nat \<Rightarrow> (region mem \<times> nat \<times> nat) option" where
  "c_zeros m op tt =
     (if tt > 255 then do { m \<leftarrow> LZO_MEMOPS_SET1 m (Out, op) 0; c_zeros m (op + 1) (tt - 255) }
      else Some (m, op, tt))"
  by pat_completeness auto
termination
  by (relation "measure (\<lambda>(m, op, tt). tt)") auto

declare c_zeros.simps [simp del]

definition c_put :: "region mem \<Rightarrow> nat \<Rightarrow> nat \<Rightarrow> (region mem \<times> nat) option" where
  "c_put m op x = do { m \<leftarrow> wr m (Out, op) (LZO_BYTE x); Some (m, op + 1) }"

definition c_long_len :: "region mem \<Rightarrow> nat \<Rightarrow> nat \<Rightarrow> (region mem \<times> nat) option" where
  "c_long_len m op tt = do { (m, op, tt) \<leftarrow> c_zeros m op tt; c_put m op tt }"

text \<open>\<^verbatim>\<open>op[-2] = LZO_BYTE(op[-2] | t)\<close>\<close>

definition c_state_bits :: "region mem \<Rightarrow> nat \<Rightarrow> nat \<Rightarrow> region mem option" where
  "c_state_bits m op t =
     (if op < 2 then None
      else do { b \<leftarrow> rd m (Out, op - 2); wr m (Out, op - 2) (LZO_BYTE (unat b OR t)) })"

text \<open>The number of literals of a run of four or more.\<close>

definition c_run_len :: "region mem \<Rightarrow> nat \<Rightarrow> nat \<Rightarrow> (region mem \<times> nat) option" where
  "c_run_len m op t =
     (if t \<le> 18 then c_put m op (t - 3)
      else do { (m, op) \<leftarrow> c_put m op 0; c_long_len m op (t - 18) })"

definition c_copy16 :: "lzo_cfg \<Rightarrow> 'r mem \<Rightarrow> 'r ptr \<Rightarrow> 'r ptr \<Rightarrow> 'r mem option" where
  "c_copy16 c m d s = do { m \<leftarrow> LZO_MEMOPS_COPY8 c m d s; LZO_MEMOPS_COPY8 c m (padd d 8) (padd s 8) }"

definition c_literals :: "lzo_cfg \<Rightarrow> region mem \<Rightarrow> nat \<Rightarrow> nat \<Rightarrow> nat \<Rightarrow> (region mem \<times> nat) option" where
  "c_literals c m op ii t =
     (if t = 0 then Some (m, op)
      else if t \<le> 3 then do {
        m \<leftarrow> c_state_bits m op t;
        m \<leftarrow> (if opt_unaligned32 c then LZO_MEMOPS_COPY4 c m (Out, op) (In, ii)
             else mv m (Out, op) (In, ii) t);
        Some (m, op + t) }
      else if (opt_unaligned32 c \<or> opt_unaligned64 c) \<and> t \<le> 16 then do {
        (m, op) \<leftarrow> c_put m op (t - 3);
        m \<leftarrow> c_copy16 c m (Out, op) (In, ii);
        Some (m, op + t) }
      else do {
        (m, op) \<leftarrow> c_run_len m op t;
        (if opt_unaligned32 c \<or> opt_unaligned64 c then do {
           (m, d, s, t) \<leftarrow> copy_chunks (c_copy16 c) 16 m (Out, op) (In, ii) t;
           m \<leftarrow> (if t > 0 then mv m d s t else Some m);
           Some (m, snd d + t) }
         else do { m \<leftarrow> mv m (Out, op) (In, ii) t; Some (m, op + t) }) })"

definition c_emit_m2 :: "region mem \<Rightarrow> nat \<Rightarrow> nat \<Rightarrow> nat \<Rightarrow> (region mem \<times> nat) option" where
  "c_emit_m2 m op m_len m_off = do {
     let m_off = m_off - 1;
     (m, op) \<leftarrow> c_put m op (((m_len - 1) * 32) OR ((m_off mod 8) * 4));
     c_put m op (m_off div 8) }"

definition c_emit_off :: "region mem \<Rightarrow> nat \<Rightarrow> nat \<Rightarrow> (region mem \<times> nat) option" where
  "c_emit_off m op m_off = do {
     (m, op) \<leftarrow> c_put m op (m_off * 4);
     c_put m op (m_off div 64) }"

definition c_emit_m3 :: "region mem \<Rightarrow> nat \<Rightarrow> nat \<Rightarrow> nat \<Rightarrow> (region mem \<times> nat) option" where
  "c_emit_m3 m op m_len m_off = do {
     let m_off = m_off - 1;
     (m, op) \<leftarrow> (if m_len \<le> M3_MAX_LEN then c_put m op (M3_MARKER OR (m_len - 2))
        else do { (m, op) \<leftarrow> c_put m op M3_MARKER; c_long_len m op (m_len - M3_MAX_LEN) });
     c_emit_off m op m_off }"

definition c_emit_m4 :: "region mem \<Rightarrow> nat \<Rightarrow> nat \<Rightarrow> nat \<Rightarrow> (region mem \<times> nat) option" where
  "c_emit_m4 m op m_len m_off = do {
     let m_off = m_off - 0x4000;
     (m, op) \<leftarrow> (if m_len \<le> M4_MAX_LEN
        then c_put m op (M4_MARKER OR ((m_off div 2048) AND 8) OR (m_len - 2))
        else do { (m, op) \<leftarrow> c_put m op (M4_MARKER OR ((m_off div 2048) AND 8));
          c_long_len m op (m_len - M4_MAX_LEN) });
     c_emit_off m op m_off }"

definition c_emit_match :: "region mem \<Rightarrow> nat \<Rightarrow> nat \<Rightarrow> nat \<Rightarrow> (region mem \<times> nat) option" where
  "c_emit_match m op m_len m_off =
     (if m_len \<le> M2_MAX_LEN \<and> m_off \<le> M2_MAX_OFFSET then c_emit_m2 m op m_len m_off
      else if m_off \<le> M3_MAX_OFFSET then c_emit_m3 m op m_len m_off
      else c_emit_m4 m op m_len m_off)"

section \<open>One block\<close>

lemma c_next_le: "c_next c m inb ip_end ii dict ip = Some (dict', ip', Some p) \<Longrightarrow> ip \<le> ip' \<and> ip' < ip_end"
proof (induction c m inb ip_end ii dict ip rule: c_next.induct)
  case (1 c m inb ip_end ii dict ip)
  then show ?case
    by (subst (asm) (2) c_next.simps)
      (fastforce simp: bind_eq_Some_conv Let_def c_literal_def split: if_splits)
qed

lemma c_equal_bytes_le: "c_equal_bytes m ip m_pos k = Some k' \<Longrightarrow> k \<le> k'"
proof (induction m ip m_pos k rule: c_equal_bytes.induct)
  case (1 m ip m_pos k)
  then show ?case by (subst (asm) (2) c_equal_bytes.simps) (fastforce split: if_splits)
qed

lemma c_scan64_le: "c_scan64 c m ip m_pos ip_end k = Some (k', r) \<Longrightarrow> k \<le> k'"
proof (induction c m ip m_pos ip_end k rule: c_scan64.induct)
  case (1 c m ip m_pos ip_end k)
  then show ?case
    by (subst (asm) (2) c_scan64.simps) (fastforce simp: bind_eq_Some_conv split: if_splits)
qed

lemma c_scan32_le: "c_scan32 c m ip m_pos ip_end k = Some (k', r) \<Longrightarrow> k \<le> k'"
proof (induction c m ip m_pos ip_end k rule: c_scan32.induct)
  case (1 c m ip m_pos ip_end k)
  then show ?case
    by (subst (asm) (2) c_scan32.simps) (fastforce simp: bind_eq_Some_conv split: if_splits)
qed

lemma c_bytes_le: "c_bytes m ip m_pos n k = Some (k', r) \<Longrightarrow> k \<le> k'"
  by (induction m ip m_pos n k rule: c_bytes.induct) (fastforce simp: bind_eq_Some_conv split: if_splits)+

lemma c_scan8_le: "c_scan8 m ip m_pos ip_end k = Some k' \<Longrightarrow> k \<le> k'"
proof (induction m ip m_pos ip_end k rule: c_scan8.induct)
  case (1 m ip m_pos ip_end k)
  then show ?case
    by (subst (asm) (2) c_scan8.simps) (fastforce simp: bind_eq_Some_conv dest: c_bytes_le split: if_splits)
qed

lemma c_tail_le:
  "c_tail64 c m ip m_pos k v = Some k' \<Longrightarrow> k \<le> k'" "c_tail32 c m ip m_pos k v' = Some k' \<Longrightarrow> k \<le> k'"
  by (auto simp: c_tail64_def c_tail32_def dest: c_equal_bytes_le
      split: abi_endian.splits option.splits)

lemma c_match_len_le: "c_match_len c m ip m_pos ip_end = Some k \<Longrightarrow> 4 \<le> k"
  by (fastforce simp: c_match_len_def bind_eq_Some_conv
      dest: c_scan64_le c_scan32_le c_scan8_le c_tail_le split: if_splits option.splits)

text \<open>
  The loop of \<^verbatim>\<open>do_compress\<close> from the label \<^verbatim>\<open>next\<close>. The result is the memory, \<open>op\<close>, \<open>ii\<close>,
  \<open>ti\<close> and the dictionary when the loop is left.
\<close>

function c_loop :: "lzo_cfg \<Rightarrow> nat \<Rightarrow> nat \<Rightarrow> region mem \<Rightarrow> nat \<Rightarrow> nat \<Rightarrow> nat \<Rightarrow> nat \<Rightarrow> u16 list \<Rightarrow>
    (region mem \<times> nat \<times> nat \<times> nat \<times> u16 list) option" where
  "c_loop c inb ip_end m op ip ii ti dict = do {
     (dict, ip', r) \<leftarrow> c_next c m inb ip_end ii dict ip;
     (case r of None \<Rightarrow> Some (m, op, ii, ti, dict)
      | Some m_pos \<Rightarrow>
        if ii < ti then None
        else do {
          (m, op) \<leftarrow> c_literals c m op (ii - ti) (ip' - (ii - ti));
          m_len \<leftarrow> c_match_len c m ip' m_pos ip_end;
          (m, op) \<leftarrow> c_emit_match m op m_len (ip' - m_pos);
          c_loop c inb ip_end m op (ip' + m_len) (ip' + m_len) 0 dict }) }"
  by pat_completeness auto
termination
proof (relation "measure (\<lambda>(c, inb, ip_end, m, op, ip, ii, ti, dict). ip_end - ip)", goal_cases)
  case (2 c inb ip_end m op ip ii ti dict p dict' q ip' r m_pos w m1 op1 m_len)
  then show ?case using c_next_le [of c m inb ip_end ii dict ip] c_match_len_le by fastforce
qed simp

declare c_loop.simps [simp del]

text \<open>The new \<open>t\<close>, the memory, \<^verbatim>\<open>*out_len\<close> and the dictionary.\<close>

definition do_compress :: "lzo_cfg \<Rightarrow> region mem \<Rightarrow> nat \<Rightarrow> nat \<Rightarrow> nat \<Rightarrow> nat \<Rightarrow> u16 list \<Rightarrow>
    (nat \<times> region mem \<times> nat \<times> u16 list) option" where
  "do_compress c m inb len out ti dict = do {
     let ip = inb + (if ti < 4 then 4 - ti else 0);
     (m, op, ii, ti, dict) \<leftarrow> c_loop c inb (inb + len - 20) m out (c_literal ip inb) inb ti dict;
     Some (inb + len - (ii - ti), m, op - out, dict) }"

section \<open>All blocks and the end of the stream\<close>

text \<open>\<^verbatim>\<open>lzo_memset(wrkmem, 0, ((lzo_uint)1 << D_BITS) * sizeof(lzo_dict_t))\<close>\<close>

definition c_clear_dict :: "u16 list \<Rightarrow> u16 list option" where
  "c_clear_dict dict = (if 2 ^ D_BITS \<le> length dict
     then Some (replicate (2 ^ D_BITS) 0 @ drop (2 ^ D_BITS) dict) else None)"

text \<open>
  The test that leaves the loop early, on the addresses of the input buffer:
  \<^verbatim>\<open>(ll_end + ((t + ll) >> 5)) <= ll_end || (const lzo_bytep)(ll_end + ((t + ll) >> 5)) <= ip + ll\<close>.
\<close>

definition c_break :: "lzo_cfg \<Rightarrow> nat \<Rightarrow> nat \<Rightarrow> nat \<Rightarrow> nat \<Rightarrow> bool" where
  "c_break c addr ip ll t =
     (let w = uint_bits c; ll_end = uw w (addr + ip + ll); far = uw w (ll_end + uw w (t + ll) div 32) in
      far \<le> ll_end \<or> far \<le> uw w (addr + (ip + ll)))"

text \<open>\<^verbatim>\<open>while (l > 20)\<close>: the memory, \<open>op\<close>, \<open>l\<close>, \<open>t\<close> and the dictionary when it is left.\<close>

function c_blocks :: "lzo_cfg \<Rightarrow> nat \<Rightarrow> region mem \<Rightarrow> nat \<Rightarrow> nat \<Rightarrow> nat \<Rightarrow> nat \<Rightarrow> u16 list \<Rightarrow>
    (region mem \<times> nat \<times> nat \<times> nat \<times> u16 list) option" where
  "c_blocks c addr m ip op l t dict =
     (if l > 20 then
        let ll = min l 49152 in
        if c_break c addr ip ll t then Some (m, op, l, t, dict)
        else do {
          dict \<leftarrow> c_clear_dict dict;
          (t, m, n, dict) \<leftarrow> do_compress c m ip ll op t dict;
          c_blocks c addr m (ip + ll) (op + n) (l - ll) t dict }
      else Some (m, op, l, t, dict))"
  by pat_completeness auto
termination
  by (relation "measure (\<lambda>(c, addr, m, ip, op, l, t, dict). l)") auto

declare c_blocks.simps [simp del]

text \<open>The last literals; \<open>ii\<close> is where they start.\<close>

definition c_last_literals :: "lzo_cfg \<Rightarrow> region mem \<Rightarrow> nat \<Rightarrow> nat \<Rightarrow> nat \<Rightarrow> (region mem \<times> nat) option" where
  "c_last_literals c m op ii t =
     (if t > 0 then do {
        (m, op) \<leftarrow> (if op = 0 \<and> t \<le> 238 then c_put m op (17 + t)
           else if t \<le> 3 then map_option (\<lambda>m. (m, op)) (c_state_bits m op t)
           else c_run_len m op t);
        m \<leftarrow> LZO_MEMOPS_COPYN c m (Out, op) (In, ii) t;
        Some (m, op + t) }
      else Some (m, op))"

definition c_eof :: "region mem \<Rightarrow> nat \<Rightarrow> (region mem \<times> nat) option" where
  "c_eof m op = do {
     (m, op) \<leftarrow> c_put m op (M4_MARKER OR 1); (m, op) \<leftarrow> c_put m op 0; c_put m op 0 }"

text \<open>
  The function, on an input of \<open>len\<close> bytes at address \<open>addr\<close>: the return code, the memory
  and \<^verbatim>\<open>*out_len\<close>.
\<close>

definition lzo1x_1_compress :: "lzo_cfg \<Rightarrow> nat \<Rightarrow> region mem \<Rightarrow> nat \<Rightarrow> u16 list \<Rightarrow>
    (int \<times> region mem \<times> nat) option" where
  "lzo1x_1_compress c addr m len wrkmem = do {
     (m, op, l, t, dict) \<leftarrow> c_blocks c addr m 0 0 len 0 wrkmem;
     let t = t + l;
     (m, op) \<leftarrow> c_last_literals c m op (len - t) t;
     (m, op) \<leftarrow> c_eof m op;
     Some (LZO_E_OK, m, op) }"

end
