(* ===== verification/Lzo_Scan.thy ===== *)
theory Lzo_Scan
  imports Lzo_Compress
begin

text \<open>
  The length of a match: the 64-bit, the 32-bit and the byte variant of the scan in
  \<^verbatim>\<open>do_compress\<close>, with every way of finding the differing byte, compute one reference
  function on the bytes of the input.
\<close>

section \<open>Bits of a word and bytes in memory\<close>

lemma bit_le_val: "bit (le_val xs) i \<longleftrightarrow> i < 8 * length xs \<and> bit (xs ! (i div 8)) (i mod 8)"
proof (induction xs arbitrary: i)
  case Nil
  then show ?case by simp
next
  case (Cons b bs)
  have le: "bit b n \<Longrightarrow> n < 8" for n using bit_imp_le_length [of b n] by simp
  have "unat b AND push_bit 8 (le_val bs) = 0"
    by (rule bit_eqI) (use le in \<open>force simp: bit_simps\<close>)
  then have "le_val (b # bs) = unat b OR push_bit 8 (le_val bs)"
    by (simp add: disjunctive_add_eq_or push_bit_eq_mult mult.commute)
  then have *: "bit (le_val (b # bs)) i \<longleftrightarrow> bit b i \<or> 8 \<le> i \<and> bit (le_val bs) (i - 8)"
    using le by (auto simp: bit_simps bit_unsigned_iff)
  show ?case
  proof (cases "i < 8")
    case True
    then show ?thesis unfolding * by simp
  next
    case False
    then obtain k where k: "i = k + 8" by (metis add.commute le_Suc_ex not_less)
    moreover have "\<not> bit b (k + 8)" using bit_imp_le_length [of b "k + 8"] by auto
    moreover have "(k + 8) div 8 = Suc (k div 8)" by simp
    ultimately show ?thesis unfolding * by (simp add: Cons.IH del: div_add_self2)
  qed
qed

lemma bit_le_word:
  assumes "8 * length xs \<le> LENGTH('w::len)"
  shows "bit (word_of_nat (le_val xs) :: 'w word) i \<longleftrightarrow> i < 8 * length xs \<and> bit (xs ! (i div 8)) (i mod 8)"
  using assms by (auto simp: bit_simps bit_le_val)

text \<open>
  The first set bit counted from the low end (from the high end) lies in byte \<open>j\<close>.
\<close>

definition low_first :: "'w::len word \<Rightarrow> nat \<Rightarrow> bool" where
  "low_first v j \<longleftrightarrow> (\<forall>i < 8 * j. \<not> bit v i) \<and> (\<exists>i. 8 * j \<le> i \<and> i < 8 * j + 8 \<and> bit v i)"

definition high_first :: "'w::len word \<Rightarrow> nat \<Rightarrow> bool" where
  "high_first v j \<longleftrightarrow> (\<forall>i < 8 * j. \<not> bit v (LENGTH('w) - 1 - i)) \<and> 8 * j + 8 \<le> LENGTH('w) \<and>
     (\<exists>i. 8 * j \<le> i \<and> i < 8 * j + 8 \<and> bit v (LENGTH('w) - 1 - i))"

lemma low_byte_0: "v AND 255 = 0 \<longleftrightarrow> (\<forall>i < 8. \<not> bit (v :: 'w::len word) i)"
proof -
  have "v AND 255 = take_bit 8 v" by (simp add: take_bit_eq_mask mask_eq_exp_minus_1)
  then show ?thesis by (auto simp: bit_eq_iff bit_simps dest: bit_imp_le_length)
qed

lemma low_zero_bytes_first: "low_first v j \<Longrightarrow> j < n \<Longrightarrow> low_zero_bytes n v = Some j"
proof (induction n arbitrary: v j)
  case 0
  then show ?case by simp
next
  case (Suc n)
  show ?case
  proof (cases j)
    case 0
    then show ?thesis using Suc.prems by (auto simp: low_first_def low_byte_0)
  next
    case (Suc k)
    have zero: "\<forall>i < 8. \<not> bit v i" using Suc.prems Suc by (simp add: low_first_def)
    obtain i where i: "8 * j \<le> i" "i < 8 * j + 8" "bit v i" using Suc.prems by (auto simp: low_first_def)
    then have "bit (drop_bit 8 v) (i - 8)" "8 * k \<le> i - 8" "i - 8 < 8 * k + 8"
      using Suc by (auto simp: bit_simps)
    moreover have "\<not> bit (drop_bit 8 v) i" if "i < 8 * k" for i
      using Suc.prems Suc that by (simp add: low_first_def bit_simps)
    ultimately have "low_first (drop_bit 8 v) k" by (auto simp: low_first_def)
    then show ?thesis using Suc.IH [of "drop_bit 8 v" k] Suc.prems(2) Suc zero by (simp add: low_byte_0)
  qed
qed

lemma high_byte_0:
  fixes v :: "'w::len word"
  assumes "8 \<le> LENGTH('w)"
  shows "drop_bit (LENGTH('w) - 8) v = 0 \<longleftrightarrow> (\<forall>i < 8. \<not> bit v (LENGTH('w) - 1 - i))"
proof -
  have "drop_bit (LENGTH('w) - 8) v = 0 \<longleftrightarrow> (\<forall>n. \<not> bit v (LENGTH('w) - 8 + n))"
  proof
    assume "drop_bit (LENGTH('w) - 8) v = 0"
    then have "\<not> bit (drop_bit (LENGTH('w) - 8) v) n" for n by simp
    then show "\<forall>n. \<not> bit v (LENGTH('w) - 8 + n)" by (simp add: bit_drop_bit_eq)
  qed (auto simp: bit_eq_iff bit_simps)
  also have "\<dots> \<longleftrightarrow> (\<forall>n < 8. \<not> bit v (LENGTH('w) - 8 + n))"
    using bit_imp_le_length [of v] assms by fastforce
  also have "\<dots> \<longleftrightarrow> (\<forall>i < 8. \<not> bit v (LENGTH('w) - 1 - i))"
  proof (intro iffI allI impI)
    fix i :: nat assume "\<forall>n < 8. \<not> bit v (LENGTH('w) - 8 + n)" "i < 8"
    then have "\<not> bit v (LENGTH('w) - 8 + (7 - i))" by (elim allE [of _ "7 - i"]) linarith
    moreover have "LENGTH('w) - 8 + (7 - i) = LENGTH('w) - 1 - i" using \<open>i < 8\<close> assms by simp
    ultimately show "\<not> bit v (LENGTH('w) - 1 - i)" by simp
  next
    fix n :: nat assume "\<forall>i < 8. \<not> bit v (LENGTH('w) - 1 - i)" "n < 8"
    then have "\<not> bit v (LENGTH('w) - 1 - (7 - n))" by (elim allE [of _ "7 - n"]) linarith
    moreover have "LENGTH('w) - 1 - (7 - n) = LENGTH('w) - 8 + n" using \<open>n < 8\<close> assms by simp
    ultimately show "\<not> bit v (LENGTH('w) - 8 + n)" by metis
  qed
  finally show ?thesis .
qed

lemma high_zero_bytes_first:
  "high_first (v :: 'w::len word) j \<Longrightarrow> j < n \<Longrightarrow> high_zero_bytes n v = Some j"
proof (induction n arbitrary: v j)
  case 0
  then show ?case by simp
next
  case (Suc n)
  have len: "8 \<le> LENGTH('w)" using Suc.prems(1) by (simp add: high_first_def)
  show ?case
  proof (cases j)
    case 0
    then show ?thesis using Suc.prems len by (auto simp: high_first_def high_byte_0)
  next
    case (Suc k)
    have zero: "\<forall>i < 8. \<not> bit v (LENGTH('w) - 1 - i)" using Suc.prems Suc by (simp add: high_first_def)
    have shift: "bit (push_bit 8 v) (LENGTH('w) - 1 - i) \<longleftrightarrow> bit v (LENGTH('w) - 1 - (i + 8))"
      if "i + 8 < LENGTH('w)" for i
      using that by (auto simp: bit_simps)
    obtain i where i: "8 * j \<le> i" "i < 8 * j + 8" "bit v (LENGTH('w) - 1 - i)"
      using Suc.prems by (auto simp: high_first_def)
    have bound: "8 * j + 8 \<le> LENGTH('w)" using Suc.prems(1) by (simp add: high_first_def)
    have "bit (push_bit 8 v) (LENGTH('w) - 1 - (i - 8))" "8 * k \<le> i - 8" "i - 8 < 8 * k + 8"
      using i Suc bound shift [of "i - 8"] by auto
    moreover have "\<not> bit (push_bit 8 v) (LENGTH('w) - 1 - i)" if "i < 8 * k" for i
    proof -
      have "\<not> bit v (LENGTH('w) - 1 - (i + 8))" using Suc.prems(1) Suc that unfolding high_first_def by (elim conjE allE [of _ "i + 8"]) simp
      then show ?thesis using that bound Suc by (subst shift) auto
    qed
    moreover have "8 * k + 8 \<le> LENGTH('w)" using bound Suc by simp
    ultimately have "high_first (push_bit 8 v) k" unfolding high_first_def by blast
    then show ?thesis
      using Suc.IH [of "push_bit 8 v" k] Suc.prems(2) Suc zero len by (simp add: high_byte_0)
  qed
qed

text \<open>The compiler's bit scans find the same byte.\<close>

lemma cttz_first:
  assumes "is_cttz f" "low_first v j"
  shows "f v div 8 = j"
proof -
  obtain i where i: "8 * j \<le> i" "i < 8 * j + 8" "bit v i" "\<forall>i < 8 * j. \<not> bit v i"
    using assms(2) by (auto simp: low_first_def)
  then have "v \<noteq> 0" by auto
  then have "bit v (f v)" "\<forall>i < f v. \<not> bit v i" using assms(1) by (auto simp: is_cttz_def)
  then have "8 * j \<le> f v" "f v \<le> i" using i by (meson not_le)+
  then show ?thesis using i(2) by (intro div_nat_eqI) auto
qed

lemma ctlz_first:
  fixes v :: "'w::len word"
  assumes "is_ctlz f" "high_first v j"
  shows "f v div 8 = j"
proof -
  obtain i where i: "8 * j \<le> i" "i < 8 * j + 8" "bit v (LENGTH('w) - 1 - i)"
    "\<forall>i < 8 * j. \<not> bit v (LENGTH('w) - 1 - i)" "8 * j + 8 \<le> LENGTH('w)"
    using assms(2) by (auto simp: high_first_def)
  then have "v \<noteq> 0" by auto
  then have f: "f v < LENGTH('w)" "bit v (LENGTH('w) - 1 - f v)" "\<forall>k. LENGTH('w) - 1 - f v < k \<longrightarrow> \<not> bit v k"
    using assms(1) by (auto simp: is_ctlz_def)
  have "8 * j \<le> f v" using i(4) f(2) by (meson not_le)
  moreover have "LENGTH('w) - 1 - i \<le> LENGTH('w) - 1 - f v" using f(3) i(3) by (meson not_le)
  then have "f v \<le> i" using i(2,5) f(1) by linarith
  ultimately show ?thesis using i(2) by (intro div_nat_eqI) auto
qed

section \<open>Where two words differ\<close>

text \<open>\<open>j\<close> is the first place where the lists differ.\<close>

definition differ_at :: "u8 list \<Rightarrow> u8 list \<Rightarrow> nat \<Rightarrow> bool" where
  "differ_at as bs j \<longleftrightarrow> j < length as \<and> as ! j \<noteq> bs ! j \<and> (\<forall>k < j. as ! k = bs ! k)"

lemma byte_differ: "(x :: u8) \<noteq> y \<Longrightarrow> \<exists>n < 8. bit x n \<noteq> bit y n"
  using bit_imp_le_length [of x] bit_imp_le_length [of y] by (fastforce simp: bit_eq_iff)

lemma words_low_first:
  assumes "length as = length bs" "8 * length as \<le> LENGTH('w::len)" "differ_at as bs j"
  shows "low_first (word_of_nat (le_val as) XOR word_of_nat (le_val bs) :: 'w word) j"
proof -
  let ?v = "word_of_nat (le_val as) XOR word_of_nat (le_val bs) :: 'w word"
  have bits: "bit ?v i \<longleftrightarrow> i < 8 * length as \<and> bit (as ! (i div 8)) (i mod 8) \<noteq> bit (bs ! (i div 8)) (i mod 8)" for i
    using assms(1,2) by (auto simp: bit_xor_iff bit_le_word)
  obtain n where n: "n < 8" "bit (as ! j) n \<noteq> bit (bs ! j) n"
    using assms(3) byte_differ [of "as ! j" "bs ! j"] by (auto simp: differ_at_def)
  have "bit ?v (8 * j + n)" using n assms(3) by (auto simp: bits differ_at_def)
  moreover have "\<not> bit ?v i" if "i < 8 * j" for i
  proof -
    have "i div 8 < j" using that by (simp add: less_mult_imp_div_less mult.commute)
    then show ?thesis using assms(3) by (simp add: bits differ_at_def)
  qed
  ultimately show ?thesis using n(1) by (auto simp: low_first_def intro!: exI [of _ "8 * j + n"])
qed

lemma div_mod_8: "k < 8 \<Longrightarrow> (8 * q + k) div 8 = q" "k < 8 \<Longrightarrow> (8 * q + k) mod 8 = (k :: nat)"
  by simp_all

lemma words_high_first:
  assumes "length as = length bs" "8 * length as = LENGTH('w::len)" "differ_at as bs j"
  shows "high_first (word_of_nat (le_val (rev as)) XOR word_of_nat (le_val (rev bs)) :: 'w word) j"
proof -
  let ?v = "word_of_nat (le_val (rev as)) XOR word_of_nat (le_val (rev bs)) :: 'w word"
  let ?L = "LENGTH('w)"
  have raw: "bit ?v k \<longleftrightarrow> bit (rev as ! (k div 8)) (k mod 8) \<noteq> bit (rev bs ! (k div 8)) (k mod 8)"
    if "k < ?L" for k
    using that assms(1,2) by (auto simp: bit_xor_iff bit_le_word)
  have bits: "bit ?v (?L - 1 - i) \<longleftrightarrow> bit (as ! (i div 8)) (7 - i mod 8) \<noteq> bit (bs ! (i div 8)) (7 - i mod 8)"
    if "i < ?L" for i
  proof -
    have "i mod 8 < 8" "i = 8 * (i div 8) + i mod 8" "i div 8 < length as"
      using that assms(2) by (auto simp: div_less_iff_less_mult)
    then have d: "?L - 1 - i = 8 * (length as - 1 - i div 8) + (7 - i mod 8)" "i div 8 < length as"
      using assms(2) by linarith+
    have "(?L - 1 - i) div 8 = length as - 1 - i div 8" "(?L - 1 - i) mod 8 = 7 - i mod 8"
      unfolding d(1) by (rule div_mod_8, simp)+
    moreover have "rev as ! (length as - 1 - i div 8) = as ! (i div 8)"
        "rev bs ! (length as - 1 - i div 8) = bs ! (i div 8)"
      using d(2) assms(1) by (simp_all add: rev_nth)
    ultimately show ?thesis using raw [of "?L - 1 - i"] by simp
  qed
  obtain n where n: "n < 8" "bit (as ! j) n \<noteq> bit (bs ! j) n"
    using assms(3) byte_differ [of "as ! j" "bs ! j"] by (auto simp: differ_at_def)
  have j: "8 * j + 8 \<le> ?L" using assms(2,3) by (simp add: differ_at_def)
  have "7 - n < 8" by simp
  then have "(8 * j + (7 - n)) div 8 = j" "7 - (8 * j + (7 - n)) mod 8 = n"
    unfolding div_mod_8(2) [OF \<open>7 - n < 8\<close>] using div_mod_8(1) n(1) by simp_all
  then have "bit ?v (?L - 1 - (8 * j + (7 - n)))"
    using bits [of "8 * j + (7 - n)"] n j by simp
  moreover have "\<not> bit ?v (?L - 1 - i)" if "i < 8 * j" for i
  proof -
    have "i div 8 < j" using that by (simp add: less_mult_imp_div_less mult.commute)
    then show ?thesis using assms(3) j that by (subst bits) (auto simp: differ_at_def)
  qed
  ultimately show ?thesis
    using j by (auto simp: high_first_def intro!: exI [of _ "8 * j + (7 - n)"])
qed

lemma words_equal:
  assumes "length as = length bs" "8 * length as = LENGTH('w::len)"
  shows "word_of_nat (native_val c as) XOR word_of_nat (native_val c bs) = (0 :: 'w word) \<longleftrightarrow> as = bs"
proof -
  have "(256::nat) ^ length as = 2 ^ LENGTH('w)"
    by (simp add: assms(2) [symmetric] power_mult)
  then have "native_val c as < 2 ^ LENGTH('w)" "native_val c bs < 2 ^ LENGTH('w)"
    using native_val_less [of c as] native_val_less [of c bs] assms(1) by simp_all
  then have "(word_of_nat (native_val c as) :: 'w word) = word_of_nat (native_val c bs) \<longleftrightarrow> as = bs"
    using native_val_inj [OF assms(1), of c] by (metis unat_of_nat mod_less)
  moreover have "x XOR y = 0 \<longleftrightarrow> x = y" for x y :: "'w word"
    by (auto simp: bit_eq_iff bit_simps)
  ultimately show ?thesis by simp
qed

section \<open>The reference\<close>

text \<open>
  From a checkpoint \<open>k\<close> (4, 12, 20, ...) where the match still holds: the first of the next
  eight places that differs, or else the next checkpoint when the end of the block is
  reached there.
\<close>

definition seg :: "'a list \<Rightarrow> nat \<Rightarrow> nat \<Rightarrow> 'a list" where
  "seg xs i n = take n (drop i xs)"

definition first_diff :: "u8 list \<Rightarrow> u8 list \<Rightarrow> nat option" where
  "first_diff as bs = find (\<lambda>k. as ! k \<noteq> bs ! k) [0..<length as]"

function ref_len :: "u8 list \<Rightarrow> nat \<Rightarrow> nat \<Rightarrow> nat \<Rightarrow> nat \<Rightarrow> nat" where
  "ref_len xs ip m_pos ip_end k =
     (case first_diff (seg xs (ip + k) 8) (seg xs (m_pos + k) 8) of Some j \<Rightarrow> k + j
      | None \<Rightarrow> if ip_end \<le> ip + (k + 8) then k + 8 else ref_len xs ip m_pos ip_end (k + 8))"
  by pat_completeness auto
termination
  by (relation "measure (\<lambda>(xs, ip, m_pos, ip_end, k). ip_end - (ip + k))") auto

declare ref_len.simps [simp del]

lemma first_diff_Some: "first_diff as bs = Some j \<longleftrightarrow> differ_at as bs j"
  by (auto simp: first_diff_def differ_at_def find_Some_iff)

lemma first_diff_None: "length as = length bs \<Longrightarrow> first_diff as bs = None \<longleftrightarrow> as = bs"
  unfolding first_diff_def find_None_iff by (auto intro: nth_equalityI)

lemma seg_props:
  "length (seg xs i n) = min n (length xs - i)"
  "k < n \<Longrightarrow> i + k < length xs \<Longrightarrow> seg xs i n ! k = xs ! (i + k)"
  by (auto simp: seg_def)

section \<open>The three variants\<close>

lemma load_seg: "i + n \<le> length (m r) \<Longrightarrow> load m (r, i) n = Some (seg (m r) i n)"
  by (simp add: load_def seg_def)

lemma c_xor64_eq:
  assumes "ip + k + 8 \<le> length (m In)" "m_pos + k + 8 \<le> length (m In)"
  shows "c_xor64 c m ip m_pos k = Some (word_of_nat (native_val c (seg (m In) (ip + k) 8)) XOR
    word_of_nat (native_val c (seg (m In) (m_pos + k) 8)))"
  using assms by (simp add: c_xor64_def UA_GET_NE64_def load_seg)

lemma c_xor32_eq:
  assumes "ip + k + 4 \<le> length (m In)" "m_pos + k + 4 \<le> length (m In)"
  shows "c_xor32 c m ip m_pos k = Some (word_of_nat (native_val c (seg (m In) (ip + k) 4)) XOR
    word_of_nat (native_val c (seg (m In) (m_pos + k) 4)))"
  using assms by (simp add: c_xor32_def UA_GET_NE32_def lzo_memops_get_ne32_def load_seg)

text \<open>The byte loop of a neutral build.\<close>

lemma c_equal_bytes_eq:
  assumes "\<forall>i < j. m In ! (ip + k + i) = m In ! (m_pos + k + i)" "m In ! (ip + k + j) \<noteq> m In ! (m_pos + k + j)"
    and "ip + k + j < length (m In)" "m_pos + k + j < length (m In)"
  shows "c_equal_bytes m ip m_pos k = Some (k + j)"
  using assms
proof (induction j arbitrary: k)
  case 0
  then show ?case by (subst c_equal_bytes.simps) simp
next
  case (Suc j)
  have "c_equal_bytes m ip m_pos k = c_equal_bytes m ip m_pos (k + 1)"
    using Suc.prems by (subst c_equal_bytes.simps) (auto simp: all_less_Suc_split_first)
  also have "\<dots> = Some (k + 1 + j)"
    using Suc.prems by (intro Suc.IH) (auto simp: all_less_Suc_split_first)
  finally show ?case by simp
qed

lemma c_tail64_eq:
  assumes "cfg_ok c" "differ_at (seg (m In) (ip + k) 8) (seg (m In) (m_pos + k) 8) j"
    and "ip + k + 8 \<le> length (m In)" "m_pos + k + 8 \<le> length (m In)"
    and "v = word_of_nat (native_val c (seg (m In) (ip + k) 8)) XOR
      word_of_nat (native_val c (seg (m In) (m_pos + k) 8))"
  shows "c_tail64 c m ip m_pos k v = Some (k + j)"
proof -
  let ?a = "seg (m In) (ip + k) 8" and ?b = "seg (m In) (m_pos + k) 8"
  have len: "length ?a = 8" "length ?b = 8" using assms(3,4) by (simp_all add: seg_props)
  have j: "j < 8" using assms(2) len by (simp add: differ_at_def)
  have c: "endian_ok c" "bitscan_ok c" using assms(1) by (simp_all add: cfg_ok_def)
  show ?thesis
  proof (cases "abi c")
    case ABI_LITTLE
    then have "low_first v j"
      using words_low_first [of ?a ?b j, where 'w = 64] len assms(2,5) c(1)
      by (simp add: native_val_def endian_ok_def)
    then show ?thesis
      using ABI_LITTLE c(2) low_zero_bytes_first [OF _ j] cttz_first
      by (auto simp: c_tail64_def bitscan_ok_def split: option.splits)
  next
    case ABI_BIG
    then have "high_first v j"
      using words_high_first [of ?a ?b j, where 'w = 64] len assms(2,5) c(1)
      by (simp add: native_val_def endian_ok_def)
    then show ?thesis
      using ABI_BIG c(2) high_zero_bytes_first [OF _ j] ctlz_first
      by (auto simp: c_tail64_def bitscan_ok_def split: option.splits)
  next
    case ABI_NEUTRAL
    then show ?thesis
      using assms(2-4) j by (auto simp: c_tail64_def differ_at_def seg_props add.assoc intro!: c_equal_bytes_eq)
  qed
qed

lemma c_tail32_eq:
  assumes "cfg_ok c" "differ_at (seg (m In) (ip + k) 4) (seg (m In) (m_pos + k) 4) j"
    and "ip + k + 4 \<le> length (m In)" "m_pos + k + 4 \<le> length (m In)"
    and "v = word_of_nat (native_val c (seg (m In) (ip + k) 4)) XOR
      word_of_nat (native_val c (seg (m In) (m_pos + k) 4))"
  shows "c_tail32 c m ip m_pos k v = Some (k + j)"
proof -
  let ?a = "seg (m In) (ip + k) 4" and ?b = "seg (m In) (m_pos + k) 4"
  have len: "length ?a = 4" "length ?b = 4" using assms(3,4) by (simp_all add: seg_props)
  have j: "j < 4" using assms(2) len by (simp add: differ_at_def)
  have c: "endian_ok c" "bitscan_ok c" using assms(1) by (simp_all add: cfg_ok_def)
  show ?thesis
  proof (cases "abi c")
    case ABI_LITTLE
    then have "low_first v j"
      using words_low_first [of ?a ?b j, where 'w = 32] len assms(2,5) c(1)
      by (simp add: native_val_def endian_ok_def)
    then show ?thesis
      using ABI_LITTLE c(2) low_zero_bytes_first [OF _ j] cttz_first
      by (auto simp: c_tail32_def bitscan_ok_def split: option.splits)
  next
    case ABI_BIG
    then have "high_first v j"
      using words_high_first [of ?a ?b j, where 'w = 32] len assms(2,5) c(1)
      by (simp add: native_val_def endian_ok_def)
    then show ?thesis
      using ABI_BIG c(2) high_zero_bytes_first [OF _ j] ctlz_first
      by (auto simp: c_tail32_def bitscan_ok_def split: option.splits)
  next
    case ABI_NEUTRAL
    then show ?thesis
      using assms(2-4) j by (auto simp: c_tail32_def differ_at_def seg_props add.assoc intro!: c_equal_bytes_eq)
  qed
qed

text \<open>A match candidate inside a block: the loads of the scan stay inside the input.\<close>

definition scan_ok :: "u8 list \<Rightarrow> nat \<Rightarrow> nat \<Rightarrow> nat \<Rightarrow> nat \<Rightarrow> bool" where
  "scan_ok xs ip m_pos ip_end k \<longleftrightarrow> m_pos < ip \<and> ip + k < ip_end + 4 \<and> ip_end + 20 \<le> length xs"

abbreviation same8 :: "u8 list \<Rightarrow> nat \<Rightarrow> nat \<Rightarrow> nat \<Rightarrow> bool" where
  "same8 xs ip m_pos k \<equiv> seg xs (ip + k) 8 = seg xs (m_pos + k) 8"

lemma ref_len_same:
  "same8 xs ip m_pos k \<Longrightarrow> ref_len xs ip m_pos ip_end k =
    (if ip_end \<le> ip + (k + 8) then k + 8 else ref_len xs ip m_pos ip_end (k + 8))"
  by (subst ref_len.simps) (simp add: first_diff_None [THEN iffD2])

lemma ref_len_differ:
  "differ_at (seg xs (ip + k) 8) (seg xs (m_pos + k) 8) j \<Longrightarrow> ref_len xs ip m_pos ip_end k = k + j"
  by (subst ref_len.simps) (simp add: first_diff_Some [THEN iffD2])

lemma not_same_differ: "length as = length bs \<Longrightarrow> as \<noteq> bs \<Longrightarrow> \<exists>j. differ_at as bs j"
  using first_diff_None [of as bs] first_diff_Some [of as bs] by (cases "first_diff as bs") auto

lemma scan_okD:
  assumes "scan_ok (m In) ip m_pos ip_end k"
  shows "ip + k + 8 \<le> length (m In)" "m_pos + k + 8 \<le> length (m In)"
    "ip + (k + 8) + 8 \<le> length (m In)" "m_pos + (k + 8) + 8 \<le> length (m In)"
    "\<not> ip_end \<le> ip + (k + 8) \<Longrightarrow> scan_ok (m In) ip m_pos ip_end (k + 8)"
  using assms by (auto simp: scan_ok_def)

lemma c_scan64_ref:
  assumes "cfg_ok c" "scan_ok (m In) ip m_pos ip_end k" "same8 (m In) ip m_pos k"
  shows "do { (m_len, r) \<leftarrow> c_scan64 c m ip m_pos ip_end k;
      (case r of None \<Rightarrow> Some m_len | Some v \<Rightarrow> c_tail64 c m ip m_pos m_len v) } =
    Some (ref_len (m In) ip m_pos ip_end k)"
  using assms
proof (induction c m ip m_pos ip_end k rule: c_scan64.induct)
  case (1 c m ip m_pos ip_end k)
  note S = scan_okD [where m = m, OF "1.prems"(2)]
  let ?a = "seg (m In) (ip + (k + 8)) 8" and ?b = "seg (m In) (m_pos + (k + 8)) 8"
  let ?v = "word_of_nat (native_val c ?a) XOR word_of_nat (native_val c ?b) :: u64"
  have x: "c_xor64 c m ip m_pos (k + 8) = Some ?v" using S(3,4) by (intro c_xor64_eq) simp_all
  have len: "length ?a = 8" "length ?b = 8" using S(3,4) by (simp_all add: seg_props)
  have v0: "?v = 0 \<longleftrightarrow> ?a = ?b" using len by (intro words_equal) simp_all
  have step: "c_scan64 c m ip m_pos ip_end k =
      (if ip_end \<le> ip + (k + 8) then Some (k + 8, None)
       else if ?v = 0 then c_scan64 c m ip m_pos ip_end (k + 8) else Some (k + 8, Some ?v))"
    by (subst c_scan64.simps) (simp add: x)
  show ?case
  proof (cases "ip_end \<le> ip + (k + 8)")
    case True
    then show ?thesis using ref_len_same [OF "1.prems"(3)] by (simp add: step)
  next
    case False
    show ?thesis
    proof (cases "?a = ?b")
      case True
      then have "?v = 0" using v0 by simp
      moreover from this show ?thesis
        using "1.IH" [OF x False] "1.prems"(1) S(5) [OF False] True False ref_len_same [OF "1.prems"(3)]
        by (simp add: step)
    next
      case differ: False
      obtain j where j: "differ_at ?a ?b j" using not_same_differ [OF _ differ] len by auto
      have "c_tail64 c m ip m_pos (k + 8) ?v = Some (k + 8 + j)"
        using S(3,4) j by (intro c_tail64_eq "1.prems"(1)) auto
      then show ?thesis
        using False differ v0 ref_len_same [OF "1.prems"(3)] ref_len_differ [OF j] by (simp add: step)
    qed
  qed
qed

lemma seg_8_4: "seg xs i 8 = seg xs i 4 @ seg xs (i + 4) 4"
  using take_add [of 4 4 "drop i xs"] by (simp add: seg_def add.commute)

lemma differ_at_append:
  assumes "length as = length bs"
  shows "differ_at as bs j \<Longrightarrow> differ_at (as @ xs) (bs @ ys) j"
    "as = bs \<Longrightarrow> differ_at xs ys j \<Longrightarrow> differ_at (as @ xs) (bs @ ys) (length as + j)"
  using assms by (auto simp: differ_at_def nth_append)

lemma c_scan32_ref:
  assumes "cfg_ok c" "scan_ok (m In) ip m_pos ip_end k" "seg (m In) (ip + k) 4 = seg (m In) (m_pos + k) 4"
  shows "do { (m_len, r) \<leftarrow> c_scan32 c m ip m_pos ip_end k;
      (case r of None \<Rightarrow> Some m_len | Some v \<Rightarrow> c_tail32 c m ip m_pos m_len v) } =
    Some (ref_len (m In) ip m_pos ip_end k)"
  using assms
proof (induction c m ip m_pos ip_end k rule: c_scan32.induct)
  case (1 c m ip m_pos ip_end k)
  note S = scan_okD [where m = m, OF "1.prems"(2)]
  let ?a = "\<lambda>d. seg (m In) (ip + (k + d)) 4" and ?b = "\<lambda>d. seg (m In) (m_pos + (k + d)) 4"
  let ?v = "\<lambda>d. word_of_nat (native_val c (?a d)) XOR word_of_nat (native_val c (?b d)) :: u32"
  have len: "length (?a d) = 4" "length (?b d) = 4" if "d \<le> 12" for d
    using S(3,4) that by (simp_all add: seg_props)
  have x: "c_xor32 c m ip m_pos (k + d) = Some (?v d)" if "d \<le> 12" for d
    using S(3,4) that by (intro c_xor32_eq) simp_all
  have v0: "?v d = 0 \<longleftrightarrow> ?a d = ?b d" if "d \<le> 12" for d
    using len [OF that] by (intro words_equal) simp_all
  have tail: "c_tail32 c m ip m_pos (k + d) (?v d) = Some (k + d + j)" if "d \<le> 12" "differ_at (?a d) (?b d) j" for d j
    using S(3,4) that by (intro c_tail32_eq "1.prems"(1)) auto
  have eight: "seg (m In) (ip + (k + d)) 8 = ?a d @ ?a (d + 4)"
      "seg (m In) (m_pos + (k + d)) 8 = ?b d @ ?b (d + 4)" for d
    by (simp_all add: seg_8_4 add.assoc)
  show ?case
  proof (cases "?a 4 = ?b 4")
    case False
    obtain j where j: "differ_at (?a 4) (?b 4) j" using not_same_differ [OF _ False] len by auto
    have "differ_at (seg (m In) (ip + k) 8) (seg (m In) (m_pos + k) 8) (4 + j)"
      using differ_at_append(2) [OF _ "1.prems"(3) j] len [of 0] by (simp add: seg_8_4 add.assoc)
    then have "ref_len (m In) ip m_pos ip_end k = k + 4 + j" using ref_len_differ by (simp add: add.assoc)
    then show ?thesis
      using x [of 4] v0 [of 4] False tail [OF _ j] by (subst c_scan32.simps) simp
  next
    case True
    have same: "same8 (m In) ip m_pos k" using True "1.prems"(3) by (simp add: seg_8_4 add.assoc)
    have step: "c_scan32 c m ip m_pos ip_end k =
        (if ip_end \<le> ip + (k + 8) then Some (k + 8, None)
         else if ?v 8 = 0 then c_scan32 c m ip m_pos ip_end (k + 8) else Some (k + 8, Some (?v 8)))"
      using x [of 4] x [of 8] v0 [of 4] True by (subst c_scan32.simps) simp
    show ?thesis
    proof (cases "ip_end \<le> ip + (k + 8)")
      case True
      then show ?thesis using ref_len_same [OF same] by (simp add: step)
    next
      case go: False
      show ?thesis
      proof (cases "?a 8 = ?b 8")
        case eq: True
        then have z: "?v 8 = 0" "?v 4 = 0" using v0 [of 8] v0 [of 4] True by auto
        have IH: "do { (m_len, r) \<leftarrow> c_scan32 c m ip m_pos ip_end (k + 8);
            (case r of None \<Rightarrow> Some m_len | Some v \<Rightarrow> c_tail32 c m ip m_pos m_len v) } =
          Some (ref_len (m In) ip m_pos ip_end (k + 8))"
          using z x [of 4] x [of 8] go eq S(5) "1.prems"(1) by (intro "1.IH" [of "?v 4" "?v 8"]) auto
        then show ?thesis using z go ref_len_same [OF same] by (simp add: step)
      next
        case differ: False
        obtain j where j: "differ_at (?a 8) (?b 8) j" using not_same_differ [OF _ differ] len by auto
        have "differ_at (seg (m In) (ip + (k + 8)) 8) (seg (m In) (m_pos + (k + 8)) 8) j"
          unfolding eight using differ_at_append(1) [OF _ j] len by auto
        then show ?thesis
          using go differ v0 [of 8] tail [OF _ j] ref_len_same [OF same] ref_len_differ by (simp add: step)
      qed
    qed
  qed
qed

text \<open>The byte variant.\<close>

lemma c_bytes_eq:
  assumes "ip + k + n < length (m In)" "m_pos + k + n < length (m In)"
  shows "\<forall>i < n. m In ! (ip + (k + 1 + i)) = m In ! (m_pos + (k + 1 + i)) \<Longrightarrow>
      c_bytes m ip m_pos n k = Some (k + n, True)"
    "j < n \<Longrightarrow> \<forall>i < j. m In ! (ip + (k + 1 + i)) = m In ! (m_pos + (k + 1 + i)) \<Longrightarrow>
      m In ! (ip + (k + 1 + j)) \<noteq> m In ! (m_pos + (k + 1 + j)) \<Longrightarrow>
      c_bytes m ip m_pos n k = Some (k + 1 + j, False)"
  using assms
proof (induction n arbitrary: k j)
  case (Suc n)
  have d: "c_differ m ip m_pos (k + 1) = Some (m In ! (ip + (k + 1)) \<noteq> m In ! (m_pos + (k + 1)))"
    if "ip + k + Suc n < length (m In)" "m_pos + k + Suc n < length (m In)" for k
    using that by (simp add: c_differ_def)
  {
    case 1
    then show ?case using d [OF 1(2,3)] Suc.IH(1) [of "k + 1"] by (simp add: all_less_Suc_split_first)
  next
    case 2
    then show ?case
      using d [OF 2(4,5)] Suc.IH(2) [of "j - 1" "k + 1"] by (cases j) (simp_all add: all_less_Suc_split_first)
  }
qed simp_all

lemma seg_nth_eq:
  "i + n \<le> length xs \<Longrightarrow> i' + n \<le> length xs \<Longrightarrow> seg xs i n = seg xs i' n \<longleftrightarrow> (\<forall>j < n. xs ! (i + j) = xs ! (i' + j))"
  by (auto simp: list_eq_iff_nth_eq seg_props)

lemma differ_at_seg:
  "i + n \<le> length xs \<Longrightarrow> i' + n \<le> length xs \<Longrightarrow> differ_at (seg xs i n) (seg xs i' n) j \<longleftrightarrow>
     j < n \<and> xs ! (i + j) \<noteq> xs ! (i' + j) \<and> (\<forall>k < j. xs ! (i + k) = xs ! (i' + k))"
  by (auto simp: differ_at_def seg_props)

lemma c_scan8_ref:
  assumes "scan_ok (m In) ip m_pos ip_end k" "m In ! (ip + k) = m In ! (m_pos + k)"
  shows "c_scan8 m ip m_pos ip_end k = Some (ref_len (m In) ip m_pos ip_end k)"
  using assms
proof (induction m ip m_pos ip_end k rule: c_scan8.induct)
  case (1 m ip m_pos ip_end k)
  note S = scan_okD [where m = m, OF "1.prems"(1)]
  have b: "ip + k + 7 < length (m In)" "m_pos + k + 7 < length (m In)" using S(1,2) by simp_all
  show ?case
  proof (cases "same8 (m In) ip m_pos k")
    case same: True
    then have eq: "\<forall>j < 8. m In ! (ip + k + j) = m In ! (m_pos + k + j)"
      using S(1,2) by (simp add: seg_nth_eq)
    have "\<forall>i < 7. m In ! (ip + (k + 1 + i)) = m In ! (m_pos + (k + 1 + i))"
    proof (intro allI impI)
      fix i :: nat assume "i < 7"
      then show "m In ! (ip + (k + 1 + i)) = m In ! (m_pos + (k + 1 + i))"
        using eq [rule_format, of "1 + i"] by (simp add: add.assoc)
    qed
    then have bytes: "c_bytes m ip m_pos 7 k = Some (k + 7, True)" by (rule c_bytes_eq(1) [where m = m, OF b])
    have d: "c_differ m ip m_pos (k + 8) = Some (m In ! (ip + (k + 8)) \<noteq> m In ! (m_pos + (k + 8)))"
      using S(3,4) by (simp add: c_differ_def)
    have e: "k + 7 + 1 = k + 8" by simp
    have step: "c_scan8 m ip m_pos ip_end k =
      (if ip_end \<le> ip + (k + 8) then Some (k + 8)
       else if m In ! (ip + (k + 8)) \<noteq> m In ! (m_pos + (k + 8)) then Some (k + 8)
       else c_scan8 m ip m_pos ip_end (k + 8))"
      unfolding c_scan8.simps [of m ip m_pos ip_end k] bytes Option.bind.simps prod.case e d by simp
    show ?thesis
    proof (cases "ip_end \<le> ip + (k + 8) \<or> m In ! (ip + (k + 8)) = m In ! (m_pos + (k + 8))")
      case True
      then show ?thesis
        using "1.IH" [OF bytes refl, unfolded e] d S(5) ref_len_same [OF same] by (auto simp: step)
    next
      case False
      then have "ref_len (m In) ip m_pos ip_end (k + 8) = k + 8 + 0"
        using S(3,4) by (intro ref_len_differ) (simp add: differ_at_seg)
      then show ?thesis using False ref_len_same [OF same] by (simp add: step)
    qed
  next
    case False
    then obtain j where j: "differ_at (seg (m In) (ip + k) 8) (seg (m In) (m_pos + k) 8) j"
      using not_same_differ [OF _ False] S(1,2) by (auto simp: seg_props)
    then have j': "j < 8" "m In ! (ip + k + j) \<noteq> m In ! (m_pos + k + j)"
        "\<forall>i < j. m In ! (ip + k + i) = m In ! (m_pos + k + i)"
      using S(1,2) by (simp_all add: differ_at_seg)
    then obtain i where i: "j = Suc i" using "1.prems"(2) by (cases j) auto
    then have "c_bytes m ip m_pos 7 k = Some (k + 1 + i, False)"
      using j' by (intro c_bytes_eq(2) [where m = m, OF b]) (auto simp: all_less_Suc_split_first add.assoc)
    then show ?thesis using ref_len_differ [OF j] i by (subst c_scan8.simps) simp
  qed
qed

text \<open>Whatever the build, the scan computes the reference.\<close>

lemma c_match_len_ref:
  assumes "cfg_ok c" "m_pos < ip" "ip < ip_end" "ip_end + 20 \<le> length (m In)"
  shows "c_match_len c m ip m_pos ip_end = Some (ref_len (m In) ip m_pos ip_end 4)"
proof -
  have ok: "scan_ok (m In) ip m_pos ip_end 4" using assms(2-4) by (simp add: scan_ok_def)
  note S = scan_okD [where m = m, OF ok]
  have xor: "c_xor64 c m ip m_pos 4 = Some (word_of_nat (native_val c (seg (m In) (ip + 4) 8)) XOR
      word_of_nat (native_val c (seg (m In) (m_pos + 4) 8)))"
    "c_xor32 c m ip m_pos 4 = Some (word_of_nat (native_val c (seg (m In) (ip + 4) 4)) XOR
      word_of_nat (native_val c (seg (m In) (m_pos + 4) 4)))"
    using S(1,2) by (simp_all add: c_xor64_eq c_xor32_eq)
  have len: "length (seg (m In) (ip + 4) 8) = 8" "length (seg (m In) (m_pos + 4) 8) = 8"
      "length (seg (m In) (ip + 4) 4) = 4" "length (seg (m In) (m_pos + 4) 4) = 4"
    using S(1,2) by (simp_all add: seg_props)
  consider (w64) "opt_unaligned64 c" | (w32) "\<not> opt_unaligned64 c" "opt_unaligned32 c"
    | (w8) "\<not> opt_unaligned64 c" "\<not> opt_unaligned32 c" by blast
  then show ?thesis
  proof cases
    case w64
    show ?thesis
    proof (cases "same8 (m In) ip m_pos 4")
      case True
      then show ?thesis
        using w64 xor(1) c_scan64_ref [where m = m, OF assms(1) ok True] by (simp add: c_match_len_def)
    next
      case False
      then obtain j where j: "differ_at (seg (m In) (ip + 4) 8) (seg (m In) (m_pos + 4) 8) j"
        using not_same_differ [OF _ False] len by auto
      moreover have "word_of_nat (native_val c (seg (m In) (ip + 4) 8)) XOR
          word_of_nat (native_val c (seg (m In) (m_pos + 4) 8)) \<noteq> (0 :: u64)"
        using False words_equal [of "seg (m In) (ip + 4) 8" "seg (m In) (m_pos + 4) 8" c, where 'w = 64] len by simp
      ultimately show ?thesis
        using w64 xor(1) c_tail64_eq [where m = m, OF assms(1) j S(1,2) refl] ref_len_differ [OF j]
        by (simp add: c_match_len_def)
    qed
  next
    case w32
    show ?thesis
    proof (cases "seg (m In) (ip + 4) 4 = seg (m In) (m_pos + 4) 4")
      case True
      then show ?thesis
        using w32 xor(2) c_scan32_ref [where m = m, OF assms(1) ok True] by (simp add: c_match_len_def)
    next
      case False
      then obtain j where j: "differ_at (seg (m In) (ip + 4) 4) (seg (m In) (m_pos + 4) 4) j"
        using not_same_differ [OF _ False] len by auto
      have "differ_at (seg (m In) (ip + 4) 8) (seg (m In) (m_pos + 4) 8) j"
        unfolding seg_8_4 using differ_at_append(1) [OF _ j] len by auto
      moreover have "word_of_nat (native_val c (seg (m In) (ip + 4) 4)) XOR
          word_of_nat (native_val c (seg (m In) (m_pos + 4) 4)) \<noteq> (0 :: u32)"
        using False words_equal [of "seg (m In) (ip + 4) 4" "seg (m In) (m_pos + 4) 4" c, where 'w = 32] len by simp
      moreover have "ip + 4 + 4 \<le> length (m In)" "m_pos + 4 + 4 \<le> length (m In)" using S(1,2) by simp_all
      ultimately show ?thesis
        using w32 xor(2) c_tail32_eq [where m = m, OF assms(1) j _ _ refl] ref_len_differ by (simp add: c_match_len_def)
    qed
  next
    case w8
    have d: "c_differ m ip m_pos 4 = Some (m In ! (ip + 4) \<noteq> m In ! (m_pos + 4))"
      using S(1,2) by (simp add: c_differ_def)
    show ?thesis
    proof (cases "m In ! (ip + 4) = m In ! (m_pos + 4)")
      case True
      then show ?thesis using w8 d c_scan8_ref [where m = m, OF ok True] by (simp add: c_match_len_def)
    next
      case False
      then have "ref_len (m In) ip m_pos ip_end 4 = 4 + 0"
        using S(1,2) by (intro ref_len_differ) (simp add: differ_at_seg)
      then show ?thesis using w8 d False by (simp add: c_match_len_def)
    qed
  qed
qed

section \<open>What the reference promises\<close>

lemma ref_len_ge: "k \<le> ref_len xs ip m_pos ip_end k"
proof (induction xs ip m_pos ip_end k rule: ref_len.induct)
  case (1 xs ip m_pos ip_end k)
  then show ?case by (subst ref_len.simps) (auto split: option.split)
qed

lemma ref_len_match:
  assumes "scan_ok xs ip m_pos ip_end k" "\<forall>j < k. xs ! (ip + j) = xs ! (m_pos + j)"
  shows "ip + ref_len xs ip m_pos ip_end k < ip_end + 12"
    "\<forall>j < ref_len xs ip m_pos ip_end k. xs ! (ip + j) = xs ! (m_pos + j)"
proof -
  have "ip + ref_len xs ip m_pos ip_end k < ip_end + 12 \<and>
    (\<forall>j < ref_len xs ip m_pos ip_end k. xs ! (ip + j) = xs ! (m_pos + j))"
    using assms
  proof (induction xs ip m_pos ip_end k rule: ref_len.induct)
    case (1 xs ip m_pos ip_end k)
    have b: "ip + k + 8 \<le> length xs" "m_pos + k + 8 \<le> length xs" and lt: "ip + k < ip_end + 4"
      using "1.prems"(1) by (auto simp: scan_ok_def)
    have ext: "\<forall>j < k + n. xs ! (ip + j) = xs ! (m_pos + j)"
      if "\<forall>j < n. xs ! (ip + k + j) = xs ! (m_pos + k + j)" for n
    proof (intro allI impI)
      fix j assume j: "j < k + n"
      show "xs ! (ip + j) = xs ! (m_pos + j)"
        using "1.prems"(2) that [rule_format, of "j - k"] j by (cases "j < k") (auto simp: add.assoc)
    qed
    show ?case
    proof (cases "same8 xs ip m_pos k")
      case True
      then have eq: "\<forall>j < k + 8. xs ! (ip + j) = xs ! (m_pos + j)"
        using b by (intro ext) (simp add: seg_nth_eq)
      show ?thesis
      proof (cases "ip_end \<le> ip + (k + 8)")
        case True
        then show ?thesis using ref_len_same [OF \<open>same8 xs ip m_pos k\<close>, of ip_end] eq lt by simp
      next
        case False
        have "first_diff (seg xs (ip + k) 8) (seg xs (m_pos + k) 8) = None"
          using True by (simp add: first_diff_None)
        moreover have "scan_ok xs ip m_pos ip_end (k + 8)" using False "1.prems"(1) by (simp add: scan_ok_def)
        ultimately show ?thesis
          using "1.IH" [OF _ False _ eq] False ref_len_same [OF True, of ip_end] by simp
      qed
    next
      case False
      then obtain j where j: "differ_at (seg xs (ip + k) 8) (seg xs (m_pos + k) 8) j"
        using not_same_differ [OF _ False] b by (auto simp: seg_props)
      then have "j < 8" "\<forall>i < j. xs ! (ip + k + i) = xs ! (m_pos + k + i)" using b by (auto simp: differ_at_seg)
      then show ?thesis using ref_len_differ [OF j, of ip_end] ext lt by simp
    qed
  qed
  then show "ip + ref_len xs ip m_pos ip_end k < ip_end + 12"
    "\<forall>j < ref_len xs ip m_pos ip_end k. xs ! (ip + j) = xs ! (m_pos + j)" by blast+
qed

end
