(* ===== verification/Lzo_Format.thy ===== *)
theory Lzo_Format
  imports Sdk_Memory
begin

text \<open>
  The LZO1X stream format, as an abstract specification on byte lists: how a stream is
  divided into literal runs and matches and what each contributes to the output. It knows
  nothing of buffers, pointers, word sizes or build options; the compressor and the two
  decompressors are related to it.

  A stream is read in a mode: at its start, at the top of the main loop, after a literal run,
  after the one to three literals that may follow a match, or right after a match, where the
  two state bits of the match say how many literals follow.
\<close>

datatype fmt_mode = F_start | F_top | F_lit | F_short | F_after nat | F_eof nat

type_synonym fmt_state = "fmt_mode \<times> u8 list \<times> u8 list"

text \<open>
  A length field: a non-zero field is the length; a zero field is followed by zero bytes of
  255 each and a last non-zero byte, counted from \<open>base\<close>.
\<close>

fun ext_len :: "nat \<Rightarrow> u8 list \<Rightarrow> (nat \<times> u8 list) option" where
  "ext_len n [] = None"
| "ext_len n (b # bs) = (if b = 0 then ext_len (n + 255) bs else Some (n + unat b, bs))"

definition fmt_len :: "nat \<Rightarrow> nat \<Rightarrow> u8 list \<Rightarrow> (nat \<times> u8 list) option" where
  "fmt_len base fld bs = (if fld = 0 then ext_len base bs else Some (fld, bs))"

text \<open>Two bytes holding a 14-bit offset and the two state bits.\<close>

fun fmt_off :: "u8 list \<Rightarrow> (nat \<times> nat \<times> u8 list) option" where
  "fmt_off (b0 # b1 # bs) = Some (unat b0 div 4 + unat b1 * 64, unat b0 mod 4, bs)"
| "fmt_off _ = None"

text \<open>A match: offset, length and state bits, or the end-of-stream marker.\<close>

datatype fmt_match = FM_copy nat nat nat | FM_eof nat

definition fmt_m2 :: "nat \<Rightarrow> u8 list \<Rightarrow> (fmt_match \<times> u8 list) option" where
  "fmt_m2 t bs = (case bs of [] \<Rightarrow> None
     | b # r \<Rightarrow> Some (FM_copy (1 + t div 4 mod 8 + unat b * 8) (t div 32 + 1) (t mod 4), r))"

definition fmt_m3 :: "nat \<Rightarrow> u8 list \<Rightarrow> (fmt_match \<times> u8 list) option" where
  "fmt_m3 t bs = do { (l, r) \<leftarrow> fmt_len 31 (t mod 32) bs; (off, st, r) \<leftarrow> fmt_off r;
     Some (FM_copy (1 + off) (l + 2) st, r) }"

definition fmt_m4 :: "nat \<Rightarrow> u8 list \<Rightarrow> (fmt_match \<times> u8 list) option" where
  "fmt_m4 t bs = do { (l, r) \<leftarrow> fmt_len 7 (t mod 8) bs; (off, st, r) \<leftarrow> fmt_off r;
     let off = off + t div 8 mod 2 * 16384;
     Some (if off = 0 then (FM_eof l, r) else (FM_copy (off + 16384) (l + 2) st, r)) }"

text \<open>The short form depends on what preceded it.\<close>

definition fmt_m1 :: "fmt_mode \<Rightarrow> nat \<Rightarrow> u8 list \<Rightarrow> (fmt_match \<times> u8 list) option" where
  "fmt_m1 md t bs = (case bs of [] \<Rightarrow> None
     | b # r \<Rightarrow> (if md = F_short then Some (FM_copy (1 + t div 4 + unat b * 4) 2 (t mod 4), r)
         else if md = F_lit then Some (FM_copy (2049 + t div 4 + unat b * 4) 3 (t mod 4), r)
         else None))"

fun fmt_parse :: "fmt_mode \<Rightarrow> u8 list \<Rightarrow> (fmt_match \<times> u8 list) option" where
  "fmt_parse md [] = None"
| "fmt_parse md (b # bs) =
     (if unat b \<ge> 64 then fmt_m2 (unat b) bs
      else if unat b \<ge> 32 then fmt_m3 (unat b) bs
      else if unat b \<ge> 16 then fmt_m4 (unat b) bs
      else fmt_m1 md (unat b) bs)"

inductive fmt_step :: "fmt_state \<Rightarrow> fmt_state \<Rightarrow> bool" where
  start_lit: "n = unat b - 17 \<Longrightarrow> 4 \<le> n \<Longrightarrow> n \<le> length bs \<Longrightarrow>
    fmt_step (F_start, b # bs, out) (F_lit, drop n bs, out @ take n bs)"
| start_short: "n = unat b - 17 \<Longrightarrow> 0 < n \<Longrightarrow> n < 4 \<Longrightarrow>
    fmt_step (F_start, b # bs, out) (F_after n, bs, out)"
| start_top: "unat b \<le> 17 \<Longrightarrow> fmt_step (F_start, b # bs, out) (F_top, b # bs, out)"
| run: "unat b < 16 \<Longrightarrow> fmt_len 15 (unat b) bs = Some (l, r) \<Longrightarrow> l + 3 \<le> length r \<Longrightarrow>
    fmt_step (F_top, b # bs, out) (F_lit, drop (l + 3) r, out @ take (l + 3) r)"
| copy: "md \<in> {F_top, F_lit, F_short} \<Longrightarrow> fmt_parse md bs = Some (FM_copy off len st, r) \<Longrightarrow>
    off \<le> length out \<Longrightarrow> fmt_step (md, bs, out) (F_after st, r, lz_copy out off len)"
| eof: "md \<in> {F_top, F_lit, F_short} \<Longrightarrow> fmt_parse md bs = Some (FM_eof l, r) \<Longrightarrow>
    fmt_step (md, bs, out) (F_eof l, r, out)"
| after_none: "fmt_step (F_after 0, bs, out) (F_top, bs, out)"
| after_lit: "0 < st \<Longrightarrow> st \<le> 3 \<Longrightarrow> st \<le> length bs \<Longrightarrow>
    fmt_step (F_after st, bs, out) (F_short, drop st bs, out @ take st bs)"

inductive_cases fmt_step_startE: "fmt_step (F_start, bs, out) y"
inductive_cases fmt_step_topE: "fmt_step (F_top, bs, out) y"
inductive_cases fmt_step_litE: "fmt_step (F_lit, bs, out) y"
inductive_cases fmt_step_shortE: "fmt_step (F_short, bs, out) y"
inductive_cases fmt_step_afterE: "fmt_step (F_after st, bs, out) y"
inductive_cases fmt_step_at_eofE: "fmt_step (F_eof l, bs, out) y"
inductive_cases fmt_step_eofE: "fmt_step x (F_eof l, r, out)"

abbreviation fmt_steps :: "fmt_state \<Rightarrow> fmt_state \<Rightarrow> bool" where
  "fmt_steps \<equiv> fmt_step\<^sup>*\<^sup>*"

text \<open>
  \<open>bs\<close> is a complete stream and \<open>out\<close> is what it stands for; the length field of the end
  marker means nothing, but has a value. A proper stream ends in the marker 17 0 0, where it
  is 1.
\<close>

definition lzo_decodes :: "u8 list \<Rightarrow> u8 list \<Rightarrow> bool" where
  "lzo_decodes bs out \<longleftrightarrow> (\<exists>l. fmt_steps (F_start, bs, []) (F_eof l, [], out))"

definition lzo_stream :: "u8 list \<Rightarrow> u8 list \<Rightarrow> bool" where
  "lzo_stream bs out \<longleftrightarrow> fmt_steps (F_start, bs, []) (F_eof 1, [], out)"

lemma lzo_stream_decodes: "lzo_stream bs out \<Longrightarrow> lzo_decodes bs out"
  by (auto simp: lzo_stream_def lzo_decodes_def)

section \<open>Lengths\<close>

lemma ext_len_length: "ext_len n bs = Some (l, r) \<Longrightarrow> length r < length bs \<and> n < l"
proof (induction n bs rule: ext_len.induct)
  case (2 n b bs)
  then show ?case by (auto split: if_splits simp: unat_gt_0)
qed simp

text \<open>The shape of a long length: zero bytes up to the first non-zero one.\<close>

lemma ext_len_iff:
  "ext_len n bs = Some (l, r) \<longleftrightarrow> (\<exists>k < length bs. (\<forall>j < k. bs ! j = 0) \<and> bs ! k \<noteq> 0 \<and>
     l = n + 255 * k + unat (bs ! k) \<and> r = drop (Suc k) bs)"
proof (induction n bs rule: ext_len.induct)
  case (2 n b bs)
  show ?case
  proof (cases "b = 0")
    case True
    then have "ext_len n (b # bs) = Some (l, r) \<longleftrightarrow> (\<exists>k < length bs. (\<forall>j < k. bs ! j = 0) \<and> bs ! k \<noteq> 0 \<and>
        l = n + 255 + 255 * k + unat (bs ! k) \<and> r = drop (Suc k) bs)" using 2 by simp
    also have "\<dots> \<longleftrightarrow> (\<exists>k < length (b # bs). (\<forall>j < k. (b # bs) ! j = 0) \<and> (b # bs) ! k \<noteq> 0 \<and>
        l = n + 255 * k + unat ((b # bs) ! k) \<and> r = drop (Suc k) (b # bs))"
      using True by (simp add: ex_less_Suc_split_first all_less_Suc_split_first add.assoc)
    finally show ?thesis .
  next
    case False
    then show ?thesis by (auto simp: ex_less_Suc_split_first all_less_Suc_split_first)
  qed
qed simp

lemma fmt_len_length: "fmt_len base fld bs = Some (l, r) \<Longrightarrow> length r \<le> length bs"
  by (auto simp: fmt_len_def dest: ext_len_length split: if_splits)

lemma fmt_len_pos: "fmt_len base fld bs = Some (l, r) \<Longrightarrow> 0 < l"
  by (auto simp: fmt_len_def dest: ext_len_length split: if_splits)

lemma fmt_off_length: "fmt_off bs = Some (off, st, r) \<Longrightarrow> length bs = length r + 2 \<and> st \<le> 3"
  by (cases bs rule: fmt_off.cases) auto

lemma fmt_parse_length:
  assumes "fmt_parse md bs = Some (mt, r)"
  shows "length r + 2 \<le> length bs" "mt = FM_eof l \<Longrightarrow> length r + 3 \<le> length bs"
    "mt = FM_copy off len st \<Longrightarrow> 0 < off \<and> 0 < len \<and> st \<le> 3"
  using assms
  by (cases "(md, bs)" rule: fmt_parse.cases;
      auto simp: fmt_m1_def fmt_m2_def fmt_m3_def fmt_m4_def Let_def bind_eq_Some_conv
        split: if_splits list.splits dest!: fmt_len_length fmt_off_length)+

lemma fmt_step_mono:
  assumes "fmt_step x y"
  shows "length (fst (snd y)) \<le> length (fst (snd x))" "length (snd (snd x)) \<le> length (snd (snd y))"
  using assms by (induction rule: fmt_step.induct) (auto dest: fmt_len_length fmt_parse_length)

lemma fmt_steps_mono:
  assumes "fmt_steps x y"
  shows "length (fst (snd y)) \<le> length (fst (snd x)) \<and> length (snd (snd x)) \<le> length (snd (snd y))"
  using assms by (induction rule: rtranclp_induct) (auto dest: fmt_step_mono)

text \<open>Whatever can still reach the end of the stream has the three marker bytes ahead of it.\<close>

lemma fmt_steps_eof_length:
  assumes "fmt_steps (md, bs, out) (F_eof l, r, out')" "\<forall>l. md \<noteq> F_eof l"
  shows "length r + 3 \<le> length bs"
proof -
  obtain y where y: "fmt_steps (md, bs, out) y" "fmt_step y (F_eof l, r, out')"
    using assms by (auto elim: rtranclp.cases)
  have "length r + 3 \<le> length (fst (snd y))"
    using y(2) by (auto elim!: fmt_step_eofE dest: fmt_parse_length(2) split: if_splits)
  also have "\<dots> \<le> length bs" using fmt_steps_mono [OF y(1)] by simp
  finally show ?thesis .
qed

section \<open>Streams that decode within a limit\<close>

lemma fmt_m1_top [simp]: "fmt_m1 F_top t bs = None"
  by (simp add: fmt_m1_def split: list.split)

lemmas fmt_step_cases = fmt_step_startE fmt_step_topE fmt_step_litE fmt_step_shortE fmt_step_afterE
  fmt_step_at_eofE

lemma fmt_step_det: "fmt_step x y \<Longrightarrow> fmt_step x z \<Longrightarrow> y = z"
proof (induction rule: fmt_step.induct)
  case (run b bs l r out)
  then show ?case by (elim fmt_step_topE) auto
next
  case (copy md bs off len st r out)
  then show ?case by (auto elim!: fmt_step_cases)
next
  case (eof md bs l r out)
  then show ?case by (auto elim!: fmt_step_cases)
qed (auto elim!: fmt_step_cases)

lemma fmt_steps_det:
  assumes "fmt_steps x y" "fmt_steps x (F_eof l, r, out)"
  shows "fmt_steps y (F_eof l, r, out)"
  using assms
proof (induction rule: converse_rtranclp_induct)
  case (step x z)
  from step.prems show ?case
  proof (cases rule: converse_rtranclpE)
    case base
    with step.hyps(1) show ?thesis by (auto elim: fmt_step_at_eofE)
  next
    case (step u)
    then show ?thesis using step.IH fmt_step_det [OF step.hyps(1)] by blast
  qed
qed

text \<open>\<open>fmt_viable k j x\<close>: from \<open>x\<close> the stream runs to its end, with at most \<open>k\<close> and at most \<open>j\<close>
  bytes of output and no more than \<open>j\<close> in the length field of the end marker.\<close>

definition fmt_viable :: "nat \<Rightarrow> nat \<Rightarrow> fmt_state \<Rightarrow> bool" where
  "fmt_viable k j x \<longleftrightarrow> (\<exists>l out. fmt_steps x (F_eof l, [], out) \<and> length out \<le> k \<and> length out \<le> j \<and> l \<le> j)"

lemma fmt_viable_steps: "fmt_steps x y \<Longrightarrow> fmt_viable k j x \<Longrightarrow> fmt_viable k j y"
  unfolding fmt_viable_def using fmt_steps_det by blast

lemma fmt_viable_step:
  assumes "fmt_viable k j x" "\<forall>l. fst x \<noteq> F_eof l"
  obtains y where "fmt_step x y" "fmt_viable k j y"
  using assms unfolding fmt_viable_def by (metis converse_rtranclpE fst_conv)

lemma fmt_viable_out: "fmt_viable k j (md, bs, out) \<Longrightarrow> length out \<le> k \<and> length out \<le> j"
  unfolding fmt_viable_def using fmt_steps_mono by fastforce

lemma fmt_viable_length: "fmt_viable k j (md, bs, out) \<Longrightarrow> (\<forall>l. md \<noteq> F_eof l) \<Longrightarrow> 3 \<le> length bs"
  unfolding fmt_viable_def using fmt_steps_eof_length by fastforce

lemma fmt_viable_eof: "fmt_viable k j (F_eof l, bs, out) \<Longrightarrow> bs = [] \<and> l \<le> j"
  unfolding fmt_viable_def by (auto elim: converse_rtranclpE fmt_step_at_eofE)

lemma fmt_viable_start:
  assumes "fmt_viable k j (F_start, b # bs, out)" "n = unat b - 17" "4 \<le> n"
  shows "length out + n \<le> k" "n + 3 \<le> length bs"
proof -
  obtain y where y: "fmt_step (F_start, b # bs, out) y" "fmt_viable k j y"
    using fmt_viable_step [OF assms(1)] by auto
  then have "y = (F_lit, drop n bs, out @ take n bs) \<and> n \<le> length bs"
    using assms(2,3) by (auto elim!: fmt_step_startE)
  then show "length out + n \<le> k" "n + 3 \<le> length bs"
    using y(2) fmt_viable_out fmt_viable_length by fastforce+
qed

lemma fmt_viable_run:
  assumes "fmt_viable k j (F_top, b # bs, out)" "unat b < 16"
  obtains l r where "fmt_len 15 (unat b) bs = Some (l, r)" "l + 6 \<le> length r" "length out + l + 3 \<le> k" "length out + l + 3 \<le> j"
proof -
  obtain y where y: "fmt_step (F_top, b # bs, out) y" "fmt_viable k j y"
    using fmt_viable_step [OF assms(1)] by auto
  then obtain l r where l: "fmt_len 15 (unat b) bs = Some (l, r)" "l + 3 \<le> length r"
    "y = (F_lit, drop (l + 3) r, out @ take (l + 3) r)"
    using assms(2) by (auto elim!: fmt_step_topE)
  with y(2) have "length (out @ take (l + 3) r) \<le> k \<and> length (out @ take (l + 3) r) \<le> j" "3 \<le> length (drop (l + 3) r)"
    using fmt_viable_out fmt_viable_length by blast+
  then show thesis using that [OF l(1)] l(2) by simp
qed

lemma fmt_viable_match:
  assumes "fmt_viable k j (md, b # bs, out)" "md \<in> {F_top, F_lit, F_short}" "md = F_top \<Longrightarrow> 16 \<le> unat b"
  obtains off len st r where "fmt_parse md (b # bs) = Some (FM_copy off len st, r)" "off \<le> length out"
      "length out + len \<le> k" "length out + len \<le> j"
    | l r where "fmt_parse md (b # bs) = Some (FM_eof l, r)" "r = []" "l \<le> j"
proof -
  obtain y where y: "fmt_step (md, b # bs, out) y" "fmt_viable k j y"
    using fmt_viable_step [OF assms(1)] assms(2) by auto
  from y(1) assms(2,3) have
    "(\<exists>off len st r. fmt_parse md (b # bs) = Some (FM_copy off len st, r) \<and> off \<le> length out \<and>
       y = (F_after st, r, lz_copy out off len)) \<or>
     (\<exists>l r. fmt_parse md (b # bs) = Some (FM_eof l, r) \<and> y = (F_eof l, r, out))"
    by (auto elim!: fmt_step_cases)
  then show thesis using that y(2) fmt_viable_out fmt_viable_eof by fastforce
qed

lemma fmt_viable_after:
  assumes "fmt_viable k j (F_after st, bs, out)" "0 < st"
  shows "st + 3 \<le> length bs" "length out + st \<le> k"
proof -
  obtain y where y: "fmt_step (F_after st, bs, out) y" "fmt_viable k j y"
    using fmt_viable_step [OF assms(1)] by auto
  then have "y = (F_short, drop st bs, out @ take st bs) \<and> st \<le> length bs"
    using assms(2) by (auto elim!: fmt_step_afterE)
  then show "st + 3 \<le> length bs" "length out + st \<le> k"
    using y(2) fmt_viable_out fmt_viable_length by fastforce+
qed

text \<open>A long match that reaches the end of the stream has a readable length field within the limit.\<close>

lemma fmt_m3_len:
  assumes "fmt_m3 t bs = Some (mt, r)"
  obtains l r' off st where "fmt_len 31 (t mod 32) bs = Some (l, r')" "2 \<le> length r'"
    "mt = FM_copy off (l + 2) st"
  using assms by (force simp: fmt_m3_def bind_eq_Some_conv dest: fmt_off_length)

lemma fmt_m4_len:
  assumes "fmt_m4 t bs = Some (mt, r)"
  obtains l r' off st where "fmt_len 7 (t mod 8) bs = Some (l, r')" "2 \<le> length r'"
    "mt = FM_copy off (l + 2) st \<or> mt = FM_eof l"
  using assms by (force simp: fmt_m4_def bind_eq_Some_conv Let_def dest: fmt_off_length split: if_splits)

lemma fmt_viable_m3:
  assumes "fmt_viable k j (md, b # bs, out)" "md \<in> {F_top, F_lit, F_short}" "32 \<le> unat b" "unat b < 64"
  shows "\<exists>l r. fmt_len 31 (unat b mod 32) bs = Some (l, r) \<and> 2 \<le> length r \<and> l \<le> j"
proof -
  have p: "fmt_parse md (b # bs) = fmt_m3 (unat b) bs" using assms(3,4) by simp
  obtain mt r where mt: "fmt_m3 (unat b) bs = Some (mt, r)"
    "\<And>off len st. mt = FM_copy off len st \<Longrightarrow> len \<le> j" "\<And>l. mt = FM_eof l \<Longrightarrow> l \<le> j"
    by (rule fmt_viable_match [OF assms(1,2)]) (use assms(3) in \<open>force simp only: p\<close>)+
  from fmt_m3_len [OF mt(1)] show ?thesis using mt(2,3) by (metis add_leD1)
qed

lemma fmt_viable_m4:
  assumes "fmt_viable k j (md, b # bs, out)" "md \<in> {F_top, F_lit, F_short}" "16 \<le> unat b" "unat b < 32"
  shows "\<exists>l r. fmt_len 7 (unat b mod 8) bs = Some (l, r) \<and> 2 \<le> length r \<and> l \<le> j"
proof -
  have p: "fmt_parse md (b # bs) = fmt_m4 (unat b) bs" using assms(3,4) by simp
  obtain mt r where mt: "fmt_m4 (unat b) bs = Some (mt, r)"
    "\<And>off len st. mt = FM_copy off len st \<Longrightarrow> len \<le> j" "\<And>l. mt = FM_eof l \<Longrightarrow> l \<le> j"
    by (rule fmt_viable_match [OF assms(1,2)]) (use assms(3) in \<open>force simp only: p\<close>)+
  from fmt_m4_len [OF mt(1)] show ?thesis using mt(2,3) by (metis add_leD1)
qed

end
