(* ===== verification/Lzo_Ref.thy ===== *)
theory Lzo_Ref
  imports Lzo_Scan Lzo_Format
begin

text \<open>
  A reference compressor on byte lists: what \<^verbatim>\<open>lzo1x_1_compress\<close> computes, without
  memory, pointers and build options. The theory shows that its output is a proper LZO1X
  stream for its input and bounds its length.
\<close>

section \<open>Encodings\<close>

text \<open>A length counted from the base of its field: zero bytes of 255 each and a last byte.\<close>

function long_bytes :: "nat \<Rightarrow> u8 list" where
  "long_bytes n = (if 255 < n then 0 # long_bytes (n - 255) else [LZO_BYTE n])"
  by pat_completeness auto
termination
  by (relation "measure id") auto

declare long_bytes.simps [simp del]

definition run_bytes :: "nat \<Rightarrow> u8 list" where
  "run_bytes t = (if t \<le> 18 then [LZO_BYTE (t - 3)] else 0 # long_bytes (t - 18))"

definition off_bytes :: "nat \<Rightarrow> u8 list" where
  "off_bytes off = [LZO_BYTE (off * 4), LZO_BYTE (off div 64)]"

text \<open>The bytes of a match; the next to last one has its two state bits clear.\<close>

definition match_bytes :: "nat \<Rightarrow> nat \<Rightarrow> u8 list" where
  "match_bytes len off =
     (if len \<le> 8 \<and> off \<le> 0x800 then
        [LZO_BYTE ((len - 1) * 32 + (off - 1) mod 8 * 4), LZO_BYTE ((off - 1) div 8)]
      else if off \<le> 0x4000 then
        (if len \<le> 33 then [LZO_BYTE (32 + (len - 2))] else 32 # long_bytes (len - 33)) @ off_bytes (off - 1)
      else
        (let hi = (off - 0x4000) div 0x4000 mod 2 * 8 in
         if len \<le> 9 then [LZO_BYTE (16 + hi + (len - 2))] else LZO_BYTE (16 + hi) # long_bytes (len - 9)) @
        off_bytes (off - 0x4000))"

text \<open>Literals after the stream so far: up to three go into the state bits of the last match.\<close>

definition set_state :: "u8 list \<Rightarrow> nat \<Rightarrow> u8 list" where
  "set_state bs t = bs[length bs - 2 := bs ! (length bs - 2) + word_of_nat t]"

definition lit_bytes :: "u8 list \<Rightarrow> u8 list \<Rightarrow> u8 list" where
  "lit_bytes bs ls = (if length ls \<le> 3 then set_state bs (length ls) @ ls
     else bs @ run_bytes (length ls) @ ls)"

section \<open>The encodings read back\<close>

lemma unat_LZO_BYTE: "n < 256 \<Longrightarrow> unat (LZO_BYTE n) = n"
  by (simp add: LZO_BYTE_def unat_u8_of_nat)

lemma unat_LZO_BYTE_mod: "unat (LZO_BYTE n) = n mod 256"
  by (simp add: LZO_BYTE_def unat_of_nat)

lemma ext_len_long_bytes: "0 < n \<Longrightarrow> ext_len base (long_bytes n @ bs) = Some (base + n, bs)"
proof (induction n arbitrary: base rule: long_bytes.induct)
  case (1 n)
  show ?case
  proof (cases "255 < n")
    case True
    then show ?thesis using 1 by (subst long_bytes.simps) simp
  next
    case False
    then have "unat (LZO_BYTE n) = n" by (simp add: unat_LZO_BYTE)
    then have "LZO_BYTE n \<noteq> 0" using 1(2) by auto
    then show ?thesis using False \<open>unat (LZO_BYTE n) = n\<close> by (subst long_bytes.simps) simp
  qed
qed

lemma fmt_len_run_bytes:
  assumes "4 \<le> t"
  obtains b r where "run_bytes t = b # r" "unat b < 16" "\<And>bs. fmt_len 15 (unat b) (r @ bs) = Some (t - 3, bs)"
proof (cases "t \<le> 18")
  case True
  then show thesis
    using that [of "LZO_BYTE (t - 3)" "[]"] assms by (simp add: run_bytes_def unat_LZO_BYTE fmt_len_def)
next
  case False
  then show thesis
    using that [of 0 "long_bytes (t - 18)"] by (simp add: run_bytes_def fmt_len_def ext_len_long_bytes)
qed

text \<open>The state bits of the byte before the last.\<close>

lemma unat_add_state:
  assumes "unat (x :: u8) mod 4 = 0" "t < 4"
  shows "unat (x + word_of_nat t) = unat x + t"
proof -
  have "unat x < 256" by (rule u8_less)
  then have "unat x + t < 256" using assms by presburger
  then show ?thesis using assms(2) by (simp add: unat_word_ariths unat_u8_of_nat)
qed

lemma digit4: "t < 4 \<Longrightarrow> (q * 4 + t) div 4 = q" "t < 4 \<Longrightarrow> (q * 4 + t) mod 4 = (t :: nat)"
  by simp_all

lemma low_byte_of_shift: "off * 4 mod 256 = off mod 64 * (4 :: nat)"
  using mod_mult_mult2 [of off 4 64] by simp

lemma fmt_off_bytes:
  assumes "off < 16384" "t < 4"
  shows "\<exists>x y. off_bytes off = [x, y] \<and> unat x mod 4 = 0 \<and>
    fmt_off ((x + word_of_nat t) # y # bs) = Some (off, t, bs)"
proof -
  let ?x = "LZO_BYTE (off * 4)" and ?y = "LZO_BYTE (off div 64)"
  have x: "unat ?x = off mod 64 * 4" unfolding unat_LZO_BYTE_mod by (rule low_byte_of_shift)
  have y: "unat ?y = off div 64" using assms(1) by (intro unat_LZO_BYTE) simp
  have m: "unat ?x mod 4 = 0" unfolding x by simp
  have "unat (?x + word_of_nat t) = off mod 64 * 4 + t" using unat_add_state [OF m assms(2)] x by simp
  then show ?thesis using m y digit4 [OF assms(2)] by (auto simp: off_bytes_def)
qed

text \<open>A byte string is the encoding of a match.\<close>

definition reads_match :: "u8 list \<Rightarrow> nat \<Rightarrow> nat \<Rightarrow> bool" where
  "reads_match bs off len \<longleftrightarrow> (\<exists>pre x y. bs = pre @ [x, y] \<and> unat x mod 4 = 0 \<and>
     (\<forall>t < 4. \<forall>md r. fmt_parse md (pre @ [x + word_of_nat t, y] @ r) = Some (FM_copy off len t, r)))"

lemma reads_m2:
  assumes "4 \<le> len" "len \<le> 8" "0 < off" "off \<le> 0x800"
  shows "reads_match [LZO_BYTE ((len - 1) * 32 + (off - 1) mod 8 * 4), LZO_BYTE ((off - 1) div 8)] off len"
proof -
  let ?n = "(len - 1) * 32 + (off - 1) mod 8 * 4" and ?x = "LZO_BYTE ((len - 1) * 32 + (off - 1) mod 8 * 4)"
  let ?y = "LZO_BYTE ((off - 1) div 8)"
  have lt: "(off - 1) mod 8 < 8" by simp
  then have x: "unat ?x = ?n" using assms(1,2) by (intro unat_LZO_BYTE) linarith
  have y: "unat ?y = (off - 1) div 8" using assms(4) by (intro unat_LZO_BYTE) simp
  have n: "?n = ((len - 1) * 8 + (off - 1) mod 8) * 4" by (simp add: algebra_simps)
  have m: "unat ?x mod 4 = 0" unfolding x unfolding n by simp
  have "fmt_parse md ([] @ [?x + word_of_nat t, ?y] @ r) = Some (FM_copy off len t, r)" if "t < 4" for t md r
  proof -
    have b: "unat (?x + word_of_nat t) = ?n + t" using unat_add_state [OF m that] x by simp
    have ge: "64 \<le> ?n + t" using assms(1) by simp
    have d4: "(?n + t) div 4 = (len - 1) * 8 + (off - 1) mod 8" "(?n + t) mod 4 = t"
      unfolding n by (rule digit4 [OF that])+
    have d8: "((len - 1) * 8 + (off - 1) mod 8) mod 8 = (off - 1) mod 8" by simp
    have d32: "(?n + t) div 32 = len - 1"
    proof -
      have "?n + t = (len - 1) * 32 + ((off - 1) mod 8 * 4 + t)" by simp
      moreover have "(off - 1) mod 8 * 4 + t < 32" using lt that by linarith
      ultimately show ?thesis by (simp only: div_mult_self3 div_less)
    qed
    have o: "1 + (off - 1) mod 8 + (off - 1) div 8 * 8 = off" "len - 1 + 1 = len" using assms(1,3) by simp_all
    have "fmt_parse md ([] @ [?x + word_of_nat t, ?y] @ r) = fmt_m2 (?n + t) (?y # r)"
      using ge by (simp only: append.simps fmt_parse.simps b if_True)
    also have "\<dots> = Some (FM_copy off len t, r)"
      by (simp only: fmt_m2_def list.case d4 d8 d32 y o)
    finally show ?thesis .
  qed
  then show ?thesis using m unfolding reads_match_def by (intro exI [of _ "[]"] exI [of _ ?x] exI [of _ ?y]) auto
qed

text \<open>The two long forms: a head with the length, then the offset.\<close>

lemma reads_m3:
  assumes "unat b \<ge> 32" "unat b < 64" "\<And>r. fmt_len 31 (unat b mod 32) (h @ r) = Some (len - 2, r)"
    and "2 \<le> len" "0 < off" "off \<le> 0x4000"
  shows "reads_match ((b # h) @ off_bytes (off - 1)) off len"
proof -
  have o: "off - 1 < 16384" using assms(5,6) by simp
  obtain x y where xy: "off_bytes (off - 1) = [x, y]" "unat x mod 4 = 0"
    using fmt_off_bytes [OF o, of 0] by auto
  have "fmt_off ((x + word_of_nat t) # y # r) = Some (off - 1, t, r)" if "t < 4" for t r
    using fmt_off_bytes [OF o that, of r] xy(1) by auto
  then have "fmt_parse md ((b # h) @ [x + word_of_nat t, y] @ r) = Some (FM_copy off len t, r)" if "t < 4" for t md r
    using assms that by (simp add: fmt_m3_def)
  then show ?thesis using xy unfolding reads_match_def by (intro exI [of _ "b # h"] exI [of _ x] exI [of _ y]) simp
qed

lemma reads_m4:
  assumes "unat b = 16 + off1 div 16384 mod 2 * 8 + f" "f < 8" "\<And>r. fmt_len 7 f (h @ r) = Some (len - 2, r)"
    and "2 \<le> len" "0 < off1" "off1 < 0x8000"
  shows "reads_match ((b # h) @ off_bytes off1) (off1 + 16384) len"
proof -
  have b: "16 \<le> unat b" "unat b < 32" "unat b mod 8 = f" "unat b div 8 mod 2 = off1 div 16384 mod 2"
  proof -
    have b8: "(16 + f) mod 8 = f" "(24 + f) mod 8 = f" "(16 + f) div 8 = 2" "(24 + f) div 8 = 3"
      using assms(2) by presburger+
    have "off1 div 16384 mod 2 = 0 \<or> off1 div 16384 mod 2 = 1" by auto
    then show "16 \<le> unat b" "unat b < 32" "unat b mod 8 = f" "unat b div 8 mod 2 = off1 div 16384 mod 2"
      using assms(1,2) by (auto simp: b8)
  qed
  have "off1 mod 16384 div 64 = off1 div 64 mod 256" using mod_mult2_eq [of off1 64 256] by simp
  then have ob: "off_bytes off1 = off_bytes (off1 mod 16384)"
    by (simp add: off_bytes_def word_unat_eq_iff unat_LZO_BYTE_mod low_byte_of_shift mod_mod_cancel)
  have o: "off1 mod 16384 < 16384" by simp
  obtain x y where xy: "off_bytes (off1 mod 16384) = [x, y]" "unat x mod 4 = 0"
    using fmt_off_bytes [OF o, of 0] by auto
  have off: "off1 mod 16384 + off1 div 16384 mod 2 * 16384 = off1"
    using assms(6) by (simp add: div_less_iff_less_mult)
  have nz: "0 < off1 mod 16384 \<or> 0 < off1 div 16384" "Suc (Suc (len - 2)) = len"
    using assms(4,5) div_mult_mod_eq [of off1 16384] by auto
  have "fmt_off ((x + word_of_nat t) # y # r) = Some (off1 mod 16384, t, r)" if "t < 4" for t r
    using fmt_off_bytes [OF o that, of r] xy(1) by auto
  then have "fmt_parse md ((b # h) @ [x + word_of_nat t, y] @ r) = Some (FM_copy (off1 + 16384) len t, r)"
    if "t < 4" for t md r
    using assms(3) b off nz that by (auto simp: fmt_m4_def)
  then show ?thesis
    using xy unfolding reads_match_def ob by (intro exI [of _ "b # h"] exI [of _ x] exI [of _ y]) simp
qed

lemma reads_match_bytes:
  assumes "4 \<le> len" "0 < off" "off \<le> 0xbfff"
  shows "reads_match (match_bytes len off) off len"
proof -
  consider (m2) "len \<le> 8" "off \<le> 0x800" | (m3) "\<not> (len \<le> 8 \<and> off \<le> 0x800)" "off \<le> 0x4000"
    | (m4) "\<not> (len \<le> 8 \<and> off \<le> 0x800)" "\<not> off \<le> 0x4000" by auto
  then show ?thesis
  proof cases
    case m2
    then show ?thesis using reads_m2 [OF assms(1) _ assms(2)] by (simp add: match_bytes_def)
  next
    case m3
    show ?thesis
    proof (cases "len \<le> 33")
      case True
      define k where "k = len - 2"
      have k: "0 < k" "k < 32" "len = k + 2" using True assms(1) by (auto simp: k_def)
      have "unat (LZO_BYTE (32 + k)) = 32 + k" using k(2) by (intro unat_LZO_BYTE) simp
      moreover have "(32 + k) mod 32 = k" using k(2) by (simp add: mod_add_self1)
      ultimately have "reads_match ((LZO_BYTE (32 + k) # []) @ off_bytes (off - 1)) off len"
        using k m3(2) assms by (intro reads_m3) (auto simp: fmt_len_def)
      then show ?thesis using m3 True by (auto simp: match_bytes_def k_def)
    next
      case False
      then show ?thesis
        using reads_m3 [of 32 "long_bytes (len - 33)" len off] m3 assms
        by (auto simp: match_bytes_def fmt_len_def ext_len_long_bytes)
    qed
  next
    case m4
    define o1 where "o1 = off - 0x4000"
    have o1: "0 < o1" "o1 < 0x8000" "off = o1 + 16384" using m4 assms(3) by (auto simp: o1_def)
    have hi: "o1 div 16384 mod 2 < 2" by simp
    show ?thesis
    proof (cases "len \<le> 9")
      case True
      have "unat (LZO_BYTE (16 + o1 div 16384 mod 2 * 8 + (len - 2))) = 16 + o1 div 16384 mod 2 * 8 + (len - 2)"
        using True hi by (intro unat_LZO_BYTE) linarith
      then have "reads_match ((LZO_BYTE (16 + o1 div 16384 mod 2 * 8 + (len - 2)) # []) @ off_bytes o1) (o1 + 16384) len"
        using True assms(1) o1 by (intro reads_m4 [where f = "len - 2"]) (auto simp: fmt_len_def)
      then show ?thesis using True m4 o1(3) by (auto simp: match_bytes_def o1_def [symmetric])
    next
      case False
      have "unat (LZO_BYTE (16 + o1 div 16384 mod 2 * 8)) = 16 + o1 div 16384 mod 2 * 8"
        using hi by (intro unat_LZO_BYTE) linarith
      then have "reads_match ((LZO_BYTE (16 + o1 div 16384 mod 2 * 8) # long_bytes (len - 9)) @ off_bytes o1) (o1 + 16384) len"
        using False assms(1) o1 by (intro reads_m4 [where f = 0]) (auto simp: fmt_len_def ext_len_long_bytes)
      then show ?thesis using False m4 o1(3) by (auto simp: match_bytes_def o1_def [symmetric])
    qed
  qed
qed

section \<open>A stream in the making\<close>

text \<open>
  \<open>enc bs txt\<close>: the bytes \<open>bs\<close> stand for \<open>txt\<close> and end in a match whose state bits are still
  open, or nothing has been written.
\<close>

definition enc :: "u8 list \<Rightarrow> u8 list \<Rightarrow> bool" where
  "enc bs txt \<longleftrightarrow> (bs = [] \<and> txt = []) \<or>
     (\<exists>pre x y. bs = pre @ [x, y] \<and> unat x mod 4 = 0 \<and>
       (\<forall>t < 4. \<forall>r. fmt_steps (F_start, pre @ [x + word_of_nat t, y] @ r, []) (F_after t, r, txt)))"

lemma set_state_pre: "set_state (pre @ [x, y]) t = pre @ [x + word_of_nat t, y]"
  by (simp add: set_state_def nth_append list_update_append)

lemma enc_state:
  assumes "enc bs txt" "bs \<noteq> []" "t < 4"
  shows "fmt_steps (F_start, set_state bs t @ r, []) (F_after t, r, txt)"
proof -
  obtain pre x y where "bs = pre @ [x, y]"
    "\<forall>t < 4. \<forall>r. fmt_steps (F_start, pre @ [x + word_of_nat t, y] @ r, []) (F_after t, r, txt)"
    using assms(1,2) by (auto simp: enc_def)
  then show ?thesis using assms(3) by (simp add: set_state_pre)
qed

lemma enc_top:
  assumes "enc bs txt" "bs = [] \<Longrightarrow> \<exists>b r'. r = b # r' \<and> unat b \<le> 17"
  shows "fmt_steps (F_start, bs @ r, []) (F_top, r, txt)"
proof (cases "bs = []")
  case True
  then show ?thesis using assms fmt_step.start_top by (fastforce simp: enc_def)
next
  case False
  have "set_state bs 0 = bs" by (simp add: set_state_def)
  then show ?thesis
    using enc_state [OF assms(1) False, of 0 r] fmt_step.after_none by (metis rtranclp.rtrancl_into_rtrancl zero_less_numeral)
qed

text \<open>A run of four or more literals.\<close>

lemma enc_run:
  assumes "enc bs txt" "4 \<le> length ls"
  shows "fmt_steps (F_start, bs @ run_bytes (length ls) @ ls @ r, []) (F_lit, r, txt @ ls)"
proof -
  obtain b h where b: "run_bytes (length ls) = b # h" "unat b < 16"
    "\<And>bs. fmt_len 15 (unat b) (h @ bs) = Some (length ls - 3, bs)"
    using fmt_len_run_bytes [OF assms(2)] by blast
  have "fmt_steps (F_start, bs @ (b # h @ ls @ r), []) (F_top, b # h @ ls @ r, txt)"
    using b(2) by (intro enc_top [OF assms(1)]) auto
  moreover have "fmt_step (F_top, b # h @ ls @ r, txt)
      (F_lit, drop (length ls - 3 + 3) (ls @ r), txt @ take (length ls - 3 + 3) (ls @ r))"
    using assms(2) by (intro fmt_step.run b) simp
  ultimately have "fmt_steps (F_start, bs @ (b # h @ ls @ r), [])
      (F_lit, drop (length ls - 3 + 3) (ls @ r), txt @ take (length ls - 3 + 3) (ls @ r))"
    by (rule rtranclp.rtrancl_into_rtrancl)
  then show ?thesis using assms(2) b(1) by simp
qed

lemma enc_literals:
  assumes "enc bs txt" "bs = [] \<Longrightarrow> 4 \<le> length ls"
  shows "\<exists>md \<in> {F_top, F_lit, F_short}. \<forall>r. fmt_steps (F_start, lit_bytes bs ls @ r, []) (md, r, txt @ ls)"
proof -
  consider (none) "ls = []" "bs \<noteq> []" | (few) "ls \<noteq> []" "length ls \<le> 3" "bs \<noteq> []" | (run) "4 \<le> length ls"
    using assms(2) by fastforce
  then show ?thesis
  proof cases
    case none
    then have "lit_bytes bs ls = bs" by (simp add: lit_bytes_def set_state_def)
    then show ?thesis using none enc_top [OF assms(1)] by auto
  next
    case few
    have "fmt_steps (F_start, lit_bytes bs ls @ r, []) (F_short, r, txt @ ls)" for r
    proof -
      have "fmt_steps (F_start, set_state bs (length ls) @ ls @ r, []) (F_after (length ls), ls @ r, txt)"
        using few by (intro enc_state [OF assms(1)]) auto
      moreover have "fmt_step (F_after (length ls), ls @ r, txt)
          (F_short, drop (length ls) (ls @ r), txt @ take (length ls) (ls @ r))"
        using few by (intro fmt_step.after_lit) auto
      ultimately have "fmt_steps (F_start, set_state bs (length ls) @ ls @ r, [])
          (F_short, drop (length ls) (ls @ r), txt @ take (length ls) (ls @ r))"
        by (rule rtranclp.rtrancl_into_rtrancl)
      then show ?thesis using few(2) by (simp add: lit_bytes_def)
    qed
    then show ?thesis by blast
  next
    case run
    then show ?thesis using enc_run [OF assms(1) run] by (auto simp: lit_bytes_def)
  qed
qed

text \<open>Literals and a match: the stream grows by their text.\<close>

lemma enc_group:
  assumes "enc bs txt" "bs = [] \<Longrightarrow> 4 \<le> length ls" "reads_match mb off len" "off \<le> length (txt @ ls)"
  shows "enc (lit_bytes bs ls @ mb) (lz_copy (txt @ ls) off len)"
proof -
  obtain md where md: "md \<in> {F_top, F_lit, F_short}"
    "\<And>r. fmt_steps (F_start, lit_bytes bs ls @ r, []) (md, r, txt @ ls)"
    using enc_literals [OF assms(1,2)] by blast
  obtain pre x y where mb: "mb = pre @ [x, y]" "unat x mod 4 = 0"
    "\<And>t md r. t < 4 \<Longrightarrow> fmt_parse md (pre @ [x + word_of_nat t, y] @ r) = Some (FM_copy off len t, r)"
    using assms(3) by (auto simp: reads_match_def)
  have "fmt_steps (F_start, (lit_bytes bs ls @ pre) @ [x + word_of_nat t, y] @ r, [])
      (F_after t, r, lz_copy (txt @ ls) off len)" if "t < 4" for t r
  proof -
    have "fmt_step (md, pre @ [x + word_of_nat t, y] @ r, txt @ ls) (F_after t, r, lz_copy (txt @ ls) off len)"
      by (rule fmt_step.copy [OF md(1) mb(3) [OF that] assms(4)])
    with md(2) [of "pre @ [x + word_of_nat t, y] @ r"] show ?thesis
      by (simp add: rtranclp.rtrancl_into_rtrancl)
  qed
  then show ?thesis using mb(1,2) unfolding enc_def by (intro disjI2 exI [of _ "lit_bytes bs ls @ pre"]) auto
qed

text \<open>The end of the stream.\<close>

definition last_bytes :: "u8 list \<Rightarrow> u8 list \<Rightarrow> u8 list" where
  "last_bytes bs ls = (if ls = [] then bs
     else if bs = [] \<and> length ls \<le> 238 then LZO_BYTE (17 + length ls) # ls
     else lit_bytes bs ls)"

definition eof_bytes :: "u8 list" where
  "eof_bytes = [17, 0, 0]"

lemma eof_step: "md \<in> {F_top, F_lit, F_short} \<Longrightarrow> fmt_step (md, eof_bytes, out) (F_eof 1, [], out)"
  by (rule fmt_step.eof) (auto simp: eof_bytes_def fmt_m4_def fmt_len_def)

lemma lzo_stream_via:
  "fmt_steps (F_start, bs @ eof_bytes, []) (md, eof_bytes, out) \<Longrightarrow> md \<in> {F_top, F_lit, F_short} \<Longrightarrow>
    lzo_stream (bs @ eof_bytes) out"
  unfolding lzo_stream_def by (erule rtranclp.rtrancl_into_rtrancl) (rule eof_step)

lemma lzo_stream_last:
  assumes "enc bs txt"
  shows "lzo_stream (last_bytes bs ls @ eof_bytes) (txt @ ls)"
proof -
  consider (none) "ls = []" | (first) "ls \<noteq> []" "bs = []" "length ls \<le> 238"
    | (more) "ls \<noteq> []" "bs \<noteq> [] \<or> 238 < length ls" by fastforce
  then show ?thesis
  proof cases
    case none
    have "fmt_steps (F_start, bs @ eof_bytes, []) (F_top, eof_bytes, txt)"
      by (rule enc_top [OF assms]) (simp add: eof_bytes_def)
    then show ?thesis using none by (auto simp: last_bytes_def intro: lzo_stream_via)
  next
    case first
    let ?b = "LZO_BYTE (17 + length ls)"
    have b: "unat ?b - 17 = length ls" using first(3) by (simp add: unat_LZO_BYTE)
    have nil: "txt = []" using assms first(2) by (simp add: enc_def)
    have pos: "0 < length ls" using first(1) by simp
    have "\<exists>md \<in> {F_lit, F_short}. fmt_steps (F_start, ?b # ls @ eof_bytes, []) (md, eof_bytes, ls)"
    proof (cases "4 \<le> length ls")
      case True
      then show ?thesis using fmt_step.start_lit [of "length ls" ?b "ls @ eof_bytes" "[]"] b by auto
    next
      case False
      have "fmt_step (F_start, ?b # ls @ eof_bytes, []) (F_after (length ls), ls @ eof_bytes, [])"
        using False pos b by (intro fmt_step.start_short) auto
      moreover have "fmt_step (F_after (length ls), ls @ eof_bytes, []) (F_short, eof_bytes, ls)"
        using fmt_step.after_lit [of "length ls" "ls @ eof_bytes" "[]"] False pos by simp
      ultimately have "fmt_steps (F_start, ?b # ls @ eof_bytes, []) (F_short, eof_bytes, ls)" by auto
      then show ?thesis by blast
    qed
    then show ?thesis
      using first nil lzo_stream_via [of "?b # ls"] by (auto simp: last_bytes_def)
  next
    case more
    then have "bs = [] \<Longrightarrow> 4 \<le> length ls" by auto
    from enc_literals [OF assms this] show ?thesis
      using more by (auto simp: last_bytes_def intro: lzo_stream_via)
  qed
qed

text \<open>A match in the input is its own expansion.\<close>

lemma lz_copy_text:
  assumes "p < i" "i + n \<le> length xs" "\<forall>j < n. xs ! (i + j) = xs ! (p + j)"
  shows "lz_copy (take i xs) (i - p) n = take (i + n) xs"
  using assms
proof (induction n arbitrary: i p)
  case (Suc n)
  have "take i xs ! p = xs ! p" using Suc.prems(1) by simp
  moreover have "xs ! p = xs ! i" using Suc.prems(3) by (simp add: all_less_Suc_split_first)
  ultimately have "take i xs @ [take i xs ! (length (take i xs) - (i - p))] = take (Suc i) xs"
    using Suc.prems(1,2) by (simp add: take_Suc_conv_app_nth min_def)
  then have "lz_copy (take i xs) (i - p) (Suc n) = lz_copy (take (Suc i) xs) (Suc i - Suc p) n" by simp
  also have "\<dots> = take (Suc i + n) xs"
    using Suc.prems by (intro Suc.IH) (auto simp: all_less_Suc_split_first)
  finally show ?case by simp
qed simp

section \<open>The reference compressor\<close>

definition le32 :: "u8 list \<Rightarrow> nat \<Rightarrow> u32" where
  "le32 xs i = word_of_nat (le_val (seg xs i 4))"

function ref_next :: "u8 list \<Rightarrow> nat \<Rightarrow> nat \<Rightarrow> nat \<Rightarrow> u16 list \<Rightarrow> nat \<Rightarrow> u16 list \<times> nat \<times> nat option" where
  "ref_next xs inb ip_end ii dict ip =
     (if ip_end \<le> ip then (dict, ip, None)
      else let d = DINDEX (le32 xs ip); p = inb + unat (dict ! d); dict' = dict[d := DENTRY ip inb] in
        if le32 xs ip \<noteq> le32 xs p then ref_next xs inb ip_end ii dict' (c_literal ip ii)
        else (dict', ip, Some p))"
  by pat_completeness auto
termination
  by (relation "measure (\<lambda>(xs, inb, ip_end, ii, dict, ip). ip_end - ip)") (auto simp: c_literal_def)

declare ref_next.simps [simp del]

lemma ref_next_le: "ref_next xs inb ip_end ii dict ip = (dict', ip', Some p) \<Longrightarrow> ip \<le> ip' \<and> ip' < ip_end"
proof (induction xs inb ip_end ii dict ip rule: ref_next.induct)
  case (1 xs inb ip_end ii dict ip)
  then show ?case
    by (subst (asm) (2) ref_next.simps) (fastforce simp: Let_def c_literal_def split: if_splits)
qed

text \<open>The stream, \<open>ii\<close> and \<open>ti\<close> at the end of a block.\<close>

function ref_loop :: "u8 list \<Rightarrow> nat \<Rightarrow> nat \<Rightarrow> u8 list \<Rightarrow> nat \<Rightarrow> nat \<Rightarrow> nat \<Rightarrow> u16 list \<Rightarrow>
    u8 list \<times> nat \<times> nat" where
  "ref_loop xs inb ip_end bs ip ii ti dict =
     (case ref_next xs inb ip_end ii dict ip of
        (dict', ip', None) \<Rightarrow> (bs, ii, ti)
      | (dict', ip', Some p) \<Rightarrow>
          let n = ref_len xs ip' p ip_end 4 in
          ref_loop xs inb ip_end (lit_bytes bs (seg xs (ii - ti) (ip' - (ii - ti))) @ match_bytes n (ip' - p))
            (ip' + n) (ip' + n) 0 dict')"
  by pat_completeness auto
termination
proof (relation "measure (\<lambda>(xs, inb, ip_end, bs, ip, ii, ti, dict). ip_end - ip)", goal_cases)
  case (2 xs inb ip_end bs ip ii ti dict a b ip' r p n)
  then have "ref_next xs inb ip_end ii dict ip = (a, ip', Some p)" by simp
  from ref_next_le [OF this] show ?case using 2 ref_len_ge [of 4 xs ip' p ip_end] by auto
qed simp

declare ref_loop.simps [simp del]

text \<open>
  One block, then all of them: the stream and the number of pending literals. \<open>brk ip ll t\<close> is the
  test that leaves the loop over the blocks early; the stream is right whatever it decides.
\<close>

definition ref_block :: "u8 list \<Rightarrow> nat \<Rightarrow> nat \<Rightarrow> u8 list \<Rightarrow> nat \<Rightarrow> u8 list \<times> nat" where
  "ref_block xs inb len bs ti =
     (let ip = inb + (if ti < 4 then 4 - ti else 0);
          (bs', ii, ti') = ref_loop xs inb (inb + len - 20) bs (c_literal ip inb) inb ti (replicate 16384 0)
      in (bs', inb + len - (ii - ti')))"

function ref_blocks :: "(nat \<Rightarrow> nat \<Rightarrow> nat \<Rightarrow> bool) \<Rightarrow> u8 list \<Rightarrow> nat \<Rightarrow> nat \<Rightarrow> u8 list \<Rightarrow> nat \<Rightarrow> u8 list \<times> nat" where
  "ref_blocks brk xs ip l bs t =
     (let ll = min l 49152 in
      if 20 < l \<and> \<not> brk ip ll t then
        (case ref_block xs ip ll bs t of (bs', t') \<Rightarrow> ref_blocks brk xs (ip + ll) (l - ll) bs' t')
      else (bs, t + l))"
  by pat_completeness auto
termination
  by (relation "measure (\<lambda>(brk, xs, ip, l, bs, t). l)") auto

declare ref_blocks.simps [simp del]

definition ref_compress :: "(nat \<Rightarrow> nat \<Rightarrow> nat \<Rightarrow> bool) \<Rightarrow> u8 list \<Rightarrow> u8 list" where
  "ref_compress brk xs = (case ref_blocks brk xs 0 (length xs) [] 0 of (bs, t) \<Rightarrow>
     last_bytes bs (drop (length xs - t) xs) @ eof_bytes)"

section \<open>The dictionary\<close>

text \<open>Every entry points before \<open>ip\<close>.\<close>

definition dict_ok :: "nat \<Rightarrow> nat \<Rightarrow> u16 list \<Rightarrow> bool" where
  "dict_ok inb ip dict \<longleftrightarrow> 16384 \<le> length dict \<and> (\<forall>i < 16384. inb + unat (dict ! i) < ip)"

lemma DINDEX_less: "DINDEX dv < 16384"
proof -
  have "drop_bit (32 - D_BITS) (0x1824429d * dv) AND D_MASK \<le> D_MASK" by (rule word_and_le1)
  then have "DINDEX dv \<le> unat D_MASK" unfolding DINDEX_def by (rule word_le_nat_alt [THEN iffD1])
  then show ?thesis by (simp add: D_MASK_def)
qed

lemma dict_ok_update:
  assumes "dict_ok inb ip dict" "inb \<le> ip" "ip < inb + 65536" "ip < ip'"
  shows "dict_ok inb ip' (dict[d := DENTRY ip inb])"
proof -
  have "ip - inb < 65536" using assms(2,3) by linarith
  then have "unat (DENTRY ip inb) = ip - inb" by (simp add: DENTRY_def unat_u16_of_nat)
  then have e: "inb + unat (DENTRY ip inb) < ip'" using assms(2,4) by simp
  have "inb + unat (dict[d := DENTRY ip inb] ! i) < ip'" if "i < 16384" for i
  proof (cases "i = d")
    case True
    then show ?thesis using e assms(1) that by (simp add: dict_ok_def)
  next
    case False
    then show ?thesis using assms(1,4) that by (fastforce simp: dict_ok_def)
  qed
  then show ?thesis using assms(1) by (simp add: dict_ok_def)
qed

lemma dict_ok_zero: "inb < ip \<Longrightarrow> dict_ok inb ip (replicate 16384 0)"
  by (simp add: dict_ok_def)

lemma seg_word_eq:
  assumes "i + 4 \<le> length xs" "j + 4 \<le> length xs"
  shows "le32 xs i = le32 xs j \<longleftrightarrow> seg xs i 4 = seg xs j 4"
proof -
  have len: "length (seg xs i 4) = 4" "length (seg xs j 4) = 4" using assms by (simp_all add: seg_props)
  have lt: "le_val (seg xs k 4) < 2 ^ 32" if "length (seg xs k 4) = 4" for k
    using le_val_less [of "seg xs k 4"] that by simp
  then have "le32 xs i = le32 xs j \<longleftrightarrow> le_val (seg xs i 4) = le_val (seg xs j 4)"
    using len by (simp add: le32_def word_unat_eq_iff unat_of_nat)
  then show ?thesis using le_val_inj len by simp
qed

lemma ref_next_match:
  assumes "ref_next xs inb ip_end ii dict ip = (dict', ip', r)" "dict_ok inb ip dict" "inb \<le> ip"
    and "ip_end \<le> inb + 65536" "ip_end + 20 \<le> length xs"
  shows "ip \<le> ip' \<and> (case r of None \<Rightarrow> True | Some p \<Rightarrow> ip' < ip_end \<and> inb \<le> p \<and> p < ip' \<and>
    (\<forall>j < 4. xs ! (ip' + j) = xs ! (p + j)) \<and> dict_ok inb (ip' + 1) dict')"
  using assms
proof (induction xs inb ip_end ii dict ip rule: ref_next.induct)
  case (1 xs inb ip_end ii dict ip)
  show ?case
  proof (cases "ip_end \<le> ip")
    case True
    then have "r = None" "ip' = ip" using "1.prems"(1) by (simp_all add: ref_next.simps [of xs inb ip_end ii dict ip])
    then show ?thesis by simp
  next
    case False
    define d where "d = DINDEX (le32 xs ip)"
    define p where "p = inb + unat (dict ! d)"
    define dict2 where "dict2 = dict[d := DENTRY ip inb]"
    have p: "inb \<le> p" "p < ip" using "1.prems"(2) DINDEX_less by (auto simp: p_def d_def dict_ok_def)
    have lim: "ip < inb + 65536" using False "1.prems"(4) by simp
    have up: "dict_ok inb ip'' dict2" if "ip < ip''" for ip''
      using dict_ok_update [OF "1.prems"(2,3) lim that] by (simp add: dict2_def)
    have step: "ref_next xs inb ip_end ii dict ip =
        (if le32 xs ip \<noteq> le32 xs p then ref_next xs inb ip_end ii dict2 (c_literal ip ii) else (dict2, ip, Some p))"
      using False by (subst ref_next.simps) (simp add: Let_def d_def p_def dict2_def)
    show ?thesis
    proof (cases "le32 xs ip = le32 xs p")
      case True
      then have "seg xs ip 4 = seg xs p 4" using False "1.prems"(5) p(2) by (subst (asm) seg_word_eq) auto
      then have "\<forall>j < 4. xs ! (ip + j) = xs ! (p + j)"
        using False "1.prems"(5) p(2) by (subst (asm) seg_nth_eq) auto
      then show ?thesis using True step "1.prems"(1) False p up by auto
    next
      case ne: False
      have lit: "ip < c_literal ip ii" by (simp add: c_literal_def)
      have "ref_next xs inb ip_end ii dict2 (c_literal ip ii) = (dict', ip', r)" using step ne "1.prems"(1) by simp
      moreover have "inb \<le> c_literal ip ii" using lit "1.prems"(3) by simp
      ultimately have "c_literal ip ii \<le> ip' \<and> (case r of None \<Rightarrow> True | Some p \<Rightarrow> ip' < ip_end \<and> inb \<le> p \<and> p < ip' \<and>
          (\<forall>j < 4. xs ! (ip' + j) = xs ! (p + j)) \<and> dict_ok inb (ip' + 1) dict')"
        using "1.IH" [OF False d_def p_def dict2_def] ne up [OF lit] "1.prems"(4,5) by blast
      then show ?thesis using lit by linarith
    qed
  qed
qed

section \<open>The size of the stream\<close>

lemma length_long_bytes: "0 < n \<Longrightarrow> 255 * length (long_bytes n) \<le> n + 254"
proof (induction n rule: long_bytes.induct)
  case (1 n)
  then show ?case by (subst long_bytes.simps) auto
qed

lemma length_run_bytes: "4 \<le> t \<Longrightarrow> 16 * length (run_bytes t) \<le> 16 + t"
  using length_long_bytes [of "t - 18"] by (cases "t \<le> 18") (auto simp: run_bytes_def)

lemma length_match_bytes: "4 \<le> len \<Longrightarrow> length (match_bytes len off) + 1 \<le> len"
  using length_long_bytes [of "len - 33"] length_long_bytes [of "len - 9"]
  by (auto simp: match_bytes_def off_bytes_def Let_def)

lemma length_set_state [simp]: "length (set_state bs t) = length bs"
  by (simp add: set_state_def)

lemma length_lit_bytes: "16 * length (lit_bytes bs ls) \<le> 16 * length bs + 17 * length ls + 16"
  using length_run_bytes [of "length ls"] by (auto simp: lit_bytes_def)

lemma length_group:
  assumes "4 \<le> n"
  shows "16 * length (lit_bytes bs ls @ match_bytes n off) \<le> 16 * length bs + 17 * (length ls + n)"
  using length_lit_bytes [of bs ls] length_match_bytes [OF assms, of off] by simp

lemma length_last_bytes: "16 * length (last_bytes bs ls) \<le> 16 * length bs + 17 * length ls + 16"
  using length_lit_bytes [of bs ls] by (simp add: last_bytes_def)

section \<open>Every block keeps the stream\<close>

lemma take_seg: "i \<le> j \<Longrightarrow> take i xs @ seg xs i (j - i) = take j xs"
  by (simp add: seg_def take_add [symmetric])

text \<open>The state of the stream: what has been encoded, and how much room it took.\<close>

definition ref_inv :: "u8 list \<Rightarrow> u8 list \<Rightarrow> nat \<Rightarrow> bool" where
  "ref_inv xs bs k \<longleftrightarrow> enc bs (take k xs) \<and> k \<le> length xs \<and> 16 * length bs \<le> 17 * k"

lemma ref_inv_group:
  assumes "ref_inv xs bs k" "k \<le> ip" "bs = [] \<Longrightarrow> k + 4 \<le> ip"
    and "p < ip" "ip - p \<le> 0xbfff" "4 \<le> n" "ip + n \<le> length xs" "\<forall>j < n. xs ! (ip + j) = xs ! (p + j)"
  shows "ref_inv xs (lit_bytes bs (seg xs k (ip - k)) @ match_bytes n (ip - p)) (ip + n)"
proof -
  let ?ls = "seg xs k (ip - k)"
  have len: "length ?ls = ip - k" using assms(7) by (simp add: seg_props)
  have t: "take k xs @ ?ls = take ip xs" using assms(2) by (rule take_seg)
  have "enc (lit_bytes bs ?ls @ match_bytes n (ip - p)) (lz_copy (take k xs @ ?ls) (ip - p) n)"
  proof (rule enc_group)
    show "reads_match (match_bytes n (ip - p)) (ip - p) n"
      using assms(4-6) by (intro reads_match_bytes) auto
    show "ip - p \<le> length (take k xs @ ?ls)" using assms(7) unfolding t by simp
    show "bs = [] \<Longrightarrow> 4 \<le> length ?ls" using assms(3) len by simp
  qed (use assms(1) in \<open>simp add: ref_inv_def\<close>)
  moreover have "lz_copy (take k xs @ ?ls) (ip - p) n = take (ip + n) xs"
    unfolding t using assms(4,7,8) by (rule lz_copy_text)
  moreover have "16 * length (lit_bytes bs ?ls @ match_bytes n (ip - p)) \<le> 17 * (ip + n)"
  proof -
    obtain d where d: "ip = k + d" using assms(2) by (auto simp: le_iff_add)
    have gen: "16 * a \<le> 16 * b + 17 * (ip - k + n) \<Longrightarrow> 16 * b \<le> 17 * k \<Longrightarrow> 16 * a \<le> 17 * (ip + n)" for a b :: nat
      unfolding d by simp
    show ?thesis
      using length_group [OF assms(6), of bs ?ls "ip - p", unfolded len] assms(1)
      by (intro gen) (assumption, simp only: ref_inv_def)
  qed
  ultimately show ?thesis using assms(7) by (simp add: ref_inv_def)
qed

lemma lit_match_nonempty: "lit_bytes bs ls @ match_bytes n off \<noteq> []"
  by (simp add: match_bytes_def off_bytes_def)

lemma ref_loop_inv:
  assumes "ref_loop xs inb ip_end bs ip ii ti dict = (bs', ii', ti')"
    and "ref_inv xs bs (ii - ti)" "ti \<le> ii" "ii \<le> ip" "bs = [] \<Longrightarrow> ii - ti + 4 \<le> ip"
    and "dict_ok inb ip dict" "inb \<le> ip" "ip_end \<le> inb + 49152" "ip_end + 20 \<le> length xs"
    and "ii \<le> ip_end + 20"
  shows "ref_inv xs bs' (ii' - ti') \<and> ti' \<le> ii' \<and> ii' \<le> ip_end + 20"
  using assms
proof (induction xs inb ip_end bs ip ii ti dict rule: ref_loop.induct)
  case (1 xs inb ip_end bs ip ii ti dict)
  obtain dict1 ip1 r where nx: "ref_next xs inb ip_end ii dict ip = (dict1, ip1, r)" by (metis prod_cases3)
  have lim: "ip_end \<le> inb + 65536" using "1.prems"(8) by simp
  note N = ref_next_match [OF nx "1.prems"(6,7) lim "1.prems"(9)]
  show ?case
  proof (cases r)
    case None
    then show ?thesis using "1.prems" nx by (simp add: ref_loop.simps [of xs inb ip_end bs])
  next
    case (Some p)
    define n where "n = ref_len xs ip1 p ip_end 4"
    define bs1 where "bs1 = lit_bytes bs (seg xs (ii - ti) (ip1 - (ii - ti))) @ match_bytes n (ip1 - p)"
    have p: "ip \<le> ip1" "ip1 < ip_end" "inb \<le> p" "p < ip1" "\<forall>j < 4. xs ! (ip1 + j) = xs ! (p + j)"
      "dict_ok inb (ip1 + 1) dict1" using N Some by auto
    have "scan_ok xs ip1 p ip_end 4" using p(2,4) "1.prems"(9) by (simp add: scan_ok_def)
    note L = ref_len_match [OF this p(5), folded n_def]
    have n4: "4 \<le> n" using ref_len_ge by (simp add: n_def)
    have "ref_inv xs bs1 (ip1 + n)"
      unfolding bs1_def
    proof (rule ref_inv_group)
      show "ip1 - p \<le> 0xbfff" using p(2,3) "1.prems"(8) by simp
      show "bs = [] \<Longrightarrow> ii - ti + 4 \<le> ip1" using "1.prems"(5) p(1) by fastforce
    qed (use "1.prems" p L n4 in auto)
    moreover have "dict_ok inb (ip1 + n) dict1" using p(6) n4 by (auto simp: dict_ok_def)
    moreover have "ref_loop xs inb ip_end bs1 (ip1 + n) (ip1 + n) 0 dict1 = (bs', ii', ti')"
      using "1.prems"(1) nx Some by (simp add: ref_loop.simps [of xs inb ip_end bs] Let_def n_def bs1_def)
    moreover have "bs1 \<noteq> []" unfolding bs1_def by (rule lit_match_nonempty)
    ultimately show ?thesis
      using "1.IH" [OF nx [symmetric] refl Some n_def, folded bs1_def] "1.prems" p L(1) by auto
  qed
qed

lemma ref_block_inv:
  assumes "ref_block xs inb len bs ti = (bs', t')" "ref_inv xs bs (inb - ti)" "ti \<le> inb"
    and "20 < len" "len \<le> 49152" "inb + len \<le> length xs"
  shows "ref_inv xs bs' (inb + len - t') \<and> t' \<le> inb + len"
proof -
  let ?ip = "inb + (if ti < 4 then 4 - ti else 0)" and ?e = "inb + len - 20"
  obtain ii ti' where loop: "ref_loop xs inb ?e bs (c_literal ?ip inb) inb ti (replicate 16384 0) = (bs', ii, ti')"
    "t' = inb + len - (ii - ti')"
    using assms(1) by (auto simp: ref_block_def Let_def split: prod.splits)
  have ip: "inb < c_literal ?ip inb" "inb - ti + 4 \<le> c_literal ?ip inb"
    using assms(3) by (auto simp: c_literal_def)
  have "ref_inv xs bs' (ii - ti') \<and> ti' \<le> ii \<and> ii \<le> ?e + 20"
    using assms ip dict_ok_zero [OF ip(1)] by (intro ref_loop_inv [OF loop(1)]) auto
  then show ?thesis using loop(2) assms(4) by auto
qed

lemma ref_blocks_inv:
  assumes "ref_blocks brk xs ip l bs t = (bs', t')" "ref_inv xs bs (ip - t)" "t \<le> ip" "ip + l = length xs"
  shows "ref_inv xs bs' (length xs - t') \<and> t' \<le> length xs"
  using assms
proof (induction brk xs ip l bs t rule: ref_blocks.induct)
  case (1 brk xs ip l bs t)
  let ?ll = "min l 49152"
  show ?case
  proof (cases "20 < l \<and> \<not> brk ip ?ll t")
    case True
    obtain bs1 t1 where b: "ref_block xs ip ?ll bs t = (bs1, t1)" by fastforce
    have "ref_inv xs bs1 (ip + ?ll - t1) \<and> t1 \<le> ip + ?ll"
      using True "1.prems" by (intro ref_block_inv [OF b]) auto
    moreover have "ref_blocks brk xs (ip + ?ll) (l - ?ll) bs1 t1 = (bs', t')"
      using "1.prems"(1) unfolding ref_blocks.simps [of brk xs ip] Let_def if_P [OF True] b by simp
    ultimately show ?thesis using "1.IH" [OF refl True b [symmetric]] "1.prems"(4) by auto
  next
    case False
    have "ref_blocks brk xs ip l bs t = (bs, t + l)"
      by (subst ref_blocks.simps) (simp only: Let_def if_not_P [OF False])
    then have "bs' = bs" "t' = t + l" using "1.prems"(1) by simp_all
    moreover have "length xs - (t + l) = ip - t" using "1.prems"(3,4) by simp
    ultimately show ?thesis using "1.prems" by simp
  qed
qed

lemma ref_compress_stream: "lzo_stream (ref_compress brk xs) xs"
proof -
  obtain bs t where b: "ref_blocks brk xs 0 (length xs) [] 0 = (bs, t)" by fastforce
  have "ref_inv xs [] (0 - 0)" by (simp add: ref_inv_def enc_def)
  from ref_blocks_inv [OF b this] have "enc bs (take (length xs - t) xs)" by (simp add: ref_inv_def)
  from lzo_stream_last [OF this, of "drop (length xs - t) xs"] show ?thesis by (simp add: ref_compress_def b)
qed

lemma length_ref_compress: "length (ref_compress brk xs) \<le> length xs + length xs div 16 + 4"
proof -
  obtain bs t where b: "ref_blocks brk xs 0 (length xs) [] 0 = (bs, t)" by fastforce
  have "ref_inv xs [] (0 - 0)" by (simp add: ref_inv_def enc_def)
  from ref_blocks_inv [OF b this] have "16 * length bs \<le> 17 * (length xs - t)" "t \<le> length xs"
    by (simp_all add: ref_inv_def)
  then have "16 * length (ref_compress brk xs) \<le> 17 * length xs + 64"
    using length_last_bytes [of bs "drop (length xs - t) xs"] by (simp add: ref_compress_def b eof_bytes_def)
  then show ?thesis by simp
qed

end
