(* ===== verification/Lzo_Decompress_Safe.thy ===== *)
theory Lzo_Decompress_Safe
  imports Lzo_Machine Lzo_Format
begin

text \<open>
  \<^verbatim>\<open>lzo1x_decompress_safe\<close>: the decompressor with overrun tests
  (\<^verbatim>\<open>LZO_TEST_OVERRUN\<close>), one definition per label of the code. The macros
  \<^verbatim>\<open>NEED_IP\<close>, \<^verbatim>\<open>NEED_OP\<close>, \<^verbatim>\<open>TEST_IV\<close>, \<^verbatim>\<open>TEST_OV\<close> and \<^verbatim>\<open>TEST_LB\<close> are the
  Boolean functions below, true when the code jumps to the overrun label; all arithmetic on
  \<^verbatim>\<open>lzo_uint\<close> is at its width.
\<close>

section \<open>The overrun tests\<close>

definition NEED_IP_fails :: "lzo_cfg \<Rightarrow> lzo_env \<Rightarrow> nat \<Rightarrow> nat \<Rightarrow> bool" where
  "NEED_IP_fails c e ip x \<longleftrightarrow> usub (uint_bits c) (in_len e) ip < uw (uint_bits c) x"

definition NEED_OP_fails :: "lzo_cfg \<Rightarrow> lzo_env \<Rightarrow> nat \<Rightarrow> nat \<Rightarrow> bool" where
  "NEED_OP_fails c e op x \<longleftrightarrow> usub (uint_bits c) (out_cap e) op < uw (uint_bits c) x"

definition TEST_IV_fails :: "lzo_cfg \<Rightarrow> nat \<Rightarrow> bool" where
  "TEST_IV_fails c x \<longleftrightarrow> x > 2 ^ uint_bits c - 511"

definition TEST_OV_fails :: "lzo_cfg \<Rightarrow> nat \<Rightarrow> bool" where
  "TEST_OV_fails c x \<longleftrightarrow> x > 2 ^ uint_bits c - 511"

definition TEST_LB_fails :: "lzo_cfg \<Rightarrow> lzo_env \<Rightarrow> nat \<Rightarrow> int \<Rightarrow> bool" where
  "TEST_LB_fails c e op m_pos \<longleftrightarrow>
     PTR c (out_addr e) m_pos < PTR c (out_addr e) 0 \<or>
     PTR c (out_addr e) m_pos \<ge> PTR c (out_addr e) (int op)"

section \<open>The labels\<close>

text \<open>
  \<^verbatim>\<open>while (*ip == 0) { t += 255; ip++; TEST(t); NEED_IP(1); }\<close>: the new \<open>ip\<close> and \<open>t\<close>, or
  the code of the overrun label.
\<close>

function sdec_zeros :: "lzo_cfg \<Rightarrow> lzo_env \<Rightarrow> (nat \<Rightarrow> bool) \<Rightarrow> int \<Rightarrow> region mem \<Rightarrow> nat \<Rightarrow> nat \<Rightarrow>
    (int + nat \<times> nat) option" where
  "sdec_zeros c e test code m ip t =
     (if ip < length (m In) then
        if m In ! ip = 0 then
          let t = uw (uint_bits c) (t + 255); ip' = ip + 1 in
          if test t then Some (Inl code)
          else if NEED_IP_fails c e ip' 1 then Some (Inl LZO_E_INPUT_OVERRUN)
          else sdec_zeros c e test code m ip' t
        else Some (Inr (ip, t))
      else None)"
  by pat_completeness auto
termination
  by (relation "measure (\<lambda>(c, e, test, code, m, ip, t). length (m In) - ip)") auto

declare sdec_zeros.simps [simp del]

text \<open>
  \<^verbatim>\<open>if (t == 0) { zeros; t += base + *ip++; }\<close>, with \<open>need\<close> further bytes required after a
  long length.
\<close>

definition sdec_length :: "lzo_cfg \<Rightarrow> lzo_env \<Rightarrow> (nat \<Rightarrow> bool) \<Rightarrow> int \<Rightarrow> nat \<Rightarrow> nat \<Rightarrow> region mem \<Rightarrow>
    nat \<Rightarrow> nat \<Rightarrow> (int + nat \<times> nat) option" where
  "sdec_length c e test code base need m ip t =
     (if t = 0 then do {
        z \<leftarrow> sdec_zeros c e test code m ip t;
        (case z of Inl r \<Rightarrow> Some (Inl r) | Inr (ip, t) \<Rightarrow> do {
           b \<leftarrow> rd m (In, ip);
           (if NEED_IP_fails c e (ip + 1) need then Some (Inl LZO_E_INPUT_OVERRUN)
            else Some (Inr (ip + 1, uw (uint_bits c) (t + base + unat b)))) }) }
      else Some (Inr (ip, t)))"

definition sdec_start :: "lzo_cfg \<Rightarrow> lzo_env \<Rightarrow> region mem \<Rightarrow> d_result option" where
  "sdec_start c e m =
     (let s = \<lparr> d_mem = m, d_ip = 0, d_op = 0, d_t = 0 \<rparr> in
      if NEED_IP_fails c e 0 1 then Some (Return LZO_E_INPUT_OVERRUN s)
      else do {
        b \<leftarrow> rd m (In, 0);
        (if unat b > 17 then
           let t = unat b - 17; s = s\<lparr> d_ip := 1, d_t := t \<rparr> in
           if t < 4 then Some (Goto L_match_next s)
           else if NEED_OP_fails c e 0 t then Some (Return LZO_E_OUTPUT_OVERRUN s)
           else if NEED_IP_fails c e 1 (t + 3) then Some (Return LZO_E_INPUT_OVERRUN s)
           else do {
             let n = do_while_count (uint_bits c) t;
             m \<leftarrow> mv m (Out, 0) (In, 1) n;
             Some (Goto L_first_literal_run (s\<lparr> d_mem := m, d_ip := 1 + n, d_op := n, d_t := 0 \<rparr>)) }
         else Some (Goto L_top s)) })"

definition sdec_top :: "lzo_cfg \<Rightarrow> lzo_env \<Rightarrow> d_state \<Rightarrow> d_result option" where
  "sdec_top c e s =
     (if NEED_IP_fails c e (d_ip s) 3 then Some (Return LZO_E_INPUT_OVERRUN s)
      else do {
        b \<leftarrow> rd (d_mem s) (In, d_ip s);
        let t = unat b;
        (if t \<ge> 16 then Some (Goto L_match (s\<lparr> d_ip := d_ip s + 1, d_t := t \<rparr>))
         else do {
           z \<leftarrow> sdec_length c e (TEST_IV_fails c) LZO_E_INPUT_OVERRUN 15 0 (d_mem s) (d_ip s + 1) t;
           (case z of Inl r \<Rightarrow> Some (Return r s) | Inr (ip, t) \<Rightarrow>
              if NEED_OP_fails c e (d_op s) (t + 3) then Some (Return LZO_E_OUTPUT_OVERRUN s)
              else if NEED_IP_fails c e ip (t + 6) then Some (Return LZO_E_INPUT_OVERRUN s)
              else do {
                (m, op, ip) \<leftarrow> copy_literals c e (d_mem s) (d_op s) ip t;
                Some (Goto L_first_literal_run (s\<lparr> d_mem := m, d_ip := ip, d_op := op, d_t := 0 \<rparr>)) }) }) })"

definition sdec_first_literal_run :: "lzo_cfg \<Rightarrow> lzo_env \<Rightarrow> d_state \<Rightarrow> d_result option" where
  "sdec_first_literal_run c e s = do {
     b \<leftarrow> rd (d_mem s) (In, d_ip s);
     let t = unat b;
     let s = s\<lparr> d_ip := d_ip s + 1, d_t := t \<rparr>;
     (if t \<ge> 16 then Some (Goto L_match s)
      else do {
        b \<leftarrow> rd (d_mem s) (In, d_ip s);
        let m_pos = int (d_op s) - (1 + int M2_MAX_OFFSET) - int (t div 4) - int (unat b * 4);
        let s = s\<lparr> d_ip := d_ip s + 1 \<rparr>;
        (if TEST_LB_fails c e (d_op s) m_pos then Some (Return LZO_E_LOOKBEHIND_OVERRUN s)
         else if NEED_OP_fails c e (d_op s) 3 then Some (Return LZO_E_OUTPUT_OVERRUN s)
         else do {
           p \<leftarrow> out_ptr m_pos;
           m \<leftarrow> mv (d_mem s) (Out, d_op s) p 3;
           Some (Goto L_match_done (s\<lparr> d_mem := m, d_op := d_op s + 3 \<rparr>)) }) }) }"

text \<open>The four kinds of match, in the order the code tests them.\<close>

definition sdec_match_m2 :: "lzo_cfg \<Rightarrow> lzo_env \<Rightarrow> d_state \<Rightarrow> d_result option" where
  "sdec_match_m2 c e s = do {
     b \<leftarrow> rd (d_mem s) (In, d_ip s);
     let m_pos = int (d_op s) - 1 - int ((d_t s div 4) mod 8) - int (unat b * 8);
     let s = s\<lparr> d_ip := d_ip s + 1, d_t := d_t s div 32 - 1 \<rparr>;
     (if TEST_LB_fails c e (d_op s) m_pos then Some (Return LZO_E_LOOKBEHIND_OVERRUN s)
      else if NEED_OP_fails c e (d_op s) (d_t s + 3 - 1) then Some (Return LZO_E_OUTPUT_OVERRUN s)
      else do {
        (m, op) \<leftarrow> copy_match c (d_mem s) (d_op s) m_pos (d_t s);
        Some (Goto L_match_done (s\<lparr> d_mem := m, d_op := op, d_t := 0 \<rparr>)) }) }"

text \<open>The tests and the copy that follow a long match.\<close>

definition sdec_match_copy :: "lzo_cfg \<Rightarrow> lzo_env \<Rightarrow> d_state \<Rightarrow> int \<Rightarrow> d_result option" where
  "sdec_match_copy c e s m_pos =
     (if TEST_LB_fails c e (d_op s) m_pos then Some (Return LZO_E_LOOKBEHIND_OVERRUN s)
      else if NEED_OP_fails c e (d_op s) (d_t s + 3 - 1) then Some (Return LZO_E_OUTPUT_OVERRUN s)
      else do {
        (m, op) \<leftarrow> copy_match_fast c e (d_mem s) (d_op s) m_pos (d_t s);
        Some (Goto L_match_done (s\<lparr> d_mem := m, d_op := op, d_t := 0 \<rparr>)) })"

definition sdec_match_m3 :: "lzo_cfg \<Rightarrow> lzo_env \<Rightarrow> d_state \<Rightarrow> d_result option" where
  "sdec_match_m3 c e s = do {
     z \<leftarrow> sdec_length c e (TEST_OV_fails c) LZO_E_OUTPUT_OVERRUN 31 2 (d_mem s) (d_ip s) (d_t s mod 32);
     (case z of Inl r \<Rightarrow> Some (Return r s) | Inr (ip, t) \<Rightarrow> do {
        off \<leftarrow> get_off14 c (d_mem s) ip;
        sdec_match_copy c e (s\<lparr> d_ip := ip + 2, d_t := t \<rparr>) (int (d_op s) - 1 - int off) }) }"

definition sdec_match_m4 :: "lzo_cfg \<Rightarrow> lzo_env \<Rightarrow> d_state \<Rightarrow> d_result option" where
  "sdec_match_m4 c e s = do {
     let m_pos = int (d_op s) - int ((d_t s div 8 mod 2) * 8 * 2048);
     z \<leftarrow> sdec_length c e (TEST_OV_fails c) LZO_E_OUTPUT_OVERRUN 7 2 (d_mem s) (d_ip s) (d_t s mod 8);
     (case z of Inl r \<Rightarrow> Some (Return r s) | Inr (ip, t) \<Rightarrow> do {
        off \<leftarrow> get_off14 c (d_mem s) ip;
        let m_pos = m_pos - int off;
        let s = s\<lparr> d_ip := ip + 2, d_t := t \<rparr>;
        (if m_pos = int (d_op s) then Some (eof_found e s)
         else sdec_match_copy c e s (m_pos - 0x4000)) }) }"

definition sdec_match_m1 :: "lzo_cfg \<Rightarrow> lzo_env \<Rightarrow> d_state \<Rightarrow> d_result option" where
  "sdec_match_m1 c e s = do {
     b \<leftarrow> rd (d_mem s) (In, d_ip s);
     let m_pos = int (d_op s) - 1 - int (d_t s div 4) - int (unat b * 4);
     let s = s\<lparr> d_ip := d_ip s + 1 \<rparr>;
     (if TEST_LB_fails c e (d_op s) m_pos then Some (Return LZO_E_LOOKBEHIND_OVERRUN s)
      else if NEED_OP_fails c e (d_op s) 2 then Some (Return LZO_E_OUTPUT_OVERRUN s)
      else do {
        p \<leftarrow> out_ptr m_pos;
        m \<leftarrow> mv (d_mem s) (Out, d_op s) p 2;
        Some (Goto L_match_done (s\<lparr> d_mem := m, d_op := d_op s + 2 \<rparr>)) }) }"

definition sdec_match :: "lzo_cfg \<Rightarrow> lzo_env \<Rightarrow> d_state \<Rightarrow> d_result option" where
  "sdec_match c e s =
     (if d_t s \<ge> 64 then sdec_match_m2 c e s
      else if d_t s \<ge> 32 then sdec_match_m3 c e s
      else if d_t s \<ge> 16 then sdec_match_m4 c e s
      else sdec_match_m1 c e s)"

definition sdec_match_done :: "d_state \<Rightarrow> d_result option" where
  "sdec_match_done s =
     (if d_ip s < 2 then None
      else do {
        b \<leftarrow> rd (d_mem s) (In, d_ip s - 2);
        let t = unat b mod 4;
        (if t = 0 then Some (Goto L_top (s\<lparr> d_t := t \<rparr>))
         else Some (Goto L_match_next (s\<lparr> d_t := t \<rparr>))) })"

definition sdec_match_next :: "lzo_cfg \<Rightarrow> lzo_env \<Rightarrow> d_state \<Rightarrow> d_result option" where
  "sdec_match_next c e s =
     (let t = d_t s in
      if NEED_OP_fails c e (d_op s) t then Some (Return LZO_E_OUTPUT_OVERRUN s)
      else if NEED_IP_fails c e (d_ip s) (t + 3) then Some (Return LZO_E_INPUT_OVERRUN s)
      else do {
        let n = (if t > 1 then (if t > 2 then 3 else 2) else 1);
        m \<leftarrow> mv (d_mem s) (Out, d_op s) (In, d_ip s) n;
        b \<leftarrow> rd m (In, d_ip s + n);
        Some (Goto L_match (s\<lparr> d_mem := m, d_ip := d_ip s + n + 1, d_op := d_op s + n, d_t := unat b \<rparr>)) })"

fun sdec_step :: "lzo_cfg \<Rightarrow> lzo_env \<Rightarrow> d_label \<Rightarrow> d_state \<Rightarrow> d_result option" where
  "sdec_step c e L_top s = sdec_top c e s"
| "sdec_step c e L_first_literal_run s = sdec_first_literal_run c e s"
| "sdec_step c e L_match s = sdec_match c e s"
| "sdec_step c e L_match_done s = sdec_match_done s"
| "sdec_step c e L_match_next s = sdec_match_next c e s"

text \<open>
  The function: the return code and the final state, whose \<^const>\<open>d_op\<close> is the value stored
  in \<^verbatim>\<open>*out_len\<close> (every exit stores \<^verbatim>\<open>pd(op, out)\<close>).
\<close>

definition lzo1x_decompress_safe :: "lzo_cfg \<Rightarrow> lzo_env \<Rightarrow> region mem \<Rightarrow> (int \<times> d_state) option option" where
  "lzo1x_decompress_safe c e m = d_enter (sdec_step c e) (sdec_start c e m)"

section \<open>What the tests decide\<close>

text \<open>
  The caller's side of the contract: both buffers have at least the announced lengths, and
  they fit the address space.
\<close>

definition env_ok :: "lzo_cfg \<Rightarrow> lzo_env \<Rightarrow> region mem \<Rightarrow> bool" where
  "env_ok c e m \<longleftrightarrow> cfg_ok c \<and> in_len e \<le> length (m In) \<and> out_cap e \<le> length (m Out) \<and>
     in_len e < 2 ^ uint_bits c \<and> out_addr e + out_cap e < 2 ^ uint_bits c"

lemma uint_big: "cfg_ok c \<Longrightarrow> 4294967296 \<le> (2::nat) ^ uint_bits c"
  using power_increasing [of 32 "uint_bits c" "2::nat"] by (simp add: cfg_ok_def)

lemma NEED_IP_iff:
  assumes "ip \<le> in_len e" "in_len e < 2 ^ uint_bits c" "x < 2 ^ uint_bits c"
  shows "NEED_IP_fails c e ip x \<longleftrightarrow> in_len e - ip < x"
  using assms by (simp add: NEED_IP_fails_def usub_le)

lemma NEED_OP_iff:
  assumes "op \<le> out_cap e" "out_cap e < 2 ^ uint_bits c" "x < 2 ^ uint_bits c"
  shows "NEED_OP_fails c e op x \<longleftrightarrow> out_cap e - op < x"
  using assms by (simp add: NEED_OP_fails_def usub_le)

lemma PTR_negative:
  assumes "i < 0" "- i \<le> 2 ^ uint_bits c" "base < 2 ^ uint_bits c"
  shows "PTR c base i = (if 0 \<le> int base + i then nat (int base + i)
    else nat (2 ^ uint_bits c + int base + i))"
proof -
  have base: "int base < 2 ^ uint_bits c"
    using assms(3) by (metis of_nat_less_iff of_nat_numeral of_nat_power)
  show ?thesis
  proof (cases "0 \<le> int base + i")
    case True
    moreover have "int base + i < 2 ^ uint_bits c" using base assms(1) by linarith
    ultimately show ?thesis by (simp add: PTR_def)
  next
    case False
    have "(int base + i) mod 2 ^ uint_bits c = (2 ^ uint_bits c + int base + i) mod 2 ^ uint_bits c"
      by (simp add: add.assoc)
    also have "\<dots> = 2 ^ uint_bits c + int base + i"
      using False assms(2) by (intro mod_pos_pos_trivial) auto
    finally show ?thesis using False by (simp add: PTR_def)
  qed
qed

lemma TEST_LB_iff:
  assumes "op \<le> out_cap e" "out_addr e + out_cap e < 2 ^ uint_bits c"
    and "m_pos \<le> int op" "int op - m_pos \<le> 2 ^ uint_bits c"
  shows "TEST_LB_fails c e op m_pos \<longleftrightarrow> m_pos < 0 \<or> m_pos = int op"
proof -
  have lim: "out_addr e + op < 2 ^ uint_bits c" using assms(1,2) by simp
  have ends: "PTR c (out_addr e) 0 = out_addr e" "PTR c (out_addr e) (int op) = out_addr e + op"
    using PTR_in [OF _ _ lim, of 0] PTR_in [OF _ _ lim, of "int op"] by simp_all
  show ?thesis
  proof (cases "m_pos < 0")
    case True
    have "- m_pos \<le> 2 ^ uint_bits c" using assms(4) by linarith
    then show ?thesis
      using True lim assms(4) PTR_negative [of m_pos c "out_addr e"]
      by (auto simp: TEST_LB_fails_def ends split: if_splits)
  next
    case False
    then show ?thesis
      using PTR_in [OF _ assms(3) lim] assms(3) by (auto simp: TEST_LB_fails_def ends)
  qed
qed

text \<open>The zero bytes of a long length.\<close>

lemma sdec_zeros_total:
  assumes "ip < in_len e" "in_len e \<le> length (m In)" "in_len e < 2 ^ uint_bits c"
    and test: "\<And>x. test x \<longleftrightarrow> x > 2 ^ uint_bits c - 511"
    and t: "t \<le> 2 ^ uint_bits c - 511" and big: "4294967296 \<le> (2::nat) ^ uint_bits c"
  shows "(\<exists>r. sdec_zeros c e test code m ip t = Some (Inl r) \<and> (r = code \<or> r = LZO_E_INPUT_OVERRUN)) \<or>
    (\<exists>k. sdec_zeros c e test code m ip t = Some (Inr (ip + k, t + 255 * k)) \<and> ip + k < in_len e \<and>
       m In ! (ip + k) \<noteq> 0 \<and> (\<forall>j < k. m In ! (ip + j) = 0) \<and> t + 255 * k \<le> 2 ^ uint_bits c - 511)"
  using assms(1-3) t
proof (induction "in_len e - ip" arbitrary: ip t rule: less_induct)
  case less
  show ?case
  proof (cases "m In ! ip = 0")
    case False
    then have "sdec_zeros c e test code m ip t = Some (Inr (ip + 0, t + 255 * 0))"
      using less.prems by (subst sdec_zeros.simps) simp
    then show ?thesis using False less.prems(1,4) by (intro disjI2 exI [of _ 0]) simp
  next
    case True
    have t255: "uw (uint_bits c) (t + 255) = t + 255"
      using less.prems(4) big by (intro uw_less) linarith
    have need: "NEED_IP_fails c e (ip + 1) 1 \<longleftrightarrow> in_len e - (ip + 1) < 1"
      using less.prems big by (intro NEED_IP_iff) linarith+
    have step: "sdec_zeros c e test code m ip t =
      (if test (t + 255) then Some (Inl code)
       else if in_len e - (ip + 1) < 1 then Some (Inl LZO_E_INPUT_OVERRUN)
       else sdec_zeros c e test code m (ip + 1) (t + 255))"
      using less.prems(1,2) True t255 need by (subst sdec_zeros.simps) (simp add: Let_def)
    show ?thesis
    proof (cases "test (t + 255) \<or> in_len e - (ip + 1) < 1")
      case True
      then show ?thesis unfolding step by auto
    next
      case False
      then have go: "sdec_zeros c e test code m ip t = sdec_zeros c e test code m (ip + 1) (t + 255)"
        by (simp add: step)
      have "t + 255 \<le> 2 ^ uint_bits c - 511" "ip + 1 < in_len e" using False test by auto
      note IH = less.hyps [OF _ this(2) less.prems(2,3) this(1)]
      have "in_len e - (ip + 1) < in_len e - ip" using less.prems(1) by simp
      from IH [OF this] show ?thesis
      proof (elim disjE exE conjE)
        fix k assume k: "sdec_zeros c e test code m (ip + 1) (t + 255) =
            Some (Inr (ip + 1 + k, t + 255 + 255 * k))" "ip + 1 + k < in_len e"
          "m In ! (ip + 1 + k) \<noteq> 0" "\<forall>j < k. m In ! (ip + 1 + j) = 0"
          "t + 255 + 255 * k \<le> 2 ^ uint_bits c - 511"
        have "\<forall>j < Suc k. m In ! (ip + j) = 0"
          using k(4) True by (simp add: all_less_Suc_split_first)
        then show ?thesis using k go by (intro disjI2 exI [of _ "Suc k"]) (simp add: add.assoc)
      qed (simp_all add: go)
    qed
  qed
qed

lemma sdec_zeros_exact:
  assumes "ip + k < in_len e" "in_len e \<le> length (m In)" "in_len e < 2 ^ uint_bits c"
    and test: "\<And>x. test x \<longleftrightarrow> x > 2 ^ uint_bits c - 511"
    and t: "t + 255 * k \<le> 2 ^ uint_bits c - 511" and big: "4294967296 \<le> (2::nat) ^ uint_bits c"
    and "\<forall>j < k. m In ! (ip + j) = 0" "m In ! (ip + k) \<noteq> 0"
  shows "sdec_zeros c e test code m ip t = Some (Inr (ip + k, t + 255 * k))"
  using assms(1-3) t assms(7,8)
proof (induction k arbitrary: ip t)
  case 0
  then show ?case by (subst sdec_zeros.simps) simp
next
  case (Suc k)
  have t255: "uw (uint_bits c) (t + 255) = t + 255" and nt: "\<not> test (t + 255)"
    using Suc.prems(4) big test by (auto intro!: uw_less)
  have need: "\<not> NEED_IP_fails c e (ip + 1) 1"
    using NEED_IP_iff [of "ip + 1" e c 1] Suc.prems(1,3) big by simp
  have "sdec_zeros c e test code m ip t = sdec_zeros c e test code m (ip + 1) (t + 255)"
    using Suc.prems t255 nt need by (subst sdec_zeros.simps) (simp add: Let_def all_less_Suc_split_first)
  also have "\<dots> = Some (Inr (ip + 1 + k, t + 255 + 255 * k))"
    using Suc.prems by (intro Suc.IH) (auto simp: all_less_Suc_split_first)
  finally show ?case by (simp add: add.assoc)
qed

text \<open>The unread input.\<close>

definition rest :: "lzo_env \<Rightarrow> region mem \<Rightarrow> nat \<Rightarrow> u8 list" where
  "rest e m ip = drop ip (take (in_len e) (m In))"

lemma length_rest: "in_len e \<le> length (m In) \<Longrightarrow> length (rest e m ip) = in_len e - ip"
  by (simp add: rest_def)

lemma nth_rest: "in_len e \<le> length (m In) \<Longrightarrow> ip + j < in_len e \<Longrightarrow> rest e m ip ! j = m In ! (ip + j)"
  by (simp add: rest_def)

lemma drop_rest: "drop k (rest e m ip) = rest e m (ip + k)"
  by (simp add: rest_def add.commute)

lemma rest_Cons: "in_len e \<le> length (m In) \<Longrightarrow> ip < in_len e \<Longrightarrow> rest e m ip = m In ! ip # rest e m (ip + 1)"
  by (simp add: rest_def Cons_nth_drop_Suc [symmetric])

lemma env_okD:
  assumes "env_ok c e m"
  shows "in_len e \<le> length (m In)" "out_cap e \<le> length (m Out)" "in_len e < 2 ^ uint_bits c"
    "out_cap e < 2 ^ uint_bits c" "out_addr e + out_cap e < 2 ^ uint_bits c"
    "4294967296 \<le> (2::nat) ^ uint_bits c" "endian_ok c" "cfg_ok c"
  using assms uint_big by (auto simp: env_ok_def cfg_ok_def)

text \<open>A length field is read without a fault, and what is read is what the format says.\<close>

lemma sdec_length_cases:
  assumes env: "env_ok c e m" and t: "t < 256" "ip < in_len e" and need: "base \<le> 31" "need \<le> 2"
    and test: "\<And>x. test x \<longleftrightarrow> x > 2 ^ uint_bits c - 511"
  shows "(\<exists>r. sdec_length c e test code base need m ip t = Some (Inl r) \<and>
      (r = code \<or> r = LZO_E_INPUT_OVERRUN)) \<or>
    (\<exists>ip' t'. sdec_length c e test code base need m ip t = Some (Inr (ip', t')) \<and>
      fmt_len base t (rest e m ip) = Some (t', rest e m ip') \<and> ip \<le> ip' \<and> 0 < t' \<and>
      t' + 225 \<le> 2 ^ uint_bits c \<and> (if t = 0 then ip' + need \<le> in_len e else ip' = ip))"
proof (cases "t = 0")
  case False
  then show ?thesis using t env_okD(6) [OF env] by (auto simp: sdec_length_def fmt_len_def)
next
  case True
  note E = env_okD [OF env]
  have "0 \<le> (2::nat) ^ uint_bits c - 511" by simp
  from sdec_zeros_total [where test = test and code = code and m = m, OF t(2) E(1,3) test this E(6)]
  show ?thesis
  proof (elim disjE exE conjE)
    fix k assume k: "sdec_zeros c e test code m ip 0 = Some (Inr (ip + k, 0 + 255 * k))"
      "ip + k < in_len e" "m In ! (ip + k) \<noteq> 0" "\<forall>j < k. m In ! (ip + j) = 0"
      "0 + 255 * k \<le> 2 ^ uint_bits c - 511"
    let ?b = "unat (m In ! (ip + k))"
    have b: "?b < 256" "0 < ?b" using u8_less k(3) by (auto simp: unat_gt_0)
    have len: "ext_len base (rest e m ip) = Some (255 * k + base + ?b, rest e m (ip + k + 1))"
      using k E(1) by (auto simp: ext_len_iff length_rest nth_rest drop_rest intro!: exI [of _ k])
    have bound: "255 * k + base + ?b + 225 \<le> 2 ^ uint_bits c" using k(5) b(1) need(1) E(6) by linarith
    have uwt: "uw (uint_bits c) (255 * k + base + ?b) = 255 * k + base + ?b"
      using bound by (intro uw_less) linarith
    have nip: "NEED_IP_fails c e (ip + k + 1) need \<longleftrightarrow> in_len e - (ip + k + 1) < need"
      using k(2) E(3,6) need(2) by (intro NEED_IP_iff) linarith+
    have "sdec_length c e test code base need m ip t =
        (if in_len e - (ip + k + 1) < need then Some (Inl LZO_E_INPUT_OVERRUN)
         else Some (Inr (ip + k + 1, 255 * k + base + ?b)))"
      using k(1,2) E(1) uwt nip True by (simp add: sdec_length_def)
    then show ?thesis using True len bound b(2) k(2) by (auto simp: fmt_len_def)
  qed (use True in \<open>auto simp: sdec_length_def\<close>)
qed

lemma sdec_length_exact:
  assumes env: "env_ok c e m" and need: "base \<le> 31" "need \<le> 2" and ip: "ip < in_len e"
    and test: "\<And>x. test x \<longleftrightarrow> x > 2 ^ uint_bits c - 511"
    and len: "fmt_len base t (rest e m ip) = Some (t', r)" "need \<le> length r"
    and t': "t' \<le> 2 ^ uint_bits c - 511"
  shows "\<exists>ip'. sdec_length c e test code base need m ip t = Some (Inr (ip', t')) \<and>
    r = rest e m ip' \<and> ip \<le> ip' \<and> ip' \<le> in_len e"
proof (cases "t = 0")
  case False
  then show ?thesis using len ip by (auto simp: sdec_length_def fmt_len_def)
next
  case True
  note E = env_okD [OF env]
  obtain k where k0: "k < length (rest e m ip)" "\<forall>j < k. rest e m ip ! j = 0" "rest e m ip ! k \<noteq> 0"
    "t' = base + 255 * k + unat (rest e m ip ! k)" "r = drop (Suc k) (rest e m ip)"
    using len(1) True by (auto simp: fmt_len_def ext_len_iff)
  then have "ip + k < in_len e" using E(1) by (simp add: length_rest)
  with k0 have k: "ip + k < in_len e" "\<forall>j < k. m In ! (ip + j) = 0" "m In ! (ip + k) \<noteq> 0"
    "t' = base + 255 * k + unat (m In ! (ip + k))" "r = rest e m (ip + k + 1)"
    using E(1) by (auto simp: nth_rest drop_rest)
  have "sdec_zeros c e test code m ip 0 = Some (Inr (ip + k, 0 + 255 * k))"
    using k E t' by (intro sdec_zeros_exact test) auto
  moreover have "\<not> NEED_IP_fails c e (ip + k + 1) need"
    using NEED_IP_iff [of "ip + k + 1" e c need] k(1,5) len(2) E need(2) by (simp add: length_rest)
  moreover have "uw (uint_bits c) t' = t'" using t' E(6) by (intro uw_less) linarith
  ultimately show ?thesis using True k E(1) by (auto simp: sdec_length_def add.commute)
qed

section \<open>Copies inside the announced output\<close>

text \<open>What the decompressor never touches: the input, and the output beyond its announced length.\<close>

definition frame :: "lzo_env \<Rightarrow> region mem \<Rightarrow> region mem \<Rightarrow> bool" where
  "frame e m0 m \<longleftrightarrow> m In = m0 In \<and> length (m Out) = length (m0 Out) \<and>
     drop (out_cap e) (m Out) = drop (out_cap e) (m0 Out)"

lemma frame_refl [simp]: "frame e m m"
  by (simp add: frame_def)

lemma frame_env: "env_ok c e m0 \<Longrightarrow> frame e m0 m \<Longrightarrow> env_ok c e m"
  by (simp add: env_ok_def frame_def)

lemma frame_rest: "frame e m0 m \<Longrightarrow> rest e m ip = rest e m0 ip"
  by (simp add: frame_def rest_def)

lemma frame_mv:
  assumes "mv m (Out, op) p n = Some m'" "op + n \<le> out_cap e" "frame e m0 m"
  shows "frame e m0 m'"
  using assms mv_frame [OF assms(1,2)] mv_length [OF assms(1)] by (simp add: frame_def)

text \<open>Literals are appended; a match appends its expansion.\<close>

lemma mv_in_append:
  assumes "env_ok c e m" "frame e m0 m" "ip + n \<le> in_len e" "op + n \<le> out_cap e"
  shows "\<exists>m'. mv m (Out, op) (In, ip) n = Some m' \<and> frame e m0 m' \<and>
    take (op + n) (m' Out) = take op (m Out) @ take n (rest e m ip)"
proof -
  note E = env_okD [OF assms(1)]
  have mv: "mv m (Out, op) (In, ip) n =
      Some (m(Out := take op (m Out) @ take n (drop ip (m In)) @ drop (op + n) (m Out)))"
    using assms(3,4) E(1,2) by (intro mv_disjoint) auto
  moreover have "take n (rest e m ip) = take n (drop ip (m In))"
    using assms(3) by (simp add: rest_def drop_take min_def)
  ultimately show ?thesis
    using frame_mv [OF mv assms(4,2)] assms(3,4) E(1,2) by simp
qed

lemma mv_back_append:
  assumes "env_ok c e m" "frame e m0 m" "0 \<le> m_pos" "m_pos < int op" "op + n \<le> out_cap e"
  shows "\<exists>m'. mv m (Out, op) (Out, nat m_pos) n = Some m' \<and> frame e m0 m' \<and>
    take (op + n) (m' Out) = lz_copy (take op (m Out)) (nat (int op - m_pos)) n"
proof -
  note E = env_okD [OF assms(1)]
  have mv: "mv m (Out, op) (Out, nat m_pos) n =
      Some (m(Out := lz_copy (take op (m Out)) (nat (int op - m_pos)) n @ drop (op + n) (m Out)))"
    using assms(3-5) E(2) by (intro mv_back) auto
  then show ?thesis using frame_mv [OF mv assms(5,2)] assms(5) E(2) by simp
qed

lemma copy_literals_append:
  assumes "env_ok c e m" "frame e m0 m" "0 < t" "ip + (t + 3) \<le> in_len e" "op + (t + 3) \<le> out_cap e"
  shows "\<exists>m'. copy_literals c e m op ip t = Some (m', op + (t + 3), ip + (t + 3)) \<and> frame e m0 m' \<and>
    take (op + (t + 3)) (m' Out) = take op (m Out) @ take (t + 3) (rest e m ip)"
proof -
  have "t + 3 < 2 ^ uint_bits c" using assms(5) env_okD(4) [OF assms(1)] by linarith
  then show ?thesis
    using mv_in_append [OF assms(1,2,4,5)] by (auto simp: copy_literals_eq assms(3))
qed

lemma copy_match_append:
  assumes "env_ok c e m" "frame e m0 m" "0 < t" "0 \<le> m_pos" "m_pos < int op" "op + (t + 2) \<le> out_cap e"
  shows "\<exists>m'. copy_match c m op m_pos t = Some (m', op + (t + 2)) \<and> frame e m0 m' \<and>
    take (op + (t + 2)) (m' Out) = lz_copy (take op (m Out)) (nat (int op - m_pos)) (t + 2)"
  unfolding copy_match_eq [OF assms(3,4)] using mv_back_append [OF assms(1,2,4-6)]
  by (elim exE conjE) (simp only: Option.bind.simps option.inject prod.inject, blast)

lemma copy_match_fast_append:
  assumes "env_ok c e m" "frame e m0 m" "0 < t" "0 \<le> m_pos" "m_pos < int op" "op + (t + 2) \<le> out_cap e"
  shows "\<exists>m'. copy_match_fast c e m op m_pos t = Some (m', op + (t + 2)) \<and> frame e m0 m' \<and>
    take (op + (t + 2)) (m' Out) = lz_copy (take op (m Out)) (nat (int op - m_pos)) (t + 2)"
proof -
  note E = env_okD [OF assms(1)]
  have "t + 2 < 2 ^ uint_bits c" "out_addr e + op < 2 ^ uint_bits c" using assms(6) E(4,5) by linarith+
  note eq = copy_match_fast_eq [OF assms(3) this(1) assms(4,5) this(2)]
  show ?thesis
    unfolding eq using mv_back_append [OF assms(1,2,4-6)]
    by (elim exE conjE) (simp only: Option.bind.simps option.inject prod.inject, blast)
qed

end
