(* ===== verification/Lzo_Safe_Correct.thy ===== *)
theory Lzo_Safe_Correct
  imports Lzo_Decompress_Safe
begin

text \<open>
  \<^verbatim>\<open>lzo1x_decompress_safe\<close> against the stream format. One invariant of the label machine
  carries memory safety (the pointers stay inside the announced buffers, nothing else
  changes), the position of the machine in the run of the format, and termination; the
  postcondition says what each return code means.
\<close>

section \<open>The invariant\<close>

text \<open>The state of the format that a label and its local variables stand for.\<close>

definition sdec_abs :: "lzo_env \<Rightarrow> d_label \<Rightarrow> d_state \<Rightarrow> fmt_state \<Rightarrow> bool" where
  "sdec_abs e l s x \<longleftrightarrow>
     (let bs = rest e (d_mem s) (d_ip s); out = take (d_op s) (d_mem s Out) in
      (case l of L_top \<Rightarrow> x = (F_top, bs, out)
       | L_first_literal_run \<Rightarrow> x = (F_lit, bs, out)
       | L_match \<Rightarrow> \<exists>md. x = (md, d_mem s In ! (d_ip s - 1) # bs, out) \<and>
           unat (d_mem s In ! (d_ip s - 1)) = d_t s \<and> md \<in> {F_top, F_lit, F_short} \<and>
           (d_t s < 16 \<longrightarrow> md = F_short)
       | L_match_done \<Rightarrow> x = (F_after (unat (d_mem s In ! (d_ip s - 2)) mod 4), bs, out)
       | L_match_next \<Rightarrow> x = (F_after (d_t s), bs, out)))"

text \<open>The stream runs to its end within what the output buffer and the length arithmetic admit.\<close>

abbreviation sdec_viable :: "lzo_cfg \<Rightarrow> lzo_env \<Rightarrow> fmt_state \<Rightarrow> bool" where
  "sdec_viable c e \<equiv> fmt_viable (out_cap e) (2 ^ uint_bits c - 511)"

abbreviation fmt_start :: "lzo_env \<Rightarrow> region mem \<Rightarrow> fmt_state" where
  "fmt_start e m \<equiv> (F_start, rest e m 0, [])"

definition sdec_inv :: "lzo_cfg \<Rightarrow> lzo_env \<Rightarrow> region mem \<Rightarrow> d_label \<Rightarrow> d_state \<Rightarrow> bool" where
  "sdec_inv c e m0 l s \<longleftrightarrow> env_ok c e m0 \<and> frame e m0 (d_mem s) \<and> d_op s \<le> out_cap e \<and>
     (case l of L_top \<Rightarrow> d_ip s \<le> in_len e
      | L_first_literal_run \<Rightarrow> d_ip s + 3 \<le> in_len e
      | L_match \<Rightarrow> 1 \<le> d_ip s \<and> d_ip s + 2 \<le> in_len e
      | L_match_done \<Rightarrow> 2 \<le> d_ip s \<and> d_ip s \<le> in_len e
      | L_match_next \<Rightarrow> 0 < d_t s \<and> d_t s \<le> 3 \<and> d_ip s \<le> in_len e) \<and>
     (\<exists>x. sdec_abs e l s x \<and> fmt_steps (fmt_start e m0) x)"

definition sdec_rank :: "lzo_env \<Rightarrow> d_label \<Rightarrow> d_state \<Rightarrow> nat" where
  "sdec_rank e l s = 2 * (in_len e - d_ip s) + (if l = L_match_done then 1 else 0)"

definition sdec_post :: "lzo_cfg \<Rightarrow> lzo_env \<Rightarrow> region mem \<Rightarrow> int \<Rightarrow> d_state \<Rightarrow> bool" where
  "sdec_post c e m0 r s \<longleftrightarrow> frame e m0 (d_mem s) \<and> d_op s \<le> out_cap e \<and>
     r \<in> {LZO_E_OK, LZO_E_INPUT_OVERRUN, LZO_E_OUTPUT_OVERRUN, LZO_E_LOOKBEHIND_OVERRUN,
       LZO_E_INPUT_NOT_CONSUMED} \<and>
     (r = LZO_E_OK \<longrightarrow> d_ip s = in_len e \<and>
        (\<exists>l. fmt_steps (fmt_start e m0) (F_eof l, [], take (d_op s) (d_mem s Out)))) \<and>
     (r \<noteq> LZO_E_OK \<longrightarrow> \<not> sdec_viable c e (fmt_start e m0))"

text \<open>What a step has to achieve, and the two ways to achieve it.\<close>

definition sdec_progress :: "lzo_cfg \<Rightarrow> lzo_env \<Rightarrow> region mem \<Rightarrow> nat \<Rightarrow> d_result option \<Rightarrow> bool" where
  "sdec_progress c e m0 k res \<longleftrightarrow>
     (\<exists>l s. res = Some (Goto l s) \<and> sdec_inv c e m0 l s \<and> sdec_rank e l s < k) \<or>
     (\<exists>r s. res = Some (Return r s) \<and> sdec_post c e m0 r s)"

lemma sdec_progress_goto:
  "sdec_inv c e m0 l s \<Longrightarrow> sdec_rank e l s < k \<Longrightarrow> sdec_progress c e m0 k (Some (Goto l s))"
  by (auto simp: sdec_progress_def)

text \<open>An error return is justified when the stream is not viable from where the machine stands.\<close>

lemma sdec_progress_error:
  assumes "fmt_steps (fmt_start e m0) x" "\<not> sdec_viable c e x"
    and "frame e m0 (d_mem s)" "d_op s \<le> out_cap e"
    and "r \<in> {LZO_E_INPUT_OVERRUN, LZO_E_OUTPUT_OVERRUN, LZO_E_LOOKBEHIND_OVERRUN,
       LZO_E_INPUT_NOT_CONSUMED}"
  shows "sdec_progress c e m0 k (Some (Return r s))"
  using assms fmt_viable_steps [OF assms(1)] by (auto simp: sdec_progress_def sdec_post_def)

section \<open>The end of a match\<close>

text \<open>
  The two tests before a copy of \<open>len\<close> bytes from \<open>off\<close> bytes back are exact: they fail just
  when the stream is not viable, and otherwise the copy leads to \<^verbatim>\<open>match_done\<close>.
\<close>

lemma match_tests:
  assumes "env_ok c e m" "op \<le> out_cap e" "0 < off" "off \<le> 65536" "len < 2 ^ uint_bits c"
  shows "TEST_LB_fails c e op (int op - int off) \<longleftrightarrow> op < off"
    "NEED_OP_fails c e op len \<longleftrightarrow> out_cap e < op + len"
proof -
  note E = env_okD [OF assms(1)]
  have "int off \<le> 2 ^ uint_bits c"
  proof -
    have "off \<le> 2 ^ uint_bits c" using assms(4) E(6) by linarith
    then show ?thesis by (metis of_nat_le_iff of_nat_numeral of_nat_power)
  qed
  then have "int op - (int op - int off) \<le> 2 ^ uint_bits c" by simp
  then have "TEST_LB_fails c e op (int op - int off) \<longleftrightarrow>
      int op - int off < 0 \<or> int op - int off = int op"
    using assms(2) E(5) by (intro TEST_LB_iff) auto
  then show "TEST_LB_fails c e op (int op - int off) \<longleftrightarrow> op < off" using assms(3) by auto
  show "NEED_OP_fails c e op len \<longleftrightarrow> out_cap e < op + len"
    using NEED_OP_iff [OF assms(2) E(4) assms(5)] assms(2) by auto
qed

lemma match_not_viable:
  assumes "fmt_parse md (b # bs) = Some (FM_copy off len st, r)" "md \<in> {F_top, F_lit, F_short}"
    "unat b < 16 \<Longrightarrow> md \<noteq> F_top" "length out < off \<or> out_cap e < length out + len"
  shows "\<not> sdec_viable c e (md, b # bs, out)"
proof
  assume "sdec_viable c e (md, b # bs, out)"
  then show False
  proof (rule fmt_viable_match)
    show "md = F_top \<Longrightarrow> 16 \<le> unat b" using assms(3) by force
  qed (use assms in \<open>auto\<close>)
qed

lemma match_done_inv:
  assumes "env_ok c e m0" "frame e m0 m'" "op + len \<le> out_cap e" "2 \<le> ip" "ip \<le> in_len e"
    and "fmt_steps (fmt_start e m0) (md, bs, out)" "md \<in> {F_top, F_lit, F_short}"
    and "fmt_parse md bs = Some (FM_copy off len st, rest e m0 ip)" "off \<le> length out"
    and "take (op + len) (m' Out) = lz_copy out off len" "st = unat (m0 In ! (ip - 2)) mod 4"
    and "d_mem s = m'" "d_ip s = ip" "d_op s = op + len"
  shows "sdec_inv c e m0 L_match_done s"
proof -
  have "fmt_step (md, bs, out) (F_after st, rest e m0 ip, lz_copy out off len)"
    using assms by (intro fmt_step.copy) auto
  then have "fmt_steps (fmt_start e m0) (F_after st, rest e m0 ip, lz_copy out off len)"
    using assms(6) by (meson rtranclp.rtrancl_into_rtrancl)
  moreover have "sdec_abs e L_match_done s (F_after st, rest e m0 ip, lz_copy out off len)"
    using assms(2,10-14) frame_rest [OF assms(2)] by (simp add: sdec_abs_def frame_def)
  ultimately show ?thesis using assms(1-5,12-14) by (auto simp: sdec_inv_def)
qed

text \<open>The tests and the copy together, for any of the copy routines.\<close>

lemma match_progress:
  assumes env: "env_ok c e m0" "frame e m0 (d_mem s)" "d_op s \<le> out_cap e"
    and fmt: "fmt_steps (fmt_start e m0) (md, b # bs, take (d_op s) (d_mem s Out))"
      "md \<in> {F_top, F_lit, F_short}" "unat b < 16 \<Longrightarrow> md \<noteq> F_top"
      "fmt_parse md (b # bs) = Some (FM_copy off len st, rest e m0 (d_ip s))"
    and match: "st = unat (m0 In ! (d_ip s - 2)) mod 4" "0 < off" "off \<le> 65536" "len < 2 ^ uint_bits c"
    and ip: "2 \<le> d_ip s" "d_ip s \<le> in_len e" "2 * (in_len e - d_ip s) + 1 < k"
    and cp: "off \<le> d_op s \<Longrightarrow> d_op s + len \<le> out_cap e \<Longrightarrow> \<exists>m'. cp = Some (m', d_op s + len) \<and>
      frame e m0 m' \<and> take (d_op s + len) (m' Out) = lz_copy (take (d_op s) (d_mem s Out)) off len"
    and upd: "\<And>m op. d_mem (f m op) = m \<and> d_op (f m op) = op \<and> d_ip (f m op) = d_ip s"
    and pos: "m_pos = int (d_op s) - int off"
  shows "sdec_progress c e m0 k
    (if TEST_LB_fails c e (d_op s) m_pos then Some (Return LZO_E_LOOKBEHIND_OVERRUN s)
     else if NEED_OP_fails c e (d_op s) len then Some (Return LZO_E_OUTPUT_OVERRUN s)
     else do { (m, op) \<leftarrow> cp; Some (Goto L_match_done (f m op)) })"
proof -
  note tests = match_tests [OF env(1,3) match(2,3,4)]
  have out: "length (take (d_op s) (d_mem s Out)) = d_op s"
    using env(3) env_okD(2) [OF frame_env [OF env(1,2)]] by simp
  show ?thesis
  proof (cases "d_op s < off \<or> out_cap e < d_op s + len")
    case True
    then have "\<not> sdec_viable c e (md, b # bs, take (d_op s) (d_mem s Out))"
      using out by (intro match_not_viable [OF fmt(4,2,3)]) auto
    then show ?thesis
      using True env(2,3) unfolding pos tests by (auto intro!: sdec_progress_error [OF fmt(1)])
  next
    case False
    then obtain m' where m': "cp = Some (m', d_op s + len)" "frame e m0 m'"
      "take (d_op s + len) (m' Out) = lz_copy (take (d_op s) (d_mem s Out)) off len" using cp by auto
    have "sdec_inv c e m0 L_match_done (f m' (d_op s + len))"
      using False out upd m' match(1) ip
      by (intro match_done_inv [OF env(1) m'(2) _ _ _ fmt(1,2,4)]) auto
    then show ?thesis
      using False ip(3) upd unfolding pos tests m'(1)
      by (auto intro!: sdec_progress_goto simp: sdec_rank_def)
  qed
qed

section \<open>The match labels\<close>

text \<open>What the invariant says at the label \<^verbatim>\<open>match\<close>.\<close>

definition at_match :: "lzo_cfg \<Rightarrow> lzo_env \<Rightarrow> region mem \<Rightarrow> d_state \<Rightarrow> fmt_mode \<Rightarrow> u8 \<Rightarrow> bool" where
  "at_match c e m0 s md b \<longleftrightarrow> env_ok c e m0 \<and> frame e m0 (d_mem s) \<and> d_op s \<le> out_cap e \<and>
     1 \<le> d_ip s \<and> d_ip s + 2 \<le> in_len e \<and> b = m0 In ! (d_ip s - 1) \<and> unat b = d_t s \<and>
     md \<in> {F_top, F_lit, F_short} \<and> (d_t s < 16 \<longrightarrow> md = F_short) \<and>
     fmt_steps (fmt_start e m0) (md, b # rest e m0 (d_ip s), take (d_op s) (d_mem s Out))"

lemma at_match_inv:
  assumes "sdec_inv c e m0 L_match s"
  obtains md b where "at_match c e m0 s md b"
proof -
  have fr: "frame e m0 (d_mem s)" using assms by (simp add: sdec_inv_def)
  then show thesis
    using that assms frame_rest [OF fr]
    by (auto simp: sdec_inv_def sdec_abs_def at_match_def Let_def frame_def)
qed

lemma at_matchD:
  assumes "at_match c e m0 s md b"
  shows "env_ok c e m0" "frame e m0 (d_mem s)" "d_op s \<le> out_cap e" "1 \<le> d_ip s" "d_ip s + 2 \<le> in_len e"
    "b = m0 In ! (d_ip s - 1)" "unat b = d_t s" "md \<in> {F_top, F_lit, F_short}" "d_t s < 16 \<Longrightarrow> md = F_short"
    "fmt_steps (fmt_start e m0) (md, b # rest e m0 (d_ip s), take (d_op s) (d_mem s Out))"
    "env_ok c e (d_mem s)" "d_mem s In = m0 In" "in_len e \<le> length (m0 In)"
    "unat b < 16 \<Longrightarrow> md \<noteq> F_top"
proof -
  show E: "env_ok c e (d_mem s)" using assms frame_env by (auto simp: at_match_def)
qed (use assms in \<open>auto simp: at_match_def frame_def env_ok_def\<close>)

lemma back_off: "nat (int op - (int op - int off)) = off"
  by simp

lemma sdec_match_m2_progress:
  assumes "at_match c e m0 s md b" "64 \<le> d_t s"
  shows "sdec_progress c e m0 (sdec_rank e L_match s) (sdec_match_m2 c e s)"
proof -
  note M = at_matchD [OF assms(1)] and E = env_okD [OF at_matchD(1) [OF assms(1)]]
  define b2 where "b2 = m0 In ! d_ip s"
  define off where "off = 1 + d_t s div 4 mod 8 + unat b2 * 8"
  define n where "n = d_t s div 32 - 1"
  define s1 where "s1 = s\<lparr> d_ip := d_ip s + 1, d_t := n \<rparr>"
  let ?pos = "int (d_op s) - int off"
  have n: "0 < n" "n < 8" using assms(2) M(7) u8_less [of b] by (auto simp: n_def)
  have off: "0 < off" "off \<le> 65536" using u8_less [of b2] by (auto simp: off_def)
  have parse: "fmt_parse md (b # rest e m0 (d_ip s)) =
      Some (FM_copy off (n + 2) (d_t s mod 4), rest e m0 (d_ip s1))"
    using assms(2) n(1) M(5,13) by (simp add: M(7) rest_Cons b2_def [symmetric] fmt_m2_def off_def n_def s1_def)
  have rd: "rd (d_mem s) (In, d_ip s) = Some b2" using M(5,12,13) by (simp add: b2_def)
  have pos: "int (d_op s) - 1 - int (d_t s div 4 mod 8) - int (unat b2 * 8) = ?pos"
    by (simp add: off_def)
  have three: "d_t s1 + 3 - 1 = n + 2" by (simp add: s1_def)
  have "sdec_match_m2 c e s =
    (if TEST_LB_fails c e (d_op s1) ?pos then Some (Return LZO_E_LOOKBEHIND_OVERRUN s1)
     else if NEED_OP_fails c e (d_op s1) (n + 2) then Some (Return LZO_E_OUTPUT_OVERRUN s1)
     else do { (m, op) \<leftarrow> copy_match c (d_mem s1) (d_op s1) ?pos n;
        Some (Goto L_match_done (s1\<lparr> d_mem := m, d_op := op, d_t := 0 \<rparr>)) })"
    unfolding sdec_match_m2_def Let_def rd Option.bind.simps pos n_def [symmetric] s1_def [symmetric] three
    by (simp add: s1_def)
  moreover have "sdec_progress c e m0 (sdec_rank e L_match s) \<dots>"
    using copy_match_append [OF M(11,2) n(1), of ?pos "d_op s"] off M E(6) n(2)
    by (intro match_progress [where len = "n + 2" and off = off, OF M(1) _ _ _ M(8,14) parse])
      (auto simp: s1_def sdec_rank_def back_off simp del: lz_copy.simps add_2_eq_Suc')
  ultimately show ?thesis by simp
qed

lemma out_mv_append:
  assumes "env_ok c e m" "frame e m0 m" "0 < off" "off \<le> op" "op + k \<le> out_cap e"
  shows "\<exists>m'. do { p \<leftarrow> out_ptr (int op - int off); m \<leftarrow> mv m (Out, op) p k; Some (m, op + k) } =
      Some (m', op + k) \<and> frame e m0 m' \<and> take (op + k) (m' Out) = lz_copy (take op (m Out)) off k"
proof -
  obtain m' where m': "mv m (Out, op) (Out, nat (int op - int off)) k = Some m'" "frame e m0 m'"
    "take (op + k) (m' Out) = lz_copy (take op (m Out)) off k"
    using mv_back_append [OF assms(1,2), of "int op - int off" op k] assms(3-5) by (auto simp: back_off)
  have "out_ptr (int op - int off) = Some (Out, nat (int op - int off))"
    using assms(4) by (simp add: out_ptr_def)
  with m' show ?thesis by (simp only: Option.bind.simps) blast
qed

lemma sdec_match_m1_progress:
  assumes "at_match c e m0 s md b" "d_t s < 16"
  shows "sdec_progress c e m0 (sdec_rank e L_match s) (sdec_match_m1 c e s)"
proof -
  note M = at_matchD [OF assms(1)] and E = env_okD [OF at_matchD(1) [OF assms(1)]]
  define b2 where "b2 = m0 In ! d_ip s"
  define off where "off = 1 + d_t s div 4 + unat b2 * 4"
  define s1 where "s1 = s\<lparr> d_ip := d_ip s + 1 \<rparr>"
  let ?pos = "int (d_op s) - int off"
  have off: "0 < off" "off \<le> 65536" using u8_less [of b2] assms(2) by (auto simp: off_def)
  have parse: "fmt_parse md (b # rest e m0 (d_ip s)) =
      Some (FM_copy off 2 (d_t s mod 4), rest e m0 (d_ip s1))"
    using assms(2) M(5,9,13) by (simp add: M(7) rest_Cons b2_def [symmetric] fmt_m1_def off_def s1_def)
  have rd: "rd (d_mem s) (In, d_ip s) = Some b2" using M(5,12,13) by (simp add: b2_def)
  have pos: "int (d_op s) - 1 - int (d_t s div 4) - int (unat b2 * 4) = ?pos"
    by (simp add: off_def)
  have "sdec_match_m1 c e s =
    (if TEST_LB_fails c e (d_op s1) ?pos then Some (Return LZO_E_LOOKBEHIND_OVERRUN s1)
     else if NEED_OP_fails c e (d_op s1) 2 then Some (Return LZO_E_OUTPUT_OVERRUN s1)
     else do { (m, op) \<leftarrow> do { p \<leftarrow> out_ptr ?pos; m \<leftarrow> mv (d_mem s1) (Out, d_op s1) p 2; Some (m, d_op s1 + 2) };
        Some (Goto L_match_done (s1\<lparr> d_mem := m, d_op := op \<rparr>)) })"
    unfolding sdec_match_m1_def Let_def rd Option.bind.simps pos s1_def [symmetric]
    by (simp add: s1_def)
  moreover have "sdec_progress c e m0 (sdec_rank e L_match s) \<dots>"
    using out_mv_append [OF M(11,2) off(1), of "d_op s" 2] off M E(6)
    by (intro match_progress [where len = 2 and off = off, OF M(1) _ _ _ M(8,14) parse])
      (auto simp: s1_def sdec_rank_def simp del: lz_copy.simps)
  ultimately show ?thesis by simp
qed

text \<open>A long match, from the state after its offset bytes.\<close>

lemma sdec_match_copy_progress:
  assumes "at_match c e m0 s md b"
    and parse: "fmt_parse md (b # rest e m0 (d_ip s)) =
      Some (FM_copy off (n + 2) (unat (m0 In ! ip) mod 4), rest e m0 (ip + 2))"
    and ip: "d_ip s \<le> ip" "ip + 2 \<le> in_len e" and off: "0 < off" "off \<le> 65536"
    and n: "0 < n" "n + 2 < 2 ^ uint_bits c"
  shows "sdec_progress c e m0 (sdec_rank e L_match s)
    (sdec_match_copy c e (s\<lparr> d_ip := ip + 2, d_t := n \<rparr>) (int (d_op s) - int off))"
proof -
  note M = at_matchD [OF assms(1)]
  define s1 where "s1 = s\<lparr> d_ip := ip + 2, d_t := n \<rparr>"
  let ?pos = "int (d_op s) - int off"
  have three: "d_t s1 + 3 - 1 = n + 2" by (simp add: s1_def)
  have "sdec_match_copy c e s1 ?pos =
    (if TEST_LB_fails c e (d_op s1) ?pos then Some (Return LZO_E_LOOKBEHIND_OVERRUN s1)
     else if NEED_OP_fails c e (d_op s1) (n + 2) then Some (Return LZO_E_OUTPUT_OVERRUN s1)
     else do { (m, op) \<leftarrow> copy_match_fast c e (d_mem s1) (d_op s1) ?pos n;
        Some (Goto L_match_done (s1\<lparr> d_mem := m, d_op := op, d_t := 0 \<rparr>)) })"
    unfolding sdec_match_copy_def three by (simp add: s1_def)
  moreover have "sdec_progress c e m0 (sdec_rank e L_match s) \<dots>"
    using copy_match_fast_append [OF M(11,2) n(1), of ?pos "d_op s"] off M n(2) ip parse
    by (intro match_progress [where len = "n + 2" and off = off, OF M(1) _ _ _ M(8,14)])
      (auto simp: s1_def sdec_rank_def back_off simp del: lz_copy.simps add_2_eq_Suc')
  ultimately show ?thesis by (simp add: s1_def)
qed

text \<open>Length and offset of a long match: an overrun here is an overrun of the format.\<close>

lemma match_length:
  assumes at: "at_match c e m0 s md b" and base: "base \<le> 31" "fld < 32"
    and viable: "sdec_viable c e (md, b # rest e m0 (d_ip s), take (d_op s) (d_mem s Out)) \<Longrightarrow>
      \<exists>l r. fmt_len base fld (rest e m0 (d_ip s)) = Some (l, r) \<and> 2 \<le> length r \<and> l \<le> 2 ^ uint_bits c - 511"
  obtains r where
      "sdec_length c e (TEST_OV_fails c) LZO_E_OUTPUT_OVERRUN base 2 (d_mem s) (d_ip s) fld = Some (Inl r)"
      "sdec_progress c e m0 (sdec_rank e L_match s) (Some (Return r s))"
    | ip n off where
      "sdec_length c e (TEST_OV_fails c) LZO_E_OUTPUT_OVERRUN base 2 (d_mem s) (d_ip s) fld = Some (Inr (ip, n))"
      "fmt_len base fld (rest e m0 (d_ip s)) = Some (n, rest e m0 ip)" "d_ip s \<le> ip" "ip + 2 \<le> in_len e"
      "0 < n" "n + 2 < 2 ^ uint_bits c" "get_off14 c (d_mem s) ip = Some off" "off < 16384"
      "fmt_off (rest e m0 ip) = Some (off, unat (m0 In ! ip) mod 4, rest e m0 (ip + 2))"
proof -
  note M = at_matchD [OF at] and E = env_okD [OF at_matchD(1) [OF at]]
  note frest = frame_rest [OF M(2)]
  have test: "TEST_OV_fails c x \<longleftrightarrow> x > 2 ^ uint_bits c - 511" for x by (simp add: TEST_OV_fails_def)
  have ip: "d_ip s < in_len e" "fld < 256" using M(5) base(2) by simp_all
  consider (err) r where
    "sdec_length c e (TEST_OV_fails c) LZO_E_OUTPUT_OVERRUN base 2 (d_mem s) (d_ip s) fld = Some (Inl r)"
      "r = LZO_E_OUTPUT_OVERRUN \<or> r = LZO_E_INPUT_OVERRUN"
    | (ok) ip n where
    "sdec_length c e (TEST_OV_fails c) LZO_E_OUTPUT_OVERRUN base 2 (d_mem s) (d_ip s) fld = Some (Inr (ip, n))"
      "fmt_len base fld (rest e m0 (d_ip s)) = Some (n, rest e m0 ip)" "d_ip s \<le> ip" "0 < n"
      "n + 225 \<le> 2 ^ uint_bits c" "if fld = 0 then ip + 2 \<le> in_len e else ip = d_ip s"
    using sdec_length_cases [OF M(11) ip(2,1) base(1), of 2 "TEST_OV_fails c" LZO_E_OUTPUT_OVERRUN] test
    by (auto simp: frest)
  then show thesis
  proof cases
    case err
    have "\<not> sdec_viable c e (md, b # rest e m0 (d_ip s), take (d_op s) (d_mem s Out))"
    proof
      assume "sdec_viable c e (md, b # rest e m0 (d_ip s), take (d_op s) (d_mem s Out))"
      from viable [OF this] obtain l r' where "fmt_len base fld (rest e (d_mem s) (d_ip s)) = Some (l, r')"
        "2 \<le> length r'" "l \<le> 2 ^ uint_bits c - 511" by (auto simp: frest)
      with sdec_length_exact [where need = 2 and code = LZO_E_OUTPUT_OVERRUN and t = fld,
          OF M(11) base(1) _ ip(1) test] err(1)
      show False by auto
    qed
    then show thesis using that(1) [OF err(1)] M(2,3) err(2) by (auto intro!: sdec_progress_error [OF M(10)])
  next
    case ok
    have ip2: "ip + 2 \<le> in_len e" using ok(6) M(5) by (auto split: if_splits)
    then have rest: "rest e m0 ip = m0 In ! ip # m0 In ! (ip + 1) # rest e m0 (ip + 2)"
      using M(13) by (simp add: rest_Cons)
    let ?off = "unat (m0 In ! ip) div 4 + unat (m0 In ! (ip + 1)) * 64"
    have "get_off14 c (d_mem s) ip = Some ?off"
      using M(12,13) ip2 by (simp add: get_off14_eq [OF E(7)])
    moreover have "?off < 16384" using u8_less [of "m0 In ! ip"] u8_less [of "m0 In ! (ip + 1)"] by linarith
    ultimately show thesis using that(2) [OF ok(1,2,3) ip2 ok(4)] ok(5) rest by simp
  qed
qed

lemma sdec_match_m3_progress:
  assumes "at_match c e m0 s md b" "32 \<le> d_t s" "d_t s < 64"
  shows "sdec_progress c e m0 (sdec_rank e L_match s) (sdec_match_m3 c e s)"
proof -
  note M = at_matchD [OF assms(1)]
  have parse: "fmt_parse md (b # rest e m0 (d_ip s)) = fmt_m3 (d_t s) (rest e m0 (d_ip s))"
    using assms(2,3) M(7) by simp
  show ?thesis
  proof (rule match_length [OF assms(1), of 31 "d_t s mod 32"])
    assume "sdec_viable c e (md, b # rest e m0 (d_ip s), take (d_op s) (d_mem s Out))"
    then show "\<exists>l r. fmt_len 31 (d_t s mod 32) (rest e m0 (d_ip s)) = Some (l, r) \<and> 2 \<le> length r \<and>
        l \<le> 2 ^ uint_bits c - 511"
      using fmt_viable_m3 M(7,8) assms(2,3) by metis
  next
    fix ip n off
    assume r: "sdec_length c e (TEST_OV_fails c) LZO_E_OUTPUT_OVERRUN 31 2 (d_mem s) (d_ip s) (d_t s mod 32) =
        Some (Inr (ip, n))"
      "fmt_len 31 (d_t s mod 32) (rest e m0 (d_ip s)) = Some (n, rest e m0 ip)" "d_ip s \<le> ip"
      "ip + 2 \<le> in_len e" "0 < n" "n + 2 < 2 ^ uint_bits c" "get_off14 c (d_mem s) ip = Some off"
      "off < 16384" "fmt_off (rest e m0 ip) = Some (off, unat (m0 In ! ip) mod 4, rest e m0 (ip + 2))"
    have "fmt_parse md (b # rest e m0 (d_ip s)) =
        Some (FM_copy (1 + off) (n + 2) (unat (m0 In ! ip) mod 4), rest e m0 (ip + 2))"
      unfolding parse fmt_m3_def using r(2,9) by simp
    from sdec_match_copy_progress [OF assms(1) this r(3,4) _ _ r(5,6)] r(8)
    show ?thesis unfolding sdec_match_m3_def using r(1,7) by (simp add: diff_diff_eq)
  qed (simp_all add: sdec_match_m3_def)
qed

lemma eof_found_progress:
  assumes "at_match c e m0 s md b"
    and parse: "fmt_parse md (b # rest e m0 (d_ip s)) = Some (FM_eof l, rest e m0 ip)" and ip: "ip \<le> in_len e"
  shows "sdec_progress c e m0 k (Some (eof_found e (s\<lparr> d_ip := ip, d_t := t \<rparr>)))"
proof -
  note M = at_matchD [OF assms(1)]
  let ?out = "take (d_op s) (d_mem s Out)"
  have "fmt_step (md, b # rest e m0 (d_ip s), ?out) (F_eof l, rest e m0 ip, ?out)"
    using parse M(8) by (intro fmt_step.eof)
  then have reach: "fmt_steps (fmt_start e m0) (F_eof l, rest e m0 ip, ?out)"
    using M(10) by (meson rtranclp.rtrancl_into_rtrancl)
  show ?thesis
  proof (cases "ip = in_len e")
    case True
    then have "rest e m0 ip = []" by (simp add: rest_def)
    then show ?thesis
      using True reach M(2,3) by (auto simp: eof_found_def sdec_progress_def sdec_post_def)
  next
    case False
    then have "rest e m0 ip \<noteq> []" using ip M(13) by (simp add: rest_def)
    then have "\<not> sdec_viable c e (F_eof l, rest e m0 ip, ?out)" using fmt_viable_eof by blast
    then show ?thesis
      using False ip M(2,3) by (auto simp: eof_found_def intro!: sdec_progress_error [OF reach])
  qed
qed

lemma sdec_match_m4_progress:
  assumes "at_match c e m0 s md b" "16 \<le> d_t s" "d_t s < 32"
  shows "sdec_progress c e m0 (sdec_rank e L_match s) (sdec_match_m4 c e s)"
proof -
  note M = at_matchD [OF assms(1)]
  have parse: "fmt_parse md (b # rest e m0 (d_ip s)) = fmt_m4 (d_t s) (rest e m0 (d_ip s))"
    using assms(2,3) M(7) by simp
  define hi where "hi = d_t s div 8 mod 2 * 16384"
  have hi: "hi \<le> 16384" by (simp add: hi_def)
  show ?thesis
  proof (rule match_length [OF assms(1), of 7 "d_t s mod 8"])
    assume "sdec_viable c e (md, b # rest e m0 (d_ip s), take (d_op s) (d_mem s Out))"
    then show "\<exists>l r. fmt_len 7 (d_t s mod 8) (rest e m0 (d_ip s)) = Some (l, r) \<and> 2 \<le> length r \<and>
        l \<le> 2 ^ uint_bits c - 511"
      using fmt_viable_m4 M(7,8) assms(2,3) by metis
  next
    fix ip n off
    assume r: "sdec_length c e (TEST_OV_fails c) LZO_E_OUTPUT_OVERRUN 7 2 (d_mem s) (d_ip s) (d_t s mod 8) =
        Some (Inr (ip, n))"
      "fmt_len 7 (d_t s mod 8) (rest e m0 (d_ip s)) = Some (n, rest e m0 ip)" "d_ip s \<le> ip"
      "ip + 2 \<le> in_len e" "0 < n" "n + 2 < 2 ^ uint_bits c" "get_off14 c (d_mem s) ip = Some off"
      "off < 16384" "fmt_off (rest e m0 ip) = Some (off, unat (m0 In ! ip) mod 4, rest e m0 (ip + 2))"
    have step: "sdec_match_m4 c e s =
      (if off + hi = 0 then Some (eof_found e (s\<lparr> d_ip := ip + 2, d_t := n \<rparr>))
       else sdec_match_copy c e (s\<lparr> d_ip := ip + 2, d_t := n \<rparr>) (int (d_op s) - int (off + hi + 16384)))"
      unfolding sdec_match_m4_def using r(1,7) by (simp add: hi_def Let_def algebra_simps)
    have p: "fmt_parse md (b # rest e m0 (d_ip s)) =
      Some (if off + hi = 0 then (FM_eof n, rest e m0 (ip + 2))
        else (FM_copy (off + hi + 16384) (n + 2) (unat (m0 In ! ip) mod 4), rest e m0 (ip + 2)))"
      unfolding parse fmt_m4_def using r(2,9) by (simp add: hi_def)
    show ?thesis
    proof (cases "off + hi = 0")
      case True
      then show ?thesis unfolding step using p r(4) by (auto intro!: eof_found_progress [OF assms(1)])
    next
      case False
      have "sdec_progress c e m0 (sdec_rank e L_match s)
          (sdec_match_copy c e (s\<lparr> d_ip := ip + 2, d_t := n \<rparr>) (int (d_op s) - int (off + hi + 16384)))"
        using r(8) hi p False by (intro sdec_match_copy_progress [OF assms(1) _ r(3,4) _ _ r(5,6)]) simp_all
      then show ?thesis unfolding step if_not_P [OF False] .
    qed
  qed (simp_all add: sdec_match_m4_def)
qed

lemma sdec_match_progress:
  assumes "sdec_inv c e m0 L_match s"
  shows "sdec_progress c e m0 (sdec_rank e L_match s) (sdec_match c e s)"
proof -
  obtain md b where "at_match c e m0 s md b" using assms by (rule at_match_inv)
  then show ?thesis
    using sdec_match_m1_progress sdec_match_m2_progress sdec_match_m3_progress sdec_match_m4_progress
    unfolding sdec_match_def by (simp add: not_le)
qed

section \<open>The other labels\<close>

text \<open>A byte of the format read into \<open>t\<close> on the way to \<^verbatim>\<open>match\<close>.\<close>

lemma match_inv:
  assumes "env_ok c e m0" "frame e m0 m" "op \<le> out_cap e" "ip + 3 \<le> in_len e"
    and "fmt_steps (fmt_start e m0) (md, rest e m0 ip, take op (m Out))" "md \<in> {F_top, F_lit, F_short}"
    and "unat (m0 In ! ip) < 16 \<Longrightarrow> md = F_short"
    and "d_mem s = m" "d_ip s = ip + 1" "d_op s = op" "d_t s = unat (m0 In ! ip)"
  shows "sdec_inv c e m0 L_match s"
proof -
  have "rest e m0 ip = m0 In ! ip # rest e m0 (ip + 1)"
    using assms(4) env_okD(1) [OF assms(1)] by (intro rest_Cons) auto
  then have "sdec_abs e L_match s (md, rest e m0 ip, take op (m Out))"
    using assms(2,6-11) frame_rest [OF assms(2)] by (simp add: sdec_abs_def frame_def)
  then show ?thesis using assms(1-5,8-11) by (auto simp: sdec_inv_def)
qed

lemma sdec_first_literal_run_progress:
  assumes "sdec_inv c e m0 L_first_literal_run s"
  shows "sdec_progress c e m0 (sdec_rank e L_first_literal_run s) (sdec_first_literal_run c e s)"
proof -
  have fr: "frame e m0 (d_mem s)" using assms by (simp add: sdec_inv_def)
  have I: "env_ok c e m0" "d_op s \<le> out_cap e" "d_ip s + 3 \<le> in_len e"
    "fmt_steps (fmt_start e m0) (F_lit, rest e m0 (d_ip s), take (d_op s) (d_mem s Out))"
    using assms frame_rest [OF fr] by (simp_all add: sdec_inv_def sdec_abs_def)
  note E = env_okD [OF I(1)]
  have In: "d_mem s In = m0 In" using fr by (simp add: frame_def)
  define b where "b = m0 In ! d_ip s"
  define b2 where "b2 = m0 In ! (d_ip s + 1)"
  have rd: "rd (d_mem s) (In, d_ip s) = Some b" using I(3) E(1) by (simp add: b_def In)
  show ?thesis
  proof (cases "16 \<le> unat b")
    case True
    then have "sdec_inv c e m0 L_match (s\<lparr> d_ip := d_ip s + 1, d_t := unat b \<rparr>)"
      by (intro match_inv [OF I(1) fr I(2,3,4)]) (simp_all add: b_def)
    then show ?thesis
      using True I(3) rd by (auto simp: sdec_first_literal_run_def Let_def sdec_rank_def intro!: sdec_progress_goto)
  next
    case False
    define s1 where "s1 = s\<lparr> d_ip := d_ip s + 1, d_t := unat b, d_ip := d_ip s + 2 \<rparr>"
    define off where "off = 2049 + unat b div 4 + unat b2 * 4"
    let ?pos = "int (d_op s) - int off"
    have off: "0 < off" "off \<le> 65536" using u8_less [of b] u8_less [of b2] by (auto simp: off_def)
    have rest: "rest e m0 (d_ip s) = b # b2 # rest e m0 (d_ip s1)"
      using I(3) E(1) by (simp add: rest_Cons b_def b2_def s1_def)
    have parse: "fmt_parse F_lit (b # b2 # rest e m0 (d_ip s1)) =
        Some (FM_copy off 3 (unat b mod 4), rest e m0 (d_ip s1))"
      using False by (simp add: fmt_m1_def off_def)
    have rd2: "rd (d_mem s) (In, d_ip s + 1) = Some b2" using I(3) E(1) by (simp add: b2_def In)
    have pos: "int (d_op s) - (1 + int M2_MAX_OFFSET) - int (unat b div 4) - int (unat b2 * 4) = ?pos"
      by (simp add: off_def M2_MAX_OFFSET_def)
    have "sdec_first_literal_run c e s =
      (if TEST_LB_fails c e (d_op s1) ?pos then Some (Return LZO_E_LOOKBEHIND_OVERRUN s1)
       else if NEED_OP_fails c e (d_op s1) 3 then Some (Return LZO_E_OUTPUT_OVERRUN s1)
       else do { (m, op) \<leftarrow> do { p \<leftarrow> out_ptr ?pos; m \<leftarrow> mv (d_mem s1) (Out, d_op s1) p 3; Some (m, d_op s1 + 3) };
          Some (Goto L_match_done (s1\<lparr> d_mem := m, d_op := op \<rparr>)) })"
      using False rd2 unfolding sdec_first_literal_run_def Let_def rd Option.bind.simps
      by (simp add: s1_def pos [symmetric] del: mv.simps)
    moreover have "sdec_progress c e m0 (sdec_rank e L_first_literal_run s) \<dots>"
      using out_mv_append [OF frame_env [OF I(1) fr] fr off(1), of "d_op s" 3] off I fr E(6)
      by (intro match_progress [where len = 3 and off = off, OF I(1) _ _ _ _ _ parse])
        (auto simp: s1_def sdec_rank_def b_def [symmetric] rest [unfolded s1_def] simp del: lz_copy.simps)
    ultimately show ?thesis by simp
  qed
qed

lemma sdec_match_done_progress:
  assumes "sdec_inv c e m0 L_match_done s"
  shows "sdec_progress c e m0 (sdec_rank e L_match_done s) (sdec_match_done s)"
proof -
  let ?t = "unat (d_mem s In ! (d_ip s - 2)) mod 4"
  let ?bs = "rest e (d_mem s) (d_ip s)" and ?out = "take (d_op s) (d_mem s Out)"
  have I: "env_ok c e m0" "frame e m0 (d_mem s)" "d_op s \<le> out_cap e" "2 \<le> d_ip s" "d_ip s \<le> in_len e"
    "fmt_steps (fmt_start e m0) (F_after ?t, ?bs, ?out)"
    using assms by (simp_all add: sdec_inv_def sdec_abs_def Let_def)
  have "d_ip s - 2 < length (d_mem s In)"
    using I(4,5) env_okD(1) [OF frame_env [OF I(1,2)]] by linarith
  then have step: "sdec_match_done s = Some (Goto (if ?t = 0 then L_top else L_match_next) (s\<lparr> d_t := ?t \<rparr>))"
    using I(4) by (simp add: sdec_match_done_def Let_def)
  have "?t \<le> 3" by simp
  moreover have "fmt_steps (fmt_start e m0) (F_top, ?bs, ?out)" if "?t = 0"
    using I(6) that fmt_step.after_none by (metis rtranclp.rtrancl_into_rtrancl)
  ultimately show ?thesis
    unfolding step using I
    by (intro sdec_progress_goto) (auto simp: sdec_inv_def sdec_abs_def Let_def sdec_rank_def)
qed

lemma sdec_match_next_progress:
  assumes "sdec_inv c e m0 L_match_next s"
  shows "sdec_progress c e m0 (sdec_rank e L_match_next s) (sdec_match_next c e s)"
proof -
  let ?x = "(F_after (d_t s), rest e m0 (d_ip s), take (d_op s) (d_mem s Out))"
  have fr: "frame e m0 (d_mem s)" using assms by (simp add: sdec_inv_def)
  have I: "env_ok c e m0" "d_op s \<le> out_cap e" "d_ip s \<le> in_len e" "0 < d_t s" "d_t s \<le> 3"
    "fmt_steps (fmt_start e m0) ?x"
    using assms frame_rest [OF fr] by (simp_all add: sdec_inv_def sdec_abs_def Let_def)
  note E = env_okD [OF I(1)] and env = frame_env [OF I(1) fr]
  have rlen: "length (rest e m0 (d_ip s)) = in_len e - d_ip s" using E(1) by (rule length_rest)
  have n: "(if d_t s > 1 then (if d_t s > 2 then 3 else 2) else 1) = d_t s" using I(4,5) by auto
  have op: "NEED_OP_fails c e (d_op s) (d_t s) \<longleftrightarrow> out_cap e < d_op s + d_t s"
    using NEED_OP_iff [OF I(2) E(4), of "d_t s"] I(5) E(6) I(2) by auto
  have ip: "NEED_IP_fails c e (d_ip s) (d_t s + 3) \<longleftrightarrow> in_len e < d_ip s + (d_t s + 3)"
    using NEED_IP_iff [OF I(3) E(3), of "d_t s + 3"] I(5) E(6) I(3) by auto
  show ?thesis
  proof (cases "out_cap e < d_op s + d_t s \<or> in_len e < d_ip s + (d_t s + 3)")
    case True
    have "\<not> sdec_viable c e ?x"
      using True fmt_viable_after [OF _ I(4), of "out_cap e" "2 ^ uint_bits c - 511" "rest e m0 (d_ip s)"
          "take (d_op s) (d_mem s Out)"] I(2) env_okD(2) [OF env] rlen I(4)
      by auto
    then show ?thesis
      using True op ip fr I(2) by (auto simp: sdec_match_next_def Let_def intro!: sdec_progress_error [OF I(6)])
  next
    case False
    then obtain m' where m': "mv (d_mem s) (Out, d_op s) (In, d_ip s) (d_t s) = Some m'" "frame e m0 m'"
      "take (d_op s + d_t s) (m' Out) = take (d_op s) (d_mem s Out) @ take (d_t s) (rest e m0 (d_ip s))"
      using mv_in_append [OF env fr, of "d_ip s" "d_t s" "d_op s"] frame_rest [OF fr] by auto
    let ?s' = "s\<lparr> d_mem := m', d_ip := d_ip s + d_t s + 1, d_op := d_op s + d_t s,
      d_t := unat (m0 In ! (d_ip s + d_t s)) \<rparr>"
    have "m' In = m0 In" using m'(2) by (simp add: frame_def)
    then have step: "sdec_match_next c e s = Some (Goto L_match ?s')"
      using False op ip m'(1) E(1) unfolding sdec_match_next_def Let_def n by simp
    have "d_t s \<le> length (rest e m0 (d_ip s))" using False rlen by auto
    from fmt_step.after_lit [OF I(4,5) this, of "take (d_op s) (d_mem s Out)"]
    have "fmt_step ?x (F_short, rest e m0 (d_ip s + d_t s), take (d_op s + d_t s) (m' Out))"
      by (simp add: m'(3) drop_rest)
    with I(6) have "fmt_steps (fmt_start e m0) (F_short, rest e m0 (d_ip s + d_t s), take (d_op s + d_t s) (m' Out))"
      by (rule rtranclp.rtrancl_into_rtrancl)
    then have "sdec_inv c e m0 L_match ?s'"
      using False by (intro match_inv [OF I(1) m'(2)]) auto
    then show ?thesis unfolding step using False by (intro sdec_progress_goto) (auto simp: sdec_rank_def)
  qed
qed

text \<open>A literal run leads to \<^verbatim>\<open>first_literal_run\<close>.\<close>

lemma literal_inv:
  assumes "env_ok c e m0" "frame e m0 m" "op \<le> out_cap e" "ip + 3 \<le> in_len e"
    and "fmt_steps (fmt_start e m0) x" "fmt_step x (F_lit, rest e m0 ip, take op (m Out))"
    and "d_mem s = m" "d_ip s = ip" "d_op s = op"
  shows "sdec_inv c e m0 L_first_literal_run s"
proof -
  have "fmt_steps (fmt_start e m0) (F_lit, rest e m0 ip, take op (m Out))"
    using assms(5,6) by (rule rtranclp.rtrancl_into_rtrancl)
  then show ?thesis
    using assms frame_rest [OF assms(2)] by (simp add: sdec_inv_def sdec_abs_def)
qed

text \<open>The literal run at the top of the loop, from the byte that holds its length.\<close>

lemma sdec_run_progress:
  assumes env: "env_ok c e m0" "frame e m0 (d_mem s)" "d_op s \<le> out_cap e" and ip: "d_ip s + 3 \<le> in_len e"
    and reach: "fmt_steps (fmt_start e m0) (F_top, b # rest e m0 (d_ip s + 1), take (d_op s) (d_mem s Out))"
    and b: "unat b < 16"
  shows "sdec_progress c e m0 (sdec_rank e L_top s) (do {
     z \<leftarrow> sdec_length c e (TEST_IV_fails c) LZO_E_INPUT_OVERRUN 15 0 (d_mem s) (d_ip s + 1) (unat b);
     (case z of Inl r \<Rightarrow> Some (Return r s) | Inr (ip, t) \<Rightarrow>
        if NEED_OP_fails c e (d_op s) (t + 3) then Some (Return LZO_E_OUTPUT_OVERRUN s)
        else if NEED_IP_fails c e ip (t + 6) then Some (Return LZO_E_INPUT_OVERRUN s)
        else do {
          (m, op, ip) \<leftarrow> copy_literals c e (d_mem s) (d_op s) ip t;
          Some (Goto L_first_literal_run (s\<lparr> d_mem := m, d_ip := ip, d_op := op, d_t := 0 \<rparr>)) }) })"
    (is "sdec_progress c e m0 ?k (do { z \<leftarrow> ?len; _ })")
proof -
  let ?out = "take (d_op s) (d_mem s Out)"
  let ?x = "(F_top, b # rest e m0 (d_ip s + 1), ?out)"
  note E = env_okD [OF env(1)] and env' = frame_env [OF env(1,2)] and frest = frame_rest [OF env(2)]
  have rlen: "length (rest e m0 ip) = in_len e - ip" for ip using E(1) by (rule length_rest)
  have out: "length ?out = d_op s" using env(3) env_okD(2) [OF env'] by simp
  have error: "sdec_progress c e m0 k (Some (Return r s))"
    if "\<not> sdec_viable c e ?x" "r \<in> {LZO_E_INPUT_OVERRUN, LZO_E_OUTPUT_OVERRUN}" for r k
    using that env(2,3) by (auto intro!: sdec_progress_error [OF reach])
  have test: "TEST_IV_fails c x \<longleftrightarrow> x > 2 ^ uint_bits c - 511" for x by (simp add: TEST_IV_fails_def)
  have ip1: "d_ip s + 1 < in_len e" "unat b < 256" using ip b by simp_all
  consider (err) r where "?len = Some (Inl r)" "r = LZO_E_INPUT_OVERRUN"
    | (ok) ip t where "?len = Some (Inr (ip, t))" "d_ip s + 1 \<le> ip" "0 < t" "t + 225 \<le> 2 ^ uint_bits c"
      "fmt_len 15 (unat b) (rest e m0 (d_ip s + 1)) = Some (t, rest e m0 ip)" "ip \<le> in_len e"
    using sdec_length_cases [OF env' ip1(2,1), of 15 0 "TEST_IV_fails c" LZO_E_INPUT_OVERRUN] test ip1(1)
    by (auto simp: frest split: if_splits)
  then show ?thesis
  proof cases
    case err
    have "\<not> sdec_viable c e ?x"
    proof
      assume "sdec_viable c e ?x"
      then obtain l r where "fmt_len 15 (unat b) (rest e (d_mem s) (d_ip s + 1)) = Some (l, r)"
        "l \<le> 2 ^ uint_bits c - 511" using fmt_viable_run [OF _ b] frest by (metis add_leD1 add_leD2)
      then show False
        using sdec_length_exact [where need = 0 and code = LZO_E_INPUT_OVERRUN and t = "unat b",
            OF env' _ _ ip1(1) test, of 15] err(1) by auto
    qed
    then show ?thesis using err error by simp
  next
    case ok
    have viable: "d_op s + (t + 3) \<le> out_cap e \<and> ip + (t + 6) \<le> in_len e" if "sdec_viable c e ?x"
      by (rule fmt_viable_run [OF that b]) (use ok(5,6) rlen [of ip] out in auto)
    have op: "NEED_OP_fails c e (d_op s) (t + 3) \<longleftrightarrow> out_cap e < d_op s + (t + 3)"
      using NEED_OP_iff [OF env(3) E(4), of "t + 3"] ok(4) env(3) by auto
    have need: "NEED_IP_fails c e ip (t + 6) \<longleftrightarrow> in_len e < ip + (t + 6)"
      using NEED_IP_iff [OF ok(6) E(3), of "t + 6"] ok(4,6) by auto
    show ?thesis
    proof (cases "out_cap e < d_op s + (t + 3) \<or> in_len e < ip + (t + 6)")
      case True
      then have "\<not> sdec_viable c e ?x" using viable by auto
      then show ?thesis using True op need ok(1) error by auto
    next
      case False
      then have "ip + (t + 3) \<le> in_len e" "d_op s + (t + 3) \<le> out_cap e" by auto
      from copy_literals_append [OF env' env(2) ok(3) this] obtain m' where
        m': "copy_literals c e (d_mem s) (d_op s) ip t = Some (m', d_op s + (t + 3), ip + (t + 3))"
          "frame e m0 m'" "take (d_op s + (t + 3)) (m' Out) = ?out @ take (t + 3) (rest e m0 ip)"
        by (auto simp: frest)
      have "fmt_step ?x (F_lit, drop (t + 3) (rest e m0 ip), ?out @ take (t + 3) (rest e m0 ip))"
        using False rlen [of ip] by (intro fmt_step.run [OF b ok(5)]) auto
      then have "fmt_step ?x (F_lit, rest e m0 (ip + (t + 3)), take (d_op s + (t + 3)) (m' Out))"
        by (simp only: m'(3) drop_rest)
      then have "sdec_inv c e m0 L_first_literal_run
          (s\<lparr> d_mem := m', d_ip := ip + (t + 3), d_op := d_op s + (t + 3), d_t := 0 \<rparr>)"
        using False by (intro literal_inv [OF env(1) m'(2) _ _ reach]) auto
      moreover have "sdec_rank e L_first_literal_run
          (s\<lparr> d_mem := m', d_ip := ip + (t + 3), d_op := d_op s + (t + 3), d_t := 0 \<rparr>) < ?k"
        using False ok(2) ip by (auto simp: sdec_rank_def)
      ultimately show ?thesis
        using False sdec_progress_goto
        by (simp only: ok(1) op need m'(1) Option.bind.simps sum.case prod.case de_Morgan_disj if_False)
    qed
  qed
qed

lemma sdec_top_progress:
  assumes "sdec_inv c e m0 L_top s"
  shows "sdec_progress c e m0 (sdec_rank e L_top s) (sdec_top c e s)"
proof -
  let ?out = "take (d_op s) (d_mem s Out)"
  let ?x = "(F_top, rest e m0 (d_ip s), ?out)"
  have fr: "frame e m0 (d_mem s)" using assms by (simp add: sdec_inv_def)
  have I: "env_ok c e m0" "d_op s \<le> out_cap e" "d_ip s \<le> in_len e" "fmt_steps (fmt_start e m0) ?x"
    using assms frame_rest [OF fr] by (simp_all add: sdec_inv_def sdec_abs_def Let_def)
  note E = env_okD [OF I(1)] and env = frame_env [OF I(1) fr]
  have rlen: "length (rest e m0 ip) = in_len e - ip" for ip using E(1) by (rule length_rest)
  have out: "length ?out = d_op s" using I(2) env_okD(2) [OF env] by simp
  have error: "sdec_progress c e m0 k (Some (Return r s))"
    if "\<not> sdec_viable c e ?x" "r \<in> {LZO_E_INPUT_OVERRUN, LZO_E_OUTPUT_OVERRUN}" for r k
    using that fr I(2) by (auto intro!: sdec_progress_error [OF I(4)])
  have need3: "NEED_IP_fails c e (d_ip s) 3 \<longleftrightarrow> in_len e < d_ip s + 3"
    using NEED_IP_iff [OF I(3) E(3), of 3] E(6) I(3) by auto
  show ?thesis
  proof (cases "in_len e < d_ip s + 3")
    case True
    then have "\<not> sdec_viable c e ?x"
      using fmt_viable_length [of "out_cap e" "2 ^ uint_bits c - 511" F_top "rest e m0 (d_ip s)" ?out]
        rlen [of "d_ip s"] by auto
    then show ?thesis using True need3 error by (simp add: sdec_top_def)
  next
    case False
    define b where "b = m0 In ! d_ip s"
    have "d_mem s In = m0 In" using fr by (simp add: frame_def)
    then have rd: "rd (d_mem s) (In, d_ip s) = Some b" using False E(1) by (simp add: b_def)
    have rest: "rest e m0 (d_ip s) = b # rest e m0 (d_ip s + 1)"
      using False E(1) by (simp add: rest_Cons b_def)
    show ?thesis
    proof (cases "16 \<le> unat b")
      case True
      then have "sdec_inv c e m0 L_match (s\<lparr> d_ip := d_ip s + 1, d_t := unat b \<rparr>)"
        using False by (intro match_inv [OF I(1) fr I(2) _ I(4)]) (simp_all add: b_def)
      then show ?thesis
        using True False need3 rd by (auto simp: sdec_top_def Let_def sdec_rank_def intro!: sdec_progress_goto)
    next
      case short: False
      let ?len = "sdec_length c e (TEST_IV_fails c) LZO_E_INPUT_OVERRUN 15 0 (d_mem s) (d_ip s + 1) (unat b)"
      have step: "sdec_top c e s = do {
           z \<leftarrow> ?len;
           (case z of Inl r \<Rightarrow> Some (Return r s) | Inr (ip, t) \<Rightarrow>
              if NEED_OP_fails c e (d_op s) (t + 3) then Some (Return LZO_E_OUTPUT_OVERRUN s)
              else if NEED_IP_fails c e ip (t + 6) then Some (Return LZO_E_INPUT_OVERRUN s)
              else do {
                (m, op, ip) \<leftarrow> copy_literals c e (d_mem s) (d_op s) ip t;
                Some (Goto L_first_literal_run (s\<lparr> d_mem := m, d_ip := ip, d_op := op, d_t := 0 \<rparr>)) }) }"
        using False short need3 rd by (simp add: sdec_top_def Let_def)
      show ?thesis
        unfolding step using False short I(4) [unfolded rest] by (intro sdec_run_progress [OF I(1) fr I(2)]) auto
    qed
  qed
qed

lemma sdec_start_progress:
  assumes "env_ok c e m"
  shows "sdec_progress c e m (2 * in_len e + 1) (sdec_start c e m)"
proof -
  note E = env_okD [OF assms]
  have rlen: "length (rest e m 0) = in_len e" using length_rest [of e m 0] E(1) by simp
  have error: "sdec_progress c e m k (Some (Return r \<lparr> d_mem = m, d_ip = ip, d_op = 0, d_t = t \<rparr>))"
    if "\<not> sdec_viable c e (fmt_start e m)" "r \<in> {LZO_E_INPUT_OVERRUN, LZO_E_OUTPUT_OVERRUN}" for r k ip t
    using that by (auto intro!: sdec_progress_error [OF rtranclp.rtrancl_refl])
  have need1: "NEED_IP_fails c e 0 1 \<longleftrightarrow> in_len e < 1"
    using NEED_IP_iff [of 0 e c 1] E(3,6) by simp
  show ?thesis
  proof (cases "in_len e = 0")
    case True
    then have "\<not> sdec_viable c e (fmt_start e m)"
      using rlen fmt_viable_length [of "out_cap e" "2 ^ uint_bits c - 511" F_start] by fastforce
    then show ?thesis using True need1 error by (simp add: sdec_start_def)
  next
    case False
    define b where "b = m In ! 0"
    define t where "t = unat b - 17"
    have rd: "rd m (In, 0) = Some b" using False E(1) by (auto simp: b_def rd_def)
    have rest: "rest e m 0 = b # rest e m 1" using False E(1) by (simp add: rest_Cons b_def)
    have reach: "fmt_steps (fmt_start e m) x" if "fmt_step (F_start, b # rest e m 1, []) x" for x
      using that by (simp add: rest r_into_rtranclp)
    consider (top) "unat b \<le> 17" | (short) "17 < unat b" "t < 4" | (lit) "17 < unat b" "4 \<le> t" by linarith
    then show ?thesis
    proof cases
      case top
      have "fmt_steps (fmt_start e m) (F_top, rest e m 0, [])"
        using reach [OF fmt_step.start_top [OF top]] by (simp add: rest)
      then have "sdec_inv c e m L_top \<lparr> d_mem = m, d_ip = 0, d_op = 0, d_t = 0 \<rparr>"
        using assms by (simp add: sdec_inv_def sdec_abs_def)
      then show ?thesis
        using top False need1 rd by (simp add: sdec_start_def Let_def sdec_progress_goto sdec_rank_def)
    next
      case short
      have "fmt_steps (fmt_start e m) (F_after t, rest e m 1, [])"
        using short by (intro reach fmt_step.start_short) (auto simp: t_def)
      then have "sdec_inv c e m L_match_next \<lparr> d_mem = m, d_ip = 1, d_op = 0, d_t = t \<rparr>"
        using assms False short by (auto simp: sdec_inv_def sdec_abs_def t_def)
      then show ?thesis
        using short False need1 rd
        by (simp add: sdec_start_def Let_def sdec_progress_goto sdec_rank_def t_def [symmetric])
    next
      case lit
      have t: "t < 256" using u8_less [of b] by (simp add: t_def)
      have op: "NEED_OP_fails c e 0 t \<longleftrightarrow> out_cap e < t" using NEED_OP_iff [of 0 e c t] E(4,6) t by simp
      have ip: "NEED_IP_fails c e 1 (t + 3) \<longleftrightarrow> in_len e < 1 + (t + 3)"
        using NEED_IP_iff [of 1 e c "t + 3"] E(3,6) t False by auto
      have step: "sdec_start c e m =
        (if out_cap e < t then Some (Return LZO_E_OUTPUT_OVERRUN \<lparr> d_mem = m, d_ip = 1, d_op = 0, d_t = t \<rparr>)
         else if in_len e < 1 + (t + 3) then Some (Return LZO_E_INPUT_OVERRUN \<lparr> d_mem = m, d_ip = 1, d_op = 0, d_t = t \<rparr>)
         else do { m \<leftarrow> mv m (Out, 0) (In, 1) t;
           Some (Goto L_first_literal_run \<lparr> d_mem = m, d_ip = 1 + t, d_op = t, d_t = 0 \<rparr>) })"
        using lit False need1 rd op ip by (simp add: sdec_start_def Let_def t_def [symmetric])
      show ?thesis
      proof (cases "out_cap e < t \<or> in_len e < 1 + (t + 3)")
        case True
        have "length (rest e m 1) = in_len e - 1" using E(1) by (rule length_rest)
        then have "\<not> sdec_viable c e (fmt_start e m)"
          using True fmt_viable_start [of "out_cap e" "2 ^ uint_bits c - 511" b "rest e m 1" "[]" t] lit(2)
          by (auto simp: rest t_def)
        then show ?thesis unfolding step using True error by auto
      next
        case False
        then obtain m' where m': "mv m (Out, 0) (In, 1) t = Some m'" "frame e m m'"
          "take t (m' Out) = take t (rest e m 1)"
          using mv_in_append [OF assms frame_refl, of 1 t 0] by auto
        have "length (rest e m 1) = in_len e - 1" using E(1) by (rule length_rest)
        then have "fmt_step (F_start, b # rest e m 1, []) (F_lit, drop t (rest e m 1), [] @ take t (rest e m 1))"
          using False lit by (intro fmt_step.start_lit) (auto simp: t_def)
        then have "fmt_step (fmt_start e m) (F_lit, rest e m (1 + t), take t (m' Out))"
          by (simp add: m'(3) drop_rest rest)
        then have "sdec_inv c e m L_first_literal_run \<lparr> d_mem = m', d_ip = 1 + t, d_op = t, d_t = 0 \<rparr>"
          using False by (intro literal_inv [OF assms m'(2) _ _ rtranclp.rtrancl_refl]) auto
        then show ?thesis
          unfolding step using False m'(1) by (auto intro!: sdec_progress_goto simp: sdec_rank_def)
      qed
    qed
  qed
qed

section \<open>The decompressor\<close>

lemma sdec_step_progress:
  "sdec_inv c e m0 l s \<Longrightarrow> sdec_progress c e m0 (sdec_rank e l s) (sdec_step c e l s)"
  by (cases l) (simp_all add: sdec_top_progress sdec_first_literal_run_progress sdec_match_progress
      sdec_match_done_progress sdec_match_next_progress)

interpretation sdec: label_machine "sdec_step c e" "sdec_inv c e m0" "sdec_rank e" "sdec_post c e m0"
  for c e m0
  using sdec_step_progress by unfold_locales (auto simp: sdec_progress_def)

lemma lzo1x_decompress_safe_post:
  assumes "env_ok c e m"
  shows "\<exists>r s. lzo1x_decompress_safe c e m = Some (Some (r, s)) \<and> sdec_post c e m r s"
  using sdec_start_progress [OF assms] sdec.run_returns
  by (auto simp: sdec_progress_def lzo1x_decompress_safe_def)

lemma rest_0: "rest e m 0 = take (in_len e) (m In)"
  by (simp add: rest_def)

text \<open>A proper stream that fits is accepted, and what is produced is the text it stands for.\<close>

lemma lzo1x_decompress_safe_stream:
  assumes "env_ok c e m" "lzo_stream (take (in_len e) (m In)) out"
    and "length out \<le> out_cap e" "length out \<le> 2 ^ uint_bits c - 511"
  shows "\<exists>s. lzo1x_decompress_safe c e m = Some (Some (LZO_E_OK, s)) \<and> d_ip s = in_len e \<and>
    d_op s = length out \<and> take (d_op s) (d_mem s Out) = out \<and> frame e m (d_mem s)"
proof -
  have big: "1 \<le> (2::nat) ^ uint_bits c - 511" using env_okD(6) [OF assms(1)] by linarith
  have reach: "fmt_steps (fmt_start e m) (F_eof 1, [], out)"
    using assms(2) by (simp add: lzo_stream_def rest_0)
  then have "sdec_viable c e (fmt_start e m)" using assms(3,4) big by (auto simp: fmt_viable_def)
  with lzo1x_decompress_safe_post [OF assms(1)] obtain s l where
    s: "lzo1x_decompress_safe c e m = Some (Some (LZO_E_OK, s))" "d_ip s = in_len e"
      "frame e m (d_mem s)" "d_op s \<le> out_cap e"
      "fmt_steps (fmt_start e m) (F_eof l, [], take (d_op s) (d_mem s Out))"
    by (auto simp: sdec_post_def)
  have "fmt_steps (F_eof l, [], take (d_op s) (d_mem s Out)) (F_eof 1, [], out)"
    by (rule fmt_steps_det [OF s(5) reach])
  then have "take (d_op s) (d_mem s Out) = out"
    by (auto elim: converse_rtranclpE fmt_step_at_eofE)
  moreover have "length (take (d_op s) (d_mem s Out)) = d_op s"
    using s(4) env_okD(2) [OF frame_env [OF assms(1) s(3)]] by simp
  ultimately show ?thesis using s by auto
qed

section \<open>An example stream\<close>

definition demo_stream :: "u8 list" where
  "demo_stream = [21, 97, 98, 99, 100, 76, 0, 17, 0, 0]"

definition demo_text :: "u8 list" where
  "demo_text = [97, 98, 99, 100, 97, 98, 99]"

definition demo_env :: lzo_env where
  "demo_env = \<lparr> in_len = 10, out_cap = 8, in_addr = 4096, out_addr = 8192 \<rparr>"

definition demo_mem :: "region mem" where
  "demo_mem r = (case r of In \<Rightarrow> demo_stream | Out \<Rightarrow> replicate 9 0)"

lemma demo_stream_ok: "lzo_stream demo_stream demo_text"
proof -
  have "fmt_steps (F_start, demo_stream, []) (F_lit, [76, 0, 17, 0, 0], [97, 98, 99, 100])"
    using fmt_step.start_lit [of 4 21 "[97, 98, 99, 100, 76, 0, 17, 0, 0]" "[]"]
    by (simp add: demo_stream_def r_into_rtranclp)
  also have "fmt_steps \<dots> (F_after 0, [17, 0, 0], demo_text)"
    using fmt_step.copy [of F_lit "[76, 0, 17, 0, 0]" 4 3 0 "[17, 0, 0]" "[97, 98, 99, 100]"]
    by (simp add: demo_text_def r_into_rtranclp fmt_m2_def numeral_3_eq_3)
  also have "fmt_steps \<dots> (F_top, [17, 0, 0], demo_text)" using fmt_step.after_none by blast
  also have "fmt_steps \<dots> (F_eof 1, [], demo_text)"
    using fmt_step.eof [of F_top "[17, 0, 0]" 1 "[]" demo_text]
    by (simp add: r_into_rtranclp fmt_m4_def fmt_len_def)
  finally show ?thesis by (simp add: lzo_stream_def)
qed

lemma demo_env_ok:
  "env_ok cfg_amd64 demo_env demo_mem" "env_ok cfg_bytewise32 demo_env demo_mem"
  using cfg_ok_builds
  by (simp_all add: env_ok_def demo_env_def demo_mem_def demo_stream_def)
    (simp_all add: cfg_amd64_def cfg_bytewise32_def)

lemma demo_input: "take (in_len demo_env) (demo_mem In) = demo_stream"
  by (simp add: demo_env_def demo_mem_def demo_stream_def)

lemma demo_sizes:
  "length demo_text = 7" "out_cap demo_env = 8" "uint_bits cfg_amd64 = 64" "uint_bits cfg_bytewise32 = 32"
  by (simp_all add: demo_text_def demo_env_def cfg_amd64_def cfg_bytewise32_def)

lemma demo_run:
  "\<exists>s. lzo1x_decompress_safe cfg_amd64 demo_env demo_mem = Some (Some (LZO_E_OK, s))"
  "\<exists>s. lzo1x_decompress_safe cfg_bytewise32 demo_env demo_mem = Some (Some (LZO_E_OK, s))"
  using lzo1x_decompress_safe_stream [OF demo_env_ok(1), of demo_text]
    lzo1x_decompress_safe_stream [OF demo_env_ok(2), of demo_text] demo_stream_ok
  by (auto simp: demo_input demo_sizes)

section \<open>Properties of the safe decompressor\<close>

text \<open>
  C1. Memory safety and termination of \<^verbatim>\<open>lzo1x_decompress_safe\<close>: on any input whatever, with
  buffers of the announced lengths, it returns one of its five codes without an access
  outside the buffers, leaves the input and the output beyond \<^verbatim>\<open>*out_len\<close> as they were, and
  reports at most \<^verbatim>\<open>*out_len\<close> bytes.
\<close>

theorem decompress_safe_memory_safe:
  assumes "env_ok c e m"
  shows "\<exists>r s. lzo1x_decompress_safe c e m = Some (Some (r, s)) \<and>
    r \<in> {LZO_E_OK, LZO_E_INPUT_OVERRUN, LZO_E_OUTPUT_OVERRUN, LZO_E_LOOKBEHIND_OVERRUN,
      LZO_E_INPUT_NOT_CONSUMED} \<and>
    d_op s \<le> out_cap e \<and> d_mem s In = m In \<and> length (d_mem s Out) = length (m Out) \<and>
    drop (out_cap e) (d_mem s Out) = drop (out_cap e) (m Out)"
  using lzo1x_decompress_safe_post [OF assms] by (auto simp: sdec_post_def frame_def)

theorem decompress_safe_memory_safe_witness:
  "\<exists>r s. lzo1x_decompress_safe cfg_amd64 demo_env demo_mem = Some (Some (r, s)) \<and> d_op s \<le> 8 \<and>
     drop 8 (d_mem s Out) = [0]"
  using decompress_safe_memory_safe [OF demo_env_ok(1)]
  by (auto simp: demo_env_def demo_mem_def)

text \<open>
  C2. Soundness of \<^verbatim>\<open>lzo1x_decompress_safe\<close> for the stream format: when it returns
  \<^verbatim>\<open>LZO_E_OK\<close>, the whole input is one LZO1X stream and the output is the text it stands for.
\<close>

theorem decompress_safe_sound:
  assumes "env_ok c e m" "lzo1x_decompress_safe c e m = Some (Some (LZO_E_OK, s))"
  shows "lzo_decodes (take (in_len e) (m In)) (take (d_op s) (d_mem s Out))"
  using lzo1x_decompress_safe_post [OF assms(1)] assms(2)
  by (auto simp: sdec_post_def lzo_decodes_def rest_0)

theorem decompress_safe_sound_witness:
  "\<exists>s. lzo1x_decompress_safe cfg_amd64 demo_env demo_mem = Some (Some (LZO_E_OK, s)) \<and>
     lzo_decodes demo_stream (take (d_op s) (d_mem s Out))"
  using decompress_safe_sound [OF demo_env_ok(1)] demo_run(1) by (auto simp: demo_input)

text \<open>
  C3. Completeness of \<^verbatim>\<open>lzo1x_decompress_safe\<close>: a proper stream whose text fits the output
  buffer is accepted with \<^verbatim>\<open>LZO_E_OK\<close>, the reported length is the length of the text, and
  the output buffer starts with the text. The bound on the length is that of the overflow
  tests \<^verbatim>\<open>TEST_IV\<close> and \<^verbatim>\<open>TEST_OV\<close>.
\<close>

theorem decompress_safe_complete:
  assumes "env_ok c e m" "lzo_stream (take (in_len e) (m In)) out"
    and "length out \<le> out_cap e" "length out \<le> 2 ^ uint_bits c - 511"
  shows "\<exists>s. lzo1x_decompress_safe c e m = Some (Some (LZO_E_OK, s)) \<and>
    d_op s = length out \<and> take (d_op s) (d_mem s Out) = out"
  using lzo1x_decompress_safe_stream [OF assms] by blast

theorem decompress_safe_complete_witness:
  "\<exists>s. lzo1x_decompress_safe cfg_bytewise32 demo_env demo_mem = Some (Some (LZO_E_OK, s)) \<and>
     d_op s = 7 \<and> take 7 (d_mem s Out) = demo_text"
  using decompress_safe_complete [OF demo_env_ok(2), of demo_text] demo_stream_ok
  by (auto simp: demo_input demo_sizes)

text \<open>
  The text does not depend on the build: two builds of the library, on machines of
  whatever byte order and word size, that both accept a stream produce the same bytes.
\<close>

lemma decompress_safe_build_independent:
  assumes "env_ok c e m" "lzo1x_decompress_safe c e m = Some (Some (LZO_E_OK, s))"
    and "env_ok c' e' m'" "lzo1x_decompress_safe c' e' m' = Some (Some (LZO_E_OK, s'))"
    and "take (in_len e) (m In) = take (in_len e') (m' In)"
  shows "d_op s = d_op s' \<and> take (d_op s) (d_mem s Out) = take (d_op s') (d_mem s' Out)"
proof -
  obtain l where l: "fmt_steps (fmt_start e m) (F_eof l, [], take (d_op s) (d_mem s Out))"
      "frame e m (d_mem s)" "d_op s \<le> out_cap e"
    using lzo1x_decompress_safe_post [OF assms(1)] assms(2) by (auto simp: sdec_post_def)
  obtain l' where l': "fmt_steps (fmt_start e m) (F_eof l', [], take (d_op s') (d_mem s' Out))"
      "frame e' m' (d_mem s')" "d_op s' \<le> out_cap e'"
    using lzo1x_decompress_safe_post [OF assms(3)] assms(4,5) by (auto simp: sdec_post_def rest_0)
  have eq: "take (d_op s) (d_mem s Out) = take (d_op s') (d_mem s' Out)"
    using fmt_steps_det [OF l(1) l'(1)] by (auto elim: converse_rtranclpE fmt_step_at_eofE)
  have "length (take (d_op s) (d_mem s Out)) = d_op s" "length (take (d_op s') (d_mem s' Out)) = d_op s'"
    using l(2,3) l'(2,3) env_okD(2) [OF frame_env [OF assms(1) l(2)]]
      env_okD(2) [OF frame_env [OF assms(3) l'(2)]] by simp_all
  with eq show ?thesis by metis
qed

end
