(* ===== verification/Lzo_Decompress.thy ===== *)
theory Lzo_Decompress
  imports Lzo_Safe_Correct
begin

text \<open>
  \<^verbatim>\<open>lzo1x_decompress\<close>: the decompressor compiled without overrun tests, where
  \<^verbatim>\<open>NEED_IP\<close>, \<^verbatim>\<open>NEED_OP\<close>, \<^verbatim>\<open>TEST_IV\<close>, \<^verbatim>\<open>TEST_OV\<close> and \<^verbatim>\<open>TEST_LB\<close> are
  \<^verbatim>\<open>((void) 0)\<close>. Nothing stops it at the end of a buffer: a bad stream is undefined behaviour.
  The theory shows that on every stream the safe decompressor accepts it does the same.
\<close>

section \<open>The labels\<close>

text \<open>\<^verbatim>\<open>while (*ip == 0) { t += 255; ip++; }\<close>\<close>

function dec_zeros :: "lzo_cfg \<Rightarrow> region mem \<Rightarrow> nat \<Rightarrow> nat \<Rightarrow> (nat \<times> nat) option" where
  "dec_zeros c m ip t =
     (if ip < length (m In) then
        if m In ! ip = 0 then dec_zeros c m (ip + 1) (uw (uint_bits c) (t + 255))
        else Some (ip, t)
      else None)"
  by pat_completeness auto
termination
  by (relation "measure (\<lambda>(c, m, ip, t). length (m In) - ip)") auto

declare dec_zeros.simps [simp del]

text \<open>\<^verbatim>\<open>if (t == 0) { zeros; t += base + *ip++; }\<close>\<close>

definition dec_length :: "lzo_cfg \<Rightarrow> nat \<Rightarrow> region mem \<Rightarrow> nat \<Rightarrow> nat \<Rightarrow> (nat \<times> nat) option" where
  "dec_length c base m ip t =
     (if t = 0 then do {
        (ip, t) \<leftarrow> dec_zeros c m ip t;
        b \<leftarrow> rd m (In, ip);
        Some (ip + 1, uw (uint_bits c) (t + base + unat b)) }
      else Some (ip, t))"

definition dec_start :: "lzo_cfg \<Rightarrow> region mem \<Rightarrow> d_result option" where
  "dec_start c m = do {
     let s = \<lparr> d_mem = m, d_ip = 0, d_op = 0, d_t = 0 \<rparr>;
     b \<leftarrow> rd m (In, 0);
     (if unat b > 17 then
        let t = unat b - 17; s = s\<lparr> d_ip := 1, d_t := t \<rparr> in
        if t < 4 then Some (Goto L_match_next s)
        else do {
          let n = do_while_count (uint_bits c) t;
          m \<leftarrow> mv m (Out, 0) (In, 1) n;
          Some (Goto L_first_literal_run (s\<lparr> d_mem := m, d_ip := 1 + n, d_op := n, d_t := 0 \<rparr>)) }
      else Some (Goto L_top s)) }"

definition dec_top :: "lzo_cfg \<Rightarrow> lzo_env \<Rightarrow> d_state \<Rightarrow> d_result option" where
  "dec_top c e s = do {
     b \<leftarrow> rd (d_mem s) (In, d_ip s);
     let t = unat b;
     (if t \<ge> 16 then Some (Goto L_match (s\<lparr> d_ip := d_ip s + 1, d_t := t \<rparr>))
      else do {
        (ip, t) \<leftarrow> dec_length c 15 (d_mem s) (d_ip s + 1) t;
        (m, op, ip) \<leftarrow> copy_literals c e (d_mem s) (d_op s) ip t;
        Some (Goto L_first_literal_run (s\<lparr> d_mem := m, d_ip := ip, d_op := op, d_t := 0 \<rparr>)) }) }"

definition dec_first_literal_run :: "d_state \<Rightarrow> d_result option" where
  "dec_first_literal_run s = do {
     b \<leftarrow> rd (d_mem s) (In, d_ip s);
     let t = unat b;
     let s = s\<lparr> d_ip := d_ip s + 1, d_t := t \<rparr>;
     (if t \<ge> 16 then Some (Goto L_match s)
      else do {
        b \<leftarrow> rd (d_mem s) (In, d_ip s);
        let m_pos = int (d_op s) - (1 + int M2_MAX_OFFSET) - int (t div 4) - int (unat b * 4);
        let s = s\<lparr> d_ip := d_ip s + 1 \<rparr>;
        p \<leftarrow> out_ptr m_pos;
        m \<leftarrow> mv (d_mem s) (Out, d_op s) p 3;
        Some (Goto L_match_done (s\<lparr> d_mem := m, d_op := d_op s + 3 \<rparr>)) }) }"

definition dec_match_m2 :: "lzo_cfg \<Rightarrow> d_state \<Rightarrow> d_result option" where
  "dec_match_m2 c s = do {
     b \<leftarrow> rd (d_mem s) (In, d_ip s);
     let m_pos = int (d_op s) - 1 - int ((d_t s div 4) mod 8) - int (unat b * 8);
     let s = s\<lparr> d_ip := d_ip s + 1, d_t := d_t s div 32 - 1 \<rparr>;
     (m, op) \<leftarrow> copy_match c (d_mem s) (d_op s) m_pos (d_t s);
     Some (Goto L_match_done (s\<lparr> d_mem := m, d_op := op, d_t := 0 \<rparr>)) }"

definition dec_match_copy :: "lzo_cfg \<Rightarrow> lzo_env \<Rightarrow> d_state \<Rightarrow> int \<Rightarrow> d_result option" where
  "dec_match_copy c e s m_pos = do {
     (m, op) \<leftarrow> copy_match_fast c e (d_mem s) (d_op s) m_pos (d_t s);
     Some (Goto L_match_done (s\<lparr> d_mem := m, d_op := op, d_t := 0 \<rparr>)) }"

definition dec_match_m3 :: "lzo_cfg \<Rightarrow> lzo_env \<Rightarrow> d_state \<Rightarrow> d_result option" where
  "dec_match_m3 c e s = do {
     (ip, t) \<leftarrow> dec_length c 31 (d_mem s) (d_ip s) (d_t s mod 32);
     off \<leftarrow> get_off14 c (d_mem s) ip;
     dec_match_copy c e (s\<lparr> d_ip := ip + 2, d_t := t \<rparr>) (int (d_op s) - 1 - int off) }"

definition dec_match_m4 :: "lzo_cfg \<Rightarrow> lzo_env \<Rightarrow> d_state \<Rightarrow> d_result option" where
  "dec_match_m4 c e s = do {
     let m_pos = int (d_op s) - int ((d_t s div 8 mod 2) * 8 * 2048);
     (ip, t) \<leftarrow> dec_length c 7 (d_mem s) (d_ip s) (d_t s mod 8);
     off \<leftarrow> get_off14 c (d_mem s) ip;
     let m_pos = m_pos - int off;
     let s = s\<lparr> d_ip := ip + 2, d_t := t \<rparr>;
     (if m_pos = int (d_op s) then Some (eof_found e s)
      else dec_match_copy c e s (m_pos - 0x4000)) }"

definition dec_match_m1 :: "d_state \<Rightarrow> d_result option" where
  "dec_match_m1 s = do {
     b \<leftarrow> rd (d_mem s) (In, d_ip s);
     let m_pos = int (d_op s) - 1 - int (d_t s div 4) - int (unat b * 4);
     let s = s\<lparr> d_ip := d_ip s + 1 \<rparr>;
     p \<leftarrow> out_ptr m_pos;
     m \<leftarrow> mv (d_mem s) (Out, d_op s) p 2;
     Some (Goto L_match_done (s\<lparr> d_mem := m, d_op := d_op s + 2 \<rparr>)) }"

definition dec_match :: "lzo_cfg \<Rightarrow> lzo_env \<Rightarrow> d_state \<Rightarrow> d_result option" where
  "dec_match c e s =
     (if d_t s \<ge> 64 then dec_match_m2 c s
      else if d_t s \<ge> 32 then dec_match_m3 c e s
      else if d_t s \<ge> 16 then dec_match_m4 c e s
      else dec_match_m1 s)"

definition dec_match_done :: "d_state \<Rightarrow> d_result option" where
  "dec_match_done s =
     (if d_ip s < 2 then None
      else do {
        b \<leftarrow> rd (d_mem s) (In, d_ip s - 2);
        let t = unat b mod 4;
        (if t = 0 then Some (Goto L_top (s\<lparr> d_t := t \<rparr>))
         else Some (Goto L_match_next (s\<lparr> d_t := t \<rparr>))) })"

definition dec_match_next :: "d_state \<Rightarrow> d_result option" where
  "dec_match_next s = do {
     let t = d_t s;
     let n = (if t > 1 then (if t > 2 then 3 else 2) else 1);
     m \<leftarrow> mv (d_mem s) (Out, d_op s) (In, d_ip s) n;
     b \<leftarrow> rd m (In, d_ip s + n);
     Some (Goto L_match (s\<lparr> d_mem := m, d_ip := d_ip s + n + 1, d_op := d_op s + n, d_t := unat b \<rparr>)) }"

fun dec_step :: "lzo_cfg \<Rightarrow> lzo_env \<Rightarrow> d_label \<Rightarrow> d_state \<Rightarrow> d_result option" where
  "dec_step c e L_top s = dec_top c e s"
| "dec_step c e L_first_literal_run s = dec_first_literal_run s"
| "dec_step c e L_match s = dec_match c e s"
| "dec_step c e L_match_done s = dec_match_done s"
| "dec_step c e L_match_next s = dec_match_next s"

text \<open>The function; of the lengths it reads only \<^verbatim>\<open>in_len\<close>, at \<^verbatim>\<open>eof_found\<close>.\<close>

definition lzo1x_decompress :: "lzo_cfg \<Rightarrow> lzo_env \<Rightarrow> region mem \<Rightarrow> (int \<times> d_state) option option" where
  "lzo1x_decompress c e m = d_enter (dec_step c e) (dec_start c m)"

section \<open>Whatever the safe decompressor does without an overrun\<close>

text \<open>The return codes that do not come from an overrun test.\<close>

definition no_overrun :: "int \<Rightarrow> bool" where
  "no_overrun r \<longleftrightarrow> r \<notin> {LZO_E_INPUT_OVERRUN, LZO_E_OUTPUT_OVERRUN, LZO_E_LOOKBEHIND_OVERRUN}"

text \<open>\<open>y\<close> does what \<open>x\<close> does, unless \<open>x\<close> returns from an overrun test.\<close>

definition agrees :: "d_result option \<Rightarrow> d_result option \<Rightarrow> bool" where
  "agrees x y \<longleftrightarrow> (\<forall>l s. x = Some (Goto l s) \<longrightarrow> y = x) \<and> (\<forall>r s. x = Some (Return r s) \<longrightarrow> no_overrun r \<longrightarrow> y = x)"

lemma agrees_refl [simp, intro]: "agrees x x"
  by (simp add: agrees_def)

lemma agrees_overrun [simp]:
  "agrees (Some (Return LZO_E_INPUT_OVERRUN s)) y" "agrees (Some (Return LZO_E_OUTPUT_OVERRUN s)) y"
  "agrees (Some (Return LZO_E_LOOKBEHIND_OVERRUN s)) y" "agrees None y"
  by (simp_all add: agrees_def no_overrun_def)

lemma agrees_bind: "(\<And>v. x = Some v \<Longrightarrow> agrees (f v) (g v)) \<Longrightarrow> agrees (x \<bind> f) (x \<bind> g)"
  by (cases x) auto

lemma dec_zeros_safe:
  "sdec_zeros c e test code m ip t = Some (Inr (ip', t')) \<Longrightarrow> dec_zeros c m ip t = Some (ip', t')"
proof (induction c e test code m ip t rule: sdec_zeros.induct)
  case (1 c e test code m ip t)
  then show ?case
    by (subst dec_zeros.simps, subst (asm) (2) sdec_zeros.simps) (auto simp: Let_def split: if_splits)
qed

lemma sdec_zeros_code:
  "sdec_zeros c e test code m ip t = Some (Inl r) \<Longrightarrow> r = code \<or> r = LZO_E_INPUT_OVERRUN"
proof (induction c e test code m ip t rule: sdec_zeros.induct)
  case (1 c e test code m ip t)
  then show ?case
    by (subst (asm) (2) sdec_zeros.simps) (auto simp: Let_def split: if_splits)
qed

lemma agrees_length:
  assumes "code \<in> {LZO_E_INPUT_OVERRUN, LZO_E_OUTPUT_OVERRUN}"
    and "\<And>ip t. agrees (f ip t) (g ip t)"
  shows "agrees (do { z \<leftarrow> sdec_length c e test code base need m ip t;
      (case z of Inl r \<Rightarrow> Some (Return r s) | Inr (ip, t) \<Rightarrow> f ip t) })
    (do { (ip, t) \<leftarrow> dec_length c base m ip t; g ip t })"
proof (cases "t = 0")
  case True
  show ?thesis
  proof (cases "sdec_zeros c e test code m ip t")
    case None
    then show ?thesis using True by (simp add: sdec_length_def)
  next
    case (Some z)
    then show ?thesis
      using True assms sdec_zeros_code [of c e test code m ip t] dec_zeros_safe [of c e test code m ip t]
      by (cases z) (auto simp: sdec_length_def dec_length_def intro!: agrees_bind)
  qed
next
  case False
  then show ?thesis using assms(2) by (simp add: sdec_length_def dec_length_def)
qed

lemma agrees_match_copy: "agrees (sdec_match_copy c e s p) (dec_match_copy c e s p)"
  by (auto simp: sdec_match_copy_def dec_match_copy_def)

lemma dec_match_agrees: "agrees (sdec_match c e s) (dec_match c e s)"
proof -
  have "agrees (sdec_match_m2 c e s) (dec_match_m2 c s)"
    by (auto simp: sdec_match_m2_def dec_match_m2_def Let_def intro!: agrees_bind)
  moreover have "agrees (sdec_match_m3 c e s) (dec_match_m3 c e s)"
    unfolding sdec_match_m3_def dec_match_m3_def
    by (rule agrees_length) (auto intro!: agrees_bind agrees_match_copy)
  moreover have "agrees (sdec_match_m4 c e s) (dec_match_m4 c e s)"
    unfolding sdec_match_m4_def dec_match_m4_def Let_def
    by (rule agrees_length) (auto intro!: agrees_bind agrees_match_copy)
  moreover have "agrees (sdec_match_m1 c e s) (dec_match_m1 s)"
    by (auto simp: sdec_match_m1_def dec_match_m1_def Let_def intro!: agrees_bind)
  ultimately show ?thesis by (simp add: sdec_match_def dec_match_def)
qed

lemma dec_top_agrees: "agrees (sdec_top c e s) (dec_top c e s)"
  unfolding sdec_top_def dec_top_def Let_def
  by (auto intro!: agrees_bind agrees_length)

lemma dec_step_agrees: "agrees (sdec_step c e l s) (dec_step c e l s)"
proof (cases l)
  case L_first_literal_run
  then show ?thesis
    by (auto simp: sdec_first_literal_run_def dec_first_literal_run_def Let_def intro!: agrees_bind)
next
  case L_match_done
  then show ?thesis by (simp add: sdec_match_done_def dec_match_done_def)
next
  case L_match_next
  then show ?thesis by (auto simp: sdec_match_next_def dec_match_next_def Let_def)
qed (simp_all add: dec_top_agrees dec_match_agrees)

lemma dec_start_agrees: "agrees (sdec_start c e m) (dec_start c m)"
  by (auto simp: sdec_start_def dec_start_def Let_def intro!: agrees_bind)

interpretation dec: machine_simulation "sdec_step c e" "dec_step c e" no_overrun for c e
  using dec_step_agrees by unfold_locales (auto simp: agrees_def)

lemma lzo1x_decompress_same:
  assumes "lzo1x_decompress_safe c e m = Some (Some (r, s))" "no_overrun r"
  shows "lzo1x_decompress c e m = Some (Some (r, s))"
proof -
  have "agrees (sdec_start c e m) (dec_start c m)" by (rule dec_start_agrees)
  then show ?thesis
    using assms dec.same_run unfolding lzo1x_decompress_def lzo1x_decompress_safe_def
    by (auto simp: d_enter_def agrees_def split: option.splits d_result.splits)
qed

section \<open>Properties of the decompressor without tests\<close>

text \<open>
  C4. The two decompressors agree: whenever the safe one returns with a code other than an
  overrun, the one without tests returns the same code, the same length and the same memory.
\<close>

theorem decompress_agrees_with_safe:
  assumes "lzo1x_decompress_safe c e m = Some (Some (r, s))"
    and "r \<notin> {LZO_E_INPUT_OVERRUN, LZO_E_OUTPUT_OVERRUN, LZO_E_LOOKBEHIND_OVERRUN}"
  shows "lzo1x_decompress c e m = Some (Some (r, s))"
  using lzo1x_decompress_same [OF assms(1)] assms(2) by (simp add: no_overrun_def)

theorem decompress_agrees_with_safe_witness:
  "\<exists>s. lzo1x_decompress_safe cfg_amd64 demo_env demo_mem = Some (Some (LZO_E_OK, s)) \<and>
     lzo1x_decompress cfg_amd64 demo_env demo_mem = Some (Some (LZO_E_OK, s))"
  using demo_run(1) decompress_agrees_with_safe [of cfg_amd64 demo_env demo_mem LZO_E_OK] by auto

text \<open>
  Without tests, a proper stream whose text fits the buffers is still decoded: the
  function returns \<^verbatim>\<open>LZO_E_OK\<close>, touches nothing outside the buffers, and the output is the
  text of the stream.
\<close>

lemma decompress_complete:
  assumes "env_ok c e m" "lzo_stream (take (in_len e) (m In)) out"
    and "length out \<le> out_cap e" "length out \<le> 2 ^ uint_bits c - 511"
  shows "\<exists>s. lzo1x_decompress c e m = Some (Some (LZO_E_OK, s)) \<and>
    d_op s = length out \<and> take (d_op s) (d_mem s Out) = out \<and>
    d_mem s In = m In \<and> drop (out_cap e) (d_mem s Out) = drop (out_cap e) (m Out)"
  using lzo1x_decompress_safe_stream [OF assms] lzo1x_decompress_same
  by (fastforce simp: no_overrun_def frame_def)

end
