(* ===== verification/Lzo_Compress_Correct.thy ===== *)
theory Lzo_Compress_Correct
  imports Lzo_Ref Lzo_Decompress
begin

text \<open>
  \<^verbatim>\<open>lzo1x_1_compress\<close> refines the reference compressor: for every build, the output buffer
  starts with the reference stream, the input is unchanged and no access leaves the buffers.
  With the correctness of the reference and of the decompressors this gives the round trip.
\<close>

section \<open>Writers\<close>

text \<open>The output buffer of \<open>cap\<close> bytes starts with \<open>bs\<close>; the input is \<open>xs\<close>.\<close>

definition rep :: "u8 list \<Rightarrow> nat \<Rightarrow> region mem \<Rightarrow> nat \<Rightarrow> u8 list \<Rightarrow> bool" where
  "rep xs cap m op bs \<longleftrightarrow> m In = xs \<and> length (m Out) = cap \<and> op = length bs \<and> op \<le> cap \<and>
     take op (m Out) = bs"

text \<open>
  A routine appends \<open>ds\<close> to the output, given 16 bytes of room beyond them for copies that
  write more than they keep.
\<close>

definition emits :: "u8 list \<Rightarrow> (region mem \<Rightarrow> nat \<Rightarrow> (region mem \<times> nat) option) \<Rightarrow> u8 list \<Rightarrow> bool" where
  "emits xs f ds \<longleftrightarrow> (\<forall>cap m op bs. rep xs cap m op bs \<longrightarrow> op + length ds + 16 \<le> cap \<longrightarrow>
     (\<exists>m'. f m op = Some (m', op + length ds) \<and> rep xs cap m' (op + length ds) (bs @ ds)))"

lemma emitsD:
  assumes "emits xs f ds" "rep xs cap m op bs" "op + length ds + 16 \<le> cap"
  obtains m' where "f m op = Some (m', op + length ds)" "rep xs cap m' (op + length ds) (bs @ ds)"
  using assms unfolding emits_def by blast

lemma emits_bind:
  assumes "emits xs f as" "emits xs g bs"
  shows "emits xs (\<lambda>m op. do { (m, op) \<leftarrow> f m op; g m op }) (as @ bs)"
  unfolding emits_def
proof (intro allI impI)
  fix cap m op cs
  assume r: "rep xs cap m op cs" and room: "op + length (as @ bs) + 16 \<le> cap"
  obtain m1 where m1: "f m op = Some (m1, op + length as)" "rep xs cap m1 (op + length as) (cs @ as)"
    using emitsD [OF assms(1) r] room by auto
  obtain m2 where "g m1 (op + length as) = Some (m2, op + length as + length bs)"
    "rep xs cap m2 (op + length as + length bs) ((cs @ as) @ bs)"
    using emitsD [OF assms(2) m1(2)] room by (auto simp: add.assoc)
  then show "\<exists>m'. do { (m, op) \<leftarrow> f m op; g m op } = Some (m', op + length (as @ bs)) \<and>
      rep xs cap m' (op + length (as @ bs)) (cs @ as @ bs)"
    using m1(1) by (simp add: add.assoc)
qed

lemma emits_put: "emits xs (\<lambda>m op. c_put m op x) [LZO_BYTE x]"
  unfolding emits_def rep_def c_put_def by (auto simp: take_Suc_conv_app_nth)

lemma emits_nil: "emits xs (\<lambda>m op. Some (m, op)) []"
  by (auto simp: emits_def)

lemma emits_cong: "emits xs f as \<Longrightarrow> (\<And>m op. f m op = g m op) \<Longrightarrow> as = bs \<Longrightarrow> emits xs g bs"
  by (simp add: emits_def)

lemma c_long_len_step:
  "255 < n \<Longrightarrow> c_long_len m op n = do { (m, op) \<leftarrow> c_put m op 0; c_long_len m op (n - 255) }"
  by (simp add: c_long_len_def c_zeros.simps [of m op n] LZO_MEMOPS_SET1_def c_put_def split: Option.bind_split)

lemma emits_long: "emits xs (\<lambda>m op. c_long_len m op n) (long_bytes n)"
proof (induction n rule: long_bytes.induct)
  case (1 n)
  show ?case
  proof (cases "255 < n")
    case True
    have "emits xs (\<lambda>m op. do { (m, op) \<leftarrow> c_put m op 0; c_long_len m op (n - 255) })
        ([LZO_BYTE 0] @ long_bytes (n - 255))"
      using 1 True by (intro emits_bind emits_put) simp
    then show ?thesis
      by (rule emits_cong) (simp_all add: c_long_len_step [OF True] long_bytes.simps [of n] True LZO_BYTE_def)
  next
    case False
    show ?thesis
      by (rule emits_cong [OF emits_put [of xs n]])
        (simp_all add: c_long_len_def c_zeros.simps long_bytes.simps [of n] False)
  qed
qed

lemma emits_run_len: "emits xs (\<lambda>m op. c_run_len m op t) (run_bytes t)"
proof (cases "t \<le> 18")
  case True
  then show ?thesis using emits_put by (simp add: c_run_len_def run_bytes_def)
next
  case False
  have "emits xs (\<lambda>m op. do { (m, op) \<leftarrow> c_put m op 0; c_long_len m op (t - 18) })
      ([LZO_BYTE 0] @ long_bytes (t - 18))"
    by (intro emits_bind emits_put emits_long)
  then show ?thesis using False by (simp add: c_run_len_def run_bytes_def LZO_BYTE_def)
qed

section \<open>Matches\<close>

lemma or_add: "b < 2 ^ k \<Longrightarrow> a * 2 ^ k OR b = a * 2 ^ k + (b :: nat)"
proof -
  assume b: "b < 2 ^ k"
  have "a * 2 ^ k AND b = 0"
  proof (rule bit_eqI)
    fix n
    have "\<not> bit b n" if "k \<le> n"
      using b that by (metis bit_take_bit_iff take_bit_nat_eq_self not_le)
    then show "bit (a * 2 ^ k AND b) n \<longleftrightarrow> bit (0 :: nat) n"
      by (auto simp: bit_simps push_bit_eq_mult [symmetric])
  qed
  then show ?thesis by (simp add: disjunctive_add_eq_or)
qed

lemma and_power: "x AND 2 ^ n = (if bit x n then 2 ^ n else (0 :: nat))"
  by (auto intro!: bit_eqI simp: bit_simps)

lemma and_8: "x AND 8 = x div 8 mod 2 * (8 :: nat)"
  using and_power [of x 3] by (auto simp: bit_iff_odd mod_2_eq_odd)

lemma emits_off: "emits xs (\<lambda>m op. c_emit_off m op off) (off_bytes off)"
  unfolding c_emit_off_def off_bytes_def
  using emits_bind [OF emits_put [of xs "off * 4"] emits_put [of xs "off div 64"]] by simp

lemma emits_m2:
  assumes "len \<le> 8" "0 < off" "off \<le> 0x800"
  shows "emits xs (\<lambda>m op. c_emit_m2 m op len off)
    [LZO_BYTE ((len - 1) * 32 + (off - 1) mod 8 * 4), LZO_BYTE ((off - 1) div 8)]"
proof -
  have "(off - 1) mod 8 < 8" by simp
  then have "(off - 1) mod 8 * 4 < 2 ^ 5" by simp
  from or_add [OF this, of "len - 1"] have "((len - 1) * 32) OR ((off - 1) mod 8 * 4) = (len - 1) * 32 + (off - 1) mod 8 * 4"
    by simp
  then show ?thesis
    unfolding c_emit_m2_def Let_def
    using emits_bind [OF emits_put [of xs "(len - 1) * 32 + (off - 1) mod 8 * 4"] emits_put [of xs "(off - 1) div 8"]]
    by simp
qed

lemma emits_m3:
  "emits xs (\<lambda>m op. c_emit_m3 m op len off)
    ((if len \<le> 33 then [LZO_BYTE (32 + (len - 2))] else 32 # long_bytes (len - 33)) @ off_bytes (off - 1))"
proof -
  have "32 OR (len - 2) = 32 + (len - 2)" if "len \<le> 33" using or_add [of "len - 2" 5 1] that by simp
  moreover have "emits xs (\<lambda>m op. do { (m, op) \<leftarrow> c_put m op 32; c_long_len m op (len - 33) })
      ([LZO_BYTE 32] @ long_bytes (len - 33))"
    by (intro emits_bind emits_put emits_long)
  ultimately have "emits xs (\<lambda>m op. if len \<le> 33 then c_put m op (32 OR (len - 2))
      else do { (m, op) \<leftarrow> c_put m op 32; c_long_len m op (len - 33) })
    (if len \<le> 33 then [LZO_BYTE (32 + (len - 2))] else 32 # long_bytes (len - 33))"
    using emits_put [of xs "32 + (len - 2)"] by (simp add: LZO_BYTE_def)
  from emits_bind [OF this emits_off [of xs "off - 1"]] show ?thesis
    unfolding c_emit_m3_def Let_def macro_defs .
qed

lemma emits_m4:
  fixes off :: nat
  defines "hi \<equiv> (off - 0x4000) div 0x4000 mod 2 * 8"
  shows "emits xs (\<lambda>m op. c_emit_m4 m op len off)
    ((if len \<le> 9 then [LZO_BYTE (16 + hi + (len - 2))] else LZO_BYTE (16 + hi) # long_bytes (len - 9)) @
     off_bytes (off - 0x4000))"
proof -
  have and_hi: "(off - 0x4000) div 2048 AND 8 = hi" by (simp add: and_8 hi_def div_mult2_eq [symmetric])
  have hi: "16 OR hi = 16 + hi" using or_add [of hi 4 1] by (simp add: hi_def)
  have "hi OR (len - 2) = hi + (len - 2)" "16 OR (hi + (len - 2)) = 16 + (hi + (len - 2))" if "len \<le> 9"
  proof -
    show "hi OR (len - 2) = hi + (len - 2)"
      using or_add [of "len - 2" 3 "(off - 0x4000) div 0x4000 mod 2"] that by (simp add: hi_def)
    have "(off - 0x4000) div 0x4000 mod 2 < 2" by simp
    then have "hi + (len - 2) < 2 ^ 4" using that unfolding hi_def by simp
    from or_add [OF this, of 1] show "16 OR (hi + (len - 2)) = 16 + (hi + (len - 2))" by simp
  qed
  then have short: "16 OR (hi OR (len - 2)) = 16 + hi + (len - 2)" if "len \<le> 9" using that by simp
  have "emits xs (\<lambda>m op. do { (m, op) \<leftarrow> c_put m op (16 + hi); c_long_len m op (len - 9) })
      ([LZO_BYTE (16 + hi)] @ long_bytes (len - 9))"
    by (intro emits_bind emits_put emits_long)
  then have "emits xs (\<lambda>m op. if len \<le> 9 then c_put m op (16 OR (hi OR (len - 2)))
      else do { (m, op) \<leftarrow> c_put m op (16 OR hi); c_long_len m op (len - 9) })
    (if len \<le> 9 then [LZO_BYTE (16 + hi + (len - 2))] else LZO_BYTE (16 + hi) # long_bytes (len - 9))"
    using emits_put [of xs "16 + hi + (len - 2)"] short by (simp add: hi)
  from emits_bind [OF this emits_off [of xs "off - 0x4000"]] show ?thesis
    unfolding c_emit_m4_def Let_def macro_defs and_hi .
qed

lemma emits_match:
  assumes "0 < off"
  shows "emits xs (\<lambda>m op. c_emit_match m op len off) (match_bytes len off)"
proof -
  consider (m2) "len \<le> 8 \<and> off \<le> 0x800" | (m3) "\<not> (len \<le> 8 \<and> off \<le> 0x800)" "off \<le> 0x4000"
    | (m4) "\<not> (len \<le> 8 \<and> off \<le> 0x800)" "\<not> off \<le> 0x4000" by blast
  then show ?thesis
  proof cases
    case m2
    then show ?thesis
      using emits_m2 assms unfolding c_emit_match_def match_bytes_def macro_defs if_P [OF m2] by simp
  next
    case m3
    then show ?thesis
      using emits_m3 unfolding c_emit_match_def match_bytes_def macro_defs if_not_P [OF m3(1)] if_P [OF m3(2)] by simp
  next
    case m4
    show ?thesis
      using emits_m4 [of xs len off] unfolding c_emit_match_def match_bytes_def macro_defs if_not_P [OF m4(1)] if_not_P [OF m4(2)] Let_def .
  qed
qed

section \<open>Literals\<close>

interpretation c16: block_copy "c_copy16 c" 16 for c
proof unfold_locales
  fix d s :: "'a ptr" and m :: "'a mem"
  assume ov: "no_overlap d s 16"
  then have "no_overlap d s 8" by (rule no_overlap_le) simp
  then show "c_copy16 c m d s = mv m d s 16"
    using mv_add [of m d s 8 8] by (simp add: c_copy16_def c8.copy_law)
qed simp

text \<open>A copy of \<open>n\<close> bytes of which \<open>t\<close> are kept.\<close>

lemma emits_copy:
  assumes "t \<le> n" "n \<le> t + 16" "ii + n \<le> length xs"
  shows "emits xs (\<lambda>m op. do { m \<leftarrow> mv m (Out, op) (In, ii) n; Some (m, op + t) }) (seg xs ii t)"
  unfolding emits_def
proof (intro allI impI)
  fix cap m op bs
  assume r: "rep xs cap m op bs" and room: "op + length (seg xs ii t) + 16 \<le> cap"
  have len: "length (seg xs ii t) = t" using assms(1,3) by (simp add: seg_props)
  let ?m = "m(Out := take op (m Out) @ take n (drop ii (m In)) @ drop (op + n) (m Out))"
  have "mv m (Out, op) (In, ii) n = Some ?m"
    using r room assms(2,3) len by (intro mv_disjoint) (auto simp: rep_def)
  moreover have "rep xs cap ?m (op + t) (bs @ seg xs ii t)"
    using r room len assms by (auto simp: rep_def seg_def min_def)
  ultimately show "\<exists>m'. do { m \<leftarrow> mv m (Out, op) (In, ii) n; Some (m, op + t) } = Some (m', op + length (seg xs ii t)) \<and>
      rep xs cap m' (op + length (seg xs ii t)) (bs @ seg xs ii t)"
    using len by simp
qed

lemma emits_run:
  assumes "4 \<le> t" "ii + t + 16 \<le> length xs"
  shows "emits xs (\<lambda>m op. c_literals c m op ii t) (run_bytes t @ seg xs ii t)"
proof -
  have copy: "emits xs (\<lambda>m op. do { m \<leftarrow> mv m (Out, op) (In, ii) t; Some (m, op + t) }) (seg xs ii t)"
    using assms(2) by (intro emits_copy) auto
  have copy16: "emits xs (\<lambda>m op. do { m \<leftarrow> mv m (Out, op) (In, ii) 16; Some (m, op + t) }) (seg xs ii t)"
    if "t \<le> 16" using that assms by (intro emits_copy) auto
  have chunks: "do { (m, d, s, t) \<leftarrow> copy_chunks (c_copy16 c) 16 m (Out, op) (In, ii) t;
      m \<leftarrow> (if t > 0 then mv m d s t else Some m); Some (m, snd d + t) } =
      do { m \<leftarrow> mv m (Out, op) (In, ii) t; Some (m, op + t) }" for m op
    using c16.chunks_rest [of "(Out, op)" "(In, ii)" c m t "\<lambda>m a. Some (m, a)"] by simp
  note run = emits_bind [OF emits_run_len copy]
  show ?thesis
  proof (cases "(opt_unaligned32 c \<or> opt_unaligned64 c) \<and> t \<le> 16")
    case True
    have "c_run_len m op t = c_put m op (t - 3)" for m op using True by (simp add: c_run_len_def)
    then show ?thesis
      using emits_bind [OF emits_run_len [of xs t] copy16] True assms(1)
      by (simp add: c_literals_def c16.copy_law [OF no_overlap_regions])
  next
    case False
    then show ?thesis
      using run assms(1) unfolding c_literals_def if_not_P [OF False] chunks by simp
  qed
qed

text \<open>One to three literals: the state bits of the last match, then the bytes.\<close>

lemma c_state_bits_eq:
  assumes "rep xs cap m op bs" "2 \<le> op" "unat (bs ! (op - 2)) mod 4 = 0" "t < 4"
  shows "\<exists>m'. c_state_bits m op t = Some m' \<and> rep xs cap m' op (set_state bs t)"
proof -
  have op: "op - 2 < length (m Out)" "op = length bs" and bs: "take op (m Out) = bs"
    using assms(1,2) by (auto simp: rep_def)
  let ?b = "bs ! (op - 2)" and ?m = "m(Out := (m Out)[op - 2 := bs ! (op - 2) + word_of_nat t])"
  have "take op (m Out) ! (op - 2) = m Out ! (op - 2)" using assms(2) by (intro nth_take) simp
  then have b: "m Out ! (op - 2) = ?b" by (simp only: bs)
  have "unat ?b = unat ?b div 4 * 2 ^ 2" using assms(3) by (simp add: mult.commute dvd_imp_mod_0 mod_eq_0_iff_dvd)
  then have "unat ?b OR t = unat ?b + t" using or_add [of t 2 "unat ?b div 4"] assms(4) by simp
  then have "LZO_BYTE (unat ?b OR t) = ?b + word_of_nat t" by (simp add: LZO_BYTE_def)
  then have "c_state_bits m op t = Some ?m" using assms(2) op(1) b by (simp add: c_state_bits_def)
  moreover have "rep xs cap ?m op (set_state bs t)"
    unfolding rep_def
  proof (intro conjI)
    show "take op (?m Out) = set_state bs t"
      using take_update_swap [of op "m Out" "op - 2"] bs op(2) by (simp add: set_state_def)
  qed (use assms(1) in \<open>auto simp: rep_def\<close>)
  ultimately show ?thesis by blast
qed

lemma c_literals_eq:
  assumes "rep xs cap m op bs" "ii + t + 16 \<le> length xs"
    and "t \<le> 3 \<Longrightarrow> 2 \<le> op \<and> unat (bs ! (op - 2)) mod 4 = 0"
    and "length (lit_bytes bs (seg xs ii t)) + 16 \<le> cap"
  shows "\<exists>m'. c_literals c m op ii t = Some (m', length (lit_bytes bs (seg xs ii t))) \<and>
    rep xs cap m' (length (lit_bytes bs (seg xs ii t))) (lit_bytes bs (seg xs ii t))"
proof -
  have len: "length (seg xs ii t) = t" and op: "op = length bs" using assms(1,2) by (simp_all add: seg_props rep_def)
  consider (none) "t = 0" | (few) "0 < t" "t \<le> 3" | (run) "4 \<le> t" by linarith
  then show ?thesis
  proof cases
    case none
    then show ?thesis using assms(1) op by (simp add: c_literals_def lit_bytes_def seg_def set_state_def)
  next
    case few
    obtain m1 where m1: "c_state_bits m op t = Some m1" "rep xs cap m1 op (set_state bs t)"
      using c_state_bits_eq [OF assms(1), of t] assms(3) few by auto
    have lit: "lit_bytes bs (seg xs ii t) = set_state bs t @ seg xs ii t" using few len by (simp add: lit_bytes_def)
    have room: "op + length (seg xs ii t) + 16 \<le> cap" using assms(4) op by (simp add: lit)
    have "emits xs (\<lambda>m op. do { m \<leftarrow> (if opt_unaligned32 c then LZO_MEMOPS_COPY4 c m (Out, op) (In, ii)
        else mv m (Out, op) (In, ii) t); Some (m, op + t) }) (seg xs ii t)"
      using emits_copy [of t 4 ii xs] emits_copy [of t t ii xs] few assms(2)
      by (cases "opt_unaligned32 c") (simp_all add: c4.copy_law del: mv.simps)
    from emitsD [OF this m1(2) room] obtain m2 where
      m2: "do { m \<leftarrow> (if opt_unaligned32 c then LZO_MEMOPS_COPY4 c m1 (Out, op) (In, ii)
          else mv m1 (Out, op) (In, ii) t); Some (m, op + t) } = Some (m2, op + t)"
        "rep xs cap m2 (op + t) (set_state bs t @ seg xs ii t)" unfolding len .
    have "c_literals c m op ii t = Some (m2, op + t)"
      using few m2(1) unfolding c_literals_def by (simp add: m1(1) del: mv.simps)
    moreover have "length (lit_bytes bs (seg xs ii t)) = op + t" unfolding lit by (simp add: len op)
    ultimately show ?thesis using m2(2) unfolding lit by simp
  next
    case run
    then have lit: "lit_bytes bs (seg xs ii t) = bs @ run_bytes t @ seg xs ii t" using len by (simp add: lit_bytes_def)
    have room: "op + length (run_bytes t @ seg xs ii t) + 16 \<le> cap" using assms(4) op by (simp add: lit)
    have "length (lit_bytes bs (seg xs ii t)) = op + length (run_bytes t @ seg xs ii t)"
      unfolding lit by (simp add: op)
    with emitsD [OF emits_run [OF run assms(2), of c] assms(1) room] show ?thesis unfolding lit by metis
  qed
qed

section \<open>The search and the loop\<close>

lemma get_le32_eq: "endian_ok c \<Longrightarrow> m In = xs \<Longrightarrow> i + 4 \<le> length xs \<Longrightarrow> UA_GET_LE32 c m (In, i) = Some (le32 xs i)"
  by (simp add: UA_GET_LE32_eq load_seg le32_def)

lemma c_next_ref:
  assumes "endian_ok c" "m In = xs" "dict_ok inb ip dict" "inb \<le> ip" "ip_end \<le> inb + 65536" "ip_end + 20 \<le> length xs"
  shows "c_next c m inb ip_end ii dict ip = Some (ref_next xs inb ip_end ii dict ip)"
  using assms
proof (induction c m inb ip_end ii dict ip rule: c_next.induct)
  case (1 c m inb ip_end ii dict ip)
  show ?case
  proof (cases "ip_end \<le> ip")
    case True
    then show ?thesis by (simp add: c_next.simps [of c m] ref_next.simps [of xs])
  next
    case False
    define dv where "dv = le32 xs ip"
    define d where "d = DINDEX dv"
    define p where "p = inb + unat (dict ! d)"
    define dict2 where "dict2 = dict[d := DENTRY ip inb]"
    have d: "d < length dict" "d < 16384" using "1.prems"(3) DINDEX_less [of dv] by (auto simp: d_def dict_ok_def)
    have p: "p < ip" using "1.prems"(3) d(2) by (simp add: p_def dict_ok_def)
    have get: "UA_GET_LE32 c m (In, ip) = Some dv" "UA_GET_LE32 c m (In, p) = Some (le32 xs p)"
      using "1.prems"(1,2,6) False p by (auto simp: get_le32_eq dv_def)
    have dict: "GINDEX dict d inb = Some p" "UPDATE_I dict d ip inb = Some dict2"
      using d(1) by (simp_all add: GINDEX_def UPDATE_I_def p_def dict2_def)
    have lit: "ip < c_literal ip ii" by (simp add: c_literal_def)
    have IH: "c_next c m inb ip_end ii dict2 (c_literal ip ii) = Some (ref_next xs inb ip_end ii dict2 (c_literal ip ii))"
      if "dv \<noteq> le32 xs p"
    proof (rule "1.IH" [OF False get(1) d_def dict get(2) that "1.prems"(1,2)])
      show "dict_ok inb (c_literal ip ii) dict2"
        unfolding dict2_def using "1.prems"(3-5) False lit by (intro dict_ok_update) auto
    qed (use "1.prems" lit in auto)
    have "c_next c m inb ip_end ii dict ip = (if dv \<noteq> le32 xs p then c_next c m inb ip_end ii dict2 (c_literal ip ii)
        else Some (dict2, ip, Some p))"
      using False get dict by (subst c_next.simps) (simp add: Let_def d_def)
    moreover have "ref_next xs inb ip_end ii dict ip =
        (if dv \<noteq> le32 xs p then ref_next xs inb ip_end ii dict2 (c_literal ip ii) else (dict2, ip, Some p))"
      using False by (subst ref_next.simps) (simp add: Let_def dv_def d_def p_def dict2_def)
    ultimately show ?thesis using IH by simp
  qed
qed

lemma length_ref_next: "length (fst (ref_next xs inb ip_end ii dict ip)) = length dict"
proof (induction xs inb ip_end ii dict ip rule: ref_next.induct)
  case (1 xs inb ip_end ii dict ip)
  then show ?case by (subst ref_next.simps) (simp add: Let_def)
qed

lemma enc_open: "enc bs txt \<Longrightarrow> bs \<noteq> [] \<Longrightarrow> 2 \<le> length bs \<and> unat (bs ! (length bs - 2)) mod 4 = 0"
  by (auto simp: enc_def nth_append)

lemma ref_inv_room: "ref_inv xs bs k \<Longrightarrow> length bs \<le> length xs + length xs div 16"
  by (auto simp: ref_inv_def)

lemma c_loop_ref:
  assumes "cfg_ok c" "rep xs cap m op bs" "length xs + length xs div 16 + 16 \<le> cap"
    and "ref_inv xs bs (ii - ti)" "ti \<le> ii" "ii \<le> ip" "bs = [] \<Longrightarrow> ii - ti + 4 \<le> ip"
    and "dict_ok inb ip dict" "inb \<le> ip" "ip_end \<le> inb + 49152" "ip_end + 20 \<le> length xs"
    and "ref_loop xs inb ip_end bs ip ii ti dict = (bs', ii', ti')"
  shows "\<exists>m' dict'. c_loop c inb ip_end m op ip ii ti dict = Some (m', length bs', ii', ti', dict') \<and>
    rep xs cap m' (length bs') bs' \<and> length dict' = length dict"
  using assms
proof (induction xs inb ip_end bs ip ii ti dict arbitrary: m op rule: ref_loop.induct)
  case (1 xs inb ip_end bs ip ii ti dict)
  have c: "endian_ok c" and In: "m In = xs" and op: "op = length bs"
    using "1.prems"(1,2) by (auto simp: cfg_ok_def rep_def)
  obtain dict1 ip1 r where nx: "ref_next xs inb ip_end ii dict ip = (dict1, ip1, r)" by (metis prod_cases3)
  have lim: "ip_end \<le> inb + 65536" using "1.prems"(10) by simp
  note N = ref_next_match [OF nx "1.prems"(8,9) lim "1.prems"(11)]
  have cn: "c_next c m inb ip_end ii dict ip = Some (dict1, ip1, r)"
    using c_next_ref [where m = m, OF c In "1.prems"(8,9) lim "1.prems"(11), of ii] nx by simp
  have dlen: "length dict1 = length dict" using length_ref_next [of xs inb ip_end ii dict ip] nx by simp
  show ?case
  proof (cases r)
    case None
    then have "bs' = bs" "ii' = ii" "ti' = ti"
      using "1.prems"(12) nx by (simp_all add: ref_loop.simps [of xs inb ip_end bs])
    then show ?thesis using None cn "1.prems"(2) op dlen by (subst c_loop.simps) simp
  next
    case (Some p)
    define n where "n = ref_len xs ip1 p ip_end 4"
    define k where "k = ii - ti"
    define ls where "ls = seg xs k (ip1 - k)"
    define bs1 where "bs1 = lit_bytes bs ls @ match_bytes n (ip1 - p)"
    have p: "ip \<le> ip1" "ip1 < ip_end" "inb \<le> p" "p < ip1" "\<forall>j < 4. xs ! (ip1 + j) = xs ! (p + j)"
      "dict_ok inb (ip1 + 1) dict1" using N Some by auto
    have k: "k \<le> ip1" "bs = [] \<Longrightarrow> k + 4 \<le> ip1" using "1.prems"(6,7) p(1) by (auto simp: k_def)
    have "scan_ok xs ip1 p ip_end 4" using p(2,4) "1.prems"(11) by (simp add: scan_ok_def)
    note L = ref_len_match [OF this p(5), folded n_def]
    have n4: "4 \<le> n" using ref_len_ge by (simp add: n_def)
    have inv1: "ref_inv xs bs1 (ip1 + n)"
      unfolding bs1_def ls_def
      using "1.prems"(4,10,11) p k L n4 by (intro ref_inv_group) (auto simp: k_def)
    have room: "length bs1 + 16 \<le> cap" using ref_inv_room [OF inv1] "1.prems"(3) by simp
    have opn: "ip1 - k \<le> 3 \<Longrightarrow> 2 \<le> op \<and> unat (bs ! (op - 2)) mod 4 = 0"
      using enc_open [of bs "take (ii - ti) xs"] "1.prems"(4) k(2) op by (cases "bs = []") (auto simp: ref_inv_def)
    have lsp: "k + (ip1 - k) + 16 \<le> length xs" "length (lit_bytes bs (seg xs k (ip1 - k))) + 16 \<le> cap"
      using k(1) p(2) "1.prems"(11) room by (simp_all add: bs1_def ls_def)
    obtain m1 where m1: "c_literals c m op k (ip1 - k) = Some (m1, length (lit_bytes bs ls))"
      "rep xs cap m1 (length (lit_bytes bs ls)) (lit_bytes bs ls)"
      using c_literals_eq [OF "1.prems"(2) lsp(1) opn lsp(2)] unfolding ls_def by blast
    have len: "c_match_len c m1 ip1 p ip_end = Some n"
      using c_match_len_ref [of c p ip1 ip_end m1] "1.prems"(1,11) p m1(2) by (simp add: n_def rep_def)
    have off: "0 < ip1 - p" using p(4) by simp
    have "length (lit_bytes bs ls) + length (match_bytes n (ip1 - p)) + 16 \<le> cap" using room by (simp add: bs1_def)
    from emitsD [OF emits_match [OF off] m1(2) this] obtain m2 where
      m2: "c_emit_match m1 (length (lit_bytes bs ls)) n (ip1 - p) = Some (m2, length bs1)"
        "rep xs cap m2 (length bs1) bs1" by (auto simp: bs1_def)
    have step: "c_loop c inb ip_end m op ip ii ti dict = c_loop c inb ip_end m2 (length bs1) (ip1 + n) (ip1 + n) 0 dict1"
      using cn Some m1(1) len m2(1) "1.prems"(5) by (subst c_loop.simps) (simp add: k_def [symmetric])
    have "ref_loop xs inb ip_end bs1 (ip1 + n) (ip1 + n) 0 dict1 = (bs', ii', ti')"
      using "1.prems"(12) nx Some
      by (simp add: ref_loop.simps [of xs inb ip_end bs] Let_def n_def bs1_def ls_def k_def)
    moreover have "bs1 \<noteq> []" unfolding bs1_def by (rule lit_match_nonempty)
    moreover have "dict_ok inb (ip1 + n) dict1" using p(6) n4 by (auto simp: dict_ok_def)
    ultimately show ?thesis
      unfolding step dlen [symmetric]
      using "1.IH" [OF nx [symmetric] refl Some n_def, folded k_def, folded ls_def, folded bs1_def] "1.prems"(1,3,9-11) inv1 m2(2) p by simp
  qed
qed

text \<open>Entries of \<^verbatim>\<open>wrkmem\<close> beyond the first \<^verbatim>\<open>1 << D_BITS\<close> are never looked at.\<close>

lemma ref_next_append:
  assumes "length dict = 16384"
  shows "ref_next xs inb ip_end ii (dict @ e) ip =
    (case ref_next xs inb ip_end ii dict ip of (d, i, r) \<Rightarrow> (d @ e, i, r))"
  using assms
proof (induction xs inb ip_end ii dict ip rule: ref_next.induct)
  case (1 xs inb ip_end ii dict ip)
  let ?d = "DINDEX (le32 xs ip)"
  have d: "?d < length dict" using DINDEX_less "1.prems" by simp
  then have upd: "(dict @ e)[?d := x] = dict[?d := x] @ e" "(dict @ e) ! ?d = dict ! ?d" for x
    by (simp_all add: list_update_append1 nth_append)
  show ?case
    by (subst (1 2) ref_next.simps) (simp add: Let_def upd "1.IH" [OF _ refl refl refl] "1.prems")
qed

lemma ref_loop_append:
  assumes "length dict = 16384"
  shows "ref_loop xs inb ip_end bs ip ii ti (dict @ e) = ref_loop xs inb ip_end bs ip ii ti dict"
  using assms
proof (induction xs inb ip_end bs ip ii ti dict rule: ref_loop.induct)
  case (1 xs inb ip_end bs ip ii ti dict)
  obtain d1 ip1 r where nx: "ref_next xs inb ip_end ii dict ip = (d1, ip1, r)" by (metis prod_cases3)
  have d1: "length d1 = 16384" using length_ref_next [of xs inb ip_end ii dict ip] nx "1.prems" by simp
  show ?case
  proof (cases r)
    case None
    then show ?thesis by (subst (1 2) ref_loop.simps) (simp add: nx ref_next_append [OF "1.prems"])
  next
    case (Some p)
    show ?thesis
      using "1.IH" [OF nx [symmetric] refl Some refl d1]
      by (subst (1 2) ref_loop.simps) (simp add: nx ref_next_append [OF "1.prems"] Some Let_def)
  qed
qed

lemma ref_loop_length:
  "length bs \<le> length (fst (ref_loop xs inb ip_end bs ip ii ti dict))"
proof (induction xs inb ip_end bs ip ii ti dict rule: ref_loop.induct)
  case (1 xs inb ip_end bs ip ii ti dict)
  obtain d1 ip1 r where nx: "ref_next xs inb ip_end ii dict ip = (d1, ip1, r)" by (metis prod_cases3)
  show ?case
  proof (cases r)
    case None
    then show ?thesis by (subst ref_loop.simps) (simp add: nx)
  next
    case (Some p)
    have lit: "length bs \<le> length (lit_bytes bs ls)" for ls by (simp add: lit_bytes_def)
    show ?thesis
      using "1.IH" [OF nx [symmetric] refl Some refl] lit [of "seg xs (ii - ti) (ip1 - (ii - ti))"]
      by (subst ref_loop.simps) (simp add: nx Some Let_def)
  qed
qed

section \<open>The blocks\<close>

lemma do_compress_ref:
  assumes "cfg_ok c" "rep xs cap m op bs" "length xs + length xs div 16 + 16 \<le> cap"
    and "ref_inv xs bs (inb - ti)" "ti \<le> inb" "20 < len" "len \<le> 49152" "inb + len \<le> length xs"
    and "ref_block xs inb len bs ti = (bs', t')"
  shows "\<exists>m' dict'. do_compress c m inb len op ti (replicate 16384 0 @ e) = Some (t', m', length bs' - op, dict') \<and>
    op \<le> length bs' \<and> rep xs cap m' (length bs') bs' \<and> length dict' = 16384 + length e"
proof -
  let ?ip = "inb + (if ti < 4 then 4 - ti else 0)" and ?e = "inb + len - 20"
  let ?d = "replicate 16384 0 :: u16 list"
  obtain ii ti' where loop: "ref_loop xs inb ?e bs (c_literal ?ip inb) inb ti ?d = (bs', ii, ti')"
    "t' = inb + len - (ii - ti')"
    using assms(9) by (auto simp: ref_block_def Let_def split: prod.splits)
  have ip: "inb < c_literal ?ip inb" "inb - ti + 4 \<le> c_literal ?ip inb"
    using assms(5) by (auto simp: c_literal_def)
  have loop2: "ref_loop xs inb ?e bs (c_literal ?ip inb) inb ti (?d @ e) = (bs', ii, ti')"
    using loop(1) by (simp only: ref_loop_append length_replicate)
  have d: "dict_ok inb (c_literal ?ip inb) (?d @ e)"
    using dict_ok_zero [OF ip(1)] by (simp add: dict_ok_def nth_append)
  have "\<exists>m' dict'. c_loop c inb ?e m op (c_literal ?ip inb) inb ti (?d @ e) = Some (m', length bs', ii, ti', dict') \<and>
    rep xs cap m' (length bs') bs' \<and> length dict' = length (?d @ e)"
    using ip assms by (intro c_loop_ref [OF assms(1-5) _ _ d _ _ _ loop2]) auto
  moreover have "op \<le> length bs'"
    using ref_loop_length [of bs xs inb ?e "c_literal ?ip inb" inb ti ?d] loop(1) assms(2) by (simp add: rep_def)
  ultimately show ?thesis unfolding do_compress_def Let_def using loop(2) by auto
qed

lemma c_clear_dict_eq:
  "16384 \<le> length dict \<Longrightarrow> c_clear_dict dict = Some (replicate 16384 0 @ drop 16384 dict)"
  by (simp add: c_clear_dict_def D_BITS_def)

lemma c_blocks_ref:
  assumes "cfg_ok c" "rep xs cap m op bs" "length xs + length xs div 16 + 16 \<le> cap"
    and "ref_inv xs bs (ip - t)" "t \<le> ip" "ip + l = length xs" "16384 \<le> length dict"
    and "ref_blocks (c_break c addr) xs ip l bs t = (bs', t')"
  shows "\<exists>m' l' t'' dict'. c_blocks c addr m ip op l t dict = Some (m', length bs', l', t'', dict') \<and>
    rep xs cap m' (length bs') bs' \<and> t'' + l' = t'"
  using assms
proof (induction "c_break c addr" xs ip l bs t arbitrary: m op dict rule: ref_blocks.induct)
  case (1 xs ip l bs t)
  let ?ll = "min l 49152" and ?d = "drop 16384 dict"
  have op: "op = length bs" using "1.prems"(2) by (simp add: rep_def)
  show ?case
  proof (cases "20 < l \<and> \<not> c_break c addr ip ?ll t")
    case True
    obtain bs1 t1 where b: "ref_block xs ip ?ll bs t = (bs1, t1)" by fastforce
    have blk: "20 < ?ll" "?ll \<le> 49152" "ip + ?ll \<le> length xs" using True "1.prems"(6) by auto
    have inv1: "ref_inv xs bs1 (ip + ?ll - t1)" "t1 \<le> ip + ?ll"
      using ref_block_inv [OF b "1.prems"(4,5) blk] by auto
    obtain m1 dict1 where m1: "do_compress c m ip ?ll op t (replicate 16384 0 @ ?d) = Some (t1, m1, length bs1 - op, dict1)"
      "op \<le> length bs1" "rep xs cap m1 (length bs1) bs1" "length dict1 = 16384 + length ?d"
      using do_compress_ref [OF "1.prems"(1-5) blk b] by blast
    have "ref_blocks (c_break c addr) xs (ip + ?ll) (l - ?ll) bs1 t1 = (bs', t')"
      using "1.prems"(8) unfolding ref_blocks.simps [of "c_break c addr" xs ip] Let_def if_P [OF True] b by simp
    then obtain m' l' t'' dict' where r:
      "c_blocks c addr m1 (ip + ?ll) (length bs1) (l - ?ll) t1 dict1 = Some (m', length bs', l', t'', dict')"
      "rep xs cap m' (length bs') bs'" "t'' + l' = t'"
      using "1.hyps" [OF refl True b [symmetric] "1.prems"(1) m1(3) "1.prems"(3) inv1, of dict1] "1.prems"(6) m1(4) by auto
    have "c_blocks c addr m ip op l t dict = c_blocks c addr m1 (ip + ?ll) (length bs1) (l - ?ll) t1 dict1"
      using True m1(1,2) by (subst c_blocks.simps) (simp add: Let_def c_clear_dict_eq "1.prems"(7))
    with r show ?thesis by auto
  next
    case False
    have "ref_blocks (c_break c addr) xs ip l bs t = (bs, t + l)"
      by (subst ref_blocks.simps) (simp only: Let_def if_not_P [OF False])
    moreover have "c_blocks c addr m ip op l t dict = Some (m, op, l, t, dict)"
      using False by (subst c_blocks.simps) (auto simp: Let_def)
    ultimately show ?thesis using "1.prems"(2,8) op by auto
  qed
qed

section \<open>The end of the stream\<close>

lemma emits_copyn:
  "ii + t \<le> length xs \<Longrightarrow>
    emits xs (\<lambda>m op. do { m \<leftarrow> LZO_MEMOPS_COPYN c m (Out, op) (In, ii) t; Some (m, op + t) }) (seg xs ii t)"
  using emits_copy [of t t ii xs] by (simp add: COPYN_eq_mv)

lemma c_last_literals_eq:
  assumes "rep xs cap m op bs" "ii + t = length xs" "enc bs txt"
    and "length (last_bytes bs (drop ii xs)) + 16 \<le> cap"
  shows "\<exists>m'. c_last_literals c m op ii t = Some (m', length (last_bytes bs (drop ii xs))) \<and>
    rep xs cap m' (length (last_bytes bs (drop ii xs))) (last_bytes bs (drop ii xs))"
proof -
  define ls where "ls = seg xs ii t"
  have ls: "drop ii xs = ls" "length ls = t" "op = length bs" using assms(1,2) by (auto simp: ls_def seg_def rep_def)
  have copy: "emits xs (\<lambda>m op. do { m \<leftarrow> LZO_MEMOPS_COPYN c m (Out, op) (In, ii) t; Some (m, op + t) }) ls"
    unfolding ls_def using assms(2) by (intro emits_copyn) simp
  note room = assms(4) [unfolded ls]
  consider (none) "t = 0" | (first) "0 < t" "bs = []" "t \<le> 238" | (few) "0 < t" "bs \<noteq> []" "t \<le> 3"
    | (run) "4 \<le> t" "\<not> (bs = [] \<and> t \<le> 238)" by linarith
  then show ?thesis
  proof cases
    case none
    then show ?thesis using assms(1) ls by (simp add: c_last_literals_def last_bytes_def)
  next
    case first
    have last: "last_bytes bs ls = bs @ [LZO_BYTE (17 + t)] @ ls"
      using first ls by (auto simp: last_bytes_def)
    have room1: "op + length ([LZO_BYTE (17 + t)] @ ls) + 16 \<le> cap" using room ls unfolding last by simp
    show ?thesis
      using emitsD [OF emits_bind [OF emits_put copy] assms(1) room1] first ls
      unfolding ls(1) last by (auto simp: c_last_literals_def)
  next
    case few
    have last: "last_bytes bs ls = set_state bs t @ ls" using few ls by (auto simp: last_bytes_def lit_bytes_def)
    obtain m1 where m1: "c_state_bits m op t = Some m1" "rep xs cap m1 op (set_state bs t)"
      using c_state_bits_eq [OF assms(1), of t] enc_open [OF assms(3) few(2)] ls(3) few by auto
    have room1: "op + length ls + 16 \<le> cap" using room ls(3) unfolding last by simp
    show ?thesis
      using emitsD [OF copy m1(2) room1] few ls m1(1)
      unfolding ls(1) last by (auto simp: c_last_literals_def)
  next
    case run
    have last: "last_bytes bs ls = bs @ run_bytes t @ ls" using run ls by (auto simp: last_bytes_def lit_bytes_def)
    have room1: "op + length (run_bytes t @ ls) + 16 \<le> cap" using room ls unfolding last by simp
    show ?thesis
      using emitsD [OF emits_bind [OF emits_run_len copy] assms(1) room1] run ls
      unfolding ls(1) last by (auto simp: c_last_literals_def)
  qed
qed

lemma emits_eof: "emits xs c_eof eof_bytes"
  using emits_bind [OF emits_put [of xs "M4_MARKER OR 1"] emits_bind [OF emits_put [of xs 0] emits_put [of xs 0]]]
  by (rule emits_cong) (simp_all add: c_eof_def eof_bytes_def macro_defs LZO_BYTE_def)

lemma lzo1x_1_compress_ref:
  assumes "cfg_ok c" "m In = xs" "length xs + length xs div 16 + 20 \<le> length (m Out)" "16384 \<le> length wrkmem"
    and bs_def: "bs = ref_compress (c_break c addr) xs"
  shows "\<exists>m'. lzo1x_1_compress c addr m (length xs) wrkmem = Some (LZO_E_OK, m', length bs) \<and>
    rep xs (length (m Out)) m' (length bs) bs"
proof -
  let ?cap = "length (m Out)"
  obtain bs1 t where b: "ref_blocks (c_break c addr) xs 0 (length xs) [] 0 = (bs1, t)" by fastforce
  have inv: "ref_inv xs [] (0 - 0)" by (simp add: ref_inv_def enc_def)
  have inv1: "ref_inv xs bs1 (length xs - t)" "t \<le> length xs" using ref_blocks_inv [OF b inv] by auto
  have bs: "bs = last_bytes bs1 (drop (length xs - t) xs) @ eof_bytes" by (simp add: bs_def ref_compress_def b)
  have room: "length bs + 16 \<le> ?cap" using length_ref_compress [of "c_break c addr" xs] assms(3) by (simp add: bs_def)
  have start: "rep xs ?cap m 0 []" using assms(2) by (simp add: rep_def)
  obtain m1 l1 t1 dict1 where m1: "c_blocks c addr m 0 0 (length xs) 0 wrkmem = Some (m1, length bs1, l1, t1, dict1)"
    "rep xs ?cap m1 (length bs1) bs1" "t1 + l1 = t"
    using c_blocks_ref [OF assms(1) start _ inv _ _ assms(4) b] assms(3) by auto
  let ?ls = "drop (length xs - t) xs"
  obtain m2 where m2: "c_last_literals c m1 (length bs1) (length xs - t) t = Some (m2, length (last_bytes bs1 ?ls))"
    "rep xs ?cap m2 (length (last_bytes bs1 ?ls)) (last_bytes bs1 ?ls)"
    using c_last_literals_eq [OF m1(2), of "length xs - t" t] inv1 room unfolding bs ref_inv_def by auto
  have "length (last_bytes bs1 ?ls) + length eof_bytes + 16 \<le> ?cap" using room unfolding bs by simp
  from emitsD [OF emits_eof m2(2) this] obtain m3 where
    m3: "c_eof m2 (length (last_bytes bs1 ?ls)) = Some (m3, length (last_bytes bs1 ?ls) + length eof_bytes)"
      "rep xs ?cap m3 (length (last_bytes bs1 ?ls) + length eof_bytes) (last_bytes bs1 ?ls @ eof_bytes)" .
  have "lzo1x_1_compress c addr m (length xs) wrkmem = Some (LZO_E_OK, m3, length bs)"
    unfolding lzo1x_1_compress_def m1(1) Let_def Option.bind.simps prod.case m1(3) m2(1) m3(1) bs by simp
  then show ?thesis using m3(2) unfolding bs by simp
qed

end
