(* ===== verification/Lzo_Roundtrip.thy ===== *)
theory Lzo_Roundtrip
  imports Lzo_Compress_Correct
begin

text \<open>
  The properties of the compressor, and of the compressor with the decompressors: safety, the
  format of the output, its size, independence of the build, the round trip. The precondition
  \<open>compress_ok\<close> says what the caller of \<^verbatim>\<open>lzo1x_1_compress\<close> provides.
\<close>

text \<open>
  The output buffer has room for the documented worst case \<^verbatim>\<open>IN_LEN + IN_LEN / 16 + 64 + 3\<close> of
  \<^verbatim>\<open>testmini.c\<close> (20 of its 67 spare bytes are enough), \<^verbatim>\<open>wrkmem\<close> for the dictionary.
\<close>

definition compress_ok :: "lzo_cfg \<Rightarrow> region mem \<Rightarrow> u16 list \<Rightarrow> bool" where
  "compress_ok c m wrkmem \<longleftrightarrow> cfg_ok c \<and> 16384 \<le> length wrkmem \<and>
     length (m In) + length (m In) div 16 + 20 \<le> length (m Out)"

text \<open>The call with the whole input buffer, placed at address \<open>addr\<close>.\<close>

abbreviation compress :: "lzo_cfg \<Rightarrow> nat \<Rightarrow> region mem \<Rightarrow> u16 list \<Rightarrow> (int \<times> region mem \<times> nat) option" where
  "compress c addr m wrkmem \<equiv> lzo1x_1_compress c addr m (length (m In)) wrkmem"

abbreviation compressed :: "region mem \<Rightarrow> nat \<Rightarrow> u8 list" where
  "compressed m n \<equiv> take n (m Out)"

lemma compress_ref:
  assumes "compress_ok c m wrkmem"
  obtains m' where "compress c addr m wrkmem = Some (LZO_E_OK, m', length (ref_compress (c_break c addr) (m In)))"
    "m' In = m In" "length (m' Out) = length (m Out)"
    "length (ref_compress (c_break c addr) (m In)) \<le> length (m Out)"
    "compressed m' (length (ref_compress (c_break c addr) (m In))) = ref_compress (c_break c addr) (m In)"
  using lzo1x_1_compress_ref [of c m "m In" wrkmem _ addr] assms that
  unfolding compress_ok_def rep_def by blast

lemma compress_refD:
  assumes "compress_ok c m wrkmem" "compress c addr m wrkmem = Some (r, m', n)"
  shows "r = LZO_E_OK" "m' In = m In" "n \<le> length (m' Out)" "length (m' Out) = length (m Out)"
    "n = length (ref_compress (c_break c addr) (m In))" "compressed m' n = ref_compress (c_break c addr) (m In)"
  using compress_ref [OF assms(1), of addr] assms(2) by (metis option.inject prod.inject)+

section \<open>Independence of the build\<close>

text \<open>Where no address wraps around, the test that leaves the loop over the blocks depends only on \<open>t + ll\<close>.\<close>

lemma c_break_plain:
  assumes "addr + (ip + ll) + (t + ll) div 32 < 2 ^ uint_bits c" "t \<le> ip"
  shows "c_break c addr ip ll t \<longleftrightarrow> t + ll < 32"
proof -
  let ?w = "uint_bits c"
  have "uw ?w (addr + ip + ll) = addr + (ip + ll)" "uw ?w (t + ll) = t + ll"
    "uw ?w (addr + (ip + ll) + (t + ll) div 32) = addr + (ip + ll) + (t + ll) div 32"
    using assms by (simp_all add: add.assoc)
  then show ?thesis unfolding c_break_def Let_def by (simp add: add.assoc) linarith
qed

lemma ref_blocks_cong:
  assumes "ref_inv xs bs (ip - t)" "t \<le> ip" "ip + l = length xs"
    and "\<And>ip ll t. t \<le> ip \<Longrightarrow> ip + ll \<le> length xs \<Longrightarrow> brk ip ll t = brk' ip ll t"
  shows "ref_blocks brk xs ip l bs t = ref_blocks brk' xs ip l bs t"
  using assms
proof (induction brk xs ip l bs t rule: ref_blocks.induct)
  case (1 brk xs ip l bs t)
  let ?ll = "min l 49152"
  have same1: "brk ip ?ll t = brk' ip ?ll t" by (rule "1.prems"(4)) (use "1.prems" in auto)
  show ?case
  proof (cases "20 < l \<and> \<not> brk ip ?ll t")
    case True
    obtain bs1 t1 where b: "ref_block xs ip ?ll bs t = (bs1, t1)" by fastforce
    have "ref_inv xs bs1 (ip + ?ll - t1) \<and> t1 \<le> ip + ?ll"
      using True "1.prems" by (intro ref_block_inv [OF b]) auto
    then have "ref_blocks brk xs (ip + ?ll) (l - ?ll) bs1 t1 = ref_blocks brk' xs (ip + ?ll) (l - ?ll) bs1 t1"
      using "1.IH" [OF refl True b [symmetric]] "1.prems"(3,4) by auto
    then show ?thesis
      using True same1 b by (subst (1 2) ref_blocks.simps) (simp add: Let_def)
  next
    case False
    then show ?thesis using same1 by (subst (1 2) ref_blocks.simps) (auto simp: Let_def)
  qed
qed

definition no_wrap :: "lzo_cfg \<Rightarrow> nat \<Rightarrow> nat \<Rightarrow> bool" where
  "no_wrap c addr len \<longleftrightarrow> addr + len + len div 32 < 2 ^ uint_bits c"

lemma ref_compress_plain:
  assumes "no_wrap c addr (length xs)"
  shows "ref_compress (c_break c addr) xs = ref_compress (\<lambda>ip ll t. t + ll < 32) xs"
proof -
  have "ref_blocks (c_break c addr) xs 0 (length xs) [] 0 = ref_blocks (\<lambda>ip ll t. t + ll < 32) xs 0 (length xs) [] 0"
  proof (rule ref_blocks_cong)
    fix ip ll t
    assume a: "t \<le> ip" "ip + ll \<le> length xs"
    have "(t + ll) div 32 \<le> length xs div 32" using a by (intro div_le_mono) simp
    then show "c_break c addr ip ll t = (t + ll < 32)"
      using a assms by (intro c_break_plain) (auto simp: no_wrap_def)
  qed (simp_all add: ref_inv_def enc_def)
  then show ?thesis by (simp add: ref_compress_def)
qed

section \<open>An example\<close>

definition comp_mem :: "region mem" where
  "comp_mem r = (case r of In \<Rightarrow> replicate 64 97 | Out \<Rightarrow> replicate 131 0)"

definition comp_wrkmem :: "u16 list" where
  "comp_wrkmem = replicate 65536 0"

lemma comp_ok:
  "compress_ok cfg_amd64 comp_mem comp_wrkmem" "compress_ok cfg_bytewise32 comp_mem comp_wrkmem"
  "compress_ok cfg_be64 comp_mem comp_wrkmem"
  using cfg_ok_builds by (simp_all add: compress_ok_def comp_mem_def comp_wrkmem_def)

lemma comp_sizes: "length (comp_mem In) = 64" "length (comp_mem Out) = 131" "comp_mem In = replicate 64 97"
  by (simp_all add: comp_mem_def)

section \<open>Properties of the compressor\<close>

text \<open>
  C5. Memory safety and termination of \<^verbatim>\<open>lzo1x_1_compress\<close>: for every build and every
  input, with an output buffer of the documented size, it returns \<^verbatim>\<open>LZO_E_OK\<close> without an
  access outside the input, the output and \<^verbatim>\<open>wrkmem\<close>, and leaves the input as it was.
\<close>

theorem compress_memory_safe:
  assumes "compress_ok c m wrkmem"
  shows "\<exists>m' n. compress c addr m wrkmem = Some (LZO_E_OK, m', n) \<and> m' In = m In \<and>
    length (m' Out) = length (m Out) \<and> n \<le> length (m Out)"
  using compress_ref [OF assms, of addr] by metis

theorem compress_memory_safe_witness:
  "\<exists>m' n. compress cfg_bytewise32 4096 comp_mem comp_wrkmem = Some (LZO_E_OK, m', n) \<and> n \<le> 131"
  using compress_memory_safe [OF comp_ok(2), of 4096] by (auto simp: comp_sizes)

text \<open>
  C6. The output is a proper LZO1X stream of the input, in the sense of the format
  specification, which knows neither the dictionary nor the compressor.
\<close>

theorem compress_stream:
  assumes "compress_ok c m wrkmem" "compress c addr m wrkmem = Some (r, m', n)"
  shows "lzo_stream (compressed m' n) (m In)"
  using compress_refD [OF assms] ref_compress_stream by simp

theorem compress_stream_witness:
  "\<exists>m' n. compress cfg_amd64 0 comp_mem comp_wrkmem = Some (LZO_E_OK, m', n) \<and>
     lzo_stream (compressed m' n) (replicate 64 97)"
proof -
  obtain m' n where r: "compress cfg_amd64 0 comp_mem comp_wrkmem = Some (LZO_E_OK, m', n)"
    using compress_ref [OF comp_ok(1)] by metis
  from compress_stream [OF comp_ok(1) r] r show ?thesis by (auto simp: comp_sizes)
qed

text \<open>
  C9. The documented worst case: the output is at most 1/16 longer than the input, plus four
  bytes, whatever the input.
\<close>

theorem compress_size_bound:
  assumes "compress_ok c m wrkmem" "compress c addr m wrkmem = Some (r, m', n)"
  shows "n \<le> length (m In) + length (m In) div 16 + 4"
  using compress_refD [OF assms] length_ref_compress by simp

theorem compress_size_bound_witness:
  "\<exists>m' n. compress cfg_amd64 0 comp_mem comp_wrkmem = Some (LZO_E_OK, m', n) \<and> n \<le> 72"
proof -
  obtain m' n where r: "compress cfg_amd64 0 comp_mem comp_wrkmem = Some (LZO_E_OK, m', n)"
    using compress_ref [OF comp_ok(1)] by metis
  from compress_size_bound [OF comp_ok(1) r] r show ?thesis by (auto simp: comp_sizes)
qed

text \<open>
  \<^verbatim>\<open>LZO_DETERMINISTIC\<close>: as long as no address computation of the block loop wraps
  around, the output depends on the input only, not on the build (word size, byte order,
  unaligned accesses, bit scans), the address of the input or the contents of \<^verbatim>\<open>wrkmem\<close>.
\<close>

lemma compress_build_independent:
  assumes "compress_ok c m wrkmem" "compress c addr m wrkmem = Some (r, m1, n)"
    and "compress_ok c' m' wrkmem'" "compress c' addr' m' wrkmem' = Some (r', m1', n')"
    and "m In = m' In" "no_wrap c addr (length (m In))" "no_wrap c' addr' (length (m' In))"
  shows "n = n' \<and> compressed m1 n = compressed m1' n'"
  using compress_refD [OF assms(1,2)] compress_refD [OF assms(3,4)] assms(5)
    ref_compress_plain [OF assms(6)] ref_compress_plain [OF assms(7)] by simp

section \<open>The round trip\<close>

text \<open>
  C7. Round trip: what \<^verbatim>\<open>lzo1x_1_compress\<close> of one build writes, \<^verbatim>\<open>lzo1x_decompress_safe\<close>
  of any build, given that stream and an output buffer as long as the original, decodes
  with \<^verbatim>\<open>LZO_E_OK\<close> to the original bytes and the original length.
\<close>

theorem compress_decompress_safe:
  assumes "compress_ok c m wrkmem" "compress c addr m wrkmem = Some (r, m1, n)"
    and "env_ok c' e m2" "take (in_len e) (m2 In) = compressed m1 n"
    and "length (m In) \<le> out_cap e" "length (m In) \<le> 2 ^ uint_bits c' - 511"
  shows "\<exists>s. lzo1x_decompress_safe c' e m2 = Some (Some (LZO_E_OK, s)) \<and>
    d_op s = length (m In) \<and> take (d_op s) (d_mem s Out) = m In"
  using lzo1x_decompress_safe_stream [OF assms(3) _ assms(5,6)] compress_refD [OF assms(1,2)]
    ref_compress_stream assms(4) by fastforce

text \<open>The second buffer pair of the examples: the stream as input, room for the text as output.\<close>

definition back_mem :: "u8 list \<Rightarrow> nat \<Rightarrow> region mem" where
  "back_mem bs cap r = (case r of In \<Rightarrow> bs | Out \<Rightarrow> replicate cap 0)"

definition back_env :: "nat \<Rightarrow> nat \<Rightarrow> lzo_env" where
  "back_env n cap = \<lparr> in_len = n, out_cap = cap, in_addr = 4096, out_addr = 65536 \<rparr>"

lemma back_ok:
  assumes "length bs \<le> 1000" "cap \<le> 1000"
  shows "env_ok cfg_amd64 (back_env (length bs) cap) (back_mem bs cap)"
    "env_ok cfg_bytewise32 (back_env (length bs) cap) (back_mem bs cap)"
  using assms cfg_ok_builds
  by (simp_all add: env_ok_def back_env_def back_mem_def) (simp_all add: cfg_amd64_def cfg_bytewise32_def)

lemma comp_run:
  obtains m1 bs where "compress cfg_amd64 0 comp_mem comp_wrkmem = Some (LZO_E_OK, m1, length bs)"
    "compressed m1 (length bs) = bs" "length bs \<le> 72"
proof -
  let ?bs = "ref_compress (c_break cfg_amd64 0) (comp_mem In)"
  have "length ?bs \<le> 72" using length_ref_compress [of "c_break cfg_amd64 0" "comp_mem In"] by (simp add: comp_sizes)
  with compress_ref [OF comp_ok(1), of 0] that show thesis by metis
qed

theorem compress_decompress_safe_witness:
  "\<exists>m1 bs s. compress cfg_amd64 0 comp_mem comp_wrkmem = Some (LZO_E_OK, m1, length bs) \<and>
     lzo1x_decompress_safe cfg_bytewise32 (back_env (length bs) 64) (back_mem bs 64) = Some (Some (LZO_E_OK, s)) \<and>
     take 64 (d_mem s Out) = replicate 64 97"
proof -
  obtain m1 bs where r: "compress cfg_amd64 0 comp_mem comp_wrkmem = Some (LZO_E_OK, m1, length bs)"
    "compressed m1 (length bs) = bs" "length bs \<le> 72" by (rule comp_run)
  have "env_ok cfg_bytewise32 (back_env (length bs) 64) (back_mem bs 64)" using r(3) by (intro back_ok) auto
  from compress_decompress_safe [OF comp_ok(1) r(1) this] r show ?thesis
    by (auto simp: comp_sizes back_env_def back_mem_def cfg_bytewise32_def)
qed

text \<open>
  C8. The same round trip through \<^verbatim>\<open>lzo1x_decompress\<close>, which makes no tests: on a stream of
  the compressor it stays inside its buffers and restores the original.
\<close>

theorem compress_decompress:
  assumes "compress_ok c m wrkmem" "compress c addr m wrkmem = Some (r, m1, n)"
    and "env_ok c' e m2" "take (in_len e) (m2 In) = compressed m1 n"
    and "length (m In) \<le> out_cap e" "length (m In) \<le> 2 ^ uint_bits c' - 511"
  shows "\<exists>s. lzo1x_decompress c' e m2 = Some (Some (LZO_E_OK, s)) \<and> d_op s = length (m In) \<and>
    take (d_op s) (d_mem s Out) = m In \<and> drop (out_cap e) (d_mem s Out) = drop (out_cap e) (m2 Out)"
proof -
  have "lzo_stream (take (in_len e) (m2 In)) (m In)"
    using compress_refD [OF assms(1,2)] ref_compress_stream assms(4) by simp
  from lzo1x_decompress_safe_stream [OF assms(3) this assms(5,6)] show ?thesis
    using lzo1x_decompress_same by (fastforce simp: no_overrun_def frame_def)
qed

theorem compress_decompress_witness:
  "\<exists>m1 bs s. compress cfg_amd64 0 comp_mem comp_wrkmem = Some (LZO_E_OK, m1, length bs) \<and>
     lzo1x_decompress cfg_amd64 (back_env (length bs) 64) (back_mem bs 64) = Some (Some (LZO_E_OK, s)) \<and>
     take 64 (d_mem s Out) = replicate 64 97"
proof -
  obtain m1 bs where r: "compress cfg_amd64 0 comp_mem comp_wrkmem = Some (LZO_E_OK, m1, length bs)"
    "compressed m1 (length bs) = bs" "length bs \<le> 72" by (rule comp_run)
  have "env_ok cfg_amd64 (back_env (length bs) 64) (back_mem bs 64)" using r(3) by (intro back_ok) auto
  from compress_decompress [OF comp_ok(1) r(1) this] r show ?thesis
    by (auto simp: comp_sizes back_env_def back_mem_def cfg_amd64_def)
qed

end
