(* ===== verification/Lzo_Util.thy ===== *)
theory Lzo_Util
  imports Lzo_Memops
begin

text \<open>
  The small utilities of the LZO library: \<^verbatim>\<open>__lzo_align_gap\<close>, the version functions,
  \<^verbatim>\<open>lzo_adler32\<close>, and \<^verbatim>\<open>lzo_memcmp\<close>, \<^verbatim>\<open>lzo_memcpy\<close>, \<^verbatim>\<open>lzo_memmove\<close> and \<^verbatim>\<open>lzo_memset\<close> in
  the form with a byte loop and in the form that calls the C library.
\<close>

section \<open>Alignment of pointers\<close>

text \<open>
  The gap between the address \<open>p\<close> and the next multiple of \<open>size\<close>, both of \<^verbatim>\<open>uint_bits\<close>
  bits; the result is an \<^verbatim>\<open>unsigned\<close> of 32 bits.
\<close>

definition lzo_ptr_linear :: "nat \<Rightarrow> nat" where
  "lzo_ptr_linear ptr = ptr"

definition lzo_align_gap :: "lzo_cfg \<Rightarrow> nat \<Rightarrow> nat \<Rightarrow> nat" where
  "lzo_align_gap c ptr sz =
     (let w = uint_bits c in
      if sz < 2 then 0
      else let p = lzo_ptr_linear ptr in
        if sz AND (sz - 1) \<noteq> 0 then 0
        else let n = sz; n = usub w (uw w (p + n - 1) AND (2 ^ w - 1 - (n - 1))) p in uw 32 n)"

definition LZO_PTR_ALIGN_UP :: "lzo_cfg \<Rightarrow> nat \<Rightarrow> nat \<Rightarrow> nat" where
  "LZO_PTR_ALIGN_UP c p sz = uw (uint_bits c) (p + lzo_align_gap c p sz)"

section \<open>Version\<close>

definition LZO_VERSION :: nat where "LZO_VERSION = 0x20a0"
definition LZO_VERSION_STRING :: string where "LZO_VERSION_STRING = ''2.10''"
definition LZO_VERSION_DATE :: string where "LZO_VERSION_DATE = ''Mar 01 2017''"

definition lzo_version :: nat where "lzo_version = LZO_VERSION"
definition lzo_version_string :: string where "lzo_version_string = LZO_VERSION_STRING"
definition lzo_version_date :: string where "lzo_version_date = LZO_VERSION_DATE"

section \<open>Adler-32\<close>

definition LZO_BASE :: u32 where "LZO_BASE = 65521"
definition LZO_NMAX :: nat where "LZO_NMAX = 5552"

type_synonym sums = "u32 \<times> u32"

definition LZO_DO1 :: "'r mem \<Rightarrow> 'r ptr \<Rightarrow> nat \<Rightarrow> sums \<Rightarrow> sums option" where
  "LZO_DO1 m buf i s = do {
     b \<leftarrow> rd m (padd buf i);
     let s1 = fst s + ucast b;
     Some (s1, snd s + s1) }"

definition LZO_DO2 :: "'r mem \<Rightarrow> 'r ptr \<Rightarrow> nat \<Rightarrow> sums \<Rightarrow> sums option" where
  "LZO_DO2 m buf i s = do { s \<leftarrow> LZO_DO1 m buf i s; LZO_DO1 m buf (i + 1) s }"

definition LZO_DO4 :: "'r mem \<Rightarrow> 'r ptr \<Rightarrow> nat \<Rightarrow> sums \<Rightarrow> sums option" where
  "LZO_DO4 m buf i s = do { s \<leftarrow> LZO_DO2 m buf i s; LZO_DO2 m buf (i + 2) s }"

definition LZO_DO8 :: "'r mem \<Rightarrow> 'r ptr \<Rightarrow> nat \<Rightarrow> sums \<Rightarrow> sums option" where
  "LZO_DO8 m buf i s = do { s \<leftarrow> LZO_DO4 m buf i s; LZO_DO4 m buf (i + 4) s }"

definition LZO_DO16 :: "'r mem \<Rightarrow> 'r ptr \<Rightarrow> nat \<Rightarrow> sums \<Rightarrow> sums option" where
  "LZO_DO16 m buf i s = do { s \<leftarrow> LZO_DO8 m buf i s; LZO_DO8 m buf (i + 8) s }"

text \<open>\<^verbatim>\<open>if (k >= 16) do { LZO_DO16(buf,0); buf += 16; k -= 16; } while (k >= 16)\<close>\<close>

function adler_do16s :: "'r mem \<Rightarrow> 'r ptr \<Rightarrow> nat \<Rightarrow> sums \<Rightarrow> ('r ptr \<times> nat \<times> sums) option" where
  "adler_do16s m buf k s =
     (if k \<ge> 16 then do { s \<leftarrow> LZO_DO16 m buf 0 s; adler_do16s m (padd buf 16) (k - 16) s }
      else Some (buf, k, s))"
  by pat_completeness auto
termination
  by (relation "measure (\<lambda>(m, buf, k, s). k)") auto

declare adler_do16s.simps [simp del]

text \<open>\<^verbatim>\<open>if (k != 0) do { s1 += *buf++; s2 += s1; } while (--k > 0)\<close>\<close>

fun adler_rest :: "'r mem \<Rightarrow> 'r ptr \<Rightarrow> nat \<Rightarrow> sums \<Rightarrow> ('r ptr \<times> sums) option" where
  "adler_rest m buf 0 s = Some (buf, s)"
| "adler_rest m buf (Suc k) s = do { s \<leftarrow> LZO_DO1 m buf 0 s; adler_rest m (padd buf 1) k s }"

function adler_loop :: "'r mem \<Rightarrow> 'r ptr \<Rightarrow> nat \<Rightarrow> sums \<Rightarrow> sums option" where
  "adler_loop m buf len s =
     (if len > 0 then do {
        let k = (if len < LZO_NMAX then len else LZO_NMAX);
        (buf, r, s) \<leftarrow> adler_do16s m buf k s;
        (buf, s) \<leftarrow> adler_rest m buf r s;
        adler_loop m buf (len - k) (fst s mod LZO_BASE, snd s mod LZO_BASE) }
      else Some s)"
  by pat_completeness auto
termination
  by (relation "measure (\<lambda>(m, buf, len, s). len)") (auto simp: LZO_NMAX_def)

declare adler_loop.simps [simp del]

definition lzo_adler32 :: "'r mem \<Rightarrow> u32 \<Rightarrow> 'r ptr option \<Rightarrow> nat \<Rightarrow> u32 option" where
  "lzo_adler32 m adler buf len =
     (case buf of None \<Rightarrow> Some 1
      | Some buf \<Rightarrow> do {
          (s1, s2) \<leftarrow> adler_loop m buf len (adler AND 0xffff, drop_bit 16 adler AND 0xffff);
          Some (push_bit 16 s2 OR s1) })"

section \<open>Strings of bytes\<close>

text \<open>
  The first argument tells whether the build has the routine of the C library (\<^verbatim>\<open>HAVE_*\<close>).
  \<open>base\<close> gives the addresses of the buffers, which \<^verbatim>\<open>lzo_memmove\<close> compares.
\<close>

fun memcmp_loop :: "'r mem \<Rightarrow> 'r ptr \<Rightarrow> 'r ptr \<Rightarrow> nat \<Rightarrow> int option" where
  "memcmp_loop m p1 p2 0 = Some 0"
| "memcmp_loop m p1 p2 (Suc len) = do {
     a \<leftarrow> rd m p1; b \<leftarrow> rd m p2;
     let d = int (unat a) - int (unat b);
     (if d \<noteq> 0 then Some d else memcmp_loop m (padd p1 1) (padd p2 1) len) }"

definition lzo_memcmp :: "('r mem \<Rightarrow> 'r ptr \<Rightarrow> 'r ptr \<Rightarrow> nat \<Rightarrow> int option) option \<Rightarrow>
    'r mem \<Rightarrow> 'r ptr \<Rightarrow> 'r ptr \<Rightarrow> nat \<Rightarrow> int option" where
  "lzo_memcmp memcmp m s1 s2 len =
     (case memcmp of None \<Rightarrow> memcmp_loop m s1 s2 len | Some f \<Rightarrow> f m s1 s2 len)"

text \<open>\<^verbatim>\<open>memcpy\<close> is undefined on overlapping objects, \<^verbatim>\<open>memmove\<close> copies as if through a temporary.\<close>

definition apart :: "'r ptr \<Rightarrow> 'r ptr \<Rightarrow> nat \<Rightarrow> bool" where
  "apart d s n \<longleftrightarrow> fst d \<noteq> fst s \<or> snd s + n \<le> snd d \<or> snd d + n \<le> snd s"

definition lzo_memcpy :: "bool \<Rightarrow> 'r mem \<Rightarrow> 'r ptr \<Rightarrow> 'r ptr \<Rightarrow> nat \<Rightarrow> 'r mem option" where
  "lzo_memcpy have m dest src len =
     (if have then (if apart dest src len then wide m dest src len else None)
      else if \<not> len > 0 \<or> dest = src then Some m else mv m dest src len)"

text \<open>\<^verbatim>\<open>p1 += len; p2 += len; do *--p1 = *--p2; while (--len > 0)\<close>\<close>

fun mv_down :: "'r mem \<Rightarrow> 'r ptr \<Rightarrow> 'r ptr \<Rightarrow> nat \<Rightarrow> 'r mem option" where
  "mv_down m d s 0 = Some m"
| "mv_down m d s (Suc n) = do {
     b \<leftarrow> rd m (padd s n); m \<leftarrow> wr m (padd d n) b; mv_down m d s n }"

definition lzo_memmove :: "bool \<Rightarrow> ('r \<Rightarrow> nat) \<Rightarrow> 'r mem \<Rightarrow> 'r ptr \<Rightarrow> 'r ptr \<Rightarrow> nat \<Rightarrow> 'r mem option" where
  "lzo_memmove have base m dest src len =
     (if have then wide m dest src len
      else if \<not> len > 0 \<or> dest = src then Some m
      else if base (fst dest) + snd dest < base (fst src) + snd src then mv m dest src len
      else mv_down m dest src len)"

fun set_loop :: "'r mem \<Rightarrow> 'r ptr \<Rightarrow> u8 \<Rightarrow> nat \<Rightarrow> 'r mem option" where
  "set_loop m p c 0 = Some m"
| "set_loop m p c (Suc len) = do { m \<leftarrow> wr m p c; set_loop m (padd p 1) c len }"

definition lzo_memset :: "bool \<Rightarrow> 'r mem \<Rightarrow> 'r ptr \<Rightarrow> int \<Rightarrow> nat \<Rightarrow> 'r mem option" where
  "lzo_memset have m s cc len =
     (if have then store m s (replicate len (word_of_int cc)) else set_loop m s (word_of_int cc) len)"

section \<open>Alignment: lemmas\<close>

lemma and_high_mask:
  assumes "x < 2 ^ w" "k \<le> w"
  shows "x AND (2 ^ w - 2 ^ k) = x div 2 ^ k * (2 ^ k :: nat)"
proof -
  have "2 ^ w - 2 ^ k = push_bit k (mask (w - k) :: nat)"
    using assms(2) by (simp add: push_bit_eq_mult mask_eq_exp_minus_1 diff_mult_distrib power_add [symmetric])
  moreover have "bit x n \<Longrightarrow> n < w" for n
    using assms(1) by (metis bit_take_bit_iff take_bit_nat_eq_self)
  then have "bit x n \<Longrightarrow> k \<le> n \<Longrightarrow> n - k < w - k" for n by (simp add: diff_less_mono)
  ultimately show ?thesis
    by (auto intro!: bit_eqI simp: bit_simps push_bit_eq_mult [symmetric] drop_bit_eq_div [symmetric])
qed

lemma power_of_two_and: "2 ^ k AND (2 ^ k - 1) = (0 :: nat)"
proof -
  have "take_bit k (2 ^ k :: nat) = 0" by (simp add: take_bit_eq_mod)
  then show ?thesis by (simp add: take_bit_eq_mask mask_eq_exp_minus_1)
qed

lemma and_pred_zero: "0 < n \<Longrightarrow> n AND (n - 1) = 0 \<Longrightarrow> \<exists>k. n = 2 ^ k" for n :: nat
proof (induction n rule: less_induct)
  case (less n)
  show ?case
  proof (cases "even n")
    case True
    then obtain a where a: "n = 2 * a" "0 < a" using less.prems(1) by auto
    have "n - 1 = 2 * (a - 1) + 1" using a by simp
    then have "n AND (n - 1) = 2 * (a AND (a - 1))"
      using and_rec [of n "n - 1"] a by simp
    then have "a AND (a - 1) = 0" using less.prems(2) by simp
    then obtain k where "a = 2 ^ k" using less.IH [of a] a by auto
    then show ?thesis using a by (intro exI [of _ "Suc k"]) simp
  next
    case False
    then have "n AND (n - 1) = 2 * (n div 2)"
      using and_rec [of n "n - 1"] by (auto elim!: oddE)
    then have "n = 2 ^ 0" using False less.prems(2) by (auto elim!: oddE)
    then show ?thesis by blast
  qed
qed

lemma usub_0:
  assumes "0 < p" "p < 2 ^ w"
  shows "usub w 0 p = 2 ^ w - p"
proof -
  have "int p < 2 ^ w" using assms(2) by (metis of_nat_less_iff of_nat_numeral of_nat_power)
  then have "(- int p) mod 2 ^ w = 2 ^ w - int p" using assms(1) by (simp add: zmod_zminus1_eq_if)
  then show ?thesis using assms(2) by (simp add: usub_def nat_diff_distrib nat_power_eq)
qed

lemma div_plus: "d < s \<Longrightarrow> (q * s + d) div s = (q :: nat)"
  by simp

lemma round_up:
  assumes "d < s"
  shows "(q * s + d + s - 1) div s * s = q * s + (if d = 0 then 0 else (s :: nat))"
proof (cases "d = 0")
  case True
  have "q * s + d + s - 1 = q * s + (s - 1)" using True assms by simp
  then show ?thesis using True assms by (simp only: div_plus) simp
next
  case False
  have "q * s + d + s - 1 = (q + 1) * s + (d - 1)" using False by simp
  moreover have "((q + 1) * s + (d - 1)) div s = q + 1" using assms by (intro div_plus) simp
  ultimately show ?thesis using False by simp
qed

lemma last_block:
  assumes "q * s + d < r * s" "d < s" "r * s \<le> q * s + d + s - 1"
  shows "r * s = q * s + s \<and> 0 < (d :: nat)"
proof -
  have "q < r" using assms(1) by (metis add_lessD1 mult_less_cancel2)
  moreover have "r < q + 2"
  proof (rule ccontr)
    assume "\<not> r < q + 2"
    then have "(q + 2) * s \<le> r * s" by (intro mult_right_mono) auto
    then show False using assms(2,3) by simp
  qed
  ultimately have r: "r = q + 1" by simp
  then show ?thesis using assms by (cases d) auto
qed

lemma align_gap_value:
  assumes "k < w" "p = q * 2 ^ k + d" "d < 2 ^ k" "p < 2 ^ w"
  shows "usub w (uw w (p + 2 ^ k - 1) AND (2 ^ w - 1 - (2 ^ k - 1))) p = (if d = 0 then 0 else 2 ^ k - d)"
proof -
  let ?s = "2 ^ k :: nat"
  have mask: "2 ^ w - 1 - (?s - 1) = 2 ^ w - ?s" by simp
  have le: "?s \<le> 2 ^ w" using assms(1) by simp
  show ?thesis
  proof (cases "p + ?s - 1 < 2 ^ w")
    case True
    have "(p + ?s - 1) div ?s * ?s = q * ?s + (if d = 0 then 0 else ?s)"
      using round_up [OF assms(3), of q] assms(2) by simp
    then have eq: "uw w (p + ?s - 1) AND (2 ^ w - 1 - (?s - 1)) = p + (if d = 0 then 0 else ?s - d)"
      using True assms by (simp only: mask uw_less and_high_mask less_imp_le) simp
    moreover have "p + (if d = 0 then 0 else ?s - d) < 2 ^ w"
      using True assms(2,3,4) by auto
    ultimately show ?thesis by (simp only: eq) (simp add: usub_le)
  next
    case False
    obtain r where r: "2 ^ w = r * ?s" using le_imp_power_dvd [of k w "2::nat"] assms(1) by (auto elim: dvdE simp: mult.commute)
    have L: "2 ^ w = q * ?s + ?s \<and> 0 < d"
      using last_block [of q ?s d r] assms(2-4) False r by simp
    have d1: "d - 1 < 2 ^ w" using assms(3) le by linarith
    have "p + ?s - 1 = 2 ^ w + (d - 1)" using L assms(2) by simp
    then have uw: "uw w (p + ?s - 1) = d - 1" using d1 by (simp only: uw_def mod_add_self1 mod_less)
    have "uw w (p + ?s - 1) AND (2 ^ w - 1 - (?s - 1)) = 0"
      unfolding uw mask using assms(1,3) by (subst and_high_mask [OF d1]) auto
    moreover have "usub w 0 p = ?s - d" using L assms(2,4) by (subst usub_0) auto
    ultimately show ?thesis using L by simp
  qed
qed

lemma align_gap_power:
  assumes "0 < k" "k \<le> 32" "k < uint_bits c" "p < 2 ^ uint_bits c"
  shows "lzo_align_gap c p (2 ^ k) < 2 ^ k" "(p + lzo_align_gap c p (2 ^ k)) mod 2 ^ k = 0"
proof -
  let ?s = "2 ^ k :: nat"
  define q d where "q = p div ?s" and "d = p mod ?s"
  have p: "p = q * ?s + d" "d < ?s" by (simp_all add: q_def d_def div_mult_mod_eq)
  have s2: "2 \<le> ?s" using assms(1) power_increasing [of 1 k "2::nat"] by simp
  have lt32: "?s \<le> 2 ^ 32" using assms(2) by (intro power_increasing) auto
  have "lzo_align_gap c p ?s = (if d = 0 then 0 else ?s - d)"
    using s2 align_gap_value [OF assms(3) p assms(4)] lt32 p(2)
    by (simp add: lzo_align_gap_def Let_def power_of_two_and [simplified] lzo_ptr_linear_def)
  then show "lzo_align_gap c p ?s < ?s" "(p + lzo_align_gap c p ?s) mod ?s = 0" using p by simp_all
qed

section \<open>Adler-32: lemmas\<close>

definition adler_step :: "u8 \<Rightarrow> sums \<Rightarrow> sums" where
  "adler_step b s = (fst s + ucast b, snd s + (fst s + ucast b))"

definition part :: "'r mem \<Rightarrow> 'r ptr \<Rightarrow> nat \<Rightarrow> u8 list" where
  "part m p n = take n (drop (snd p) (m (fst p)))"

text \<open>A routine adds \<open>n\<close> bytes to the sums.\<close>

definition adds :: "('r mem \<Rightarrow> 'r ptr \<Rightarrow> nat \<Rightarrow> sums \<Rightarrow> sums option) \<Rightarrow> nat \<Rightarrow> bool" where
  "adds f n \<longleftrightarrow> (\<forall>m p i s. snd p + i + n \<le> length (m (fst p)) \<longrightarrow>
     f m p i s = Some (fold adler_step (part m (padd p i) n) s))"

lemma part_add: "part m p (j + k) = part m p j @ part m (padd p j) k"
  by (simp add: part_def take_add add.commute)

lemma part_Suc: "snd p < length (m (fst p)) \<Longrightarrow> part m p (Suc n) = m (fst p) ! snd p # part m (padd p 1) n"
  by (simp add: part_def take_Suc hd_drop_conv_nth drop_Suc [symmetric] tl_drop)

lemma part_0 [simp]: "part m p 0 = []"
  by (simp add: part_def)

lemma addsD: "adds f n \<Longrightarrow> snd p + i + n \<le> length (m (fst p)) \<Longrightarrow>
    f m p i s = Some (fold adler_step (part m (padd p i) n) s)"
  unfolding adds_def by blast

lemma adds_1: "adds LZO_DO1 1"
  unfolding adds_def
proof (intro allI impI)
  fix m :: "'a mem" and p i s
  assume "snd p + i + 1 \<le> length (m (fst p))"
  then show "LZO_DO1 m p i s = Some (fold adler_step (part m (padd p i) 1) s)"
    using part_Suc [of "padd p i" m 0] by (simp add: LZO_DO1_def rd_def adler_step_def Let_def)
qed

lemma adds_twice:
  assumes "adds f n" "\<And>m p i s. g m p i s = do { s \<leftarrow> f m p i s; f m p (i + n) s }" "k = n + n"
  shows "adds g k"
  unfolding adds_def
proof (intro allI impI)
  fix m :: "'a mem" and p i s
  assume "snd p + i + k \<le> length (m (fst p))"
  then show "g m p i s = Some (fold adler_step (part m (padd p i) k) s)"
    using addsD [OF assms(1), of p i m s] addsD [OF assms(1), of p "i + n" m] assms(2,3)
    by (simp add: part_add)
qed

lemma adds_16: "adds LZO_DO16 16"
proof -
  have "adds LZO_DO2 2" by (rule adds_twice [OF adds_1]) (simp_all add: LZO_DO2_def)
  then have "adds LZO_DO4 4" by (rule adds_twice) (simp_all add: LZO_DO4_def)
  then have "adds LZO_DO8 8" by (rule adds_twice) (simp_all add: LZO_DO8_def)
  then show ?thesis by (rule adds_twice) (simp_all add: LZO_DO16_def)
qed

lemma adler_do16s_eq:
  assumes "snd p + k \<le> length (m (fst p))"
  shows "adler_do16s m p k s = Some (padd p (k - k mod 16), k mod 16, fold adler_step (part m p (k - k mod 16)) s)"
  using assms
proof (induction m p k s rule: adler_do16s.induct)
  case (1 m p k s)
  show ?case
  proof (cases "16 \<le> k")
    case True
    have k: "k - k mod 16 = 16 + (k - 16 - (k - 16) mod 16)" "(k - 16) mod 16 = k mod 16"
      using True by (simp_all add: le_mod_geq)
    have "LZO_DO16 m p 0 s = Some (fold adler_step (part m p 16) s)"
      using addsD [OF adds_16, of p 0 m s] True "1.prems" by simp
    then show ?thesis
      using True "1.IH" [OF True] "1.prems" k part_add [of m p 16 "k - 16 - (k - 16) mod 16"]
      by (subst adler_do16s.simps) simp
  next
    case False
    then show ?thesis by (subst adler_do16s.simps) (simp add: part_def)
  qed
qed

lemma adler_rest_eq:
  "snd p + k \<le> length (m (fst p)) \<Longrightarrow>
    adler_rest m p k s = Some (padd p k, fold adler_step (part m p k) s)"
proof (induction m p k s rule: adler_rest.induct)
  case (2 m p k s)
  have "LZO_DO1 m p 0 s = Some (adler_step (m (fst p) ! snd p) s)"
    using addsD [OF adds_1, of p 0 m s] part_Suc [of p m 0] "2.prems" by simp
  then show ?case using 2 part_Suc [of p m k] by simp
qed simp

text \<open>The sums as natural numbers, and the reference: reduced after every byte.\<close>

definition nat_step :: "u8 \<Rightarrow> nat \<times> nat \<Rightarrow> nat \<times> nat" where
  "nat_step b s = (fst s + unat b, snd s + (fst s + unat b))"

definition ref_step :: "u8 \<Rightarrow> nat \<times> nat \<Rightarrow> nat \<times> nat" where
  "ref_step b s = ((fst s + unat b) mod 65521, (snd s + (fst s + unat b)) mod 65521)"

definition to_nats :: "sums \<Rightarrow> nat \<times> nat" where
  "to_nats s = (unat (fst s), unat (snd s))"

definition mods :: "nat \<times> nat \<Rightarrow> nat \<times> nat" where
  "mods s = (fst s mod 65521, snd s mod 65521)"

lemma mods_step: "mods (nat_step b s) = ref_step b (mods s)"
  by (simp add: mods_def nat_step_def ref_step_def mod_simps) (metis mod_add_left_eq mod_add_right_eq)

lemma mods_fold: "mods (fold nat_step bs s) = fold ref_step bs (mods s)"
  by (induction bs arbitrary: s) (simp_all add: mods_step)

lemma nat_fold_bound:
  "fst (fold nat_step bs s) \<le> fst s + 255 * length bs \<and>
   snd (fold nat_step bs s) \<le> snd s + length bs * fst s + 255 * (length bs * (length bs + 1) div 2)"
proof (induction bs rule: rev_induct)
  case (snoc b bs)
  have "(length bs + 1) * (length bs + 2) div 2 = length bs * (length bs + 1) div 2 + (length bs + 1)"
  proof -
    have "(length bs + 1) * (length bs + 2) = length bs * (length bs + 1) + (length bs + 1) * 2" by (simp add: algebra_simps)
    then show ?thesis by simp
  qed
  then show ?case using snoc u8_less [of b] by (simp add: nat_step_def algebra_simps)
qed simp

text \<open>\<^verbatim>\<open>LZO_NMAX\<close> bytes do not overflow 32 bits, from any sums of 16 bits.\<close>

lemma no_overflow:
  assumes "length bs \<le> 5552" "fst s < 65536" "snd s < 65536"
  shows "fst (fold nat_step bs s) < 2 ^ 32 \<and> snd (fold nat_step bs s) < 2 ^ 32"
proof -
  have a: "length bs * fst s \<le> 5552 * 65535" using assms by (intro mult_le_mono) auto
  have "length bs * (length bs + 1) \<le> 5552 * 5553" using assms(1) by (intro mult_le_mono) auto
  then have "length bs * (length bs + 1) div 2 \<le> 15415128" by simp
  with a nat_fold_bound [of bs s] assms show ?thesis by simp
qed

lemma unat_ucast_8_32: "unat (ucast (b :: u8) :: u32) = unat b"
  using u8_less [of b] by (simp add: unsigned_ucast_eq take_bit_nat_eq_self_iff)

lemma word_fold:
  assumes "length bs \<le> 5552" "fst (to_nats s) < 65536" "snd (to_nats s) < 65536"
  shows "to_nats (fold adler_step bs s) = fold nat_step bs (to_nats s)"
  using assms(1)
proof (induction bs rule: rev_induct)
  case (snoc b bs)
  then have IH: "to_nats (fold adler_step bs s) = fold nat_step bs (to_nats s)" by simp
  have "fst (nat_step b (to_nats (fold adler_step bs s))) < 2 ^ 32 \<and> snd (nat_step b (to_nats (fold adler_step bs s))) < 2 ^ 32"
    using no_overflow [OF snoc.prems assms(2,3)] by (simp add: IH)
  then have "to_nats (adler_step b (fold adler_step bs s)) = nat_step b (to_nats (fold adler_step bs s))"
    by (simp add: to_nats_def adler_step_def nat_step_def unat_word_ariths unat_ucast_8_32)
  then show ?case by (simp add: IH)
qed simp

lemma word_reduce: "to_nats (fst s mod LZO_BASE, snd s mod LZO_BASE) = mods (to_nats s)"
  by (simp add: to_nats_def mods_def LZO_BASE_def unat_mod_distrib)

lemma mods_less: "fst (mods s) < 65536" "snd (mods s) < 65536"
  by (simp_all add: mods_def less_trans [OF mod_less_divisor])

lemma adler_loop_eq:
  assumes "snd p + len \<le> length (m (fst p))" "fst (to_nats s) < 65536" "snd (to_nats s) < 65536"
  shows "\<exists>s'. adler_loop m p len s = Some s' \<and>
    to_nats s' = (if len = 0 then to_nats s else fold ref_step (part m p len) (mods (to_nats s)))"
  using assms
proof (induction m p len s rule: adler_loop.induct)
  case (1 m p len s)
  show ?case
  proof (cases "0 < len")
    case True
    define k where "k = (if len < LZO_NMAX then len else LZO_NMAX)"
    have k: "k \<le> len" "0 < k" "k \<le> 5552" using True by (auto simp: k_def LZO_NMAX_def)
    define s1 where "s1 = fold adler_step (part m p k) s"
    have r: "adler_do16s m p k s = Some (padd p (k - k mod 16), k mod 16, fold adler_step (part m p (k - k mod 16)) s)"
      using "1.prems"(1) k by (intro adler_do16s_eq) simp
    have "adler_rest m (padd p (k - k mod 16)) (k mod 16) (fold adler_step (part m p (k - k mod 16)) s) =
        Some (padd p k, fold adler_step (part m (padd p (k - k mod 16)) (k mod 16)) (fold adler_step (part m p (k - k mod 16)) s))"
      using "1.prems"(1) k by (subst adler_rest_eq) (auto simp: trans_le_add1)
    also have "fold adler_step (part m (padd p (k - k mod 16)) (k mod 16)) (fold adler_step (part m p (k - k mod 16)) s) = s1"
      using part_add [of m p "k - k mod 16" "k mod 16"] by (simp add: s1_def)
    finally have r2: "adler_rest m (padd p (k - k mod 16)) (k mod 16) (fold adler_step (part m p (k - k mod 16)) s) = Some (padd p k, s1)" .
    define s2 where "s2 = (fst s1 mod LZO_BASE, snd s1 mod LZO_BASE)"
    have s2: "to_nats s2 = fold ref_step (part m p k) (mods (to_nats s))"
      using word_fold [OF _ "1.prems"(2,3), of "part m p k"] k(3)
      by (simp add: s2_def s1_def word_reduce mods_fold part_def)
    have step: "adler_loop m p len s = adler_loop m (padd p k) (len - k) s2"
      using True r r2 by (subst adler_loop.simps) (simp add: k_def [symmetric] s2_def)
    have room: "snd (padd p k) + (len - k) \<le> length (m (fst (padd p k)))" using "1.prems"(1) k by simp
    have small: "fst (to_nats s2) < 65536" "snd (to_nats s2) < 65536"
      using mods_less by (simp_all add: s2_def word_reduce)
    obtain s' where s': "adler_loop m (padd p k) (len - k) s2 = Some s'"
      "to_nats s' = (if len - k = 0 then to_nats s2 else fold ref_step (part m (padd p k) (len - k)) (mods (to_nats s2)))"
      using "1.IH" [OF True k_def r refl refl r2 refl, folded s2_def] room small by auto
    have "mods (to_nats s2) = to_nats s2" by (simp add: s2_def word_reduce) (simp add: mods_def)
    then have "to_nats s' = fold ref_step (part m p len) (mods (to_nats s))"
      using s'(2) s2 k part_add [of m p k "len - k"] by (cases "len - k = 0") (auto simp: part_def)
    then show ?thesis using True step s'(1) by simp
  next
    case False
    then show ?thesis by (subst adler_loop.simps) simp
  qed
qed

definition adler_ref :: "nat \<Rightarrow> u8 list \<Rightarrow> nat" where
  "adler_ref adler bs = (let s = fold ref_step bs (mods (adler mod 65536, adler div 65536)) in
     snd s * 65536 + fst s)"

lemma bit_less: "x < 2 ^ k \<Longrightarrow> bit (x :: nat) n \<Longrightarrow> n < k"
  by (metis bit_take_bit_iff take_bit_nat_eq_self)

lemma u32_high: "unat (a :: u32) div 65536 < 65536"
proof -
  have "unat a < 2 ^ LENGTH(32)" by (rule unsigned_less)
  then show ?thesis by (simp add: less_mult_imp_div_less)
qed

lemma pack_sums:
  assumes "unat s1 < 65536"
  shows "push_bit 16 s2 OR s1 = (word_of_nat (unat s2 * 65536 + unat s1) :: u32)"
proof -
  have s1: "bit s1 n \<Longrightarrow> n < 16" for n
  proof -
    assume "bit s1 n"
    then have "bit (unat s1) n" by (simp add: bit_unsigned_iff)
    then show "n < 16" using bit_less [of "unat s1" 16 n] assms by simp
  qed
  have "push_bit 16 s2 AND s1 = 0"
    by (rule bit_eqI) (auto simp: bit_simps dest: s1)
  then have "push_bit 16 s2 OR s1 = push_bit 16 s2 + s1" by (simp add: disjunctive_add_eq_or)
  also have "\<dots> = word_of_nat (unat s2 * 65536 + unat s1)"
    by (simp add: push_bit_eq_mult mult.commute)
  finally show ?thesis .
qed

lemma start_sums:
  "to_nats (adler AND 0xffff, drop_bit 16 adler AND 0xffff) = (unat adler mod 65536, unat adler div 65536)"
proof -
  have m: "0xffff = (mask 16 :: u32)" by (simp add: mask_eq_exp_minus_1)
  have "unat adler div 65536 < 65536" by (rule u32_high)
  then show ?thesis
    unfolding m take_bit_eq_mask [symmetric] to_nats_def
    by (simp add: unsigned_take_bit_eq unsigned_drop_bit_eq take_bit_eq_mod drop_bit_eq_div
        unat_mod_distrib unat_div_distrib)
qed

lemma fold_ref_small:
  assumes "fst s < 65521" "snd s < 65521"
  shows "fst (fold ref_step bs s) < 65521 \<and> snd (fold ref_step bs s) < 65521"
  using assms by (induction bs arbitrary: s) (simp_all add: ref_step_def)

lemma mods_small: "fst (mods s) < 65521" "snd (mods s) < 65521"
  by (simp_all add: mods_def)

lemma mods_id: "fst s < 65521 \<Longrightarrow> snd s < 65521 \<Longrightarrow> mods s = s"
  by (simp add: mods_def)

lemma lzo_adler32_eq:
  assumes "snd p + len \<le> length (m (fst p))"
  shows "lzo_adler32 m adler (Some p) len =
    Some (if len = 0 then adler else word_of_nat (adler_ref (unat adler) (part m p len)))"
proof -
  let ?s = "(adler AND 0xffff, drop_bit 16 adler AND 0xffff)"
  have st: "to_nats ?s = (unat adler mod 65536, unat adler div 65536)" by (rule start_sums)
  have "unat adler div 65536 < 65536" by (rule u32_high)
  then have small: "fst (to_nats ?s) < 65536" "snd (to_nats ?s) < 65536" by (simp_all add: st)
  obtain s where s: "adler_loop m p len ?s = Some s"
    "to_nats s = (if len = 0 then to_nats ?s else fold ref_step (part m p len) (mods (to_nats ?s)))"
    using adler_loop_eq [where m = m, OF assms small] by blast
  have f: "unat (fst s) < 65536"
    using s(2) small fold_ref_small [OF mods_small, of "part m p len" "to_nats ?s"]
    by (cases "len = 0") (auto simp: to_nats_def prod_eq_iff)
  have run: "lzo_adler32 m adler (Some p) len = Some (word_of_nat (unat (snd s) * 65536 + unat (fst s)))"
    using s(1) pack_sums [OF f, of "snd s"] by (cases s) (simp add: lzo_adler32_def)
  show ?thesis
  proof (cases "len = 0")
    case True
    then have "unat (snd s) * 65536 + unat (fst s) = unat adler"
      using s(2) st by (simp add: to_nats_def prod_eq_iff mult.commute)
    then show ?thesis unfolding run by (simp add: True)
  next
    case False
    then have "unat (snd s) * 65536 + unat (fst s) = adler_ref (unat adler) (part m p len)"
      using s(2) st by (simp add: adler_ref_def Let_def to_nats_def prod_eq_iff)
    then show ?thesis unfolding run by (simp only: False if_False)
  qed
qed

lemma adler_ref_append:
  assumes "bs \<noteq> []"
  shows "adler_ref (adler_ref a bs) cs = adler_ref a (bs @ cs) \<and> adler_ref a bs < 2 ^ 32"
proof -
  let ?s = "fold ref_step bs (mods (a mod 65536, a div 65536))"
  have small: "fst ?s < 65521" "snd ?s < 65521" using fold_ref_small [OF mods_small] by auto
  have "adler_ref a bs mod 65536 = fst ?s" "adler_ref a bs div 65536 = snd ?s" "adler_ref a bs < 2 ^ 32"
    using small by (simp_all add: adler_ref_def Let_def)
  then show ?thesis using small by (simp add: adler_ref_def Let_def mods_id)
qed

section \<open>Strings of bytes: lemmas\<close>

definition moved :: "'r mem \<Rightarrow> 'r ptr \<Rightarrow> 'r ptr \<Rightarrow> nat \<Rightarrow> 'r mem" where
  "moved m d s n = m(fst d := take (snd d) (m (fst d)) @ part m s n @ drop (snd d + n) (m (fst d)))"

abbreviation fits :: "'r mem \<Rightarrow> 'r ptr \<Rightarrow> nat \<Rightarrow> bool" where
  "fits m p n \<equiv> snd p + n \<le> length (m (fst p))"

lemma wide_moved: "fits m d n \<Longrightarrow> fits m s n \<Longrightarrow> wide m d s n = Some (moved m d s n)"
  by (simp add: wide_def load_def store_def moved_def part_def)

lemma mv_up_moved:
  assumes "fits m (r, i) n" "fits m (r, j) n" "i < j"
  shows "mv m (r, i) (r, j) n = Some (moved m (r, i) (r, j) n)"
  using assms
proof (induction n arbitrary: m i j)
  case 0
  then show ?case by (simp add: moved_def)
next
  case (Suc n)
  let ?m = "m(r := (m r)[i := m r ! j])"
  have "mv ?m (r, i + 1) (r, j + 1) n = Some (moved ?m (r, i + 1) (r, j + 1) n)"
    using Suc.prems by (intro Suc.IH) auto
  moreover have "moved ?m (r, i + 1) (r, j + 1) n = moved m (r, i) (r, j) (Suc n)"
    using Suc.prems part_Suc [of "(r, j)" m n] by (simp add: moved_def part_def take_Suc_conv_app_nth)
  ultimately show ?case using Suc.prems by simp
qed

lemma mv_down_moved:
  assumes "fits m d n" "fits m s n" "fst d = fst s \<Longrightarrow> snd s \<le> snd d"
  shows "mv_down m d s n = Some (moved m d s n)"
  using assms
proof (induction n arbitrary: m)
  case 0
  then show ?case by (simp add: moved_def)
next
  case (Suc n)
  let ?b = "m (fst s) ! (snd s + n)"
  let ?m = "m(fst d := (m (fst d))[snd d + n := ?b])"
  have "mv_down ?m d s n = Some (moved ?m d s n)"
    using Suc.prems by (intro Suc.IH) auto
  moreover have "moved ?m d s n = moved m d s (Suc n)"
  proof -
    have "part ?m s n = part m s n" using Suc.prems(3) by (auto simp: part_def take_drop)
    moreover have "part m s (Suc n) = part m s n @ [?b]"
      using part_add [of m s n 1] part_Suc [of "padd s n" m 0] Suc.prems(2) by simp
    ultimately show ?thesis
      using Suc.prems(1) by (simp add: moved_def Cons_nth_drop_Suc [symmetric])
  qed
  ultimately show ?case using Suc.prems by (simp add: rd_def wr_def)
qed

lemma mv_apart_moved:
  assumes "fits m d n" "fits m s n" "fst d \<noteq> fst s"
  shows "mv m d s n = Some (moved m d s n)"
  using assms mv_disjoint [of "fst s" "fst d" "snd s" n m "snd d"] by (simp add: moved_def part_def)

lemma moved_0: "n = 0 \<or> d = s \<Longrightarrow> fits m d n \<Longrightarrow> moved m d s n = m"
proof -
  assume a: "n = 0 \<or> d = s" "fits m d n"
  have "take (snd d) (m (fst d)) @ part m s n @ drop (snd d + n) (m (fst d)) = m (fst d)"
  proof (cases "n = 0")
    case False
    then have "part m s n @ drop (snd d + n) (m (fst d)) = drop (snd d) (m (fst d))"
      using a(1) append_take_drop_id [of n "drop (snd d) (m (fst d))"] by (simp add: part_def add.commute)
    then show ?thesis by simp
  qed simp
  then show ?thesis by (simp add: moved_def)
qed

lemma set_loop_store: "fits m p n \<Longrightarrow> set_loop m p c n = store m p (replicate n c)"
proof (induction m p c n rule: set_loop.induct)
  case (2 m p c n)
  then show ?case
    by (cases p) (simp add: store_def take_Suc_conv_app_nth wr_def)
qed (simp add: store_def)

lemma memcmp_loop_eq:
  assumes "fits m p n" "fits m q n"
  shows "\<exists>d. memcmp_loop m p q n = Some d \<and> (d = 0 \<longleftrightarrow> part m p n = part m q n) \<and>
    (d < 0 \<longleftrightarrow> (\<exists>k < n. take k (part m p n) = take k (part m q n) \<and> part m p n ! k < part m q n ! k))"
  using assms
proof (induction m p q n rule: memcmp_loop.induct)
  case (2 m p q n)
  let ?a = "m (fst p) ! snd p" and ?b = "m (fst q) ! snd q"
  have ab: "part m p (Suc n) = ?a # part m (padd p 1) n" "part m q (Suc n) = ?b # part m (padd q 1) n"
    using 2 by (simp_all add: part_Suc)
  show ?case
  proof (cases "?a = ?b")
    case True
    then show ?thesis using 2 unfolding ab ex_less_Suc_split_first by (auto simp: rd_def)
  next
    case False
    then have "unat ?a \<noteq> unat ?b" by (simp add: word_unat_eq_iff)
    then have d: "int (unat ?a) - int (unat ?b) \<noteq> 0" by (metis eq_iff_diff_eq_0 of_nat_eq_iff)
    have "rd m p = Some ?a" "rd m q = Some ?b" using "2.prems" by (simp_all add: rd_def)
    then have "memcmp_loop m p q (Suc n) = Some (int (unat ?a) - int (unat ?b))"
      by (simp only: memcmp_loop.simps Option.bind.simps Let_def if_P [OF d])
    with False d show ?thesis
      unfolding ab ex_less_Suc_split_first by (simp add: word_less_def del: memcmp_loop.simps)
  qed
qed simp

lemma lzo_memmove_loop:
  assumes "fits m d n" "fits m s n" "fst d = fst s \<Longrightarrow> base (fst d) = base (fst s)"
  shows "lzo_memmove False base m d s n = Some (moved m d s n)"
proof -
  consider (none) "n = 0 \<or> d = s" | (other) "0 < n" "fst d \<noteq> fst s"
    | (same) r i j where "0 < n" "d = (r, i)" "s = (r, j)" "i \<noteq> j"
    by (metis neq0_conv prod.collapse)
  then show ?thesis
  proof cases
    case none
    then show ?thesis using moved_0 [of n d s m] none assms(1) by (auto simp: lzo_memmove_def)
  next
    case other
    then show ?thesis
      using mv_apart_moved [OF assms(1,2)] mv_down_moved [OF assms(1,2)] by (auto simp: lzo_memmove_def)
  next
    case same
    then show ?thesis
      using mv_up_moved [where m = m and r = r and i = i and n = n and j = j] mv_down_moved [OF assms(1,2)] assms(1,2)
      by (auto simp: lzo_memmove_def)
  qed
qed

section \<open>Properties of the utilities\<close>

definition util_mem :: "unit mem" where
  "util_mem = (\<lambda>_. [1, 2, 3, 4, 5, 6])"

text \<open>
  C11. \<^verbatim>\<open>lzo_adler32\<close> computes the Adler-32 checksum: the two sums modulo 65521, reduced
  after every byte in the reference. In particular 5552 bytes between two reductions, from
  any start value of the caller, never overflow 32 bits.
\<close>

theorem adler32_reference:
  assumes "snd p + len \<le> length (m (fst p))" "0 < len"
  shows "lzo_adler32 m adler (Some p) len = Some (word_of_nat (adler_ref (unat adler) (part m p len)))"
  using lzo_adler32_eq [where m = m, OF assms(1)] assms(2) by simp

theorem adler32_reference_witness:
  "lzo_adler32 util_mem 1 (Some ((), 0)) 3 = Some (word_of_nat (adler_ref 1 [1, 2, 3]))"
  using adler32_reference [of "((), 0)" 3 util_mem 1] by (simp add: util_mem_def part_def)

text \<open>
  The checksum can be computed piecewise: the checksum of a buffer is the checksum of
  its second part started from that of its first part.
\<close>

lemma adler32_append:
  assumes "snd p + (j + k) \<le> length (m (fst p))"
  shows "lzo_adler32 m adler (Some p) (j + k) = do {
    a \<leftarrow> lzo_adler32 m adler (Some p) j; lzo_adler32 m a (Some (padd p j)) k }"
proof (cases "j = 0 \<or> k = 0")
  case True
  then show ?thesis using assms by (auto simp: lzo_adler32_eq)
next
  case False
  then have "part m p j \<noteq> []" using assms by (simp add: part_def)
  from adler_ref_append [OF this, of "unat adler" "part m (padd p j) k"] show ?thesis
    using assms False by (simp add: lzo_adler32_eq part_add unat_of_nat)
qed

text \<open>
  \<^verbatim>\<open>lzo_memmove\<close> with byte loops does what the routine of the C library does, on ranges
  that overlap in either direction: the destination becomes the source as it was, and
  nothing else changes.
\<close>

lemma memmove_same:
  assumes "snd d + n \<le> length (m (fst d))" "snd s + n \<le> length (m (fst s))"
  shows "lzo_memmove False base m d s n = lzo_memmove True base m d s n \<and>
    lzo_memmove True base m d s n = Some (m(fst d :=
      take (snd d) (m (fst d)) @ take n (drop (snd s) (m (fst s))) @ drop (snd d + n) (m (fst d))))"
  using lzo_memmove_loop [OF assms] wide_moved [OF assms]
  by (simp add: lzo_memmove_def moved_def part_def)

text \<open>
  \<^verbatim>\<open>lzo_memcmp\<close> with a byte loop orders the two ranges lexicographically, as unsigned
  bytes: zero exactly on equal ranges, negative exactly when the first difference is smaller
  on the left.
\<close>

lemma memcmp_order:
  assumes "snd p + n \<le> length (m (fst p))" "snd q + n \<le> length (m (fst q))"
  shows "\<exists>d. lzo_memcmp None m p q n = Some d \<and> (d = 0 \<longleftrightarrow> part m p n = part m q n) \<and>
    (d < 0 \<longleftrightarrow> (\<exists>k < n. take k (part m p n) = take k (part m q n) \<and> part m p n ! k < part m q n ! k))"
  using memcmp_loop_eq [OF assms] by (simp add: lzo_memcmp_def)

text \<open>
  \<^verbatim>\<open>__lzo_align_gap\<close> on a power of two: the gap is smaller than the size and leads to
  the next aligned address, also at the end of the address space, where \<open>p + n - 1\<close>
  wraps around; the two assertions of the function hold. On any other size it is zero.
\<close>

lemma align_gap_aligns:
  assumes "32 \<le> uint_bits c" "p < 2 ^ uint_bits c" "2 \<le> sz" "sz < 2 ^ 32"
  shows "(if sz AND (sz - 1) = 0 then lzo_align_gap c p sz < sz \<and> (p + lzo_align_gap c p sz) mod sz = 0
    else lzo_align_gap c p sz = 0)"
proof (cases "sz AND (sz - 1) = 0")
  case True
  then obtain k where k: "sz = 2 ^ k" using and_pred_zero [of sz] assms(3) by auto
  have "0 < k" using k assms(3) by (cases k) auto
  moreover have "k < 32"
  proof -
    have "(2 :: nat) ^ k < 2 ^ 32" using k assms(4) by (simp only:)
    then show ?thesis by (rule power_less_imp_less_exp [rotated]) simp
  qed
  ultimately show ?thesis using True align_gap_power [of k c p] assms k by simp
qed (use assms in \<open>simp add: lzo_align_gap_def Let_def\<close>)

end
