(* ===== verification/Lzo_Init.thy ===== *)
theory Lzo_Init
  imports Lzo_Memops
begin

text \<open>
  The bit scans \<^verbatim>\<open>lzo_bitops_*\<close>, the run-time check \<^verbatim>\<open>_lzo_config_check\<close> of what the
  preprocessor assumed, and \<^verbatim>\<open>__lzo_init_v2\<close> behind the macro \<^verbatim>\<open>lzo_init()\<close>.
\<close>

section \<open>Bit scans\<close>

text \<open>What the preprocessor tests to choose an implementation.\<close>

record bits_env =
  use_msc :: bool
  use_asm :: bool
  use_gnuc :: bool
  arch_amd64 :: bool
  arch_i386 :: bool
  gnuc_asm :: bool
  sizeof_int :: nat
  sizeof_long :: nat
  sizeof_long_long :: nat
  word_size :: nat

text \<open>
  The compiler's operations, which are not part of the sources: \<^verbatim>\<open>bsr\<close> and \<^verbatim>\<open>bsf\<close> (the
  instructions and \<^verbatim>\<open>_BitScanReverse\<close>, \<^verbatim>\<open>_BitScanForward\<close>), \<^verbatim>\<open>__builtin_clz\<close> and \<^verbatim>\<open>__builtin_ctz\<close>
  with their \<^verbatim>\<open>l\<close> and \<^verbatim>\<open>ll\<close> variants.
\<close>

record builtins =
  bsr32 :: "u32 \<Rightarrow> nat"
  bsr64 :: "u64 \<Rightarrow> nat"
  bsf32 :: "u32 \<Rightarrow> nat"
  bsf64 :: "u64 \<Rightarrow> nat"
  clz :: "u32 \<Rightarrow> nat"
  clzl :: "u64 \<Rightarrow> nat"
  clzll :: "u64 \<Rightarrow> nat"
  ctz :: "u32 \<Rightarrow> nat"
  ctzl :: "u64 \<Rightarrow> nat"
  ctzll :: "u64 \<Rightarrow> nat"

definition scan32 :: "bits_env \<Rightarrow> bool" where
  "scan32 e \<longleftrightarrow> use_msc e \<and> (arch_amd64 e \<or> arch_i386 e) \<or>
     use_asm e \<and> (arch_amd64 e \<or> arch_i386 e) \<and> gnuc_asm e"

definition scan64 :: "bits_env \<Rightarrow> bool" where
  "scan64 e \<longleftrightarrow> use_msc e \<and> arch_amd64 e \<or> use_asm e \<and> arch_amd64 e \<and> gnuc_asm e"

text \<open>
  For each function the value of the macro of the same name without \<^verbatim>\<open>_func\<close>, \<^term>\<open>None\<close> where
  the macro is not defined; the function itself then returns 0.
\<close>

definition lzo_bitops_ctlz32 :: "bits_env \<Rightarrow> builtins \<Rightarrow> (u32 \<Rightarrow> nat) option" where
  "lzo_bitops_ctlz32 e B =
     (if scan32 e then Some (\<lambda>v. bsr32 B v XOR 31)
      else if use_gnuc e \<and> sizeof_int e = 4 then Some (clz B)
      else if use_gnuc e \<and> sizeof_long e = 8 \<and> 8 \<le> word_size e then Some (\<lambda>v. clzl B (ucast v) XOR 32)
      else None)"

definition lzo_bitops_ctlz64 :: "bits_env \<Rightarrow> builtins \<Rightarrow> (u64 \<Rightarrow> nat) option" where
  "lzo_bitops_ctlz64 e B =
     (if scan64 e then Some (\<lambda>v. bsr64 B v XOR 63)
      else if use_gnuc e \<and> sizeof_long e = 8 \<and> 8 \<le> word_size e then Some (clzl B)
      else if use_gnuc e \<and> sizeof_long_long e = 8 \<and> 8 \<le> word_size e then Some (clzll B)
      else None)"

definition lzo_bitops_cttz32 :: "bits_env \<Rightarrow> builtins \<Rightarrow> (u32 \<Rightarrow> nat) option" where
  "lzo_bitops_cttz32 e B =
     (if scan32 e then Some (bsf32 B)
      else if use_gnuc e \<and> 4 \<le> sizeof_int e then Some (ctz B)
      else None)"

definition lzo_bitops_cttz64 :: "bits_env \<Rightarrow> builtins \<Rightarrow> (u64 \<Rightarrow> nat) option" where
  "lzo_bitops_cttz64 e B =
     (if scan64 e then Some (bsf64 B)
      else if use_gnuc e \<and> 8 \<le> sizeof_long e \<and> 8 \<le> word_size e then Some (ctzl B)
      else if use_gnuc e \<and> 8 \<le> sizeof_long_long e \<and> 8 \<le> word_size e then Some (ctzll B)
      else None)"

definition bitops_func :: "('w::len word \<Rightarrow> nat) option \<Rightarrow> 'w word \<Rightarrow> nat" where
  "bitops_func f v = (case f of Some g \<Rightarrow> g v | None \<Rightarrow> 0)"

section \<open>The configuration check\<close>

text \<open>
  The union \<^verbatim>\<open>u\<close> is a buffer of \<^verbatim>\<open>2*LZO_MAX(8,sizeof(lzo_uint))\<close> bytes; \<open>zero_a\<close> and \<open>zero_c\<close> clear
  its members \<^verbatim>\<open>a\<close> and \<^verbatim>\<open>c\<close>, \<open>set_b\<close> assigns to a byte.
\<close>

definition sizeof_uint :: "lzo_cfg \<Rightarrow> nat" where
  "sizeof_uint c = uint_bits c div 8"

definition u_size :: "lzo_cfg \<Rightarrow> nat" where
  "u_size c = 2 * max 8 (sizeof_uint c)"

definition u2p :: "nat \<Rightarrow> unit ptr" where
  "u2p off = ((), off)"

definition zero_a :: "lzo_cfg \<Rightarrow> unit mem \<Rightarrow> unit mem option" where
  "zero_a c u = store u (u2p 0) (replicate (2 * sizeof_uint c) 0)"

definition zero_c :: "unit mem \<Rightarrow> unit mem option" where
  "zero_c u = store u (u2p 0) (replicate 16 0)"

definition set_b :: "unit mem \<Rightarrow> nat \<Rightarrow> u8 \<Rightarrow> unit mem option" where
  "set_b u i b = wr u (u2p i) b"

definition get_uint :: "lzo_cfg \<Rightarrow> unit mem \<Rightarrow> unit ptr \<Rightarrow> nat option" where
  "get_uint c u p = map_option (native_val c) (load u p (sizeof_uint c))"

text \<open>The first byte, and the byte order of \<^verbatim>\<open>lzo_uint\<close>.\<close>

definition check_uint :: "lzo_cfg \<Rightarrow> unit mem \<Rightarrow> (unit mem \<times> bool) option" where
  "check_uint c u = do {
     u \<leftarrow> zero_a c u;
     b \<leftarrow> rd u (u2p 0);
     let r = (b = 0);
     (u, r) \<leftarrow> (if abi c = ABI_BIG then do {
         u \<leftarrow> zero_a c u; u \<leftarrow> set_b u (sizeof_uint c - 1) 128;
         v \<leftarrow> get_uint c u (u2p 0); Some (u, r \<and> v = 128) }
       else Some (u, r));
     (if abi c = ABI_LITTLE then do {
         u \<leftarrow> zero_a c u; u \<leftarrow> set_b u 0 128;
         v \<leftarrow> get_uint c u (u2p 0); Some (u, r \<and> v = 128) }
       else Some (u, r)) }"

text \<open>16-bit accesses at an odd address, between two bytes that must not be seen.\<close>

definition check_16 :: "lzo_cfg \<Rightarrow> unit mem \<Rightarrow> (unit mem \<times> bool) option" where
  "check_16 c u = do {
     u \<leftarrow> zero_a c u; u \<leftarrow> set_b u 0 1; u \<leftarrow> set_b u 3 2;
     let p = u2p 1;
     v1 \<leftarrow> UA_GET_NE16 c u p;
     v2 \<leftarrow> UA_GET_LE16 c u p;
     u \<leftarrow> set_b u 1 128;
     v3 \<leftarrow> UA_GET_LE16 c u p;
     u \<leftarrow> set_b u 2 129;
     v4 \<leftarrow> UA_GET_LE16 c u p;
     v5 \<leftarrow> UA_GET_NE16 c u p;
     Some (u, v1 = 0 \<and> v2 = 0 \<and> v3 = 128 \<and> v4 = 0x8180 \<and>
       (abi c = ABI_BIG \<longrightarrow> v5 = 0x8081) \<and> (abi c = ABI_LITTLE \<longrightarrow> v5 = 0x8180)) }"

definition check_32 :: "lzo_cfg \<Rightarrow> unit mem \<Rightarrow> (unit mem \<times> bool) option" where
  "check_32 c u = do {
     u \<leftarrow> zero_a c u; u \<leftarrow> set_b u 0 3; u \<leftarrow> set_b u 5 4;
     let p = u2p 1;
     v1 \<leftarrow> UA_GET_NE32 c u p;
     v2 \<leftarrow> UA_GET_LE32 c u p;
     u \<leftarrow> set_b u 1 128;
     v3 \<leftarrow> UA_GET_LE32 c u p;
     u \<leftarrow> set_b u 2 129; u \<leftarrow> set_b u 3 130; u \<leftarrow> set_b u 4 131;
     v4 \<leftarrow> UA_GET_LE32 c u p;
     v5 \<leftarrow> UA_GET_NE32 c u p;
     Some (u, v1 = 0 \<and> v2 = 0 \<and> v3 = 128 \<and> v4 = 0x83828180 \<and>
       (abi c = ABI_BIG \<longrightarrow> v5 = 0x80818283) \<and> (abi c = ABI_LITTLE \<longrightarrow> v5 = 0x83828180)) }"

text \<open>The two sentinels are cleared again by the second \<^verbatim>\<open>u.c[0] = u.c[1] = 0\<close>.\<close>

definition check_64 :: "lzo_cfg \<Rightarrow> unit mem \<Rightarrow> (unit mem \<times> bool) option" where
  "check_64 c u =
     (if opt_unaligned64 c then do {
        u \<leftarrow> zero_c u; u \<leftarrow> set_b u 0 5; u \<leftarrow> set_b u 9 6;
        let p = u2p 1;
        u \<leftarrow> zero_c u;
        v1 \<leftarrow> UA_GET_NE64 c u p;
        (if abi c = ABI_LITTLE then do {
           v2 \<leftarrow> UA_GET_LE64 c u p;
           u \<leftarrow> set_b u 1 128;
           v3 \<leftarrow> UA_GET_LE64 c u p;
           Some (u, v1 = 0 \<and> v2 = 0 \<and> v3 = 128) }
         else Some (u, v1 = 0)) }
      else Some (u, True))"

text \<open>
  \<^verbatim>\<open>for (v = 1; v != 0 && r == 1; v <<= 1, i++) r &= f(v) == want(i)\<close>. The measure counts
  the positions from the lowest set bit of \<open>v\<close> up, which the shift moves.
\<close>

definition bits_from :: "'w::len word \<Rightarrow> nat set" where
  "bits_from v = {n. n < LENGTH('w) \<and> (\<exists>k \<le> n. bit v k)}"

lemma bit_shift_1: "bit (push_bit 1 v) k \<longleftrightarrow> 0 < k \<and> k < LENGTH('w) \<and> bit v (k - 1)" for v :: "'w::len word"
  by (auto simp: push_bit_eq_mult mult.commute [of v] bit_double_iff)

lemma bits_from_shift:
  assumes "v \<noteq> 0"
  shows "card (bits_from (push_bit 1 v)) < card (bits_from v)"
proof (rule psubset_card_mono)
  obtain j where "bit v j" using assms by (auto simp: bit_eq_iff)
  then have l: "bit v (LEAST j. bit v j)" by (rule LeastI)
  have no: "\<not> bit (push_bit 1 v) k" if k: "k \<le> (LEAST j. bit v j)" for k
  proof
    assume "bit (push_bit 1 v) k"
    then have "0 < k" "bit v (k - 1)" unfolding bit_shift_1 by auto
    then show False using k Least_le [of "bit v" "k - 1"] by linarith
  qed
  have "bits_from (push_bit 1 v) \<subseteq> bits_from v"
    unfolding bits_from_def bit_shift_1 by auto (meson diff_le_self le_trans)
  moreover have "(LEAST j. bit v j) \<in> bits_from v"
    using l bit_imp_le_length by (auto simp: bits_from_def)
  moreover have "(LEAST j. bit v j) \<notin> bits_from (push_bit 1 v)"
    using no by (auto simp: bits_from_def)
  ultimately show "bits_from (push_bit 1 v) \<subset> bits_from v" by blast
qed (simp add: bits_from_def)

function scan_loop :: "('w::len word \<Rightarrow> nat) \<Rightarrow> (nat \<Rightarrow> nat) \<Rightarrow> 'w word \<Rightarrow> nat \<Rightarrow> bool \<Rightarrow> bool" where
  "scan_loop f want v i r =
     (if v \<noteq> 0 \<and> r then scan_loop f want (push_bit 1 v) (i + 1) (r \<and> f v = want i) else r)"
  by pat_completeness auto
termination
  by (relation "measure (\<lambda>(f, want, v, i, r). card (bits_from v))") (auto dest: bits_from_shift)

declare scan_loop.simps [simp del]

definition check_scan :: "('w::len word \<Rightarrow> nat) option \<Rightarrow> (nat \<Rightarrow> nat) \<Rightarrow> bool \<Rightarrow> bool" where
  "check_scan f want r = (case f of None \<Rightarrow> r | Some g \<Rightarrow> scan_loop g want 1 0 r)"

definition lzo_config_check :: "lzo_cfg \<Rightarrow> unit mem \<Rightarrow> int option" where
  "lzo_config_check c u = do {
     (u, r1) \<leftarrow> check_uint c u;
     (u, r2) \<leftarrow> check_16 c u;
     (u, r3) \<leftarrow> check_32 c u;
     (u, r4) \<leftarrow> check_64 c u;
     let r = (r1 \<and> r2 \<and> r3 \<and> r4);
     let r = check_scan (ctlz32 c) (\<lambda>i. 31 - i) r;
     let r = check_scan (ctlz64 c) (\<lambda>i. 63 - i) r;
     let r = check_scan (cttz32 c) (\<lambda>i. i) r;
     let r = check_scan (cttz64 c) (\<lambda>i. i) r;
     Some (if r then LZO_E_OK else LZO_E_ERROR) }"

section \<open>Initialisation\<close>

text \<open>
  \<^verbatim>\<open>lzo_init()\<close> passes the sizes that the caller's compiler sees, \<^verbatim>\<open>__lzo_init_v2\<close> compares
  them with those of the library, in the order \<^verbatim>\<open>short\<close>, \<^verbatim>\<open>int\<close>, \<^verbatim>\<open>long\<close>, \<^verbatim>\<open>lzo_uint32_t\<close>,
  \<^verbatim>\<open>lzo_uint\<close>, \<^verbatim>\<open>lzo_sizeof_dict_t\<close>, \<^verbatim>\<open>char *\<close>, \<^verbatim>\<open>lzo_voidp\<close>, \<^verbatim>\<open>lzo_callback_t\<close>; -1 means not given.
\<close>

type_synonym sizes = "int \<times> int \<times> int \<times> int \<times> int \<times> int \<times> int \<times> int \<times> int"

definition size_ok :: "int \<Rightarrow> int \<Rightarrow> bool" where
  "size_ok s own \<longleftrightarrow> s = -1 \<or> s = own"

definition lzo_init_v2 :: "lzo_cfg \<Rightarrow> sizes \<Rightarrow> unit mem \<Rightarrow> nat \<Rightarrow> sizes \<Rightarrow> int option" where
  "lzo_init_v2 c own u v s =
     (case own of (o1, o2, o3, o4, o5, o6, o7, o8, o9) \<Rightarrow>
      case s of (s1, s2, s3, s4, s5, s6, s7, s8, s9) \<Rightarrow>
        if v = 0 then Some LZO_E_ERROR
        else if \<not> (size_ok s1 o1 \<and> size_ok s2 o2 \<and> size_ok s3 o3 \<and> size_ok s4 o4 \<and> size_ok s5 o5 \<and>
          size_ok s6 o6 \<and> size_ok s7 o7 \<and> size_ok s8 o8 \<and> size_ok s9 o9) then Some LZO_E_ERROR
        else do {
          r \<leftarrow> lzo_config_check c u;
          (if r \<noteq> LZO_E_OK then Some r else Some r) })"

definition lzo_init :: "lzo_cfg \<Rightarrow> sizes \<Rightarrow> unit mem \<Rightarrow> sizes \<Rightarrow> int option" where
  "lzo_init c own u s = lzo_init_v2 c own u 0x20a0 s"

section \<open>The check accepts and rejects\<close>

definition u_ok :: "lzo_cfg \<Rightarrow> unit mem \<Rightarrow> bool" where
  "u_ok c u \<longleftrightarrow> uint_bits c \<in> {32, 64} \<and> length (u ()) = u_size c"

lemma unit_upd [simp]: "(m :: unit \<Rightarrow> 'a)(() := y) = (\<lambda>_. y)"
  by auto

lemma u_sizes: "u_ok c u \<Longrightarrow> u_size c = 16 \<and> sizeof_uint c \<in> {4, 8}"
  by (auto simp: u_ok_def u_size_def sizeof_uint_def)

text \<open>The cleared union, with the bytes that no access below touches.\<close>

abbreviation bytes8 :: "u8 \<Rightarrow> u8 \<Rightarrow> u8 \<Rightarrow> u8 \<Rightarrow> u8 \<Rightarrow> u8 \<Rightarrow> u8 \<Rightarrow> u8 \<Rightarrow> u8 list \<Rightarrow> unit mem" where
  "bytes8 a b c d e f g h rest \<equiv> (\<lambda>_. a # b # c # d # e # f # g # h # rest)"

lemma zero_a_eq:
  assumes "u_ok c u"
  obtains rest where "zero_a c u = Some (bytes8 0 0 0 0 0 0 0 0 rest)" "length rest = 8"
proof -
  have len: "length (u ()) = 16" "sizeof_uint c = 4 \<or> sizeof_uint c = 8"
    using assms u_sizes [OF assms] by (auto simp: u_ok_def)
  have "zero_a c u = Some (bytes8 0 0 0 0 0 0 0 0 (replicate (2 * sizeof_uint c - 8) 0 @ drop (2 * sizeof_uint c) (u ())))"
    using len by (auto simp: zero_a_def store_def u2p_def numeral_eq_Suc)
  moreover have "length (replicate (2 * sizeof_uint c - 8) 0 @ drop (2 * sizeof_uint c) (u ())) = 8" using len by auto
  ultimately show thesis by (rule that)
qed

lemma u_ok_bytes: "u_ok c u \<Longrightarrow> length rest = 8 \<Longrightarrow> u_ok c (bytes8 a b d e f g h i rest)"
  using u_sizes [of c u] by (simp add: u_ok_def)

lemmas u_simps = set_b_def u2p_def get_uint_def wr_def load_def rd_def padd_def

lemma native_first:
  "host_big c \<Longrightarrow> native_val c (128 # replicate n 0) = 128 * 256 ^ n"
  "\<not> host_big c \<Longrightarrow> native_val c (128 # replicate n 0) = 128"
  "host_big c \<Longrightarrow> native_val c (replicate n 0 @ [128]) = 128"
  "\<not> host_big c \<Longrightarrow> native_val c (replicate n 0 @ [128]) = 128 * 256 ^ n"
proof -
  have z: "le_val (replicate n 0) = 0" for n by (induction n) simp_all
  have "le_val (replicate n 0 @ [128]) = 128 * 256 ^ n" for n by (induction n) simp_all
  then show "host_big c \<Longrightarrow> native_val c (128 # replicate n 0) = 128 * 256 ^ n"
    "\<not> host_big c \<Longrightarrow> native_val c (128 # replicate n 0) = 128"
    "host_big c \<Longrightarrow> native_val c (replicate n 0 @ [128]) = 128"
    "\<not> host_big c \<Longrightarrow> native_val c (replicate n 0 @ [128]) = 128 * 256 ^ n"
    using z by (simp_all add: native_val_def)
qed

lemma check_uint_eq:
  assumes "u_ok c u"
  shows "\<exists>u'. check_uint c u = Some (u', endian_ok c) \<and> u_ok c u'"
proof -
  obtain r where z: "zero_a c u = Some (bytes8 0 0 0 0 0 0 0 0 r)" "length r = 8"
    by (rule zero_a_eq [OF assms])
  obtain r2 where z2: "zero_a c (bytes8 0 0 0 0 0 0 0 0 r) = Some (bytes8 0 0 0 0 0 0 0 0 r2)" "length r2 = 8"
    by (rule zero_a_eq [OF u_ok_bytes [OF assms z(2)]])
  have ok: "u_ok c (bytes8 a1 a2 a3 a4 a5 a6 a7 a8 r2)" for a1 a2 a3 a4 a5 a6 a7 a8
    using u_ok_bytes [OF assms z2(2)] .
  have sz: "sizeof_uint c = 4 \<or> sizeof_uint c = 8" using u_sizes [OF assms] by simp
  show ?thesis
  proof (cases "abi c")
    case ABI_NEUTRAL
    then show ?thesis using z u_ok_bytes [OF assms z(2)] by (simp add: check_uint_def rd_def u2p_def endian_ok_def)
  next
    case ABI_LITTLE
    have "get_uint c (bytes8 128 0 0 0 0 0 0 0 r2) (u2p 0) = Some (native_val c (128 # replicate (sizeof_uint c - 1) 0))"
      using sz z2(2) by (auto simp: get_uint_def load_def u2p_def numeral_eq_Suc)
    then show ?thesis
      using ABI_LITTLE z z2 ok sz by (cases "host_big c") (auto simp: check_uint_def rd_def u2p_def set_b_def wr_def endian_ok_def native_first)
  next
    case ABI_BIG
    let ?m = "\<lambda>_ :: unit. (0 # 0 # 0 # 0 # 0 # 0 # 0 # 0 # r2)[sizeof_uint c - 1 := 128]"
    have "get_uint c ?m (u2p 0) = Some (native_val c (replicate (sizeof_uint c - 1) 0 @ [128]))"
      using sz z2(2) by (auto simp: get_uint_def load_def u2p_def numeral_eq_Suc)
    moreover have "u_ok c ?m" using sz ok by (auto simp: numeral_eq_Suc)
    ultimately show ?thesis
      using ABI_BIG z z2 sz by (cases "host_big c") (auto simp: check_uint_def rd_def u2p_def set_b_def wr_def endian_ok_def native_first)
  qed
qed

lemma UA_GET_NE_eq:
  "UA_GET_NE16 c m p = map_option (\<lambda>v. word_of_nat (native_val c v)) (load m p 2)"
  "UA_GET_NE32 c m p = map_option (\<lambda>v. word_of_nat (native_val c v)) (load m p 4)"
  by (simp_all add: UA_GET_NE16_def UA_GET_NE32_def lzo_memops_get_ne16_def lzo_memops_get_ne32_def)

lemma list_update_numeral [simp]: "(x # xs)[numeral k := y] = x # xs[pred_numeral k := y]"
  by (simp add: numeral_eq_Suc)

lemma check_16_eq:
  assumes "u_ok c u" "endian_ok c"
  shows "\<exists>u'. check_16 c u = Some (u', True) \<and> u_ok c u'"
proof -
  obtain r where z: "zero_a c u = Some (bytes8 0 0 0 0 0 0 0 0 r)" "length r = 8"
    by (rule zero_a_eq [OF assms(1)])
  have "check_16 c u = Some (bytes8 1 128 129 2 0 0 0 0 r, True)"
    using z assms(2)
    by (cases "abi c"; cases "host_big c")
      (simp_all add: check_16_def u_simps UA_GET_NE_eq UA_GET_LE16_eq native_val_def endian_ok_def Let_def)
  then show ?thesis using u_ok_bytes [OF assms(1) z(2)] by blast
qed

lemma check_32_eq:
  assumes "u_ok c u" "endian_ok c"
  shows "\<exists>u'. check_32 c u = Some (u', True) \<and> u_ok c u'"
proof -
  obtain r where z: "zero_a c u = Some (bytes8 0 0 0 0 0 0 0 0 r)" "length r = 8"
    by (rule zero_a_eq [OF assms(1)])
  have "check_32 c u = Some (bytes8 3 128 129 130 131 4 0 0 r, True)"
    using z assms(2)
    by (cases "abi c"; cases "host_big c")
      (simp_all add: check_32_def u_simps UA_GET_NE_eq UA_GET_LE32_eq native_val_def endian_ok_def Let_def)
  then show ?thesis using u_ok_bytes [OF assms(1) z(2)] by blast
qed

lemma check_64_eq:
  assumes "u_ok c u" "endian_ok c"
  shows "\<exists>u'. check_64 c u = Some (u', True)"
proof -
  have len: "length (u ()) = 16" using assms(1) u_sizes [OF assms(1)] by (simp add: u_ok_def)
  let ?z = "\<lambda>_ :: unit. [0, 0, 0, 0, 0, 0, 0, 0, 0, 0, 0, 0, 0, 0, 0, 0] :: u8 list"
  have z16: "replicate 16 (0 :: u8) = [0, 0, 0, 0, 0, 0, 0, 0, 0, 0, 0, 0, 0, 0, 0, 0]" by (simp add: numeral_eq_Suc)
  have z: "length (v ()) = 16 \<Longrightarrow> zero_c v = Some ?z" for v
    by (simp add: zero_c_def store_def u2p_def z16)
  show ?thesis
    using assms(2) len z
    by (cases "abi c"; cases "host_big c"; cases "opt_unaligned64 c")
      (simp_all add: check_64_def u_simps UA_GET_NE64_def UA_GET_LE64_def native_val_def endian_ok_def Let_def)
qed

lemma shifted_one: "push_bit i (1 :: 'w::len word) = 0 \<longleftrightarrow> LENGTH('w) \<le> i"
  by (simp add: push_bit_eq_mult)

lemma scan_loop_ok:
  assumes "\<And>i. i < LENGTH('w::len) \<Longrightarrow> f (push_bit i (1 :: 'w word)) = want i"
  shows "scan_loop f want (push_bit i (1 :: 'w word)) i True"
proof (induction "LENGTH('w) - i" arbitrary: i rule: less_induct)
  case less
  show ?case
  proof (cases "LENGTH('w) \<le> i")
    case True
    then show ?thesis by (subst scan_loop.simps) (simp only: shifted_one simp_thms if_True if_False)
  next
    case False
    have "push_bit 1 (push_bit i (1 :: 'w word)) = push_bit (i + 1) 1" by (simp only: push_bit_push_bit add.commute)
    then show ?thesis
      using False less [of "i + 1"] assms [of i]
      by (subst scan_loop.simps) (simp only: shifted_one simp_thms if_True not_le)
  qed
qed

lemma bit_shifted_one: "bit (push_bit i (1 :: 'w::len word)) n \<longleftrightarrow> n = i \<and> n < LENGTH('w)"
  by (auto simp: bit_simps dest: bit_imp_le_length)

lemma ctlz_shifted_one:
  assumes "is_ctlz f" "i < LENGTH('w::len)"
  shows "f (push_bit i (1 :: 'w word)) = LENGTH('w) - 1 - i"
proof -
  let ?v = "push_bit i (1 :: 'w word)"
  have "?v \<noteq> 0" using assms(2) by (simp only: shifted_one not_le)
  then have "f ?v < LENGTH('w)" "bit ?v (LENGTH('w) - 1 - f ?v)" using assms(1) unfolding is_ctlz_def by blast+
  then show ?thesis unfolding bit_shifted_one by auto
qed

lemma cttz_shifted_one:
  assumes "is_cttz f" "i < LENGTH('w::len)"
  shows "f (push_bit i (1 :: 'w word)) = i"
proof -
  let ?v = "push_bit i (1 :: 'w word)"
  have "?v \<noteq> 0" using assms(2) by (simp only: shifted_one not_le)
  then have "bit ?v (f ?v)" using assms(1) unfolding is_cttz_def by blast
  then show ?thesis unfolding bit_shifted_one by auto
qed

lemma check_scan_ok:
  "pred_option is_ctlz (f :: ('w::len word \<Rightarrow> nat) option) \<Longrightarrow> check_scan f (\<lambda>i. LENGTH('w) - 1 - i) True"
  "pred_option is_cttz (f :: ('w::len word \<Rightarrow> nat) option) \<Longrightarrow> check_scan f (\<lambda>i. i) True"
  using scan_loop_ok [where f = "the f" and i = 0] ctlz_shifted_one [of "the f"] cttz_shifted_one [of "the f"]
  by (auto simp: check_scan_def split: option.splits)

lemma check_scan_False: "\<not> check_scan f want False"
  by (auto simp: check_scan_def scan_loop.simps split: option.splits)

lemma config_check_accepts:
  assumes "u_ok c u" "cfg_ok c"
  shows "lzo_config_check c u = Some LZO_E_OK"
proof -
  have c: "endian_ok c" "bitscan_ok c" using assms(2) by (simp_all add: cfg_ok_def)
  obtain u1 u2 u3 u4 where "check_uint c u = Some (u1, True)" "check_16 c u1 = Some (u2, True)"
    "check_32 c u2 = Some (u3, True)" "check_64 c u3 = Some (u4, True)"
    using check_uint_eq [OF assms(1)] check_16_eq [OF _ c(1)] check_32_eq [OF _ c(1)] check_64_eq [OF _ c(1)] c(1)
    by metis
  moreover have "check_scan (ctlz32 c) (\<lambda>i. 31 - i) True" "check_scan (ctlz64 c) (\<lambda>i. 63 - i) True"
    "check_scan (cttz32 c) (\<lambda>i. i) True" "check_scan (cttz64 c) (\<lambda>i. i) True"
    using c(2) check_scan_ok(1) [of "ctlz32 c"] check_scan_ok(1) [of "ctlz64 c"]
      check_scan_ok(2) [of "cttz32 c"] check_scan_ok(2) [of "cttz64 c"]
    by (simp_all add: bitscan_ok_def)
  ultimately show ?thesis by (simp add: lzo_config_check_def)
qed

text \<open>On a machine of the other byte order the check fails, and still stays inside the union.\<close>

lemma check_16_total:
  assumes "u_ok c u"
  shows "\<exists>u' b. check_16 c u = Some (u', b) \<and> u_ok c u'"
proof -
  obtain r where z: "zero_a c u = Some (bytes8 0 0 0 0 0 0 0 0 r)" "length r = 8"
    by (rule zero_a_eq [OF assms(1)])
  have "\<exists>b. check_16 c u = Some (bytes8 1 128 129 2 0 0 0 0 r, b)"
    using z by (cases "abi c"; cases "opt_unaligned16 c")
      (simp_all add: check_16_def u_simps UA_GET_NE_eq UA_GET_LE16_def lzo_memops_get_le16_def Let_def)
  then show ?thesis using u_ok_bytes [OF assms(1) z(2)] by blast
qed

lemma check_32_total:
  assumes "u_ok c u"
  shows "\<exists>u' b. check_32 c u = Some (u', b) \<and> u_ok c u'"
proof -
  obtain r where z: "zero_a c u = Some (bytes8 0 0 0 0 0 0 0 0 r)" "length r = 8"
    by (rule zero_a_eq [OF assms(1)])
  have "\<exists>b. check_32 c u = Some (bytes8 3 128 129 130 131 4 0 0 r, b)"
    using z by (cases "abi c"; cases "opt_unaligned32 c")
      (simp_all add: check_32_def u_simps UA_GET_NE_eq UA_GET_LE32_def lzo_memops_get_le32_def Let_def)
  then show ?thesis using u_ok_bytes [OF assms(1) z(2)] by blast
qed

lemma check_64_total:
  assumes "u_ok c u"
  shows "\<exists>u' b. check_64 c u = Some (u', b)"
proof -
  have len: "length (u ()) = 16" using assms(1) u_sizes [OF assms(1)] by (simp add: u_ok_def)
  have z: "length (v ()) = 16 \<Longrightarrow> zero_c v = Some (\<lambda>_. replicate 16 0)" for v
    by (simp add: zero_c_def store_def u2p_def)
  show ?thesis
    using len z
    by (cases "abi c"; cases "opt_unaligned64 c")
      (auto simp: check_64_def u_simps UA_GET_NE64_def UA_GET_LE64_def Let_def)
qed

lemma config_check_rejects:
  assumes "u_ok c u" "\<not> endian_ok c"
  shows "lzo_config_check c u = Some LZO_E_ERROR"
proof -
  obtain u1 u2 u3 u4 b2 b3 b4 where "check_uint c u = Some (u1, False)" "check_16 c u1 = Some (u2, b2)"
    "check_32 c u2 = Some (u3, b3)" "check_64 c u3 = Some (u4, b4)"
    using check_uint_eq [OF assms(1)] check_16_total check_32_total check_64_total assms(2) by metis
  then show ?thesis by (simp add: lzo_config_check_def check_scan_False)
qed

section \<open>The bit scans meet their documentation\<close>

definition is_bsr :: "('w::len word \<Rightarrow> nat) \<Rightarrow> bool" where
  "is_bsr f \<longleftrightarrow> (\<forall>v. v \<noteq> 0 \<longrightarrow> bit v (f v) \<and> (\<forall>i > f v. \<not> bit v i))"

definition builtins_ok :: "builtins \<Rightarrow> bool" where
  "builtins_ok B \<longleftrightarrow> is_bsr (bsr32 B) \<and> is_bsr (bsr64 B) \<and> is_cttz (bsf32 B) \<and> is_cttz (bsf64 B) \<and>
     is_ctlz (clz B) \<and> is_ctlz (clzl B) \<and> is_ctlz (clzll B) \<and>
     is_cttz (ctz B) \<and> is_cttz (ctzl B) \<and> is_cttz (ctzll B)"

lemma xor_31: "r < 32 \<Longrightarrow> r XOR 31 = 31 - (r :: nat)"
proof -
  have "\<forall>r \<in> set [0..<32]. r XOR 31 = 31 - (r :: nat)" by code_simp
  then show "r < 32 \<Longrightarrow> r XOR 31 = 31 - r" by simp
qed

lemma xor_63: "r < 64 \<Longrightarrow> r XOR 63 = 63 - (r :: nat)"
proof -
  have "\<forall>r \<in> set [0..<64]. r XOR 63 = 63 - (r :: nat)" by code_simp
  then show "r < 64 \<Longrightarrow> r XOR 63 = 63 - r" by simp
qed

lemma xor_32: "32 \<le> r \<Longrightarrow> r < 64 \<Longrightarrow> r XOR 32 = r - (32 :: nat)"
proof -
  have "\<forall>r \<in> set [32..<64]. r XOR 32 = r - (32 :: nat)" by code_simp
  then show "32 \<le> r \<Longrightarrow> r < 64 \<Longrightarrow> r XOR 32 = r - 32" unfolding set_upt atLeastLessThan_iff by auto
qed

lemma is_ctlz_bsr:
  assumes "is_bsr f" "\<And>r. r < LENGTH('w::len) \<Longrightarrow> g r = LENGTH('w) - 1 - r"
  shows "is_ctlz (\<lambda>v :: 'w word. g (f v))"
  unfolding is_ctlz_def
proof (intro allI impI)
  fix v :: "'w word"
  assume "v \<noteq> 0"
  then have v: "bit v (f v)" "\<forall>i > f v. \<not> bit v i" using assms(1) by (auto simp: is_bsr_def)
  then have "f v < LENGTH('w)" by (simp add: bit_imp_le_length)
  then show "g (f v) < LENGTH('w) \<and> bit v (LENGTH('w) - 1 - g (f v)) \<and> (\<forall>i. LENGTH('w) - 1 - g (f v) < i \<longrightarrow> \<not> bit v i)"
    using v assms(2) by simp
qed

lemma is_ctlz_clzl:
  assumes "is_ctlz (f :: u64 \<Rightarrow> nat)"
  shows "is_ctlz (\<lambda>v :: u32. f (ucast v) XOR 32)"
  unfolding is_ctlz_def
proof (intro allI impI)
  fix v :: u32
  let ?u = "ucast v :: u64"
  have bu: "bit ?u i \<longleftrightarrow> bit v i" for i
    using bit_imp_le_length [of v i] by (auto simp: bit_simps)
  assume "v \<noteq> 0"
  then obtain n where "bit v n" by (auto simp: bit_eq_iff)
  then have "?u \<noteq> 0" using bu [of n] by auto
  then have u: "f ?u < 64" "bit v (63 - f ?u)" "\<forall>i. 63 - f ?u < i \<longrightarrow> \<not> bit v i"
    using assms bu by (auto simp: is_ctlz_def)
  have "63 - f ?u < 32" using bit_imp_le_length [OF u(2)] by simp
  then have "f ?u XOR 32 = f ?u - 32" "31 - (f ?u - 32) = 63 - f ?u" "f ?u - 32 < 32"
    using u(1) xor_32 [of "f ?u"] by auto
  then show "f ?u XOR 32 < LENGTH(32) \<and> bit v (LENGTH(32) - 1 - (f ?u XOR 32)) \<and>
      (\<forall>i. LENGTH(32) - 1 - (f ?u XOR 32) < i \<longrightarrow> \<not> bit v i)"
    using u by simp
qed

lemma bitops_ok:
  assumes "builtins_ok B"
  shows "pred_option is_ctlz (lzo_bitops_ctlz32 e B)" "pred_option is_ctlz (lzo_bitops_ctlz64 e B)"
    "pred_option is_cttz (lzo_bitops_cttz32 e B)" "pred_option is_cttz (lzo_bitops_cttz64 e B)"
proof -
  have "is_ctlz (\<lambda>v. bsr32 B v XOR 31)" "is_ctlz (\<lambda>v. bsr64 B v XOR 63)"
    using assms is_ctlz_bsr [of "bsr32 B" "\<lambda>r. r XOR 31"] is_ctlz_bsr [of "bsr64 B" "\<lambda>r. r XOR 63"]
    by (simp_all add: builtins_ok_def xor_31 xor_63)
  then show "pred_option is_ctlz (lzo_bitops_ctlz32 e B)" "pred_option is_ctlz (lzo_bitops_ctlz64 e B)"
    using assms is_ctlz_clzl [of "clzl B"]
    by (simp_all add: lzo_bitops_ctlz32_def lzo_bitops_ctlz64_def builtins_ok_def)
  show "pred_option is_cttz (lzo_bitops_cttz32 e B)" "pred_option is_cttz (lzo_bitops_cttz64 e B)"
    using assms by (simp_all add: lzo_bitops_cttz32_def lzo_bitops_cttz64_def builtins_ok_def)
qed

section \<open>Properties\<close>

definition demo_u :: "unit mem" where
  "demo_u = (\<lambda>_. replicate 16 255)"

lemma demo_u_ok: "u_ok cfg_amd64 demo_u" "u_ok cfg_bytewise32 demo_u"
  by (simp_all add: u_ok_def u_size_def sizeof_uint_def demo_u_def cfg_amd64_def cfg_bytewise32_def)

text \<open>Builtins that meet their documentation, testing bits one by one.\<close>

fun high_bit :: "nat \<Rightarrow> 'w::len word \<Rightarrow> nat" where
  "high_bit 0 v = 0"
| "high_bit (Suc n) v = (if bit v (Suc n) then Suc n else high_bit n v)"

definition top_bit :: "'w::len word \<Rightarrow> nat" where
  "top_bit v = high_bit (LENGTH('w) - 1) v"

definition ref_builtins :: builtins where
  "ref_builtins = \<lparr> bsr32 = top_bit, bsr64 = top_bit, bsf32 = scan_ctz, bsf64 = scan_ctz,
     clz = (\<lambda>v. 31 - top_bit v), clzl = (\<lambda>v. 63 - top_bit v), clzll = (\<lambda>v. 63 - top_bit v),
     ctz = scan_ctz, ctzl = scan_ctz, ctzll = scan_ctz \<rparr>"

lemma high_bit_max: "bit v i \<Longrightarrow> i \<le> n \<Longrightarrow> bit v (high_bit n v) \<and> i \<le> high_bit n v"
  by (induction n) (auto simp: le_Suc_eq)

lemma is_bsr_top: "is_bsr (top_bit :: 'w::len word \<Rightarrow> nat)"
  unfolding is_bsr_def top_bit_def
proof (intro allI impI conjI)
  fix v :: "'w word" and i
  have le: "bit v j \<Longrightarrow> j \<le> LENGTH('w) - 1" for j using bit_imp_le_length [of v j] by simp
  show "bit v (high_bit (LENGTH('w) - 1) v)" if "v \<noteq> 0"
    using that high_bit_max le by (metis bit_eq_iff bit_0_eq bot_apply bot_bool_def)
  show "\<not> bit v i" if "high_bit (LENGTH('w) - 1) v < i"
    using that high_bit_max le by (meson not_le)
qed

lemma ref_builtins_ok: "builtins_ok ref_builtins"
  using is_ctlz_bsr [OF is_bsr_top, where 'w = 32 and g = "\<lambda>r. 31 - r"]
    is_ctlz_bsr [OF is_bsr_top, where 'w = 64 and g = "\<lambda>r. 63 - r"]
  by (simp add: builtins_ok_def ref_builtins_def is_bsr_top is_cttz_scan)

text \<open>
  Every implementation of the bit scans that the preprocessor can choose counts leading
  (trailing) zeros, provided the compiler's operations behave as documented: \<^verbatim>\<open>bsr\<close> with its
  correction \<^verbatim>\<open>^ 31\<close> and \<^verbatim>\<open>^ 63\<close>, \<^verbatim>\<open>__builtin_clzl\<close> on a 32-bit value with its \<^verbatim>\<open>^ 32\<close>.
\<close>

lemma bitops_count_zeros:
  assumes "builtins_ok B"
  shows "bitscan_ok (c\<lparr> ctlz32 := lzo_bitops_ctlz32 e B, cttz32 := lzo_bitops_cttz32 e B,
    ctlz64 := lzo_bitops_ctlz64 e B, cttz64 := lzo_bitops_cttz64 e B \<rparr>)"
  using bitops_ok [OF assms] by (simp add: bitscan_ok_def)

text \<open>
  \<^verbatim>\<open>_lzo_config_check\<close> accepts exactly what it should: with working bit scans and the
  right byte order it returns \<^verbatim>\<open>LZO_E_OK\<close>; when the preprocessor assumed the wrong byte order
  it returns \<^verbatim>\<open>LZO_E_ERROR\<close>. It never reads or writes outside its union.
\<close>

lemma config_check_byte_order:
  assumes "u_ok c u" "bitscan_ok c"
  shows "lzo_config_check c u = Some (if endian_ok c then LZO_E_OK else LZO_E_ERROR)"
proof (cases "endian_ok c")
  case True
  then have "cfg_ok c" using assms by (auto simp: cfg_ok_def u_ok_def)
  then show ?thesis using config_check_accepts [OF assms(1)] True by simp
qed (simp add: config_check_rejects [OF assms(1)])

text \<open>
  \<^verbatim>\<open>lzo_init()\<close>: a caller compiled with the same sizes is accepted, a caller with a
  different size of any of the nine types is refused, before the configuration is looked at.
\<close>

lemma init_checks_sizes:
  assumes "u_ok c u" "cfg_ok c" "own = (o1, o2, o3, o4, o5, o6, o7, o8, o9)"
    and "s = (s1, s2, s3, s4, s5, s6, s7, s8, s9)" "-1 \<notin> {s1, s2, s3, s4, s5, s6, s7, s8, s9}"
  shows "lzo_init c own u s = Some (if s = own then LZO_E_OK else LZO_E_ERROR)"
  using config_check_accepts [OF assms(1,2)] assms(3-5)
  by (auto simp: lzo_init_def lzo_init_v2_def size_ok_def)

end
