(* ===== verification/Lzo_Testmini.thy ===== *)
theory Lzo_Testmini
  imports Lzo_Roundtrip Lzo_Util Lzo_Init
begin

text \<open>
  The program of \<^verbatim>\<open>testmini.c\<close>: initialise the library, compress a block of zeros from \<^verbatim>\<open>in\<close>
  to \<^verbatim>\<open>out\<close>, decompress it back into \<^verbatim>\<open>in\<close>. The region \<^term>\<open>In\<close> is the array \<^verbatim>\<open>in\<close>,
  \<^term>\<open>Out\<close> the array \<^verbatim>\<open>out\<close>; for the call of \<^verbatim>\<open>lzo1x_decompress\<close> they change roles. The
  messages are not modelled.
\<close>

definition IN_LEN :: nat where "IN_LEN = 128 * 1024"
definition OUT_LEN :: nat where "OUT_LEN = IN_LEN + IN_LEN div 16 + 64 + 3"

text \<open>\<^verbatim>\<open>LZO1X_1_MEM_COMPRESS\<close> bytes of \<^verbatim>\<open>wrkmem\<close>, as a number of \<^verbatim>\<open>lzo_uint16_t\<close>.\<close>

definition LZO1X_1_MEM_COMPRESS :: "nat \<Rightarrow> nat" where
  "LZO1X_1_MEM_COMPRESS sizeof_dict = 16384 * sizeof_dict"

record mini_env =
  mini_sizes :: sizes
  mini_u :: "unit mem"
  have_memset :: bool
  addr_in :: nat
  addr_out :: nat
  mini_wrkmem :: "u16 list"

definition swap_regions :: "region mem \<Rightarrow> region mem" where
  "swap_regions m r = (case r of In \<Rightarrow> m Out | Out \<Rightarrow> m In)"

text \<open>
  The exit code. A run of \<^verbatim>\<open>lzo1x_decompress\<close> that does not end or leaves its buffers is
  \<^term>\<open>None\<close>, as is any other access outside the arrays.
\<close>

definition testmini_main :: "lzo_cfg \<Rightarrow> mini_env \<Rightarrow> region mem \<Rightarrow> int option" where
  "testmini_main c e m = do {
     r \<leftarrow> lzo_init c (mini_sizes e) (mini_u e) (mini_sizes e);
     (if r \<noteq> LZO_E_OK then Some 3
      else do {
        m \<leftarrow> lzo_memset (have_memset e) m (In, 0) 0 IN_LEN;
        (r, m, out_len) \<leftarrow> lzo1x_1_compress c (addr_in e) m IN_LEN (mini_wrkmem e);
        (if r \<noteq> LZO_E_OK then Some 2
         else if out_len \<ge> IN_LEN then Some 0
         else do {
           run \<leftarrow> lzo1x_decompress c \<lparr> in_len = out_len, out_cap = IN_LEN,
             in_addr = addr_out e, out_addr = addr_in e \<rparr> (swap_regions m);
           (r, s) \<leftarrow> run;
           Some (if r = LZO_E_OK \<and> d_op s = IN_LEN then 0 else 1) }) }) }"

text \<open>What the operating system provides: the two arrays, inside the address space.\<close>

definition mini_ok :: "lzo_cfg \<Rightarrow> mini_env \<Rightarrow> region mem \<Rightarrow> bool" where
  "mini_ok c e m \<longleftrightarrow> cfg_ok c \<and> u_ok c (mini_u e) \<and> length (m In) = IN_LEN \<and> length (m Out) = OUT_LEN \<and>
     16384 \<le> length (mini_wrkmem e) \<and> addr_in e + IN_LEN < 2 ^ uint_bits c \<and> addr_out e + OUT_LEN < 2 ^ uint_bits c"

lemma mini_init:
  assumes "mini_ok c e m"
  shows "lzo_init c (mini_sizes e) (mini_u e) (mini_sizes e) = Some LZO_E_OK"
  using config_check_accepts [of c "mini_u e"] assms
  by (cases "mini_sizes e") (auto simp: mini_ok_def lzo_init_def lzo_init_v2_def size_ok_def)

lemma mini_memset:
  assumes "mini_ok c e m"
  shows "lzo_memset (have_memset e) m (In, 0) 0 IN_LEN = Some (m(In := replicate IN_LEN 0))"
  using assms set_loop_store [of "(In, 0)" IN_LEN m 0]
  by (simp add: lzo_memset_def store_def mini_ok_def)

text \<open>
  C10. \<^verbatim>\<open>testmini.c\<close> passes on every supported build: it ends with exit code 0, that is,
  \<^verbatim>\<open>lzo_init()\<close> succeeds, the block is compressed within \<^verbatim>\<open>OUT_LEN\<close> bytes, and unless it did
  not shrink, decompressing it over the original restores all \<^verbatim>\<open>IN_LEN\<close> bytes.
\<close>

theorem testmini_passes:
  assumes "mini_ok c e m"
  shows "testmini_main c e m = Some 0"
proof -
  let ?m0 = "m(In := replicate IN_LEN 0)"
  have ok: "compress_ok c ?m0 (mini_wrkmem e)"
    using assms by (simp add: compress_ok_def mini_ok_def OUT_LEN_def)
  obtain m1 n where c: "compress c (addr_in e) ?m0 (mini_wrkmem e) = Some (LZO_E_OK, m1, n)"
    using compress_ref [OF ok] by metis
  note D = compress_refD [OF ok c]
  let ?e = "\<lparr> in_len = n, out_cap = IN_LEN, in_addr = addr_out e, out_addr = addr_in e \<rparr>"
  have cfg: "cfg_ok c" using assms by (simp add: mini_ok_def)
  have "lzo_stream (take (in_len ?e) (swap_regions m1 In)) (?m0 In)"
    using D(6) ref_compress_stream by (simp add: swap_regions_def)
  moreover have "env_ok c ?e (swap_regions m1)"
    using assms D by (auto simp: env_ok_def mini_ok_def swap_regions_def)
  moreover have "length (?m0 In) \<le> out_cap ?e" "length (?m0 In) \<le> 2 ^ uint_bits c - 511"
    using uint_big [OF cfg] by (simp_all add: IN_LEN_def)
  ultimately obtain s where "lzo1x_decompress_safe c ?e (swap_regions m1) = Some (Some (LZO_E_OK, s))" "d_op s = IN_LEN"
    using lzo1x_decompress_safe_stream [of c ?e "swap_regions m1" "?m0 In"] by auto
  then have "lzo1x_decompress c ?e (swap_regions m1) = Some (Some (LZO_E_OK, s))"
    using lzo1x_decompress_same by (simp add: no_overrun_def)
  then show ?thesis
    using c \<open>d_op s = IN_LEN\<close> by (simp add: testmini_main_def mini_init [OF assms] mini_memset [OF assms])
qed

definition demo_mini :: mini_env where
  "demo_mini = \<lparr> mini_sizes = (2, 4, 4, 4, 4, 4, 4, 4, 24), mini_u = demo_u, have_memset = False,
     addr_in = 4096, addr_out = 200000, mini_wrkmem = replicate 32768 7 \<rparr>"

definition demo_mini_mem :: "region mem" where
  "demo_mini_mem r = (case r of In \<Rightarrow> replicate IN_LEN 1 | Out \<Rightarrow> replicate OUT_LEN 2)"

theorem testmini_passes_witness:
  "testmini_main cfg_bytewise32 demo_mini demo_mini_mem = Some 0"
proof (rule testmini_passes)
  show "mini_ok cfg_bytewise32 demo_mini demo_mini_mem"
    using cfg_ok_builds(2) demo_u_ok(2)
    by (simp add: mini_ok_def demo_mini_def demo_mini_mem_def OUT_LEN_def IN_LEN_def) (simp add: cfg_bytewise32_def)
qed

end
