(* ===== verification/Ws_Frame.thy ===== *)
theory Ws_Frame
  imports Sdk_Prelude
begin

text \<open>
  WebSocket frames: \<^verbatim>\<open>web_server/ws/tools.h\<close> (byte order), \<^verbatim>\<open>frame.h\<close> and \<^verbatim>\<open>frame.cpp\<close> (the frame
  and its encoding), and a specification of the wire format of RFC 6455 that the encoders are
  proved against. A buffer is a list of bytes; the SDK is for little-endian x64 machines, so a
  native integer is stored least significant byte first.
\<close>

section \<open>Byte order\<close>

definition myhtons :: "u16 \<Rightarrow> u16" where
  "myhtons n = drop_bit 8 (n AND 0xff00) OR push_bit 8 (n AND 0x00ff)"

definition myntohs :: "u16 \<Rightarrow> u16" where
  "myntohs n = drop_bit 8 (n AND 0xff00) OR push_bit 8 (n AND 0x00ff)"

definition myhtonl :: "u32 \<Rightarrow> u32" where
  "myhtonl n = drop_bit 24 (n AND 0xff000000) OR drop_bit 8 (n AND 0x00ff0000) OR
     push_bit 8 (n AND 0x0000ff00) OR push_bit 24 (n AND 0x000000ff)"

definition myntohl :: "u32 \<Rightarrow> u32" where
  "myntohl n = drop_bit 24 (n AND 0xff000000) OR drop_bit 8 (n AND 0x00ff0000) OR
     push_bit 8 (n AND 0x0000ff00) OR push_bit 24 (n AND 0x000000ff)"

definition myhtonll :: "u64 \<Rightarrow> u64" where
  "myhtonll n = ucast (myhtonl (ucast (drop_bit 32 n))) OR push_bit 32 (ucast (myhtonl (ucast n)))"

definition myntohll :: "u64 \<Rightarrow> u64" where
  "myntohll n = ucast (myntohl (ucast (drop_bit 32 n))) OR push_bit 32 (ucast (myntohl (ucast n)))"

text \<open>Storing and loading a native integer of \<open>k\<close> bytes.\<close>

fun put_native :: "nat \<Rightarrow> 'w::len word \<Rightarrow> u8 list" where
  "put_native 0 v = []"
| "put_native (Suc k) v = ucast v # put_native k (drop_bit 8 v)"

fun get_native :: "u8 list \<Rightarrow> 'w::len word" where
  "get_native [] = 0"
| "get_native (b # bs) = ucast b OR push_bit 8 (get_native bs)"

section \<open>Frames\<close>

record frame_t =
  fin :: u8
  opcode :: u8
  mask :: u8
  payload_len :: u64
  masking_key :: "u8 list"
  payload_data :: "u8 list option"

definition frame_new :: frame_t where
  "frame_new = \<lparr> fin = 0, opcode = 0, mask = 0, payload_len = 0, masking_key = [0, 0, 0, 0], payload_data = None \<rparr>"

definition is_frame_valid :: "frame_t option \<Rightarrow> bool" where
  "is_frame_valid frame = (case frame of None \<Rightarrow> False
     | Some f \<Rightarrow> fin f \<le> 1 \<and> opcode f \<le> 0xf \<and> mask f = 1)"

section \<open>Encoding\<close>

text \<open>\<^verbatim>\<open>c1 = c1 | (fin << 7); c1 = c1 | opcode; c2 = c2 | (mask << 7)\<close>\<close>

definition frame_c1 :: "u8 \<Rightarrow> u8 \<Rightarrow> u8" where
  "frame_c1 f oc = push_bit 7 f OR oc"

definition frame_c2 :: "u8 \<Rightarrow> u8" where
  "frame_c2 mk = push_bit 7 mk"

text \<open>
  The body of \<^verbatim>\<open>frame_buffer_new(fin, opcode, payload_len, payload_data)\<close> for a value of its
  local variable \<^verbatim>\<open>mask\<close>: the new buffer, \<^term>\<open>None\<close> when \<^verbatim>\<open>memcpy\<close> reads past the payload.
\<close>

definition payload :: "u64 \<Rightarrow> u8 list option \<Rightarrow> u8 list option" where
  "payload len data = (case data of None \<Rightarrow> Some []
     | Some d \<Rightarrow> if unat len \<le> length d then Some (take (unat len) d) else None)"

definition frame_bytes :: "u8 \<Rightarrow> u8 \<Rightarrow> u8 \<Rightarrow> u8 list \<Rightarrow> u64 \<Rightarrow> u8 list option \<Rightarrow> u8 list option" where
  "frame_bytes f oc mk mkey len dat =
     (let c1 = frame_c1 f oc; c2 = frame_c2 mk;
          key = (if mk = 0 then [] else mkey) in
      if dat = None \<or> len = 0 then Some ([c1, c2] @ key)
      else do {
        d \<leftarrow> payload len dat;
        (if len \<le> 125 then Some ([c1, c2 + ucast len] @ key @ d)
         else if len \<le> 65535 then
           Some ([c1, c2 + 126] @ put_native 2 (myhtons (ucast len)) @ key @ d)
         else Some ([c1, c2 + 127] @ put_native 8 (myhtonll len) @ key @ d)) })"

text \<open>The function: \<^term>\<open>Some None\<close> is a null result.\<close>

definition frame_buffer_new :: "u8 \<Rightarrow> u8 \<Rightarrow> u64 \<Rightarrow> u8 list option \<Rightarrow> u8 list option option" where
  "frame_buffer_new f oc len dat =
     (if f > 1 \<or> oc > 0xf then Some None
      else map_option Some (frame_bytes f oc 0 [0, 0, 0, 0] len dat))"

definition frame_buffer_of :: "frame_t option \<Rightarrow> u8 list option option" where
  "frame_buffer_of frame = (case frame of None \<Rightarrow> Some None
     | Some f \<Rightarrow> if fin f > 1 \<or> opcode f > 0xf \<or> mask f > 1 then Some None
         else frame_buffer_new (fin f) (opcode f) (payload_len f) (payload_data f))"

text \<open>
  The variant that builds the header in place, in front of a payload that starts at byte 16 of
  the string: the string afterwards, and where in it the frame lies.
\<close>

definition k_prefix_size :: nat where "k_prefix_size = 16"

definition set_bytes :: "u8 list \<Rightarrow> nat \<Rightarrow> u8 list \<Rightarrow> u8 list" where
  "set_bytes data i bs = take i data @ bs @ drop (i + length bs) data"

definition frame_in_place :: "u8 \<Rightarrow> u8 \<Rightarrow> u8 \<Rightarrow> u8 list \<Rightarrow> u8 list \<Rightarrow> u8 list \<times> nat \<times> nat" where
  "frame_in_place f oc mk mkey data =
     (let c1 = frame_c1 f oc; c2 = frame_c2 mk; k = k_prefix_size;
          n = length data - k;
          key = (if mk = 0 then [] else mkey); kl = (if mk = 0 then 0 else 4) in
      if length data = k then (set_bytes data (k - (2 + kl)) ([c1, c2] @ key), k - (2 + kl), 2 + kl)
      else if length data \<le> 125 + k then
        (set_bytes data (k - (2 + kl)) ([c1, c2 + word_of_nat (length data) - word_of_nat k] @ key),
         k - (2 + kl), 2 + kl + n)
      else if length data \<le> 65535 + k then
        (set_bytes data (k - (4 + kl)) ([c1, c2 + 126] @ put_native 2 (myhtons (word_of_nat n)) @ key),
         k - (4 + kl), 4 + kl + n)
      else
        (set_bytes data (k - (10 + kl)) ([c1, c2 + 127] @ put_native 8 (myhtonll (word_of_nat n)) @ key),
         k - (10 + kl), 10 + kl + n))"

definition frame_buffer_new_str :: "u8 \<Rightarrow> u8 \<Rightarrow> u8 list \<Rightarrow> u8 list \<times> (nat \<times> nat) option" where
  "frame_buffer_new_str f oc data =
     (if f > 1 \<or> oc > 0xf then (data, None)
      else if length data < k_prefix_size then (data, None)
      else case frame_in_place f oc 0 [0, 0, 0, 0] data of (data', p, len) \<Rightarrow> (data', Some (p, len)))"

section \<open>Reading a frame back\<close>

text \<open>
  What \<^verbatim>\<open>print_frame_info\<close> prints: the header and the payload, \<^term>\<open>None\<close> when it reads past the
  buffer. It is meant for frames of the server, which are not masked.
\<close>

definition read_bytes :: "u8 list \<Rightarrow> nat \<Rightarrow> nat \<Rightarrow> u8 list option" where
  "read_bytes p i n = (if i + n \<le> length p then Some (take n (drop i p)) else None)"

definition frame_info :: "u8 list \<Rightarrow> (u8 \<times> u8 \<times> u8 \<times> u64 \<times> u8 list option) option" where
  "frame_info p = do {
     h \<leftarrow> read_bytes p 0 2;
     let f = drop_bit 7 (h ! 0);
     let oc = h ! 0 AND 0x0f;
     let mk = drop_bit 7 (h ! 1);
     let len = (ucast (h ! 1 AND 0x7f) :: u64);
     (if len = 0 then Some (f, oc, mk, len, None)
      else if len \<le> 125 then do {
        d \<leftarrow> read_bytes p 2 (unat len);
        Some (f, oc, mk, len, Some d) }
      else if len = 126 then do {
        l \<leftarrow> read_bytes p 2 2;
        let len = ucast (myntohs (get_native l));
        d \<leftarrow> read_bytes p (2 + 2) (unat len);
        Some (f, oc, mk, len, Some d) }
      else do {
        l \<leftarrow> read_bytes p 2 8;
        let len = myntohll (get_native l);
        d \<leftarrow> read_bytes p (2 + 8) (unat len);
        Some (f, oc, mk, len, Some d) }) }"

section \<open>The wire format\<close>

text \<open>RFC 6455, section 5.2: integers are in network byte order, most significant byte first.\<close>

fun be_bytes :: "nat \<Rightarrow> nat \<Rightarrow> u8 list" where
  "be_bytes 0 v = []"
| "be_bytes (Suc k) v = be_bytes k (v div 256) @ [word_of_nat v]"

definition rfc_length :: "nat \<Rightarrow> nat \<Rightarrow> u8 list" where
  "rfc_length mk n =
     (if n \<le> 125 then [word_of_nat (mk * 128 + n)]
      else if n \<le> 65535 then word_of_nat (mk * 128 + 126) # be_bytes 2 n
      else word_of_nat (mk * 128 + 127) # be_bytes 8 n)"

text \<open>A frame with the given final bit and opcode; a client masks with a key of four bytes.\<close>

definition masked :: "u8 list \<Rightarrow> u8 list \<Rightarrow> u8 list" where
  "masked key bs = map (\<lambda>i. bs ! i XOR key ! (i mod 4)) [0..<length bs]"

definition rfc_server_frame :: "nat \<Rightarrow> nat \<Rightarrow> u8 list \<Rightarrow> u8 list" where
  "rfc_server_frame f oc bs = word_of_nat (f * 128 + oc) # rfc_length 0 (length bs) @ bs"

definition rfc_client_frame :: "nat \<Rightarrow> nat \<Rightarrow> u8 list \<Rightarrow> u8 list \<Rightarrow> u8 list" where
  "rfc_client_frame f oc key bs =
     word_of_nat (f * 128 + oc) # rfc_length 1 (length bs) @ key @ masked key bs"

section \<open>Integers in network byte order\<close>

lemma put_native_numeral [simp]:
  "put_native (numeral k) v = ucast v # put_native (pred_numeral k) (drop_bit 8 v)"
  by (simp add: numeral_eq_Suc)

lemma put_htons: "put_native 2 (myhtons w) = [ucast (drop_bit 8 w), ucast w]"
  by (auto intro!: u8_eqI simp: myhtons_def bit_simps)

lemma put_htonll: "put_native 8 (myhtonll w) = [ucast (drop_bit 56 w), ucast (drop_bit 48 w), ucast (drop_bit 40 w),
  ucast (drop_bit 32 w), ucast (drop_bit 24 w), ucast (drop_bit 16 w), ucast (drop_bit 8 w), ucast w]"
  by (simp; intro conjI u8_eqI; simp add: myhtonll_def myhtonl_def bit_simps)

lemma upt_16: "[0..<16] = [0,1,2,3,4,5,6,7,8,9,10,11,12,13,14,15 :: nat]"
  by code_simp

lemma upt_32: "[0..<32] = [0,1,2,3,4,5,6,7,8,9,10,11,12,13,14,15,
    16,17,18,19,20,21,22,23,24,25,26,27,28,29,30,31 :: nat]"
  by code_simp

lemma word_eq_bits: "\<forall>i \<in> set [0..<LENGTH('w)]. bit a i = bit b i \<Longrightarrow> a = b" for a b :: "'w::len word"
  by (rule bit_word_eqI) simp

lemma swap_16: "myntohs (myhtons n) = n"
  by (rule word_eq_bits, simp only: len_num1 len_bit0 mult_numeral_left_semiring_numeral mult_1_right)
    (simp add: upt_16 myntohs_def myhtons_def bit_simps del: set_upt)

lemma swap_32: "myntohl (myhtonl n) = n"
  by (rule word_eq_bits, simp only: len_num1 len_bit0 mult_numeral_left_semiring_numeral mult_1_right)
    (simp add: upt_32 myntohl_def myhtonl_def bit_simps del: set_upt)

lemma swap_64: "myntohll (myhtonll n) = n"
proof -
  have hi: "ucast (drop_bit 32 (myhtonll n)) = myhtonl (ucast n)"
    by (rule bit_word_eqI) (auto simp: myhtonll_def bit_simps dest: bit_imp_le_length)
  have lo: "ucast (myhtonll n) = myhtonl (ucast (drop_bit 32 n))"
    by (rule bit_word_eqI) (auto simp: myhtonll_def bit_simps)
  show ?thesis
    unfolding myntohll_def hi lo swap_32
    by (rule bit_word_eqI) (auto simp: bit_simps)
qed

lemma get_put_native: "get_native (put_native k v) = take_bit (8 * k) v"
proof (induction k arbitrary: v)
  case (Suc k)
  show ?case
    by (rule bit_word_eqI) (auto simp: Suc bit_simps)
qed simp

lemma ucast_byte:
  assumes "n < 2 ^ LENGTH('w::len)"
  shows "(ucast (drop_bit k (word_of_nat n :: 'w word)) :: u8) = word_of_nat (n div 2 ^ k)"
proof -
  have "drop_bit k (word_of_nat n :: 'w word) = word_of_nat (n div 2 ^ k)"
  proof (rule word_unat_eq_iff [THEN iffD2])
    have "n div 2 ^ k < 2 ^ LENGTH('w)" using assms div_le_dividend [of n "2 ^ k"] by linarith
    then show "unat (drop_bit k (word_of_nat n :: 'w word)) = unat (word_of_nat (n div 2 ^ k) :: 'w word)"
      using assms by (simp only: unat_drop_bit_eq) (simp add: drop_bit_eq_div unat_of_nat)
  qed
  moreover have "n div 2 ^ k < 2 ^ LENGTH('w)" using assms div_le_dividend [of n "2 ^ k"] by linarith
  ultimately show ?thesis by (simp add: word_unat_eq_iff unsigned_ucast_eq unat_of_nat take_bit_eq_mod)
qed


lemma be_bytes_numeral [simp]:
  "be_bytes (numeral k) v = be_bytes (pred_numeral k) (v div 256) @ [word_of_nat v]"
  using be_bytes.simps(2) [of "pred_numeral k" v] by (simp only: numeral_eq_Suc [of k, symmetric])

lemma length_be_bytes [simp]: "length (be_bytes k v) = k"
  by (induction k v rule: be_bytes.induct) simp_all

lemma rfc_16: "n < 65536 \<Longrightarrow> put_native 2 (myhtons (word_of_nat n)) = be_bytes 2 n"
  using ucast_byte [of n 0, where 'w = 16] ucast_byte [of n 8, where 'w = 16]
  by (simp only: put_htons) simp

lemma rfc_64:
  assumes "n < 2 ^ 64"
  shows "put_native 8 (myhtonll (word_of_nat n)) = be_bytes 8 n"
proof -
  have n: "n < 2 ^ LENGTH(64)" using assms by simp
  have "put_native 8 (myhtonll (word_of_nat n)) = map (\<lambda>k. word_of_nat (n div 2 ^ k)) [56, 48, 40, 32, 24, 16, 8, 0]"
    unfolding put_htonll ucast_byte [OF n] using ucast_byte [OF n, of 0] by simp
  also have "\<dots> = be_bytes 8 n"
    by (simp add: div_mult2_eq [symmetric])
  finally show ?thesis .
qed

lemma frame_c1_eq:
  assumes "f \<le> 1" "oc \<le> 0xf"
  shows "frame_c1 f oc = word_of_nat (unat f * 128 + unat oc)"
proof -
  obtain a where a: "f = word_of_nat a" "a < 2 ^ LENGTH(8)" by (rule word_nat_cases)
  obtain b where b: "oc = word_of_nat b" "b < 2 ^ LENGTH(8)" by (rule word_nat_cases)
  note ab = a b
  with assms have "a \<le> 1" "b \<le> 15" by (simp_all add: word_le_nat_alt unat_of_nat)
  then have "a \<in> {0, 1}" "b \<in> set [0..<16]" by auto
  then show ?thesis
    unfolding upt_16 frame_c1_def ab by auto
qed


section \<open>The encoders produce the wire format\<close>

lemma payload_all: "unat len = length d \<Longrightarrow> payload len (Some d) = Some d"
  by (simp add: payload_def)

lemma frame_bytes_rfc:
  assumes "f \<le> 1" "oc \<le> 0xf" "unat len = length d"
  shows "frame_bytes f oc 0 key len (Some d) = Some (rfc_server_frame (unat f) (unat oc) d)"
proof -
  have len: "len = word_of_nat (length d)" and lt: "length d < 2 ^ 64"
    using assms(3) unsigned_less [of len, where ?'a = nat] by (auto simp flip: assms(3))
  have le: "len \<le> 125 \<longleftrightarrow> length d \<le> 125" "len \<le> 65535 \<longleftrightarrow> length d \<le> 65535" "len = 0 \<longleftrightarrow> d = []"
    using assms(3) by (simp_all add: word_le_nat_alt word_unat_eq_iff)
  have c2: "length d \<le> 125 \<Longrightarrow> (ucast len :: u8) = word_of_nat (length d)"
    using lt unfolding len by (simp add: word_unat_eq_iff unsigned_ucast_eq unat_of_nat take_bit_eq_mod)
  have c2': "length d \<le> 65535 \<Longrightarrow> (ucast len :: u16) = word_of_nat (length d)"
    using lt unfolding len by (simp add: word_unat_eq_iff unsigned_ucast_eq unat_of_nat take_bit_eq_mod)
  have l16: "length d \<le> 65535 \<Longrightarrow> put_native 2 (myhtons (ucast len)) = be_bytes 2 (length d)"
    using rfc_16 [of "length d"] c2' by (simp del: put_native_numeral be_bytes_numeral)
  have l64: "put_native 8 (myhtonll len) = be_bytes 8 (length d)"
    using rfc_64 [OF lt] len by simp
  show ?thesis
    using c2 l16 l64
    by (auto simp: frame_bytes_def frame_c1_eq [OF assms(1,2)] frame_c2_def payload_all [OF assms(3)] le
      rfc_server_frame_def rfc_length_def Let_def simp del: put_native_numeral be_bytes_numeral)
qed

lemma frame_bytes_null:
  assumes "f \<le> 1" "oc \<le> 0xf"
  shows "frame_bytes f oc 0 key len None = Some (rfc_server_frame (unat f) (unat oc) [])"
  by (simp add: frame_bytes_def frame_c1_eq [OF assms] frame_c2_def rfc_server_frame_def rfc_length_def)

lemma u8_and_0f: "x AND 0x0f = word_of_nat (unat x mod 16)" for x :: u8
proof -
  have "x AND 0x0f = take_bit 4 x" by (simp add: take_bit_eq_mask mask_eq_exp_minus_1)
  then show ?thesis
    by (simp only:) (simp add: word_unat_eq_iff unsigned_take_bit_eq take_bit_eq_mod unat_of_nat unat_mod)
qed

lemma u8_and_7f: "x AND 0x7f = word_of_nat (unat x mod 128)" for x :: u8
proof -
  have "x AND 0x7f = take_bit 7 x" by (simp add: take_bit_eq_mask mask_eq_exp_minus_1)
  then show ?thesis
    by (simp only:) (simp add: word_unat_eq_iff unsigned_take_bit_eq take_bit_eq_mod unat_of_nat unat_mod)
qed

lemma u8_shift_7: "drop_bit 7 x = word_of_nat (unat x div 128)" for x :: u8
proof -
  have "unat x div 128 < 256" using div_le_dividend [of "unat x" 128] u8_less [of x] by linarith
  then show ?thesis
    by (simp only: word_unat_eq_iff unat_drop_bit_eq) (simp add: drop_bit_eq_div unat_of_nat)
qed

lemma header_fields:
  assumes "f \<le> (1 :: u8)" "oc \<le> (0xf :: u8)"
  shows "drop_bit 7 (word_of_nat (unat f * 128 + unat oc)) = f"
    and "word_of_nat (unat f * 128 + unat oc) AND 0x0f = oc"
proof -
  have b: "unat f \<le> 1" "unat oc \<le> 15" using assms by (simp_all add: word_le_nat_alt)
  then have u: "unat (word_of_nat (unat f * 128 + unat oc) :: u8) = unat f * 128 + unat oc"
    by (intro unat_u8_of_nat) linarith
  have "(unat f * 128 + unat oc) mod 16 = (16 * (unat f * 8) + unat oc) mod 16" by (simp add: mult.commute)
  also have "\<dots> = unat oc" unfolding mod_mult_self4 using b by simp
  finally show "word_of_nat (unat f * 128 + unat oc) AND 0x0f = oc"
    unfolding u8_and_0f u by simp
  have "(unat f * 128 + unat oc) div 128 = unat f" using b by simp
  then show "drop_bit 7 (word_of_nat (unat f * 128 + unat oc)) = f"
    unfolding u8_shift_7 u by simp
qed

lemma length_fields:
  assumes "mk \<le> 1" "n < 128"
  shows "drop_bit 7 (word_of_nat (mk * 128 + n)) = (word_of_nat mk :: u8)"
    and "word_of_nat (mk * 128 + n) AND 0x7f = (word_of_nat n :: u8)"
proof -
  have "unat (word_of_nat (mk * 128 + n) :: u8) = mk * 128 + n"
    using assms by (intro unat_u8_of_nat) linarith
  then show "drop_bit 7 (word_of_nat (mk * 128 + n)) = (word_of_nat mk :: u8)"
    and "word_of_nat (mk * 128 + n) AND 0x7f = (word_of_nat n :: u8)"
    using assms unfolding u8_and_7f u8_shift_7 by simp_all
qed


lemma native_be:
  shows "n < 65536 \<Longrightarrow> ucast (myntohs (get_native (be_bytes 2 n))) = (word_of_nat n :: u64)"
    and "n < 2 ^ 64 \<Longrightarrow> myntohll (get_native (be_bytes 8 n)) = word_of_nat n"
proof -
  have "get_native (be_bytes 2 n) = myhtons (word_of_nat n)" if "n < 65536"
    unfolding rfc_16 [OF that, symmetric] get_put_native by (rule bit_word_eqI) (simp add: bit_take_bit_iff)
  then show "n < 65536 \<Longrightarrow> ucast (myntohs (get_native (be_bytes 2 n))) = (word_of_nat n :: u64)"
    by (simp only: swap_16) (simp add: word_unat_eq_iff unsigned_ucast_eq unat_of_nat take_bit_eq_mod)
  have "get_native (be_bytes 8 n) = myhtonll (word_of_nat n)" if "n < 2 ^ 64"
    unfolding rfc_64 [OF that, symmetric] get_put_native by (rule bit_word_eqI) (simp add: bit_take_bit_iff)
  then show "n < 2 ^ 64 \<Longrightarrow> myntohll (get_native (be_bytes 8 n)) = word_of_nat n"
    by (simp only: swap_64)
qed

lemma length_field_value: "n < 128 \<Longrightarrow> (ucast (word_of_nat n :: u8) :: u64) = word_of_nat n"
  by (simp add: word_unat_eq_iff unsigned_ucast_eq unat_of_nat take_bit_eq_mod)

lemma frame_info_rfc:
  assumes "f \<le> 1" "oc \<le> 0xf" "length d < 2 ^ 64"
  shows "frame_info (rfc_server_frame (unat f) (unat oc) d) =
    Some (f, oc, 0, word_of_nat (length d), if d = [] then None else Some d)"
proof -
  define h1 :: u8 where "h1 = word_of_nat (unat f * 128 + unat oc)"
  note h = header_fields [OF assms(1,2), folded h1_def]
  consider "d = []" | "d \<noteq> []" "length d \<le> 125" | "125 < length d" "length d \<le> 65535" | "65535 < length d" by linarith
  then show ?thesis
  proof cases
    case 1
    then show ?thesis
      unfolding frame_info_def rfc_server_frame_def rfc_length_def h1_def [symmetric]
      by (simp add: read_bytes_def h)
  next
    case 2
    then have n: "(word_of_nat (length d) :: u64) \<noteq> 0" "(word_of_nat (length d) :: u64) \<le> 125"
      "unat (word_of_nat (length d) :: u64) = length d"
      by (simp_all add: word_le_nat_alt word_unat_eq_iff unat_of_nat)
    have "length d < 128" using 2 by simp
    note l = length_fields [of 0 "length d", OF _ this, simplified] length_field_value [OF this]
    show ?thesis
      using 2(1) unfolding frame_info_def rfc_server_frame_def rfc_length_def h1_def [symmetric]
      by (simp add: read_bytes_def h 2 l n Let_def)
  next
    case 3
    have l: "ucast ((126 :: u8) AND 0x7f) = (126 :: u64)" "drop_bit 7 (126 :: u8) = 0" by simp_all
    have n: "unat (word_of_nat (length d) :: u64) = length d" using assms(3) by (simp add: unat_of_nat)
    have "frame_info (rfc_server_frame (unat f) (unat oc) d) = Some (f, oc, 0, word_of_nat (length d), Some d)"
      using 3 native_be(1) [of "length d"] unfolding frame_info_def rfc_server_frame_def rfc_length_def h1_def [symmetric]
      by (simp add: read_bytes_def h n Let_def del: be_bytes_numeral)
    then show ?thesis using 3 by auto
  next
    case 4
    have n: "unat (word_of_nat (length d) :: u64) = length d" using assms(3) by (simp add: unat_of_nat)
    have "frame_info (rfc_server_frame (unat f) (unat oc) d) = Some (f, oc, 0, word_of_nat (length d), Some d)"
      using 4 native_be(2) [OF assms(3)] unfolding frame_info_def rfc_server_frame_def rfc_length_def h1_def [symmetric]
      by (simp add: read_bytes_def h n Let_def del: be_bytes_numeral)
    then show ?thesis using 4 by auto
  qed
qed

lemma set_bytes_prefix:
  assumes "i + length bs \<le> length data"
  shows "length (set_bytes data i bs) = length data"
    "drop i (set_bytes data i bs) = bs @ drop (i + length bs) data"
    "i + length bs \<le> k \<Longrightarrow> drop k (set_bytes data i bs) = drop k data"
  using assms by (simp_all add: set_bytes_def)

lemma frame_in_place_rfc:
  assumes "f \<le> 1" "oc \<le> 0xf" "16 \<le> length data" "length data - 16 < 2 ^ 64"
    and "frame_in_place f oc 0 key data = (data', p, len)"
  shows "take len (drop p data') = rfc_server_frame (unat f) (unat oc) (drop 16 data) \<and>
    length data' = length data \<and> drop 16 data' = drop 16 data \<and> p + len = length data"
proof -
  let ?n = "length data - 16"
  consider "length data = 16" | "16 < length data" "length data \<le> 141" |
    "141 < length data" "length data \<le> 65551" | "65551 < length data" using assms(3) by linarith
  then show ?thesis
  proof cases
    case 1
    then show ?thesis using assms(5)
      by (auto simp: frame_in_place_def k_prefix_size_def Let_def set_bytes_prefix frame_c1_eq [OF assms(1,2)]
         frame_c2_def rfc_server_frame_def rfc_length_def)
  next
    case 2
    have "word_of_nat (length data) - 16 = (word_of_nat ?n :: u8)" using 2 by (simp add: of_nat_diff)
    then show ?thesis using assms(5) 2
      by (auto simp: frame_in_place_def k_prefix_size_def Let_def set_bytes_prefix frame_c1_eq [OF assms(1,2)]
         frame_c2_def rfc_server_frame_def rfc_length_def)
  next
    case 3
    show ?thesis using assms(5) 3 rfc_16 [of ?n]
      by (auto simp: frame_in_place_def k_prefix_size_def Let_def set_bytes_prefix frame_c1_eq [OF assms(1,2)]
         frame_c2_def rfc_server_frame_def rfc_length_def simp del: put_native_numeral be_bytes_numeral)
  next
    case 4
    show ?thesis using assms(5) 4 rfc_64 [OF assms(4)]
      by (auto simp: frame_in_place_def k_prefix_size_def Let_def set_bytes_prefix frame_c1_eq [OF assms(1,2)]
         frame_c2_def rfc_server_frame_def rfc_length_def simp del: put_native_numeral be_bytes_numeral)
  qed
qed

section \<open>The properties of the encoders\<close>

text \<open>
  C12. \<^verbatim>\<open>frame_buffer_new\<close> writes the frame of RFC 6455: for a final bit and an opcode in range
  and a payload of the announced length the buffer is the unmasked frame, with the length in
  one, three or nine bytes; a null payload is an empty one; anything else yields a null result.
\<close>

theorem frame_buffer_new_wire:
  assumes "unat len = length d"
  shows "frame_buffer_new f oc len (Some d) =
      Some (if f \<le> 1 \<and> oc \<le> 0xf then Some (rfc_server_frame (unat f) (unat oc) d) else None) \<and>
    frame_buffer_new f oc len None =
      Some (if f \<le> 1 \<and> oc \<le> 0xf then Some (rfc_server_frame (unat f) (unat oc) []) else None)"
  using frame_bytes_rfc [OF _ _ assms] frame_bytes_null by (auto simp: frame_buffer_new_def)

theorem frame_buffer_new_wire_witness:
  "frame_buffer_new 1 1 2 (Some [104, 105]) = Some (Some [0x81, 2, 104, 105]) \<and>
   frame_buffer_new 1 17 2 (Some [104, 105]) = Some None"
  using frame_buffer_new_wire [of 2 "[104, 105]" 1 1] frame_buffer_new_wire [of 2 "[104, 105]" 1 17]
  by (simp add: rfc_server_frame_def rfc_length_def)

text \<open>
  The variant that puts the header in front of a payload starting at byte 16 of a string
  makes the same frame as the copying one: the region it returns ends with the string and holds
  the frame, the payload is not moved or changed, and the string keeps its length.
\<close>

lemma frame_in_place_wire:
  assumes "f \<le> 1" "oc \<le> 0xf" "16 \<le> length data" "length data - 16 < 2 ^ 64"
  shows "\<exists>data' p len. frame_buffer_new_str f oc data = (data', Some (p, len)) \<and>
    frame_buffer_new f oc (word_of_nat (length data - 16)) (Some (drop 16 data)) = Some (Some (take len (drop p data'))) \<and>
    length data' = length data \<and> drop 16 data' = drop 16 data \<and> p + len = length data"
proof -
  obtain data' p len where r: "frame_in_place f oc 0 [0, 0, 0, 0] data = (data', p, len)" by (metis prod_cases3)
  have "unat (word_of_nat (length data - 16) :: u64) = length (drop 16 data)"
    using assms(4) by (simp add: unat_of_nat)
  from frame_bytes_rfc [OF assms(1,2) this] frame_in_place_rfc [OF assms r] assms(1-3) r show ?thesis
    by (auto simp: frame_buffer_new_def frame_buffer_new_str_def k_prefix_size_def)
qed

text \<open>
  What is encoded is read back: the header and the payload \<^verbatim>\<open>print_frame_info\<close> finds in a
  frame of \<^verbatim>\<open>frame_buffer_new\<close> are those it was made from, in all three length encodings, and
  it reads nothing behind the frame.
\<close>

lemma frame_info_roundtrip:
  assumes "f \<le> 1" "oc \<le> 0xf" "unat len = length d"
  shows "\<exists>fb. frame_buffer_new f oc len (Some d) = Some (Some fb) \<and>
    frame_info fb = Some (f, oc, 0, len, if d = [] then None else Some d)"
proof -
  have "length d < 2 ^ 64" "len = word_of_nat (length d)"
    using unsigned_less [of len, where ?'a = nat] by (auto simp flip: assms(3))
  with frame_info_rfc [OF assms(1,2)] frame_bytes_rfc [OF assms] assms(1,2) show ?thesis
    by (auto simp: frame_buffer_new_def)
qed

end
