(* ===== verification/Ws_Base64.thy ===== *)
theory Ws_Base64
  imports Sdk_Prelude
begin

text \<open>
  Base 64: \<^verbatim>\<open>web_server/ws/base64.h\<close>, which encodes the digest of the WebSocket handshake. The
  encoder collects three bytes in an array and appends four characters per full array; the
  bytes that remain are padded. It is proved equal to the groups of RFC 4648 computed with
  natural numbers, and inverted by a decoder written from the RFC.
\<close>

section \<open>The encoder\<close>

definition base64_chars :: string where
  "base64_chars = ''ABCDEFGHIJKLMNOPQRSTUVWXYZ'' @ ''abcdefghijklmnopqrstuvwxyz'' @ ''0123456789+/''"

text \<open>The computation of \<^verbatim>\<open>char_array_4\<close> from \<^verbatim>\<open>char_array_3\<close>.\<close>

definition char_array_4 :: "u8 list \<Rightarrow> u8 list" where
  "char_array_4 a =
     [drop_bit 2 (a ! 0 AND 0xfc),
      push_bit 4 (a ! 0 AND 0x03) + drop_bit 4 (a ! 1 AND 0xf0),
      push_bit 2 (a ! 1 AND 0x0f) + drop_bit 6 (a ! 2 AND 0xc0),
      a ! 2 AND 0x3f]"

definition b64_put :: "string \<Rightarrow> u8 list \<Rightarrow> string" where
  "b64_put ret cs = ret @ map (\<lambda>c. base64_chars ! unat c) cs"

text \<open>
  \<^verbatim>\<open>while (in_len--)\<close>: the string so far, the array of three bytes, the number \<open>i\<close> of bytes in it;
  \<^term>\<open>None\<close> when the input is shorter than announced.
\<close>

fun b64_loop :: "string \<Rightarrow> u8 list \<Rightarrow> nat \<Rightarrow> u8 list \<Rightarrow> nat \<Rightarrow> (string \<times> u8 list \<times> nat) option" where
  "b64_loop ret a i bs 0 = Some (ret, a, i)"
| "b64_loop ret a i [] (Suc n) = None"
| "b64_loop ret a i (b # bs) (Suc n) =
     (let a = a[i := b]; i = i + 1 in
      if i = 3 then b64_loop (b64_put ret (char_array_4 a)) a 0 bs n
      else b64_loop ret a i bs n)"

text \<open>\<^verbatim>\<open>for (j = i; j < 3; j++) char_array_3[j] = '\0'\<close>, then the characters and the padding.\<close>

definition b64_pad :: "u8 list \<Rightarrow> nat \<Rightarrow> u8 list" where
  "b64_pad a i = fold (\<lambda>j a. a[j := 0]) [i..<3] a"

definition b64_rest :: "string \<Rightarrow> u8 list \<Rightarrow> nat \<Rightarrow> string" where
  "b64_rest ret a i =
     (if i = 0 then ret
      else b64_put ret (take (i + 1) (char_array_4 (b64_pad a i))) @ replicate (3 - i) (CHR ''=''))"

text \<open>The contents of the arrays before the loop are indeterminate: \<open>junk\<close>.\<close>

definition base64_encode_to :: "u8 list \<Rightarrow> string \<Rightarrow> u8 list \<Rightarrow> nat \<Rightarrow> string option" where
  "base64_encode_to junk ret bs in_len = do {
     (ret, a, i) \<leftarrow> b64_loop ret junk 0 bs in_len;
     Some (b64_rest ret a i) }"

definition base64_encode :: "u8 list \<Rightarrow> u8 list \<Rightarrow> nat \<Rightarrow> string option" where
  "base64_encode junk bs in_len = base64_encode_to junk '''' bs in_len"

section \<open>RFC 4648\<close>

text \<open>A group of 24 bits as four digits of base 64; the last group may be one or two bytes.\<close>

definition digit :: "nat \<Rightarrow> nat \<Rightarrow> char" where
  "digit v k = base64_chars ! (v div 64 ^ k mod 64)"

definition bits24 :: "u8 \<Rightarrow> u8 \<Rightarrow> u8 \<Rightarrow> nat" where
  "bits24 a b c = unat a * 65536 + unat b * 256 + unat c"

fun b64_ref :: "u8 list \<Rightarrow> string" where
  "b64_ref [] = ''''"
| "b64_ref [a] = [digit (bits24 a 0 0) 3, digit (bits24 a 0 0) 2, CHR ''='', CHR ''='']"
| "b64_ref [a, b] = [digit (bits24 a b 0) 3, digit (bits24 a b 0) 2, digit (bits24 a b 0) 1, CHR ''='']"
| "b64_ref (a # b # c # bs) =
     [digit (bits24 a b c) 3, digit (bits24 a b c) 2, digit (bits24 a b c) 1, digit (bits24 a b c) 0] @ b64_ref bs"

fun index_of :: "char \<Rightarrow> string \<Rightarrow> nat option" where
  "index_of c [] = None"
| "index_of c (x # xs) = (if x = c then Some 0 else map_option Suc (index_of c xs))"

definition b64_value :: "char \<Rightarrow> nat option" where
  "b64_value c = index_of c base64_chars"

definition bytes_of :: "nat \<Rightarrow> u8 list" where
  "bytes_of v = [word_of_nat (v div 65536), word_of_nat (v div 256), word_of_nat v]"

fun b64_decode :: "string \<Rightarrow> u8 list option" where
  "b64_decode [] = Some []"
| "b64_decode (c0 # c1 # c2 # c3 # cs) = do {
     v0 \<leftarrow> b64_value c0;
     v1 \<leftarrow> b64_value c1;
     (if c3 = CHR ''='' \<and> cs = [] then
        (if c2 = CHR ''='' then Some (take 1 (bytes_of (v0 * 262144 + v1 * 4096)))
         else do { v2 \<leftarrow> b64_value c2; Some (take 2 (bytes_of (v0 * 262144 + v1 * 4096 + v2 * 64))) })
      else do {
        v2 \<leftarrow> b64_value c2;
        v3 \<leftarrow> b64_value c3;
        rest \<leftarrow> b64_decode cs;
        Some (bytes_of (v0 * 262144 + v1 * 4096 + v2 * 64 + v3) @ rest) }) }"
| "b64_decode _ = None"

section \<open>The encoder computes the groups of the RFC\<close>

lemma unat_drop_byte: "unat (drop_bit k a) = unat (a :: u8) div 2 ^ k"
  by (simp only: unat_drop_bit_eq) (simp add: drop_bit_eq_div)

lemma unat_push_byte: "unat a * 2 ^ k < 256 \<Longrightarrow> unat (push_bit k a) = unat (a :: u8) * 2 ^ k"
  by (simp only: unsigned_push_bit_eq) (simp add: push_bit_eq_mult take_bit_eq_mod)

lemma sextet_0: "unat (drop_bit 2 (a AND 0xfc)) = unat (a :: u8) div 4"
proof -
  have "drop_bit 2 (a AND 0xfc) = drop_bit 2 a" by (rule u8_eqI) (simp_all add: bit_simps)
  then show ?thesis using unat_drop_byte [of 2 a] by simp
qed

lemma high_bits:
  "unat (drop_bit 4 (a AND 0xf0)) = unat (a :: u8) div 16" "unat (drop_bit 6 (a AND 0xc0)) = unat a div 64"
proof -
  have "drop_bit 4 (a AND 0xf0) = drop_bit 4 a" by (rule u8_eqI) (simp_all add: bit_simps)
  moreover have "drop_bit 6 (a AND 0xc0) = drop_bit 6 a" by (rule u8_eqI) (simp_all add: bit_simps)
  ultimately show "unat (drop_bit 4 (a AND 0xf0)) = unat a div 16" "unat (drop_bit 6 (a AND 0xc0)) = unat a div 64"
    using unat_drop_byte [of 4 a] unat_drop_byte [of 6 a] by simp_all
qed

lemma low_bits: "unat (push_bit 4 (a AND 3)) = unat (a :: u8) mod 4 * 16"
  "unat (push_bit 2 (a AND 0xf)) = unat a mod 16 * 4"
proof -
  have "unat (a AND 3) * 2 ^ 4 < 256" "unat (a AND 0xf) * 2 ^ 2 < 256"
    unfolding unat_and_low using mod_less_divisor [of 4 "unat a"] mod_less_divisor [of 16 "unat a"] by simp_all
  then show "unat (push_bit 4 (a AND 3)) = unat a mod 4 * 16" "unat (push_bit 2 (a AND 0xf)) = unat a mod 16 * 4"
    using unat_push_byte [of "a AND 3" 4] unat_push_byte [of "a AND 0xf" 2] by (simp_all add: unat_and_low)
qed

lemma unat_add_byte: "unat a + unat b < 256 \<Longrightarrow> unat (a + b) = unat a + unat (b :: u8)"
  by (simp add: unat_word_ariths)

lemma last_digit: "k < 64 \<Longrightarrow> (x * 64 + k) mod 64 = (k :: nat)"
  by simp

lemma digits:
  fixes a b c :: nat
  assumes "a < 256" "b < 256" "c < 256"
  defines "v \<equiv> a * 65536 + b * 256 + c"
  shows "v div 64 ^ 3 mod 64 = a div 4" "v div 64 ^ 2 mod 64 = a mod 4 * 16 + b div 16"
    "v div 64 ^ 1 mod 64 = b mod 16 * 4 + c div 64" "v div 64 ^ 0 mod 64 = c mod 64"
proof -
  obtain a1 a0 where a: "a = a1 * 4 + a0" "a0 < 4" "a div 4 = a1" "a mod 4 = a0"
    by (metis div_mult_mod_eq mod_less_divisor zero_less_numeral)
  obtain b1 b0 where b: "b = b1 * 16 + b0" "b0 < 16" "b div 16 = b1" "b mod 16 = b0"
    by (metis div_mult_mod_eq mod_less_divisor zero_less_numeral)
  obtain c1 c0 where c: "c = c1 * 64 + c0" "c0 < 64" "c div 64 = c1" "c mod 64 = c0"
    by (metis div_mult_mod_eq mod_less_divisor zero_less_numeral)
  have v: "v = ((a1 * 64 + (a0 * 16 + b1)) * 64 + (b0 * 4 + c1)) * 64 + c0"
    unfolding v_def a(1) b(1) c(1) by simp
  have lt: "a1 < 64" "b1 < 16" "c1 < 4" using assms a b c by linarith+
  then have d: "a0 * 16 + b1 < 64" "b0 * 4 + c1 < 64" using a b by linarith+
  have s1: "v div 64 = (a1 * 64 + (a0 * 16 + b1)) * 64 + (b0 * 4 + c1)" using c(2) unfolding v by simp
  have s2: "v div 64 div 64 = a1 * 64 + (a0 * 16 + b1)" using d(2) unfolding s1 by simp
  have s3: "v div 64 div 64 div 64 = a1" using d(1) unfolding s2 by simp
  have p: "v div 64 ^ 2 = v div 64 div 64" "v div 64 ^ 3 = v div 64 div 64 div 64"
    by (simp_all add: div_mult2_eq [symmetric])
  show "v div 64 ^ 3 mod 64 = a div 4" unfolding p s3 a(3) using lt by simp
  show "v div 64 ^ 2 mod 64 = a mod 4 * 16 + b div 16" unfolding p s2 a(4) b(3) by (rule last_digit [OF d(1)])
  show "v div 64 ^ 1 mod 64 = b mod 16 * 4 + c div 64" unfolding power_one_right s1 b(4) c(3) by (rule last_digit [OF d(2)])
  show "v div 64 ^ 0 mod 64 = c mod 64" unfolding power_0 div_by_1 v c(4) by (rule last_digit [OF c(2)])
qed

lemma nth_three: "[a, b, c] ! 0 = a" "[a, b, c] ! 1 = b" "[a, b, c] ! 2 = c"
  by simp_all

lemma char_array_4_digits:
  "map (\<lambda>c. base64_chars ! unat c) (char_array_4 [a, b, c]) =
    [digit (bits24 a b c) 3, digit (bits24 a b c) 2, digit (bits24 a b c) 1, digit (bits24 a b c) 0]"
proof -
  note d = digits [OF u8_less u8_less u8_less, of a b c]
  have "unat a mod 4 * 16 + unat b div 16 < 256" "unat b mod 16 * 4 + unat c div 64 < 256"
    using u8_less [of a] u8_less [of b] u8_less [of c] mod_less_divisor [of 4 "unat a"] mod_less_divisor [of 16 "unat b"]
    by linarith+
  then have "map unat (char_array_4 [a, b, c]) =
      [unat a div 4, unat a mod 4 * 16 + unat b div 16, unat b mod 16 * 4 + unat c div 64, unat c mod 64]"
    by (simp only: char_array_4_def list.map sextet_0 high_bits low_bits unat_and_low unat_add_byte nth_three)
  then have "map ((!) base64_chars) (map unat (char_array_4 [a, b, c])) =
      [digit (bits24 a b c) 3, digit (bits24 a b c) 2, digit (bits24 a b c) 1, digit (bits24 a b c) 0]"
    unfolding digit_def bits24_def d by simp
  then show ?thesis by (simp add: comp_def)
qed

lemma b64_encode_ref:
  "length a = 3 \<Longrightarrow> base64_encode_to a ret (xs @ ys) (length xs) = Some (ret @ b64_ref xs)"
proof (induction xs arbitrary: a ret rule: b64_ref.induct)
  case 1
  then show ?case by (simp add: base64_encode_to_def b64_rest_def)
next
  case (2 x)
  then obtain p q r where a: "a = [p, q, r]" by (auto simp: length_Suc_conv numeral_3_eq_3)
  have "[Suc 0..<3] = [1, Suc 1]" by code_simp
  then show ?case
    using char_array_4_digits [of x 0 0]
    by (simp add: base64_encode_to_def b64_rest_def b64_put_def b64_pad_def char_array_4_def a Let_def numeral_2_eq_2)
next
  case (3 x y)
  then obtain p q r where a: "a = [p, q, r]" by (auto simp: length_Suc_conv numeral_3_eq_3)
  have "[Suc (Suc 0)..<3] = [Suc (Suc 0)]" by code_simp
  then show ?case
    using char_array_4_digits [of x y 0]
    by (simp add: base64_encode_to_def b64_rest_def b64_put_def b64_pad_def char_array_4_def a Let_def numeral_2_eq_2)
next
  case (4 x y z xs)
  then obtain p q r where a: "a = [p, q, r]" by (auto simp: length_Suc_conv numeral_3_eq_3)
  have "base64_encode_to a ret ((x # y # z # xs) @ ys) (length (x # y # z # xs)) =
      base64_encode_to [x, y, z] (b64_put ret (char_array_4 [x, y, z])) (xs @ ys) (length xs)"
    by (simp add: base64_encode_to_def a Let_def)
  also have "\<dots> = Some (b64_put ret (char_array_4 [x, y, z]) @ b64_ref xs)" by (rule 4) simp
  finally show ?case by (simp add: b64_put_def char_array_4_digits)
qed

section \<open>Decoding\<close>

lemma b64_value_char: "n < 64 \<Longrightarrow> b64_value (base64_chars ! n) = Some n"
proof -
  have "\<forall>n \<in> set [0..<64]. b64_value (base64_chars ! n) = Some n \<and> base64_chars ! n \<noteq> CHR ''=''" by code_simp
  then show "n < 64 \<Longrightarrow> b64_value (base64_chars ! n) = Some n" by simp
qed

lemma digit_value [simp]: "b64_value (digit v k) = Some (v div 64 ^ k mod 64)"
  by (simp add: digit_def b64_value_char)

lemma digit_no_pad [simp]: "digit v k \<noteq> CHR ''=''"
proof
  assume "digit v k = CHR ''=''"
  then have "b64_value (CHR ''='') = Some (v div 64 ^ k mod 64)" using digit_value [of v k] by simp
  moreover have "b64_value (CHR ''='') = None" by code_simp
  ultimately show False by simp
qed

lemma group_digits:
  assumes "v < 16777216"
  shows "v div 262144 mod 64 * 262144 + v div 4096 mod 64 * 4096 + v div 64 mod 64 * 64 + v mod 64 = (v :: nat)"
proof -
  define x y z where "x = v div 64" and "y = x div 64" and "z = y div 64"
  have d: "v div 64 = x" "v div 4096 = y" "v div 262144 = z"
    by (simp_all add: x_def y_def z_def div_mult2_eq [symmetric])
  have "v = x * 64 + v mod 64" "x = y * 64 + x mod 64" "y = z * 64 + y mod 64"
    by (simp_all add: x_def y_def z_def)
  moreover have "z mod 64 = z" using assms d(3) by auto
  ultimately show ?thesis unfolding d by linarith
qed

lemma group_bound: "bits24 a b c < 16777216"
  using u8_less [of a] u8_less [of b] u8_less [of c] by (simp add: bits24_def)

lemma u8_of_nat_mod: "n mod 256 = unat a \<Longrightarrow> word_of_nat n = (a :: u8)"
  by (simp add: word_unat_eq_iff unat_of_nat)

lemma bytes_of_group: "bytes_of (bits24 a b c) = [a, b, c]"
proof -
  have "bits24 a b c = (unat a * 256 + unat b) * 256 + unat c" by (simp add: bits24_def)
  then have "bits24 a b c mod 256 = unat c mod 256" by (simp only: mod_mult_self3)
  then have "bits24 a b c mod 256 = unat c" using u8_less [of c] by simp
  moreover have "bits24 a b c div 65536 = unat a" "bits24 a b c div 256 = unat a * 256 + unat b"
    using u8_less [of a] u8_less [of b] u8_less [of c] by (simp_all add: bits24_def)
  moreover have "word_of_nat (unat a * 256 + unat b) = b" "word_of_nat (unat a) = a"
    by (rule u8_of_nat_mod, simp add: u8_less)+
  ultimately show ?thesis by (simp only: bytes_of_def u8_of_nat_mod)
qed

lemma digits_of_group:
  fixes a b c :: u8
  defines "v \<equiv> bits24 a b c"
  shows "v div 64 ^ 3 mod 64 * 262144 + v div 64 ^ 2 mod 64 * 4096 + v div 64 ^ 1 mod 64 * 64 + v div 64 ^ 0 mod 64 = v"
proof -
  have "64 ^ 3 = (262144 :: nat)" "64 ^ 2 = (4096 :: nat)" by simp_all
  then show ?thesis
    unfolding v_def by (simp only: power_one_right power_0 div_by_1 group_digits [OF group_bound])
qed

lemma zero_digits: "bits24 a b 0 div 64 ^ 0 mod 64 = 0" "bits24 a 0 0 div 64 ^ 1 mod 64 = 0"
  using digits(4) [of "unat a" "unat b" 0] digits(3) [of "unat a" 0 0] u8_less [of a] u8_less [of b]
  by (simp_all add: bits24_def)

lemmas decode_simps = b64_ref.simps b64_decode.simps digit_value digit_no_pad Option.bind.simps simp_thms if_True if_False

lemma b64_decode_ref: "b64_decode (b64_ref bs) = Some bs"
proof (induction bs rule: b64_ref.induct)
  case (2 a)
  note d = digits_of_group [of a 0 0, unfolded zero_digits mult_zero_left add_0_right]
  show ?case unfolding decode_simps d bytes_of_group by simp
next
  case (3 a b)
  note d = digits_of_group [of a b 0, unfolded zero_digits mult_zero_left add_0_right]
  show ?case unfolding decode_simps d bytes_of_group by simp
next
  case (4 a b c bs)
  note d = digits_of_group [of a b c]
  show ?case unfolding append_Cons append_Nil decode_simps 4 d bytes_of_group by simp
qed simp

lemma length_b64_ref: "length (b64_ref bs) = (length bs + 2) div 3 * 4"
proof (induction bs rule: b64_ref.induct)
  case (4 a b c bs)
  have "length (a # b # c # bs) + 2 = (length bs + 2) + 3" by simp
  then have "(length (a # b # c # bs) + 2) div 3 = (length bs + 2) div 3 + 1" by (simp only: div_add_self2)
  then show ?case using 4 by simp
qed simp_all

section \<open>The property of the encoder\<close>

text \<open>
  C13. \<^verbatim>\<open>base64_encode\<close> is RFC 4648: whatever the array held before, the result is the sequence
  of groups of the RFC with its padding, four characters for every three bytes begun, and
  decoding it gives back the bytes.
\<close>

theorem base64_encode_rfc:
  assumes "length junk = 3" "in_len \<le> length bs"
  shows "\<exists>s. base64_encode junk bs in_len = Some s \<and> s = b64_ref (take in_len bs) \<and>
    length s = (in_len + 2) div 3 * 4 \<and> b64_decode s = Some (take in_len bs)"
  using b64_encode_ref [OF assms(1), of "[]" "take in_len bs" "drop in_len bs"] assms(2)
  by (simp add: base64_encode_def b64_decode_ref length_b64_ref)

theorem base64_encode_rfc_witness:
  "base64_encode [9, 9, 9] [77, 97, 110, 77] 4 = Some ''TWFuTQ=='' \<and> b64_decode ''TWFuTQ=='' = Some [77, 97, 110, 77]"
proof -
  have "b64_ref [77, 97, 110, 77] = ''TWFuTQ==''" by (simp add: digit_def bits24_def base64_chars_def)
  then show ?thesis using base64_encode_rfc [of "[9, 9, 9]" 4 "[77, 97, 110, 77]"] by auto
qed

end
