(* ===== verification/Ws_Socket.thy ===== *)
theory Ws_Socket
  imports Ws_Frame Ws_Base64
begin

text \<open>
  The handshake and the frame header: \<^verbatim>\<open>web_server/ws/websocket.cpp\<close>. Strings are lists of
  characters without the terminating NUL. SHA-1 comes from OpenSSL and is a parameter.
\<close>

section \<open>Requests\<close>

record ws_req_t =
  req :: string
  connection :: string
  upgrade :: string
  host :: string
  origin :: string
  cookie :: string
  sec_websocket_key :: string
  sec_websocket_version :: string

definition ws_req_new :: ws_req_t where
  "ws_req_new = \<lparr> req = '''', connection = '''', upgrade = '''', host = '''', origin = '''', cookie = '''',
     sec_websocket_key = '''', sec_websocket_version = '''' \<rparr>"

abbreviation CR :: char where "CR \<equiv> CHR 0x0D"
abbreviation LF :: char where "LF \<equiv> CHR 0x0A"
abbreviation NUL :: char where "NUL \<equiv> CHR 0x00"
abbreviation CRLF :: string where "CRLF \<equiv> [CR, LF]"

definition is_delim :: "char \<Rightarrow> bool" where
  "is_delim c \<longleftrightarrow> c = CR \<or> c = LF"

text \<open>
  \<^verbatim>\<open>strtok\<close> with the delimiters CR and LF on what is left of the string: the next token, and
  what is behind the delimiter that ended it (\<^term>\<open>None\<close> when the end of the string did).
\<close>

definition strtok :: "string \<Rightarrow> (string \<times> string option) option" where
  "strtok s = (let s = dropWhile is_delim s; t = takeWhile (\<lambda>c. \<not> is_delim c) s in
     if s = '''' then None
     else Some (t, if length t < length s then Some (drop (length t + 1) s) else None))"

definition tolower :: "char \<Rightarrow> char" where
  "tolower c = (if 65 \<le> (of_char c :: nat) \<and> (of_char c :: nat) \<le> 90 then char_of ((of_char c :: nat) + 32) else c)"

definition stricmp_eq :: "string \<Rightarrow> string \<Rightarrow> bool" where
  "stricmp_eq a b \<longleftrightarrow> map tolower a = map tolower b"

text \<open>
  One header line with the text behind it. The value starts behind the blanks that follow the
  colon. The value of \<^verbatim>\<open>Host\<close> is read from \<^verbatim>\<open>q + 1\<close>: one character further, and behind the end of
  the line, up to the end of the request, when the value is empty; behind the end of the last
  line the read is out of bounds, \<^term>\<open>None\<close>.
\<close>

definition host_value :: "string \<Rightarrow> string option \<Rightarrow> string option" where
  "host_value v rest = (case v of c # cs \<Rightarrow> Some cs | [] \<Rightarrow> rest)"

definition header_line :: "string \<Rightarrow> string option \<Rightarrow> ws_req_t \<Rightarrow> ws_req_t option" where
  "header_line p rest r =
     (let name = takeWhile (\<lambda>c. c \<noteq> CHR '':'') p in
      if length name = length p then Some r
      else let v = dropWhile (\<lambda>c. c = CHR '' '') (drop (length name + 1) p) in
        do {
          r \<leftarrow> Some (if stricmp_eq name ''Connection'' then r\<lparr> connection := v \<rparr> else r);
          r \<leftarrow> Some (if stricmp_eq name ''Upgrade'' then r\<lparr> upgrade := v \<rparr> else r);
          r \<leftarrow> (if stricmp_eq name ''Host'' then do { h \<leftarrow> host_value v rest; Some (r\<lparr> host := h \<rparr>) } else Some r);
          r \<leftarrow> Some (if stricmp_eq name ''Origin'' then r\<lparr> origin := v \<rparr> else r);
          r \<leftarrow> Some (if stricmp_eq name ''Cookie'' then r\<lparr> cookie := v \<rparr> else r);
          r \<leftarrow> Some (if stricmp_eq name ''Sec-WebSocket-Key'' then r\<lparr> sec_websocket_key := v \<rparr> else r);
          Some (if stricmp_eq name ''Sec-WebSocket-Version'' then r\<lparr> sec_websocket_version := v \<rparr> else r) })"

lemma strtok_length: "strtok s = Some (t, Some s') \<Longrightarrow> length s' < length s"
proof -
  have "length (dropWhile is_delim s) \<le> length s" by (rule length_dropWhile_le)
  then show "strtok s = Some (t, Some s') \<Longrightarrow> length s' < length s"
    by (auto simp: strtok_def Let_def split: if_splits)
qed

text \<open>\<^verbatim>\<open>while (p = strtok(NULL, delim))\<close>\<close>

function header_lines :: "string \<Rightarrow> ws_req_t \<Rightarrow> ws_req_t option" where
  "header_lines s r = (case strtok s of
     None \<Rightarrow> Some r
   | Some (p, rest) \<Rightarrow> (case header_line p rest r of
       None \<Rightarrow> None
     | Some r \<Rightarrow> (case rest of None \<Rightarrow> Some r | Some s' \<Rightarrow> header_lines s' r)))"
  by pat_completeness auto
termination by (relation "measure (length \<circ> fst)") (auto dest: strtok_length)

declare header_lines.simps [simp del]

text \<open>The text ends at its first NUL, as \<^verbatim>\<open>strlen\<close> finds it.\<close>

definition parse_websocket_request :: "string \<Rightarrow> ws_req_t \<Rightarrow> ws_req_t option" where
  "parse_websocket_request s_req r =
     (let s = takeWhile (\<lambda>c. c \<noteq> NUL) s_req in
      case strtok s of
        None \<Rightarrow> Some r
      | Some (p, rest) \<Rightarrow> (let r = r\<lparr> req := p \<rparr> in
          case rest of None \<Rightarrow> Some r | Some s' \<Rightarrow> header_lines s' r))"

text \<open>\<^verbatim>\<open>print_websocket_request\<close>: what it prints.\<close>

definition header_out :: "string \<Rightarrow> string \<Rightarrow> string" where
  "header_out name v = (if v = '''' then '''' else name @ '': '' @ v @ CRLF)"

definition print_websocket_request :: "ws_req_t \<Rightarrow> string" where
  "print_websocket_request r =
     (if req r = '''' then '''' else req r @ CRLF) @
     header_out ''Connection'' (connection r) @
     header_out ''Upgrade'' (upgrade r) @
     header_out ''Host'' (host r) @
     header_out ''Origin'' (origin r) @
     header_out ''Cookie'' (cookie r) @
     header_out ''Sec-WebSocket-Key'' (sec_websocket_key r) @
     header_out ''Sec-WebSocket-Version'' (sec_websocket_version r) @
     CRLF"

section \<open>Responses\<close>

definition generate_key :: "(string \<Rightarrow> u8 list) \<Rightarrow> u8 list \<Rightarrow> string \<Rightarrow> string option" where
  "generate_key sha1 junk key = base64_encode junk (sha1 (key @ ''258EAFA5-E914-47DA-95CA-C5AB0DC85B11'')) 20"

definition generate_websocket_response :: "(string \<Rightarrow> u8 list) \<Rightarrow> u8 list \<Rightarrow> ws_req_t \<Rightarrow> string option" where
  "generate_websocket_response sha1 junk r = do {
     k \<leftarrow> generate_key sha1 junk (sec_websocket_key r);
     Some (''HTTP/1.1 101 WebSocket Protocol HandShake'' @ CRLF @
       ''Connection: Upgrade'' @ CRLF @
       ''Upgrade: WebSocket'' @ CRLF @
       ''Server: WebChat Demo Server'' @ CRLF @
       ''Sec-WebSocket-Accept: '' @ k @ CRLF @
       CRLF) }"

section \<open>Frame headers and masks\<close>

definition parse_frame_header :: "u8 list \<Rightarrow> frame_t \<Rightarrow> frame_t option" where
  "parse_frame_header buf f = (case buf of
     c1 # c2 # _ \<Rightarrow> Some (f\<lparr> fin := drop_bit 7 c1 AND 0xff, opcode := c1 AND 0x0f,
       mask := drop_bit 7 c2 AND 0xff, payload_len := ucast (c2 AND 0x7f) \<rparr>)
   | _ \<Rightarrow> None)"

text \<open>\<^verbatim>\<open>for (i = 0; i < len; ++i) data[i] = data[i] ^ key[i % 4]\<close>\<close>

fun unmask_loop :: "u8 list \<Rightarrow> nat \<Rightarrow> nat \<Rightarrow> u8 list \<Rightarrow> u8 list option" where
  "unmask_loop key i 0 data = Some data"
| "unmask_loop key i (Suc n) data =
     (if i < length data \<and> i mod 4 < length key
      then unmask_loop key (i + 1) n (data[i := data ! i XOR key ! (i mod 4)]) else None)"

text \<open>
  The index is a signed integer of 32 bits: it would overflow on a payload of two gigabytes.
  The result is the return code and the frame.
\<close>

definition unmask_frame :: "frame_t \<Rightarrow> (int \<times> frame_t) option" where
  "unmask_frame f = (case payload_data f of
     None \<Rightarrow> Some (-1, f)
   | Some d \<Rightarrow> if payload_len f = 0 then Some (-1, f)
       else if unat (payload_len f) \<ge> 2 ^ 31 then None
       else do {
         d \<leftarrow> unmask_loop (masking_key f) 0 (unat (payload_len f)) d;
         Some (0, f\<lparr> payload_data := Some d \<rparr>) })"

definition unmask_payload_data :: "u8 list option \<Rightarrow> u8 list option \<Rightarrow> u32 \<Rightarrow> (int \<times> u8 list option) option" where
  "unmask_payload_data key dat len = (case (key, dat) of
     (Some key, Some d) \<Rightarrow> if len = 0 then Some (-1, dat)
       else do { d \<leftarrow> unmask_loop key 0 (unat len) d; Some (0, Some d) }
   | _ \<Rightarrow> Some (-1, dat))"

section \<open>Requests read back\<close>

text \<open>Field values without line ends and NUL that do not start with a blank.\<close>

definition plain :: "string \<Rightarrow> bool" where
  "plain v \<longleftrightarrow> (\<forall>c \<in> set v. c \<noteq> CR \<and> c \<noteq> LF \<and> c \<noteq> NUL) \<and> (v = '''' \<or> hd v \<noteq> CHR '' '')"

definition plain_request :: "ws_req_t \<Rightarrow> bool" where
  "plain_request r \<longleftrightarrow> req r \<noteq> '''' \<and> plain (req r) \<and> plain (connection r) \<and> plain (upgrade r) \<and> plain (host r) \<and>
     plain (origin r) \<and> plain (cookie r) \<and> plain (sec_websocket_key r) \<and> plain (sec_websocket_version r)"

lemma plain_delims: "plain v \<Longrightarrow> \<forall>c \<in> set v. \<not> is_delim c"
  by (auto simp: plain_def is_delim_def)

lemma strtok_line:
  assumes "t \<noteq> ''''" "\<forall>c \<in> set t. \<not> is_delim c"
  shows "strtok (t @ CRLF @ s) = Some (t, Some (LF # s))"
proof -
  obtain c cs where t: "t = c # cs" using assms(1) by (cases t) auto
  have "dropWhile is_delim (t @ CRLF @ s) = t @ CRLF @ s" using assms(2) by (simp add: t)
  moreover have "takeWhile (\<lambda>c. \<not> is_delim c) (t @ CRLF @ s) = t"
    using assms(2) by (simp add: takeWhile_append is_delim_def)
  ultimately show ?thesis using assms(1) by (simp add: strtok_def)
qed

lemma header_lines_LF: "header_lines (LF # s) r = header_lines s r"
  by (simp add: header_lines.simps [of "LF # s"] header_lines.simps [of s] strtok_def is_delim_def)

lemma header_lines_CR: "header_lines (CR # s) r = header_lines s r"
  by (simp add: header_lines.simps [of "CR # s"] header_lines.simps [of s] strtok_def is_delim_def)

lemma header_lines_Nil: "header_lines [] r = Some r"
  by (simp add: header_lines.simps strtok_def)

lemma header_lines_out:
  assumes "plain v" "name \<noteq> ''''" "\<forall>c \<in> set name. \<not> is_delim c"
  shows "header_lines (header_out name v @ s) r = (if v = '''' then header_lines s r
    else do { r \<leftarrow> header_line (name @ '': '' @ v) (Some (LF # s)) r; header_lines s r })"
proof (cases "v = ''''")
  case True
  then show ?thesis by (simp add: header_out_def)
next
  case False
  have "\<forall>c \<in> set (name @ '': '' @ v). \<not> is_delim c"
    using assms plain_delims [OF assms(1)] by (auto simp: is_delim_def)
  with strtok_line [of "name @ '': '' @ v" s] show ?thesis
    using False assms(2)
    by (simp add: header_out_def header_lines.simps [of "name @ CHR '':'' # CHR '' '' # v @ CR # LF # s"]
        header_lines_LF split: option.splits Option.bind_split)
qed

lemma header_line_value:
  assumes "plain v" "v \<noteq> ''''" "\<forall>c \<in> set name. c \<noteq> CHR '':''"
  shows "takeWhile (\<lambda>c. c \<noteq> CHR '':'') (name @ '': '' @ v) = name"
    "dropWhile (\<lambda>c. c = CHR '' '') (drop (length name + 1) (name @ '': '' @ v)) = v"
proof -
  show "takeWhile (\<lambda>c. c \<noteq> CHR '':'') (name @ '': '' @ v) = name"
    using assms(3) by (simp add: takeWhile_append)
  obtain c cs where "v = c # cs" "c \<noteq> CHR '' ''" using assms by (cases v) (auto simp: plain_def)
  then show "dropWhile (\<lambda>c. c = CHR '' '') (drop (length name + 1) (name @ '': '' @ v)) = v" by simp
qed

lemma header_line_fields:
  assumes "plain v" "v \<noteq> ''''"
  shows "header_line (''Connection'' @ '': '' @ v) rest r = Some (r\<lparr> connection := v \<rparr>)"
    "header_line (''Upgrade'' @ '': '' @ v) rest r = Some (r\<lparr> upgrade := v \<rparr>)"
    "header_line (''Host'' @ '': '' @ v) rest r = Some (r\<lparr> host := tl v \<rparr>)"
    "header_line (''Origin'' @ '': '' @ v) rest r = Some (r\<lparr> origin := v \<rparr>)"
    "header_line (''Cookie'' @ '': '' @ v) rest r = Some (r\<lparr> cookie := v \<rparr>)"
    "header_line (''Sec-WebSocket-Key'' @ '': '' @ v) rest r = Some (r\<lparr> sec_websocket_key := v \<rparr>)"
    "header_line (''Sec-WebSocket-Version'' @ '': '' @ v) rest r = Some (r\<lparr> sec_websocket_version := v \<rparr>)"
proof -
  have h: "host_value v rest = Some (tl v)" using assms(2) by (cases v) (simp_all add: host_value_def)
  note line = header_line_def header_line_value [OF assms] h stricmp_eq_def tolower_def Let_def
  show "header_line (''Connection'' @ '': '' @ v) rest r = Some (r\<lparr> connection := v \<rparr>)"
    using header_line_value [OF assms, of "''Connection''"] by (simp add: line)
  show "header_line (''Upgrade'' @ '': '' @ v) rest r = Some (r\<lparr> upgrade := v \<rparr>)"
    using header_line_value [OF assms, of "''Upgrade''"] by (simp add: line)
  show "header_line (''Host'' @ '': '' @ v) rest r = Some (r\<lparr> host := tl v \<rparr>)"
    using header_line_value [OF assms, of "''Host''"] by (simp add: line)
  show "header_line (''Origin'' @ '': '' @ v) rest r = Some (r\<lparr> origin := v \<rparr>)"
    using header_line_value [OF assms, of "''Origin''"] by (simp add: line)
  show "header_line (''Cookie'' @ '': '' @ v) rest r = Some (r\<lparr> cookie := v \<rparr>)"
    using header_line_value [OF assms, of "''Cookie''"] by (simp add: line)
  show "header_line (''Sec-WebSocket-Key'' @ '': '' @ v) rest r = Some (r\<lparr> sec_websocket_key := v \<rparr>)"
    using header_line_value [OF assms, of "''Sec-WebSocket-Key''"] by (simp add: line)
  show "header_line (''Sec-WebSocket-Version'' @ '': '' @ v) rest r = Some (r\<lparr> sec_websocket_version := v \<rparr>)"
    using header_line_value [OF assms, of "''Sec-WebSocket-Version''"] by (simp add: line)
qed

lemma header_lines_field:
  assumes "plain v" "name \<noteq> ''''" "\<forall>c \<in> set name. \<not> is_delim c"
    and "v \<noteq> '''' \<Longrightarrow> header_line (name @ '': '' @ v) (Some (LF # s)) r = Some (f v r)"
  shows "header_lines (header_out name v @ s) r = header_lines s (if v = '''' then r else f v r)"
  using header_lines_out [OF assms(1-3)] assms(4) by simp

lemma fields_out:
  assumes "plain v"
  shows "header_lines (header_out ''Connection'' v @ s) r = header_lines s (if v = '''' then r else r\<lparr> connection := v \<rparr>)"
    "header_lines (header_out ''Upgrade'' v @ s) r = header_lines s (if v = '''' then r else r\<lparr> upgrade := v \<rparr>)"
    "header_lines (header_out ''Host'' v @ s) r = header_lines s (if v = '''' then r else r\<lparr> host := tl v \<rparr>)"
    "header_lines (header_out ''Origin'' v @ s) r = header_lines s (if v = '''' then r else r\<lparr> origin := v \<rparr>)"
    "header_lines (header_out ''Cookie'' v @ s) r = header_lines s (if v = '''' then r else r\<lparr> cookie := v \<rparr>)"
    "header_lines (header_out ''Sec-WebSocket-Key'' v @ s) r = header_lines s (if v = '''' then r else r\<lparr> sec_websocket_key := v \<rparr>)"
    "header_lines (header_out ''Sec-WebSocket-Version'' v @ s) r =
      header_lines s (if v = '''' then r else r\<lparr> sec_websocket_version := v \<rparr>)"
  by (rule header_lines_field, rule assms, simp, simp add: is_delim_def, rule header_line_fields [OF assms], assumption)+

lemma no_nul: "plain v \<Longrightarrow> NUL \<notin> set v"
  by (auto simp: plain_def)

lemma no_nul_out: "plain v \<Longrightarrow> NUL \<notin> set name \<Longrightarrow> NUL \<notin> set (header_out name v)"
  by (auto simp: header_out_def no_nul)

lemma parse_print:
  assumes "plain_request r"
  shows "parse_websocket_request (print_websocket_request r) ws_req_new = Some (r\<lparr> host := tl (host r) \<rparr>)"
proof -
  note p = assms [unfolded plain_request_def]
  have "NUL \<notin> set (print_websocket_request r)"
    using p by (simp add: print_websocket_request_def no_nul_out no_nul)
  then have nul: "\<forall>c \<in> set (print_websocket_request r). c \<noteq> NUL" by blast
  define s where "s = header_out ''Connection'' (connection r) @ header_out ''Upgrade'' (upgrade r) @
     header_out ''Host'' (host r) @ header_out ''Origin'' (origin r) @ header_out ''Cookie'' (cookie r) @
     header_out ''Sec-WebSocket-Key'' (sec_websocket_key r) @
     header_out ''Sec-WebSocket-Version'' (sec_websocket_version r) @ CRLF"
  have "strtok (req r @ CRLF @ s) = Some (req r, Some (LF # s))"
    using p plain_delims by (intro strtok_line) auto
  moreover have "takeWhile (\<lambda>c. c \<noteq> NUL) (print_websocket_request r) = req r @ CRLF @ s"
    using nul p by (subst takeWhile_eq_all_conv [THEN iffD2]) (auto simp: print_websocket_request_def s_def)
  ultimately have "parse_websocket_request (print_websocket_request r) ws_req_new =
      header_lines s (ws_req_new\<lparr> req := req r \<rparr>)"
    by (simp add: parse_websocket_request_def header_lines_LF)
  also have "\<dots> = Some (r\<lparr> host := tl (host r) \<rparr>)"
    using p unfolding s_def
    by (simp add: fields_out header_lines_CR header_lines_LF header_lines_Nil ws_req_new_def)
  finally show ?thesis .
qed

section \<open>Masks\<close>

lemma unmask_loop_eq:
  assumes "length key = 4" "i + n \<le> length data"
  shows "unmask_loop key i n data =
    Some (take i data @ map (\<lambda>j. data ! j XOR key ! (j mod 4)) [i..<i + n] @ drop (i + n) data)"
  using assms
proof (induction n arbitrary: i data)
  case 0
  then show ?case by simp
next
  case (Suc n)
  let ?d = "data[i := data ! i XOR key ! (i mod 4)]"
  have "unmask_loop key i (Suc n) data = unmask_loop key (i + 1) n ?d" using Suc.prems by simp
  also have "\<dots> = Some (take (i + 1) ?d @ map (\<lambda>j. ?d ! j XOR key ! (j mod 4)) [i + 1..<i + 1 + n] @ drop (i + 1 + n) ?d)"
    using Suc.prems by (intro Suc.IH) auto
  also have "map (\<lambda>j. ?d ! j XOR key ! (j mod 4)) [i + 1..<i + 1 + n] = map (\<lambda>j. data ! j XOR key ! (j mod 4)) [i + 1..<i + 1 + n]"
    by (rule map_cong [OF refl]) auto
  also have "take (i + 1) ?d = take i data @ [data ! i XOR key ! (i mod 4)]"
    using Suc.prems by (simp add: take_Suc_conv_app_nth)
  finally show ?case using Suc.prems by (simp add: upt_rec)
qed

lemma unmask_all: "length key = 4 \<Longrightarrow> unmask_loop key 0 (length data) data = Some (masked key data)"
  by (simp add: unmask_loop_eq masked_def)

lemma length_masked [simp]: "length (masked key bs) = length bs"
  by (simp add: masked_def)

lemma masked_masked: "masked key (masked key bs) = bs"
  by (rule nth_equalityI) (simp_all add: masked_def xor.assoc)

lemma unmask_frame_masked:
  assumes "payload_data f = Some (masked key d)" "unat (payload_len f) = length d" "masking_key f = key"
    and "length key = 4" "d \<noteq> []" "length d < 2 ^ 31"
  shows "unmask_frame f = Some (0, f\<lparr> payload_data := Some d \<rparr>)"
proof -
  have "payload_len f \<noteq> 0" using assms(2,5) by auto
  then show ?thesis
    using assms unmask_all [of key "masked key d"] by (simp add: unmask_frame_def masked_masked)
qed

section \<open>The key\<close>

lemma generate_key_ref:
  assumes "length junk = 3" "\<forall>s. length (sha1 s) = 20"
  shows "generate_key sha1 junk key = Some (b64_ref (sha1 (key @ ''258EAFA5-E914-47DA-95CA-C5AB0DC85B11'')))"
  using b64_encode_ref [OF assms(1), of "[]" _ "[]"] assms(2)
  by (metis append_Nil append_Nil2 base64_encode_def generate_key_def)

section \<open>Properties of the handshake\<close>

text \<open>
  C14. A request that \<^verbatim>\<open>print_websocket_request\<close> prints is read back by
  \<^verbatim>\<open>parse_websocket_request\<close> field by field, whichever headers are present, except for the
  \<^verbatim>\<open>Host\<close> header, which loses its first character. The request line is not empty, and no field has
  an end of line or NUL in it or begins with a blank.
\<close>

theorem request_roundtrip:
  assumes "plain_request r"
  shows "parse_websocket_request (print_websocket_request r) ws_req_new = Some (r\<lparr> host := tl (host r) \<rparr>)"
  by (rule parse_print [OF assms])

definition demo_req :: ws_req_t where
  "demo_req = \<lparr> req = ''GET /chat HTTP/1.1'', connection = ''Upgrade'', upgrade = ''websocket'', host = ''example.com'',
     origin = '''', cookie = '''', sec_websocket_key = ''dGhlIHNhbXBsZSBub25jZQ=='', sec_websocket_version = ''13'' \<rparr>"

lemma demo_req_plain: "plain_request demo_req"
  by (simp add: plain_request_def plain_def demo_req_def)

theorem request_roundtrip_witness:
  "parse_websocket_request (print_websocket_request demo_req) ws_req_new = Some (demo_req\<lparr> host := ''xample.com'' \<rparr>)"
  using request_roundtrip [OF demo_req_plain] by (simp add: demo_req_def)

text \<open>
  The answer to a request: for every digest function with digests of 20 bytes it is the
  fixed header with an accept value of 28 characters that decodes to the digest of the key of
  the request followed by the identifier of the protocol.
\<close>

lemma handshake_response:
  assumes "plain_request r" "length junk = 3" "\<forall>s. length (sha1 s) = 20"
  shows "\<exists>r' k. parse_websocket_request (print_websocket_request r) ws_req_new = Some r' \<and>
    generate_websocket_response sha1 junk r' =
      Some (''HTTP/1.1 101 WebSocket Protocol HandShake'' @ CRLF @ ''Connection: Upgrade'' @ CRLF @
        ''Upgrade: WebSocket'' @ CRLF @ ''Server: WebChat Demo Server'' @ CRLF @
        ''Sec-WebSocket-Accept: '' @ k @ CRLF @ CRLF) \<and>
    length k = 28 \<and> b64_decode k = Some (sha1 (sec_websocket_key r @ ''258EAFA5-E914-47DA-95CA-C5AB0DC85B11''))"
  using parse_print [OF assms(1)] generate_key_ref [OF assms(2,3)] assms(3)
  by (simp add: generate_websocket_response_def length_b64_ref b64_decode_ref)

end
