(* ===== verification/Ws_Connection.thy ===== *)
theory Ws_Connection
  imports Ws_Socket
begin

text \<open>
  A WebSocket connection: \<^verbatim>\<open>web_server/ws/connection.cpp\<close>. The handlers run on events of libevent,
  which is not part of the sources: a handler of the model takes the bytes that
  \<^verbatim>\<open>bufferevent_read\<close> stored and returns the connection with the list of the calls it made, to
  libevent and to the functions the user of the library registered, in their order. The value
  \<^term>\<open>None\<close> is undefined behaviour (a read of indeterminate or foreign memory).
\<close>

section \<open>State\<close>

datatype Step = ZERO | ONE | TWO | THREE | FOUR | UNKNOWN
datatype CBTYPE = HANDSHAKE | FRAME_RECV | WRITE | CLOSE | PONG
datatype read_cb = Request_Read | Frame_Read
datatype write_cb_t = Response_Write | Write_Cb

text \<open>A callback unit is a registered function with its argument, or empty.\<close>

record 'c ws_conn_t =
  bev :: bool
  ws_req_str :: string
  ws_resp_str :: string
  step :: Step
  ntoread :: nat
  frame :: frame_t
  handshake_cb_unit :: "'c option"
  frame_recv_cb_unit :: "'c option"
  write_cb_unit :: "'c option"
  close_cb_unit :: "'c option"
  pong_cb_unit :: "'c option"

datatype 'c action =
    Set_Cb read_cb write_cb_t
  | Watermark_Read nat
  | Watermark_Write
  | Enable_Read
  | Disable_Read
  | Send "u8 list"
  | Call 'c frame_t
  | Exit

definition ws_conn_new :: "'c ws_conn_t" where
  "ws_conn_new = \<lparr> bev = False, ws_req_str = '''', ws_resp_str = '''', step = ZERO, ntoread = 0, frame = frame_new,
     handshake_cb_unit = None, frame_recv_cb_unit = None, write_cb_unit = None, close_cb_unit = None, pong_cb_unit = None \<rparr>"

definition ws_conn_setcb :: "CBTYPE \<Rightarrow> 'c option \<Rightarrow> 'c ws_conn_t \<Rightarrow> 'c ws_conn_t" where
  "ws_conn_setcb cbtype cb c = (case cbtype of
     HANDSHAKE \<Rightarrow> c\<lparr> handshake_cb_unit := cb \<rparr>
   | FRAME_RECV \<Rightarrow> c\<lparr> frame_recv_cb_unit := cb \<rparr>
   | WRITE \<Rightarrow> c\<lparr> write_cb_unit := cb \<rparr>
   | CLOSE \<Rightarrow> c\<lparr> close_cb_unit := cb \<rparr>
   | PONG \<Rightarrow> c\<lparr> pong_cb_unit := cb \<rparr>)"

text \<open>\<^verbatim>\<open>if (unit.cb) cb(cbarg)\<close>: the called function can look at the current frame.\<close>

definition call :: "'c option \<Rightarrow> 'c ws_conn_t \<Rightarrow> 'c action list" where
  "call cb c = (case cb of None \<Rightarrow> [] | Some f \<Rightarrow> [Call f (frame c)])"

section \<open>Handshake\<close>

definition ws_serve_exit :: "'c ws_conn_t \<Rightarrow> 'c action list" where
  "ws_serve_exit c = call (close_cb_unit c) c"

definition accept_websocket_request :: "'c ws_conn_t \<Rightarrow> 'c action list" where
  "accept_websocket_request c =
     (if bev c then [Set_Cb Request_Read Response_Write, Watermark_Read 1, Watermark_Write, Enable_Read]
      else ws_serve_exit c)"

definition ws_serve_start :: "'c ws_conn_t \<Rightarrow> 'c action list" where
  "ws_serve_start c = (if bev c then accept_websocket_request c else ws_serve_exit c)"

definition string_bytes :: "string \<Rightarrow> u8 list" where
  "string_bytes = map (\<lambda>ch. word_of_nat (of_char ch))"

definition respond_websocket_request ::
  "(string \<Rightarrow> u8 list) \<Rightarrow> u8 list \<Rightarrow> 'c ws_conn_t \<Rightarrow> ('c ws_conn_t \<times> 'c action list) option" where
  "respond_websocket_request sha1 junk c =
     (if bev c then do {
        r \<leftarrow> parse_websocket_request (ws_req_str c) ws_req_new;
        resp \<leftarrow> generate_websocket_response sha1 junk r;
        let c = c\<lparr> ws_resp_str := resp \<rparr>;
        Some (c, if resp \<noteq> '''' then [Send (string_bytes resp)] else ws_serve_exit c) }
      else Some (c, ws_serve_exit c))"

definition ends_request :: "string \<Rightarrow> bool" where
  "ends_request s \<longleftrightarrow> 4 \<le> length s \<and> drop (length s - 4) s = CRLF @ CRLF"

definition request_read_cb ::
  "(string \<Rightarrow> u8 list) \<Rightarrow> u8 list \<Rightarrow> u8 list \<Rightarrow> 'c ws_conn_t \<Rightarrow> ('c ws_conn_t \<times> 'c action list) option" where
  "request_read_cb sha1 junk bs c =
     (if bev c then (case bs of
        [b] \<Rightarrow>
          let c = c\<lparr> ws_req_str := ws_req_str c @ [char_of (unat b)] \<rparr> in
          if ends_request (ws_req_str c) then do {
            (c, a) \<leftarrow> respond_websocket_request sha1 junk c;
            Some (c, Disable_Read # a) }
          else Some (c, [])
      | _ \<Rightarrow> None)
      else Some (c, ws_serve_exit c))"

definition frame_recv_loop :: "'c ws_conn_t \<Rightarrow> 'c ws_conn_t \<times> 'c action list" where
  "frame_recv_loop c =
     (if bev c then (c\<lparr> step := ONE, ntoread := 2 \<rparr>, [Set_Cb Frame_Read Write_Cb, Watermark_Read 2, Watermark_Write, Enable_Read])
      else (c, ws_serve_exit c))"

definition response_write_cb :: "'c ws_conn_t \<Rightarrow> 'c ws_conn_t \<times> 'c action list" where
  "response_write_cb c =
     (if bev c then (case frame_recv_loop c of (c', a) \<Rightarrow> (c', call (handshake_cb_unit c) c @ a))
      else (c, ws_serve_exit c))"

section \<open>Frames\<close>

text \<open>\<^verbatim>\<open>send_a_frame\<close>: the calls and the return value, where \<open>ret\<close> is what \<^verbatim>\<open>bufferevent_write\<close> returns.\<close>

definition send_a_frame :: "int \<Rightarrow> 'c ws_conn_t \<Rightarrow> u8 list option \<Rightarrow> 'c action list \<times> int" where
  "send_a_frame ret c fb = (case fb of
     Some bs \<Rightarrow> if bev c \<and> bs \<noteq> [] then ([Send bs], ret) else ([], -1)
   | None \<Rightarrow> ([], -1))"

text \<open>The next step and how many bytes it wants.\<close>

definition await :: "Step \<Rightarrow> nat \<Rightarrow> 'c ws_conn_t \<Rightarrow> 'c ws_conn_t \<times> 'c action list" where
  "await st n c = (c\<lparr> step := st, ntoread := n \<rparr>, [Watermark_Read n])"

text \<open>A whole frame was received; a connection close is answered and ends the loop.\<close>

definition recv_whole :: "'c ws_conn_t \<Rightarrow> ('c ws_conn_t \<times> 'c action list) option" where
  "recv_whole c =
     (let f = frame c in
      if fin f = 1 \<and> opcode f = 0x8 then do {
        fb \<leftarrow> frame_buffer_new 1 8 0 None;
        Some (c, fst (send_a_frame 0 c fb)) }
      else let acts =
          (if fin f = 1 \<and> opcode f = 0x9 then []
           else if fin f = 1 \<and> opcode f = 0xA then call (pong_cb_unit c) c
           else call (frame_recv_cb_unit c) c) in
        Some (case await ONE 2 c of (c', a) \<Rightarrow> (c', acts @ a)))"

text \<open>The array \<^verbatim>\<open>char tmp[16]\<close> filled with the \<open>ntoread\<close> bytes asked for.\<close>

definition tmp_ok :: "u8 list \<Rightarrow> 'c ws_conn_t \<Rightarrow> bool" where
  "tmp_ok bs c \<longleftrightarrow> ntoread c \<le> 16 \<and> length bs = ntoread c"

definition frame_step_one :: "u8 list \<Rightarrow> 'c ws_conn_t \<Rightarrow> ('c ws_conn_t \<times> 'c action list) option" where
  "frame_step_one bs c =
     (if tmp_ok bs c then do {
        f \<leftarrow> parse_frame_header bs (frame c);
        let c = c\<lparr> frame := f \<rparr>;
        Some (if payload_len f \<le> 125 then await THREE 4 c
          else if payload_len f = 126 then await TWO 2 c
          else if payload_len f = 127 then await TWO 8 c
          else (c, [])) }
      else None)"

definition frame_step_two :: "u8 list \<Rightarrow> 'c ws_conn_t \<Rightarrow> ('c ws_conn_t \<times> 'c action list) option" where
  "frame_step_two bs c =
     (if tmp_ok bs c then
        let f = frame c; n = payload_len f in
        if (n = 126 \<and> length bs < 2) \<or> (n = 127 \<and> length bs < 8) then None
        else
          let len = (if n = 126 then ucast (myntohs (get_native (take 2 bs)))
            else if n = 127 then myntohll (get_native (take 8 bs)) else n) in
          Some (await THREE 4 (c\<lparr> frame := f\<lparr> payload_len := len \<rparr> \<rparr>))
      else None)"

definition frame_step_three :: "u8 list \<Rightarrow> 'c ws_conn_t \<Rightarrow> ('c ws_conn_t \<times> 'c action list) option" where
  "frame_step_three bs c =
     (if tmp_ok bs c \<and> ntoread c \<le> 4 then
        let f = frame c;
            c = c\<lparr> frame := f\<lparr> masking_key := bs @ drop (length bs) (masking_key f) \<rparr> \<rparr> in
        if payload_len f > 0 then Some (await FOUR (unat (payload_len f)) c)
        else recv_whole c
      else None)"

definition frame_step_four :: "u8 list \<Rightarrow> 'c ws_conn_t \<Rightarrow> ('c ws_conn_t \<times> 'c action list) option" where
  "frame_step_four bs c =
     (let f = frame c in
      if payload_len f > 0 then
        if length bs = unat (payload_len f) then do {
          (ret, f) \<leftarrow> unmask_frame (f\<lparr> payload_data := Some bs \<rparr>);
          recv_whole (c\<lparr> frame := f \<rparr>) }
        else None
      else recv_whole c)"

definition frame_read_cb :: "u8 list \<Rightarrow> 'c ws_conn_t \<Rightarrow> ('c ws_conn_t \<times> 'c action list) option" where
  "frame_read_cb bs c =
     (if bev c then (case step c of
        ONE \<Rightarrow> frame_step_one bs c
      | TWO \<Rightarrow> frame_step_two bs c
      | THREE \<Rightarrow> frame_step_three bs c
      | FOUR \<Rightarrow> frame_step_four bs c
      | _ \<Rightarrow> Some (c, [Exit]))
      else Some (c, ws_serve_exit c))"

definition write_cb :: "'c ws_conn_t \<Rightarrow> 'c action list" where
  "write_cb c = call (write_cb_unit c) c"

definition close_cb :: "'c ws_conn_t \<Rightarrow> 'c action list" where
  "close_cb c = ws_serve_exit c"

section \<open>Events\<close>

text \<open>
  The events of libevent. \<open>rd\<close> is \<^verbatim>\<open>bufferevent_read\<close> on the state of the input, whose unread
  bytes are \<open>avail\<close>: it delivers the next bytes, as many as asked for when they are there. With
  both watermarks at \<open>n\<close> the read callback runs when \<open>n\<close> bytes have arrived.
\<close>

definition bev_reads :: "(nat \<Rightarrow> 'i \<Rightarrow> u8 list \<times> 'i) \<Rightarrow> ('i \<Rightarrow> u8 list) \<Rightarrow> bool" where
  "bev_reads rd avail \<longleftrightarrow> (\<forall>n i. n \<le> length (avail i) \<longrightarrow>
     fst (rd n i) = take n (avail i) \<and> avail (snd (rd n i)) = drop n (avail i))"

fun frame_events :: "(nat \<Rightarrow> 'i \<Rightarrow> u8 list \<times> 'i) \<Rightarrow> nat \<Rightarrow> 'c ws_conn_t \<Rightarrow> 'i \<Rightarrow> ('c ws_conn_t \<times> 'i \<times> 'c action list) option" where
  "frame_events rd 0 c i = Some (c, i, [])"
| "frame_events rd (Suc k) c i = do {
     let (bs, i) = rd (ntoread c) i;
     (c, a) \<leftarrow> frame_read_cb bs c;
     (c, i, b) \<leftarrow> frame_events rd k c i;
     Some (c, i, a @ b) }"

fun request_events :: "(string \<Rightarrow> u8 list) \<Rightarrow> u8 list \<Rightarrow> (nat \<Rightarrow> 'i \<Rightarrow> u8 list \<times> 'i) \<Rightarrow> nat \<Rightarrow> 'c ws_conn_t \<Rightarrow> 'i \<Rightarrow>
    ('c ws_conn_t \<times> 'i \<times> 'c action list) option" where
  "request_events sha1 junk rd 0 c i = Some (c, i, [])"
| "request_events sha1 junk rd (Suc k) c i = do {
     let (bs, i) = rd 1 i;
     (c, a) \<leftarrow> request_read_cb sha1 junk bs c;
     (c, i, b) \<leftarrow> request_events sha1 junk rd k c i;
     Some (c, i, a @ b) }"

section \<open>Runs\<close>

text \<open>Some number of read events leads from one state of connection and input to another.\<close>

definition runs :: "(nat \<Rightarrow> 'i \<Rightarrow> u8 list \<times> 'i) \<Rightarrow> ('i \<Rightarrow> u8 list) \<Rightarrow> 'c ws_conn_t \<Rightarrow> u8 list \<Rightarrow> 'c action list \<Rightarrow>
    'c ws_conn_t \<Rightarrow> u8 list \<Rightarrow> bool" where
  "runs rd avail c s acts c' s' \<longleftrightarrow> (\<forall>i. avail i = s \<longrightarrow>
     (\<exists>k i'. frame_events rd k c i = Some (c', i', acts) \<and> avail i' = s'))"

lemma runs_refl: "runs rd avail c s [] c s"
  unfolding runs_def by (intro allI impI exI [of _ 0]) auto

lemma runs_step:
  assumes "bev_reads rd avail" "length bs = ntoread c" "frame_read_cb bs c = Some (c1, a)"
    and "runs rd avail c1 s b c' s'"
  shows "runs rd avail c (bs @ s) (a @ b) c' s'"
  unfolding runs_def
proof (intro allI impI)
  fix i assume i: "avail i = bs @ s"
  obtain bs' i1 where r: "rd (ntoread c) i = (bs', i1)" by (cases "rd (ntoread c) i")
  have "bs' = bs" "avail i1 = s"
    using assms(1,2) i r unfolding bev_reads_def
    by (metis append_eq_conv_conj fst_conv length_append le_add1, metis append_eq_conv_conj snd_conv length_append le_add1)
  moreover obtain k i' where "frame_events rd k c1 i1 = Some (c', i', b)" "avail i' = s'"
    using assms(4) calculation(2) by (auto simp: runs_def)
  ultimately have "frame_events rd (Suc k) c i = Some (c', i', a @ b) \<and> avail i' = s'"
    using r assms(3) by simp
  then show "\<exists>k i'. frame_events rd k c i = Some (c', i', a @ b) \<and> avail i' = s'" by blast
qed

lemma frame_events_add:
  "frame_events rd (j + k) c i = do {
     (c1, i1, a) \<leftarrow> frame_events rd j c i; (c2, i2, b) \<leftarrow> frame_events rd k c1 i1; Some (c2, i2, a @ b) }"
proof (induction j arbitrary: c i)
  case 0
  then show ?case by (cases "frame_events rd k c i") auto
next
  case (Suc j)
  then show ?case by (auto simp: Let_def split: prod.splits Option.bind_split)
qed

lemma runs_trans:
  assumes "runs rd avail c s a c1 s1" "runs rd avail c1 s1 b c2 s2"
  shows "runs rd avail c s (a @ b) c2 s2"
  unfolding runs_def
proof (intro allI impI)
  fix i assume "avail i = s"
  then obtain j i1 where "frame_events rd j c i = Some (c1, i1, a)" "avail i1 = s1"
    using assms(1) by (auto simp: runs_def)
  moreover then obtain k i2 where "frame_events rd k c1 i1 = Some (c2, i2, b)" "avail i2 = s2"
    using assms(2) by (auto simp: runs_def)
  ultimately have "frame_events rd (j + k) c i = Some (c2, i2, a @ b) \<and> avail i2 = s2"
    by (simp add: frame_events_add)
  then show "\<exists>k i'. frame_events rd k c i = Some (c2, i', a @ b) \<and> avail i' = s2" by blast
qed

text \<open>What the user sees.\<close>

definition visible :: "'c action list \<Rightarrow> 'c action list" where
  "visible = filter (\<lambda>a. case a of Watermark_Read n \<Rightarrow> False | _ \<Rightarrow> True)"

lemma visible_simps [simp]: "visible [] = []" "visible (Watermark_Read n # a) = visible a"
  "visible (a @ b) = visible a @ visible b" "visible (Send bs # a) = Send bs # visible a"
  by (simp_all add: visible_def)

lemma visible_call [simp]: "visible (call cb c) = call cb c"
  by (simp add: visible_def call_def split: option.split)

text \<open>Where a connection waits for the next frame.\<close>

definition ready :: "'c ws_conn_t \<Rightarrow> bool" where
  "ready c \<longleftrightarrow> bev c \<and> step c = ONE \<and> ntoread c = 2 \<and> length (masking_key (frame c)) = 4"

text \<open>The frame a client sends and the frame the connection holds afterwards.\<close>

type_synonym message = "u8 \<times> u8 \<times> u8 list \<times> u8 list"

fun message_ok :: "message \<Rightarrow> bool" where
  "message_ok (f, oc, key, d) \<longleftrightarrow> f \<le> 1 \<and> oc \<le> 0xf \<and> length key = 4 \<and> length d < 2 ^ 31"

fun is_close :: "message \<Rightarrow> bool" where
  "is_close (f, oc, key, d) \<longleftrightarrow> f = 1 \<and> oc = 8"

fun wire :: "message \<Rightarrow> u8 list" where
  "wire (f, oc, key, d) = rfc_client_frame (unat f) (unat oc) key d"

fun frame_after :: "message \<Rightarrow> frame_t \<Rightarrow> frame_t" where
  "frame_after (f, oc, key, d) g = g\<lparr> fin := f, opcode := oc, mask := 1, payload_len := word_of_nat (length d),
     masking_key := key, payload_data := (if d = [] then payload_data g else Some d) \<rparr>"

fun conn_after :: "message \<Rightarrow> 'c ws_conn_t \<Rightarrow> 'c ws_conn_t" where
  "conn_after msg c = c\<lparr> frame := frame_after msg (frame c) \<rparr>"

fun calls_of :: "message \<Rightarrow> 'c ws_conn_t \<Rightarrow> 'c action list" where
  "calls_of (f, oc, key, d) c =
     (if f = 1 \<and> oc = 9 then []
      else if f = 1 \<and> oc = 10 then call (pong_cb_unit c) c
      else call (frame_recv_cb_unit c) c)"

lemma calls_of_step [simp]: "calls_of msg (c\<lparr> step := st, ntoread := n \<rparr>) = calls_of msg c"
  by (cases msg) (simp add: call_def split: option.split)

lemma calls_of_cong:
  "frame c = frame c' \<Longrightarrow> pong_cb_unit c = pong_cb_unit c' \<Longrightarrow> frame_recv_cb_unit c = frame_recv_cb_unit c' \<Longrightarrow>
    calls_of msg c = calls_of msg c'"
  by (cases msg) (simp add: call_def split: option.split)

lemma visible_calls_of [simp]: "visible (calls_of msg c) = calls_of msg c"
  by (cases msg) simp

declare calls_of.simps [simp del]

lemma payload_pos: "n < 2 ^ 31 \<Longrightarrow> unat (word_of_nat n :: u64) = n"
  by (simp add: unat_of_nat)

text \<open>
  The connection behind a whole frame, and what the user and the client see of it: a connection close is answered
  with another one and nothing else happens, so that the step and the number of bytes stay what they were.
\<close>

definition after_whole :: "message \<Rightarrow> 'c ws_conn_t \<Rightarrow> 'c ws_conn_t" where
  "after_whole msg c = (let d = snd (snd (snd msg)); c = conn_after msg c in
     if is_close msg then c\<lparr> step := (if d = [] then THREE else FOUR), ntoread := (if d = [] then 4 else length d) \<rparr>
     else c\<lparr> step := ONE, ntoread := 2 \<rparr>)"

definition seen_of :: "message \<Rightarrow> 'c ws_conn_t \<Rightarrow> 'c action list" where
  "seen_of msg c = (if is_close msg then [Send [0x88, 0]] else calls_of msg c)"

lemma seen_of_step [simp]: "seen_of msg (c\<lparr> step := st, ntoread := n \<rparr>) = seen_of msg c"
  by (simp add: seen_of_def)

lemma seen_of_cong:
  "frame c = frame c' \<Longrightarrow> pong_cb_unit c = pong_cb_unit c' \<Longrightarrow> frame_recv_cb_unit c = frame_recv_cb_unit c' \<Longrightarrow>
    seen_of msg c = seen_of msg c'"
  using calls_of_cong [of c c' msg] by (simp add: seen_of_def)

lemma close_frame: "frame_buffer_new 1 8 0 None = Some (Some [0x88, 0])"
  using frame_bytes_null [of 1 8] by (simp add: frame_buffer_new_def rfc_server_frame_def rfc_length_def)

lemma recv_whole_message:
  assumes "bev c" "fin (frame c) = f" "opcode (frame c) = oc"
  shows "recv_whole c = Some (if is_close (f, oc, key, d) then c else c\<lparr> step := ONE, ntoread := 2 \<rparr>,
    seen_of (f, oc, key, d) c @ (if is_close (f, oc, key, d) then [] else [Watermark_Read 2]))"
  using assms by (auto simp: recv_whole_def await_def Let_def calls_of.simps seen_of_def close_frame send_a_frame_def)

lemma visible_seen [simp]: "visible (seen_of msg c) = seen_of msg c"
  by (simp add: seen_of_def)

lemma runs_key:
  assumes "bev_reads rd avail" "message_ok (f, oc, key, d)" "bev c" "step c = THREE" "ntoread c = 4"
    and "length (masking_key (frame c)) = 4"
    and "fin (frame c) = f" "opcode (frame c) = oc" "mask (frame c) = 1" "payload_len (frame c) = word_of_nat (length d)"
  defines "c' \<equiv> after_whole (f, oc, key, d) c"
  shows "\<exists>acts. runs rd avail c (key @ masked key d @ rest) acts c' rest \<and> visible acts = seen_of (f, oc, key, d) c'"
proof -
  let ?msg = "(f, oc, key, d)"
  let ?w = "if is_close ?msg then [] else [Watermark_Read 2]"
  have ok: "f \<le> 1" "oc \<le> 0xf" "length key = 4" "length d < 2 ^ 31" using assms(2) by auto
  let ?c1 = "c\<lparr> frame := (frame c)\<lparr> masking_key := key \<rparr> \<rparr>"
  show ?thesis
  proof (cases "d = []")
    case True
    let ?a = "seen_of ?msg ?c1 @ ?w"
    have eq: "(if is_close ?msg then ?c1 else ?c1\<lparr> step := ONE, ntoread := 2 \<rparr>) = c'"
      using assms(4,5,7-10) True by (cases c; cases "frame c") (auto simp: c'_def after_whole_def)
    have "frame_read_cb key c = Some (c', ?a)"
      using assms(3-10) ok True recv_whole_message [of ?c1 f oc key d] eq
      by (simp add: frame_read_cb_def frame_step_three_def tmp_ok_def Let_def)
    from runs_step [OF assms(1) _ this runs_refl] have "runs rd avail c (key @ rest) (?a @ []) c' rest"
      using assms(5) ok by simp
    moreover have "visible (?a @ []) = seen_of ?msg c'"
      by (simp add: eq [symmetric])
    ultimately show ?thesis using True by (auto simp: masked_def)
  next
    case False
    have n: "unat (payload_len (frame c)) = length d" using assms(10) ok(4) by (simp add: unat_of_nat)
    then have pos: "payload_len (frame c) > 0" using False by (simp add: word_less_nat_alt)
    let ?c2 = "?c1\<lparr> step := FOUR, ntoread := length d \<rparr>"
    let ?f3 = "(frame ?c1)\<lparr> payload_data := Some d \<rparr>"
    let ?c3 = "?c2\<lparr> frame := ?f3 \<rparr>"
    let ?a = "seen_of ?msg ?c3 @ ?w"
    have "frame_read_cb key c = Some (?c2, [Watermark_Read (length d)])"
      using assms(3-10) ok n pos by (simp add: frame_read_cb_def frame_step_three_def tmp_ok_def await_def)
    moreover have "frame_read_cb (masked key d) ?c2 = Some (if is_close ?msg then ?c3 else ?c3\<lparr> step := ONE, ntoread := 2 \<rparr>, ?a)"
    proof -
      have "unmask_frame ((frame ?c2)\<lparr> payload_data := Some (masked key d) \<rparr>) = Some (0, ?f3)"
        using n ok False by (subst unmask_frame_masked [where key = key and d = d]) auto
      then show ?thesis
        using assms(3) pos n recv_whole_message [of ?c3 f oc key d] assms(7,8)
        by (simp add: frame_read_cb_def frame_step_four_def Let_def)
    qed
    moreover have eq: "(if is_close ?msg then ?c3 else ?c3\<lparr> step := ONE, ntoread := 2 \<rparr>) = c'"
      using assms(7-10) False by (cases c; cases "frame c") (auto simp: c'_def after_whole_def)
    ultimately have "runs rd avail c (key @ masked key d @ rest) ([Watermark_Read (length d)] @ ?a @ []) c' rest"
      using ok assms(5) by (intro runs_step [OF assms(1)]) (auto simp: runs_refl)
    moreover have "visible ([Watermark_Read (length d)] @ ?a @ []) = seen_of ?msg c'"
      by (simp add: eq [symmetric]) (intro impI, rule seen_of_cong; simp)
    ultimately show ?thesis by blast
  qed
qed

lemma header_fields_client:
  assumes "f \<le> (1 :: u8)" "oc \<le> 0xf" "n < 128"
  shows "parse_frame_header [word_of_nat (unat f * 128 + unat oc), word_of_nat (1 * 128 + n)] g =
    Some (g\<lparr> fin := f, opcode := oc, mask := 1, payload_len := word_of_nat n \<rparr>)"
proof -
  have byte: "x AND 0xff = x" for x :: u8 by (rule u8_eqI) (simp_all add: bit_simps)
  show ?thesis
    unfolding parse_frame_header_def list.case byte header_fields [OF assms(1,2)] length_fields [OF order_refl assms(3)]
      length_field_value [OF assms(3)] by simp
qed

lemma frame_step_one_client:
  assumes "ready c" "f \<le> 1" "oc \<le> 0xf" "n < 128"
  shows "frame_read_cb [word_of_nat (unat f * 128 + unat oc), word_of_nat (1 * 128 + n)] c =
    Some (if n \<le> 125 then await THREE 4 (c\<lparr> frame := (frame c)\<lparr> fin := f, opcode := oc, mask := 1, payload_len := word_of_nat n \<rparr> \<rparr>)
      else await TWO (if n = 126 then 2 else 8) (c\<lparr> frame := (frame c)\<lparr> fin := f, opcode := oc, mask := 1, payload_len := word_of_nat n \<rparr> \<rparr>))"
proof -
  have "(word_of_nat n :: u64) \<le> 125 \<longleftrightarrow> n \<le> 125" "(word_of_nat n :: u64) = 126 \<longleftrightarrow> n = 126"
    "(word_of_nat n :: u64) = 127 \<longleftrightarrow> n = 127"
    using assms(4) by (simp_all add: word_le_nat_alt word_unat_eq_iff unat_of_nat)
  then show ?thesis
    using assms(1,4) header_fields_client [OF assms(2-4), of "frame c"]
    by (auto simp: frame_read_cb_def frame_step_one_def ready_def tmp_ok_def)
qed

lemma frame_step_two_client:
  assumes "bev c" "step c = TWO" "n = 126 \<and> k = 2 \<or> n = 127 \<and> k = 8" "ntoread c = k"
    and "payload_len (frame c) = n" "len < (if k = 2 then 65536 else 2 ^ 64)"
  shows "frame_read_cb (be_bytes k len) c = Some (await THREE 4 (c\<lparr> frame := (frame c)\<lparr> payload_len := word_of_nat len \<rparr> \<rparr>))"
  using assms(3)
proof
  assume "n = 126 \<and> k = 2"
  then show ?thesis using native_be(1) [of len] assms
    by (simp add: frame_read_cb_def frame_step_two_def tmp_ok_def Let_def del: be_bytes_numeral)
next
  assume "n = 127 \<and> k = 8"
  then show ?thesis using native_be(2) [of len] assms
    by (simp add: frame_read_cb_def frame_step_two_def tmp_ok_def Let_def del: be_bytes_numeral)
qed

lemma runs_frame:
  assumes "bev_reads rd avail" "message_ok msg" "ready c"
  shows "\<exists>acts. runs rd avail c (wire msg @ rest) acts (after_whole msg c) rest \<and>
    visible acts = seen_of msg (after_whole msg c)"
proof -
  obtain f oc key d where msg: "msg = (f, oc, key, d)" by (cases msg)
  have ok: "f \<le> 1" "oc \<le> 0xf" "length key = 4" "length d < 2 ^ 31" using assms(2) by (auto simp: msg)
  have rdy: "bev c" "step c = ONE" "ntoread c = 2" "length (masking_key (frame c)) = 4"
    using assms(3) by (auto simp: ready_def)
  let ?h = "word_of_nat (unat f * 128 + unat oc) :: u8"
  let ?g = "\<lambda>n. (frame c)\<lparr> fin := f, opcode := oc, mask := 1, payload_len := word_of_nat n \<rparr>"
  let ?n = "length d"
  let ?c3 = "c\<lparr> frame := ?g ?n, step := THREE, ntoread := 4 \<rparr>"
  have after: "after_whole msg ?c3 = after_whole msg c"
    by (simp add: msg after_whole_def Let_def)
  obtain acts where tail: "runs rd avail ?c3 (key @ masked key d @ rest) acts (after_whole msg c) rest"
    "visible acts = seen_of msg (after_whole msg c)"
  proof -
    have "\<exists>acts. runs rd avail ?c3 (key @ masked key d @ rest) acts (after_whole msg ?c3) rest \<and>
        visible acts = seen_of msg (after_whole msg ?c3)"
      unfolding msg by (rule runs_key [OF assms(1) assms(2)[unfolded msg]]) (use rdy in \<open>simp_all add: msg\<close>)
    then show ?thesis using that unfolding after by blast
  qed
  show ?thesis
  proof (cases "?n \<le> 125")
    case True
    then have "?n < 128" by simp
    from frame_step_one_client [OF assms(3) ok(1,2) this] have
      "frame_read_cb [?h, word_of_nat (1 * 128 + ?n)] c = Some (?c3, [Watermark_Read 4])"
      using True by (simp add: await_def)
    from runs_step [OF assms(1) _ this tail(1)] have
      "runs rd avail c ([?h, word_of_nat (1 * 128 + ?n)] @ key @ masked key d @ rest) ([Watermark_Read 4] @ acts) (after_whole msg c) rest"
      using rdy by simp
    moreover have "wire msg @ rest = [?h, word_of_nat (1 * 128 + ?n)] @ key @ masked key d @ rest"
      using True by (simp add: msg rfc_client_frame_def rfc_length_def)
    ultimately show ?thesis using tail(2) by (intro exI [of _ "[Watermark_Read 4] @ acts"]) simp
  next
    case False
    define n k where "n = (if ?n \<le> 65535 then 126 else 127 :: nat)" and "k = (if ?n \<le> 65535 then 2 else 8 :: nat)"
    have nk: "n = 126 \<and> k = 2 \<or> n = 127 \<and> k = 8" "n < 128" by (auto simp: n_def k_def)
    let ?c2 = "c\<lparr> frame := ?g n, step := TWO, ntoread := k \<rparr>"
    have one: "frame_read_cb [?h, word_of_nat (1 * 128 + n)] c = Some (?c2, [Watermark_Read k])"
      using frame_step_one_client [OF assms(3) ok(1,2) nk(2)] nk by (auto simp: await_def)
    have "?n < (if k = 2 then 65536 else 2 ^ 64)" using ok(4) by (simp add: k_def)
    moreover have "(word_of_nat n :: u64) = 126 \<and> k = 2 \<or> (word_of_nat n :: u64) = 127 \<and> k = 8" using nk by auto
    ultimately have two: "frame_read_cb (be_bytes k ?n) ?c2 = Some (?c3, [Watermark_Read 4])"
      using frame_step_two_client [of ?c2 "word_of_nat n" k ?n] rdy by (simp add: await_def)
    have "runs rd avail c ([?h, word_of_nat (1 * 128 + n)] @ be_bytes k ?n @ key @ masked key d @ rest)
        ([Watermark_Read k] @ [Watermark_Read 4] @ acts) (after_whole msg c) rest"
      using rdy by (intro runs_step [OF assms(1) _ one] runs_step [OF assms(1) _ two] tail) simp_all
    moreover have "wire msg @ rest = [?h, word_of_nat (1 * 128 + n)] @ be_bytes k ?n @ key @ masked key d @ rest"
      using False by (simp add: msg rfc_client_frame_def rfc_length_def n_def k_def del: be_bytes_numeral)
    ultimately show ?thesis using tail(2)
      by (intro exI [of _ "[Watermark_Read k] @ [Watermark_Read 4] @ acts"]) simp
  qed
qed

lemma after_whole_open: "ready c \<Longrightarrow> \<not> is_close msg \<Longrightarrow> after_whole msg c = conn_after msg c"
  by (cases msg; cases c) (auto simp: after_whole_def ready_def Let_def)

lemma runs_message:
  assumes "bev_reads rd avail" "message_ok msg" "ready c" "\<not> is_close msg"
  shows "\<exists>acts. runs rd avail c (wire msg @ rest) acts (conn_after msg c) rest \<and>
    visible acts = calls_of msg (conn_after msg c)"
  using runs_frame [OF assms(1-3), of rest] assms(4) after_whole_open [OF assms(3,4)] by (simp add: seen_of_def)

fun conn_after_all :: "message list \<Rightarrow> 'c ws_conn_t \<Rightarrow> 'c ws_conn_t" where
  "conn_after_all [] c = c"
| "conn_after_all (msg # msgs) c = conn_after_all msgs (conn_after msg c)"

fun calls_of_all :: "message list \<Rightarrow> 'c ws_conn_t \<Rightarrow> 'c action list" where
  "calls_of_all [] c = []"
| "calls_of_all (msg # msgs) c = calls_of msg (conn_after msg c) @ calls_of_all msgs (conn_after msg c)"

lemma ready_after: "ready c \<Longrightarrow> message_ok msg \<Longrightarrow> ready (conn_after msg c)"
  by (cases msg) (simp add: ready_def)

lemma runs_messages:
  assumes "bev_reads rd avail" "\<forall>msg \<in> set msgs. message_ok msg \<and> \<not> is_close msg" "ready c"
  shows "\<exists>acts. runs rd avail c (concat (map wire msgs) @ rest) acts (conn_after_all msgs c) rest \<and>
    visible acts = calls_of_all msgs c"
  using assms(2,3)
proof (induction msgs arbitrary: c)
  case Nil
  then show ?case using runs_refl by fastforce
next
  case (Cons msg msgs)
  obtain a where a: "runs rd avail c (wire msg @ concat (map wire msgs) @ rest) a (conn_after msg c) (concat (map wire msgs) @ rest)"
    "visible a = calls_of msg (conn_after msg c)"
    using runs_message [OF assms(1), of msg c] Cons.prems by auto
  obtain b where b: "runs rd avail (conn_after msg c) (concat (map wire msgs) @ rest) b (conn_after_all msgs (conn_after msg c)) rest"
    "visible b = calls_of_all msgs (conn_after msg c)"
    using Cons.IH [OF _ ready_after, of c msg] Cons.prems by (auto simp del: conn_after.simps)
  have "runs rd avail c (concat (map wire (msg # msgs)) @ rest) (a @ b) (conn_after_all (msg # msgs) c) rest"
    using runs_trans [OF a(1) b(1)] by (simp only: list.map concat.simps append.assoc conn_after_all.simps)
  then show ?case using a(2) b(2) by (intro exI [of _ "a @ b"]) simp
qed

section \<open>Safety of the frame callback\<close>

text \<open>What a step waits for, and what the frame has when it waits.\<close>

definition conn_inv :: "'c ws_conn_t \<Rightarrow> bool" where
  "conn_inv c \<longleftrightarrow> bev c \<and> length (masking_key (frame c)) = 4 \<and> (case step c of
     ONE \<Rightarrow> ntoread c = 2
   | TWO \<Rightarrow> payload_len (frame c) = 126 \<and> ntoread c = 2 \<or> payload_len (frame c) = 127 \<and> ntoread c = 8
   | THREE \<Rightarrow> ntoread c = 4
   | FOUR \<Rightarrow> payload_len (frame c) > 0 \<and> ntoread c = unat (payload_len (frame c))
   | _ \<Rightarrow> False)"

lemma recv_whole_inv:
  assumes "conn_inv c"
  shows "\<exists>c' a. recv_whole c = Some (c', a) \<and> conn_inv c'"
  using assms by (auto simp: recv_whole_def close_frame await_def conn_inv_def Let_def)

lemma small_field: "(ucast (b AND 0x7f :: u8) :: u64) \<le> 125 \<or> (ucast (b AND 0x7f) :: u64) = 126 \<or> (ucast (b AND 0x7f) :: u64) = 127"
proof -
  have "unat (ucast (b AND 0x7f) :: u64) = unat b mod 128"
    using unat_and_low(4) [of b] by (simp add: unsigned_ucast_eq take_bit_eq_mod)
  moreover have "unat b mod 128 < 128" by simp
  ultimately show ?thesis by (simp only: word_le_nat_alt word_unat_eq_iff) (simp, linarith)
qed

lemma step_one_inv:
  assumes "conn_inv c" "step c = ONE" "length bs = 2"
  shows "\<exists>c' a. frame_read_cb bs c = Some (c', a) \<and> conn_inv c'"
proof -
  obtain b1 b2 where bs: "bs = [b1, b2]" using assms(3) by (auto simp: length_Suc_conv numeral_2_eq_2)
  show ?thesis
    using assms(1,2) small_field [of b2]
    by (auto simp: bs frame_read_cb_def frame_step_one_def parse_frame_header_def await_def conn_inv_def tmp_ok_def Let_def)
qed

lemma frame_read_inv:
  assumes "conn_inv c" "length bs = ntoread c" "step c = FOUR \<Longrightarrow> ntoread c < 2 ^ 31"
  shows "\<exists>c' a. frame_read_cb bs c = Some (c', a) \<and> conn_inv c'"
proof (cases "step c")
  case ONE
  with assms have "length bs = 2" by (simp add: conn_inv_def)
  with ONE show ?thesis using step_one_inv assms(1) by blast
next
  case TWO
  then show ?thesis using assms(1,2)
    by (auto simp: frame_read_cb_def frame_step_two_def await_def conn_inv_def tmp_ok_def Let_def)
next
  case THREE
  let ?c = "c\<lparr> frame := (frame c)\<lparr> masking_key := bs \<rparr> \<rparr>"
  show ?thesis
  proof (cases "payload_len (frame c) = 0")
    case True
    then show ?thesis using THREE assms(1,2) recv_whole_inv [of ?c]
      by (auto simp: frame_read_cb_def frame_step_three_def conn_inv_def tmp_ok_def Let_def)
  next
    case False
    then show ?thesis using THREE assms(1,2)
      by (auto simp: frame_read_cb_def frame_step_three_def await_def conn_inv_def tmp_ok_def Let_def word_neq_0_conv)
  qed
next
  case FOUR
  let ?f = "(frame c)\<lparr> payload_data := Some (masked (masking_key (frame c)) bs) \<rparr>"
  have "unmask_frame ((frame c)\<lparr> payload_data := Some bs \<rparr>) = Some (0, ?f)"
    using FOUR assms unmask_all [of "masking_key (frame c)" bs] by (auto simp: unmask_frame_def conn_inv_def)
  then show ?thesis using FOUR assms(1,2) recv_whole_inv [of "c\<lparr> frame := ?f \<rparr>"]
    by (auto simp: frame_read_cb_def frame_step_four_def conn_inv_def Let_def)
qed (use assms in \<open>auto simp: conn_inv_def\<close>)

section \<open>The handshake\<close>

definition complete_request :: "string \<Rightarrow> bool" where
  "complete_request s \<longleftrightarrow> ends_request s \<and> (\<forall>k < length s. \<not> ends_request (take k s))"

lemma char_byte [simp]: "char_of (unat (word_of_nat (of_char ch) :: u8)) = ch"
  by (simp add: unat_of_nat)

lemma rd_one:
  assumes "bev_reads rd avail" "avail i = b # s"
  shows "\<exists>i'. rd 1 i = ([b], i') \<and> avail i' = s"
proof -
  have "1 \<le> length (avail i)" using assms(2) by simp
  with assms(1) have "fst (rd 1 i) = take 1 (avail i) \<and> avail (snd (rd 1 i)) = drop 1 (avail i)"
    unfolding bev_reads_def by blast
  then show ?thesis using assms(2) by (cases "rd 1 i") simp
qed

lemma quiet_events:
  assumes "bev_reads rd avail" "bev c" "avail i = string_bytes s @ rest"
    and "\<forall>k < length s. \<not> ends_request (ws_req_str c @ take (Suc k) s)"
  shows "\<exists>i'. request_events sha1 junk rd (length s) c i = Some (c\<lparr> ws_req_str := ws_req_str c @ s \<rparr>, i', []) \<and> avail i' = rest"
  using assms(2-)
proof (induction s arbitrary: c i)
  case Nil
  then show ?case by (simp add: string_bytes_def)
next
  case (Cons ch s)
  obtain i1 where i1: "rd 1 i = ([word_of_nat (of_char ch)], i1)" "avail i1 = string_bytes s @ rest"
    using rd_one [OF assms(1), of i] Cons.prems(2) by (auto simp: string_bytes_def)
  let ?c = "c\<lparr> ws_req_str := ws_req_str c @ [ch] \<rparr>"
  have "\<not> ends_request (ws_req_str c @ [ch])" using Cons.prems(3) by auto
  then have one: "request_read_cb sha1 junk [word_of_nat (of_char ch)] c = Some (?c, [])"
    using Cons.prems(1) by (simp add: request_read_cb_def)
  have "\<forall>k < length s. \<not> ends_request (ws_req_str ?c @ take (Suc k) s)"
    using Cons.prems(3) by (auto dest: spec [of _ "Suc _"])
  with Cons.IH [of ?c i1] i1(2) Cons.prems(1) obtain i' where
    "request_events sha1 junk rd (length s) ?c i1 = Some (?c\<lparr> ws_req_str := ws_req_str ?c @ s \<rparr>, i', [])" "avail i' = rest"
    by auto
  then show ?case using i1(1) one by auto
qed

lemma request_events_add:
  "request_events sha1 junk rd (j + k) c i = do {
     (c1, i1, a) \<leftarrow> request_events sha1 junk rd j c i; (c2, i2, b) \<leftarrow> request_events sha1 junk rd k c1 i1; Some (c2, i2, a @ b) }"
proof (induction j arbitrary: c i)
  case 0
  then show ?case by (cases "request_events sha1 junk rd k c i") auto
next
  case (Suc j)
  then show ?case by (auto simp: Let_def split: prod.splits Option.bind_split)
qed

lemma handshake_events:
  assumes "bev_reads rd avail" "bev c" "ws_req_str c = ''''" "avail i = string_bytes s @ rest" "complete_request s"
    and "parse_websocket_request s ws_req_new = Some r" "length junk = 3" "\<forall>t. length (sha1 t) = 20"
  shows "\<exists>i' resp. generate_websocket_response sha1 junk r = Some resp \<and> avail i' = rest \<and>
    request_events sha1 junk rd (length s) c i =
      Some (c\<lparr> ws_req_str := s, ws_resp_str := resp \<rparr>, i', [Disable_Read, Send (string_bytes resp)])"
proof -
  have "s \<noteq> ''''" using assms(5) by (auto simp: complete_request_def ends_request_def)
  then obtain s0 ch where s: "s = s0 @ [ch]" by (metis append_butlast_last_id)
  have "\<not> ends_request (ws_req_str c @ take (Suc k) s0)" if "k < length s0" for k
  proof -
    have "take (Suc k) s = take (Suc k) s0" using that by (simp add: s)
    moreover have "Suc k < length s" using that by (simp add: s)
    ultimately show ?thesis using assms(3,5) unfolding complete_request_def by (metis append_Nil)
  qed
  then obtain i1 where i1: "request_events sha1 junk rd (length s0) c i = Some (c\<lparr> ws_req_str := s0 \<rparr>, i1, [])"
    "avail i1 = string_bytes [ch] @ rest"
    using quiet_events [OF assms(1,2), of i s0 "string_bytes [ch] @ rest" sha1 junk] assms(3,4)
    by (auto simp: s string_bytes_def)
  obtain i2 where i2: "rd 1 i1 = ([word_of_nat (of_char ch)], i2)" "avail i2 = rest"
    using rd_one [OF assms(1), of i1] i1(2) by (auto simp: string_bytes_def)
  obtain resp where resp: "generate_websocket_response sha1 junk r = Some resp" "resp \<noteq> ''''"
    using generate_key_ref [OF assms(7,8)] by (simp add: generate_websocket_response_def)
  have "request_read_cb sha1 junk [word_of_nat (of_char ch)] (c\<lparr> ws_req_str := s0 \<rparr>) =
      Some (c\<lparr> ws_req_str := s, ws_resp_str := resp \<rparr>, [Disable_Read, Send (string_bytes resp)])"
    using assms(2,5,6) resp by (simp add: request_read_cb_def respond_websocket_request_def complete_request_def s)
  then have "request_events sha1 junk rd (Suc 0) (c\<lparr> ws_req_str := s0 \<rparr>) i1 =
      Some (c\<lparr> ws_req_str := s, ws_resp_str := resp \<rparr>, i2, [Disable_Read, Send (string_bytes resp)])"
    using i2(1) by simp
  with request_events_add [of sha1 junk rd "length s0" "Suc 0" c i] i1(1) i2(2) resp(1) show ?thesis
    by (simp add: s)
qed

section \<open>Properties of a connection\<close>

lemma ready_after_all: "ready c \<Longrightarrow> \<forall>msg \<in> set msgs. message_ok msg \<Longrightarrow> ready (conn_after_all msgs c)"
proof (induction msgs arbitrary: c)
  case (Cons msg msgs)
  then show ?case using ready_after [of c msg] by (simp del: conn_after.simps)
qed simp

text \<open>
  C15. A client sends any sequence of masked frames, each with less than \<open>2\<^sup>3\<^sup>1\<close> bytes of payload, of any opcode and
  in any of the three length encodings. The callback takes the bytes apart into exactly these frames, up to the first
  connection close: in their order, the function for pongs is called for each pong, no function for a ping (and no pong is
  sent), and the function for received frames for every other frame, with the unmasked payload. If there is no connection
  close, nothing is sent, and the connection waits for the next frame at the first byte behind them. Otherwise it
  answers with the two bytes of a connection close and stays in the step it was in, with the bytes behind the frame
  unread: it does not wait for a header any more.
\<close>

theorem frames_delivered:
  assumes "bev_reads rd avail" "\<forall>msg \<in> set msgs. message_ok msg" "ready c"
    and "avail i = concat (map wire msgs) @ rest"
  shows "\<exists>k c' i' acts. frame_events rd k c i = Some (c', i', acts) \<and>
    (case dropWhile (Not \<circ> is_close) msgs of
       [] \<Rightarrow> c' = conn_after_all msgs c \<and> ready c' \<and> avail i' = rest \<and> visible acts = calls_of_all msgs c
     | closing # later \<Rightarrow> let open_frames = takeWhile (Not \<circ> is_close) msgs in
         c' = after_whole closing (conn_after_all open_frames c) \<and> step c' \<noteq> ONE \<and>
         avail i' = concat (map wire later) @ rest \<and> visible acts = calls_of_all open_frames c @ [Send [0x88, 0]])"
proof -
  define pre where "pre = takeWhile (Not \<circ> is_close) msgs"
  have split: "msgs = pre @ dropWhile (Not \<circ> is_close) msgs" by (simp add: pre_def)
  have pre: "\<forall>msg \<in> set pre. message_ok msg \<and> \<not> is_close msg" using assms(2) by (auto simp: pre_def dest: set_takeWhileD)
  have rdy: "ready (conn_after_all pre c)" using ready_after_all [OF assms(3)] pre by blast
  show ?thesis
  proof (cases "dropWhile (Not \<circ> is_close) msgs")
    case Nil
    then have "msgs = pre" using split by (metis append_Nil2)
    moreover obtain acts where "runs rd avail c (concat (map wire pre) @ rest) acts (conn_after_all pre c) rest"
      "visible acts = calls_of_all pre c" using runs_messages [OF assms(1) pre assms(3)] by blast
    moreover then obtain k i' where "frame_events rd k c i = Some (conn_after_all pre c, i', acts)" "avail i' = rest"
      using assms(4) calculation(1) unfolding runs_def by blast
    ultimately show ?thesis using rdy unfolding Nil list.case
      by (intro exI [of _ k] exI [of _ "conn_after_all pre c"] exI [of _ i'] exI [of _ acts]) simp
  next
    case (Cons closing later)
    have cl: "is_close closing" using hd_dropWhile [of "Not \<circ> is_close" msgs] Cons by simp
    have "closing \<in> set msgs" using split Cons by (metis in_set_conv_decomp)
    then have ok: "message_ok closing" using assms(2) by blast
    let ?rest = "concat (map wire later) @ rest"
    obtain a where a: "runs rd avail c (concat (map wire pre) @ wire closing @ ?rest) a (conn_after_all pre c) (wire closing @ ?rest)"
      "visible a = calls_of_all pre c" using runs_messages [OF assms(1) pre assms(3)] by blast
    obtain b where b: "runs rd avail (conn_after_all pre c) (wire closing @ ?rest) b (after_whole closing (conn_after_all pre c)) ?rest"
      "visible b = [Send [0x88, 0]]" using runs_frame [OF assms(1) ok rdy, of ?rest] cl by (auto simp: seen_of_def)
    have "avail i = concat (map wire pre) @ wire closing @ ?rest"
      using assms(4) arg_cong [OF split, of "concat \<circ> map wire"] Cons by simp
    then obtain k i' where "frame_events rd k c i = Some (after_whole closing (conn_after_all pre c), i', a @ b)" "avail i' = ?rest"
      using runs_trans [OF a(1) b(1)] unfolding runs_def by blast
    moreover have "step (after_whole closing (conn_after_all pre c)) \<noteq> ONE" using cl by (simp add: after_whole_def Let_def)
    ultimately show ?thesis using a(2) b(2) unfolding Cons list.case pre_def [symmetric] Let_def
      by (intro exI [of _ k] exI [of _ "after_whole closing (conn_after_all pre c)"] exI [of _ i'] exI [of _ "a @ b"]) simp
  qed
qed

definition demo_conn :: "nat ws_conn_t" where
  "demo_conn = ws_conn_setcb FRAME_RECV (Some 7) (ws_conn_new\<lparr> bev := True \<rparr>)"

definition demo_rd :: "nat \<Rightarrow> u8 list \<Rightarrow> u8 list \<times> u8 list" where
  "demo_rd n i = (take n i, drop n i)"

lemma demo_rd_ok: "bev_reads demo_rd id"
  by (simp add: bev_reads_def demo_rd_def)

text \<open>A text frame, a connection close, and a byte behind them.\<close>

theorem frames_delivered_witness:
  "\<exists>k c' acts. frame_events demo_rd k (fst (frame_recv_loop demo_conn))
      (rfc_client_frame 1 1 [1, 2, 3, 4] [104, 105] @ rfc_client_frame 1 8 [5, 6, 7, 8] [] @ [0x81]) =
    Some (c', [0x81], acts) \<and> step c' = THREE \<and>
    visible acts = [Call 7 (frame_after (1, 1, [1, 2, 3, 4], [104, 105]) frame_new), Send [0x88, 0]]"
proof -
  let ?c = "fst (frame_recv_loop demo_conn)"
  let ?msgs = "[(1, 1, [1, 2, 3, 4], [104, 105]), (1, 8, [5, 6, 7, 8], [])] :: message list"
  have ok: "\<forall>msg \<in> set ?msgs. message_ok msg" by simp
  have "ready ?c"
    by (simp add: ready_def frame_recv_loop_def demo_conn_def ws_conn_setcb_def ws_conn_new_def frame_new_def)
  from frames_delivered [OF demo_rd_ok ok this, of
      "rfc_client_frame 1 1 [1, 2, 3, 4] [104, 105] @ rfc_client_frame 1 8 [5, 6, 7, 8] [] @ [0x81]" "[0x81]"]
  obtain k c' i' acts where e: "frame_events demo_rd k ?c
      (rfc_client_frame 1 1 [1, 2, 3, 4] [104, 105] @ rfc_client_frame 1 8 [5, 6, 7, 8] [] @ [0x81]) = Some (c', i', acts)" and
    r: "c' = after_whole (1, 8, [5, 6, 7, 8], []) (conn_after (1, 1, [1, 2, 3, 4], [104, 105]) ?c)" "i' = [0x81]"
      "visible acts = calls_of_all [(1, 1, [1, 2, 3, 4], [104, 105])] ?c @ [Send [0x88, 0]]"
    by auto
  have "step c' = THREE" by (simp add: r(1) after_whole_def)
  moreover have "visible acts = [Call 7 (frame_after (1, 1, [1, 2, 3, 4], [104, 105]) frame_new), Send [0x88, 0]]"
    by (simp add: r(3) calls_of.simps call_def frame_recv_loop_def demo_conn_def ws_conn_setcb_def ws_conn_new_def)
  ultimately show ?thesis using e r(2) by blast
qed

text \<open>
  C16. The frame callback in the states it can wait in: with the bytes it asked for in its array of 16, or in a payload for
  which there is memory, it is undefined in exactly one case, a payload of \<open>2\<^sup>3\<^sup>1\<close> bytes or more, where the
  index of the unmasking loop overflows; in every other case it ends and waits in such a state again.
\<close>

theorem frame_read_safe:
  assumes "conn_inv c" "length bs = ntoread c"
  shows "(frame_read_cb bs c = None \<longleftrightarrow> step c = FOUR \<and> 2 ^ 31 \<le> ntoread c) \<and>
    (\<forall>c' a. frame_read_cb bs c = Some (c', a) \<longrightarrow> conn_inv c')"
proof (cases "step c = FOUR \<and> 2 ^ 31 \<le> ntoread c")
  case True
  then have "frame_read_cb bs c = None"
    using assms by (auto simp: frame_read_cb_def frame_step_four_def conn_inv_def unmask_frame_def Let_def)
  then show ?thesis using True by simp
next
  case False
  then have "step c = FOUR \<Longrightarrow> ntoread c < 2 ^ 31" by simp
  from frame_read_inv [OF assms this] False show ?thesis by auto
qed

theorem frame_read_safe_witness:
  "frame_read_cb [0x12, 0x34] (fst (frame_recv_loop demo_conn)) \<noteq> None"
  using frame_read_safe [of "fst (frame_recv_loop demo_conn)" "[0x12, 0x34]"]
  by (simp add: conn_inv_def frame_recv_loop_def demo_conn_def ws_conn_setcb_def ws_conn_new_def frame_new_def)

text \<open>Such a payload is announced by any client: the callback accepts the length and waits for it.\<close>

lemma huge_payload_awaited:
  assumes "conn_inv c" "step c = TWO" "payload_len (frame c) = 127" "2 ^ 31 \<le> len" "len < 2 ^ 64" "length key = 4"
  shows "\<exists>c1 a c2 b. frame_read_cb (be_bytes 8 len) c = Some (c1, a) \<and> frame_read_cb key c1 = Some (c2, b) \<and>
    conn_inv c2 \<and> step c2 = FOUR \<and> ntoread c2 = len"
proof -
  have n: "bev c" "ntoread c = 8" using assms(1-3) by (auto simp: conn_inv_def)
  let ?c1 = "c\<lparr> frame := (frame c)\<lparr> payload_len := word_of_nat len \<rparr>, step := THREE, ntoread := 4 \<rparr>"
  have u: "unat (word_of_nat len :: u64) = len" using assms(5) by (simp add: unat_of_nat)
  then have pos: "(word_of_nat len :: u64) > 0" using assms(4) by (simp add: word_less_nat_alt)
  have 1: "frame_read_cb (be_bytes 8 len) c = Some (?c1, [Watermark_Read 4])"
    using frame_step_two_client [of c 127 8 len] n assms(2,3,5) by (simp add: await_def)
  have "conn_inv ?c1" using assms(1) by (simp add: conn_inv_def)
  moreover have "\<exists>c2 b. frame_read_cb key ?c1 = Some (c2, b) \<and> step c2 = FOUR \<and> ntoread c2 = len"
    using n u pos assms(6) by (simp add: frame_read_cb_def frame_step_three_def tmp_ok_def await_def)
  ultimately show ?thesis using 1 frame_read_inv [of ?c1 key] assms(6) by fastforce
qed

text \<open>
  The handshake: the request is collected byte by byte, nothing is sent before the empty
  line that ends it, and with its last byte reading stops and the response to the parsed
  request is sent; the bytes behind the request stay in the input. When the response has been
  written the connection waits for its first frame.
\<close>

lemma handshake_completes:
  assumes "bev_reads rd avail" "bev c" "ws_req_str c = ''''" "length (masking_key (frame c)) = 4"
    and "avail i = string_bytes s @ rest" "complete_request s" "parse_websocket_request s ws_req_new = Some r"
    and "length junk = 3" "\<forall>t. length (sha1 t) = 20"
  shows "\<exists>i' resp c'. generate_websocket_response sha1 junk r = Some resp \<and> avail i' = rest \<and>
    request_events sha1 junk rd (length s) c i = Some (c', i', [Disable_Read, Send (string_bytes resp)]) \<and>
    ready (fst (response_write_cb c')) \<and>
    snd (response_write_cb c') = call (handshake_cb_unit c) c @ [Set_Cb Frame_Read Write_Cb, Watermark_Read 2, Watermark_Write, Enable_Read]"
proof -
  obtain i' resp where r: "generate_websocket_response sha1 junk r = Some resp" "avail i' = rest"
    "request_events sha1 junk rd (length s) c i =
      Some (c\<lparr> ws_req_str := s, ws_resp_str := resp \<rparr>, i', [Disable_Read, Send (string_bytes resp)])"
    using handshake_events [OF assms(1-3,5-9)] by blast
  let ?c = "c\<lparr> ws_req_str := s, ws_resp_str := resp \<rparr>"
  have "ready (fst (response_write_cb ?c))" "snd (response_write_cb ?c) = call (handshake_cb_unit c) c @
      [Set_Cb Frame_Read Write_Cb, Watermark_Read 2, Watermark_Write, Enable_Read]"
    using assms(2,4) by (simp_all add: response_write_cb_def frame_recv_loop_def ready_def call_def split: option.split)
  with r show ?thesis by blast
qed

definition demo_request_text :: string where
  "demo_request_text = ''GET / HTTP/1.1'' @ CRLF @ ''Sec-WebSocket-Key: abc'' @ CRLF @ CRLF"

end
