(* ===== verification/Sdk_Pool.thy ===== *)
theory Sdk_Pool
  imports Sdk_Prelude
begin

text \<open>
  The object pool: \<^verbatim>\<open>tools/pool_allocator.hpp\<close>. A pool is a vector of chunks of \<open>N\<close> slots and a
  stack of the numbers of the empty slots. A slot is a byte of flags followed by the storage of
  an object; the model keeps the constructed object with the byte. Reads of slots that do not
  exist are \<^term>\<open>None\<close>. The theory states what a pool promises as a locale of slot stores, and
  proves the pool to be one.
\<close>

section \<open>Chunks\<close>

record 'a slot =
  slot_flags :: u8
  slot_obj :: "'a option"

text \<open>The storage of a chunk, \<^term>\<open>None\<close> for a null pointer.\<close>

type_synonym 'a pool_chunk = "'a slot list option"

definition flag_active :: u8 where "flag_active = 0x01"

definition active :: "'a slot \<Rightarrow> bool" where
  "active s \<longleftrightarrow> flag_active AND slot_flags s \<noteq> 0"

text \<open>\<open>storage\<close> tells whether the underlying allocator returned storage.\<close>

definition chunk_initialize :: "nat \<Rightarrow> bool \<Rightarrow> 'a pool_chunk \<Rightarrow> 'a pool_chunk \<times> bool" where
  "chunk_initialize N storage c = (case c of
     None \<Rightarrow> if storage then (Some (replicate N \<lparr> slot_flags = 0, slot_obj = None \<rparr>), True) else (None, False)
   | Some d \<Rightarrow> (c, True))"

definition destroy :: "'a slot \<Rightarrow> 'a slot" where
  "destroy s = s\<lparr> slot_obj := None \<rparr>"

definition construct :: "'a \<Rightarrow> 'a slot \<Rightarrow> 'a slot" where
  "construct x s = s\<lparr> slot_obj := Some x \<rparr>"

definition chunk_insert :: "nat \<Rightarrow> 'a \<Rightarrow> 'a pool_chunk \<Rightarrow> 'a pool_chunk option" where
  "chunk_insert position x c = do {
     d \<leftarrow> c;
     if position < length d then
       let s = d ! position;
           s = (if active s then destroy s else s);
           s = construct x s;
           s = s\<lparr> slot_flags := slot_flags s OR flag_active \<rparr>
       in Some (Some (d[position := s]))
     else None }"

definition chunk_remove :: "nat \<Rightarrow> 'a pool_chunk \<Rightarrow> 'a pool_chunk option" where
  "chunk_remove position c = do {
     d \<leftarrow> c;
     if position < length d then
       let s = d ! position;
           s = (if active s then destroy s else s);
           s = s\<lparr> slot_flags := slot_flags s AND NOT flag_active \<rparr>
       in Some (Some (d[position := s]))
     else None }"

text \<open>The pointer \<^verbatim>\<open>get_at\<close> returns is modelled by the object behind it; null is \<^term>\<open>Some None\<close>.\<close>

definition chunk_get_at :: "nat \<Rightarrow> 'a pool_chunk \<Rightarrow> 'a option option" where
  "chunk_get_at position c = do {
     d \<leftarrow> c;
     if position < length d then
       if active (d ! position) then map_option Some (slot_obj (d ! position)) else Some None
     else None }"

text \<open>The visits of \<^verbatim>\<open>foreach\<close> until the function says stop: the visited objects and the result.\<close>

fun slots_foreach :: "('a \<Rightarrow> bool) \<Rightarrow> 'a slot list \<Rightarrow> ('a list \<times> bool) option" where
  "slots_foreach f [] = Some ([], True)"
| "slots_foreach f (s # ss) =
     (if active s then do {
        x \<leftarrow> slot_obj s;
        if f x then do { (xs, r) \<leftarrow> slots_foreach f ss; Some (x # xs, r) } else Some ([x], False) }
      else slots_foreach f ss)"

definition chunk_foreach :: "('a \<Rightarrow> bool) \<Rightarrow> 'a pool_chunk \<Rightarrow> ('a list \<times> bool) option" where
  "chunk_foreach f c = do { d \<leftarrow> c; slots_foreach f d }"

section \<open>Pools\<close>

record 'a pool =
  pool_data :: "'a pool_chunk list"
  pool_empty_objs :: "nat list"

definition pool_new :: "'a pool" where
  "pool_new = \<lparr> pool_data = [], pool_empty_objs = [] \<rparr>"

text \<open>\<^verbatim>\<open>_data[chunk]\<close> with a write.\<close>

definition on_chunk :: "nat \<Rightarrow> ('a pool_chunk \<Rightarrow> 'a pool_chunk option) \<Rightarrow> 'a pool \<Rightarrow> 'a pool option" where
  "on_chunk k f p = (if k < length (pool_data p)
     then do { c \<leftarrow> f (pool_data p ! k); Some (p\<lparr> pool_data := (pool_data p)[k := c] \<rparr>) } else None)"

text \<open>A new chunk and the numbers of its slots, the first one on top of the stack.\<close>

definition pool_grow :: "nat \<Rightarrow> bool \<Rightarrow> 'a pool \<Rightarrow> 'a pool \<times> bool" where
  "pool_grow N storage p =
     (let (c, ok) = chunk_initialize N storage None;
          data = pool_data p @ [c];
          begin' = (length data - 1) * N;
          end' = begin' + N;
          last' = end' - 1 in
      if ok then (p\<lparr> pool_data := data,
        pool_empty_objs := pool_empty_objs p @ map (\<lambda>ix. last' - ix + begin') [begin'..<end'] \<rparr>, True)
      else (p\<lparr> pool_data := data \<rparr>, False))"

text \<open>\<^verbatim>\<open>allocate\<close>: the position, or \<^term>\<open>Inl ()\<close> for the exception.\<close>

definition pool_allocate :: "nat \<Rightarrow> bool \<Rightarrow> 'a \<Rightarrow> 'a pool \<Rightarrow> ((unit + nat) \<times> 'a pool) option" where
  "pool_allocate N storage x p =
     (let (p, ok) = (if pool_empty_objs p = [] then pool_grow N storage p else (p, True)) in
      if \<not> ok then Some (Inl (), p)
      else if pool_empty_objs p = [] then None
      else let target = last (pool_empty_objs p) in do {
        p \<leftarrow> on_chunk (target div N) (chunk_insert (target mod N) x) p;
        Some (Inr target, p\<lparr> pool_empty_objs := butlast (pool_empty_objs p) \<rparr>) })"

definition pool_deallocate :: "nat \<Rightarrow> nat \<Rightarrow> 'a pool \<Rightarrow> 'a pool option" where
  "pool_deallocate N position p = do {
     p \<leftarrow> on_chunk (position div N) (chunk_remove (position mod N)) p;
     Some (p\<lparr> pool_empty_objs := pool_empty_objs p @ [position] \<rparr>) }"

definition pool_find :: "nat \<Rightarrow> nat \<Rightarrow> 'a pool \<Rightarrow> 'a option option" where
  "pool_find N position p = (if position div N < length (pool_data p)
     then chunk_get_at (position mod N) (pool_data p ! (position div N)) else None)"

text \<open>An assignment through the pointer or reference that \<^verbatim>\<open>find\<close> returned.\<close>

definition pool_write :: "nat \<Rightarrow> nat \<Rightarrow> 'a \<Rightarrow> 'a pool \<Rightarrow> 'a pool option" where
  "pool_write N position x p = on_chunk (position div N)
     (\<lambda>c. do { d \<leftarrow> c; if position mod N < length d \<and> active (d ! (position mod N))
        then Some (Some (d[position mod N := construct x (d ! (position mod N))])) else None }) p"

fun chunks_foreach :: "('a \<Rightarrow> bool) \<Rightarrow> 'a pool_chunk list \<Rightarrow> 'a list option" where
  "chunks_foreach f [] = Some []"
| "chunks_foreach f (c # cs) = do {
     (xs, go) \<leftarrow> chunk_foreach f c;
     if go then do { ys \<leftarrow> chunks_foreach f cs; Some (xs @ ys) } else Some xs }"

definition pool_foreach :: "('a \<Rightarrow> bool) \<Rightarrow> 'a pool \<Rightarrow> 'a list option" where
  "pool_foreach f p = chunks_foreach f (pool_data p)"

definition pool_capacity :: "nat \<Rightarrow> 'a pool \<Rightarrow> nat" where
  "pool_capacity N p = length (pool_data p) * N"

definition pool_size :: "nat \<Rightarrow> 'a pool \<Rightarrow> nat" where
  "pool_size N p = pool_capacity N p - length (pool_empty_objs p)"

definition pool_swap :: "'a pool \<Rightarrow> 'a pool \<Rightarrow> 'a pool \<times> 'a pool" where
  "pool_swap p c = (p\<lparr> pool_data := pool_data c, pool_empty_objs := pool_empty_objs c \<rparr>,
     c\<lparr> pool_data := pool_data p, pool_empty_objs := pool_empty_objs p \<rparr>)"

section \<open>The contract of a slot store\<close>

text \<open>
  A store hands out positions for objects. \<open>alpha\<close> is its contents. A position that is handed out
  was free; positions that are in use keep their objects.
\<close>

locale slot_store =
  fixes inv :: "'s \<Rightarrow> bool" and alpha :: "'s \<Rightarrow> nat \<Rightarrow> 'a option"
    and alloc :: "'a \<Rightarrow> 's \<Rightarrow> ((unit + nat) \<times> 's) option"
    and dealloc :: "nat \<Rightarrow> 's \<Rightarrow> 's option"
    and lookup :: "nat \<Rightarrow> 's \<Rightarrow> 'a option option"
    and assign :: "nat \<Rightarrow> 'a \<Rightarrow> 's \<Rightarrow> 's option"
    and used :: "'s \<Rightarrow> nat"
  assumes finite_alpha: "inv s \<Longrightarrow> finite (dom (alpha s))"
    and alloc_fresh: "inv s \<Longrightarrow> \<exists>pos s'. alloc x s = Some (Inr pos, s') \<and> inv s' \<and> alpha s pos = None \<and>
      alpha s' = (alpha s)(pos \<mapsto> x)"
    and dealloc_used: "inv s \<Longrightarrow> alpha s pos \<noteq> None \<Longrightarrow>
      \<exists>s'. dealloc pos s = Some s' \<and> inv s' \<and> alpha s' = (alpha s)(pos := None)"
    and lookup_used: "inv s \<Longrightarrow> alpha s pos = Some x \<Longrightarrow> lookup pos s = Some (Some x)"
    and assign_used: "inv s \<Longrightarrow> alpha s pos \<noteq> None \<Longrightarrow>
      \<exists>s'. assign pos x s = Some s' \<and> inv s' \<and> alpha s' = (alpha s)(pos \<mapsto> x)"
    and used_card: "inv s \<Longrightarrow> used s = card (dom (alpha s))"
begin

lemma alloc_dealloc:
  assumes "inv s"
  shows "\<exists>pos s1 s2. alloc x s = Some (Inr pos, s1) \<and> dealloc pos s1 = Some s2 \<and> inv s2 \<and> alpha s2 = alpha s"
proof -
  obtain pos s1 where a: "alloc x s = Some (Inr pos, s1)" "inv s1" "alpha s pos = None" "alpha s1 = (alpha s)(pos \<mapsto> x)"
    using alloc_fresh [OF assms] by blast
  then obtain s2 where "dealloc pos s1 = Some s2" "inv s2" "alpha s2 = (alpha s1)(pos := None)"
    using dealloc_used [of s1 pos] by auto
  then show ?thesis using a by (auto simp: fun_upd_idem)
qed

lemma used_alloc:
  assumes "inv s" "alloc x s = Some (Inr pos, s')"
  shows "used s' = Suc (used s)"
proof -
  have r: "inv s'" "alpha s pos = None" "alpha s' = (alpha s)(pos \<mapsto> x)" using alloc_fresh [OF assms(1), of x] assms(2) by auto
  then show ?thesis
    using used_card [OF assms(1)] used_card [OF r(1)] finite_alpha [OF assms(1)] by (simp add: domIff)
qed

lemma used_dealloc:
  assumes "inv s" "alpha s pos \<noteq> None" "dealloc pos s = Some s'"
  shows "Suc (used s') = used s"
proof -
  have r: "inv s'" "alpha s' = (alpha s)(pos := None)" using dealloc_used [OF assms(1,2)] assms(3) by auto
  have "dom (alpha s') = dom (alpha s) - {pos}" using r(2) by auto
  moreover have "pos \<in> dom (alpha s)" using assms(2) by auto
  ultimately have "Suc (card (dom (alpha s'))) = card (dom (alpha s))"
    using finite_alpha [OF assms(1)] by (simp add: card_Suc_Diff1 del: card_Diff_insert)
  then show ?thesis using used_card [OF assms(1)] used_card [OF r(1)] by simp
qed

end

section \<open>The pool is a slot store\<close>

lemma active_set: "active (s\<lparr> slot_flags := slot_flags s OR flag_active \<rparr>)"
proof -
  have "bit (flag_active AND (slot_flags s OR flag_active)) 0" by (simp add: flag_active_def bit_simps)
  then have "flag_active AND (slot_flags s OR flag_active) \<noteq> 0" by (intro notI) simp
  then show ?thesis by (simp add: active_def)
qed

lemma active_clear: "\<not> active (s\<lparr> slot_flags := slot_flags s AND NOT flag_active \<rparr>)"
proof -
  have "flag_active AND (slot_flags s AND NOT flag_active) = 0" by (rule u8_eqI) (simp_all add: flag_active_def bit_simps)
  then show ?thesis by (simp add: active_def)
qed

definition slot_ok :: "'a slot \<Rightarrow> bool" where
  "slot_ok s \<longleftrightarrow> (active s \<longleftrightarrow> slot_obj s \<noteq> None)"

definition chunk_ok :: "nat \<Rightarrow> 'a pool_chunk \<Rightarrow> bool" where
  "chunk_ok N c \<longleftrightarrow> (case c of None \<Rightarrow> False | Some d \<Rightarrow> length d = N \<and> list_all slot_ok d)"

text \<open>The slot with a number, and the pool with another slot there.\<close>

definition slot_at :: "nat \<Rightarrow> 'a pool \<Rightarrow> nat \<Rightarrow> 'a slot" where
  "slot_at N p pos = the (pool_data p ! (pos div N)) ! (pos mod N)"

definition set_slot :: "nat \<Rightarrow> nat \<Rightarrow> 'a slot \<Rightarrow> 'a pool \<Rightarrow> 'a pool" where
  "set_slot N pos s p = p\<lparr> pool_data := (pool_data p)[pos div N := Some ((the (pool_data p ! (pos div N)))[pos mod N := s])] \<rparr>"

definition pool_ok :: "nat \<Rightarrow> 'a pool \<Rightarrow> bool" where
  "pool_ok N p \<longleftrightarrow> 0 < N \<and> list_all (chunk_ok N) (pool_data p)"

definition pool_inv :: "nat \<Rightarrow> 'a pool \<Rightarrow> bool" where
  "pool_inv N p \<longleftrightarrow> pool_ok N p \<and> distinct (pool_empty_objs p) \<and>
     (\<forall>pos. pos \<in> set (pool_empty_objs p) \<longleftrightarrow> pos < pool_capacity N p \<and> \<not> active (slot_at N p pos))"

definition pool_alpha :: "nat \<Rightarrow> 'a pool \<Rightarrow> nat \<Rightarrow> 'a option" where
  "pool_alpha N p pos = (if pos < pool_capacity N p then slot_obj (slot_at N p pos) else None)"

lemma in_capacity: "0 < N \<Longrightarrow> pos < pool_capacity N p \<longleftrightarrow> pos div N < length (pool_data p)"
  by (simp add: pool_capacity_def div_less_iff_less_mult)

lemma pool_chunkD:
  assumes "pool_ok N p" "pos < pool_capacity N p"
  shows "\<exists>d. pool_data p ! (pos div N) = Some d \<and> length d = N \<and> list_all slot_ok d \<and> pos mod N < N \<and>
    pos div N < length (pool_data p) \<and> slot_at N p pos = d ! (pos mod N) \<and> slot_ok (d ! (pos mod N))"
proof -
  have N: "0 < N" using assms(1) by (simp add: pool_ok_def)
  then have k: "pos div N < length (pool_data p)" using assms(2) in_capacity by blast
  then have "chunk_ok N (pool_data p ! (pos div N))" using assms(1) by (simp add: pool_ok_def list_all_length)
  then obtain d where "pool_data p ! (pos div N) = Some d" "length d = N" "list_all slot_ok d"
    by (auto simp: chunk_ok_def split: option.splits)
  then show ?thesis using k N by (auto simp: slot_at_def list_all_length)
qed

lemma set_slot_capacity [simp]: "pool_capacity N (set_slot N pos s p) = pool_capacity N p"
  "pool_empty_objs (set_slot N pos s p) = pool_empty_objs p"
  by (simp_all add: set_slot_def pool_capacity_def)

lemma div_mod_inj: "q div N = p div N \<Longrightarrow> q mod N = p mod N \<Longrightarrow> q = (p :: nat)"
  by (metis div_mult_mod_eq)

lemma slot_at_set:
  assumes "pool_ok N p" "pos < pool_capacity N p"
  shows "slot_at N (set_slot N pos s p) q = (if q = pos then s else slot_at N p q)"
proof (cases "q div N = pos div N")
  case True
  then have "q \<noteq> pos \<Longrightarrow> pos mod N \<noteq> q mod N" using div_mod_inj [of q N pos] by metis
  then show ?thesis using pool_chunkD [OF assms] True by (auto simp: slot_at_def set_slot_def nth_list_update)
next
  case False
  then show ?thesis using pool_chunkD [OF assms] by (auto simp: slot_at_def set_slot_def)
qed

lemma set_slot_ok:
  assumes "pool_ok N p" "pos < pool_capacity N p" "slot_ok s"
  shows "pool_ok N (set_slot N pos s p)"
  using pool_chunkD [OF assms(1,2)] assms(1,3)
  by (auto simp: pool_ok_def set_slot_def list_all_length nth_list_update chunk_ok_def split: option.splits)

lemma insert_eq:
  assumes "pool_ok N p" "pos < pool_capacity N p"
  shows "\<exists>s. on_chunk (pos div N) (chunk_insert (pos mod N) x) p = Some (set_slot N pos s p) \<and> active s \<and> slot_obj s = Some x"
proof -
  obtain d where d: "pool_data p ! (pos div N) = Some d" "length d = N" "pos mod N < N" "pos div N < length (pool_data p)"
    using pool_chunkD [OF assms] by blast
  let ?s = "construct x (if active (d ! (pos mod N)) then destroy (d ! (pos mod N)) else d ! (pos mod N))"
  have "on_chunk (pos div N) (chunk_insert (pos mod N) x) p =
      Some (set_slot N pos (?s\<lparr> slot_flags := slot_flags ?s OR flag_active \<rparr>) p)"
    using d by (simp add: on_chunk_def chunk_insert_def set_slot_def Let_def)
  moreover have "slot_obj (?s\<lparr> slot_flags := slot_flags ?s OR flag_active \<rparr>) = Some x" by (simp add: construct_def)
  ultimately show ?thesis using active_set by blast
qed

lemma remove_eq:
  assumes "pool_ok N p" "pos < pool_capacity N p"
  shows "\<exists>s. on_chunk (pos div N) (chunk_remove (pos mod N)) p = Some (set_slot N pos s p) \<and> \<not> active s \<and> slot_obj s = None"
proof -
  obtain d where d: "pool_data p ! (pos div N) = Some d" "length d = N" "pos mod N < N" "pos div N < length (pool_data p)"
    "slot_ok (d ! (pos mod N))"
    using pool_chunkD [OF assms] by blast
  let ?s = "if active (d ! (pos mod N)) then destroy (d ! (pos mod N)) else d ! (pos mod N)"
  have "on_chunk (pos div N) (chunk_remove (pos mod N)) p =
      Some (set_slot N pos (?s\<lparr> slot_flags := slot_flags ?s AND NOT flag_active \<rparr>) p)"
    using d by (simp add: on_chunk_def chunk_remove_def set_slot_def Let_def)
  moreover have "slot_obj (?s\<lparr> slot_flags := slot_flags ?s AND NOT flag_active \<rparr>) = None"
    using d(5) by (simp add: destroy_def slot_ok_def)
  ultimately show ?thesis using active_clear by blast
qed

lemma pool_alpha_active:
  assumes "pool_ok N p" "pos < pool_capacity N p"
  shows "active (slot_at N p pos) \<longleftrightarrow> pool_alpha N p pos \<noteq> None"
  using pool_chunkD [OF assms] assms(2) by (auto simp: pool_alpha_def slot_ok_def)

lemma pool_alpha_set:
  assumes "pool_ok N p" "pos < pool_capacity N p"
  shows "pool_alpha N (set_slot N pos s p) = (pool_alpha N p)(pos := slot_obj s)"
  by (rule ext) (use assms in \<open>simp add: pool_alpha_def slot_at_set\<close>)


lemma pool_alpha_empty [simp]: "pool_alpha N (p\<lparr> pool_empty_objs := e \<rparr>) = pool_alpha N p"
  by (simp add: pool_alpha_def slot_at_def pool_capacity_def fun_eq_iff)

lemma pool_inv_new: "0 < N \<Longrightarrow> pool_inv N pool_new"
  by (simp add: pool_inv_def pool_ok_def pool_new_def pool_capacity_def)

lemma grow_numbers:
  assumes "0 < N"
  shows "set (map (\<lambda>ix. (b + N - 1) - ix + b) [b..<b + N]) = {b..<b + N}"
    and "distinct (map (\<lambda>ix. (b + N - 1) - ix + b) [b..<b + N])"
proof -
  show "distinct (map (\<lambda>ix. (b + N - 1) - ix + b) [b..<b + N])" by (auto simp: distinct_map inj_on_def)
  have "x \<in> (\<lambda>ix. (b + N - 1) - ix + b) ` {b..<b + N}" if "x \<in> {b..<b + N}" for x
    using that by (intro image_eqI [of _ _ "b + N - 1 + b - x"]) auto
  then show "set (map (\<lambda>ix. (b + N - 1) - ix + b) [b..<b + N]) = {b..<b + N}" by auto
qed

lemma idle: "\<not> active \<lparr> slot_flags = 0, slot_obj = None \<rparr>"
  by (simp add: active_def)

lemma grow_ok:
  assumes "pool_inv N p" "pool_empty_objs p = []"
  shows "\<exists>p'. pool_grow N True p = (p', True) \<and> pool_inv N p' \<and> pool_alpha N p' = pool_alpha N p \<and> pool_empty_objs p' \<noteq> []"
proof -
  let ?b = "length (pool_data p) * N"
  let ?p = "p\<lparr> pool_data := pool_data p @ [Some (replicate N \<lparr> slot_flags = 0, slot_obj = None \<rparr>)],
    pool_empty_objs := map (\<lambda>ix. (?b + N - 1) - ix + ?b) [?b..<?b + N] \<rparr>"
  have N: "0 < N" and ok: "pool_ok N p" using assms(1) by (simp_all add: pool_inv_def pool_ok_def)
  have eq: "pool_grow N True p = (?p, True)" using assms(2) by (simp add: pool_grow_def chunk_initialize_def Let_def)
  have cap: "pool_capacity N ?p = pool_capacity N p + N" "pool_capacity N p = ?b" by (simp_all add: pool_capacity_def)
  have old: "slot_at N ?p pos = slot_at N p pos" if "pos < ?b" for pos
    using that N by (simp add: slot_at_def nth_append div_less_iff_less_mult)
  have new: "slot_at N ?p pos = \<lparr> slot_flags = 0, slot_obj = None \<rparr>" if "?b \<le> pos" "pos < ?b + N" for pos
  proof -
    have "pos div N = length (pool_data p)" using that N by (intro div_nat_eqI) (simp_all add: mult.commute)
    then show ?thesis using N by (simp add: slot_at_def nth_append)
  qed
  have full: "active (slot_at N p pos)" if "pos < ?b" for pos
    using that assms cap(2) by (auto simp: pool_inv_def)
  have "chunk_ok N (Some (replicate N \<lparr> slot_flags = 0, slot_obj = None \<rparr>))"
    by (simp add: idle chunk_ok_def slot_ok_def list_all_length)
  then have "pool_ok N ?p" using ok by (simp add: pool_ok_def)
  moreover have "\<forall>pos. pos \<in> set (pool_empty_objs ?p) \<longleftrightarrow> pos < pool_capacity N ?p \<and> \<not> active (slot_at N ?p pos)"
  proof
    fix pos
    show "pos \<in> set (pool_empty_objs ?p) \<longleftrightarrow> pos < pool_capacity N ?p \<and> \<not> active (slot_at N ?p pos)"
    proof (cases "pos < ?b")
      case True
      then show ?thesis using grow_numbers(1) [OF N, of ?b] old [OF True] full [OF True] by (simp del: set_map)
    next
      case False
      then show ?thesis using grow_numbers(1) [OF N, of ?b] new [of pos] idle cap by (cases "pos < ?b + N") (simp_all del: set_map)
    qed
  qed
  moreover have "distinct (pool_empty_objs ?p)" using grow_numbers(2) [OF N, of ?b] by simp
  moreover have "pool_alpha N ?p = pool_alpha N p"
  proof
    fix pos
    show "pool_alpha N ?p pos = pool_alpha N p pos"
      using old [of pos] new [of pos] cap by (cases "pos < ?b") (simp_all add: pool_alpha_def del: pool_alpha_empty)
  qed
  moreover have "pool_empty_objs ?p \<noteq> []" using N by simp
  ultimately show ?thesis using eq by (auto simp: pool_inv_def)
qed

lemma take_slot:
  assumes "pool_inv N p" "pool_empty_objs p \<noteq> []"
  defines "pos \<equiv> last (pool_empty_objs p)"
  shows "\<exists>p1 p'. on_chunk (pos div N) (chunk_insert (pos mod N) x) p = Some p1 \<and>
    p' = p1\<lparr> pool_empty_objs := butlast (pool_empty_objs p1) \<rparr> \<and> pool_inv N p' \<and> pool_alpha N p pos = None \<and>
    pool_alpha N p' = (pool_alpha N p)(pos \<mapsto> x)"
proof -
  have ok: "pool_ok N p" using assms(1) by (simp add: pool_inv_def)
  have "pos \<in> set (pool_empty_objs p)" using assms(2) by (simp add: pos_def)
  then have pos: "pos < pool_capacity N p" "\<not> active (slot_at N p pos)" using assms(1) by (auto simp: pool_inv_def)
  obtain s where s: "on_chunk (pos div N) (chunk_insert (pos mod N) x) p = Some (set_slot N pos s p)" "active s" "slot_obj s = Some x"
    using insert_eq [OF ok pos(1)] by blast
  let ?p = "(set_slot N pos s p)\<lparr> pool_empty_objs := butlast (pool_empty_objs p) \<rparr>"
  have at: "slot_at N ?p = slot_at N (set_slot N pos s p)" "pool_capacity N ?p = pool_capacity N p" "pool_data ?p = pool_data (set_slot N pos s p)"
    by (simp_all add: slot_at_def fun_eq_iff pool_capacity_def set_slot_def)
  have "pool_ok N ?p" using set_slot_ok [OF ok pos(1), of s] s by (simp add: pool_ok_def slot_ok_def)
  moreover have "distinct (butlast (pool_empty_objs p))" "set (butlast (pool_empty_objs p)) = set (pool_empty_objs p) - {pos}"
  proof -
    have "pool_empty_objs p = butlast (pool_empty_objs p) @ [pos]" using assms(2) by (simp add: pos_def)
    moreover have "distinct (pool_empty_objs p)" using assms(1) by (simp add: pool_inv_def)
    ultimately have "distinct (butlast (pool_empty_objs p) @ [pos])" "set (pool_empty_objs p) = set (butlast (pool_empty_objs p)) \<union> {pos}"
      by (metis, metis set_append list.set(1,2))
    then show "distinct (butlast (pool_empty_objs p))" "set (butlast (pool_empty_objs p)) = set (pool_empty_objs p) - {pos}" by auto
  qed
  ultimately have "pool_inv N ?p"
    using assms(1) at slot_at_set [OF ok pos(1)] s(2) by (auto simp: pool_inv_def)
  moreover have "pool_alpha N ?p = (pool_alpha N p)(pos \<mapsto> x)"
    using pool_alpha_set [OF ok pos(1), of s] s(3) by simp
  moreover have "pool_alpha N p pos = None" using pool_alpha_active [OF ok pos(1)] pos(2) by simp
  ultimately show ?thesis using s(1) by simp
qed

lemma pool_alloc_fresh:
  assumes "pool_inv N p"
  shows "\<exists>pos p'. pool_allocate N True x p = Some (Inr pos, p') \<and> pool_inv N p' \<and> pool_alpha N p pos = None \<and>
    pool_alpha N p' = (pool_alpha N p)(pos \<mapsto> x)"
proof -
  obtain p1 where p1: "(if pool_empty_objs p = [] then pool_grow N True p else (p, True)) = (p1, True)" "pool_inv N p1"
    "pool_alpha N p1 = pool_alpha N p" "pool_empty_objs p1 \<noteq> []"
    using grow_ok [OF assms] assms by (cases "pool_empty_objs p = []") auto
  then show ?thesis using take_slot [OF p1(2,4), of x] by (auto simp: pool_allocate_def)
qed

lemma pool_dealloc_used:
  assumes "pool_inv N p" "pool_alpha N p pos \<noteq> None"
  shows "\<exists>p'. pool_deallocate N pos p = Some p' \<and> pool_inv N p' \<and> pool_alpha N p' = (pool_alpha N p)(pos := None)"
proof -
  have ok: "pool_ok N p" using assms(1) by (simp add: pool_inv_def)
  have pos: "pos < pool_capacity N p" using assms(2) by (auto simp: pool_alpha_def split: if_splits)
  then have act: "active (slot_at N p pos)" using pool_alpha_active [OF ok pos] assms(2) by simp
  obtain s where s: "on_chunk (pos div N) (chunk_remove (pos mod N)) p = Some (set_slot N pos s p)" "\<not> active s" "slot_obj s = None"
    using remove_eq [OF ok pos] by blast
  let ?p = "(set_slot N pos s p)\<lparr> pool_empty_objs := pool_empty_objs p @ [pos] \<rparr>"
  have at: "slot_at N ?p = slot_at N (set_slot N pos s p)" "pool_capacity N ?p = pool_capacity N p" "pool_data ?p = pool_data (set_slot N pos s p)"
    by (simp_all add: slot_at_def fun_eq_iff pool_capacity_def set_slot_def)
  have "pool_ok N ?p" using set_slot_ok [OF ok pos, of s] s by (simp add: pool_ok_def slot_ok_def)
  then have "pool_inv N ?p"
    using assms(1) at slot_at_set [OF ok pos] s(2) act pos by (auto simp: pool_inv_def)
  moreover have "pool_alpha N ?p = (pool_alpha N p)(pos := None)"
    using pool_alpha_set [OF ok pos, of s] s(3) by simp
  ultimately show ?thesis using s(1) by (simp add: pool_deallocate_def)
qed

lemma pool_find_used:
  assumes "pool_inv N p" "pool_alpha N p pos = Some x"
  shows "pool_find N pos p = Some (Some x)"
proof -
  have ok: "pool_ok N p" using assms(1) by (simp add: pool_inv_def)
  have pos: "pos < pool_capacity N p" "slot_obj (slot_at N p pos) = Some x"
    using assms(2) by (auto simp: pool_alpha_def split: if_splits)
  then show ?thesis using pool_chunkD [OF ok pos(1)] by (auto simp: pool_find_def chunk_get_at_def slot_ok_def)
qed

lemma pool_find_free:
  assumes "pool_inv N p" "pos < pool_capacity N p" "pool_alpha N p pos = None"
  shows "pool_find N pos p = Some None"
proof -
  have ok: "pool_ok N p" using assms(1) by (simp add: pool_inv_def)
  then show ?thesis using pool_chunkD [OF ok assms(2)] assms(2,3)
    by (auto simp: pool_find_def chunk_get_at_def slot_ok_def pool_alpha_def)
qed

lemma pool_write_used:
  assumes "pool_inv N p" "pool_alpha N p pos \<noteq> None"
  shows "\<exists>p'. pool_write N pos x p = Some p' \<and> pool_inv N p' \<and> pool_alpha N p' = (pool_alpha N p)(pos \<mapsto> x)"
proof -
  have ok: "pool_ok N p" using assms(1) by (simp add: pool_inv_def)
  have pos: "pos < pool_capacity N p" using assms(2) by (auto simp: pool_alpha_def split: if_splits)
  then have act: "active (slot_at N p pos)" using pool_alpha_active [OF ok pos] assms(2) by simp
  let ?s = "construct x (slot_at N p pos)"
  have s: "active ?s" "slot_obj ?s = Some x" using act by (simp_all add: construct_def active_def)
  have "pool_write N pos x p = Some (set_slot N pos ?s p)"
    using pool_chunkD [OF ok pos] act by (auto simp: pool_write_def on_chunk_def set_slot_def)
  moreover have "pool_inv N (set_slot N pos ?s p)"
    using assms(1) set_slot_ok [OF ok pos, of ?s] slot_at_set [OF ok pos] s act by (auto simp: pool_inv_def slot_ok_def)
  ultimately show ?thesis using pool_alpha_set [OF ok pos, of ?s] s(2) by simp
qed

lemma pool_dom: "pool_inv N p \<Longrightarrow> dom (pool_alpha N p) = {..<pool_capacity N p} - set (pool_empty_objs p)"
proof -
  assume inv: "pool_inv N p"
  then have ok: "pool_ok N p" by (simp add: pool_inv_def)
  show ?thesis
    using pool_alpha_active [OF ok] inv by (auto simp: pool_inv_def pool_alpha_def dom_def)
qed

lemma pool_size_card:
  assumes "pool_inv N p"
  shows "pool_size N p = card (dom (pool_alpha N p))"
proof -
  have "set (pool_empty_objs p) \<subseteq> {..<pool_capacity N p}" "distinct (pool_empty_objs p)"
    using assms by (auto simp: pool_inv_def)
  then show ?thesis
    by (simp add: pool_size_def pool_dom [OF assms] card_Diff_subset distinct_card)
qed

interpretation ps: slot_store "pool_inv N" "pool_alpha N" "pool_allocate N True" "pool_deallocate N" "pool_find N" "pool_write N" "pool_size N" for N
proof unfold_locales
  show "finite (dom (pool_alpha N p))" if "pool_inv N p" for p :: "'a pool"
    using pool_dom [OF that] by simp
qed (simp_all add: pool_alloc_fresh pool_dealloc_used pool_find_used pool_write_used pool_size_card)

section \<open>Properties of the pool\<close>

text \<open>
  C17. The pool is a slot store: an allocation succeeds, returns a slot that was not in use,
  and leaves all objects in their slots; releasing a slot in use frees exactly that slot; the
  size is the number of objects; the invariant is kept, so that the numbers on the stack are
  exactly the numbers of the free slots, each once.
\<close>

theorem pool_contract:
  assumes "pool_inv N p"
  shows "(\<exists>pos p'. pool_allocate N True x p = Some (Inr pos, p') \<and> pool_inv N p' \<and> pool_alpha N p pos = None \<and>
      pool_alpha N p' = (pool_alpha N p)(pos \<mapsto> x) \<and> pool_find N pos p' = Some (Some x) \<and>
      pool_size N p' = Suc (pool_size N p)) \<and>
    (\<forall>pos. pool_alpha N p pos \<noteq> None \<longrightarrow> (\<exists>p'. pool_deallocate N pos p = Some p' \<and> pool_inv N p' \<and>
      pool_alpha N p' = (pool_alpha N p)(pos := None) \<and> pool_find N pos p' = Some None \<and> Suc (pool_size N p') = pool_size N p))"
proof (intro conjI allI impI)
  obtain pos p' where a: "pool_allocate N True x p = Some (Inr pos, p')" "pool_inv N p'" "pool_alpha N p pos = None"
    "pool_alpha N p' = (pool_alpha N p)(pos \<mapsto> x)" using ps.alloc_fresh [OF assms] by blast
  then show "\<exists>pos p'. pool_allocate N True x p = Some (Inr pos, p') \<and> pool_inv N p' \<and> pool_alpha N p pos = None \<and>
      pool_alpha N p' = (pool_alpha N p)(pos \<mapsto> x) \<and> pool_find N pos p' = Some (Some x) \<and>
      pool_size N p' = Suc (pool_size N p)"
    using ps.used_alloc [OF assms a(1)] ps.lookup_used [OF a(2), of pos x] by auto
next
  fix pos assume u: "pool_alpha N p pos \<noteq> None"
  then obtain p' where d: "pool_deallocate N pos p = Some p'" "pool_inv N p'" "pool_alpha N p' = (pool_alpha N p)(pos := None)"
    using ps.dealloc_used [OF assms u] by blast
  have "pos < pool_capacity N p" using u by (auto simp: pool_alpha_def split: if_splits)
  moreover have "pool_capacity N p' = pool_capacity N p"
    using d(1) by (auto simp: pool_deallocate_def on_chunk_def pool_capacity_def bind_eq_Some_conv split: if_splits)
  ultimately show "\<exists>p'. pool_deallocate N pos p = Some p' \<and> pool_inv N p' \<and>
      pool_alpha N p' = (pool_alpha N p)(pos := None) \<and> pool_find N pos p' = Some None \<and> Suc (pool_size N p') = pool_size N p"
    using d ps.used_dealloc [OF assms u d(1)] pool_find_free [OF d(2), of pos] by auto
qed

theorem pool_contract_witness:
  "\<exists>pos p'. pool_allocate 2 True (7 :: nat) pool_new = Some (Inr pos, p') \<and> pool_find 2 pos p' = Some (Some 7) \<and> pool_size 2 p' = 1"
proof -
  have "pool_size 2 (pool_new :: nat pool) = 0" by (simp add: pool_size_def pool_capacity_def pool_new_def)
  with pool_contract [OF pool_inv_new, of 2 "7 :: nat"] show ?thesis by auto
qed

text \<open>
  When the storage for a new chunk cannot be had, the allocation ends with the exception
  and all objects stay, but the empty chunk has been added: the pool then counts its \<open>N\<close> slots
  as objects.
\<close>

lemma pool_allocate_failure:
  assumes "pool_inv N p" "pool_empty_objs p = []"
  shows "\<exists>p'. pool_allocate N False x p = Some (Inl (), p') \<and> pool_size N p' = pool_size N p + N \<and>
    (\<forall>pos y. pool_alpha N p pos = Some y \<longrightarrow> pool_find N pos p' = Some (Some y))"
proof -
  let ?p = "p\<lparr> pool_data := pool_data p @ [None] \<rparr>"
  have "pool_allocate N False x p = Some (Inl (), ?p)"
    using assms(2) by (simp add: pool_allocate_def pool_grow_def chunk_initialize_def Let_def)
  moreover have "pool_size N ?p = pool_size N p + N" using assms(2) by (simp add: pool_size_def pool_capacity_def)
  moreover have "pool_find N pos ?p = Some (Some y)" if "pool_alpha N p pos = Some y" for pos y
  proof -
    have "0 < N" using assms(1) by (simp add: pool_inv_def pool_ok_def)
    moreover have "pos < pool_capacity N p" using that by (auto simp: pool_alpha_def split: if_splits)
    ultimately have "pos div N < length (pool_data p)" using in_capacity by blast
    then show ?thesis using pool_find_used [OF assms(1) that] by (simp add: pool_find_def nth_append)
  qed
  ultimately show ?thesis by blast
qed

end
