(* ===== verification/Sdk_Hash_Map.thy ===== *)
theory Sdk_Hash_Map
  imports Sdk_Pool "HOL-Library.AList"
begin

text \<open>
  The hash map with linear storage: \<^verbatim>\<open>tools/linear_hash_map.hpp\<close>. The values live in a pool, an
  unordered map of the standard library takes keys to positions in it; the model of that map
  is an association list with distinct keys. The pool is used through the contract of slot
  stores only. The map is proved to be a finite map, and the assertion that opens every
  operation, that pool and key map have the same size, never to fail.
\<close>

section \<open>Operations\<close>

record ('k, 'v) hash_map =
  hm_data :: "'v pool"
  hm_keys :: "('k \<times> nat) list"

definition hm_new :: "('k, 'v) hash_map" where
  "hm_new = \<lparr> hm_data = pool_new, hm_keys = [] \<rparr>"

text \<open>\<^verbatim>\<open>SDK_CP_ASSERT(_data.size() == _keys.size())\<close>\<close>

definition hm_assert :: "nat \<Rightarrow> ('k, 'v) hash_map \<Rightarrow> bool" where
  "hm_assert N h \<longleftrightarrow> pool_size N (hm_data h) = length (hm_keys h)"

text \<open>
  \<^verbatim>\<open>operator[]\<close>: the position of the object the reference denotes; a new object is constructed by
  default, \<open>dflt\<close>. The exception of the pool is \<^term>\<open>Inl ()\<close>, a failed assertion \<^term>\<open>None\<close>.
\<close>

definition hm_index :: "nat \<Rightarrow> bool \<Rightarrow> 'v \<Rightarrow> 'k \<Rightarrow> ('k, 'v) hash_map \<Rightarrow> ((unit + nat) \<times> ('k, 'v) hash_map) option" where
  "hm_index N storage dflt key h =
     (if \<not> hm_assert N h then None
      else do {
        (r, h) \<leftarrow> (case map_of (hm_keys h) key of
            None \<Rightarrow> do {
              (r, d) \<leftarrow> pool_allocate N storage dflt (hm_data h);
              Some (r, case r of Inl _ \<Rightarrow> h\<lparr> hm_data := d \<rparr>
                | Inr position \<Rightarrow> h\<lparr> hm_data := d, hm_keys := AList.update key position (hm_keys h) \<rparr>) }
          | Some position \<Rightarrow> Some (Inr position, h));
        (case r of Inl _ \<Rightarrow> Some (r, h)
         | Inr position \<Rightarrow> do {
             ptr \<leftarrow> pool_find N position (hm_data h);
             if ptr \<noteq> None then Some (r, h) else None }) })"

definition hm_erase :: "nat \<Rightarrow> 'k \<Rightarrow> ('k, 'v) hash_map \<Rightarrow> ('k, 'v) hash_map option" where
  "hm_erase N key h =
     (if \<not> hm_assert N h then None
      else case map_of (hm_keys h) key of
        None \<Rightarrow> Some h
      | Some position \<Rightarrow> do {
          d \<leftarrow> pool_deallocate N position (hm_data h);
          Some (h\<lparr> hm_data := d, hm_keys := AList.delete key (hm_keys h) \<rparr>) })"

definition hm_find :: "nat \<Rightarrow> 'k \<Rightarrow> ('k, 'v) hash_map \<Rightarrow> 'v option option" where
  "hm_find N key h =
     (if \<not> hm_assert N h then None
      else case map_of (hm_keys h) key of
        None \<Rightarrow> Some None
      | Some position \<Rightarrow> do {
          ptr \<leftarrow> pool_find N position (hm_data h);
          if ptr \<noteq> None then Some ptr else None })"

definition hm_swap :: "nat \<Rightarrow> ('k, 'v) hash_map \<Rightarrow> ('k, 'v) hash_map \<Rightarrow> (('k, 'v) hash_map \<times> ('k, 'v) hash_map) option" where
  "hm_swap N h c = (if hm_assert N h \<and> hm_assert N c
     then case pool_swap (hm_data h) (hm_data c) of (d, e) \<Rightarrow>
       Some (h\<lparr> hm_data := d, hm_keys := hm_keys c \<rparr>, c\<lparr> hm_data := e, hm_keys := hm_keys h \<rparr>) else None)"

definition hm_size :: "nat \<Rightarrow> ('k, 'v) hash_map \<Rightarrow> nat option" where
  "hm_size N h = (if hm_assert N h then Some (pool_size N (hm_data h)) else None)"

definition hm_empty :: "nat \<Rightarrow> ('k, 'v) hash_map \<Rightarrow> bool option" where
  "hm_empty N h = (if hm_assert N h then Some (pool_size N (hm_data h) = 0) else None)"

definition hm_foreach :: "nat \<Rightarrow> ('v \<Rightarrow> bool) \<Rightarrow> ('k, 'v) hash_map \<Rightarrow> 'v list option" where
  "hm_foreach N f h = (if hm_assert N h then pool_foreach f (hm_data h) else None)"

text \<open>The idiom \<^verbatim>\<open>map[key] = value\<close>: the assignment through the reference.\<close>

definition hm_put :: "nat \<Rightarrow> 'v \<Rightarrow> 'k \<Rightarrow> 'v \<Rightarrow> ('k, 'v) hash_map \<Rightarrow> ('k, 'v) hash_map option" where
  "hm_put N dflt key x h = do {
     (r, h) \<leftarrow> hm_index N True dflt key h;
     (case r of Inl _ \<Rightarrow> None
      | Inr position \<Rightarrow> do { d \<leftarrow> pool_write N position x (hm_data h); Some (h\<lparr> hm_data := d \<rparr>) }) }"

section \<open>The contract of a finite map\<close>

text \<open>A program of assignments and erasures, run by two operations and on a map.\<close>

fun run_ops :: "('k \<Rightarrow> 'v \<Rightarrow> 's \<Rightarrow> 's option) \<Rightarrow> ('k \<Rightarrow> 's \<Rightarrow> 's option) \<Rightarrow> ('k \<times> 'v option) list \<Rightarrow> 's \<Rightarrow> 's option" where
  "run_ops put del [] s = Some s"
| "run_ops put del ((k, x) # ops) s = do { s' \<leftarrow> (case x of Some v \<Rightarrow> put k v s | None \<Rightarrow> del k s); run_ops put del ops s' }"

definition map_ops :: "('k \<times> 'v option) list \<Rightarrow> ('k \<Rightarrow> 'v option) \<Rightarrow> 'k \<Rightarrow> 'v option" where
  "map_ops ops m = foldl (\<lambda>m (k, x). m(k := x)) m ops"

locale finite_map_store =
  fixes inv :: "'s \<Rightarrow> bool" and alpha :: "'s \<Rightarrow> 'k \<Rightarrow> 'v option"
    and put :: "'k \<Rightarrow> 'v \<Rightarrow> 's \<Rightarrow> 's option"
    and del :: "'k \<Rightarrow> 's \<Rightarrow> 's option"
    and get :: "'k \<Rightarrow> 's \<Rightarrow> 'v option option"
    and empty :: 's
  assumes inv_empty: "inv empty" and alpha_empty: "alpha empty = (\<lambda>k. None)"
    and put_ok: "inv s \<Longrightarrow> \<exists>s'. put k x s = Some s' \<and> inv s' \<and> alpha s' = (alpha s)(k \<mapsto> x)"
    and del_ok: "inv s \<Longrightarrow> \<exists>s'. del k s = Some s' \<and> inv s' \<and> alpha s' = (alpha s)(k := None)"
    and get_ok: "inv s \<Longrightarrow> get k s = Some (alpha s k)"
begin

lemma run_ok:
  assumes "inv s"
  shows "\<exists>s'. run_ops put del ops s = Some s' \<and> inv s' \<and> alpha s' = map_ops ops (alpha s)"
  using assms
proof (induction ops arbitrary: s)
  case (Cons op ops)
  obtain k x where op: "op = (k, x)" by (cases op)
  have "\<exists>s1. (case x of Some v \<Rightarrow> put k v s | None \<Rightarrow> del k s) = Some s1 \<and> inv s1 \<and> alpha s1 = (alpha s)(k := x)"
    using put_ok [OF Cons.prems, of k] del_ok [OF Cons.prems, of k] by (cases x) simp_all
  then obtain s1 where s1: "(case x of Some v \<Rightarrow> put k v s | None \<Rightarrow> del k s) = Some s1" "inv s1" "alpha s1 = (alpha s)(k := x)"
    by blast
  then show ?case
    using Cons.IH [OF s1(2)] by (simp only: op map_ops_def run_ops.simps foldl.simps prod.case Option.bind.simps)
qed (simp add: map_ops_def)

lemma run_get:
  "\<exists>s'. run_ops put del ops empty = Some s' \<and> (\<forall>k. get k s' = Some (map_ops ops (\<lambda>k. None) k))"
proof -
  obtain s' where "run_ops put del ops empty = Some s'" "inv s'" "alpha s' = map_ops ops (alpha empty)"
    using run_ok [OF inv_empty] by blast
  then show ?thesis using get_ok by (simp add: alpha_empty)
qed

end

section \<open>The hash map is a finite map\<close>

definition hm_inv :: "nat \<Rightarrow> ('k, 'v) hash_map \<Rightarrow> bool" where
  "hm_inv N h \<longleftrightarrow> pool_inv N (hm_data h) \<and> distinct (map fst (hm_keys h)) \<and> distinct (map snd (hm_keys h)) \<and>
     set (map snd (hm_keys h)) = dom (pool_alpha N (hm_data h))"

definition hm_alpha :: "nat \<Rightarrow> ('k, 'v) hash_map \<Rightarrow> 'k \<Rightarrow> 'v option" where
  "hm_alpha N h key = Option.bind (map_of (hm_keys h) key) (pool_alpha N (hm_data h))"

lemma hm_assert_ok: "hm_inv N h \<Longrightarrow> hm_assert N h"
  using ps.used_card [of N "hm_data h"] distinct_card [of "map snd (hm_keys h)"]
  by (simp add: hm_inv_def hm_assert_def)

lemma key_position:
  assumes "hm_inv N h" "map_of (hm_keys h) key = Some pos"
  shows "\<exists>x. pool_alpha N (hm_data h) pos = Some x"
proof -
  have "pos \<in> set (map snd (hm_keys h))" using map_of_SomeD [OF assms(2)] by force
  then show ?thesis using assms(1) by (auto simp: hm_inv_def)
qed

lemma key_inj:
  assumes "hm_inv N h" "map_of (hm_keys h) k = Some pos" "map_of (hm_keys h) k' = Some pos"
  shows "k = k'"
proof -
  have "inj_on snd (set (hm_keys h))" using assms(1) by (simp add: hm_inv_def distinct_map)
  from inj_onD [OF this _ map_of_SomeD [OF assms(2)] map_of_SomeD [OF assms(3)]] have "(k, pos) = (k', pos)" by simp
  then show ?thesis by simp
qed

lemma hm_find_ok:
  assumes "hm_inv N h"
  shows "hm_find N key h = Some (hm_alpha N h key)"
proof (cases "map_of (hm_keys h) key")
  case None
  then show ?thesis using hm_assert_ok [OF assms] by (simp add: hm_find_def hm_alpha_def)
next
  case (Some pos)
  then obtain x where x: "pool_alpha N (hm_data h) pos = Some x" using key_position [OF assms] by blast
  have "pool_find N pos (hm_data h) = Some (Some x)" using ps.lookup_used [OF _ x] assms by (simp add: hm_inv_def)
  then show ?thesis using Some x hm_assert_ok [OF assms] by (simp add: hm_find_def hm_alpha_def)
qed

lemma update_new: "key \<notin> fst ` set ps \<Longrightarrow> AList.update key x ps = ps @ [(key, x)]"
  by (induction ps) auto

lemma hm_index_ok:
  assumes "hm_inv N h"
  shows "\<exists>pos h'. hm_index N True dflt key h = Some (Inr pos, h') \<and> hm_inv N h' \<and> map_of (hm_keys h') key = Some pos \<and>
    hm_alpha N h' = (hm_alpha N h)(key \<mapsto> (case hm_alpha N h key of None \<Rightarrow> dflt | Some x \<Rightarrow> x))"
proof (cases "map_of (hm_keys h) key")
  case (Some pos)
  then obtain x where x: "pool_alpha N (hm_data h) pos = Some x" using key_position [OF assms] by blast
  have "pool_find N pos (hm_data h) = Some (Some x)" using ps.lookup_used [OF _ x] assms by (simp add: hm_inv_def)
  moreover have "hm_alpha N h key = Some x" using Some x by (simp add: hm_alpha_def)
  ultimately show ?thesis
    using Some assms hm_assert_ok [OF assms] by (simp add: hm_index_def fun_upd_idem)
next
  case None
  let ?d = "hm_data h"
  have inv: "pool_inv N ?d" using assms by (simp add: hm_inv_def)
  obtain pos d where a: "pool_allocate N True dflt ?d = Some (Inr pos, d)" "pool_inv N d" "pool_alpha N ?d pos = None"
    "pool_alpha N d = (pool_alpha N ?d)(pos \<mapsto> dflt)" using ps.alloc_fresh [OF inv] by blast
  let ?h = "h\<lparr> hm_data := d, hm_keys := AList.update key pos (hm_keys h) \<rparr>"
  have keys: "AList.update key pos (hm_keys h) = hm_keys h @ [(key, pos)]"
    using None by (simp add: update_new map_of_eq_None_iff)
  have new: "pos \<notin> set (map snd (hm_keys h))" using a(3) assms by (auto simp: hm_inv_def)
  have "key \<notin> fst ` set (hm_keys h)" using None by (simp add: map_of_eq_None_iff)
  then have "hm_inv N ?h" using assms a new by (auto simp: hm_inv_def keys)
  moreover have "pool_find N pos d = Some (Some dflt)" using ps.lookup_used [OF a(2)] a(4) by simp
  moreover have "hm_alpha N ?h = (hm_alpha N h)(key \<mapsto> dflt)"
  proof
    fix k
    have "map_of (hm_keys h) k = Some q \<Longrightarrow> q \<noteq> pos" for q using new map_of_SomeD [of "hm_keys h" k q] by force
    then show "hm_alpha N ?h k = ((hm_alpha N h)(key \<mapsto> dflt)) k"
      using None a(4) by (cases "map_of (hm_keys h) k") (auto simp: hm_alpha_def update_conv')
  qed
  moreover have "hm_alpha N h key = None" using None by (simp add: hm_alpha_def)
  ultimately show ?thesis using None a(1) hm_assert_ok [OF assms] by (simp add: hm_index_def update_conv')
qed

lemma hm_put_ok:
  assumes "hm_inv N h"
  shows "\<exists>h'. hm_put N dflt key x h = Some h' \<and> hm_inv N h' \<and> hm_alpha N h' = (hm_alpha N h)(key \<mapsto> x)"
proof -
  obtain pos h1 where h1: "hm_index N True dflt key h = Some (Inr pos, h1)" "hm_inv N h1" "map_of (hm_keys h1) key = Some pos"
    "hm_alpha N h1 = (hm_alpha N h)(key \<mapsto> (case hm_alpha N h key of None \<Rightarrow> dflt | Some x \<Rightarrow> x))"
    using hm_index_ok [OF assms] by blast
  have inv: "pool_inv N (hm_data h1)" using h1(2) by (simp add: hm_inv_def)
  obtain d where d: "pool_write N pos x (hm_data h1) = Some d" "pool_inv N d" "pool_alpha N d = (pool_alpha N (hm_data h1))(pos \<mapsto> x)"
    using ps.assign_used [OF inv] key_position [OF h1(2,3)] by blast
  let ?h = "h1\<lparr> hm_data := d \<rparr>"
  have dom: "dom (pool_alpha N d) = dom (pool_alpha N (hm_data h1))" using d(3) key_position [OF h1(2,3)] by auto
  have "hm_inv N ?h" using h1(2) d(2) dom by (simp add: hm_inv_def)
  moreover have "hm_alpha N ?h = (hm_alpha N h)(key \<mapsto> x)"
  proof
    fix k
    have "hm_alpha N ?h k = ((hm_alpha N h1)(key \<mapsto> x)) k"
      using h1(3) d(3) key_inj [OF h1(2), of k pos key] by (cases "map_of (hm_keys h1) k") (auto simp: hm_alpha_def)
    then show "hm_alpha N ?h k = ((hm_alpha N h)(key \<mapsto> x)) k" using h1(4) by simp
  qed
  ultimately show ?thesis using h1(1) d(1) by (simp add: hm_put_def)
qed

lemma hm_erase_ok:
  assumes "hm_inv N h"
  shows "\<exists>h'. hm_erase N key h = Some h' \<and> hm_inv N h' \<and> hm_alpha N h' = (hm_alpha N h)(key := None)"
proof (cases "map_of (hm_keys h) key")
  case None
  then show ?thesis using assms hm_assert_ok [OF assms] by (simp add: hm_erase_def hm_alpha_def fun_upd_idem)
next
  case (Some pos)
  have inv: "pool_inv N (hm_data h)" using assms by (simp add: hm_inv_def)
  obtain d where d: "pool_deallocate N pos (hm_data h) = Some d" "pool_inv N d" "pool_alpha N d = (pool_alpha N (hm_data h))(pos := None)"
    using ps.dealloc_used [OF inv] key_position [OF assms Some] by blast
  let ?h = "h\<lparr> hm_data := d, hm_keys := AList.delete key (hm_keys h) \<rparr>"
  have dist: "distinct (map fst (hm_keys h))" "inj_on snd (set (hm_keys h))" "distinct (map snd (hm_keys h))"
    using assms by (simp_all add: hm_inv_def distinct_map)
  have set: "set (AList.delete key (hm_keys h)) = set (hm_keys h) - {(key, pos)}"
    using map_of_SomeD [OF Some] dist(1) Some by (auto simp: AList.delete_eq dest: eq_key_imp_eq_value)
  have "snd ` (set (hm_keys h) - {(key, pos)}) = snd ` set (hm_keys h) - {pos}"
    using inj_on_image_set_diff [OF dist(2), of "set (hm_keys h)" "{(key, pos)}"] map_of_SomeD [OF Some] by simp
  then have "set (map snd (AList.delete key (hm_keys h))) = dom (pool_alpha N d)"
    using assms d(3) by (auto simp: set hm_inv_def)
  moreover have "distinct (map snd (AList.delete key (hm_keys h)))"
    using dist(3) by (simp add: AList.delete_eq distinct_map_filter)
  moreover have "distinct (map fst (AList.delete key (hm_keys h)))" using dist(1) by (rule distinct_delete)
  ultimately have "hm_inv N ?h" using d(2) by (simp add: hm_inv_def)
  moreover have "hm_alpha N ?h = (hm_alpha N h)(key := None)"
  proof
    fix k
    show "hm_alpha N ?h k = ((hm_alpha N h)(key := None)) k"
      using d(3) key_inj [OF assms, of k pos key] Some
      by (cases "map_of (hm_keys h) k") (auto simp: hm_alpha_def delete_conv')
  qed
  ultimately show ?thesis using Some d(1) hm_assert_ok [OF assms] by (simp add: hm_erase_def)
qed

lemma hm_new_ok: "0 < N \<Longrightarrow> hm_inv N hm_new" "hm_alpha N hm_new = (\<lambda>k. None)"
  by (simp_all add: hm_inv_def hm_new_def hm_alpha_def fun_eq_iff pool_inv_new pool_dom)
    (simp add: pool_capacity_def pool_new_def)

interpretation hm: finite_map_store "hm_inv (Suc n)" "hm_alpha (Suc n)" "hm_put (Suc n) dflt" "hm_erase (Suc n)" "hm_find (Suc n)" hm_new for n dflt
  by unfold_locales (simp_all add: hm_new_ok hm_put_ok hm_erase_ok hm_find_ok)

lemma hm_dom:
  assumes "hm_inv N h"
  shows "dom (hm_alpha N h) = fst ` set (hm_keys h)"
proof -
  have "hm_alpha N h k \<noteq> None \<longleftrightarrow> map_of (hm_keys h) k \<noteq> None" for k
    using key_position [OF assms, of k] by (cases "map_of (hm_keys h) k") (auto simp: hm_alpha_def)
  then show ?thesis by (auto simp: dom_def map_of_eq_None_iff)
qed

lemma hm_size_ok:
  assumes "hm_inv N h"
  shows "hm_size N h = Some (card (dom (hm_alpha N h)))"
proof -
  have "card (fst ` set (hm_keys h)) = length (hm_keys h)"
    using assms distinct_card [of "map fst (hm_keys h)"] by (simp add: hm_inv_def)
  then show ?thesis using hm_assert_ok [OF assms] hm_dom [OF assms] by (simp add: hm_size_def hm_assert_def)
qed

section \<open>The property of the hash map\<close>

text \<open>
  C18. The hash map is a finite map: after any sequence of assignments and erasures, with any
  block size, no assertion has failed, every key has the value last assigned to it unless it
  was erased since, and the size is the number of such keys.
\<close>

theorem hash_map_is_map:
  assumes "0 < N"
  shows "\<exists>h. run_ops (hm_put N dflt) (hm_erase N) ops hm_new = Some h \<and>
    (\<forall>k. hm_find N k h = Some (map_ops ops (\<lambda>k. None) k)) \<and> hm_size N h = Some (card (dom (map_ops ops (\<lambda>k. None))))"
proof -
  obtain n where N: "N = Suc n" using assms by (cases N) auto
  obtain h where "run_ops (hm_put N dflt) (hm_erase N) ops hm_new = Some h" "hm_inv N h"
    "hm_alpha N h = map_ops ops (\<lambda>k. None)"
    using hm.run_ok [OF hm.inv_empty, where n = n and dflt = dflt and ops = ops] unfolding N hm_new_ok(2) by blast
  then show ?thesis using hm.get_ok [of n h] hm_size_ok [of N h] by (auto simp: N)
qed

theorem hash_map_is_map_witness:
  "\<exists>h. run_ops (hm_put 1 0) (hm_erase 1) [(''a'', Some 1), (''b'', Some (2 :: nat)), (''a'', None)] hm_new = Some h \<and>
    hm_find 1 ''a'' h = Some None \<and> hm_find 1 ''b'' h = Some (Some 2) \<and> hm_size 1 h = Some 1"
proof -
  let ?ops = "[(''a'', Some 1), (''b'', Some (2 :: nat)), (''a'', None)]"
  have "map_ops ?ops (\<lambda>k. None) = [''b'' \<mapsto> 2]" by (auto simp: map_ops_def)
  then show ?thesis using hash_map_is_map [of 1 0 ?ops] by auto
qed

end
