(* ===== verification/Sdk_Ring.thy ===== *)
theory Sdk_Ring
  imports Sdk_Prelude
begin

text \<open>
  The ring buffer: \<^verbatim>\<open>tools/ring_buffer.hpp\<close> without the debug guards, and the template
  \<^verbatim>\<open>bfs_pow2\<close> of \<^verbatim>\<open>sdk_defines.hpp\<close>. Read and write index are counters of \<open>w\<close> bits that wrap
  around; a block in the buffer is a prefix with its size and state, followed by data. The
  memory of the model holds prefixes: at an offset there is a prefix, or \<^term>\<open>None\<close> when its bytes
  are not those of a prefix (data, or another prefix written over it). An access outside the
  buffer and a prefix read where there is none are undefined, \<^term>\<open>None\<close>. A call that would spin
  until another thread makes progress yields \<open>Wait\<close>.
\<close>

section \<open>Configuration\<close>

fun bfs_pow2 :: "nat \<Rightarrow> nat" where
  "bfs_pow2 v = (if v = 0 \<or> v = 1 then 0 else 1 + bfs_pow2 (v div 2))"

declare bfs_pow2.simps [simp del]

record ring_cfg =
  rb_size :: nat
  rb_alignment :: nat
  rb_width :: nat

definition k_size_bound :: "ring_cfg \<Rightarrow> nat" where "k_size_bound c = bfs_pow2 (rb_size c)"
definition k_slot_bound :: "ring_cfg \<Rightarrow> nat" where "k_slot_bound c = bfs_pow2 (rb_alignment c)"
definition k_slot_alignment_mask :: "ring_cfg \<Rightarrow> nat" where "k_slot_alignment_mask c = rb_alignment c - 1"

text \<open>The prefix: a size of four and a state of two bytes, padded to the alignment.\<close>

datatype blk_state = busy | fake | commited | skipped

record prefix =
  pr_size :: nat
  pr_state :: blk_state

definition k_without_padding_size :: nat where "k_without_padding_size = 2 + 4"

definition k_padding_size :: "ring_cfg \<Rightarrow> nat" where
  "k_padding_size c = (drop_bit (k_slot_bound c) k_without_padding_size +
     (if k_without_padding_size AND k_slot_alignment_mask c \<noteq> 0 then 1 else 0)) * rb_alignment c"

definition sizeof_prefix :: "ring_cfg \<Rightarrow> nat" where
  "sizeof_prefix c = (k_padding_size c + 3) div 4 * 4"

definition k_overhead :: "ring_cfg \<Rightarrow> nat" where "k_overhead c = sizeof_prefix c"

definition k_invalid_handle :: nat where "k_invalid_handle = 2 ^ 32 - 1"

section \<open>State\<close>

record ring_buffer =
  rb_mem :: "nat \<Rightarrow> prefix option"
  ix_read :: nat
  ix_write :: nat

definition ring_new :: ring_buffer where
  "ring_new = \<lparr> rb_mem = (\<lambda>p. None), ix_read = 0, ix_write = 0 \<rparr>"

text \<open>Writing a prefix, and handing out bytes to be written by the user.\<close>

definition put_prefix :: "ring_cfg \<Rightarrow> nat \<Rightarrow> prefix \<Rightarrow> (nat \<Rightarrow> prefix option) \<Rightarrow> (nat \<Rightarrow> prefix option) option" where
  "put_prefix c p pr m = (if p + sizeof_prefix c \<le> rb_size c
     then Some (\<lambda>q. if q = p then Some pr else if q < p + sizeof_prefix c \<and> p < q + sizeof_prefix c then None else m q)
     else None)"

definition data_bytes :: "ring_cfg \<Rightarrow> nat \<Rightarrow> nat \<Rightarrow> (nat \<Rightarrow> prefix option) \<Rightarrow> nat \<Rightarrow> prefix option" where
  "data_bytes c p n m = (\<lambda>q. if q < p + n \<and> p < q + sizeof_prefix c then None else m q)"

section \<open>Operations\<close>

datatype alloc_result = Null | Wait | Block nat nat

text \<open>The last part of \<^verbatim>\<open>allocate\<close>, behind the treatment of the border of the buffer.\<close>

definition rb_place :: "ring_cfg \<Rightarrow> bool \<Rightarrow> nat \<Rightarrow> nat \<Rightarrow> nat \<Rightarrow> nat \<Rightarrow> nat \<Rightarrow> ring_buffer \<Rightarrow> (alloc_result \<times> ring_buffer) option" where
  "rb_place c no_wait data_size commit_size write_beg_ix write_end_ix bufferPos r =
     (if usub (rb_width c) write_end_ix (ix_read r) > rb_size c then Some (if no_wait then Null else Wait, r)
      else do {
        m \<leftarrow> put_prefix c bufferPos \<lparr> pr_size = data_size, pr_state = busy \<rparr> (rb_mem r);
        let ptr_data = bufferPos + sizeof_prefix c;
        Some (Block (uw 32 write_beg_ix) ptr_data,
          r\<lparr> rb_mem := data_bytes c ptr_data data_size m, ix_write := uw (rb_width c) (ix_write r + commit_size) \<rparr>) })"

text \<open>\<^verbatim>\<open>allocate\<close>: a handle and the offset of the data.\<close>

definition rb_allocate :: "ring_cfg \<Rightarrow> bool \<Rightarrow> nat \<Rightarrow> ring_buffer \<Rightarrow> (alloc_result \<times> ring_buffer) option" where
  "rb_allocate c no_wait sz r =
     (if sz = 0 \<or> sz > drop_bit 2 (rb_size c) then Some (Null, r)
      else
        let data_size = sz + (k_slot_alignment_mask c AND (rb_alignment c - (sz AND k_slot_alignment_mask c)));
            commit_size = data_size + k_overhead c;
            write_beg_ix = ix_write r;
            write_end_ix = uw (rb_width c) (write_beg_ix + commit_size);
            end_block = usub (rb_width c) (drop_bit (k_size_bound c) write_end_ix)
              (if write_end_ix AND (rb_size c - 1) = 0 then 1 else 0);
            beg_block = drop_bit (k_size_bound c) write_beg_ix;
            bufferPos = write_beg_ix AND (rb_size c - 1) in
        if end_block \<noteq> beg_block then
          let border = uw (rb_width c) (write_beg_ix + sizeof_prefix c) in
          if usub (rb_width c) border (ix_read r) > rb_size c then Some (if no_wait then Null else Wait, r)
          else let remains = rb_size c - bufferPos in do {
            m \<leftarrow> put_prefix c bufferPos \<lparr> pr_size = remains, pr_state = fake \<rparr> (rb_mem r);
            rb_place c no_wait data_size (commit_size + remains) (uw (rb_width c) (write_beg_ix + remains))
              (uw (rb_width c) (write_end_ix + remains)) 0 (r\<lparr> rb_mem := m \<rparr>) }
        else rb_place c no_wait data_size commit_size write_beg_ix write_end_ix bufferPos r)"

definition update_block_state :: "ring_cfg \<Rightarrow> nat \<Rightarrow> blk_state \<Rightarrow> ring_buffer \<Rightarrow> ring_buffer option" where
  "update_block_state c handle st r =
     (if handle \<noteq> k_invalid_handle then
        let p = handle AND (rb_size c - 1) in do {
          pr \<leftarrow> rb_mem r p;
          Some (r\<lparr> rb_mem := (rb_mem r)(p \<mapsto> pr\<lparr> pr_state := st \<rparr>) \<rparr>) }
      else Some r)"

definition rb_commit :: "ring_cfg \<Rightarrow> nat \<Rightarrow> ring_buffer \<Rightarrow> ring_buffer option" where
  "rb_commit c handle = update_block_state c handle commited"

definition rb_skip :: "ring_cfg \<Rightarrow> nat \<Rightarrow> ring_buffer \<Rightarrow> ring_buffer option" where
  "rb_skip c handle = update_block_state c handle skipped"

text \<open>\<^verbatim>\<open>_get_first_block\<close>: the index behind the block, with offset and size of the data of a committed block.\<close>

datatype first_block = Busy | Pass nat | Found nat nat nat

definition get_first_block :: "ring_cfg \<Rightarrow> nat \<Rightarrow> ring_buffer \<Rightarrow> first_block option" where
  "get_first_block c readIx r = do {
     let p = readIx AND (rb_size c - 1);
     pr \<leftarrow> rb_mem r p;
     Some (if pr_state pr = fake then Pass (uw (rb_width c) (readIx + pr_size pr))
       else if pr_state pr = busy then Busy
       else let readIx = uw (rb_width c) (readIx + (k_overhead c + pr_size pr)) in
         if pr_state pr = commited then Found (p + sizeof_prefix c) (pr_size pr) readIx else Pass readIx) }"

text \<open>
  The loop of \<^verbatim>\<open>peek\<close> and \<^verbatim>\<open>free\<close> over blocks that are not committed: it ends at the write index, at
  a block to wait for, or at a committed block. A run that does not end is \<^term>\<open>None\<close>.
\<close>

datatype scan_result = At_end nat | Waiting | At nat nat nat

partial_function (option) rb_scan :: "ring_cfg \<Rightarrow> nat \<Rightarrow> ring_buffer \<Rightarrow> scan_result option" where
  "rb_scan c readIx r =
     (if ix_write r = readIx then Some (At_end readIx)
      else Option.bind (get_first_block c readIx r) (\<lambda>b. case b of
          Busy \<Rightarrow> Some Waiting
        | Pass i \<Rightarrow> rb_scan c i r
        | Found p n i \<Rightarrow> Some (At p n i)))"

datatype peek_result = Peek_Null | Peek_Wait | Peek nat nat

definition rb_peek :: "ring_cfg \<Rightarrow> ring_buffer \<Rightarrow> (peek_result \<times> ring_buffer) option" where
  "rb_peek c r = do {
     s \<leftarrow> rb_scan c (ix_read r) r;
     (case s of
        At_end readIx \<Rightarrow>
          let difference = usub (rb_width c) readIx (ix_read r) in
          Some (Peek_Null, if difference > 0 then r\<lparr> ix_read := uw (rb_width c) (ix_read r + difference) \<rparr> else r)
      | Waiting \<Rightarrow> Some (Peek_Wait, r)
      | At p n i \<Rightarrow> Some (Peek p n, r)) }"

text \<open>\<^verbatim>\<open>free\<close> waits at the write index: \<^term>\<open>Some None\<close> is a call that has not returned.\<close>

definition rb_free :: "ring_cfg \<Rightarrow> ring_buffer \<Rightarrow> ring_buffer option option" where
  "rb_free c r = do {
     s \<leftarrow> rb_scan c (ix_read r) r;
     Some (case s of
        At p n readIx \<Rightarrow> Some (r\<lparr> ix_read := uw (rb_width c) (ix_read r + usub (rb_width c) readIx (ix_read r)) \<rparr>)
      | _ \<Rightarrow> None) }"

section \<open>Buffers of a legal configuration\<close>

text \<open>
  Sizes are powers of two; the alignment is at least 8, so that a prefix fits in front of the
  border, and a quarter of the buffer at most; the buffer is at most one gigabyte, so that
  differences of indices of 32 bits do not wrap.
\<close>

definition rb_ok :: "ring_cfg \<Rightarrow> bool" where
  "rb_ok c \<longleftrightarrow> (\<exists>k a. rb_size c = 2 ^ k \<and> rb_alignment c = 2 ^ a \<and> 3 \<le> a \<and> a \<le> 7 \<and> a + 2 \<le> k \<and> k \<le> 30) \<and> 32 \<le> rb_width c"

lemma bfs_pow2_power: "bfs_pow2 (2 ^ k) = k"
  by (induction k) (simp_all add: bfs_pow2.simps [of "Suc 0"] bfs_pow2.simps [of "2 * _"])

lemma and_pred_power: "n AND (2 ^ k - 1) = n mod 2 ^ k" for n :: nat
  by (simp only: mask_eq_exp_minus_1 [symmetric] take_bit_eq_mask [symmetric] take_bit_eq_mod)

lemma rb_facts:
  assumes "rb_ok c"
  shows "n AND (rb_size c - 1) = n mod rb_size c" "drop_bit (k_size_bound c) n = n div rb_size c"
    "sizeof_prefix c = rb_alignment c" "k_overhead c = rb_alignment c"
    "rb_size c dvd 2 ^ rb_width c" "rb_alignment c dvd rb_size c" "4 * rb_alignment c \<le> rb_size c" "8 \<le> rb_alignment c"
    "4 * rb_size c \<le> 2 ^ rb_width c" "rb_size c dvd 2 ^ 32" "rb_alignment c dvd 2 ^ 32"
    "n AND k_slot_alignment_mask c = n mod rb_alignment c"
proof -
  obtain k a where c: "rb_size c = 2 ^ k" "rb_alignment c = 2 ^ a" "3 \<le> a" "a \<le> 7" "a + 2 \<le> k" "k \<le> 30" "32 \<le> rb_width c"
    using assms by (auto simp: rb_ok_def)
  show "n AND (rb_size c - 1) = n mod rb_size c" by (simp only: c(1) and_pred_power)
  show "n AND k_slot_alignment_mask c = n mod rb_alignment c" by (simp only: k_slot_alignment_mask_def c(2) and_pred_power)
  show "drop_bit (k_size_bound c) n = n div rb_size c" by (simp add: k_size_bound_def c(1) bfs_pow2_power drop_bit_eq_div)
  have "a \<in> set [3, 4, 5, 6, 7]" using c(3,4) by auto
  then have "k_padding_size c = 2 ^ a \<and> (2 ^ a + 3) div 4 * 4 = (2 :: nat) ^ a \<and> (8 :: nat) \<le> 2 ^ a"
    unfolding k_padding_size_def k_slot_bound_def k_without_padding_size_def k_slot_alignment_mask_def c(2) bfs_pow2_power and_pred_power
    by (auto simp: drop_bit_eq_div)
  then show "sizeof_prefix c = rb_alignment c" "k_overhead c = rb_alignment c" "8 \<le> rb_alignment c"
    by (simp_all add: sizeof_prefix_def k_overhead_def c(2))
  show "rb_size c dvd 2 ^ rb_width c" using c by (simp add: le_imp_power_dvd)
  show "rb_size c dvd 2 ^ 32" using c le_imp_power_dvd [of k 32 "2 :: nat"] by simp
  show "rb_alignment c dvd rb_size c" using c by (simp add: le_imp_power_dvd)
  show "rb_alignment c dvd 2 ^ 32" using c le_imp_power_dvd [of a 32 "2 :: nat"] by simp
  have "(2 :: nat) ^ (a + 2) \<le> 2 ^ k" "(2 :: nat) ^ (k + 2) \<le> 2 ^ rb_width c" using c by (intro power_increasing; simp)+
  then show "4 * rb_alignment c \<le> rb_size c" "4 * rb_size c \<le> 2 ^ rb_width c" by (simp_all add: c(1,2) power_add)
qed

section \<open>The blocks between the indices\<close>

definition extent :: "ring_cfg \<Rightarrow> prefix \<Rightarrow> nat" where
  "extent c pr = (if pr_state pr = fake then pr_size pr else k_overhead c + pr_size pr)"

definition extents :: "ring_cfg \<Rightarrow> prefix list \<Rightarrow> nat" where
  "extents c prs = sum_list (map (extent c) prs)"

text \<open>The blocks from index \<open>i\<close> on, each within the buffer.\<close>

fun chain :: "ring_cfg \<Rightarrow> (nat \<Rightarrow> prefix option) \<Rightarrow> nat \<Rightarrow> prefix list \<Rightarrow> bool" where
  "chain c m i [] \<longleftrightarrow> True"
| "chain c m i (pr # prs) \<longleftrightarrow> m (i mod rb_size c) = Some pr \<and> sizeof_prefix c \<le> extent c pr \<and>
     rb_alignment c dvd extent c pr \<and> i mod rb_size c + extent c pr \<le> rb_size c \<and> chain c m (i + extent c pr) prs"

definition rb_rel :: "ring_cfg \<Rightarrow> ring_buffer \<Rightarrow> prefix list \<Rightarrow> bool" where
  "rb_rel c r prs \<longleftrightarrow> rb_ok c \<and> ix_read r < 2 ^ rb_width c \<and> rb_alignment c dvd ix_read r \<and> extents c prs \<le> rb_size c \<and>
     ix_write r = uw (rb_width c) (ix_read r + extents c prs) \<and> chain c (rb_mem r) (ix_read r) prs"

lemma extents_simps [simp]: "extents c [] = 0" "extents c (pr # prs) = extent c pr + extents c prs"
  "extents c (prs @ qs) = extents c prs + extents c qs"
  by (simp_all add: extents_def)

lemma chain_append: "chain c m i (prs @ qs) \<longleftrightarrow> chain c m i prs \<and> chain c m (i + extents c prs) qs"
  by (induction prs arbitrary: i) (auto simp: add.assoc)

lemma chain_mod: "rb_ok c \<Longrightarrow> chain c m (uw (rb_width c) i) prs = chain c m i prs"
proof (induction prs arbitrary: i)
  case (Cons pr prs)
  have s: "uw (rb_width c) i mod rb_size c = i mod rb_size c"
    using rb_facts(5) [OF Cons.prems] by (simp add: uw_def mod_mod_cancel)
  have "uw (rb_width c) (uw (rb_width c) i + extent c pr) = uw (rb_width c) (i + extent c pr)"
    by (simp add: uw_def mod_simps)
  then have "chain c m (uw (rb_width c) i + extent c pr) prs = chain c m (i + extent c pr) prs"
    using Cons.IH [OF Cons.prems] by metis
  then show ?case by (simp add: s)
qed simp

lemma chain_dvd: "chain c m i prs \<Longrightarrow> rb_alignment c dvd extents c prs"
  by (induction prs arbitrary: i) auto

text \<open>Two ranges of indices within one turn of the buffer are apart in the buffer.\<close>

lemma ranges_apart:
  fixes x y S :: nat
  assumes "x + d \<le> y" "y + e \<le> x + S" "x mod S + d \<le> S" "y mod S + e \<le> S" "0 < S"
  shows "x mod S + d \<le> y mod S \<or> y mod S + e \<le> x mod S"
proof -
  have x: "x = x div S * S + x mod S" and y: "y = y div S * S + y mod S" by simp_all
  have m: "x mod S < S" "y mod S < S" using assms(5) by simp_all
  have "x div S \<le> y div S" using assms(1) by (intro div_le_mono) simp
  then consider "y div S = x div S" | "y div S = x div S + 1" | "x div S + 2 \<le> y div S" by linarith
  then show ?thesis
  proof cases
    case 1
    then have "y div S * S = x div S * S" by simp
    then show ?thesis using assms(1) x y by linarith
  next
    case 2
    then have "y div S * S = x div S * S + S" by simp
    then show ?thesis using assms(2) x y by linarith
  next
    case 3
    then have "(x div S + 2) * S \<le> y div S * S" by (intro mult_le_mono1)
    then have "x div S * S + 2 * S \<le> y div S * S" by (simp add: add_mult_distrib)
    then show ?thesis using assms(2) x y m by linarith
  qed
qed

text \<open>Changes of the memory in a range behind the blocks do not touch them.\<close>

lemma chain_untouched:
  assumes "rb_ok c" "chain c m i prs" "i0 \<le> i" "i + extents c prs \<le> y" "y + e \<le> i0 + rb_size c" "y mod rb_size c + e \<le> rb_size c"
    and "\<And>q. q + sizeof_prefix c \<le> y mod rb_size c \<or> y mod rb_size c + e \<le> q \<Longrightarrow> m' q = m q"
  shows "chain c m' i prs"
  using assms(2-4)
proof (induction prs arbitrary: i)
  case (Cons pr prs)
  have pos: "0 < rb_size c" using rb_facts(7,8) [OF assms(1)] by simp
  have pr: "m (i mod rb_size c) = Some pr" "sizeof_prefix c \<le> extent c pr" "i mod rb_size c + extent c pr \<le> rb_size c"
    using Cons.prems(1) by auto
  have "i mod rb_size c + extent c pr \<le> y mod rb_size c \<or> y mod rb_size c + e \<le> i mod rb_size c"
    using Cons.prems assms(5,6) pr(3) pos by (intro ranges_apart) auto
  then have "m' (i mod rb_size c) = m (i mod rb_size c)" using assms(7) pr(2) by force
  moreover have "chain c m' (i + extent c pr) prs" using Cons.prems by (intro Cons.IH) auto
  ultimately show ?case using Cons.prems(1) by simp
qed simp

lemma usub_diff: "a < 2 ^ w \<Longrightarrow> d < 2 ^ w \<Longrightarrow> usub w (uw w (a + d)) a = d"
proof -
  assume a: "a < 2 ^ w" and d: "d < 2 ^ w"
  have "(int ((a + d) mod 2 ^ w) - int a) mod 2 ^ w = (int (a + d) - int a) mod 2 ^ w"
    by (simp add: of_nat_mod mod_simps)
  also have "\<dots> = int d" using d by simp
  finally show ?thesis by (simp add: usub_def uw_def)
qed

lemma uw_uw_add: "uw w (uw w a + b) = uw w (a + b)"
  by (simp add: uw_def mod_simps)

text \<open>The sizes of a block.\<close>

definition aligned :: "ring_cfg \<Rightarrow> nat \<Rightarrow> nat" where
  "aligned c n = n + (k_slot_alignment_mask c AND (rb_alignment c - (n AND k_slot_alignment_mask c)))"

lemma aligned_ok:
  assumes "rb_ok c"
  shows "n \<le> aligned c n" "aligned c n < n + rb_alignment c" "rb_alignment c dvd aligned c n"
proof -
  let ?A = "rb_alignment c"
  have A: "0 < ?A" using rb_facts(8) [OF assms] by simp
  have m: "aligned c n = n + (?A - n mod ?A) mod ?A"
    unfolding aligned_def and.commute [of "k_slot_alignment_mask c"] rb_facts(12) [OF assms] ..
  then show "n \<le> aligned c n" "aligned c n < n + ?A" using A by simp_all
  have s: "n mod ?A + (?A - n mod ?A) = ?A" using A mod_less_divisor [of ?A n] by linarith
  have "(n + (?A - n mod ?A) mod ?A) mod ?A = (n + (?A - n mod ?A)) mod ?A" by (rule mod_add_right_eq)
  also have "\<dots> = (n mod ?A + (?A - n mod ?A)) mod ?A" by (rule mod_add_left_eq [symmetric])
  also have "\<dots> = 0" unfolding s by (rule mod_self)
  finally show "?A dvd aligned c n" unfolding m by (rule dvd_eq_mod_eq_0 [THEN iffD2])
qed

lemma block_size:
  assumes "rb_ok c" "n \<le> drop_bit 2 (rb_size c)" "0 < n"
  shows "aligned c n + k_overhead c \<le> rb_size c" "sizeof_prefix c \<le> aligned c n + k_overhead c"
    "rb_alignment c dvd aligned c n + k_overhead c"
proof -
  have "n \<le> rb_size c div 4" using assms(2) by (simp add: drop_bit_eq_div)
  then have "4 * n \<le> rb_size c" by linarith
  then show "aligned c n + k_overhead c \<le> rb_size c" "sizeof_prefix c \<le> aligned c n + k_overhead c"
    "rb_alignment c dvd aligned c n + k_overhead c"
    using aligned_ok [OF assms(1), of n] rb_facts(3,4,7) [OF assms(1)] by simp_all
qed

section \<open>Allocation\<close>

text \<open>A block that ends in the turn of the buffer it begins in does not cross the border.\<close>

lemma no_crossing:
  fixes b n S w :: nat
  assumes "b < 2 ^ w" "n \<le> S" "0 < n" "4 * S \<le> 2 ^ w" "2 \<le> S"
    and eq: "usub w (uw w (b + n) div S) (if uw w (b + n) mod S = 0 then 1 else 0) = b div S"
  shows "b mod S + n \<le> S"
proof (rule ccontr)
  assume "\<not> b mod S + n \<le> S"
  then have over: "S < b mod S + n" by simp
  define W Q where "W = (2 :: nat) ^ w" and "Q = b div S"
  have b: "b = Q * S + b mod S" by (simp add: Q_def)
  have lt: "b mod S < S" using assms(5) by simp
  have Q: "Q \<le> b div 2" using assms(5) by (simp add: Q_def div_le_mono2)
  show False
  proof (cases "b + n < W")
    case True
    then have e: "uw w (b + n) = b + n" by (simp add: uw_def W_def)
    have "(Q + 1) * S < b + n" "b + n < (Q + 2) * S" using b over lt assms(2) by (simp_all add: add_mult_distrib)
    then have d: "(b + n) div S = Q + 1" by (intro div_nat_eqI) (simp_all add: mult.commute)
    have "(b + n) mod S \<noteq> 0"
    proof
      assume "(b + n) mod S = 0"
      then have "b + n = (Q + 1) * S" using d by (metis add.right_neutral div_mult_mod_eq)
      then show False using \<open>(Q + 1) * S < b + n\<close> by simp
    qed
    moreover have "Q + 1 < W" using Q True assms(3) by linarith
    ultimately have "usub w (uw w (b + n) div S) (if uw w (b + n) mod S = 0 then 1 else 0) = Q + 1"
      unfolding e d W_def using usub_le [of 0 "Q + 1" w] by simp
    then show False using eq by (simp add: Q_def)
  next
    case False
    define e where "e = b + n - W"
    have "b + n < 2 * W" using assms(1,2,4) by (simp add: W_def)
    then have "uw w (b + n) = e" using False by (simp add: uw_def W_def [symmetric] e_def mod_if)
    moreover have "e < S" using False assms(1,2) by (simp add: e_def W_def)
    ultimately have u: "uw w (b + n) div S = 0" "uw w (b + n) mod S = e" by simp_all
    have "b < W" using assms(1) by (simp add: W_def)
    show False
    proof (cases "e = 0")
      case True
      have "usub w 0 1 = W - 1"
        unfolding usub_def W_def by (simp add: zmod_minus1 nat_diff_distrib nat_power_eq)
      then have "Q = W - 1" using eq u True by (simp add: Q_def)
      then show False using Q \<open>b < W\<close> assms(4,5) by (simp add: W_def)
    next
      case nz: False
      have "usub w 0 0 = 0" by (simp add: usub_def)
      then have "Q = 0" using eq u nz by (simp add: Q_def)
      then have "b < S" using b lt by simp
      then show False using False assms(2,4) by (simp add: W_def)
    qed
  qed
qed

lemma place_mem:
  assumes "rb_ok c" "chain c m i prs" "extents c prs + n \<le> rb_size c" "(i + extents c prs) mod rb_size c + n \<le> rb_size c"
    and "n = k_overhead c + d" "rb_alignment c dvd n"
  defines "pr \<equiv> \<lparr> pr_size = d, pr_state = busy \<rparr>" and "p \<equiv> (i + extents c prs) mod rb_size c"
  shows "\<exists>m1. put_prefix c p pr m = Some m1 \<and> chain c (data_bytes c (p + sizeof_prefix c) d m1) i (prs @ [pr])"
proof -
  have ov: "k_overhead c = sizeof_prefix c" "0 < sizeof_prefix c" using rb_facts(3,4,8) [OF assms(1)] by simp_all
  define m1 where "m1 = (\<lambda>q. if q = p then Some pr else if q < p + sizeof_prefix c \<and> p < q + sizeof_prefix c then None else m q)"
  have "p + sizeof_prefix c \<le> rb_size c" using assms(4,5) ov by (simp add: p_def)
  then have put: "put_prefix c p pr m = Some m1" by (simp add: put_prefix_def m1_def)
  let ?m = "data_bytes c (p + sizeof_prefix c) d m1"
  have "chain c ?m i prs"
  proof (rule chain_untouched [OF assms(1,2) order_refl order_refl, of n])
    show "?m q = m q" if "q + sizeof_prefix c \<le> (i + extents c prs) mod rb_size c \<or> (i + extents c prs) mod rb_size c + n \<le> q" for q
      using that assms(5) ov by (auto simp: data_bytes_def m1_def p_def)
  qed (use assms(3,4) in simp_all)
  moreover have "?m p = Some pr" by (simp add: data_bytes_def m1_def)
  ultimately have "chain c ?m i (prs @ [pr])"
    using assms(4-6) ov by (simp add: chain_append p_def extent_def pr_def)
  then show ?thesis using put by blast
qed

lemma fake_mem:
  assumes "rb_ok c" "chain c m i prs" "rb_alignment c dvd i" "extents c prs + sizeof_prefix c \<le> rb_size c"
  defines "p \<equiv> (i + extents c prs) mod rb_size c"
  defines "pr \<equiv> \<lparr> pr_size = rb_size c - p, pr_state = fake \<rparr>"
  shows "\<exists>m1. put_prefix c p pr m = Some m1 \<and> chain c m1 i (prs @ [pr])"
proof -
  have S: "0 < rb_size c" using rb_facts(7,8) [OF assms(1)] by simp
  have "rb_alignment c dvd p"
    using assms(3) chain_dvd [OF assms(2)] rb_facts(6) [OF assms(1)] by (simp add: p_def dvd_mod)
  with rb_facts(6) [OF assms(1)] have dv: "rb_alignment c dvd rb_size c - p" by (rule dvd_diff_nat)
  have "p < rb_size c" using S by (simp add: p_def)
  then have le: "sizeof_prefix c \<le> rb_size c - p" using dv rb_facts(3) [OF assms(1)] by (simp add: dvd_imp_le)
  define m1 where "m1 = (\<lambda>q. if q = p then Some pr else if q < p + sizeof_prefix c \<and> p < q + sizeof_prefix c then None else m q)"
  have put: "put_prefix c p pr m = Some m1" using le \<open>p < rb_size c\<close> by (simp add: put_prefix_def m1_def)
  have "chain c m1 i prs"
  proof (rule chain_untouched [OF assms(1,2) order_refl order_refl, of "sizeof_prefix c"])
    show "m1 q = m q" if "q + sizeof_prefix c \<le> (i + extents c prs) mod rb_size c \<or> (i + extents c prs) mod rb_size c + sizeof_prefix c \<le> q" for q
      using that rb_facts(3,8) [OF assms(1)] by (auto simp: m1_def p_def)
  qed (use assms(4) le \<open>p < rb_size c\<close> in \<open>simp_all add: p_def\<close>)
  moreover have "m1 p = Some pr" by (simp add: m1_def)
  ultimately have "chain c m1 i (prs @ [pr])"
    using le dv \<open>p < rb_size c\<close> by (simp add: chain_append p_def [symmetric] extent_def pr_def)
  then show ?thesis using put by blast
qed

lemma rb_place_ok:
  assumes "rb_rel c r0 prs0" "ix_read r = ix_read r0" "chain c (rb_mem r) (ix_read r) prs" "n = k_overhead c + d" "rb_alignment c dvd n"
    and "extents c prs + n < 2 ^ rb_width c" "(ix_read r + extents c prs) mod rb_size c + n \<le> rb_size c"
    and "p = (ix_read r + extents c prs) mod rb_size c" "uw (rb_width c) (ix_write r + commit) = uw (rb_width c) (ix_read r + (extents c prs + n))"
  shows "\<exists>r'. rb_place c nw d commit b (uw (rb_width c) (ix_read r + (extents c prs + n))) p r =
      (if extents c prs + n > rb_size c then Some (if nw then Null else Wait, r)
       else Some (Block (uw 32 b) (p + sizeof_prefix c), r')) \<and>
    (extents c prs + n \<le> rb_size c \<longrightarrow> rb_rel c r' (prs @ [\<lparr> pr_size = d, pr_state = busy \<rparr>]) \<and> ix_read r' = ix_read r)"
proof -
  have ok: "rb_ok c" "ix_read r < 2 ^ rb_width c" "rb_alignment c dvd ix_read r" using assms(1,2) by (auto simp: rb_rel_def)
  have u: "usub (rb_width c) (uw (rb_width c) (ix_read r + (extents c prs + n))) (ix_read r) = extents c prs + n"
    by (rule usub_diff [OF ok(2) assms(6)])
  show ?thesis
  proof (cases "extents c prs + n \<le> rb_size c")
    case False
    then show ?thesis by (simp add: rb_place_def u)
  next
    case True
    let ?pr = "\<lparr> pr_size = d, pr_state = busy \<rparr>"
    obtain m1 where m1: "put_prefix c p ?pr (rb_mem r) = Some m1"
      "chain c (data_bytes c (p + sizeof_prefix c) d m1) (ix_read r) (prs @ [?pr])"
      using place_mem [OF ok(1) assms(3) True assms(7,4,5)] unfolding assms(8) by blast
    let ?r = "r\<lparr> rb_mem := data_bytes c (p + sizeof_prefix c) d m1, ix_write := uw (rb_width c) (ix_write r + commit) \<rparr>"
    have "rb_rel c ?r (prs @ [?pr])"
      using ok True m1(2) assms(4,9) by (simp add: rb_rel_def extent_def)
    then show ?thesis using True m1(1) by (intro exI [of _ ?r]) (simp add: rb_place_def u Let_def)
  qed
qed

lemma place_index:
  assumes "rb_rel c r prs"
  shows "ix_write r mod rb_size c = (ix_read r + extents c prs) mod rb_size c" "ix_write r < 2 ^ rb_width c"
    "uw (rb_width c) (ix_write r + n) = uw (rb_width c) (ix_read r + (extents c prs + n))"
proof -
  have w: "ix_write r = uw (rb_width c) (ix_read r + extents c prs)" and "rb_ok c" using assms by (simp_all add: rb_rel_def)
  then show "ix_write r mod rb_size c = (ix_read r + extents c prs) mod rb_size c" "ix_write r < 2 ^ rb_width c"
    using rb_facts(5) by (simp_all add: uw_def mod_mod_cancel)
  show "uw (rb_width c) (ix_write r + n) = uw (rb_width c) (ix_read r + (extents c prs + n))"
    by (simp add: w uw_uw_add add.assoc)
qed

text \<open>What an allocation does: the blocks stay, a new one, perhaps behind a fake one, is added.\<close>

definition alloc_post :: "ring_cfg \<Rightarrow> bool \<Rightarrow> nat \<Rightarrow> ring_buffer \<Rightarrow> prefix list \<Rightarrow> alloc_result \<Rightarrow> ring_buffer \<Rightarrow> bool" where
  "alloc_post c nw sz r prs res r' \<longleftrightarrow> ix_read r' = ix_read r \<and> (case res of
     Null \<Rightarrow> nw \<and> rb_rel c r' prs
   | Wait \<Rightarrow> \<not> nw \<and> rb_rel c r' prs
   | Block h p \<Rightarrow> \<exists>fk. (\<forall>pr \<in> set fk. pr_state pr = fake) \<and>
       rb_rel c r' (prs @ fk @ [\<lparr> pr_size = aligned c sz, pr_state = busy \<rparr>]) \<and>
       h = uw 32 (uw (rb_width c) (ix_read r + extents c (prs @ fk))) \<and>
       p = (ix_read r + extents c (prs @ fk)) mod rb_size c + sizeof_prefix c)"

lemma rb_relD_len: "rb_rel c r prs \<Longrightarrow> extents c prs \<le> rb_size c"
  by (simp add: rb_rel_def)

lemma rb_allocate_ok:
  assumes "rb_rel c r prs" "0 < sz" "sz \<le> drop_bit 2 (rb_size c)"
  shows "\<exists>res r'. rb_allocate c nw sz r = Some (res, r') \<and> alloc_post c nw sz r prs res r'"
proof -
  have ok: "rb_ok c" "ix_read r < 2 ^ rb_width c" "rb_alignment c dvd ix_read r" "chain c (rb_mem r) (ix_read r) prs"
    using assms(1) by (auto simp: rb_rel_def)
  note f = rb_facts [OF ok(1)] and idx = place_index [OF assms(1)]
  define d n S w T where "d = aligned c sz" and "n = d + k_overhead c" and "S = rb_size c" and "w = rb_width c" and "T = extents c prs"
  have n: "n \<le> S" "sizeof_prefix c \<le> n" "rb_alignment c dvd n" "n = k_overhead c + d" "0 < n"
    using block_size [OF ok(1) assms(3,2)] f(3,4,8) by (simp_all add: n_def d_def S_def)
  have T: "T \<le> S" "extents c prs = T" using rb_relD_len [OF assms(1)] by (simp_all add: T_def S_def)
  have W: "4 * S \<le> 2 ^ w" "2 \<le> S" using f(7,8,9) by (simp_all add: S_def w_def)
  let ?b = "ix_write r"
  let ?we = "uw w (?b + n)"
  let ?p = "?b mod S"
  have unfold: "rb_allocate c nw sz r =
      (if usub w (?we div S) (if ?we mod S = 0 then 1 else 0) \<noteq> ?b div S then
        (if usub w (uw w (?b + sizeof_prefix c)) (ix_read r) > S then Some (if nw then Null else Wait, r)
         else do {
            m \<leftarrow> put_prefix c ?p \<lparr> pr_size = S - ?p, pr_state = fake \<rparr> (rb_mem r);
            rb_place c nw d (n + (S - ?p)) (uw w (?b + (S - ?p))) (uw w (?we + (S - ?p))) 0 (r\<lparr> rb_mem := m \<rparr>) })
       else rb_place c nw d n ?b ?we ?p r)"
    using assms(2,3) unfolding rb_allocate_def f(1,2) Let_def aligned_def [symmetric] d_def n_def S_def w_def
    by (simp add: aligned_def)
  have p: "?p = (ix_read r + T) mod S" using idx(1) by (simp add: S_def T_def)
  have we: "?we = uw w (ix_read r + (T + n))" using idx(3) [of n] by (simp add: w_def T_def)
  show ?thesis
  proof (cases "usub w (?we div S) (if ?we mod S = 0 then 1 else 0) = ?b div S")
    case True
    then have "?p + n \<le> S" using no_crossing [of ?b w n S] idx(2) n W by (simp add: w_def)
    moreover have "T + n < 2 ^ w" using T n W by simp
    ultimately obtain r' where "rb_place c nw d n ?b ?we ?p r =
        (if T + n > S then Some (if nw then Null else Wait, r) else Some (Block (uw 32 ?b) (?p + sizeof_prefix c), r'))"
      "T + n \<le> S \<longrightarrow> rb_rel c r' (prs @ [\<lparr> pr_size = d, pr_state = busy \<rparr>]) \<and> ix_read r' = ix_read r"
      using rb_place_ok [OF assms(1) refl ok(4) n(4,3), of ?p n nw ?b] idx(3) [of n] we p
      by (auto simp: S_def w_def T_def)
    then show ?thesis
      using True unfold assms(1) p idx(1) we
      by (cases "T + n \<le> S")
        (auto simp: alloc_post_def d_def T_def S_def w_def rb_rel_def intro!: exI [of _ "[]"])
  next
    case cross: False
    have sp: "T + sizeof_prefix c < 2 ^ w" using T n W by simp
    have b: "usub w (uw w (?b + sizeof_prefix c)) (ix_read r) = T + sizeof_prefix c"
      using idx(3) usub_diff [of "ix_read r" w "T + sizeof_prefix c"] ok(2) sp by (simp add: w_def T_def)
    show ?thesis
    proof (cases "T + sizeof_prefix c \<le> S")
      case False
      then show ?thesis using cross unfold b assms(1) by (auto simp: alloc_post_def)
    next
      case True
      let ?fk = "\<lparr> pr_size = S - ?p, pr_state = fake \<rparr>"
      have "extents c prs + sizeof_prefix c \<le> rb_size c" using True by (simp add: T_def S_def)
      from fake_mem [OF ok(1,4,3) this] obtain m1 where m1: "put_prefix c ?p ?fk (rb_mem r) = Some m1"
        "chain c m1 (ix_read r) (prs @ [?fk])" unfolding idx(1) [symmetric] S_def by auto
      let ?r = "r\<lparr> rb_mem := m1 \<rparr>" and ?T = "T + (S - ?p)"
      have ext: "extents c (prs @ [?fk]) = ?T" by (simp add: T_def extent_def)
      have rel: "rb_rel c ?r prs" using assms(1) m1(2) by (simp add: rb_rel_def chain_append)
      have turn: "(ix_read r + ?T) mod S = 0"
      proof -
        have "(ix_read r + ?T) mod S = ((ix_read r + T) mod S + (S - ?p)) mod S" by (simp add: mod_simps add.assoc)
        also have "(ix_read r + T) mod S + (S - ?p) = S" using p W(2) mod_less_divisor [of S "ix_write r"] by linarith
        finally show ?thesis by simp
      qed
      have we': "uw w (?we + (S - ?p)) = uw w (ix_read r + (?T + n))"
        unfolding we uw_uw_add by (simp only: add.commute add.left_commute add.assoc)
      have wb: "uw w (?b + (S - ?p)) = uw w (ix_read r + ?T)"
        using idx(3) [of "S - ?p"] by (simp add: w_def T_def)
      have commit: "uw w (?b + (n + (S - ?p))) = uw w (ix_read r + (?T + n))"
        using idx(3) [of "n + (S - ?p)"] by (simp add: w_def T_def ac_simps)
      have lt: "?T + n < 2 ^ w" using T n W by linarith
      obtain r' where r': "rb_place c nw d (n + (S - ?p)) (uw w (?b + (S - ?p))) (uw w (?we + (S - ?p))) 0 ?r =
          (if ?T + n > S then Some (if nw then Null else Wait, ?r)
           else Some (Block (uw 32 (uw w (?b + (S - ?p)))) (0 + sizeof_prefix c), r'))"
        "?T + n \<le> S \<longrightarrow> rb_rel c r' ((prs @ [?fk]) @ [\<lparr> pr_size = d, pr_state = busy \<rparr>]) \<and> ix_read r' = ix_read ?r"
        using rb_place_ok [OF rel refl, of "prs @ [?fk]" n d 0 "n + (S - ?p)" nw "uw w (?b + (S - ?p))"] m1(2) n(3,4) lt ext turn n(1) commit
        unfolding we' by (auto simp: S_def w_def)
      have run: "rb_allocate c nw sz r = rb_place c nw d (n + (S - ?p)) (uw w (?b + (S - ?p))) (uw w (?we + (S - ?p))) 0 ?r"
        using cross True by (simp add: unfold b m1(1))
      show ?thesis
      proof (cases "?T + n \<le> S")
        case False
        then show ?thesis using run r'(1) rel by (auto simp: alloc_post_def)
      next
        case True
        then have "alloc_post c nw sz r prs (Block (uw 32 (uw w (?b + (S - ?p)))) (sizeof_prefix c)) r'"
          using r'(2) wb turn ext unfolding alloc_post_def
          by (auto simp: d_def S_def w_def intro!: exI [of _ "[?fk]"])
        then show ?thesis using run r'(1) True by auto
      qed
    qed
  qed
qed

end
