(* ===== verification/Sdk_Ring_Queue.thy ===== *)
theory Sdk_Ring_Queue
  imports Sdk_Ring
begin

text \<open>
  The ring buffer as a queue of blocks: the blocks between read and write index as a list of
  entries, what \<^verbatim>\<open>peek\<close>, \<^verbatim>\<open>free\<close>, \<^verbatim>\<open>commit\<close> and \<^verbatim>\<open>skip\<close> do to it, the contract of such a queue as
  a locale with the ring buffer as its instance, and the properties of the component.
\<close>

section \<open>The queue of blocks\<close>

text \<open>Offset and size of the data and state of the blocks, without the fake ones.\<close>

type_synonym entry = "nat \<times> nat \<times> blk_state"

fun entries :: "ring_cfg \<Rightarrow> nat \<Rightarrow> prefix list \<Rightarrow> entry list" where
  "entries c i [] = []"
| "entries c i (pr # prs) =
     (if pr_state pr = fake then [] else [(i mod rb_size c + sizeof_prefix c, pr_size pr, pr_state pr)]) @
     entries c (i + extent c pr) prs"

definition rb_abs :: "ring_cfg \<Rightarrow> ring_buffer \<Rightarrow> entry list \<Rightarrow> bool" where
  "rb_abs c r q \<longleftrightarrow> (\<exists>prs. rb_rel c r prs \<and> q = entries c (ix_read r) prs)"

definition is_skipped :: "entry \<Rightarrow> bool" where "is_skipped e \<longleftrightarrow> snd (snd e) = skipped"

lemma entries_append: "entries c i (prs @ qs) = entries c i prs @ entries c (i + extents c prs) qs"
  by (induction prs arbitrary: i) (simp_all add: add.assoc)

lemma entries_fake: "\<forall>pr \<in> set fk. pr_state pr = fake \<Longrightarrow> entries c i fk = []"
  by (induction fk arbitrary: i) auto

lemma entries_mod: "rb_ok c \<Longrightarrow> entries c (uw (rb_width c) i) prs = entries c i prs"
proof (induction prs arbitrary: i)
  case (Cons pr prs)
  have s: "uw (rb_width c) i mod rb_size c = i mod rb_size c"
    using rb_facts(5) [OF Cons.prems] by (simp add: uw_def mod_mod_cancel)
  have "entries c (uw (rb_width c) i + extent c pr) prs = entries c (i + extent c pr) prs"
    using Cons.IH [OF Cons.prems] uw_uw_add by metis
  then show ?case by (simp add: s)
qed simp

lemma entries_state: "(p, n, s) \<in> set (entries c i prs) \<Longrightarrow> s \<noteq> fake"
  by (induction prs arbitrary: i) (auto split: if_splits)

lemma entry_range:
  assumes "(p, n, s) \<in> set (entries c i prs)" "chain c m i prs" "rb_ok c"
  shows "\<exists>x. i \<le> x \<and> x + (sizeof_prefix c + n) \<le> i + extents c prs \<and> p = x mod rb_size c + sizeof_prefix c \<and>
    x mod rb_size c + (sizeof_prefix c + n) \<le> rb_size c"
  using assms(1,2)
proof (induction prs arbitrary: i)
  case (Cons pr prs)
  have ov: "k_overhead c = sizeof_prefix c" using rb_facts(3,4) [OF assms(3)] by simp
  show ?case
  proof (cases "(p, n, s) \<in> set (entries c (i + extent c pr) prs)")
    case True
    then obtain x where "i + extent c pr \<le> x" "x + (sizeof_prefix c + n) \<le> i + extent c pr + extents c prs"
      "p = x mod rb_size c + sizeof_prefix c" "x mod rb_size c + (sizeof_prefix c + n) \<le> rb_size c"
      using Cons.IH Cons.prems(2) by fastforce
    then show ?thesis by (intro exI [of _ x]) simp
  next
    case False
    then have "pr_state pr \<noteq> fake" "p = i mod rb_size c + sizeof_prefix c" "n = pr_size pr"
      using Cons.prems(1) by (auto split: if_splits)
    then show ?thesis using Cons.prems(2) ov by (intro exI [of _ i]) (auto simp: extent_def)
  qed
qed simp

section \<open>Looking at and releasing blocks\<close>

fun scan_spec :: "ring_cfg \<Rightarrow> nat \<Rightarrow> prefix list \<Rightarrow> scan_result" where
  "scan_spec c i [] = At_end (uw (rb_width c) i)"
| "scan_spec c i (pr # prs) = (case pr_state pr of
     busy \<Rightarrow> Waiting
   | commited \<Rightarrow> At (i mod rb_size c + sizeof_prefix c) (pr_size pr) (uw (rb_width c) (i + extent c pr))
   | _ \<Rightarrow> scan_spec c (i + extent c pr) prs)"

lemma index_moves: "0 < d \<Longrightarrow> d < 2 ^ w \<Longrightarrow> uw w (i + d) \<noteq> uw w i"
proof
  assume d: "0 < d" "d < 2 ^ w" and eq: "uw w (i + d) = uw w i"
  have a: "uw w i < 2 ^ w" by (simp add: uw_def)
  have "usub w (uw w (uw w i + d)) (uw w i) = d" by (rule usub_diff [OF a d(2)])
  then show False using eq d(1) by (simp add: uw_uw_add usub_def)
qed

lemma rb_scan_eq:
  assumes "rb_ok c" "chain c (rb_mem r) i prs" "extents c prs \<le> rb_size c" "ix_write r = uw (rb_width c) (i + extents c prs)"
  shows "rb_scan c (uw (rb_width c) i) r = Some (scan_spec c i prs)"
  using assms(2-)
proof (induction prs arbitrary: i)
  case Nil
  then show ?case by (simp add: rb_scan.simps)
next
  case (Cons pr prs)
  note f = rb_facts [OF assms(1)]
  have pos: "uw (rb_width c) i mod rb_size c = i mod rb_size c" using f(5) by (simp add: uw_def mod_mod_cancel)
  have pr: "rb_mem r (i mod rb_size c) = Some pr" "0 < extent c pr" using Cons.prems(1) f(3,8) by auto
  have "ix_write r \<noteq> uw (rb_width c) i"
    using Cons.prems(2,3) pr(2) f(7,8,9) index_moves [of "extent c pr + extents c prs" "rb_width c" i] by (simp add: add.assoc)
  then have step: "rb_scan c (uw (rb_width c) i) r = Option.bind (get_first_block c (uw (rb_width c) i) r) (\<lambda>b. case b of
          Busy \<Rightarrow> Some Waiting | Pass i \<Rightarrow> rb_scan c i r | Found p n i \<Rightarrow> Some (At p n i))"
    by (subst rb_scan.simps) simp
  have IH: "rb_scan c (uw (rb_width c) (i + extent c pr)) r = Some (scan_spec c (i + extent c pr) prs)"
    using Cons.prems by (intro Cons.IH) (simp_all add: add.assoc)
  note first = get_first_block_def [of c "uw (rb_width c) i" r, unfolded f(1) pos Let_def pr(1) Option.bind.simps uw_uw_add]
  show ?case
    by (cases "pr_state pr") (use IH in \<open>simp_all add: step first extent_def\<close>)
qed

lemma scan_spec_cases:
  "case scan_spec c i prs of
     At_end j \<Rightarrow> j = uw (rb_width c) (i + extents c prs) \<and> dropWhile is_skipped (entries c i prs) = []
   | Waiting \<Rightarrow> \<exists>p n q. dropWhile is_skipped (entries c i prs) = (p, n, busy) # q
   | At p n j \<Rightarrow> \<exists>pre pr post. prs = pre @ pr # post \<and> j = uw (rb_width c) (i + extents c (pre @ [pr])) \<and>
       dropWhile is_skipped (entries c i prs) = (p, n, commited) # entries c (i + extents c (pre @ [pr])) post"
proof (induction prs arbitrary: i)
  case (Cons pr prs)
  show ?case
  proof (cases "pr_state pr = busy \<or> pr_state pr = commited")
    case True
    then show ?thesis by (auto simp: is_skipped_def intro!: exI [of _ "[]"])
  next
    case False
    then have s: "scan_spec c i (pr # prs) = scan_spec c (i + extent c pr) prs"
      "dropWhile is_skipped (entries c i (pr # prs)) = dropWhile is_skipped (entries c (i + extent c pr) prs)"
      by (cases "pr_state pr"; simp add: is_skipped_def)+
    show ?thesis
    proof (cases "scan_spec c (i + extent c pr) prs")
      case (At p n j)
      then obtain pre pr' post where "prs = pre @ pr' # post" "j = uw (rb_width c) (i + extent c pr + extents c (pre @ [pr']))"
        "dropWhile is_skipped (entries c (i + extent c pr) prs) = (p, n, commited) # entries c (i + extent c pr + extents c (pre @ [pr'])) post"
        using Cons.IH [of "i + extent c pr"] by auto
      then show ?thesis using At s by (auto simp: add.assoc intro!: exI [of _ "pr # pre"])
    qed (use Cons.IH [of "i + extent c pr"] s in \<open>auto simp: add.assoc\<close>)
  qed
qed simp

lemma align_dvd_turn: "rb_ok c \<Longrightarrow> rb_alignment c dvd 2 ^ rb_width c"
  using rb_facts(5,6) dvd_trans by blast

lemma rb_scan_rel: "rb_rel c r prs \<Longrightarrow> rb_scan c (ix_read r) r = Some (scan_spec c (ix_read r) prs)"
  using rb_scan_eq [of c r "ix_read r" prs] by (simp add: rb_rel_def)

lemma rb_rel_drop:
  assumes "rb_rel c r (pre @ post)"
  shows "rb_rel c (r\<lparr> ix_read := uw (rb_width c) (ix_read r + extents c pre) \<rparr>) post"
proof -
  have ok: "rb_ok c" "rb_alignment c dvd ix_read r" "chain c (rb_mem r) (ix_read r) (pre @ post)"
    using assms by (auto simp: rb_rel_def)
  have "rb_alignment c dvd extents c pre" using ok(3) chain_dvd chain_append by blast
  then have "rb_alignment c dvd uw (rb_width c) (ix_read r + extents c pre)"
    using ok(2) align_dvd_turn [OF ok(1)] by (simp add: uw_def dvd_mod)
  moreover have "chain c (rb_mem r) (uw (rb_width c) (ix_read r + extents c pre)) post"
    using ok(3) by (simp add: chain_mod [OF ok(1)] chain_append)
  ultimately show ?thesis using assms by (simp add: rb_rel_def uw_uw_add add.assoc) (simp add: uw_def)
qed

lemma ix_advance: "i < 2 ^ w \<Longrightarrow> uw w (i + usub w (uw w j) i) = uw w j"
proof -
  assume "i < 2 ^ w"
  have "int (uw w (i + usub w (uw w j) i)) = (int i + (int (uw w j) - int i) mod 2 ^ w) mod 2 ^ w"
    by (simp add: uw_def usub_def of_nat_mod)
  also have "\<dots> = int (uw w j) mod 2 ^ w" by (simp add: mod_simps)
  also have "\<dots> = int (uw w j)" by (simp add: uw_def of_nat_mod)
  finally show ?thesis by simp
qed

lemma peek_empty:
  assumes "rb_abs c r q" "dropWhile is_skipped q = []"
  shows "\<exists>r'. rb_peek c r = Some (Peek_Null, r') \<and> rb_abs c r' []"
proof -
  obtain prs where prs: "rb_rel c r prs" "q = entries c (ix_read r) prs" using assms(1) by (auto simp: rb_abs_def)
  then obtain j where j: "scan_spec c (ix_read r) prs = At_end j" "j = uw (rb_width c) (ix_read r + extents c prs)"
    using scan_spec_cases [of c "ix_read r" prs] assms(2) by (cases "scan_spec c (ix_read r) prs") (auto simp del: dropWhile_eq_Nil_conv)
  let ?r = "r\<lparr> ix_read := j \<rparr>"
  have lt: "ix_read r < 2 ^ rb_width c" using prs(1) by (simp add: rb_rel_def)
  have adv: "uw (rb_width c) (ix_read r + usub (rb_width c) j (ix_read r)) = j" using ix_advance [OF lt] j(2) by simp
  have "usub (rb_width c) j (ix_read r) = 0 \<Longrightarrow> ?r = r" using adv lt by (cases r) simp
  then have "rb_peek c r = Some (Peek_Null, ?r)"
    using rb_scan_rel [OF prs(1)] j(1) adv by (simp add: rb_peek_def Let_def)
  moreover have "rb_rel c ?r []" using rb_rel_drop [of c r prs "[]"] prs(1) j(2) by simp
  ultimately show ?thesis by (auto simp: rb_abs_def intro: exI [of _ "[]"])
qed

lemma peek_busy:
  assumes "rb_abs c r q" "dropWhile is_skipped q = (p, n, busy) # q'"
  shows "rb_peek c r = Some (Peek_Wait, r)"
proof -
  obtain prs where prs: "rb_rel c r prs" "q = entries c (ix_read r) prs" using assms(1) by (auto simp: rb_abs_def)
  then have "scan_spec c (ix_read r) prs = Waiting"
    using scan_spec_cases [of c "ix_read r" prs] assms(2) by (cases "scan_spec c (ix_read r) prs") (auto simp del: dropWhile_eq_Nil_conv)
  then show ?thesis using rb_scan_rel [OF prs(1)] by (simp add: rb_peek_def)
qed

lemma peek_ready:
  assumes "rb_abs c r q" "dropWhile is_skipped q = (p, n, commited) # q'"
  shows "rb_peek c r = Some (Peek p n, r) \<and> (\<exists>r'. rb_free c r = Some (Some r') \<and> rb_abs c r' q')"
proof -
  obtain prs where prs: "rb_rel c r prs" "q = entries c (ix_read r) prs" using assms(1) by (auto simp: rb_abs_def)
  obtain pre pr post j where at: "scan_spec c (ix_read r) prs = At p n j" "prs = pre @ pr # post"
    "j = uw (rb_width c) (ix_read r + extents c (pre @ [pr]))" "q' = entries c (ix_read r + extents c (pre @ [pr])) post"
    using scan_spec_cases [of c "ix_read r" prs] assms(2) prs(2) by (cases "scan_spec c (ix_read r) prs") (auto simp del: dropWhile_eq_Nil_conv)
  let ?r = "r\<lparr> ix_read := j \<rparr>"
  have ok: "rb_ok c" and lt: "ix_read r < 2 ^ rb_width c" using prs(1) by (simp_all add: rb_rel_def)
  have "rb_free c r = Some (Some ?r)"
    using rb_scan_rel [OF prs(1)] at(1,3) ix_advance [OF lt] by (simp add: rb_free_def)
  moreover have "rb_rel c ?r post" using rb_rel_drop [of c r "pre @ [pr]" post] prs(1) at(2,3) by simp
  moreover have "entries c j post = q'" using at(3,4) entries_mod [OF ok] by simp
  ultimately show ?thesis
    using rb_scan_rel [OF prs(1)] at(1) by (auto simp: rb_peek_def rb_abs_def)
qed

section \<open>Marking blocks\<close>

fun positions :: "ring_cfg \<Rightarrow> nat \<Rightarrow> prefix list \<Rightarrow> nat list" where
  "positions c i [] = []"
| "positions c i (pr # prs) = i mod rb_size c # positions c (i + extent c pr) prs"

lemma mod_apart: "x < y \<Longrightarrow> y < x + S \<Longrightarrow> x mod S \<noteq> y mod (S :: nat)"
proof
  assume l: "x < y" "y < x + S" and eq: "x mod S = y mod S"
  then have "S dvd y - x" using mod_eq_dvd_iff_nat [of x y S] by simp
  then have "S \<le> y - x" using l(1) by (intro dvd_imp_le) simp_all
  then show False using l by linarith
qed

lemma position_index:
  assumes "rb_ok c" "chain c m i prs" "p \<in> set (positions c i prs)"
  shows "\<exists>x. i \<le> x \<and> x < i + extents c prs \<and> p = x mod rb_size c"
  using assms(2,3)
proof (induction prs arbitrary: i)
  case (Cons pr prs)
  have pos: "0 < extent c pr" using Cons.prems(1) rb_facts(3,8) [OF assms(1)] by auto
  show ?case
  proof (cases "p = i mod rb_size c")
    case True
    then show ?thesis using pos by (intro exI [of _ i]) simp
  next
    case False
    then obtain x where "i + extent c pr \<le> x" "x < i + extent c pr + extents c prs" "p = x mod rb_size c"
      using Cons.IH [of "i + extent c pr"] Cons.prems by auto
    then show ?thesis by (intro exI [of _ x]) simp
  qed
qed simp

lemma chain_upd: "p \<notin> set (positions c i prs) \<Longrightarrow> chain c (m(p := z)) i prs = chain c m i prs"
  by (induction prs arbitrary: i) auto

lemma entries_positions: "(p, n, s) \<in> set (entries c i prs) \<Longrightarrow> p - sizeof_prefix c \<in> set (positions c i prs)"
  by (induction prs arbitrary: i) (auto split: if_splits)

lemma other_positions:
  assumes "rb_ok c" "chain c m i (pre @ pr # post)" "extents c (pre @ pr # post) \<le> rb_size c"
  shows "(i + extents c pre) mod rb_size c \<notin> set (positions c i pre)"
    "(i + extents c pre) mod rb_size c \<notin> set (positions c (i + extents c pre + extent c pr) post)"
proof -
  let ?y = "i + extents c pre"
  have ch: "chain c m i pre" "chain c m (?y + extent c pr) post" "0 < extent c pr"
    using assms(2) rb_facts(3,8) [OF assms(1)] by (auto simp: chain_append)
  show "?y mod rb_size c \<notin> set (positions c i pre)"
  proof
    assume "?y mod rb_size c \<in> set (positions c i pre)"
    then obtain x where x: "i \<le> x" "x < ?y" "?y mod rb_size c = x mod rb_size c"
      using position_index [OF assms(1) ch(1)] by auto
    then show False using mod_apart [of x ?y "rb_size c"] assms(3) ch(3) by auto
  qed
  show "?y mod rb_size c \<notin> set (positions c (?y + extent c pr) post)"
  proof
    assume "?y mod rb_size c \<in> set (positions c (?y + extent c pr) post)"
    then obtain x where x: "?y + extent c pr \<le> x" "x < ?y + extent c pr + extents c post" "?y mod rb_size c = x mod rb_size c"
      using position_index [OF assms(1) ch(2)] by auto
    then show False using mod_apart [of ?y x "rb_size c"] assms(3) ch(3) by auto
  qed
qed

definition mark :: "nat \<Rightarrow> blk_state \<Rightarrow> entry list \<Rightarrow> entry list" where
  "mark p st q = map (\<lambda>(p', n, s). (p', n, if p' = p then st else s)) q"

lemma mark_other: "\<forall>(p', n, s) \<in> set q. p' \<noteq> p \<Longrightarrow> mark p st q = q"
  unfolding mark_def by (rule map_idI) auto

lemma entries_split:
  "(p, n, s) \<in> set (entries c i prs) \<Longrightarrow> \<exists>pre pr post. prs = pre @ pr # post \<and> pr_state pr \<noteq> fake \<and>
    p = (i + extents c pre) mod rb_size c + sizeof_prefix c"
proof (induction prs arbitrary: i)
  case (Cons pr prs)
  show ?case
  proof (cases "(p, n, s) \<in> set (entries c (i + extent c pr) prs)")
    case True
    then obtain pre pr' post where "prs = pre @ pr' # post" "pr_state pr' \<noteq> fake"
      "p = (i + extent c pr + extents c pre) mod rb_size c + sizeof_prefix c" using Cons.IH by blast
    then show ?thesis by (intro exI [of _ "pr # pre"] exI [of _ pr'] exI [of _ post]) (simp add: add.assoc)
  next
    case False
    then show ?thesis using Cons.prems by (intro exI [of _ "[]"] exI [of _ pr] exI [of _ prs]) (auto split: if_splits)
  qed
qed simp

lemma update_ok:
  assumes "rb_abs c r q" "(p, n, s) \<in> set q" "h mod rb_size c + sizeof_prefix c = p" "h \<noteq> k_invalid_handle" "st \<noteq> fake"
  shows "\<exists>r'. update_block_state c h st r = Some r' \<and> rb_abs c r' (mark p st q)"
proof -
  obtain prs where prs: "rb_rel c r prs" "q = entries c (ix_read r) prs" using assms(1) by (auto simp: rb_abs_def)
  obtain pre pr post where sp: "prs = pre @ pr # post" "pr_state pr \<noteq> fake"
    "p = (ix_read r + extents c pre) mod rb_size c + sizeof_prefix c" using entries_split assms(2) prs(2) by blast
  have ok: "rb_ok c" and ch: "chain c (rb_mem r) (ix_read r) (pre @ pr # post)" and le: "extents c (pre @ pr # post) \<le> rb_size c"
    using prs(1) by (simp_all add: rb_rel_def sp(1))
  note oth = other_positions [OF ok ch le]
  let ?i = "ix_read r" and ?y = "(ix_read r + extents c pre) mod rb_size c" and ?pr = "pr\<lparr> pr_state := st \<rparr>"
  let ?m = "(rb_mem r)(?y \<mapsto> ?pr)"
  have hy: "h mod rb_size c = ?y" using assms(3) sp(3) by simp
  have mem: "rb_mem r ?y = Some pr" using ch by (simp add: chain_append)
  have ext: "extent c ?pr = extent c pr" using sp(2) assms(5) by (simp add: extent_def)
  have "chain c ?m ?i (pre @ ?pr # post)"
    using ch oth by (simp add: chain_append chain_upd ext)
  then have "rb_rel c (r\<lparr> rb_mem := ?m \<rparr>) (pre @ ?pr # post)"
    using prs(1) by (simp add: rb_rel_def sp(1) ext)
  moreover have "entries c ?i (pre @ ?pr # post) = mark p st (entries c ?i (pre @ pr # post))"
  proof -
    have "mark p st (entries c ?i pre) = entries c ?i pre"
      using oth(1) entries_positions [of _ _ _ c ?i pre] sp(3) by (intro mark_other) force
    moreover have "mark p st (entries c (?i + extents c pre + extent c pr) post) = entries c (?i + extents c pre + extent c pr) post"
      using oth(2) entries_positions [of _ _ _ c "?i + extents c pre + extent c pr" post] sp(3) by (intro mark_other) force
    ultimately show ?thesis using sp(2,3) assms(5) by (simp add: entries_append mark_def ext)
  qed
  moreover have "update_block_state c h st r = Some (r\<lparr> rb_mem := ?m \<rparr>)"
    unfolding update_block_state_def rb_facts(1) [OF ok] hy Let_def mem using assms(4) by simp
  ultimately show ?thesis unfolding rb_abs_def prs(2) sp(1) by (intro exI conjI) (assumption, auto)
qed

section \<open>The contract of a queue of blocks\<close>

text \<open>Reading blocks until the queue is empty: the committed ones, in order.\<close>

fun drain :: "('s \<Rightarrow> (peek_result \<times> 's) option) \<Rightarrow> ('s \<Rightarrow> 's option option) \<Rightarrow> nat \<Rightarrow> 's \<Rightarrow> ((nat \<times> nat) list \<times> 's) option" where
  "drain peek free 0 s = None"
| "drain peek free (Suc k) s = do {
     (x, s) \<leftarrow> peek s;
     (case x of
        Peek p n \<Rightarrow> do { f \<leftarrow> free s; s \<leftarrow> f; (xs, s) \<leftarrow> drain peek free k s; Some ((p, n) # xs, s) }
      | Peek_Null \<Rightarrow> Some ([], s)
      | Peek_Wait \<Rightarrow> None) }"

definition committed_blocks :: "entry list \<Rightarrow> (nat \<times> nat) list" where
  "committed_blocks q = map (\<lambda>(p, n, s). (p, n)) (filter (\<lambda>(p, n, s). s = commited) q)"

lemma committed_dropWhile: "committed_blocks (dropWhile is_skipped q) = committed_blocks q"
  by (induction q) (auto simp: committed_blocks_def is_skipped_def)

locale block_queue =
  fixes abs :: "'s \<Rightarrow> entry list \<Rightarrow> bool"
    and peek :: "'s \<Rightarrow> (peek_result \<times> 's) option"
    and free :: "'s \<Rightarrow> 's option option"
  assumes peek_nothing: "abs s q \<Longrightarrow> dropWhile is_skipped q = [] \<Longrightarrow> \<exists>s'. peek s = Some (Peek_Null, s') \<and> abs s' []"
    and peek_block: "abs s q \<Longrightarrow> dropWhile is_skipped q = (p, n, commited) # q' \<Longrightarrow> peek s = Some (Peek p n, s)"
    and free_block: "abs s q \<Longrightarrow> dropWhile is_skipped q = (p, n, commited) # q' \<Longrightarrow> \<exists>s'. free s = Some (Some s') \<and> abs s' q'"
begin

lemma drain_all:
  assumes "abs s q" "\<forall>(p, n, st) \<in> set q. st = commited \<or> st = skipped" "length q < k"
  shows "\<exists>s'. drain peek free k s = Some (committed_blocks q, s') \<and> abs s' []"
  using assms
proof (induction k arbitrary: s q)
  case (Suc k)
  show ?case
  proof (cases "dropWhile is_skipped q")
    case Nil
    have "committed_blocks q = committed_blocks (dropWhile is_skipped q)" by (simp only: committed_dropWhile)
    also have "\<dots> = []" unfolding Nil by (simp add: committed_blocks_def)
    finally have "committed_blocks q = []" .
    then show ?thesis using peek_nothing [OF Suc.prems(1) Nil] by auto
  next
    case (Cons e q')
    obtain p n st where e: "e = (p, n, st)" by (cases e)
    have sub: "set (e # q') \<subseteq> set q" using Cons by (metis set_dropWhileD subsetI)
    moreover have "\<not> is_skipped e" using Cons by (metis hd_dropWhile list.distinct(1) list.sel(1))
    ultimately have st: "st = commited" using Suc.prems(2) by (auto simp: e is_skipped_def)
    note d = Cons [unfolded e st]
    obtain s' where s': "free s = Some (Some s')" "abs s' q'" using free_block [OF Suc.prems(1) d] by blast
    have "length q' < length q" using Cons length_dropWhile_le [of is_skipped q] by simp
    then obtain s'' where "drain peek free k s' = Some (committed_blocks q', s'')" "abs s'' []"
      using Suc.IH [OF s'(2)] Suc.prems(2,3) sub by force
    moreover have "committed_blocks q = (p, n) # committed_blocks q'"
      using committed_dropWhile [of q] by (simp add: d committed_blocks_def)
    ultimately show ?thesis using peek_block [OF Suc.prems(1) d] s'(1) by simp
  qed
qed simp

end

interpretation rq: block_queue "rb_abs c" "rb_peek c" "rb_free c" for c
  by unfold_locales (use peek_empty peek_ready in blast)+

section \<open>Properties of the ring buffer\<close>

definition demo_ring :: ring_cfg where
  "demo_ring = \<lparr> rb_size = 64, rb_alignment = 16, rb_width = 32 \<rparr>"

lemma demo_ring_ok: "rb_ok demo_ring"
  unfolding rb_ok_def demo_ring_def by (intro conjI exI [of _ 6] exI [of _ 4]) simp_all

lemma ring_new_abs: "rb_ok c \<Longrightarrow> rb_abs c ring_new []"
  unfolding rb_abs_def by (intro exI [of _ "[]"]) (simp add: rb_rel_def ring_new_def)

lemma demo_ring_sizes: "sizeof_prefix demo_ring = 16" "k_overhead demo_ring = 16" "rb_size demo_ring = 64" "rb_alignment demo_ring = 16"
  "rb_width demo_ring = 32"
  using rb_facts(3,4) [OF demo_ring_ok] by (simp_all add: demo_ring_def)

lemma demo_alloc:
  "\<exists>m. rb_allocate demo_ring True 10 ring_new = Some (Block 0 16, \<lparr> rb_mem = m, ix_read = 0, ix_write = 32 \<rparr>) \<and>
    m 0 = Some \<lparr> pr_size = 16, pr_state = busy \<rparr>"
  by (simp add: rb_allocate_def rb_place_def put_prefix_def ring_new_def rb_facts [OF demo_ring_ok] demo_ring_sizes usub_def uw_def
      k_slot_alignment_mask_def Let_def data_bytes_def)

lemma handle_ok:
  assumes "rb_ok c" "rb_alignment c dvd x" "h = uw 32 (uw (rb_width c) x)"
  shows "h mod rb_size c = x mod rb_size c" "h \<noteq> k_invalid_handle"
proof -
  note f = rb_facts [OF assms(1)]
  show "h mod rb_size c = x mod rb_size c"
    using f(5,10) unfolding assms(3) uw_def by (simp add: mod_mod_cancel)
  have "rb_alignment c dvd h"
    using assms(2) f(11) align_dvd_turn [OF assms(1)] unfolding assms(3) uw_def by (simp add: dvd_mod)
  show "h \<noteq> k_invalid_handle"
  proof
    assume "h = k_invalid_handle"
    then have "rb_alignment c dvd 2 ^ 32 - 1" using \<open>rb_alignment c dvd h\<close> by (simp add: k_invalid_handle_def)
    with f(11) have "rb_alignment c dvd 2 ^ 32 - (2 ^ 32 - 1)" by (rule dvd_diff_nat)
    then show False using f(8) by simp
  qed
qed

text \<open>An allocation queues a block behind the others.\<close>

lemma rb_allocate_queue:
  assumes "rb_abs c r q" "0 < sz" "4 * sz \<le> rb_size c"
  shows "\<exists>res r'. rb_allocate c nw sz r = Some (res, r') \<and> (case res of
     Null \<Rightarrow> nw \<and> rb_abs c r' q
   | Wait \<Rightarrow> \<not> nw \<and> rb_abs c r' q
   | Block h p \<Rightarrow> \<exists>n. sz \<le> n \<and> p + n \<le> rb_size c \<and> h mod rb_size c + sizeof_prefix c = p \<and> h \<noteq> k_invalid_handle \<and>
       rb_abs c r' (q @ [(p, n, busy)]) \<and>
       (\<forall>(p', n', s) \<in> set q. p' + n' \<le> p - sizeof_prefix c \<or> p + n \<le> p' - sizeof_prefix c))"
proof -
  obtain prs where prs: "rb_rel c r prs" "q = entries c (ix_read r) prs" using assms(1) by (auto simp: rb_abs_def)
  have ok: "rb_ok c" "rb_alignment c dvd ix_read r" "chain c (rb_mem r) (ix_read r) prs" using prs(1) by (simp_all add: rb_rel_def)
  have "sz \<le> drop_bit 2 (rb_size c)" using assms(3) by (simp add: drop_bit_eq_div)
  from rb_allocate_ok [OF prs(1) assms(2) this] obtain res r' where
    run: "rb_allocate c nw sz r = Some (res, r')" "alloc_post c nw sz r prs res r'" by blast
  show ?thesis
  proof (cases res)
    case (Block h p)
    let ?n = "aligned c sz" and ?i = "ix_read r"
    obtain fk where fk: "\<forall>pr \<in> set fk. pr_state pr = fake" "rb_rel c r' (prs @ fk @ [\<lparr> pr_size = ?n, pr_state = busy \<rparr>])"
      "h = uw 32 (uw (rb_width c) (?i + extents c (prs @ fk)))" "p = (?i + extents c (prs @ fk)) mod rb_size c + sizeof_prefix c"
      "ix_read r' = ?i" using run(2) Block by (auto simp: alloc_post_def)
    let ?y = "?i + extents c (prs @ fk)" and ?all = "prs @ fk @ [\<lparr> pr_size = ?n, pr_state = busy \<rparr>]"
    have ch: "chain c (rb_mem r') ?i ?all" "extents c ?all \<le> rb_size c" using fk(2,5) by (simp_all add: rb_rel_def)
    then have last: "?y mod rb_size c + (sizeof_prefix c + ?n) \<le> rb_size c" "?y + (sizeof_prefix c + ?n) \<le> ?i + rb_size c"
      using rb_facts(3,4) [OF ok(1)] by (simp_all add: chain_append extent_def add.assoc)
    have ent: "entries c ?i ?all = q @ [(p, ?n, busy)]"
      using entries_fake [OF fk(1)] by (simp add: entries_append prs(2) fk(4) add.assoc)
    have "chain c (rb_mem r') ?i (prs @ fk)" using ch(1) by (simp add: chain_append)
    then have "rb_alignment c dvd ?y" using ok(2) chain_dvd by (metis dvd_add)
    note h = handle_ok [OF ok(1) this fk(3)]
    have "p' + n' \<le> p - sizeof_prefix c \<or> p + ?n \<le> p' - sizeof_prefix c" if mem: "(p', n', s) \<in> set q" for p' n' s
    proof -
      obtain x where x: "?i \<le> x" "x + (sizeof_prefix c + n') \<le> ?i + extents c prs" "p' = x mod rb_size c + sizeof_prefix c"
        "x mod rb_size c + (sizeof_prefix c + n') \<le> rb_size c" using entry_range [OF _ ok(3,1)] mem prs(2) by blast
      have "x mod rb_size c + (sizeof_prefix c + n') \<le> ?y mod rb_size c \<or> ?y mod rb_size c + (sizeof_prefix c + ?n) \<le> x mod rb_size c"
        using x last rb_facts(7,8) [OF ok(1)] by (intro ranges_apart) auto
      then show ?thesis using x(3) fk(4) by auto
    qed
    moreover have "rb_abs c r' (q @ [(p, ?n, busy)])" using fk(2,5) ent by (auto simp: rb_abs_def)
    moreover have "sz \<le> ?n" by (rule aligned_ok [OF ok(1)])
    ultimately show ?thesis using run(1) Block h last(1) fk(4) by (auto intro!: exI [of _ ?n])
  next
    case Null
    then have "rb_abs c r' q" using run(2) prs(2) by (auto simp: alloc_post_def rb_abs_def)
    then show ?thesis using run Null by (auto simp: alloc_post_def)
  next
    case Wait
    then have "rb_abs c r' q" using run(2) prs(2) by (auto simp: alloc_post_def rb_abs_def)
    then show ?thesis using run Wait by (auto simp: alloc_post_def)
  qed
qed

text \<open>
  C19. An allocation of a legal size returns a null pointer only when it must not wait; otherwise
  it waits, or returns data of at least that size inside the buffer, in a block that
  overlaps no block between the indices, prefixes included; it is queued behind them as busy.
  The counters may wrap around.
\<close>

theorem ring_allocate:
  assumes "rb_abs c r q" "0 < sz" "4 * sz \<le> rb_size c"
  shows "\<exists>res r'. rb_allocate c nw sz r = Some (res, r') \<and> (case res of
     Null \<Rightarrow> nw \<and> rb_abs c r' q
   | Wait \<Rightarrow> \<not> nw \<and> rb_abs c r' q
   | Block h p \<Rightarrow> \<exists>n. sz \<le> n \<and> p + n \<le> rb_size c \<and> h mod rb_size c + sizeof_prefix c = p \<and> h \<noteq> k_invalid_handle \<and>
       rb_abs c r' (q @ [(p, n, busy)]) \<and>
       (\<forall>(p', n', s) \<in> set q. p' + n' \<le> p - sizeof_prefix c \<or> p + n \<le> p' - sizeof_prefix c))"
  by (rule rb_allocate_queue [OF assms])

theorem ring_allocate_witness:
  "\<exists>r n. rb_allocate demo_ring True 10 ring_new = Some (Block 0 16, r) \<and> 10 \<le> n \<and> rb_abs demo_ring r [(16, n, busy)]"
proof -
  obtain r where r: "rb_allocate demo_ring True 10 ring_new = Some (Block 0 16, r)" using demo_alloc by blast
  then show ?thesis using ring_allocate [OF ring_new_abs [OF demo_ring_ok], of 10 True] by (auto simp: demo_ring_sizes)
qed

text \<open>Two blocks across the wrap-around of the counters.\<close>

definition demo_r :: ring_buffer where
  "demo_r = \<lparr> rb_mem = [32 \<mapsto> \<lparr> pr_size = 16, pr_state = commited \<rparr>, 0 \<mapsto> \<lparr> pr_size = 16, pr_state = skipped \<rparr>],
     ix_read = 2 ^ 32 - 32, ix_write = 32 \<rparr>"

lemma demo_r_abs: "rb_abs demo_ring demo_r [(48, 16, commited), (16, 16, skipped)]"
  unfolding rb_abs_def
  by (intro exI [of _ "[\<lparr> pr_size = 16, pr_state = commited \<rparr>, \<lparr> pr_size = 16, pr_state = skipped \<rparr>]"])
    (simp add: rb_rel_def demo_ring_ok demo_r_def demo_ring_sizes extent_def uw_def)

text \<open>
  \<^verbatim>\<open>commit\<close> and \<^verbatim>\<open>skip\<close> with the handle of a block in the queue change the state of that block
  and nothing else.
\<close>

lemma ring_mark:
  assumes "rb_abs c r q" "(p, n, s) \<in> set q" "h mod rb_size c + sizeof_prefix c = p" "h \<noteq> k_invalid_handle"
  shows "(\<exists>r'. rb_commit c h r = Some r' \<and> rb_abs c r' (mark p commited q)) \<and>
    (\<exists>r'. rb_skip c h r = Some r' \<and> rb_abs c r' (mark p skipped q))"
  using update_ok [OF assms, of commited] update_ok [OF assms, of skipped] by (simp add: rb_commit_def rb_skip_def)

text \<open>
  C20. First in, first out: from a buffer whose blocks have all been committed or skipped,
  \<^verbatim>\<open>peek\<close> and \<^verbatim>\<open>free\<close> in turn return the data of the committed blocks in the order of their
  allocation, pass over skipped blocks and over the ends of the buffer, and leave it empty.
\<close>

theorem ring_fifo:
  assumes "rb_abs c r q" "\<forall>(p, n, st) \<in> set q. st = commited \<or> st = skipped"
  shows "\<exists>r'. drain (rb_peek c) (rb_free c) (Suc (length q)) r = Some (committed_blocks q, r') \<and> rb_abs c r' []"
  by (rule rq.drain_all [OF assms]) simp

theorem ring_fifo_witness:
  "\<exists>r'. drain (rb_peek demo_ring) (rb_free demo_ring) 3 demo_r = Some ([(48, 16)], r') \<and> rb_abs demo_ring r' []"
proof -
  have "Suc (length [(48 :: nat, 16 :: nat, commited), (16, 16, skipped)]) = 3"
    "committed_blocks [(48, 16, commited), (16, 16, skipped)] = [(48, 16)]"
    by (simp_all add: committed_blocks_def)
  then show ?thesis using ring_fifo [OF demo_r_abs] by (simp add: numeral_3_eq_3 del: drain.simps)
qed

end
