(* ===== verification/Sdk_Bit_Stream.thy ===== *)
theory Sdk_Bit_Stream
  imports Sdk_Prelude
begin

text \<open>
  The bit map of free pages of \<^verbatim>\<open>tools/heap_allocator.hpp\<close>: one bit per page, 64 to a block,
  set for a free page. \<^verbatim>\<open>_setBitStream\<close> and \<^verbatim>\<open>_resetBitStream\<close> change runs of bits,
  \<^verbatim>\<open>_getBitScanStreamRevWord\<close> looks for a run of set bits. Numbers of pages are below \<open>2\<^sup>2\<^sup>3\<close> for
  every request of 32 bits, so their sums are exact in 32 bits. \<^term>\<open>None\<close> is an access outside
  \<^verbatim>\<open>_blocks\<close>.
\<close>

section \<open>Bit scan\<close>

fun low_bit :: "nat \<Rightarrow> nat \<Rightarrow> u64 \<Rightarrow> nat" where
  "low_bit i 0 v = i"
| "low_bit i (Suc n) v = (if bit v i then i else low_bit (Suc i) n v)"

text \<open>\<^verbatim>\<open>__builtin_ctzll\<close>, \<^verbatim>\<open>_BitScanForward64\<close>: the lowest set bit; \<^verbatim>\<open>SDK_CP_UINT64_MAX\<close> for 0.\<close>

definition UINT64_MAX :: nat where "UINT64_MAX = 2 ^ 64 - 1"

definition bit_scan_forward_64 :: "u64 \<Rightarrow> nat" where
  "bit_scan_forward_64 v = (if v \<noteq> 0 then low_bit 0 64 v else UINT64_MAX)"

lemma low_bit_spec:
  "bit v k \<Longrightarrow> i \<le> k \<Longrightarrow> k < i + n \<Longrightarrow>
    bit v (low_bit i n v) \<and> i \<le> low_bit i n v \<and> low_bit i n v < i + n \<and> (\<forall>j. i \<le> j \<longrightarrow> j < low_bit i n v \<longrightarrow> \<not> bit v j)"
proof (induction i n v rule: low_bit.induct)
  case (2 i n v)
  show ?case
  proof (cases "bit v i")
    case False
    then have "i \<noteq> k" using "2.prems"(1) by blast
    then have "Suc i \<le> k" "k < Suc i + n" using "2.prems"(2,3) by auto
    then have "bit v (low_bit (Suc i) n v)" "Suc i \<le> low_bit (Suc i) n v" "low_bit (Suc i) n v < Suc i + n"
      "\<And>j. Suc i \<le> j \<Longrightarrow> j < low_bit (Suc i) n v \<Longrightarrow> \<not> bit v j"
      using "2.IH" [OF False "2.prems"(1)] by blast+
    moreover have "i \<le> j \<Longrightarrow> j < low_bit (Suc i) n v \<Longrightarrow> \<not> bit v j" for j
      using False calculation(4) [of j] by (cases "i = j") auto
    ultimately show ?thesis using False by auto
  qed auto
qed simp

lemma bsf:
  assumes "v \<noteq> 0"
  shows "bit v (bit_scan_forward_64 v)" "bit_scan_forward_64 v < 64"
    "j < bit_scan_forward_64 v \<Longrightarrow> \<not> bit v j"
proof -
  obtain k where k: "bit v k" using assms by (auto simp: bit_eq_iff)
  then have "k < 0 + 64" using bit_imp_le_length [of v k] by simp
  with low_bit_spec [of v k 0 64] k assms
  show "bit v (bit_scan_forward_64 v)" "bit_scan_forward_64 v < 64"
    "j < bit_scan_forward_64 v \<Longrightarrow> \<not> bit v j"
    by (auto simp: bit_scan_forward_64_def)
qed

lemma bsf_max: "bit_scan_forward_64 v = UINT64_MAX \<longleftrightarrow> v = 0"
  using bsf(2) [of v] by (auto simp: bit_scan_forward_64_def UINT64_MAX_def)

section \<open>Runs of bits in a block\<close>

text \<open>\<^verbatim>\<open>(e >= k_h_val) ? 0 : (1llu << e)\<close> minus one: the bits below \<open>e\<close>.\<close>

definition k_h_val :: nat where "k_h_val = 64"

definition bits_below :: "nat \<Rightarrow> u64" where
  "bits_below e = (if e \<ge> k_h_val then 0 else push_bit e 1) - 1"

text \<open>\<^verbatim>\<open>~(b1 - 1) & blockEnd\<close>: the bits from \<open>position\<close> on, \<open>remains\<close> of them or to the end.\<close>

definition block_mask :: "nat \<Rightarrow> nat \<Rightarrow> u64" where
  "block_mask position remains = NOT (push_bit position 1 - 1) AND bits_below (position + remains)"

lemma bits_below_mask: "bits_below e = mask (min e 64)"
proof (cases "64 \<le> e")
  case True
  have "mask 64 = (-1 :: u64)" by (simp add: mask_eq_exp_minus_1)
  then show ?thesis using True by (simp add: bits_below_def k_h_val_def)
qed (simp add: bits_below_def k_h_val_def mask_eq_exp_minus_1 push_bit_eq_mult)

lemma bit_bits_below: "bit (bits_below e) j \<longleftrightarrow> j < e \<and> j < 64"
  by (auto simp: bits_below_mask bit_mask_iff)

lemma bit_block_mask: "p < 64 \<Longrightarrow> bit (block_mask p n) j \<longleftrightarrow> p \<le> j \<and> j < p + n \<and> j < 64"
proof -
  assume p: "p < 64"
  have "push_bit p (1 :: u64) - 1 = mask p" by (simp add: mask_eq_exp_minus_1 push_bit_eq_mult)
  then show ?thesis using p
    by (auto simp: block_mask_def bit_and_iff bit_not_iff bit_mask_iff bit_bits_below)
qed

section \<open>Setting and clearing\<close>

definition k_flag_bound :: nat where "k_flag_bound = 6"
definition k_l_mask :: nat where "k_l_mask = k_h_val - 1"

partial_function (option) reset_loop :: "nat \<Rightarrow> nat \<Rightarrow> nat \<Rightarrow> u64 list \<Rightarrow> u64 list option" where
  "reset_loop position remains block bs =
     (if remains > 0 then
        if block < length bs then
          reset_loop 0 (remains - (min (position + remains) k_h_val - position)) (block + 1)
            (bs[block := bs ! block AND NOT (block_mask position remains)])
        else None
      else Some bs)"

definition resetBitStream :: "nat \<Rightarrow> nat \<Rightarrow> u64 list \<Rightarrow> u64 list option" where
  "resetBitStream from' count bs = reset_loop (from' AND k_l_mask) count (drop_bit k_flag_bound from') bs"

partial_function (option) set_bits_loop :: "nat \<Rightarrow> nat \<Rightarrow> nat \<Rightarrow> u64 list \<Rightarrow> u64 list option" where
  "set_bits_loop position remains block bs =
     (if remains > 0 then
        if block < length bs then
          set_bits_loop 0 (remains - (min (position + remains) k_h_val - position)) (block + 1)
            (bs[block := bs ! block OR block_mask position remains])
        else None
      else Some bs)"

definition setBitStream :: "nat \<Rightarrow> nat \<Rightarrow> u64 list \<Rightarrow> u64 list option" where
  "setBitStream from' count bs = set_bits_loop (from' AND k_l_mask) count (drop_bit k_flag_bound from') bs"

text \<open>Bit \<open>i\<close> of the whole map.\<close>

definition stream_bit :: "u64 list \<Rightarrow> nat \<Rightarrow> bool" where
  "stream_bit bs i = bit (bs ! (i div 64)) (i mod 64)"

lemma from_split: "from' AND k_l_mask = from' mod 64" "drop_bit k_flag_bound from' = from' div 64"
proof -
  have "from' AND k_l_mask = from' AND mask 6" by (simp add: k_l_mask_def k_h_val_def mask_eq_exp_minus_1)
  then show "from' AND k_l_mask = from' mod 64" by (simp flip: take_bit_eq_mask add: take_bit_eq_mod)
qed (simp add: k_flag_bound_def drop_bit_eq_div)

lemma stream_bit_update:
  assumes "b < length bs"
  shows "stream_bit (bs[b := w]) i \<longleftrightarrow> (if i div 64 = b then bit w (i mod 64) else stream_bit bs i)"
  using assms by (auto simp: stream_bit_def)

text \<open>Both loops: position \<open>64 * block + position\<close>, and the run left to be changed.\<close>

lemma in_block:
  fixes i b p n :: nat
  assumes "p < 64"
  shows "i div 64 = b \<and> p \<le> i mod 64 \<and> i mod 64 < p + n \<longleftrightarrow>
    64 * b + p \<le> i \<and> i < min (64 * b + p + n) (64 * (b + 1))" (is "?l \<longleftrightarrow> ?r")
proof
  have e: "64 * (i div 64) + i mod 64 = i" "i mod 64 < 64" by simp_all
  { assume l: ?l
    then have "i = 64 * b + i mod 64" using e(1) by simp
    then show ?r using l e(2) by auto }
  { assume r: ?r
    then have "i div 64 = b" using assms by (simp add: div_nat_eqI)
    then show ?l using r e(1) by auto }
qed

text \<open>
  A loop that changes the bits of the mask of each block to \<open>v\<close> changes the bits of the whole run,
  and no others.
\<close>

locale run_edit =
  fixes loop :: "nat \<Rightarrow> nat \<Rightarrow> nat \<Rightarrow> u64 list \<Rightarrow> u64 list option"
    and edit :: "u64 \<Rightarrow> u64 \<Rightarrow> u64" and v :: bool
  assumes loop: "loop p n b bs =
      (if n > 0 then
         if b < length bs then
           loop 0 (n - (min (p + n) k_h_val - p)) (b + 1) (bs[b := edit (bs ! b) (block_mask p n)])
         else None
       else Some bs)"
    and edit: "bit (edit w m) j \<longleftrightarrow> (if bit m j then v else bit w j)"
begin

lemma stream_edit:
  assumes "p < 64" "b < length bs"
  shows "stream_bit (bs[b := edit (bs ! b) (block_mask p n)]) i \<longleftrightarrow>
    (if 64 * b + p \<le> i \<and> i < 64 * b + p + (min (p + n) 64 - p) then v else stream_bit bs i)"
proof -
  have "min (64 * b + p + n) (64 * (b + 1)) = 64 * b + p + (min (p + n) 64 - p)" using assms(1) by auto
  then have "i div 64 = b \<and> p \<le> i mod 64 \<and> i mod 64 < p + n \<longleftrightarrow>
      64 * b + p \<le> i \<and> i < 64 * b + p + (min (p + n) 64 - p)"
    using in_block [OF assms(1), of i b n] by simp
  moreover have "stream_bit (bs[b := edit (bs ! b) (block_mask p n)]) i \<longleftrightarrow>
      (if i div 64 = b \<and> p \<le> i mod 64 \<and> i mod 64 < p + n then v else stream_bit bs i)"
    using assms by (cases "i div 64 = b") (simp_all add: stream_bit_def edit bit_block_mask)
  ultimately show ?thesis by simp
qed

lemma loop_run:
  assumes "p < 64" "64 * b + p + n \<le> 64 * length bs"
  shows "\<exists>bs'. loop p n b bs = Some bs' \<and> length bs' = length bs \<and>
    (\<forall>i. stream_bit bs' i \<longleftrightarrow> (if 64 * b + p \<le> i \<and> i < 64 * b + p + n then v else stream_bit bs i))"
  using assms
proof (induction n arbitrary: p b bs rule: less_induct)
  case (less n)
  show ?case
  proof (cases "n = 0")
    case False
    define k where "k = min (p + n) 64 - p"
    define bs1 where "bs1 = bs[b := edit (bs ! b) (block_mask p n)]"
    have b: "b < length bs" using less.prems False by auto
    have k: "n - k < n" "64 * (b + 1) + 0 + (n - k) \<le> 64 * length bs1"
      "n - k = 0 \<or> 64 * b + p + k = 64 * (b + 1)" "k \<le> n" "64 * b + p + k \<le> 64 * (b + 1)"
      using less.prems False mult_le_mono2 [OF Suc_leI [OF b], of 64] by (auto simp: k_def bs1_def min_def)
    obtain bs' where r: "loop 0 (n - k) (b + 1) bs1 = Some bs'" and l: "length bs' = length bs1" and
      s: "\<And>i. stream_bit bs' i \<longleftrightarrow>
        (if 64 * (b + 1) + 0 \<le> i \<and> i < 64 * (b + 1) + 0 + (n - k) then v else stream_bit bs1 i)"
      using less.IH [OF k(1) _ k(2)] by auto
    have "stream_bit bs' i \<longleftrightarrow> (if 64 * b + p \<le> i \<and> i < 64 * b + p + n then v else stream_bit bs i)" for i
      using s [of i] stream_edit [OF less.prems(1) b, of n i] k(3-5) by (auto simp: bs1_def k_def)
    with r l b False show ?thesis
      by (subst loop) (auto simp: k_def bs1_def k_h_val_def)
  qed (auto simp: loop)
qed

lemma stream_run:
  assumes "from' + n \<le> 64 * length bs"
  shows "\<exists>bs'. loop (from' AND k_l_mask) n (drop_bit k_flag_bound from') bs = Some bs' \<and> length bs' = length bs \<and>
    (\<forall>i. stream_bit bs' i \<longleftrightarrow> (if from' \<le> i \<and> i < from' + n then v else stream_bit bs i))"
  using loop_run [of "from' mod 64" "from' div 64" n bs] assms by (simp add: from_split)

end

interpretation rs: run_edit reset_loop "\<lambda>w m. w AND NOT m" False
  by unfold_locales (subst reset_loop.simps, simp, auto simp: bit_and_iff bit_not_iff dest: bit_imp_le_length)

interpretation st: run_edit set_bits_loop "\<lambda>w m. w OR m" True
  by unfold_locales (subst set_bits_loop.simps, simp, simp add: bit_or_iff)

lemma resetBitStream_run:
  "from' + n \<le> 64 * length bs \<Longrightarrow> \<exists>bs'. resetBitStream from' n bs = Some bs' \<and> length bs' = length bs \<and>
    (\<forall>i. stream_bit bs' i \<longleftrightarrow> \<not> (from' \<le> i \<and> i < from' + n) \<and> stream_bit bs i)"
  using rs.stream_run [of from' n bs] by (auto simp: resetBitStream_def)

lemma setBitStream_run:
  "from' + n \<le> 64 * length bs \<Longrightarrow> \<exists>bs'. setBitStream from' n bs = Some bs' \<and> length bs' = length bs \<and>
    (\<forall>i. stream_bit bs' i \<longleftrightarrow> (from' \<le> i \<and> i < from' + n) \<or> stream_bit bs i)"
  using st.stream_run [of from' n bs] by (auto simp: setBitStream_def)

section \<open>Search\<close>

definition invalid_page_ix :: nat where "invalid_page_ix = 2 ^ 32 - 1"

text \<open>\<^verbatim>\<open>st_mask[position]\<close>: the bits from \<open>position\<close> on.\<close>

definition st_mask :: "nat \<Rightarrow> u64" where
  "st_mask position = push_bit position (-1)"

text \<open>\<^verbatim>\<open>block &= (block | (block - 1)) + 1\<close> clears the lowest run of set bits.\<close>

definition clear_run :: "u64 \<Rightarrow> u64" where
  "clear_run block = block AND ((block OR (block - 1)) + 1)"

lemma low_ones:
  assumes "n \<le> 64"
  shows "(\<forall>j<n. bit x j) \<longleftrightarrow> (\<forall>j<n. \<not> bit (x + 1 :: u64) j)"
proof -
  have b: "bit y j = bit (uint y) j" for y :: u64 and j
    using bit_imp_le_length [of y j] by (auto simp: bit_uint_iff)
  have "uint (x + 1) = take_bit 64 (uint x + 1)" by (simp add: uint_word_arith_bintrs(1))
  then have "take_bit n (uint (x + 1)) = take_bit n (uint x + 1)" using assms by simp
  then have "take_bit n (uint x) = mask n \<longleftrightarrow> take_bit n (uint (x + 1)) = 0" by (simp only: take_bit_eq_mask_iff)
  moreover have "take_bit n (uint x) = mask n \<longleftrightarrow> (\<forall>j<n. bit x j)"
    by (auto simp: bit_eq_iff bit_take_bit_iff bit_mask_iff b)
  moreover have "take_bit n (uint (x + 1)) = 0 \<longleftrightarrow> (\<forall>j<n. \<not> bit (x + 1) j)"
    unfolding bit_eq_iff bit_take_bit_iff by (auto simp: b)
  ultimately show ?thesis by simp
qed

lemma clear_run_less:
  assumes "v \<noteq> 0"
  shows "unat (clear_run v) < unat v"
proof -
  let ?k = "bit_scan_forward_64 v"
  let ?x = "v OR (v - 1)"
  have "\<forall>j < ?k. bit (v - 1) j" using low_ones [of ?k "v - 1"] bsf [OF assms] by auto
  then have "\<forall>j < Suc ?k. bit ?x j" using bsf(1) [OF assms] by (auto simp: bit_or_iff less_Suc_eq)
  then have "\<not> bit (?x + 1) ?k" using low_ones [of "Suc ?k" ?x] bsf(2) [OF assms] by auto
  then have "clear_run v \<noteq> v" using bsf(1) [OF assms] by (metis bit_and_iff clear_run_def)
  moreover have "clear_run v \<le> v" by (simp add: clear_run_def word_and_le2)
  ultimately show ?thesis by (simp add: word_less_nat_alt [symmetric])
qed

text \<open>
  The \<^verbatim>\<open>for (;;)\<close> loop on one block, from \<open>remains\<close> and \<open>start\<close> to their new values; every
  \<^verbatim>\<open>break\<close> goes on with the next block.
\<close>

function scan_block :: "nat \<Rightarrow> nat \<Rightarrow> u64 \<Rightarrow> nat \<Rightarrow> nat \<Rightarrow> nat \<times> nat" where
  "scan_block n blockIx block remains start =
     (let position = bit_scan_forward_64 block in
      if position \<noteq> UINT64_MAX then
        if start \<noteq> invalid_page_ix then
          if block AND bits_below remains = bits_below remains then (remains - min remains k_h_val, start)
          else scan_block n blockIx (clear_run block) n invalid_page_ix
        else
          let endPosition = position + remains;
              normalizedBlock = st_mask position AND bits_below endPosition in
          if block AND normalizedBlock = normalizedBlock
          then (remains - (min endPosition k_h_val - position), push_bit k_flag_bound blockIx + position)
          else scan_block n blockIx (clear_run block) remains start
      else (n, invalid_page_ix))"
  by pat_completeness auto
termination
  by (relation "measure (\<lambda>(n, blockIx, block, remains, start). unat block)")
    (auto simp: bsf_max clear_run_less)

declare scan_block.simps [simp del]

fun scan_blocks :: "nat \<Rightarrow> nat \<Rightarrow> u64 list \<Rightarrow> nat \<Rightarrow> nat \<Rightarrow> nat \<times> nat" where
  "scan_blocks n blockIx [] remains start = (remains, start)"
| "scan_blocks n blockIx (block # bs) remains start =
     (if remains > 0 then
        let (remains, start) = scan_block n blockIx block remains start in
        scan_blocks n (blockIx + 1) bs remains start
      else (remains, start))"

definition getBitScanStreamRevWord :: "nat \<Rightarrow> u64 list \<Rightarrow> nat" where
  "getBitScanStreamRevWord numberOfSetBits bs =
     (let (remains, start) = scan_blocks numberOfSetBits 0 bs numberOfSetBits invalid_page_ix in
      if remains > 0 then invalid_page_ix else start)"


text \<open>
  The state of the search before block \<open>b\<close>: nothing found yet, or a run of free pages that begins
  at \<open>start\<close>, lacks \<open>remains\<close> of the \<open>n\<close> pages and ends with block \<open>b\<close> if pages are missing.
\<close>

definition search_ok :: "u64 list \<Rightarrow> nat \<Rightarrow> nat \<Rightarrow> nat \<times> nat \<Rightarrow> bool" where
  "search_ok bs b n rs \<longleftrightarrow> (case rs of (r, s) \<Rightarrow>
     (s = invalid_page_ix \<and> r = n) \<or>
     (s \<noteq> invalid_page_ix \<and> r \<le> n \<and> s + (n - r) \<le> 64 * b \<and> (r > 0 \<longrightarrow> s + (n - r) = 64 * b) \<and>
      (\<forall>i. s \<le> i \<longrightarrow> i < s + (n - r) \<longrightarrow> stream_bit bs i)))"

lemma and_eq_iff_bits: "w AND m = m \<longleftrightarrow> (\<forall>j. bit m j \<longrightarrow> bit w j)" for w :: u64
proof -
  have "bit m j \<Longrightarrow> j < 64" for j using bit_imp_le_length [of m j] by simp
  then show ?thesis by (auto simp: bit_eq_iff bit_and_iff)
qed

lemma bit_st_mask: "bit (st_mask p) j \<longleftrightarrow> p \<le> j \<and> j < 64"
  by (auto simp: st_mask_def bit_not_iff bit_mask_iff)

lemma stream_bit_block: "j < 64 \<Longrightarrow> stream_bit bs (64 * b + j) \<longleftrightarrow> bit (bs ! b) j"
  by (simp add: stream_bit_def)

lemma stream_bits_of_block:
  assumes "\<And>j. bit w j \<Longrightarrow> bit (bs ! b) j" "\<And>j. p \<le> j \<Longrightarrow> j < q \<Longrightarrow> j < 64 \<Longrightarrow> bit w j"
    "64 * b + p \<le> i" "i < 64 * b + min q 64"
  shows "stream_bit bs i"
proof -
  have "stream_bit bs (64 * b + (i - 64 * b)) \<longleftrightarrow> bit (bs ! b) (i - 64 * b)"
    using assms(4) by (intro stream_bit_block) auto
  moreover have "bit w (i - 64 * b)" using assms(2) [of "i - 64 * b"] assms(3,4) by auto
  ultimately show ?thesis using assms(1) assms(3) by auto
qed

lemma search_extend:
  assumes "search_ok bs b n (r, s)" "s \<noteq> invalid_page_ix" "0 < r"
    "\<And>i. 64 * b \<le> i \<Longrightarrow> i < 64 * b + min r 64 \<Longrightarrow> stream_bit bs i"
  shows "search_ok bs (b + 1) n (r - min r 64, s)"
proof -
  have r: "r \<le> n" "s + (n - r) = 64 * b" "\<And>i. s \<le> i \<Longrightarrow> i < 64 * b \<Longrightarrow> stream_bit bs i"
    using assms(1-3) by (auto simp: search_ok_def)
  then have e: "s + (n - (r - min r 64)) = 64 * b + min r 64" by auto
  have "stream_bit bs i" if "s \<le> i" "i < 64 * b + min r 64" for i
    using r(3) [OF that(1)] assms(4) [of i] that(2) by (cases "i < 64 * b") auto
  then show ?thesis using e r(1) assms(2) by (auto simp: search_ok_def)
qed

lemma search_begin:
  assumes "0 < r" "r = n" "p < 64" "64 * b + p \<noteq> invalid_page_ix"
    "\<And>i. 64 * b + p \<le> i \<Longrightarrow> i < 64 * b + min (p + r) 64 \<Longrightarrow> stream_bit bs i"
  shows "search_ok bs (b + 1) n (r - (min (p + r) 64 - p), 64 * b + p)"
proof -
  have "64 * b + p + (n - (r - (min (p + r) 64 - p))) = 64 * b + min (p + r) 64" using assms(1-3) by auto
  then show ?thesis using assms by (auto simp: search_ok_def)
qed

lemma scan_block_ok:
  assumes "search_ok bs b n (remains, start)" "0 < remains" "\<And>j. bit w j \<Longrightarrow> bit (bs ! b) j" "64 * (b + 1) < 2 ^ 32"
  shows "search_ok bs (b + 1) n (scan_block n b w remains start)"
  using assms
proof (induction n b w remains start rule: scan_block.induct)
  case (1 n b w remains start)
  let ?p = "bit_scan_forward_64 w"
  have sub: "\<And>j. bit (clear_run w) j \<Longrightarrow> bit (bs ! b) j" using "1.prems"(3) by (simp add: clear_run_def bit_and_iff)
  have none: "search_ok bs b n (n, invalid_page_ix)" "search_ok bs (b + 1) n (n, invalid_page_ix)"
    by (simp_all add: search_ok_def)
  have n: "0 < n" using "1.prems"(1,2) by (auto simp: search_ok_def)
  consider "w = 0"
    | "w \<noteq> 0" "start \<noteq> invalid_page_ix" "w AND bits_below remains = bits_below remains"
    | "w \<noteq> 0" "start \<noteq> invalid_page_ix" "w AND bits_below remains \<noteq> bits_below remains"
    | "w \<noteq> 0" "start = invalid_page_ix"
        "w AND (st_mask ?p AND bits_below (?p + remains)) = st_mask ?p AND bits_below (?p + remains)"
    | "w \<noteq> 0" "start = invalid_page_ix"
        "w AND (st_mask ?p AND bits_below (?p + remains)) \<noteq> st_mask ?p AND bits_below (?p + remains)"
    by blast
  then show ?case
  proof cases
    case 1
    then show ?thesis using none by (subst scan_block.simps) (simp add: bsf_max)
  next
    case 2
    have "bit w j" if "0 \<le> j" "j < remains" "j < 64" for j
      using 2(3) that by (simp add: and_eq_iff_bits bit_bits_below)
    then have "stream_bit bs i" if "64 * b \<le> i" "i < 64 * b + min remains 64" for i
      using that stream_bits_of_block [of w bs b 0 remains i] "1.prems"(3) by auto
    then have "search_ok bs (b + 1) n (remains - min remains 64, start)"
      using search_extend [OF "1.prems"(1) 2(2) "1.prems"(2)] by blast
    with 2 show ?thesis by (subst scan_block.simps) (simp add: bsf_max k_h_val_def)
  next
    case 3
    with "1.IH"(1) [of ?p] none(1) n sub "1.prems"(4) show ?thesis
      by (subst scan_block.simps) (simp add: bsf_max)
  next
    case 4
    have p: "?p < 64" using bsf(2) [OF 4(1)] .
    have "bit w j" if "?p \<le> j" "j < ?p + remains" "j < 64" for j
      using 4(3) that by (simp add: and_eq_iff_bits bit_bits_below bit_st_mask bit_and_iff)
    from stream_bits_of_block [of w bs b, OF "1.prems"(3) this]
    have "stream_bit bs i" if "64 * b + ?p \<le> i" "i < 64 * b + min (?p + remains) 64" for i using that by blast
    moreover have "64 * b + ?p \<noteq> invalid_page_ix" using p "1.prems"(4) by (simp add: invalid_page_ix_def)
    ultimately have "search_ok bs (b + 1) n (remains - (min (?p + remains) 64 - ?p), 64 * b + ?p)"
      using "1.prems"(1,2) 4(2) p by (intro search_begin) (auto simp: search_ok_def)
    then show ?thesis using 4
      by (subst scan_block.simps) (simp add: bsf_max k_h_val_def k_flag_bound_def push_bit_eq_mult mult.commute Let_def)
  next
    case 5
    with "1.IH"(2) [of ?p] "1.prems"(1,2) sub "1.prems"(4) show ?thesis
      by (subst scan_block.simps) (simp add: bsf_max Let_def)
  qed
qed

lemma scan_blocks_ok:
  "search_ok bs0 b n (remains, start) \<Longrightarrow> bs = drop b bs0 \<Longrightarrow> 64 * length bs0 < 2 ^ 32 \<Longrightarrow> b \<le> length bs0 \<Longrightarrow>
    search_ok bs0 (length bs0) n (scan_blocks n b bs remains start)"
proof (induction n b bs remains start rule: scan_blocks.induct)
  case (1 n b remains start)
  then show ?case by simp
next
  case (2 n b w bs remains start)
  have b: "b < length bs0" using "2.prems"(2) by (cases "b < length bs0") auto
  then have w: "w = bs0 ! b" "bs = drop (b + 1) bs0" using "2.prems"(2) by (simp_all add: Cons_nth_drop_Suc [symmetric])
  show ?case
  proof (cases "remains > 0")
    case True
    have "search_ok bs0 (b + 1) n (scan_block n b w remains start)"
      using True "2.prems" b w by (intro scan_block_ok) auto
    then show ?thesis using True "2.IH" [OF True] "2.prems"(3) b w(2)
      by (cases "scan_block n b w remains start") auto
  next
    case False
    then show ?thesis using "2.prems"(1) b by (auto simp: search_ok_def)
  qed
qed

text \<open>What the search returns is a run of free pages inside the map.\<close>

lemma scan_sound:
  assumes "getBitScanStreamRevWord n bs = k" "k \<noteq> invalid_page_ix" "64 * length bs < 2 ^ 32"
  shows "k + n \<le> 64 * length bs" "k \<le> i \<Longrightarrow> i < k + n \<Longrightarrow> stream_bit bs i"
proof -
  obtain r s where rs: "scan_blocks n 0 bs n invalid_page_ix = (r, s)" by fastforce
  have "search_ok bs 0 n (n, invalid_page_ix)" by (simp add: search_ok_def)
  from scan_blocks_ok [OF this, of bs] assms(3) rs have "search_ok bs (length bs) n (r, s)" by simp
  then show "k + n \<le> 64 * length bs" "k \<le> i \<Longrightarrow> i < k + n \<Longrightarrow> stream_bit bs i"
    using assms(1,2) rs by (auto simp: search_ok_def getBitScanStreamRevWord_def split: if_splits)
qed

text \<open>A single free page is always found.\<close>

lemma scan_block_one:
  "scan_block 1 b w 1 invalid_page_ix = (if w = 0 then (1, invalid_page_ix) else (0, 64 * b + bit_scan_forward_64 w))"
proof (cases "w = 0")
  case False
  have "bit w j" if "bit (st_mask (bit_scan_forward_64 w) AND bits_below (bit_scan_forward_64 w + 1)) j" for j
    using that bsf(1) [OF False] by (auto simp: bit_and_iff bit_st_mask bit_bits_below le_less_Suc_eq)
  then show ?thesis using False bsf(2) [OF False]
    by (subst scan_block.simps)
      (simp add: bsf_max Let_def and_eq_iff_bits k_h_val_def k_flag_bound_def push_bit_eq_mult mult.commute min_def)
qed (simp add: scan_block.simps bsf_max)

lemma scan_one:
  assumes "stream_bit bs i" "i < 64 * length bs" "64 * length bs < 2 ^ 32"
  shows "getBitScanStreamRevWord 1 bs \<noteq> invalid_page_ix"
proof -
  have fin: "scan_blocks 1 b' xs 0 s = (0, s)" for b' xs s by (cases xs) auto
  have "\<exists>w \<in> set xs. w \<noteq> 0 \<Longrightarrow> 64 * (b + length xs) < 2 ^ 32 \<Longrightarrow>
      \<exists>s. scan_blocks 1 b xs 1 invalid_page_ix = (0, s) \<and> s \<noteq> invalid_page_ix" for b xs
  proof (induction xs arbitrary: b)
    case (Cons w xs)
    show ?case
    proof (cases "w = 0")
      case True
      then have "\<exists>w \<in> set xs. w \<noteq> 0" "64 * (b + 1 + length xs) < 2 ^ 32" using Cons.prems by auto
      from Cons.IH [OF this] True show ?thesis by (simp add: scan_block_one [simplified])
    next
      case False
      then have "scan_blocks 1 b (w # xs) 1 invalid_page_ix = (0, 64 * b + bit_scan_forward_64 w)"
        by (simp add: scan_block_one [simplified] fin [simplified])
      then show ?thesis using bsf(2) [OF False] Cons.prems(2) by (simp add: invalid_page_ix_def)
    qed
  qed simp
  moreover have "i div 64 < length bs" "bs ! (i div 64) \<noteq> 0" "64 * (0 + length bs) < 2 ^ 32"
    using assms by (auto simp: stream_bit_def)
  ultimately obtain s where "scan_blocks 1 0 bs 1 invalid_page_ix = (0, s)" "s \<noteq> invalid_page_ix"
    using nth_mem [of "i div 64" bs] by blast
  then show ?thesis by (simp add: getBitScanStreamRevWord_def)
qed

text \<open>In a map of which every page is free, a run of any length that fits is found at its beginning.\<close>

lemma bsf_ones: "bit_scan_forward_64 (- 1) = 0"
  using bsf(3) [of "- 1" 0] by auto

lemma scan_block_ones:
  "s \<noteq> invalid_page_ix \<Longrightarrow> scan_block n b (- 1) r s = (r - min r 64, s)"
  "scan_block n b (- 1) r invalid_page_ix = (r - min r 64, 64 * b)"
  by (subst scan_block.simps; simp add: bsf_ones UINT64_MAX_def k_h_val_def k_flag_bound_def push_bit_eq_mult Let_def)+

lemma scan_blocks_ones:
  "s \<noteq> invalid_page_ix \<Longrightarrow> \<forall>w \<in> set bs. w = - 1 \<Longrightarrow> scan_blocks n b bs r s = (r - 64 * length bs, s)"
proof (induction bs arbitrary: b r)
  case (Cons w bs)
  then show ?case by (cases "r = 0") (simp_all add: scan_block_ones(1) min_def)
qed simp

lemma scan_all_free:
  assumes "\<forall>i < 64 * length bs. stream_bit bs i" "0 < n" "n \<le> 64 * length bs"
  shows "getBitScanStreamRevWord n bs = 0"
proof -
  have "w = - 1" if "w \<in> set bs" for w
  proof -
    obtain b where b: "b < length bs" "w = bs ! b" using \<open>w \<in> set bs\<close> by (auto simp: in_set_conv_nth)
    have "bit w j" if "j < 64" for j
    proof -
      have "64 * b + j < 64 * length bs" using b(1) that by linarith
      then show ?thesis using assms(1) stream_bit_block [OF that, of bs b] b(2) by blast
    qed
    then show ?thesis by (intro bit_word_eqI) simp
  qed
  then have ones: "\<forall>w \<in> set bs. w = - 1" by blast
  obtain w ws where bs: "bs = w # ws" using assms(2,3) by (cases bs) auto
  have "w = - 1" "\<forall>x \<in> set ws. x = - 1" using ones bs by auto
  moreover have "0 \<noteq> invalid_page_ix" by (simp add: invalid_page_ix_def)
  ultimately have "scan_blocks n 0 bs n invalid_page_ix = (n - min n 64 - 64 * length ws, 0)"
    using assms(2) bs scan_blocks_ones [of 0 ws n 1 "n - min n 64"] by (simp add: scan_block_ones(2))
  then show ?thesis using assms(3) bs by (simp add: getBitScanStreamRevWord_def)
qed

end
