(* ===== verification/Sdk_Page_Layout.thy ===== *)
theory Sdk_Page_Layout
  imports Sdk_Prelude
begin

text \<open>
  The specification behind the bookkeeping of \<^verbatim>\<open>tools/heap_allocator.hpp\<close>: blocks \<open>(o, n)\<close> of \<open>n\<close> bytes
  at offset \<open>o\<close> on pages of \<open>P\<close> bytes. A block lies inside one page, or begins with a page. A page
  is free if no block touches it, and its usage counts the bytes of the blocks that end in it.
\<close>

type_synonym blk = "nat \<times> nat"

definition touches :: "nat \<Rightarrow> nat \<Rightarrow> blk \<Rightarrow> bool" where
  "touches P i b \<longleftrightarrow> fst b < i * P + P \<and> i * P < fst b + snd b"

definition last_page :: "nat \<Rightarrow> blk \<Rightarrow> nat" where
  "last_page P b = (fst b + snd b - 1) div P"

text \<open>The bytes on the last page.\<close>

definition tail_bytes :: "nat \<Rightarrow> nat \<Rightarrow> nat" where
  "tail_bytes P n = (n - 1) mod P + 1"

definition blk_ok :: "nat \<Rightarrow> nat \<Rightarrow> blk \<Rightarrow> bool" where
  "blk_ok P N b \<longleftrightarrow> 16 < snd b \<and> fst b mod 16 = 0 \<and> fst b + snd b \<le> N * P \<and>
     (fst b mod P + snd b \<le> P \<or> fst b mod P = 0)"

definition blk_apart :: "blk \<Rightarrow> blk \<Rightarrow> bool" where
  "blk_apart a b \<longleftrightarrow> fst a + snd a \<le> fst b \<or> fst b + snd b \<le> fst a"

lemma blk_apart_sym: "blk_apart a b \<longleftrightarrow> blk_apart b a" by (auto simp: blk_apart_def)

definition page_usage :: "nat \<Rightarrow> blk set \<Rightarrow> nat \<Rightarrow> nat" where
  "page_usage P L i = (\<Sum>b \<in> {b \<in> L. last_page P b = i}. tail_bytes P (snd b))"

definition layout :: "nat \<Rightarrow> nat \<Rightarrow> blk set \<Rightarrow> (nat \<Rightarrow> bool) \<Rightarrow> (nat \<Rightarrow> nat) \<Rightarrow> bool" where
  "layout P N L F U \<longleftrightarrow> finite L \<and> (\<forall>b \<in> L. blk_ok P N b) \<and>
     (\<forall>a \<in> L. \<forall>b \<in> L. a \<noteq> b \<longrightarrow> blk_apart a b) \<and>
     (\<forall>i < N. F i \<longleftrightarrow> \<not> (\<exists>b \<in> L. touches P i b)) \<and> (\<forall>i < N. U i = page_usage P L i)"

lemma page_bounds:
  assumes "0 < (P :: nat)"
  shows "x div P = i \<longleftrightarrow> i * P \<le> x \<and> x < i * P + P"
  using assms by (metis div_nat_eqI dividend_less_times_div mult.commute mult_Suc_right times_div_less_eq_dividend add.commute)

lemma pages_mod_16:
  assumes "P mod 16 = (0 :: nat)"
  shows "(k * P + x) mod 16 = x mod 16"
proof -
  obtain q where "P = 16 * q" using assms by auto
  then have "k * P + x = 16 * (k * q) + x" by simp
  then show ?thesis by (simp only: mod_mult_self4)
qed

lemma tail_bytes_eq:
  assumes "0 < P" "(m - 1) * P < n" "n \<le> m * P"
  shows "tail_bytes P n = n - (m - 1) * P"
proof -
  have "(n - 1) div P = m - 1" using assms by (cases m) (auto simp: page_bounds)
  then show ?thesis using assms(2) by (simp add: tail_bytes_def minus_mult_div_eq_mod [symmetric] mult.commute)
qed

lemma tail_bytes_le: "n \<le> P \<Longrightarrow> 0 < n \<Longrightarrow> tail_bytes P n = n"
  by (simp add: tail_bytes_def)

lemma tail_bytes_pos [simp]: "0 < tail_bytes P n" "tail_bytes P n \<noteq> 0" by (simp_all add: tail_bytes_def)

lemma last_touched:
  assumes "0 < P" "0 < snd b"
  shows "touches P (last_page P b) b" "touches P i b \<Longrightarrow> i \<le> last_page P b"
proof -
  let ?x = "fst b + snd b - 1"
  have x: "?x div P * P \<le> ?x" "?x < ?x div P * P + P" using page_bounds [OF assms(1), of ?x] by auto
  then show "touches P (last_page P b) b" using assms(2) unfolding touches_def last_page_def by (intro conjI; linarith)
  assume "touches P i b"
  then have "i * P \<le> ?x" by (auto simp: touches_def)
  then show "i \<le> last_page P b" using assms(1) by (simp add: last_page_def less_eq_div_iff_mult_less_eq)
qed

lemma touches_iff:
  assumes "0 < P" "0 < snd b"
  shows "touches P i b \<longleftrightarrow> fst b div P \<le> i \<and> i \<le> last_page P b"
proof -
  have "i \<le> last_page P b \<longleftrightarrow> i * P \<le> fst b + snd b - 1"
    using assms(1) by (simp add: last_page_def less_eq_div_iff_mult_less_eq)
  moreover have "fst b div P \<le> i \<longleftrightarrow> fst b < i * P + P"
    using assms(1) div_less_iff_less_mult [of P "fst b" "Suc i"] by (simp add: less_Suc_eq_le add.commute)
  ultimately show ?thesis using assms(2) unfolding touches_def by linarith
qed

text \<open>A block in one page, and a block from the begin of a page on.\<close>

lemma blk_shape:
  assumes "blk_ok P N b" "0 < P" "l = last_page P b"
  shows "l < N" "tail_bytes P (snd b) \<le> snd b"
    "(l * P \<le> fst b \<and> tail_bytes P (snd b) = snd b) \<or>
     (fst b \<le> l * P \<and> fst b mod P = 0 \<and> tail_bytes P (snd b) = fst b + snd b - l * P)"
    "l * P < fst b + snd b" "fst b + snd b \<le> l * P + P"
proof -
  let ?x = "fst b + snd b - 1"
  have n: "0 < snd b" using assms(1) by (simp add: blk_ok_def)
  have x: "l * P \<le> ?x" "?x < l * P + P" using page_bounds [OF assms(2), of ?x] assms(3) by (auto simp: last_page_def)
  then show b: "l * P < fst b + snd b" "fst b + snd b \<le> l * P + P" using n by auto
  have "fst b + snd b \<le> N * P" using assms(1) by (simp add: blk_ok_def)
  with b(1) have "l * P < N * P" by (rule less_le_trans)
  then show "l < N" by simp
  show "tail_bytes P (snd b) \<le> snd b"
    using mod_less_eq_dividend [of "snd b - 1" P] n unfolding tail_bytes_def by linarith
  show "(l * P \<le> fst b \<and> tail_bytes P (snd b) = snd b) \<or>
     (fst b \<le> l * P \<and> fst b mod P = 0 \<and> tail_bytes P (snd b) = fst b + snd b - l * P)"
  proof (cases "fst b mod P = 0")
    case True
    define k where "k = fst b div P"
    have k: "fst b = k * P" using True by (auto simp: k_def)
    have "k * P < l * P + P" using k b(2) n by auto
    then have "k < l + 1" using mult_less_cancel2 [of k P "l + 1"] by simp
    then have kl: "k \<le> l" by simp
    have lk: "(l - k) * P = l * P - k * P" "k * P \<le> l * P" using mult_le_mono1 [OF kl, of P] by (simp_all add: diff_mult_distrib)
    have "tail_bytes P (snd b) = snd b - (l - k + 1 - 1) * P"
    proof (rule tail_bytes_eq [OF assms(2)])
      show "(l - k + 1 - 1) * P < snd b" using lk b(1) k by (simp; linarith)
      show "snd b \<le> (l - k + 1) * P" using lk b(2) k by (simp; linarith)
    qed
    then have "tail_bytes P (snd b) = fst b + snd b - l * P" using lk k b(1) by (simp; linarith)
    then show ?thesis using True k kl by simp
  next
    case False
    then have f: "fst b mod P + snd b \<le> P" using assms(1) by (simp add: blk_ok_def)
    have "?x div P = fst b div P"
      using f n div_mult_mod_eq [of "fst b" P] by (subst page_bounds [OF assms(2)]) linarith
    then have "l = fst b div P" using assms(3) by (simp add: last_page_def)
    then show ?thesis using f n by (auto simp: tail_bytes_le)
  qed
qed


section \<open>Usage\<close>

definition tail_span :: "nat \<Rightarrow> blk \<Rightarrow> nat set" where
  "tail_span P b = {fst b + snd b - tail_bytes P (snd b) ..< fst b + snd b}"

lemma page_usage_le:
  assumes "finite L" "0 < P" "\<And>b. b \<in> L \<Longrightarrow> blk_ok P N b" "\<And>a b. a \<in> L \<Longrightarrow> b \<in> L \<Longrightarrow> a \<noteq> b \<Longrightarrow> blk_apart a b"
  shows "page_usage P L i \<le> P"
proof -
  define M where "M = {b \<in> L. last_page P b = i}"
  have M: "finite M" "\<And>b. b \<in> M \<Longrightarrow> b \<in> L" "\<And>b. b \<in> M \<Longrightarrow> last_page P b = i" using assms(1) by (auto simp: M_def)
  have span: "card (tail_span P b) = tail_bytes P (snd b)" "tail_span P b \<subseteq> {fst b ..< fst b + snd b}"
    "tail_span P b \<subseteq> {i * P ..< i * P + P}" if "b \<in> M" for b
    using blk_shape [OF assms(3) [OF M(2) [OF that]] assms(2) M(3) [OF that, symmetric]]
    by (auto simp: tail_span_def)
  have "tail_span P a \<inter> tail_span P b = {}" if "a \<in> M" "b \<in> M" "a \<noteq> b" for a b
  proof -
    have "{fst a ..< fst a + snd a} \<inter> {fst b ..< fst b + snd b} = {}"
      using assms(4) [OF M(2) [OF that(1)] M(2) [OF that(2)] that(3)] by (auto simp: blk_apart_def)
    then show ?thesis using span(2) [OF that(1)] span(2) [OF that(2)] by blast
  qed
  then have "card (\<Union>b \<in> M. tail_span P b) = (\<Sum>b \<in> M. card (tail_span P b))"
    using M(1) by (intro card_UN_disjoint) (auto simp: tail_span_def)
  also have "\<dots> = page_usage P L i" using span(1) by (simp add: page_usage_def M_def)
  finally have "page_usage P L i = card (\<Union>b \<in> M. tail_span P b)" ..
  also have "\<dots> \<le> card {i * P ..< i * P + P}" using span(3) by (intro card_mono) auto
  finally show ?thesis by simp
qed

lemma page_usage_insert:
  assumes "finite L" "b \<notin> L"
  shows "page_usage P (insert b L) i = page_usage P L i + (if last_page P b = i then tail_bytes P (snd b) else 0)"
proof -
  have "{x \<in> insert b L. last_page P x = i} =
      (if last_page P b = i then insert b {x \<in> L. last_page P x = i} else {x \<in> L. last_page P x = i})"
    by auto
  then show ?thesis using assms by (simp add: page_usage_def)
qed

lemma page_usage_zero:
  assumes "finite L"
  shows "page_usage P L i = 0 \<longleftrightarrow> (\<forall>b \<in> L. last_page P b \<noteq> i)"
  using assms by (auto simp: page_usage_def)

section \<open>Changes of the layout\<close>

lemma layout_add:
  assumes "layout P N L F U" "0 < P" "blk_ok P N b" "\<And>a. a \<in> L \<Longrightarrow> blk_apart a b"
  shows "layout P N (insert b L) (\<lambda>i. F i \<and> \<not> touches P i b)
      (U(last_page P b := U (last_page P b) + tail_bytes P (snd b)))"
    "U (last_page P b) + tail_bytes P (snd b) \<le> P" "b \<notin> L"
proof -
  let ?l = "last_page P b"
  have L: "finite L" "\<And>a. a \<in> L \<Longrightarrow> blk_ok P N a" "\<And>x y. x \<in> L \<Longrightarrow> y \<in> L \<Longrightarrow> x \<noteq> y \<Longrightarrow> blk_apart x y"
    "\<And>i. i < N \<Longrightarrow> U i = page_usage P L i" "\<And>i. i < N \<Longrightarrow> F i \<longleftrightarrow> \<not> (\<exists>b \<in> L. touches P i b)"
    using assms(1) by (auto simp: layout_def)
  show new: "b \<notin> L" using assms(3) assms(4) [of b] by (auto simp: blk_apart_def blk_ok_def)
  have l: "?l < N" using blk_shape(1) [OF assms(3,2) refl] .
  have ap: "blk_apart x y" if "x \<in> insert b L" "y \<in> insert b L" "x \<noteq> y" for x y
    using that L(3) assms(4) blk_apart_sym by blast
  have ok: "blk_ok P N x" if "x \<in> insert b L" for x using that L(2) assms(3) by blast
  have u: "U ?l + tail_bytes P (snd b) = page_usage P (insert b L) ?l"
    using L(4) [OF l] page_usage_insert [OF L(1) new] by simp
  then show "U ?l + tail_bytes P (snd b) \<le> P"
    using page_usage_le [of "insert b L" P N ?l] L(1) assms(2) ok ap by auto
  show "layout P N (insert b L) (\<lambda>i. F i \<and> \<not> touches P i b) (U(?l := U ?l + tail_bytes P (snd b)))"
    unfolding layout_def using L(1,4,5) ok ap u page_usage_insert [OF L(1) new] by auto
qed

lemma layout_remove:
  assumes "layout P N L F U" "0 < P" "b \<in> L" "l = last_page P b"
  shows "tail_bytes P (snd b) \<le> U l"
    "layout P N (L - {b})
       (\<lambda>i. F i \<or> (fst b div P \<le> i \<and> i < l) \<or> (i = l \<and> U l = tail_bytes P (snd b)))
       (U(l := U l - tail_bytes P (snd b)))"
proof -
  have L: "finite L" "\<And>a. a \<in> L \<Longrightarrow> blk_ok P N a" "\<And>x y. x \<in> L \<Longrightarrow> y \<in> L \<Longrightarrow> x \<noteq> y \<Longrightarrow> blk_apart x y"
    "\<And>i. i < N \<Longrightarrow> U i = page_usage P L i" "\<And>i. i < N \<Longrightarrow> F i \<longleftrightarrow> \<not> (\<exists>b \<in> L. touches P i b)"
    using assms(1) by (auto simp: layout_def)
  let ?L = "L - {b}"
  have ins: "insert b ?L = L" "finite ?L" "b \<notin> ?L" using assms(3) L(1) by auto
  have shape: "l < N" "(l * P \<le> fst b \<and> tail_bytes P (snd b) = snd b) \<or>
     (fst b \<le> l * P \<and> fst b mod P = 0 \<and> tail_bytes P (snd b) = fst b + snd b - l * P)"
    "l * P < fst b + snd b" "fst b + snd b \<le> l * P + P"
    using blk_shape [OF L(2) [OF assms(3)] assms(2,4)] by blast+
  have u: "U i = page_usage P ?L i + (if l = i then tail_bytes P (snd b) else 0)" if "i < N" for i
    using page_usage_insert [OF ins(2,3), of P i] ins(1) L(4) [OF that] assms(4) by simp
  then show "tail_bytes P (snd b) \<le> U l" using shape(1) by simp
  have last: "last_page P a = l" if a: "a \<in> ?L" "touches P l a" for a
  proof (rule ccontr)
    assume ne: "last_page P a \<noteq> l"
    let ?m = "last_page P a"
    have a': "blk_ok P N a" "blk_apart a b" using a(1) L(2,3) assms(3) by auto
    then have "0 < snd a" by (simp add: blk_ok_def)
    from last_touched(2) [OF assms(2) this a(2)] ne have "Suc l \<le> ?m" by simp
    from mult_le_mono1 [OF this, of P] have m: "l * P + P \<le> ?m * P" by simp
    have t: "fst a < l * P + P" "fst a mod P = 0" "?m * P < fst a + snd a"
      using a(2) blk_shape(3,4) [OF a'(1) assms(2) refl] m by (auto simp: touches_def)
    have "fst a = fst a div P * P" using t(2) by auto
    moreover have "fst a div P < Suc l" using t(1) assms(2) by (simp add: div_less_iff_less_mult add.commute)
    ultimately have "fst a \<le> l * P" by (metis less_Suc_eq_le mult_le_mono1)
    with a'(2) t(3) m shape(3,4) show False unfolding blk_apart_def by linarith
  qed
  have inner: "\<not> touches P i a" if i: "fst b div P \<le> i" "i < l" "a \<in> ?L" for i a
  proof
    assume t: "touches P i a"
    have "Suc i * P \<le> l * P" using i(2) by (intro mult_le_mono1) simp
    then have il: "i * P + P \<le> l * P" by simp
    have "fst b < i * P + P" using i(1) assms(2) div_less_iff_less_mult [of P "fst b" "Suc i"] by (simp add: add.commute)
    then have "fst b mod P = 0" using shape(2) il by auto
    then have "fst b \<le> i * P" using i(1) by (metis add_0_right div_mult_mod_eq mult_le_mono1)
    moreover have "blk_apart a b" using i(3) L(3) assms(3) by auto
    ultimately show False using t il shape(3) unfolding touches_def blk_apart_def by linarith
  qed
  have n: "0 < snd b" using L(2) [OF assms(3)] by (simp add: blk_ok_def)
  have zero: "U l = tail_bytes P (snd b) \<longleftrightarrow> \<not> (\<exists>a \<in> ?L. touches P l a)"
  proof -
    have "U l = tail_bytes P (snd b) \<longleftrightarrow> (\<forall>a \<in> ?L. last_page P a \<noteq> l)"
      using u [OF shape(1)] page_usage_zero [OF ins(2), of P l] by simp
    moreover have "touches P l a" if "a \<in> ?L" "last_page P a = l" for a
      using last_touched(1) [OF assms(2), of a] that L(2) [of a] by (auto simp: blk_ok_def)
    ultimately show ?thesis using last by blast
  qed
  have free: "F i \<or> (fst b div P \<le> i \<and> i < l) \<or> (i = l \<and> U l = tail_bytes P (snd b)) \<longleftrightarrow>
      \<not> (\<exists>a \<in> ?L. touches P i a)" if "i < N" for i
  proof (cases "touches P i b")
    case True
    then have "fst b div P \<le> i" "i \<le> l" using touches_iff [OF assms(2) n] assms(4) by auto
    moreover have "\<not> F i" using L(5) [OF that] True assms(3) by auto
    ultimately show ?thesis using inner [of i] zero by (cases "i = l") auto
  next
    case False
    then have "\<not> (fst b div P \<le> i \<and> i \<le> l)" using touches_iff [OF assms(2) n] assms(4) by auto
    moreover have "(\<exists>a \<in> ?L. touches P i a) \<longleftrightarrow> (\<exists>a \<in> L. touches P i a)" using False by auto
    moreover have "fst b div P \<le> l" using touches_iff [OF assms(2) n] last_touched(1) [OF assms(2) n] assms(4) by auto
    ultimately show ?thesis using L(5) [OF that] by auto
  qed
  show "layout P N ?L
       (\<lambda>i. F i \<or> (fst b div P \<le> i \<and> i < l) \<or> (i = l \<and> U l = tail_bytes P (snd b)))
       (U(l := U l - tail_bytes P (snd b)))"
    unfolding layout_def using ins(2) L(2,3) free u by auto
qed

lemma layout_cong:
  assumes "layout P N L F U" "\<And>i. i < N \<Longrightarrow> F i \<longleftrightarrow> F' i" "\<And>i. i < N \<Longrightarrow> U i = U' i"
  shows "layout P N L F' U'"
  using assms by (auto simp: layout_def)

lemma layout_empty: "(\<And>i. i < N \<Longrightarrow> F i) \<Longrightarrow> (\<And>i. i < N \<Longrightarrow> U i = 0) \<Longrightarrow> layout P N {} F U"
  by (auto simp: layout_def page_usage_def)

text \<open>A run of free pages does not meet any block.\<close>

lemma layout_free_run:
  assumes "layout P N L F U" "0 < P" "0 < m" "k + m \<le> N" "\<And>i. k \<le> i \<Longrightarrow> i < k + m \<Longrightarrow> F i" "a \<in> L"
  shows "fst a + snd a \<le> k * P \<or> (k + m) * P \<le> fst a"
proof (rule ccontr)
  assume "\<not> ?thesis"
  then have a: "k * P < fst a + snd a" "fst a < (k + m) * P" by auto
  let ?i = "max (fst a div P) k"
  have n: "0 < snd a" using assms(1,6) by (auto simp: layout_def blk_ok_def)
  have d: "fst a div P * P \<le> fst a" "fst a < fst a div P * P + P" using page_bounds [OF assms(2), of "fst a"] by auto
  have "fst a div P < k + m" using a(2) assms(2) by (simp add: div_less_iff_less_mult)
  then have i: "k \<le> ?i" "?i < k + m" using assms(3) by auto
  have "touches P ?i a"
  proof (cases "fst a div P \<le> k")
    case True
    then have "fst a div P * P \<le> k * P" by (rule mult_le_mono1)
    then have "fst a < k * P + P" using d(2) by linarith
    then show ?thesis using True a(1) by (simp add: touches_def max_def)
  next
    case False
    have "fst a div P * P < fst a + snd a" using d(1) n by linarith
    then show ?thesis using False d(2) by (simp add: touches_def max_def)
  qed
  then show False using assms(1,4,6) assms(5) [OF i] i(2) by (auto simp: layout_def)
qed

text \<open>A new block on a run of free pages.\<close>

lemma layout_add_pages:
  assumes "layout P N L F U" "0 < P" "0 < m" "k + m \<le> N" "\<And>i. k \<le> i \<Longrightarrow> i < k + m \<Longrightarrow> F i"
    "16 < n" "P mod 16 = 0" "(m - 1) * P < n" "n \<le> m * P"
  shows "blk_ok P N (k * P, n)" "a \<in> L \<Longrightarrow> blk_apart a (k * P, n)" "(k * P, n) \<notin> L"
    "last_page P (k * P, n) = k + m - 1" "(k + m - 1) * P + tail_bytes P n = k * P + n"
    "layout P N (insert (k * P, n) L) (\<lambda>i. F i \<and> \<not> (k \<le> i \<and> i < k + m)) (U(k + m - 1 := tail_bytes P n))"
proof -
  let ?b = "(k * P, n)" and ?l = "k + m - 1"
  have l: "?l = k + (m - 1)" "?l < N" using assms(3,4) by auto
  show t: "?l * P + tail_bytes P n = k * P + n"
    unfolding l(1) add_mult_distrib using tail_bytes_eq [OF assms(2,8,9)] assms(8) by linarith
  have "k * P + m * P \<le> N * P" using mult_le_mono1 [OF assms(4), of P] by (simp add: add_mult_distrib)
  moreover have "k * P mod 16 = 0" using pages_mod_16 [OF assms(7), of k 0] by simp
  ultimately show ok: "blk_ok P N ?b" using assms(6,9) by (simp add: blk_ok_def)
  have run: "fst a + snd a \<le> k * P \<or> (k + m) * P \<le> fst a" if "a \<in> L" for a
    using layout_free_run [OF assms(1,2,3,4,5) that] .
  then show ap: "blk_apart a ?b" if "a \<in> L" for a
    using that assms(9) by (fastforce simp: blk_apart_def add_mult_distrib)
  show last: "last_page P ?b = ?l"
    using assms(2,3,6,8,9) l(1) unfolding last_page_def
    by (subst page_bounds [OF assms(2)]) (cases m, auto simp: add_mult_distrib)
  have "\<not> touches P ?l a" if "a \<in> L" for a using that assms(1) assms(5) [of ?l] l(2) assms(3) by (auto simp: layout_def)
  moreover have "touches P (last_page P a) a" if "a \<in> L" for a
    using that assms(1,2) by (intro last_touched(1)) (auto simp: layout_def blk_ok_def)
  ultimately have "\<forall>a \<in> L. last_page P a \<noteq> ?l" by metis
  then have "page_usage P L ?l = 0" using assms(1) by (subst page_usage_zero) (auto simp: layout_def)
  then have "U ?l = 0" using assms(1) l(2) by (simp add: layout_def)
  moreover have "touches P i ?b \<longleftrightarrow> k \<le> i \<and> i < k + m" for i
    using touches_iff [of P ?b i] assms(2,3,6) last by auto
  ultimately show "layout P N (insert ?b L) (\<lambda>i. F i \<and> \<not> (k \<le> i \<and> i < k + m)) (U(?l := tail_bytes P n))"
    "?b \<notin> L"
    using layout_add [OF assms(1,2) ok ap] last by auto
qed

end
