(* ===== verification/Sdk_Heap_Allocator.thy ===== *)
theory Sdk_Heap_Allocator
  imports Sdk_Bit_Stream Sdk_Page_Layout
begin

text \<open>
  \<^verbatim>\<open>tools/heap_allocator.hpp\<close>, release build: pages handed out by the bit map, and small blocks packed
  behind one another on the active page. Pointers are addresses, 0 is \<^verbatim>\<open>nullptr\<close>. Of the memory the
  model keeps the headers in front of the blocks; the bytes of a block that is handed out belong to
  the user. \<^term>\<open>None\<close> is an access outside the arrays, or to a header that is not there.
\<close>

section \<open>State\<close>

text \<open>\<^verbatim>\<open>__init_size\<close> and \<^verbatim>\<open>__page_size\<close>.\<close>

record ha_cfg =
  init_size :: nat
  page_size :: nat

definition num_blocks :: "ha_cfg \<Rightarrow> nat" where
  "num_blocks c = (let NP = init_size c div page_size c in
     NP div k_h_val + (if NP AND k_l_mask \<noteq> 0 then 1 else 0))"

definition num_pages :: "ha_cfg \<Rightarrow> nat" where "num_pages c = push_bit k_flag_bound (num_blocks c)"

definition allocation_size :: "ha_cfg \<Rightarrow> nat" where "allocation_size c = num_pages c * page_size c"

definition page_mask :: "ha_cfg \<Rightarrow> nat" where "page_mask c = page_size c - 1"

definition SDK_CP_ALIGNMENT :: nat where "SDK_CP_ALIGNMENT = 16"

definition sizeof_alloc_header :: nat where "sizeof_alloc_header = 8 + (SDK_CP_ALIGNMENT - 8)"

record heap_alloc =
  mem_ptr :: nat
  ha_blocks :: "u64 list"
  pagesInfo :: "nat list"
  headers :: "nat \<Rightarrow> nat option"
  active_position :: nat
  active_page :: nat

text \<open>The constructor; \<open>raw\<close> is the address of \<^verbatim>\<open>_mem_ptr_raw\<close>.\<close>

definition ha_new :: "ha_cfg \<Rightarrow> nat \<Rightarrow> heap_alloc" where
  "ha_new c raw =
     (let dif = raw AND page_mask c in
      \<lparr> mem_ptr = (if dif > 0 then raw + (page_size c - dif) else raw),
        ha_blocks = replicate (num_blocks c) (- 1), pagesInfo = replicate (num_pages c) 0,
        headers = (\<lambda>a. None), active_position = 0, active_page = 0 \<rparr>)"

definition get_memory_begin :: "heap_alloc \<Rightarrow> nat" where "get_memory_begin h = mem_ptr h"

definition get_memory_end :: "ha_cfg \<Rightarrow> heap_alloc \<Rightarrow> nat" where
  "get_memory_end c h = mem_ptr h + allocation_size c"

definition getPage :: "ha_cfg \<Rightarrow> heap_alloc \<Rightarrow> nat \<Rightarrow> nat" where
  "getPage c h ix = (if ix < num_pages c then mem_ptr h + page_size c * ix else 0)"

text \<open>The quotient of a negative difference of pointers rounds towards zero.\<close>

definition getPageIndex :: "ha_cfg \<Rightarrow> heap_alloc \<Rightarrow> nat \<Rightarrow> nat" where
  "getPageIndex c h p = (if p \<noteq> 0
     then nat ((if mem_ptr h \<le> p then int ((p - mem_ptr h) div page_size c)
       else - int ((mem_ptr h - p) div page_size c)) mod 2 ^ 32)
     else invalid_page_ix)"

text \<open>Writing a header, and handing out \<open>n\<close> bytes at \<open>p\<close> to be written by the user.\<close>

definition put_header :: "ha_cfg \<Rightarrow> nat \<Rightarrow> nat \<Rightarrow> heap_alloc \<Rightarrow> heap_alloc option" where
  "put_header c a sz h =
     (if mem_ptr h \<le> a \<and> a + sizeof_alloc_header \<le> get_memory_end c h
      then Some (h\<lparr> headers := (\<lambda>q. if q = a then Some sz
        else if q < a + sizeof_alloc_header \<and> a < q + sizeof_alloc_header then None else headers h q) \<rparr>)
      else None)"

definition hand_out :: "nat \<Rightarrow> nat \<Rightarrow> heap_alloc \<Rightarrow> heap_alloc" where
  "hand_out p n h = h\<lparr> headers := (\<lambda>q. if q < p + n \<and> p < q + sizeof_alloc_header then None else headers h q) \<rparr>"

section \<open>Operations\<close>

text \<open>The part of \<^verbatim>\<open>allocate\<close> that serves a request from the active page.\<close>

definition ha_in_page :: "ha_cfg \<Rightarrow> nat \<Rightarrow> nat \<Rightarrow> nat \<Rightarrow> heap_alloc \<Rightarrow> (nat \<times> heap_alloc) option" where
  "ha_in_page c sz needSize position h = do {
     h \<leftarrow> put_header c (active_position h) sz h;
     let ptr = active_position h + sizeof_alloc_header;
     if position < length (pagesInfo h) then
       Some (ptr, hand_out ptr sz (h\<lparr>
         pagesInfo := (pagesInfo h)[position := uw 16 (pagesInfo h ! position + uw 16 needSize)],
         active_position := active_position h + needSize \<rparr>))
     else None }"

text \<open>The number of bytes on the last page of a block.\<close>

definition lastPageUsage :: "ha_cfg \<Rightarrow> nat \<Rightarrow> nat" where
  "lastPageUsage c needSize =
     (let usage = needSize AND page_mask c in uw 16 (usage + page_size c * (if usage = 0 then 1 else 0)))"

text \<open>The part that takes new pages.\<close>

definition ha_new_pages :: "ha_cfg \<Rightarrow> nat \<Rightarrow> nat \<Rightarrow> nat \<Rightarrow> heap_alloc \<Rightarrow> (nat \<times> heap_alloc) option" where
  "ha_new_pages c sz needSize fullPagesCount h =
     (let fullPagesCount = fullPagesCount + (if needSize AND page_mask c \<noteq> 0 then 1 else 0);
          position = getBitScanStreamRevWord fullPagesCount (ha_blocks h) in
      if position \<noteq> invalid_page_ix then
        let lastPageIx = position + fullPagesCount - 1 in
        if lastPageIx < length (pagesInfo h) then
          let h = h\<lparr> pagesInfo := (pagesInfo h)[lastPageIx := lastPageUsage c needSize] \<rparr>;
              pageStart = getPage c h position in
          if pageStart \<noteq> 0 then
            let pageLast = getPage c h lastPageIx in
            if pageLast \<noteq> 0 then do {
              h \<leftarrow> put_header c pageStart sz h;
              let ptr = pageStart + sizeof_alloc_header;
              let h = (if active_position h = 0
                then h\<lparr> active_page := pageLast, active_position := pageLast + lastPageUsage c needSize \<rparr> else h);
              bs \<leftarrow> resetBitStream position fullPagesCount (ha_blocks h);
              Some (ptr, hand_out ptr sz (h\<lparr> ha_blocks := bs \<rparr>)) }
            else Some (0, h)
          else Some (0, h)
        else None
      else Some (0, h))"

definition ha_allocate :: "ha_cfg \<Rightarrow> nat \<Rightarrow> heap_alloc \<Rightarrow> (nat \<times> heap_alloc) option" where
  "ha_allocate c sz h =
     (let mask' = SDK_CP_ALIGNMENT - 1;
          sz = uw 32 (sz + (mask' AND (SDK_CP_ALIGNMENT - (sz AND mask')))) in
      if mem_ptr h \<noteq> 0 \<and> sz > 0 then
        let needSize = sz + sizeof_alloc_header;
            fullPagesCount = needSize div page_size c in
        if fullPagesCount = 0 \<and> active_position h \<noteq> 0 \<and> active_page h \<noteq> 0 then
          let fill = usub 32 (active_position h) (active_page h);
              remains = usub 32 (page_size c) fill;
              position = getPageIndex c h (active_page h) in
          if remains \<ge> needSize \<and> position < num_pages c then ha_in_page c sz needSize position h
          else ha_new_pages c sz needSize fullPagesCount (h\<lparr> active_position := 0, active_page := 0 \<rparr>)
        else ha_new_pages c sz needSize fullPagesCount h
      else Some (0, h))"

text \<open>The end of \<^verbatim>\<open>release\<close>: the usage of one page is lowered.\<close>

definition ha_drop_usage :: "ha_cfg \<Rightarrow> nat \<Rightarrow> nat \<Rightarrow> heap_alloc \<Rightarrow> heap_alloc option" where
  "ha_drop_usage c position needSize h =
     (if position < length (pagesInfo h) then
        let usage = usub 16 (pagesInfo h ! position) (uw 16 needSize);
            h = h\<lparr> pagesInfo := (pagesInfo h)[position := usage] \<rparr> in
        if usage = 0 then
          let blockIx = drop_bit k_flag_bound position; bitPosition = position AND k_l_mask in
          if blockIx < length (ha_blocks h) then
            let h = h\<lparr> ha_blocks := (ha_blocks h)[blockIx := ha_blocks h ! blockIx OR push_bit bitPosition 1] \<rparr> in
            Some (if getPageIndex c h (active_page h) = position
              then h\<lparr> active_page := 0, active_position := 0 \<rparr> else h)
          else None
        else Some h
      else None)"

definition ha_release :: "ha_cfg \<Rightarrow> nat \<Rightarrow> heap_alloc \<Rightarrow> (bool \<times> heap_alloc) option" where
  "ha_release c mem h =
     (if mem = 0 \<or> mem_ptr h = 0 then Some (False, h)
      else
        let position = getPageIndex c h mem in
        if mem < mem_ptr h \<or> position \<ge> num_pages c then Some (False, h)
        else do {
          sz \<leftarrow> headers h (mem - sizeof_alloc_header);
          if sz = 0 then Some (True, h)
          else
            let needSize = sz + sizeof_alloc_header in do {
              h \<leftarrow> (if needSize > page_size c then
                let fullPagesCount = needSize div page_size c + (if needSize AND page_mask c \<noteq> 0 then 1 else 0) in do {
                  bs \<leftarrow> setBitStream position (fullPagesCount - 1) (ha_blocks h);
                  ha_drop_usage c (position + fullPagesCount - 1) (lastPageUsage c needSize) (h\<lparr> ha_blocks := bs \<rparr>) }
                else ha_drop_usage c position needSize h);
              Some (True, h) } })"

section \<open>The layout of the memory\<close>

text \<open>
  The conditions of the static assertions, and a memory of less than two gigabytes, so that the
  enumerators of the class are of type \<^verbatim>\<open>int\<close>.
\<close>

definition ha_ok :: "ha_cfg \<Rightarrow> bool" where
  "ha_ok c \<longleftrightarrow> (\<exists>k. page_size c = 2 ^ k \<and> 10 < k \<and> k \<le> 14) \<and> 0 < num_pages c \<and> allocation_size c < 2 ^ 31"

definition free_page :: "heap_alloc \<Rightarrow> nat \<Rightarrow> bool" where
  "free_page h i \<longleftrightarrow> stream_bit (ha_blocks h) i"

definition active_ok :: "ha_cfg \<Rightarrow> heap_alloc \<Rightarrow> blk set \<Rightarrow> bool" where
  "active_ok c h L \<longleftrightarrow> (active_position h = 0 \<and> active_page h = 0) \<or>
     (\<exists>k f. k < num_pages c \<and> active_page h = mem_ptr h + k * page_size c \<and>
        active_position h = active_page h + f \<and> 0 < f \<and> f \<le> page_size c \<and> f mod 16 = 0 \<and>
        (\<exists>b \<in> L. touches (page_size c) k b) \<and>
        (\<forall>b \<in> L. fst b + snd b \<le> k * page_size c + f \<or> k * page_size c + page_size c \<le> fst b))"

text \<open>The live blocks \<open>L\<close>: offsets of headers, and sizes with the header.\<close>

definition ha_inv :: "ha_cfg \<Rightarrow> heap_alloc \<Rightarrow> blk set \<Rightarrow> bool" where
  "ha_inv c h L \<longleftrightarrow> 0 < mem_ptr h \<and> mem_ptr h mod page_size c = 0 \<and>
     length (ha_blocks h) = num_blocks c \<and> length (pagesInfo h) = num_pages c \<and>
     layout (page_size c) (num_pages c) L (free_page h) (\<lambda>i. pagesInfo h ! i) \<and>
     (\<forall>b \<in> L. headers h (mem_ptr h + fst b) = Some (snd b - 16)) \<and> active_ok c h L"

lemma ha_okD:
  assumes "ha_ok c"
  shows "1024 < page_size c" "page_size c \<le> 16384" "page_size c mod 16 = 0"
    "x AND page_mask c = x mod page_size c" "num_pages c = 64 * num_blocks c" "0 < num_pages c"
    "num_pages c * page_size c < 2 ^ 31" "num_pages c < 2 ^ 21"
proof -
  obtain k where k: "page_size c = 2 ^ k" "10 < k" "k \<le> 14" using assms by (auto simp: ha_ok_def)
  have "(2 :: nat) ^ 10 < 2 ^ k" "(2 :: nat) ^ k \<le> 2 ^ 14" using k(2,3) by (simp_all only: power_strict_increasing_iff power_increasing_iff)
  then show p: "1024 < page_size c" "page_size c \<le> 16384" using k(1) by simp_all
  have "(2 :: nat) ^ 4 dvd 2 ^ k" using k(2) by (intro le_imp_power_dvd) simp
  then show "page_size c mod 16 = 0" using k(1) by simp
  show "x AND page_mask c = x mod page_size c"
    using k(1) take_bit_eq_mask [of k x] by (simp add: page_mask_def mask_eq_exp_minus_1 take_bit_eq_mod)
  show "num_pages c = 64 * num_blocks c" by (simp add: num_pages_def k_flag_bound_def push_bit_eq_mult)
  show "0 < num_pages c" "num_pages c * page_size c < 2 ^ 31" using assms by (auto simp: ha_ok_def allocation_size_def)
  moreover have "num_pages c * 1024 \<le> num_pages c * page_size c" using p(1) by simp
  ultimately have "num_pages c * 1024 < 2 ^ 31" by (meson le_less_trans)
  then show "num_pages c < 2 ^ 21" by simp
qed

lemma getPageIndex_eq:
  assumes "ha_ok c" "0 < mem_ptr h" "x < num_pages c * page_size c"
  shows "getPageIndex c h (mem_ptr h + x) = x div page_size c"
proof -
  have "x div page_size c < 2 ^ 31"
    using assms(3) ha_okD(7) [OF assms(1)] div_le_dividend [of x "page_size c"] by linarith
  then have "int (x div page_size c) < 2 ^ 32" by simp
  then show ?thesis using assms(2) by (simp add: getPageIndex_def nat_mod_as_int zmod_trivial_iff)
qed

lemma getPageIndex_page:
  assumes "ha_ok c" "0 < mem_ptr h" "k < num_pages c"
  shows "getPageIndex c h (mem_ptr h + k * page_size c) = k"
proof -
  have "k * page_size c < num_pages c * page_size c" using assms(3) ha_okD(1) [OF assms(1)] by simp
  then show ?thesis using getPageIndex_eq [OF assms(1,2), of "k * page_size c"] ha_okD(1) [OF assms(1)] by simp
qed

lemma lastPageUsage_eq:
  assumes "ha_ok c" "0 < n"
  shows "lastPageUsage c n = tail_bytes (page_size c) n" "tail_bytes (page_size c) n \<le> page_size c"
proof -
  let ?P = "page_size c"
  have p: "1024 < ?P" "?P \<le> 16384" using ha_okD [OF assms(1)] by auto
  have m: "n mod ?P < ?P" using p by simp
  have t: "tail_bytes ?P n = (if n mod ?P = 0 then ?P else n mod ?P)"
  proof -
    have "n = Suc (n - 1)" using assms(2) by simp
    then show ?thesis using mod_Suc [of "n - 1" ?P] p by (auto simp: tail_bytes_def)
  qed
  then show "tail_bytes ?P n \<le> ?P" using m by simp
  have "n mod ?P < 2 ^ 16" "?P < 2 ^ 16" using m p by (simp_all, linarith)
  then show "lastPageUsage c n = tail_bytes ?P n"
    using t by (simp add: lastPageUsage_def ha_okD(4) [OF assms(1)] Let_def)
qed

lemma usub_small: "b \<le> a \<Longrightarrow> a - b < 2 ^ w \<Longrightarrow> usub w a b = a - b"
  using usub_le [of 0 "a - b" w] by (simp add: usub_def of_nat_diff)

lemma headers_kept:
  assumes "put_header c (mem_ptr h + o') sz h = Some h1" "blk_apart b (o', sz + 16)" "16 < snd b"
    "headers h (mem_ptr h + fst b) = x"
  shows "headers (hand_out (mem_ptr h + o' + 16) sz h1) (mem_ptr h + fst b) = x"
  using assms
  by (auto simp: put_header_def hand_out_def blk_apart_def sizeof_alloc_header_def SDK_CP_ALIGNMENT_def split: if_splits)

lemma put_header_pagesInfo:
  "put_header c a sz (h\<lparr> pagesInfo := x \<rparr>) = map_option (\<lambda>h. h\<lparr> pagesInfo := x \<rparr>) (put_header c a sz h)"
  by (simp add: put_header_def get_memory_end_def cong: if_cong)

lemma put_header_ok:
  assumes "o' + 16 \<le> allocation_size c"
  shows "\<exists>hdm. put_header c (mem_ptr h + o') sz h = Some (h\<lparr> headers := hdm \<rparr>) \<and> hdm (mem_ptr h + o') = Some sz"
  using assms by (intro exI [of _ "\<lambda>q. if q = mem_ptr h + o' then Some sz else
    if q < mem_ptr h + o' + sizeof_alloc_header \<and> mem_ptr h + o' < q + sizeof_alloc_header then None else headers h q"])
    (simp add: put_header_def get_memory_end_def sizeof_alloc_header_def SDK_CP_ALIGNMENT_def)

section \<open>Allocation\<close>

text \<open>What a successful allocation of \<open>n\<close> bytes, header included, establishes.\<close>

definition served :: "ha_cfg \<Rightarrow> heap_alloc \<Rightarrow> blk set \<Rightarrow> nat \<Rightarrow> nat \<times> heap_alloc \<Rightarrow> bool" where
  "served c h L n r \<longleftrightarrow> (case r of (p, h') \<Rightarrow> \<exists>o'. p = mem_ptr h + o' + 16 \<and> blk_ok (page_size c) (num_pages c) (o', n) \<and>
     (o', n) \<notin> L \<and> (\<forall>b \<in> L. blk_apart b (o', n)) \<and> mem_ptr h' = mem_ptr h \<and> ha_inv c h' (insert (o', n) L))"

lemma ha_invD:
  assumes "ha_inv c h L"
  shows "0 < mem_ptr h" "length (ha_blocks h) = num_blocks c" "length (pagesInfo h) = num_pages c"
    "layout (page_size c) (num_pages c) L (free_page h) (\<lambda>i. pagesInfo h ! i)" "active_ok c h L"
    "b \<in> L \<Longrightarrow> headers h (mem_ptr h + fst b) = Some (snd b - 16)" "b \<in> L \<Longrightarrow> 16 < snd b"
  using assms by (auto simp: ha_inv_def layout_def blk_ok_def)

lemma ha_inv_add:
  assumes "ha_inv c h L" "put_header c (mem_ptr h + o') sz h = Some hp" "\<And>a. a \<in> L \<Longrightarrow> blk_apart a (o', sz + 16)" "0 < sz"
    "hdm = headers (hand_out (mem_ptr h + o' + 16) sz hp)"
  shows "\<forall>b \<in> insert (o', sz + 16) L. hdm (mem_ptr h + fst b) = Some (snd b - 16)"
proof
  fix b assume "b \<in> insert (o', sz + 16) L"
  then consider "b = (o', sz + 16)" | "b \<in> L" by blast
  then show "hdm (mem_ptr h + fst b) = Some (snd b - 16)"
  proof cases
    case 1
    then show ?thesis using assms(2,5)
      by (auto simp: put_header_def hand_out_def sizeof_alloc_header_def SDK_CP_ALIGNMENT_def split: if_splits)
  next
    case 2
    then show ?thesis
      using headers_kept [OF assms(2) assms(3) [OF 2] ha_invD(7) [OF assms(1) 2] ha_invD(6) [OF assms(1) 2]] assms(5)
      by simp
  qed
qed

lemma active_okE:
  assumes "active_ok c h L" "active_position h \<noteq> 0"
  obtains k f where "k < num_pages c" "active_page h = mem_ptr h + k * page_size c"
    "active_position h = active_page h + f" "0 < f" "f \<le> page_size c" "f mod 16 = 0"
    "\<exists>b \<in> L. touches (page_size c) k b"
    "\<forall>b \<in> L. fst b + snd b \<le> k * page_size c + f \<or> k * page_size c + page_size c \<le> fst b"
  using assms unfolding active_ok_def by (elim disjE exE conjE) (simp, rule that, assumption+)

lemma ha_in_page_ok:
  assumes "ha_ok c" "ha_inv c h L" "0 < sz" "sz mod 16 = 0"
    and k: "k < num_pages c" "active_page h = mem_ptr h + k * page_size c" "active_position h = active_page h + f"
      "0 < f" "f mod 16 = 0" "f + (sz + 16) \<le> page_size c" "\<exists>b \<in> L. touches (page_size c) k b"
      "\<forall>b \<in> L. fst b + snd b \<le> k * page_size c + f \<or> k * page_size c + page_size c \<le> fst b"
  shows "\<exists>r. ha_in_page c sz (sz + 16) k h = Some r \<and> served c h L (sz + 16) r"
proof -
  let ?P = "page_size c" and ?N = "num_pages c"
  let ?b = "(k * ?P + f, sz + 16)"
  note P = ha_okD [OF assms(1)] and inv = ha_invD [OF assms(2)]
  have "Suc k * ?P \<le> ?N * ?P" using k(1) by (intro mult_le_mono1) simp
  then have kN: "k * ?P + ?P \<le> ?N * ?P" by simp
  have f: "(k * ?P + f) mod ?P = f" using k(6) by simp
  have ok: "blk_ok ?P ?N ?b"
    using f kN k(5,6) assms(3) P(3) by (auto simp: blk_ok_def mod_mult_left_eq mod_add_left_eq [symmetric] mod_mult_right_eq [symmetric])
  have ap: "blk_apart a ?b" if "a \<in> L" for a using k(8) that k(6) by (fastforce simp: blk_apart_def)
  have last: "last_page ?P ?b = k" "tail_bytes ?P (sz + 16) = sz + 16"
    using k(6) P(1) by (simp_all add: last_page_def page_bounds tail_bytes_le)
  have lay: "layout ?P ?N (insert ?b L) (\<lambda>i. free_page h i \<and> \<not> touches ?P i ?b)
      ((\<lambda>i. pagesInfo h ! i)(k := pagesInfo h ! k + (sz + 16)))"
    and use: "pagesInfo h ! k + (sz + 16) \<le> ?P" and new: "?b \<notin> L"
    using layout_add [OF inv(4) _ ok ap] P(1) last by auto
  obtain hdm where hdm: "put_header c (mem_ptr h + (k * ?P + f)) sz h = Some (h\<lparr> headers := hdm \<rparr>)"
    using put_header_ok [of "k * ?P + f" c h sz] kN k(6) by (auto simp: allocation_size_def)
  define h' where "h' = hand_out (mem_ptr h + (k * ?P + f) + 16) sz (h\<lparr> headers := hdm,
    pagesInfo := (pagesInfo h)[k := pagesInfo h ! k + (sz + 16)], active_position := active_position h + (sz + 16) \<rparr>)"
  have r: "ha_in_page c sz (sz + 16) k h = Some (mem_ptr h + (k * ?P + f) + 16, h')"
    using hdm k(1,2,3) inv(3) use P(2) k(6)
    by (simp add: ha_in_page_def h'_def sizeof_alloc_header_def SDK_CP_ALIGNMENT_def add.assoc Let_def)
  have hs: "headers h' = headers (hand_out (mem_ptr h + (k * ?P + f) + 16) sz (h\<lparr> headers := hdm \<rparr>))"
    by (simp add: h'_def hand_out_def cong: if_cong)
  have same: "mem_ptr h' = mem_ptr h" "ha_blocks h' = ha_blocks h" "active_page h' = active_page h"
    "pagesInfo h' = (pagesInfo h)[k := pagesInfo h ! k + (sz + 16)]" "active_position h' = active_position h + (sz + 16)"
    by (simp_all add: h'_def hand_out_def)
  have "i = k" if "touches ?P i ?b" for i
    using that touches_iff [of ?P ?b i] last k(4,6) P(1) by (auto simp: page_bounds)
  then have "free_page h i \<and> \<not> touches ?P i ?b \<longleftrightarrow> free_page h' i" if "i < ?N" for i
    using that k(7) inv(4) same(2) by (auto simp: layout_def free_page_def)
  with lay have "layout ?P ?N (insert ?b L) (free_page h') (\<lambda>i. pagesInfo h' ! i)"
    by (rule layout_cong) (use inv(3) same(4) in \<open>auto simp: nth_list_update\<close>)
  moreover have "active_ok c h' (insert ?b L)"
  proof -
    have "(f + (sz + 16)) mod 16 = 0" using k(5) assms(4) by (simp add: mod_add_eq [symmetric] del: mod_add_eq)
    moreover have "\<exists>b \<in> insert ?b L. touches ?P k b" using k(7) by blast
    moreover have "\<forall>b \<in> insert ?b L. fst b + snd b \<le> k * ?P + (f + (sz + 16)) \<or> k * ?P + ?P \<le> fst b"
      using k(8) by fastforce
    moreover have "active_page h' = mem_ptr h' + k * ?P" "active_position h' = active_page h' + (f + (sz + 16))"
      using same k(2,3) by simp_all
    ultimately show ?thesis unfolding active_ok_def using k(1,4,6)
      by (intro disjI2 exI [of _ k] exI [of _ "f + (sz + 16)"]) simp
  qed
  ultimately have "ha_inv c h' (insert ?b L)"
    using ha_inv_add [OF assms(2) hdm ap assms(3) hs] inv(1,2,3) same assms(2) by (auto simp: ha_inv_def)
  then show ?thesis using r ok new ap same(1) by (auto simp: served_def)
qed

text \<open>The number of pages for \<open>n\<close> bytes.\<close>

definition pages_for :: "ha_cfg \<Rightarrow> nat \<Rightarrow> nat" where
  "pages_for c n = n div page_size c + (if n AND page_mask c \<noteq> 0 then 1 else 0)"

lemma pages_for:
  assumes "ha_ok c" "0 < n"
  shows "0 < pages_for c n" "(pages_for c n - 1) * page_size c < n" "n \<le> pages_for c n * page_size c"
proof -
  let ?P = "page_size c"
  have e: "n div ?P * ?P + n mod ?P = n" "n mod ?P < ?P" using ha_okD(1) [OF assms(1)] by simp_all
  have m: "pages_for c n = n div ?P + (if n mod ?P \<noteq> 0 then 1 else 0)"
    by (simp add: pages_for_def ha_okD(4) [OF assms(1)])
  show "0 < pages_for c n" using e assms(2) by (intro gr0I) (auto simp: m split: if_splits)
  show "(pages_for c n - 1) * ?P < n" "n \<le> pages_for c n * ?P"
    using e assms(2) by (cases "n div ?P"; auto simp: m algebra_simps)+
qed

lemma ha_take_pages:
  assumes "ha_ok c" "ha_inv c h L" "0 < sz" "sz mod 16 = 0"
    and m: "m = pages_for c (sz + 16)"
    and k: "k = getBitScanStreamRevWord m (ha_blocks h)" "k \<noteq> invalid_page_ix"
  shows "\<exists>r. ha_new_pages c sz (sz + 16) ((sz + 16) div page_size c) h = Some r \<and> served c h L (sz + 16) r"
proof -
  let ?P = "page_size c" and ?N = "num_pages c" and ?n = "sz + 16" and ?l = "k + m - 1"
  let ?b = "(k * ?P, ?n)" and ?t = "tail_bytes ?P ?n"
  note P = ha_okD [OF assms(1)] and inv = ha_invD [OF assms(2)]
  have n: "0 < ?n" by simp
  note pf = pages_for [OF assms(1) n, folded m] and lu = lastPageUsage_eq [OF assms(1) n]
  have len: "64 * length (ha_blocks h) = ?N" "64 * length (ha_blocks h) < 2 ^ 32" using inv(2) P(5,8) by simp_all
  have run: "k + m \<le> ?N" "\<And>i. k \<le> i \<Longrightarrow> i < k + m \<Longrightarrow> free_page h i"
    using scan_sound [OF k(1) [symmetric] k(2) len(2)] len(1) by (auto simp: free_page_def)
  have "0 < ?P" "16 < ?n" using P(1) assms(3) by simp_all
  note lay = layout_add_pages [OF inv(4) this(1) pf(1) run this(2) P(3) pf(2,3)]
  have l: "?l < ?N" "k < ?N" using run(1) pf(1) by auto
  obtain hdm where hdm: "put_header c (mem_ptr h + k * ?P) sz h = Some (h\<lparr> headers := hdm \<rparr>)"
    using put_header_ok [of "k * ?P" c h sz] lay(1) assms(3) by (auto simp: allocation_size_def blk_ok_def)
  obtain bs where bs: "resetBitStream k m (ha_blocks h) = Some bs" "length bs = length (ha_blocks h)"
    "\<And>i. stream_bit bs i \<longleftrightarrow> \<not> (k \<le> i \<and> i < k + m) \<and> stream_bit (ha_blocks h) i"
    using resetBitStream_run [of k m "ha_blocks h"] run(1) len(1) by auto
  define act where "act = (active_position h = 0)"
  define h' where "h' = hand_out (mem_ptr h + k * ?P + 16) sz (h\<lparr> headers := hdm, ha_blocks := bs,
    pagesInfo := (pagesInfo h)[?l := ?t],
    active_page := (if act then mem_ptr h + ?l * ?P else active_page h),
    active_position := (if act then mem_ptr h + ?l * ?P + ?t else active_position h) \<rparr>)"
  have "put_header c (mem_ptr h + k * ?P) sz (h\<lparr> pagesInfo := (pagesInfo h)[?l := ?t] \<rparr>) =
      Some (h\<lparr> pagesInfo := (pagesInfo h)[?l := ?t], headers := hdm \<rparr>)"
    using hdm by (simp add: put_header_pagesInfo)
  then have r: "ha_new_pages c sz ?n (?n div ?P) h = Some (mem_ptr h + k * ?P + 16, h')"
    unfolding ha_new_pages_def Let_def pages_for_def [symmetric] m [symmetric] k(1) [symmetric] lu(1)
    using l inv(1,3) k(2) bs(1)
    by (auto simp: getPage_def h'_def act_def mult.commute sizeof_alloc_header_def SDK_CP_ALIGNMENT_def hand_out_def
      cong: if_cong)
  have hs: "headers h' = headers (hand_out (mem_ptr h + k * ?P + 16) sz (h\<lparr> headers := hdm \<rparr>))"
    by (simp add: h'_def hand_out_def cong: if_cong)
  have same: "mem_ptr h' = mem_ptr h" "ha_blocks h' = bs" "pagesInfo h' = (pagesInfo h)[?l := ?t]"
    "active_page h' = (if act then mem_ptr h + ?l * ?P else active_page h)"
    "active_position h' = (if act then mem_ptr h + ?l * ?P + ?t else active_position h)"
    by (simp_all add: h'_def hand_out_def)
  have "layout ?P ?N (insert ?b L) (free_page h') (\<lambda>i. pagesInfo h' ! i)"
    using lay(6) by (rule layout_cong) (use inv(3) same bs(3) in \<open>auto simp: free_page_def\<close>)
  moreover have "active_ok c h' (insert ?b L)"
  proof (cases act)
    case True
    have "\<forall>b \<in> insert ?b L. fst b + snd b \<le> ?l * ?P + ?t \<or> ?l * ?P + ?P \<le> fst b"
    proof
      fix b assume "b \<in> insert ?b L"
      moreover have "fst b + snd b \<le> ?l * ?P + ?t \<or> ?l * ?P + ?P \<le> fst b" if "b \<in> L"
      proof -
        have "?l + 1 \<le> ?N" "0 < ?P" "0 < (1 :: nat)" "\<And>i. ?l \<le> i \<Longrightarrow> i < ?l + 1 \<Longrightarrow> free_page h i"
          using l P(1) run(2) pf(1) by auto
        from layout_free_run [OF inv(4) this(2,3,1,4) that] show ?thesis by auto
      qed
      ultimately show "fst b + snd b \<le> ?l * ?P + ?t \<or> ?l * ?P + ?P \<le> fst b" using lay(5) by auto
    qed
    moreover have "touches ?P ?l ?b" using last_touched(1) [of ?P ?b] lay(4) P(1) by simp
    moreover have "?t mod 16 = 0"
      using pages_mod_16 [OF P(3), of ?l ?t] pages_mod_16 [OF P(3), of k ?n] lay(5) assms(4) by simp
    moreover have "active_page h' = mem_ptr h' + ?l * ?P" "active_position h' = active_page h' + ?t"
      using same True by simp_all
    ultimately show ?thesis unfolding active_ok_def using l(1) lu(2)
      by (intro disjI2 exI [of _ ?l] exI [of _ ?t]) simp
  next
    case False
    then have ne: "active_position h \<noteq> 0" by (simp add: act_def)
    then obtain k0 f where a: "k0 < ?N" "active_page h = mem_ptr h + k0 * ?P" "active_position h = active_page h + f"
      "0 < f" "f \<le> ?P" "f mod 16 = 0" "\<exists>b \<in> L. touches ?P k0 b"
      "\<forall>b \<in> L. fst b + snd b \<le> k0 * ?P + f \<or> k0 * ?P + ?P \<le> fst b"
      using active_okE [OF inv(5) ne] by metis
    have "\<not> free_page h k0" using inv(4) a(1,7) by (auto simp: layout_def)
    then have "k0 < k \<or> k + m \<le> k0" using run(2) [of k0] by linarith
    then have "k0 * ?P + ?P \<le> k * ?P \<or> (k + m) * ?P \<le> k0 * ?P"
      using mult_le_mono1 [of "Suc k0" k ?P] mult_le_mono1 [of "k + m" k0 ?P] by auto
    then have "fst ?b + snd ?b \<le> k0 * ?P + f \<or> k0 * ?P + ?P \<le> fst ?b"
      using pf(3) by (auto simp: add_mult_distrib)
    then show ?thesis unfolding active_ok_def using a same False
      by (intro disjI2 exI [of _ k0] exI [of _ f]) auto
  qed
  ultimately have "ha_inv c h' (insert ?b L)"
    using ha_inv_add [OF assms(2) hdm lay(2) assms(3) hs] inv(1,2,3) same bs(2) assms(2) by (auto simp: ha_inv_def)
  then show ?thesis using r lay(1-3) same(1) by (auto simp: served_def)
qed

lemma ha_new_pages_ok:
  assumes "ha_ok c" "ha_inv c h L" "0 < sz" "sz mod 16 = 0"
  shows "\<exists>r. ha_new_pages c sz (sz + 16) ((sz + 16) div page_size c) h = Some r \<and>
    (r = (0, h) \<and> getBitScanStreamRevWord (pages_for c (sz + 16)) (ha_blocks h) = invalid_page_ix \<or>
     served c h L (sz + 16) r)"
proof (cases "getBitScanStreamRevWord (pages_for c (sz + 16)) (ha_blocks h) = invalid_page_ix")
  case True
  then show ?thesis by (simp add: ha_new_pages_def pages_for_def Let_def)
next
  case False
  then show ?thesis using ha_take_pages [OF assms refl refl] by blast
qed

text \<open>The size is rounded up to the alignment; 0 if the rounded size does not fit into 32 bits.\<close>

lemma rounded:
  fixes sz :: nat
  assumes "sz < 2 ^ 32"
  defines "s \<equiv> uw 32 (sz + (15 AND (16 - (sz AND 15))))"
  shows "s mod 16 = 0" "s = 0 \<or> sz \<le> s" "sz \<le> 2 ^ 32 - 16 \<Longrightarrow> s < sz + 16 \<and> sz \<le> s"
proof -
  have a: "x AND 15 = x mod 16" "15 AND x = x mod 16" for x :: nat
    using take_bit_eq_mask [of 4 x] by (simp_all add: mask_eq_exp_minus_1 take_bit_eq_mod and.commute)
  let ?t = "sz + (16 - sz mod 16) mod 16"
  have e: "16 * (sz div 16) + sz mod 16 = sz" "sz mod 16 < 16" by simp_all
  have t: "?t mod 16 = 0" "?t < sz + 16" "sz \<le> ?t"
    using e by (simp_all add: mod_add_right_eq) presburger
  have s: "s = ?t mod 2 ^ 32" by (simp add: s_def uw_def a)
  have "(?t mod 2 ^ 32) mod 16 = ?t mod 16" by (rule mod_mod_cancel) simp
  then show "s mod 16 = 0" using s t by simp
  show "s = 0 \<or> sz \<le> s"
  proof (cases "?t < 2 ^ 32")
    case True
    then show ?thesis using s t by simp
  next
    case False
    obtain q where q: "?t = 16 * q" using t(1) by auto
    then have "16 * 2 ^ 28 \<le> 16 * q" "16 * q < 16 * (2 ^ 28 + 1)" using False t(2) assms(1) by simp_all
    then have "q = 2 ^ 28" by simp
    then show ?thesis using s q by simp
  qed
  show "s < sz + 16 \<and> sz \<le> s" if "sz \<le> 2 ^ 32 - 16"
  proof -
    have "?t < 2 ^ 32" using less_le_trans [OF t(2), of "2 ^ 32"] that by simp
    then show ?thesis using s t(2,3) by simp
  qed
qed

text \<open>
  When a request is refused: a small one if no page is free, and one that fits into the memory
  only if some page is taken.
\<close>

definition no_page_for :: "ha_cfg \<Rightarrow> nat \<Rightarrow> heap_alloc \<Rightarrow> bool" where
  "no_page_for c sz h \<longleftrightarrow> (0 < sz \<longrightarrow>
     (sz + 16 \<le> page_size c \<longrightarrow> (\<forall>i < num_pages c. \<not> free_page h i)) \<and>
     (sz + 31 \<le> allocation_size c \<longrightarrow> (\<exists>i < num_pages c. \<not> free_page h i)))"

lemma no_page_for:
  assumes "ha_ok c" "length (ha_blocks h) = num_blocks c" "s mod 16 = 0" "sz \<le> 2 ^ 32 - 16 \<Longrightarrow> s < sz + 16"
    "getBitScanStreamRevWord (pages_for c (s + 16)) (ha_blocks h) = invalid_page_ix"
  shows "no_page_for c sz h"
proof -
  note P = ha_okD [OF assms(1)]
  have m: "0 < s + 16" by simp
  note pf = pages_for [OF assms(1) m]
  have False if a: "sz + 16 \<le> page_size c" "i < num_pages c" "free_page h i" for i
  proof -
    have "s + 16 < page_size c + 16" using a(1) assms(4) P(2) by simp
    moreover have "page_size c mod 16 = 0" "(s + 16) mod 16 = 0" using P(3) assms(3) by simp_all
    then obtain k m where "page_size c = 16 * k" "s + 16 = 16 * m" by (metis mod_0_imp_dvd dvdE)
    ultimately have n: "s + 16 \<le> page_size c" by simp
    have "(pages_for c (s + 16) - 1) * page_size c < 1 * page_size c" using pf(2) n by linarith
    then have "pages_for c (s + 16) = 1" using pf(1) by simp
    moreover have "64 * length (ha_blocks h) < 2 ^ 32" "i < 64 * length (ha_blocks h)"
      using assms(2) P(5,8) a(2) by simp_all
    ultimately show False using scan_one [of "ha_blocks h" i] a(3) assms(5) by (simp add: free_page_def)
  qed
  moreover have False if a: "sz + 31 \<le> allocation_size c" "\<forall>i < num_pages c. free_page h i"
  proof -
    have "s + 16 < sz + 32" using a(1) assms(4) P(7) by (simp add: allocation_size_def)
    then have "(pages_for c (s + 16) - 1) * page_size c < num_pages c * page_size c"
      using pf(2) a(1) unfolding allocation_size_def by linarith
    then have "pages_for c (s + 16) - 1 < num_pages c" by simp
    then have "pages_for c (s + 16) \<le> 64 * length (ha_blocks h)" using pf(1) assms(2) P(5) by linarith
    moreover have "\<forall>i < 64 * length (ha_blocks h). stream_bit (ha_blocks h) i"
      using a(2) assms(2) P(5) by (simp add: free_page_def)
    ultimately show False using scan_all_free [of "ha_blocks h" "pages_for c (s + 16)"] pf(1) assms(5)
      by (simp add: invalid_page_ix_def)
  qed
  ultimately show ?thesis by (auto simp: no_page_for_def)
qed

lemma ha_allocate_ok:
  assumes "ha_ok c" "ha_inv c h L" "sz < 2 ^ 32"
  shows "\<exists>p h'. ha_allocate c sz h = Some (p, h') \<and>
    (p = 0 \<and> ha_inv c h' L \<and> mem_ptr h' = mem_ptr h \<and> no_page_for c sz h \<or>
     (\<exists>n. sz + 16 \<le> n \<and> served c h L n (p, h')))"
proof -
  define s where "s = uw 32 (sz + (15 AND (16 - (sz AND 15))))"
  note rd = rounded [OF assms(3), folded s_def] and inv = ha_invD [OF assms(2)] and P = ha_okD [OF assms(1)]
  define h0 where "h0 = h\<lparr> active_position := 0, active_page := 0 \<rparr>"
  have inv0: "ha_inv c h0 L"
    using assms(2) by (simp add: ha_inv_def h0_def active_ok_def free_page_def [abs_def])
  have s0: "served c h0 L n r \<longleftrightarrow> served c h L n r" for n r by (simp add: served_def h0_def)
  have alloc: "ha_allocate c sz h =
     (if s > 0 then
        if (s + 16) div page_size c = 0 \<and> active_position h \<noteq> 0 \<and> active_page h \<noteq> 0 then
          if usub 32 (page_size c) (usub 32 (active_position h) (active_page h)) \<ge> s + 16 \<and>
             getPageIndex c h (active_page h) < num_pages c
          then ha_in_page c s (s + 16) (getPageIndex c h (active_page h)) h
          else ha_new_pages c s (s + 16) ((s + 16) div page_size c) h0
        else ha_new_pages c s (s + 16) ((s + 16) div page_size c) h
      else Some (0, h))"
    using inv(1) by (simp add: ha_allocate_def SDK_CP_ALIGNMENT_def sizeof_alloc_header_def s_def h0_def Let_def)
  show ?thesis
  proof (cases "s = 0")
    case True
    then have "no_page_for c sz h" using rd(3) P(2,7) by (auto simp: no_page_for_def allocation_size_def)
    then show ?thesis using True alloc assms(2) by simp
  next
    case False
    then have s: "0 < s" "s mod 16 = 0" "sz \<le> s" using rd by auto
    have new: "\<exists>p h'. ha_new_pages c s (s + 16) ((s + 16) div page_size c) h1 = Some (p, h') \<and>
        (p = 0 \<and> ha_inv c h' L \<and> mem_ptr h' = mem_ptr h \<and> no_page_for c sz h \<or>
         (\<exists>n. sz + 16 \<le> n \<and> served c h L n (p, h')))"
      if "h1 = h \<or> h1 = h0" for h1
    proof -
      have h1: "ha_inv c h1 L" "mem_ptr h1 = mem_ptr h" "ha_blocks h1 = ha_blocks h" "served c h1 L n r \<longleftrightarrow> served c h L n r" for n r
        using that inv0 assms(2) by (auto simp: h0_def served_def)
      have "no_page_for c sz h" if "getBitScanStreamRevWord (pages_for c (s + 16)) (ha_blocks h) = invalid_page_ix"
        using no_page_for [OF assms(1) inv(2) s(2) _ that] rd(3) by blast
      then show ?thesis using ha_new_pages_ok [OF assms(1) h1(1) s(1,2)] h1(1-3) h1(4) s(3) by fastforce
    qed
    show ?thesis
    proof (cases "(s + 16) div page_size c = 0 \<and> active_position h \<noteq> 0 \<and> active_page h \<noteq> 0")
      case True
      obtain k f where k: "k < num_pages c" "active_page h = mem_ptr h + k * page_size c" 
        "active_position h = active_page h + f" "0 < f" "f \<le> page_size c" "f mod 16 = 0"
        "\<exists>b \<in> L. touches (page_size c) k b"
        "\<forall>b \<in> L. fst b + snd b \<le> k * page_size c + f \<or> k * page_size c + page_size c \<le> fst b"
        using active_okE [OF inv(5)] True by metis
      have "usub 32 (active_position h) (active_page h) = f" "usub 32 (page_size c) f = page_size c - f"
        using k(3,5) P(2) by (simp_all add: usub_small)
      moreover have "getPageIndex c h (active_page h) = k"
        using getPageIndex_page [OF assms(1) inv(1) k(1)] k(2) by simp
      ultimately have a: "ha_allocate c sz h = (if s + 16 \<le> page_size c - f then ha_in_page c s (s + 16) k h
          else ha_new_pages c s (s + 16) ((s + 16) div page_size c) h0)"
        using alloc True s(1) k(1) by auto
      have b: "\<exists>r. ha_in_page c s (s + 16) k h = Some r \<and> served c h L (s + 16) r" if "s + 16 \<le> page_size c - f"
        using ha_in_page_ok [OF assms(1,2) s(1,2) k(1-4,6) _ k(7,8)] that k(5) by auto
      show ?thesis
      proof (cases "s + 16 \<le> page_size c - f")
        case True
        from b [OF this] obtain p h' where "ha_in_page c s (s + 16) k h = Some (p, h')" "served c h L (s + 16) (p, h')"
          by auto
        then show ?thesis using True a s(3) by (intro exI [of _ p] exI [of _ h']) auto
      qed (use new [of h0] a in simp)
    next
      case False
      then have "ha_allocate c sz h = ha_new_pages c s (s + 16) ((s + 16) div page_size c) h"
        by (simp only: alloc if_P [OF s(1)] if_not_P if_False)
      then show ?thesis using new [of h] by simp
    qed
  qed
qed

section \<open>Release\<close>

lemma stream_bit_set:
  assumes "l < 64 * length bs"
  shows "drop_bit k_flag_bound l < length bs"
    "stream_bit (bs[drop_bit k_flag_bound l := bs ! drop_bit k_flag_bound l OR push_bit (l AND k_l_mask) 1]) i \<longleftrightarrow>
      i = l \<or> stream_bit bs i"
proof -
  have b: "l div 64 < length bs" using assms by simp
  then show "drop_bit k_flag_bound l < length bs" by (simp add: from_split)
  have i: "i = l \<longleftrightarrow> i div 64 = l div 64 \<and> i mod 64 = l mod 64" by (metis div_mult_mod_eq)
  show "stream_bit (bs[drop_bit k_flag_bound l := bs ! drop_bit k_flag_bound l OR push_bit (l AND k_l_mask) 1]) i \<longleftrightarrow>
      i = l \<or> stream_bit bs i"
  proof (cases "i div 64 = l div 64")
    case True
    then show ?thesis unfolding i from_split stream_bit_def using b
      by (auto simp: bit_or_iff bit_exp_iff)
  next
    case False
    then show ?thesis unfolding i from_split stream_bit_update [OF b] by simp
  qed
qed

lemma ha_drop_usage_ok:
  assumes "ha_ok c" "ha_inv c h L" "b \<in> L" "l = last_page (page_size c) b"
    and bs: "length bs = length (ha_blocks h)"
      "\<And>i. stream_bit bs i \<longleftrightarrow> (fst b div page_size c \<le> i \<and> i < l) \<or> free_page h i"
  shows "\<exists>h'. ha_drop_usage c l (tail_bytes (page_size c) (snd b)) (h\<lparr> ha_blocks := bs \<rparr>) = Some h' \<and>
    mem_ptr h' = mem_ptr h \<and> ha_inv c h' (L - {b})"
proof -
  let ?P = "page_size c" and ?N = "num_pages c"
  let ?t = "tail_bytes ?P (snd b)"
  note P = ha_okD [OF assms(1)] and inv = ha_invD [OF assms(2)]
  have p: "0 < ?P" using P(1) by simp
  note rem = layout_remove [OF inv(4) p assms(3,4)]
  have ok: "blk_ok ?P ?N b" using inv(4) assms(3) by (auto simp: layout_def)
  have l: "l < ?N" using blk_shape(1) [OF ok p assms(4)] .
  have "pagesInfo h ! l = page_usage ?P L l" using inv(4) l by (auto simp: layout_def)
  then have u: "pagesInfo h ! l \<le> ?P"
    using inv(4) page_usage_le [OF _ p, of L ?N l] by (auto simp: layout_def)
  then have us: "usub 16 (pagesInfo h ! l) (uw 16 ?t) = pagesInfo h ! l - ?t" using rem(1) P(2) by (simp add: usub_small)
  define z where "z \<longleftrightarrow> pagesInfo h ! l = ?t"
  define bs' where "bs' = (if z then bs[drop_bit k_flag_bound l := bs ! drop_bit k_flag_bound l OR push_bit (l AND k_l_mask) 1] else bs)"
  define quit where "quit \<longleftrightarrow> z \<and> getPageIndex c h (active_page h) = l"
  define h' where "h' = h\<lparr> ha_blocks := bs', pagesInfo := (pagesInfo h)[l := pagesInfo h ! l - ?t],
    active_page := (if quit then 0 else active_page h), active_position := (if quit then 0 else active_position h) \<rparr>"
  have lb: "l < 64 * length bs" using l bs(1) inv(2) P(5) by simp
  have z0: "pagesInfo h ! l - ?t = 0 \<longleftrightarrow> z" using rem(1) by (auto simp: z_def)
  have pix: "getPageIndex c (h\<lparr> ha_blocks := x, pagesInfo := y \<rparr>) q = getPageIndex c h q" for x y q
    by (simp add: getPageIndex_def)
  have r: "ha_drop_usage c l ?t (h\<lparr> ha_blocks := bs \<rparr>) = Some h'"
    using l inv(3) us z0 stream_bit_set(1) [OF lb]
    by (auto simp: ha_drop_usage_def Let_def h'_def bs'_def quit_def getPageIndex_def)
  have same: "mem_ptr h' = mem_ptr h" "ha_blocks h' = bs'" "headers h' = headers h"
    "pagesInfo h' = (pagesInfo h)[l := pagesInfo h ! l - ?t]"
    by (simp_all add: h'_def)
  have free: "free_page h' i \<longleftrightarrow> free_page h i \<or> (fst b div ?P \<le> i \<and> i < l) \<or> (i = l \<and> z)" for i
    using stream_bit_set(2) [OF lb, of i] bs(2) [of i] by (auto simp: free_page_def same(2) bs'_def)
  have lay: "layout ?P ?N (L - {b}) (free_page h') (\<lambda>i. pagesInfo h' ! i)"
    using rem(2) by (rule layout_cong) (use free z_def same(4) inv(3) in \<open>auto simp: nth_list_update\<close>)
  have "active_ok c h' (L - {b})"
  proof (cases "quit \<or> active_position h = 0")
    case True
    then show ?thesis using inv(5) P(1) inv(1) by (auto simp: active_ok_def h'_def)
  next
    case False
    then obtain k f where k: "k < ?N" "active_page h = mem_ptr h + k * ?P"
      "active_position h = active_page h + f" "0 < f" "f \<le> ?P" "f mod 16 = 0"
      "\<exists>b \<in> L. touches ?P k b" "\<forall>b \<in> L. fst b + snd b \<le> k * ?P + f \<or> k * ?P + ?P \<le> fst b"
      using active_okE [OF inv(5)] by metis
    have "\<exists>a \<in> L - {b}. touches ?P k a"
    proof (rule ccontr)
      assume "\<not> ?thesis"
      then have "free_page h' k" using lay k(1) by (auto simp: layout_def)
      moreover have "\<not> free_page h k" using inv(4) k(1,7) by (auto simp: layout_def)
      moreover have "\<not> (k = l \<and> z)"
        using False k(2) getPageIndex_page [OF assms(1) inv(1) k(1)] by (auto simp: quit_def)
      ultimately have i: "fst b div ?P \<le> k" "k < l" using free by auto
      then have "Suc k * ?P \<le> l * ?P" by (intro mult_le_mono1) simp
      then have "k * ?P + ?P < fst b + snd b" using blk_shape(4) [OF ok p assms(4)] by simp
      moreover have "fst b < k * ?P + ?P" using i(1) p div_less_iff_less_mult [of ?P "fst b" "Suc k"] by (simp add: add.commute)
      ultimately show False using k(5,8) assms(3) by fastforce
    qed
    then show ?thesis unfolding active_ok_def using k False
      by (intro disjI2 exI [of _ k] exI [of _ f]) (simp add: h'_def)
  qed
  then have "ha_inv c h' (L - {b})"
    using assms(2) lay same bs(1) inv(6) by (auto simp: ha_inv_def bs'_def)
  then show ?thesis using r same(1) by auto
qed

lemma ha_release_ok:
  assumes "ha_ok c" "ha_inv c h L" "b \<in> L"
  shows "\<exists>h'. ha_release c (mem_ptr h + fst b + 16) h = Some (True, h') \<and>
    mem_ptr h' = mem_ptr h \<and> ha_inv c h' (L - {b})"
proof -
  let ?P = "page_size c" and ?N = "num_pages c" and ?n = "snd b"
  define k where "k = fst b div ?P"
  define l where "l = last_page ?P b"
  note P = ha_okD [OF assms(1)] and inv = ha_invD [OF assms(2)]
  have p: "0 < ?P" using P(1) by simp
  have ok: "blk_ok ?P ?N b" using inv(4) assms(3) by (auto simp: layout_def)
  then have n: "16 < ?n" "fst b + ?n \<le> ?N * ?P" by (auto simp: blk_ok_def)
  note shape = blk_shape [OF ok p l_def]
  have page: "(fst b + 16) div ?P = k"
  proof -
    have "fst b mod ?P + 16 < ?P" using ok P(1) by (auto simp: blk_ok_def)
    then show ?thesis using page_bounds [OF p, of "fst b" k] div_mult_mod_eq [of "fst b" ?P]
      unfolding k_def by (subst page_bounds [OF p]) linarith
  qed
  have pos: "getPageIndex c h (mem_ptr h + fst b + 16) = k"
    using getPageIndex_eq [OF assms(1) inv(1), of "fst b + 16"] n page by (simp add: add.assoc)
  have "k \<le> l" using last_touched [OF p, of b] touches_iff [OF p, of b l] n(1) by (simp add: k_def l_def)
  then have k: "k < ?N" using shape(1) by simp
  have tail: "lastPageUsage c ?n = tail_bytes ?P ?n" using lastPageUsage_eq [OF assms(1)] n(1) by simp
  have hd: "headers h (mem_ptr h + fst b) = Some (?n - 16)" using inv(6) [OF assms(3)] .
  have rel: "ha_release c (mem_ptr h + fst b + 16) h =
     (if ?n > ?P then
        setBitStream k (pages_for c ?n - 1) (ha_blocks h) \<bind>
        (\<lambda>bs. ha_drop_usage c (k + pages_for c ?n - 1) (tail_bytes ?P ?n) (h\<lparr> ha_blocks := bs \<rparr>) \<bind> (\<lambda>h. Some (True, h)))
      else ha_drop_usage c k ?n h \<bind> (\<lambda>h. Some (True, h)))"
    unfolding ha_release_def Let_def pages_for_def [symmetric] using inv(1) k n(1) hd
    by (simp add: pos sizeof_alloc_header_def SDK_CP_ALIGNMENT_def tail)
  show ?thesis
  proof (cases "?n > ?P")
    case True
    then have o': "fst b = k * ?P" using ok by (auto simp: blk_ok_def k_def)
    have "0 < ?n" using n(1) by simp
    note pf = pages_for [OF assms(1) this]
    have last: "k + pages_for c ?n - 1 = l"
    proof -
      have "(k + (pages_for c ?n - 1)) * ?P < fst b + ?n" "fst b + ?n \<le> (k + pages_for c ?n) * ?P"
        unfolding add_mult_distrib o' using pf(2,3) by linarith+
      moreover have "(k + pages_for c ?n) * ?P = (k + (pages_for c ?n - 1)) * ?P + ?P"
        using pf(1) n(1) by (cases "pages_for c ?n") auto
      ultimately have "l = k + (pages_for c ?n - 1)"
        unfolding l_def last_page_def using n(1) by (subst page_bounds [OF p]) linarith
      then show ?thesis using pf(1) n(1) by simp
    qed
    have "k + (pages_for c ?n - 1) \<le> 64 * length (ha_blocks h)"
      using last pf(1) n(1) shape(1) inv(2) P(5) by simp
    from setBitStream_run [OF this] obtain bs where bs: "setBitStream k (pages_for c ?n - 1) (ha_blocks h) = Some bs"
      "length bs = length (ha_blocks h)"
      "\<And>i. stream_bit bs i \<longleftrightarrow> (k \<le> i \<and> i < k + (pages_for c ?n - 1)) \<or> stream_bit (ha_blocks h) i"
      by auto
    have "k + (pages_for c ?n - 1) = l" using last pf(1) n(1) by simp
    then have "stream_bit bs i \<longleftrightarrow> (fst b div ?P \<le> i \<and> i < l) \<or> free_page h i" for i
      using bs(3) by (simp add: k_def free_page_def)
    from ha_drop_usage_ok [OF assms l_def bs(2) this] show ?thesis using rel True bs(1) last by auto
  next
    case False
    have kl: "k = l"
    proof -
      have "fst b mod ?P + ?n \<le> ?P" using ok False by (auto simp: blk_ok_def)
      then have "(fst b + ?n - 1) div ?P = fst b div ?P"
        using n(1) div_mult_mod_eq [of "fst b" ?P] by (subst page_bounds [OF p]) linarith
      then show ?thesis by (simp add: l_def last_page_def k_def)
    qed
    have "tail_bytes ?P ?n = ?n" using False n(1) by (simp add: tail_bytes_le)
    moreover have "stream_bit (ha_blocks h) i \<longleftrightarrow> (fst b div ?P \<le> i \<and> i < l) \<or> free_page h i" for i
      using kl by (auto simp: k_def free_page_def)
    ultimately show ?thesis using ha_drop_usage_ok [OF assms l_def refl, of] rel False kl by auto
  qed
qed

section \<open>Construction\<close>

lemma ha_new_ok:
  assumes "ha_ok c" "0 < raw"
  shows "ha_inv c (ha_new c raw) {}" "raw \<le> mem_ptr (ha_new c raw)" "mem_ptr (ha_new c raw) \<le> raw + page_size c - 1"
proof -
  let ?P = "page_size c"
  note P = ha_okD [OF assms(1)]
  define d where "d = raw mod ?P"
  have e: "raw div ?P * ?P + d = raw" "d < ?P" using P(1) by (simp_all add: d_def)
  have mem: "mem_ptr (ha_new c raw) = (if d > 0 then raw + (?P - d) else raw)"
    by (simp add: ha_new_def P(4) Let_def d_def)
  then show b: "raw \<le> mem_ptr (ha_new c raw)" "mem_ptr (ha_new c raw) \<le> raw + ?P - 1"
    using e P(1) by (auto split: if_splits)
  have "mem_ptr (ha_new c raw) mod ?P = 0"
  proof (cases "d > 0")
    case True
    then have "mem_ptr (ha_new c raw) = (raw div ?P + 1) * ?P" using mem e by (simp; linarith)
    then show ?thesis by simp
  qed (simp add: mem d_def)
  moreover have "stream_bit (replicate (num_blocks c) (- 1)) i" if "i < num_pages c" for i
    using that P(5) by (simp add: stream_bit_def less_mult_imp_div_less)
  then have "layout ?P (num_pages c) {} (free_page (ha_new c raw)) (\<lambda>i. pagesInfo (ha_new c raw) ! i)"
    by (intro layout_empty) (simp_all add: ha_new_def free_page_def Let_def)
  ultimately show "ha_inv c (ha_new c raw) {}" using assms(2) b(1)
    by (simp add: ha_inv_def active_ok_def) (simp add: ha_new_def Let_def)
qed

end
