(* ===== verification/Sdk_Heap.thy ===== *)
theory Sdk_Heap
  imports Sdk_Heap_Allocator
begin

text \<open>
  \<^verbatim>\<open>tools/heap.hpp\<close>: a growing list of heap allocators with \<^verbatim>\<open>malloc\<close> behind it. What \<^verbatim>\<open>new\<close> and \<^verbatim>\<open>malloc\<close>
  return is a parameter of the operations, and a call of \<^verbatim>\<open>free\<close> is part of the result. The operations
  are stated over the allocator of the chunks, as the template is; the interface it has to meet is the
  locale \<open>block_allocator\<close>, interpreted on the model of \<^verbatim>\<open>heap_allocator\<close>.
\<close>

section \<open>Operations\<close>

record 'h heap_chunk_info =
  pointer_begin :: nat
  pointer_end :: nat
  chunk :: 'h

text \<open>The loop over the chunks; the size is converted to the 32 bits the allocator takes.\<close>

fun heap_try :: "(nat \<Rightarrow> 'h \<Rightarrow> (nat \<times> 'h) option) \<Rightarrow> nat \<Rightarrow> 'h heap_chunk_info list \<Rightarrow>
    (nat \<times> 'h heap_chunk_info list) option" where
  "heap_try alloc sz [] = Some (0, [])"
| "heap_try alloc sz (it # its) = do {
     (ptr, ch) \<leftarrow> alloc (uw 32 sz) (chunk it);
     let it = it\<lparr> chunk := ch \<rparr>;
     (if ptr \<noteq> 0 then Some (ptr, it # its)
      else do { (ptr, its) \<leftarrow> heap_try alloc sz its; Some (ptr, it # its) }) }"

text \<open>\<open>new_chunk\<close> is the entry of a new allocator, \<open>malloced\<close> the result of \<^verbatim>\<open>malloc(size)\<close>.\<close>

definition heap_allocate :: "(nat \<Rightarrow> 'h \<Rightarrow> (nat \<times> 'h) option) \<Rightarrow> nat \<Rightarrow> 'h heap_chunk_info option \<Rightarrow> nat \<Rightarrow>
    nat \<Rightarrow> 'h heap_chunk_info list \<Rightarrow> (nat \<times> 'h heap_chunk_info list) option" where
  "heap_allocate alloc chunk_size new_chunk malloced sz chunks =
     (if uw 64 (2 * sz) \<le> chunk_size then do {
        (ptr, chunks) \<leftarrow> heap_try alloc sz chunks;
        (if ptr \<noteq> 0 then Some (ptr, chunks)
         else case new_chunk of
           None \<Rightarrow> Some (malloced, chunks)
         | Some it \<Rightarrow> do {
             (ptr, ch) \<leftarrow> alloc (uw 32 sz) (chunk it);
             Some (if ptr \<noteq> 0 then ptr else malloced, chunks @ [it\<lparr> chunk := ch \<rparr>]) }) }
      else Some (malloced, chunks))"

text \<open>The last component tells whether \<open>p\<close> is passed to \<^verbatim>\<open>free\<close>.\<close>

fun heap_deallocate :: "(nat \<Rightarrow> 'h \<Rightarrow> (bool \<times> 'h) option) \<Rightarrow> nat \<Rightarrow> 'h heap_chunk_info list \<Rightarrow>
    (bool \<times> 'h heap_chunk_info list \<times> bool) option" where
  "heap_deallocate release p [] = Some (True, [], True)"
| "heap_deallocate release p (it # its) =
     (if p \<ge> pointer_begin it \<and> p < pointer_end it then do {
        (r, ch) \<leftarrow> release p (chunk it);
        Some (r, it\<lparr> chunk := ch \<rparr> # its, False) }
      else do {
        (r, its, freed) \<leftarrow> heap_deallocate release p its;
        Some (r, it # its, freed) })"

text \<open>The entry pushed for a new allocator whose memory begins at \<open>raw\<close>.\<close>

definition heap_new_chunk :: "ha_cfg \<Rightarrow> nat \<Rightarrow> heap_alloc heap_chunk_info" where
  "heap_new_chunk c raw = (let ch = ha_new c raw in
     \<lparr> pointer_begin = get_memory_begin ch, pointer_end = get_memory_end c ch, chunk = ch \<rparr>)"

section \<open>Chunks and their blocks\<close>

definition chunks_apart :: "'h heap_chunk_info \<Rightarrow> 'h heap_chunk_info \<Rightarrow> bool" where
  "chunks_apart a b \<longleftrightarrow> pointer_end a \<le> pointer_begin b \<or> pointer_end b \<le> pointer_begin a"

fun all_apart :: "'h heap_chunk_info list \<Rightarrow> bool" where
  "all_apart [] \<longleftrightarrow> True"
| "all_apart (it # its) \<longleftrightarrow> (\<forall>b \<in> set its. chunks_apart it b) \<and> all_apart its"

text \<open>The live blocks at their addresses.\<close>

definition blocks_of :: "'h heap_chunk_info \<Rightarrow> blk set \<Rightarrow> blk set" where
  "blocks_of it L = (\<lambda>b. (pointer_begin it + fst b, snd b)) ` L"

lemma blocks_of_remove: "blocks_of it (L - {(o', n)}) = blocks_of it L - {(pointer_begin it + o', n)}"
proof -
  have "inj (\<lambda>b :: blk. (pointer_begin it + fst b, snd b))" by (auto intro!: injI prod_eqI)
  then show ?thesis by (simp add: blocks_of_def image_set_diff)
qed

fun heap_blocks :: "'h heap_chunk_info list \<Rightarrow> blk set list \<Rightarrow> blk set" where
  "heap_blocks (it # its) (L # Ls) = blocks_of it L \<union> heap_blocks its Ls"
| "heap_blocks _ _ = {}"

definition same_ranges :: "'h heap_chunk_info list \<Rightarrow> 'h heap_chunk_info list \<Rightarrow> bool" where
  "same_ranges = list_all2 (\<lambda>a b. pointer_begin a = pointer_begin b \<and> pointer_end a = pointer_end b)"

lemma same_ranges_simps [simp]: "same_ranges its its" "same_ranges [] []"
  "same_ranges (it # its) (jt # jts) \<longleftrightarrow>
    pointer_begin it = pointer_begin jt \<and> pointer_end it = pointer_end jt \<and> same_ranges its jts"
  by (auto simp: same_ranges_def list_all2_refl)

text \<open>A chunk, and a heap, with live blocks; \<open>live\<close>, \<open>base\<close> and \<open>extent\<close> describe the allocator.\<close>

definition heap_chunk_ok :: "('h \<Rightarrow> blk set \<Rightarrow> bool) \<Rightarrow> ('h \<Rightarrow> nat) \<Rightarrow> nat \<Rightarrow> 'h heap_chunk_info \<Rightarrow> blk set \<Rightarrow> bool" where
  "heap_chunk_ok live base extent it L \<longleftrightarrow>
     live (chunk it) L \<and> pointer_begin it = base (chunk it) \<and> pointer_end it = base (chunk it) + extent"

definition heap_ok :: "('h \<Rightarrow> blk set \<Rightarrow> bool) \<Rightarrow> ('h \<Rightarrow> nat) \<Rightarrow> nat \<Rightarrow> 'h heap_chunk_info list \<Rightarrow> blk set list \<Rightarrow> bool" where
  "heap_ok live base extent its Ls \<longleftrightarrow> list_all2 (heap_chunk_ok live base extent) its Ls \<and> all_apart its"

text \<open>What a served request adds to the live blocks: a block that is not there yet.\<close>

definition fresh_block :: "nat \<Rightarrow> blk \<Rightarrow> blk set \<Rightarrow> blk set \<Rightarrow> bool" where
  "fresh_block sz b B B' \<longleftrightarrow> sz + 16 \<le> snd b \<and> b \<notin> B \<and> B' = insert b B"

text \<open>A chunk refuses a request.\<close>

definition refuses :: "(nat \<Rightarrow> 'h \<Rightarrow> (nat \<times> 'h) option) \<Rightarrow> nat \<Rightarrow> 'h heap_chunk_info \<Rightarrow> bool" where
  "refuses alloc sz it \<longleftrightarrow> (\<exists>ch. alloc sz (chunk it) = Some (0, ch))"

text \<open>What the heap relies on; an allocator without live blocks serves any request of up to \<open>cap\<close> bytes.\<close>

locale block_allocator =
  fixes inv :: "'h \<Rightarrow> blk set \<Rightarrow> bool" and base :: "'h \<Rightarrow> nat" and extent cap :: nat
    and alloc :: "nat \<Rightarrow> 'h \<Rightarrow> (nat \<times> 'h) option" and release :: "nat \<Rightarrow> 'h \<Rightarrow> (bool \<times> 'h) option"
  assumes alloc_blocks: "inv h L \<Longrightarrow> sz < 2 ^ 32 \<Longrightarrow> \<exists>p h'. alloc sz h = Some (p, h') \<and> base h' = base h \<and>
      (p = 0 \<and> inv h' L \<and> (L = {} \<longrightarrow> 0 < sz \<longrightarrow> cap < sz) \<or>
       (\<exists>o' n. p = base h + o' + 16 \<and> sz + 16 \<le> n \<and> (o', n) \<notin> L \<and> inv h' (insert (o', n) L)))"
    and release_blocks: "inv h L \<Longrightarrow> b \<in> L \<Longrightarrow> \<exists>h'. release (base h + fst b + 16) h = Some (True, h') \<and>
      base h' = base h \<and> inv h' (L - {b})"
    and inside: "inv h L \<Longrightarrow> b \<in> L \<Longrightarrow> 16 < snd b \<and> fst b + snd b \<le> extent"
    and separate: "inv h L \<Longrightarrow> a \<in> L \<Longrightarrow> b \<in> L \<Longrightarrow> a \<noteq> b \<Longrightarrow> blk_apart a b"
begin

lemma block_in_chunk:
  assumes "heap_chunk_ok inv base extent it L" "b \<in> blocks_of it L"
  shows "pointer_begin it \<le> fst b" "fst b + snd b \<le> pointer_end it" "16 < snd b"
  using assms inside [of "chunk it" L] by (auto simp: blocks_of_def heap_chunk_ok_def)

lemma block_in_heap:
  assumes "list_all2 (heap_chunk_ok inv base extent) its Ls" "b \<in> heap_blocks its Ls"
  shows "\<exists>it \<in> set its. pointer_begin it \<le> fst b \<and> fst b + snd b \<le> pointer_end it \<and> 16 < snd b"
  using assms by (induction its Ls rule: list_all2_induct) (auto dest: block_in_chunk)

text \<open>A block of one chunk is not a block of the others.\<close>

lemma chunk_blocks_disjoint:
  assumes "heap_chunk_ok inv base extent it L" "list_all2 (heap_chunk_ok inv base extent) its Ls"
    "\<forall>jt \<in> set its. chunks_apart it jt" "x \<in> blocks_of it L"
  shows "x \<notin> heap_blocks its Ls"
proof
  assume "x \<in> heap_blocks its Ls"
  from block_in_heap [OF assms(2) this] obtain jt where
    j: "jt \<in> set its" "pointer_begin jt \<le> fst x" "fst x + snd x \<le> pointer_end jt" by blast
  have "chunks_apart it jt" using assms(3) j(1) by blast
  then show False using block_in_chunk [OF assms(1,4)] j(2,3) unfolding chunks_apart_def by linarith
qed

text \<open>All live blocks of the heap are apart from one another.\<close>

lemma heap_blocks_apart:
  assumes "heap_ok inv base extent its Ls" "a \<in> heap_blocks its Ls" "b \<in> heap_blocks its Ls" "a \<noteq> b"
  shows "blk_apart a b"
proof -
  have "list_all2 (heap_chunk_ok inv base extent) its Ls" "all_apart its" using assms(1) by (auto simp: heap_ok_def)
  then show ?thesis using assms(2,3)
  proof (induction its Ls rule: list_all2_induct)
    case (Cons it its L Ls)
    have far: "blk_apart x y" if x: "x \<in> blocks_of it L" and y: "y \<in> heap_blocks its Ls" for x y
    proof -
      obtain jt where j: "jt \<in> set its" "pointer_begin jt \<le> fst y" "fst y + snd y \<le> pointer_end jt"
        using block_in_heap [OF Cons.hyps(2) y] by blast
      have "chunks_apart it jt" using Cons.prems(1) j(1) by simp
      then show ?thesis using block_in_chunk [OF Cons.hyps(1) x] j(2,3) by (auto simp: chunks_apart_def blk_apart_def)
    qed
    have near: "blk_apart x y" if "x \<in> blocks_of it L" "y \<in> blocks_of it L" "x \<noteq> y" for x y
      using that separate [of "chunk it" L] Cons.hyps(1) by (auto simp: blocks_of_def heap_chunk_ok_def blk_apart_def) fastforce+
    show ?case
      using Cons.prems(2,3) near [of a b] far [of a b] far [of b a] Cons.IH Cons.prems(1) assms(4) blk_apart_sym [of a b] by auto
  qed simp
qed

lemma all_apart_same:
  "same_ranges its' its \<Longrightarrow>
    all_apart its' = all_apart its \<and> (\<forall>it. (\<forall>b \<in> set its'. chunks_apart it b) = (\<forall>b \<in> set its. chunks_apart it b))"
  unfolding same_ranges_def by (induction its' its rule: list_all2_induct) (auto simp: chunks_apart_def)

lemma all_apart_snoc: "all_apart (its @ [it]) \<longleftrightarrow> all_apart its \<and> (\<forall>b \<in> set its. chunks_apart it b)"
  by (induction its) (auto simp: chunks_apart_def)

lemma heap_blocks_snoc: "length its = length Ls \<Longrightarrow> heap_blocks (its @ [it]) (Ls @ [L]) = heap_blocks its Ls \<union> blocks_of it L"
  by (induction its Ls rule: list_induct2) auto

lemma same_ranges_snoc:
  "same_ranges its' its \<Longrightarrow> pointer_begin a = pointer_begin b \<Longrightarrow> pointer_end a = pointer_end b \<Longrightarrow>
    same_ranges (its' @ [a]) (its @ [b])"
  by (auto simp: same_ranges_def intro: list_all2_appendI)

lemma heap_try_ok:
  assumes "heap_ok inv base extent its Ls" "sz < 2 ^ 32"
  shows "\<exists>p its' Ls'. heap_try alloc sz its = Some (p, its') \<and> list_all2 (heap_chunk_ok inv base extent) its' Ls' \<and>
    same_ranges its' its \<and>
    (p = 0 \<and> heap_blocks its' Ls' = heap_blocks its Ls \<and> (\<forall>it \<in> set its. refuses alloc sz it) \<or>
     (\<exists>b. p = fst b + 16 \<and> fresh_block sz b (heap_blocks its Ls) (heap_blocks its' Ls')))"
proof -
  have "list_all2 (heap_chunk_ok inv base extent) its Ls" "all_apart its" using assms(1) by (auto simp: heap_ok_def)
  then show ?thesis
  proof (induction its Ls rule: list_all2_induct)
    case Nil
    then show ?case by (intro exI [of _ 0] exI [of _ "[]"]) simp
  next
    case (Cons it its L Ls)
    have it: "inv (chunk it) L" "pointer_begin it = base (chunk it)" "pointer_end it = base (chunk it) + extent"
      using Cons.hyps(1) by (auto simp: heap_chunk_ok_def)
    from alloc_blocks [OF it(1) assms(2)] obtain p ch where
      a: "alloc sz (chunk it) = Some (p, ch)" "base ch = base (chunk it)" and
      r: "p = 0 \<and> inv ch L \<or> (\<exists>o' n. p = base (chunk it) + o' + 16 \<and> sz + 16 \<le> n \<and> (o', n) \<notin> L \<and> inv ch (insert (o', n) L))"
      by blast
    let ?it = "it\<lparr> chunk := ch \<rparr>"
    have bo: "blocks_of ?it M = blocks_of it M" for M by (simp add: blocks_of_def)
    have apart: "all_apart its" and ap: "\<forall>b \<in> set its. chunks_apart ?it b"
      using Cons.prems by (simp_all add: chunks_apart_def)
    show ?case
    proof (cases "p = 0")
      case True
      then have c: "heap_chunk_ok inv base extent ?it L" using r a(2) it(2,3) by (auto simp: heap_chunk_ok_def)
      obtain p' its' Ls' where tl: "heap_try alloc sz its = Some (p', its')"
        "list_all2 (heap_chunk_ok inv base extent) its' Ls'" "same_ranges its' its"
        "p' = 0 \<and> heap_blocks its' Ls' = heap_blocks its Ls \<and> (\<forall>it \<in> set its. refuses alloc sz it) \<or>
         (\<exists>b. p' = fst b + 16 \<and> fresh_block sz b (heap_blocks its Ls) (heap_blocks its' Ls'))"
        using Cons.IH [OF apart] by blast
      have "\<forall>b \<in> set its'. chunks_apart ?it b" using ap all_apart_same [OF tl(3)] by blast
      from chunk_blocks_disjoint [OF c tl(2) this] have "b \<notin> blocks_of it L" if "b \<in> heap_blocks its' Ls'" for b
        using that bo by blast
      then have fresh: "fresh_block sz b (heap_blocks (it # its) (L # Ls)) (heap_blocks (?it # its') (L # Ls'))"
        if "fresh_block sz b (heap_blocks its Ls) (heap_blocks its' Ls')" for b
        using that bo by (auto simp: fresh_block_def)
      have "refuses alloc sz it" using a(1) True by (simp add: refuses_def)
      then have "p' = 0 \<and> heap_blocks (?it # its') (L # Ls') = heap_blocks (it # its) (L # Ls) \<and>
          (\<forall>jt \<in> set (it # its). refuses alloc sz jt) \<or>
         (\<exists>b. p' = fst b + 16 \<and> fresh_block sz b (heap_blocks (it # its) (L # Ls)) (heap_blocks (?it # its') (L # Ls')))"
        using tl(4) fresh bo by (elim disjE) (simp, blast)
      then show ?thesis using a(1) True assms(2) tl(1-3) c
        by (intro exI [of _ p'] exI [of _ "?it # its'"] exI [of _ "L # Ls'"] conjI) simp_all
    next
      case False
      then obtain o' n where o': "p = base (chunk it) + o' + 16" "sz + 16 \<le> n" "(o', n) \<notin> L" "inv ch (insert (o', n) L)"
        using r by auto
      let ?b = "(base (chunk it) + o', n)"
      have c: "heap_chunk_ok inv base extent ?it (insert (o', n) L)" using a(2) it(2,3) o'(4) by (auto simp: heap_chunk_ok_def)
      have b: "blocks_of it (insert (o', n) L) = insert ?b (blocks_of it L)" using it(2) by (simp add: blocks_of_def)
      have "?b \<notin> heap_blocks its Ls" using chunk_blocks_disjoint [OF c Cons.hyps(2) ap, of ?b] b bo by blast
      moreover have "?b \<notin> blocks_of it L" using o'(3) it(2) by (auto simp: blocks_of_def)
      ultimately have "fresh_block sz ?b (heap_blocks (it # its) (L # Ls)) (heap_blocks (?it # its) (insert (o', n) L # Ls))"
        using o'(2) b bo by (simp add: fresh_block_def)
      then show ?thesis using a(1) False o'(1) Cons.hyps(2) assms(2) c
        by (intro exI [of _ p] exI [of _ "?it # its"] exI [of _ "insert (o', n) L # Ls"] conjI disjI2 exI [of _ ?b]) simp_all
    qed
  qed
qed

text \<open>
  An allocation of a size the chunks serve: a new block in a chunk, with one chunk more only if all
  refused; \<^verbatim>\<open>malloc\<close> is asked if all refused and there is no new chunk.
\<close>

lemma heap_allocate_ok:
  assumes "heap_ok inv base extent its Ls" "2 * sz \<le> chunk_size" "chunk_size < 2 ^ 32" "0 < sz" "sz \<le> cap"
    and new: "\<And>it. new_chunk = Some it \<Longrightarrow> heap_chunk_ok inv base extent it {} \<and> (\<forall>b \<in> set its. chunks_apart it b)"
  shows "\<exists>p its' Ls'. heap_allocate alloc chunk_size new_chunk malloced sz its = Some (p, its') \<and> heap_ok inv base extent its' Ls' \<and>
    (same_ranges its' its \<or>
     (\<forall>it \<in> set its. refuses alloc sz it) \<and> (\<exists>it. new_chunk = Some it \<and> same_ranges its' (its @ [it]))) \<and>
    (p = malloced \<and> new_chunk = None \<and> heap_blocks its' Ls' = heap_blocks its Ls \<and> (\<forall>it \<in> set its. refuses alloc sz it) \<or>
     (\<exists>b. p = fst b + 16 \<and> fresh_block sz b (heap_blocks its Ls) (heap_blocks its' Ls')))"
proof -
  have sz: "sz < 2 ^ 32" and w: "uw 64 (2 * sz) \<le> chunk_size" using assms(2,3) by simp_all
  from heap_try_ok [OF assms(1) sz] obtain p its' Ls' where t: "heap_try alloc sz its = Some (p, its')"
    "list_all2 (heap_chunk_ok inv base extent) its' Ls'" "same_ranges its' its" and
    r: "p = 0 \<and> heap_blocks its' Ls' = heap_blocks its Ls \<and> (\<forall>it \<in> set its. refuses alloc sz it) \<or>
     (\<exists>b. p = fst b + 16 \<and> fresh_block sz b (heap_blocks its Ls) (heap_blocks its' Ls'))" by blast
  note same = all_apart_same [OF t(3)]
  have h: "heap_ok inv base extent its' Ls'" using t(2) same assms(1) by (simp add: heap_ok_def)
  have len: "length its' = length Ls'" using t(2) by (rule list_all2_lengthD)
  show ?thesis
  proof (cases "p = 0 \<and> new_chunk \<noteq> None")
    case False
    then have "heap_allocate alloc chunk_size new_chunk malloced sz its = Some (if p \<noteq> 0 then p else malloced, its')"
      using t(1) w by (auto simp: heap_allocate_def)
    then show ?thesis using r h t(3) False
      by (intro exI [of _ "if p \<noteq> 0 then p else malloced"] exI [of _ its'] exI [of _ Ls']) auto
  next
    case True
    then obtain it where it: "new_chunk = Some it" by auto
    have full: "heap_blocks its' Ls' = heap_blocks its Ls" "\<forall>it \<in> set its. refuses alloc sz it" using r True by auto
    have c: "heap_chunk_ok inv base extent it {}" "\<forall>b \<in> set its'. chunks_apart it b" using new [OF it] same by auto
    then have "inv (chunk it) {}" by (simp add: heap_chunk_ok_def)
    from alloc_blocks [OF this sz] assms(4,5) obtain q ch o' n where
      a: "alloc sz (chunk it) = Some (q, ch)" "base ch = base (chunk it)" and
      b: "q = base (chunk it) + o' + 16" "sz + 16 \<le> n" "inv ch {(o', n)}" by auto
    let ?it = "it\<lparr> chunk := ch \<rparr>"
    let ?b = "(base (chunk it) + o', n)"
    have run: "heap_allocate alloc chunk_size new_chunk malloced sz its = Some (q, its' @ [?it])"
      using t(1) True a(1) it w b(1) sz by (simp add: heap_allocate_def)
    have cb: "heap_chunk_ok inv base extent ?it {(o', n)}" using a(2) b(3) c(1) by (simp add: heap_chunk_ok_def)
    have ap: "\<forall>b \<in> set its'. chunks_apart ?it b" using c(2) by (simp add: chunks_apart_def)
    have bo: "blocks_of ?it {(o', n)} = {?b}" using c(1) by (simp add: blocks_of_def heap_chunk_ok_def)
    have "heap_ok inv base extent (its' @ [?it]) (Ls' @ [{(o', n)}])"
      using h cb ap by (simp add: heap_ok_def all_apart_snoc list_all2_appendI)
    moreover have "fresh_block sz ?b (heap_blocks its Ls) (heap_blocks (its' @ [?it]) (Ls' @ [{(o', n)}]))"
      using chunk_blocks_disjoint [OF cb t(2) ap, of ?b] bo full(1) b(2) len by (simp add: fresh_block_def heap_blocks_snoc)
    moreover have "same_ranges (its' @ [?it]) (its @ [it])" using same_ranges_snoc [OF t(3)] by simp
    ultimately show ?thesis using run b(1) it full(2)
      by (intro exI [of _ q] exI [of _ "its' @ [?it]"] exI [of _ "Ls' @ [{(o', n)}]"]) auto
  qed
qed

text \<open>A live block goes back to the chunk it is in; any other pointer goes to \<^verbatim>\<open>free\<close>.\<close>

lemma heap_deallocate_ok:
  assumes "heap_ok inv base extent its Ls" "b \<in> heap_blocks its Ls"
  shows "\<exists>its' Ls'. heap_deallocate release (fst b + 16) its = Some (True, its', False) \<and> heap_ok inv base extent its' Ls' \<and>
    heap_blocks its' Ls' = heap_blocks its Ls - {b} \<and>
    same_ranges its' its"
proof -
  have "list_all2 (heap_chunk_ok inv base extent) its Ls" "all_apart its" using assms(1) by (auto simp: heap_ok_def)
  then show ?thesis using assms(2)
  proof (induction its Ls rule: list_all2_induct)
    case (Cons it its L Ls)
    have it: "inv (chunk it) L" "pointer_begin it = base (chunk it)" "pointer_end it = base (chunk it) + extent"
      using Cons.hyps(1) by (auto simp: heap_chunk_ok_def)
    have rest: "b \<notin> heap_blocks its Ls" if "b \<in> blocks_of it L"
      using chunk_blocks_disjoint [OF Cons.hyps(1,2) _ that] Cons.prems(1) by simp
    show ?case
    proof (cases "b \<in> blocks_of it L")
      case True
      then obtain o' n where o': "(o', n) \<in> L" "b = (pointer_begin it + o', n)" by (auto simp: blocks_of_def)
      from release_blocks [OF it(1) o'(1)] obtain ch where
        r: "release (base (chunk it) + o' + 16) (chunk it) = Some (True, ch)" "base ch = base (chunk it)" "inv ch (L - {(o', n)})"
        by auto
      let ?it = "it\<lparr> chunk := ch \<rparr>"
      have "fst b + 16 < pointer_end it" using block_in_chunk [OF Cons.hyps(1) True] by simp
      then have "heap_deallocate release (fst b + 16) (it # its) = Some (True, ?it # its, False)"
        using r(1) o'(2) it(2) by simp
      moreover have "heap_chunk_ok inv base extent ?it (L - {(o', n)})" using r it by (simp add: heap_chunk_ok_def)
      then have "heap_ok inv base extent (?it # its) ((L - {(o', n)}) # Ls)"
        using Cons.hyps(2) Cons.prems(1) by (simp add: heap_ok_def chunks_apart_def)
      moreover have "blocks_of ?it (L - {(o', n)}) = blocks_of it L - {b}"
        using o'(2) using blocks_of_remove [of it L o' n] by (simp add: blocks_of_def)
      then have "heap_blocks (?it # its) ((L - {(o', n)}) # Ls) = heap_blocks (it # its) (L # Ls) - {b}"
        using rest [OF True] by auto
      ultimately show ?thesis
        by (intro exI [of _ "?it # its"] exI [of _ "(L - {(o', n)}) # Ls"]) simp
    next
      case False
      then have b: "b \<in> heap_blocks its Ls" using Cons.prems(2) by simp
      then obtain jt where j: "jt \<in> set its" "pointer_begin jt \<le> fst b" "fst b + snd b \<le> pointer_end jt" "16 < snd b"
        using block_in_heap [OF Cons.hyps(2)] by blast
      have out: "\<not> (fst b + 16 \<ge> pointer_begin it \<and> fst b + 16 < pointer_end it)"
      proof -
        have "chunks_apart it jt" using Cons.prems(1) j(1) by simp
        then show ?thesis using j(2-4) unfolding chunks_apart_def by linarith
      qed
      obtain its' Ls' where d: "heap_deallocate release (fst b + 16) its = Some (True, its', False)" "heap_ok inv base extent its' Ls'"
        "heap_blocks its' Ls' = heap_blocks its Ls - {b}"
        "same_ranges its' its"
        using Cons.IH Cons.prems(1) b by auto
      then have "heap_ok inv base extent (it # its') (L # Ls')"
        using Cons.prems(1) Cons.hyps(1) all_apart_same [OF d(4)] by (simp add: heap_ok_def)
      then show ?thesis using d out False
        by (intro exI [of _ "it # its'"] exI [of _ "L # Ls'"]) auto
    qed
  qed simp
qed

lemma heap_deallocate_other:
  "\<forall>it \<in> set its. p < pointer_begin it \<or> pointer_end it \<le> p \<Longrightarrow> heap_deallocate release p its = Some (True, its, True)"
  by (induction its) auto

end

section \<open>Heap allocators as chunks\<close>

interpretation hb: block_allocator "\<lambda>h L. ha_ok c \<and> ha_inv c h L" mem_ptr "allocation_size c" "allocation_size c - 31"
  "ha_allocate c" "ha_release c" for c
proof
  fix h L and sz :: nat
  assume a: "ha_ok c \<and> ha_inv c h L" "sz < 2 ^ 32"
  then have "\<forall>i < num_pages c. free_page h i" if "L = {}"
    using that ha_invD(4) [of c h L] by (simp add: layout_def)
  then have "allocation_size c - 31 < sz" if "L = {}" "0 < sz" "no_page_for c sz h"
    using that ha_okD(6) [of c] a unfolding no_page_for_def by fastforce
  then show "\<exists>p h'. ha_allocate c sz h = Some (p, h') \<and> mem_ptr h' = mem_ptr h \<and>
      (p = 0 \<and> (ha_ok c \<and> ha_inv c h' L) \<and> (L = {} \<longrightarrow> 0 < sz \<longrightarrow> allocation_size c - 31 < sz) \<or>
       (\<exists>o' n. p = mem_ptr h + o' + 16 \<and> sz + 16 \<le> n \<and> (o', n) \<notin> L \<and>
        (ha_ok c \<and> ha_inv c h' (insert (o', n) L))))"
    using ha_allocate_ok [of c h L sz] a by (fastforce simp: served_def)
next
  fix h L b
  assume "ha_ok c \<and> ha_inv c h L" "b \<in> L"
  then show "\<exists>h'. ha_release c (mem_ptr h + fst b + 16) h = Some (True, h') \<and> mem_ptr h' = mem_ptr h \<and>
      ha_ok c \<and> ha_inv c h' (L - {b})"
    using ha_release_ok [of c h L b] by blast
next
  fix h L b
  assume "ha_ok c \<and> ha_inv c h L" "b \<in> L"
  then show "16 < snd b \<and> fst b + snd b \<le> allocation_size c"
    using ha_invD(4) [of c h L] by (auto simp: layout_def blk_ok_def allocation_size_def)
next
  fix h L a b
  assume "ha_ok c \<and> ha_inv c h L" "a \<in> L" "b \<in> L" "a \<noteq> b"
  then show "blk_apart a b" using ha_invD(4) [of c h L] by (auto simp: layout_def)
qed

lemma heap_new_chunk_ok:
  "ha_ok c \<Longrightarrow> 0 < raw \<Longrightarrow> heap_chunk_ok (\<lambda>h L. ha_ok c \<and> ha_inv c h L) mem_ptr (allocation_size c) (heap_new_chunk c raw) {}"
  using ha_new_ok [of c raw]
  by (simp add: heap_chunk_ok_def heap_new_chunk_def get_memory_begin_def get_memory_end_def Let_def)

section \<open>Properties\<close>

text \<open>A heap of allocators of one size, with the live blocks of each.\<close>

definition heap_live :: "ha_cfg \<Rightarrow> heap_alloc heap_chunk_info list \<Rightarrow> blk set list \<Rightarrow> bool" where
  "heap_live c = heap_ok (\<lambda>h L. ha_ok c \<and> ha_inv c h L) mem_ptr (allocation_size c)"

definition demo_heap_cfg :: ha_cfg where
  "demo_heap_cfg = \<lparr> init_size = 8192, page_size = 4096 \<rparr>"

lemma demo_heap_cfg_ok: "ha_ok demo_heap_cfg"
proof -
  have "num_pages demo_heap_cfg = 64"
    by (simp add: num_pages_def num_blocks_def demo_heap_cfg_def k_h_val_def k_l_mask_def k_flag_bound_def Let_def)
  moreover have "page_size demo_heap_cfg = 2 ^ 12" by (simp add: demo_heap_cfg_def)
  ultimately show ?thesis by (auto simp: ha_ok_def allocation_size_def intro!: exI [of _ 12])
qed

text \<open>
  Property of \<^verbatim>\<open>heap_allocator::allocate\<close>: in any state it can be in, for any size, it returns
  either null, and the live blocks stay what they are, or a pointer behind a new header. The block
  then has the size that was asked for, is aligned to 16 bytes, lies inside the memory of the
  allocator, and does not overlap any live block; the bit map, the usage of the pages and the active
  page again describe the live blocks. A request that fits into a page with its header is refused
  only if no page is free.
\<close>

lemma heap_allocator_allocate:
  assumes "ha_ok c" "ha_inv c h L" "sz < 2 ^ 32"
  shows "\<exists>p h'. ha_allocate c sz h = Some (p, h') \<and> mem_ptr h' = mem_ptr h \<and>
    (p = 0 \<and> ha_inv c h' L \<and> (0 < sz \<longrightarrow> sz + 16 \<le> page_size c \<longrightarrow> (\<forall>i < num_pages c. \<not> free_page h i)) \<or>
     (\<exists>o' n. p = mem_ptr h + o' + 16 \<and> p mod 16 = 0 \<and> sz + 16 \<le> n \<and> o' + n \<le> allocation_size c \<and>
        (\<forall>b \<in> L. fst b + snd b \<le> o' \<or> o' + n \<le> fst b) \<and> ha_inv c h' (insert (o', n) L)))"
proof -
  from ha_allocate_ok [OF assms] obtain p h' where a: "ha_allocate c sz h = Some (p, h')" and
    r: "p = 0 \<and> ha_inv c h' L \<and> mem_ptr h' = mem_ptr h \<and> no_page_for c sz h \<or> (\<exists>n. sz + 16 \<le> n \<and> served c h L n (p, h'))"
    by blast
  have "mem_ptr h mod page_size c = 0" using assms(2) by (simp add: ha_inv_def)
  then have "mem_ptr h = mem_ptr h div page_size c * page_size c + 0" by auto
  then have m: "mem_ptr h mod 16 = 0"
    using pages_mod_16 [OF ha_okD(3) [OF assms(1)], of "mem_ptr h div page_size c" 0] by (metis mod_0)
  have al: "(mem_ptr h + o' + 16) mod 16 = 0" if "blk_ok (page_size c) (num_pages c) (o', n)" for o' n
    using that m by (auto simp: blk_ok_def)
  from r show ?thesis
  proof
    assume "p = 0 \<and> ha_inv c h' L \<and> mem_ptr h' = mem_ptr h \<and> no_page_for c sz h"
    then show ?thesis using a by (auto simp: no_page_for_def)
  next
    assume "\<exists>n. sz + 16 \<le> n \<and> served c h L n (p, h')"
    then obtain n o' where s: "sz + 16 \<le> n" "p = mem_ptr h + o' + 16" "blk_ok (page_size c) (num_pages c) (o', n)"
      "\<forall>b \<in> L. blk_apart b (o', n)" "mem_ptr h' = mem_ptr h" "ha_inv c h' (insert (o', n) L)"
      by (auto simp: served_def)
    moreover have "o' + n \<le> allocation_size c" using s(3) by (simp add: blk_ok_def allocation_size_def)
    moreover have "\<forall>b \<in> L. fst b + snd b \<le> o' \<or> o' + n \<le> fst b" using s(4) by (simp add: blk_apart_def)
    ultimately show ?thesis using a al [OF s(3)]
      by (intro exI [of _ p] exI [of _ h'] conjI disjI2 exI [of _ o'] exI [of _ n]) simp_all
  qed
qed

lemma demo_heap_alloc:
  "ha_inv demo_heap_cfg (ha_new demo_heap_cfg 100) {}"
  using ha_new_ok [OF demo_heap_cfg_ok, of 100] by simp

text \<open>
  C24. Property of \<^verbatim>\<open>heap_allocator::release\<close>: given the pointer of a live block it returns true
  and takes exactly this block away; the pages no block touches any more are free again, and the
  search for one page finds one as long as there is one.
\<close>

theorem heap_allocator_release:
  assumes "ha_ok c" "ha_inv c h L" "b \<in> L"
  shows "\<exists>h'. ha_release c (mem_ptr h + fst b + 16) h = Some (True, h') \<and> ha_inv c h' (L - {b}) \<and>
    (\<forall>i < num_pages c. free_page h' i \<longleftrightarrow> \<not> (\<exists>a \<in> L - {b}. touches (page_size c) i a)) \<and>
    (\<forall>i < num_pages c. free_page h' i \<longrightarrow> getBitScanStreamRevWord 1 (ha_blocks h') \<noteq> invalid_page_ix)"
proof -
  from ha_release_ok [OF assms] obtain h' where r: "ha_release c (mem_ptr h + fst b + 16) h = Some (True, h')" and
    i: "ha_inv c h' (L - {b})" by blast
  note inv = ha_invD [OF i] and P = ha_okD [OF assms(1)]
  have "getBitScanStreamRevWord 1 (ha_blocks h') \<noteq> invalid_page_ix" if "i < num_pages c" "free_page h' i" for i
    using scan_one [of "ha_blocks h'" i] that inv(2) P(5,8) by (simp add: free_page_def)
  then show ?thesis using r i inv(4) by (auto simp: layout_def)
qed

theorem heap_allocator_release_witness:
  "\<exists>p h' h''. ha_allocate demo_heap_cfg 24 (ha_new demo_heap_cfg 100) = Some (p, h') \<and> p \<noteq> 0 \<and>
    ha_release demo_heap_cfg p h' = Some (True, h'') \<and> ha_inv demo_heap_cfg h'' {}"
proof -
  have live: "ha_ok demo_heap_cfg \<and> ha_inv demo_heap_cfg (ha_new demo_heap_cfg 100) {}"
    using demo_heap_cfg_ok demo_heap_alloc by simp
  have "\<not> allocation_size demo_heap_cfg - 31 < 24"
    using ha_okD(1,5,6) [OF demo_heap_cfg_ok] by (simp add: allocation_size_def demo_heap_cfg_def)
  then obtain h' o' n where
    a: "ha_allocate demo_heap_cfg 24 (ha_new demo_heap_cfg 100) = Some (mem_ptr h' + o' + 16, h')"
      "ha_inv demo_heap_cfg h' {(o', n)}"
    using hb.alloc_blocks [OF live, of 24] by auto
  from heap_allocator_release [OF demo_heap_cfg_ok a(2), of "(o', n)"] obtain h'' where
    "ha_release demo_heap_cfg (mem_ptr h' + o' + 16) h' = Some (True, h'')" "ha_inv demo_heap_cfg h'' {}" by auto
  then show ?thesis using a(1) by (intro exI [of _ "mem_ptr h' + o' + 16"] exI [of _ h'] exI [of _ h'']) simp
qed

text \<open>Half of the size the heap is made for fits into an allocator of the size it then has.\<close>

lemma half_fits:
  assumes "ha_ok c"
  shows "init_size c < 2 ^ 32" "2 * sz \<le> init_size c \<Longrightarrow> sz \<le> allocation_size c - 31"
proof -
  let ?P = "page_size c" and ?NP = "init_size c div page_size c"
  note P = ha_okD [OF assms]
  have np: "?NP \<le> num_pages c" "64 \<le> num_pages c"
  proof -
    have "?NP = 64 * (?NP div 64) + ?NP mod 64" "?NP mod 64 < 64" by simp_all
    moreover have "num_blocks c = ?NP div 64 + (if ?NP mod 64 \<noteq> 0 then 1 else 0)"
      using take_bit_eq_mask [of 6 ?NP] by (simp add: num_blocks_def k_h_val_def k_l_mask_def k_flag_bound_def mask_eq_exp_minus_1 take_bit_eq_mod)
    ultimately show "?NP \<le> num_pages c" using P(5) by (auto split: if_splits)
    show "64 \<le> num_pages c" using P(5,6) by simp
  qed
  have "?NP * ?P \<le> allocation_size c" "64 * ?P \<le> allocation_size c"
    using np by (simp_all add: allocation_size_def)
  moreover have "init_size c < ?NP * ?P + ?P" using P(1) div_mult_mod_eq [of "init_size c" ?P] mod_less_divisor [of ?P "init_size c"]
    by linarith
  moreover have "allocation_size c < 2 ^ 31" using P(7) by (simp add: allocation_size_def)
  ultimately show "init_size c < 2 ^ 32" "2 * sz \<le> init_size c \<Longrightarrow> sz \<le> allocation_size c - 31" using P(1,2) by auto
qed

text \<open>A request for no bytes is refused by every chunk, so it pushes a chunk each time before it asks \<^verbatim>\<open>malloc\<close>.\<close>

lemma heap_allocate_nothing:
  "heap_allocate (ha_allocate c) (init_size c) (Some it) malloced 0 its = Some (malloced, its @ [it])"
proof -
  have z: "ha_allocate c 0 h = Some (0, h)" for h by (simp add: ha_allocate_def SDK_CP_ALIGNMENT_def)
  have "heap_try (ha_allocate c) 0 its = Some (0, its)" by (induction its) (simp_all add: z)
  then show ?thesis by (simp add: heap_allocate_def z)
qed

text \<open>
  C25. Property of \<^verbatim>\<open>heap::allocate\<close> and \<^verbatim>\<open>heap::deallocate\<close> over any number of chunks. A request of
  at least one byte and at most half the chunk size always gets a new block, which was not live and is
  apart from all live ones, when a chunk can be made; the chunks keep their ranges, and one is added
  only if all of them refused. When no chunk can be made the request is served in the same way, or,
  if all chunks refused, gets what \<^verbatim>\<open>malloc\<close> returned. A larger request, below \<open>2\<^sup>6\<^sup>3\<close> bytes, gets what
  \<^verbatim>\<open>malloc\<close> returned and touches no chunk. The pointer of a live block is given back to the chunk it
  came from, which takes exactly this block away, and a pointer outside the chunks is passed to
  \<^verbatim>\<open>free\<close>.
\<close>

theorem heap_contract:
  assumes "heap_live c its Ls" "ha_ok c"
  shows "(\<forall>sz raw malloced. 0 < sz \<longrightarrow> 2 * sz \<le> init_size c \<longrightarrow> 0 < raw \<longrightarrow>
      (\<forall>b \<in> set its. chunks_apart (heap_new_chunk c raw) b) \<longrightarrow>
      (\<exists>b its' Ls'. heap_allocate (ha_allocate c) (init_size c) (Some (heap_new_chunk c raw)) malloced sz its =
          Some (fst b + 16, its') \<and> heap_live c its' Ls' \<and> sz + 16 \<le> snd b \<and>
        b \<notin> heap_blocks its Ls \<and> heap_blocks its' Ls' = insert b (heap_blocks its Ls) \<and>
        (\<forall>a \<in> heap_blocks its Ls. fst a + snd a \<le> fst b \<or> fst b + snd b \<le> fst a) \<and>
        (same_ranges its' its \<or>
         (\<forall>it \<in> set its. refuses (ha_allocate c) sz it) \<and> same_ranges its' (its @ [heap_new_chunk c raw])))) \<and>
    (\<forall>sz malloced. 0 < sz \<longrightarrow> 2 * sz \<le> init_size c \<longrightarrow>
      (\<exists>p its' Ls'. heap_allocate (ha_allocate c) (init_size c) None malloced sz its = Some (p, its') \<and>
        heap_live c its' Ls' \<and> same_ranges its' its \<and>
        (p = malloced \<and> heap_blocks its' Ls' = heap_blocks its Ls \<and> (\<forall>it \<in> set its. refuses (ha_allocate c) sz it) \<or>
         (\<exists>b. p = fst b + 16 \<and> sz + 16 \<le> snd b \<and> b \<notin> heap_blocks its Ls \<and>
           heap_blocks its' Ls' = insert b (heap_blocks its Ls))))) \<and>
    (\<forall>sz new_chunk malloced. init_size c < 2 * sz \<longrightarrow> 2 * sz < 2 ^ 64 \<longrightarrow>
      heap_allocate (ha_allocate c) (init_size c) new_chunk malloced sz its = Some (malloced, its)) \<and>
    (\<forall>a \<in> heap_blocks its Ls. \<forall>b \<in> heap_blocks its Ls. a \<noteq> b \<longrightarrow>
      fst a + snd a \<le> fst b \<or> fst b + snd b \<le> fst a) \<and>
    (\<forall>b \<in> heap_blocks its Ls.
      \<exists>its' Ls'. heap_deallocate (ha_release c) (fst b + 16) its = Some (True, its', False) \<and>
        heap_live c its' Ls' \<and> heap_blocks its' Ls' = heap_blocks its Ls - {b}) \<and>
    (\<forall>p. (\<forall>it \<in> set its. p < pointer_begin it \<or> pointer_end it \<le> p) \<longrightarrow>
      heap_deallocate (ha_release c) p its = Some (True, its, True))"
proof (intro conjI allI impI ballI)
  note ok = assms(1) [unfolded heap_live_def]
  have fits: "init_size c < 2 ^ 32" "2 * sz \<le> init_size c \<Longrightarrow> sz \<le> allocation_size c - 31" for sz
    using half_fits [OF assms(2)] by auto
  show "\<exists>b its' Ls'. heap_allocate (ha_allocate c) (init_size c) (Some (heap_new_chunk c raw)) malloced sz its =
          Some (fst b + 16, its') \<and> heap_live c its' Ls' \<and> sz + 16 \<le> snd b \<and>
        b \<notin> heap_blocks its Ls \<and> heap_blocks its' Ls' = insert b (heap_blocks its Ls) \<and>
        (\<forall>a \<in> heap_blocks its Ls. fst a + snd a \<le> fst b \<or> fst b + snd b \<le> fst a) \<and>
        (same_ranges its' its \<or>
         (\<forall>it \<in> set its. refuses (ha_allocate c) sz it) \<and> same_ranges its' (its @ [heap_new_chunk c raw]))"
    if "0 < sz" "2 * sz \<le> init_size c" "0 < raw" "\<forall>b \<in> set its. chunks_apart (heap_new_chunk c raw) b" for sz raw malloced
  proof -
    from hb.heap_allocate_ok [OF ok that(2) fits(1) that(1) fits(2) [OF that(2)], of "Some (heap_new_chunk c raw)" malloced]
      heap_new_chunk_ok [OF assms(2) that(3)] that(4)
    obtain b its' Ls' where
      r: "heap_allocate (ha_allocate c) (init_size c) (Some (heap_new_chunk c raw)) malloced sz its = Some (fst b + 16, its')"
        "heap_live c its' Ls'" "fresh_block sz b (heap_blocks its Ls) (heap_blocks its' Ls')"
        "same_ranges its' its \<or>
         (\<forall>it \<in> set its. refuses (ha_allocate c) sz it) \<and> same_ranges its' (its @ [heap_new_chunk c raw])"
      by (auto simp: heap_live_def)
    moreover have "fst a + snd a \<le> fst b \<or> fst b + snd b \<le> fst a" if "a \<in> heap_blocks its Ls" for a
      using hb.heap_blocks_apart [OF r(2) [unfolded heap_live_def], of a b] r(3) that
      by (fastforce simp: fresh_block_def blk_apart_def)
    ultimately show ?thesis by (intro exI [of _ b] exI [of _ its'] exI [of _ Ls']) (simp add: fresh_block_def)
  qed
  show "\<exists>p its' Ls'. heap_allocate (ha_allocate c) (init_size c) None malloced sz its = Some (p, its') \<and>
        heap_live c its' Ls' \<and> same_ranges its' its \<and>
        (p = malloced \<and> heap_blocks its' Ls' = heap_blocks its Ls \<and> (\<forall>it \<in> set its. refuses (ha_allocate c) sz it) \<or>
         (\<exists>b. p = fst b + 16 \<and> sz + 16 \<le> snd b \<and> b \<notin> heap_blocks its Ls \<and>
           heap_blocks its' Ls' = insert b (heap_blocks its Ls)))"
    if "0 < sz" "2 * sz \<le> init_size c" for sz malloced
    using hb.heap_allocate_ok [OF ok that(2) fits(1) that(1) fits(2) [OF that(2)], of None malloced]
    unfolding heap_live_def fresh_block_def by simp
  show "heap_allocate (ha_allocate c) (init_size c) new_chunk malloced sz its = Some (malloced, its)"
    if "init_size c < 2 * sz" "2 * sz < 2 ^ 64" for sz new_chunk malloced
    using that by (simp add: heap_allocate_def)
  show "fst a + snd a \<le> fst b \<or> fst b + snd b \<le> fst a"
    if "a \<in> heap_blocks its Ls" "b \<in> heap_blocks its Ls" "a \<noteq> b" for a b
    using hb.heap_blocks_apart [OF ok that] by (simp add: blk_apart_def)
  show "\<exists>its' Ls'. heap_deallocate (ha_release c) (fst b + 16) its = Some (True, its', False) \<and>
        heap_live c its' Ls' \<and> heap_blocks its' Ls' = heap_blocks its Ls - {b}" if "b \<in> heap_blocks its Ls" for b
    using hb.heap_deallocate_ok [OF ok that] by (auto simp: heap_live_def)
  show "heap_deallocate (ha_release c) p its = Some (True, its, True)"
    if "\<forall>it \<in> set its. p < pointer_begin it \<or> pointer_end it \<le> p" for p
    using hb.heap_deallocate_other [OF that] .
qed

text \<open>A heap without chunks: the first allocation makes one, and its block goes back to it.\<close>

theorem heap_contract_witness:
  "\<exists>p its its'. heap_allocate (ha_allocate demo_heap_cfg) 8192 (Some (heap_new_chunk demo_heap_cfg 100)) 7 24 [] = Some (p, its) \<and>
    length its = 1 \<and> heap_deallocate (ha_release demo_heap_cfg) p its = Some (True, its', False)"
proof -
  have e: "heap_live demo_heap_cfg [] []" by (simp add: heap_live_def heap_ok_def)
  have i: "init_size demo_heap_cfg = 8192" by (simp add: demo_heap_cfg_def)
  have "0 < (24 :: nat)" "2 * 24 \<le> init_size demo_heap_cfg" "0 < (100 :: nat)"
    "\<forall>b \<in> set []. chunks_apart (heap_new_chunk demo_heap_cfg 100) b" by (simp_all add: i)
  note h = heap_contract [OF e demo_heap_cfg_ok, THEN conjunct1, THEN spec, THEN spec, THEN spec,
    THEN mp, THEN mp, THEN mp, THEN mp, OF this]
  from h [of 7] show ?thesis unfolding i heap_blocks.simps
  proof (elim exE conjE)
    fix b its Ls
    assume a: "heap_allocate (ha_allocate demo_heap_cfg) 8192 (Some (heap_new_chunk demo_heap_cfg 100)) 7 24 [] = Some (fst b + 16, its)"
      "heap_live demo_heap_cfg its Ls" "heap_blocks its Ls = {b}" and
      r: "same_ranges its [] \<or> (\<forall>it \<in> set []. refuses (ha_allocate demo_heap_cfg) 24 it) \<and>
        same_ranges its ([] @ [heap_new_chunk demo_heap_cfg 100])"
    from a(3) have "its \<noteq> []" by (cases its) auto
    then have "length its = 1" using r by (auto simp: same_ranges_def dest: list_all2_lengthD)
    moreover have "b \<in> heap_blocks its Ls" using a(3) by simp
    then obtain its' where "heap_deallocate (ha_release demo_heap_cfg) (fst b + 16) its = Some (True, its', False)"
      using heap_contract [OF a(2) demo_heap_cfg_ok, THEN conjunct2, THEN conjunct2, THEN conjunct2, THEN conjunct2,
        THEN conjunct1, THEN bspec, of b] by blast
    ultimately show ?thesis using a(1) by auto
  qed
qed

end
