(* ===== verification/Sdk_List.thy ===== *)
theory Sdk_List
  imports Sdk_Prelude "HOL-Library.Monad_Syntax"
begin

text \<open>
  \<^verbatim>\<open>tools/list.hpp\<close>: circular doubly linked lists whose nodes carry the data in front of the links. The nodes
  live in an explicit store from addresses to nodes, as \<^verbatim>\<open>insert_after\<close> and \<^verbatim>\<open>remove\<close> change the links of
  neighbours that may be one and the same node. An access to an address without a node, and releasing one
  twice, is \<^term>\<open>None\<close>.
\<close>

section \<open>Nodes and operations\<close>

record 'a node =
  nd_data :: 'a
  nd_prev :: nat
  nd_next :: nat

type_synonym 'a node_store = "nat \<rightharpoonup> 'a node"

definition upd_node :: "nat \<Rightarrow> ('a node \<Rightarrow> 'a node) \<Rightarrow> 'a node_store \<Rightarrow> 'a node_store option" where
  "upd_node p f h = (case h p of None \<Rightarrow> None | Some n \<Rightarrow> Some (h(p \<mapsto> f n)))"

definition set_next :: "nat \<Rightarrow> nat \<Rightarrow> 'a node_store \<Rightarrow> 'a node_store option" where
  "set_next p q = upd_node p (nd_next_update (\<lambda>_. q))"

definition set_prev :: "nat \<Rightarrow> nat \<Rightarrow> 'a node_store \<Rightarrow> 'a node_store option" where
  "set_prev p q = upd_node p (nd_prev_update (\<lambda>_. q))"

text \<open>\<^verbatim>\<open>create\<close>: what the allocator returned, and the data of the new node, which is linked to itself.\<close>

definition list_create :: "nat option \<Rightarrow> 'a \<Rightarrow> 'a node_store \<Rightarrow> nat option \<times> 'a node_store" where
  "list_create ptr d h = (case ptr of
     None \<Rightarrow> (None, h)
   | Some p \<Rightarrow> (Some p, h(p \<mapsto> \<lparr> nd_data = d, nd_prev = p, nd_next = p \<rparr>)))"

definition list_insert_after :: "nat \<Rightarrow> nat \<Rightarrow> 'a node_store \<Rightarrow> 'a node_store option" where
  "list_insert_after l t h = do {
     n \<leftarrow> h l;
     let r = nd_next n;
     h \<leftarrow> set_next l t h;
     h \<leftarrow> set_prev t l h;
     h \<leftarrow> set_next t r h;
     set_prev r t h }"

definition list_remove :: "nat \<Rightarrow> 'a node_store \<Rightarrow> 'a node_store option" where
  "list_remove t h = do {
     n \<leftarrow> h t;
     let l = nd_prev n;
     let r = nd_next n;
     h \<leftarrow> set_next l r h;
     set_prev r l h }"

text \<open>\<^verbatim>\<open>dealloc\<close> with the destructor before it: the node is gone, its address is noted.\<close>

definition dealloc :: "nat \<Rightarrow> 'a node_store \<times> nat list \<Rightarrow> ('a node_store \<times> nat list) option" where
  "dealloc p = (\<lambda>(h, freed). if h p = None then None else Some (h(p := None), freed @ [p]))"

definition list_destroy :: "nat \<Rightarrow> 'a node_store \<times> nat list \<Rightarrow> ('a node_store \<times> nat list) option" where
  "list_destroy t = (\<lambda>(h, freed). do { h \<leftarrow> list_remove t h; dealloc t (h, freed) })"

partial_function (option) destroy_loop :: "nat \<Rightarrow> nat \<Rightarrow> 'a node_store \<times> nat list \<Rightarrow> ('a node_store \<times> nat list) option" where
  "destroy_loop t n s = (if t = n then Some s else do {
     nd \<leftarrow> fst s n;
     nx \<leftarrow> fst s (nd_next nd);
     s' \<leftarrow> dealloc (nd_prev nx) s;
     destroy_loop t (nd_next nd) s' })"

text \<open>The pointer of the caller, which the code sets to null at the end, is not part of the result.\<close>

definition list_destroy_all :: "nat \<Rightarrow> 'a node_store \<times> nat list \<Rightarrow> ('a node_store \<times> nat list) option" where
  "list_destroy_all t s = do {
     nd \<leftarrow> fst s t;
     s \<leftarrow> destroy_loop t (nd_next nd) s;
     dealloc t s }"

definition list_next :: "nat \<Rightarrow> 'a node_store \<Rightarrow> nat option" where
  "list_next p h = map_option nd_next (h p)"

text \<open>\<^verbatim>\<open>func\<close> gets a reference to the data: it may change it, and the state of its own, and says whether to go on.\<close>

partial_function (option) foreach_loop ::
  "('a \<Rightarrow> 's \<Rightarrow> bool \<times> 'a \<times> 's) \<Rightarrow> nat \<Rightarrow> nat \<Rightarrow> 'a node_store \<Rightarrow> 's \<Rightarrow> ('a node_store \<times> 's) option" where
  "foreach_loop func t n h s = do {
     nd \<leftarrow> h n;
     (case func (nd_data nd) s of (go, d, s') \<Rightarrow>
       let h' = h(n \<mapsto> nd\<lparr> nd_data := d \<rparr>) in
       if \<not> go then Some (h', s')
       else if t = nd_next nd then Some (h', s')
       else foreach_loop func t (nd_next nd) h' s') }"

definition list_foreach :: "('a \<Rightarrow> 's \<Rightarrow> bool \<times> 'a \<times> 's) \<Rightarrow> nat \<Rightarrow> 'a node_store \<Rightarrow> 's \<Rightarrow> ('a node_store \<times> 's) option" where
  "list_foreach func t h s = foreach_loop func t t h s"

section \<open>Rings\<close>

text \<open>The list of the nodes of a circular list, from one of them on.\<close>

definition nx :: "'a node_store \<Rightarrow> nat \<Rightarrow> nat" where
  "nx h p = nd_next (the (h p))"

definition pv :: "'a node_store \<Rightarrow> nat \<Rightarrow> nat" where
  "pv h p = nd_prev (the (h p))"

definition dt :: "'a node_store \<Rightarrow> nat \<Rightarrow> 'a" where
  "dt h p = nd_data (the (h p))"

definition ring :: "'a node_store \<Rightarrow> nat list \<Rightarrow> bool" where
  "ring h ps \<longleftrightarrow> ps \<noteq> [] \<and> distinct ps \<and> set ps \<subseteq> dom h \<and> map (nx h) ps = rotate1 ps \<and> map (pv h) (rotate1 ps) = ps"

lemma ring_Cons: "ring h (p # ps) \<longleftrightarrow> distinct (p # ps) \<and> set (p # ps) \<subseteq> dom h \<and>
    map (nx h) (p # ps) = ps @ [p] \<and> map (pv h) (ps @ [p]) = p # ps"
  by (auto simp: ring_def)

text \<open>It does not matter where one starts.\<close>

lemma ring_cong: "\<forall>p \<in> set ps. h p = h' p \<Longrightarrow> ring h ps \<longleftrightarrow> ring h' ps"
proof -
  assume *: "\<forall>p \<in> set ps. h p = h' p"
  then have "map (nx h) ps = map (nx h') ps" "map (pv h) (rotate1 ps) = map (pv h') (rotate1 ps)"
    by (auto simp: nx_def pv_def intro!: map_cong)
  moreover have "set ps \<subseteq> dom h \<longleftrightarrow> set ps \<subseteq> dom h'" using * by (auto simp: subset_iff domIff)
  ultimately show ?thesis by (simp only: ring_def)
qed

lemma ring_rotate1: "ring h ps \<Longrightarrow> ring h (rotate1 ps)"
  by (auto simp: ring_def rotate1_map [symmetric])

lemma ring_rotate: "ring h ps \<Longrightarrow> ring h (rotate n ps)"
  by (induction n) (simp_all add: ring_rotate1)

text \<open>One link changed, and what is seen of it afterwards.\<close>

definition with_next :: "'a node_store \<Rightarrow> nat \<Rightarrow> nat \<Rightarrow> 'a node_store" where
  "with_next h p q = h(p \<mapsto> (the (h p))\<lparr> nd_next := q \<rparr>)"

definition with_prev :: "'a node_store \<Rightarrow> nat \<Rightarrow> nat \<Rightarrow> 'a node_store" where
  "with_prev h p q = h(p \<mapsto> (the (h p))\<lparr> nd_prev := q \<rparr>)"

lemma set_link: "p \<in> dom h \<Longrightarrow> set_next p q h = Some (with_next h p q)" "p \<in> dom h \<Longrightarrow> set_prev p q h = Some (with_prev h p q)"
  by (auto simp: set_next_def set_prev_def upd_node_def with_next_def with_prev_def)

lemma with_next_simps [simp]:
  "nx (with_next h p q) = (nx h)(p := q)" "pv (with_next h p q) = pv h" "dt (with_next h p q) = dt h"
  "dom (with_next h p q) = insert p (dom h)" "x \<noteq> p \<Longrightarrow> with_next h p q x = h x"
  by (auto simp: nx_def pv_def dt_def with_next_def)

lemma with_prev_simps [simp]:
  "nx (with_prev h p q) = nx h" "pv (with_prev h p q) = (pv h)(p := q)" "dt (with_prev h p q) = dt h"
  "dom (with_prev h p q) = insert p (dom h)" "x \<noteq> p \<Longrightarrow> with_prev h p q x = h x"
  by (auto simp: nx_def pv_def dt_def with_prev_def)

lemma node_cases: "p \<in> dom h \<Longrightarrow> \<exists>n. h p = Some n \<and> nd_next n = nx h p \<and> nd_prev n = pv h p \<and> nd_data n = dt h p"
  by (auto simp: nx_def pv_def dt_def)

section \<open>Editing\<close>

lemma list_insert_after_eq:
  assumes "l \<in> dom h" "t \<in> dom h" "nx h l \<in> dom h"
  shows "list_insert_after l t h = Some (with_prev (with_next (with_prev (with_next h l t) t l) t (nx h l)) (nx h l) t)"
proof -
  obtain n where "h l = Some n" "nd_next n = nx h l" using node_cases [OF assms(1)] by blast
  then show ?thesis by (simp add: list_insert_after_def Let_def set_link assms)
qed

lemma list_remove_eq:
  assumes "t \<in> dom h" "nx h t \<in> dom h" "pv h t \<in> dom h"
  shows "list_remove t h = Some (with_prev (with_next h (pv h t) (nx h t)) (nx h t) (pv h t))"
proof -
  obtain n where "h t = Some n" "nd_next n = nx h t" "nd_prev n = pv h t" using node_cases [OF assms(1)] by blast
  then show ?thesis by (simp add: list_remove_def Let_def set_link assms)
qed

text \<open>What both edits leave alone: the data, and the nodes outside the list.\<close>

definition list_frame :: "nat list \<Rightarrow> 'a node_store \<Rightarrow> 'a node_store \<Rightarrow> bool" where
  "list_frame ps h h' \<longleftrightarrow> dom h' = dom h \<and> dt h' = dt h \<and> (\<forall>q. q \<notin> set ps \<longrightarrow> h' q = h q)"

lemma map_upd_other: "p \<notin> set xs \<Longrightarrow> map (f(p := y)) xs = map f xs"
  by simp

lemma ring_insert:
  assumes "ring h (l # ps)" "t \<in> dom h" "t \<notin> set (l # ps)"
  shows "\<exists>h'. list_insert_after l t h = Some h' \<and> ring h' (l # t # ps) \<and> list_frame (l # t # ps) h h'"
proof -
  obtain r rs where r: "ps @ [l] = r # rs" by (cases "ps @ [l]") auto
  have R: "distinct (r # rs)" "t \<notin> set (r # rs)" "set (r # rs) = set (l # ps)" "nx h l = r" "map (nx h) ps = rs"
    "pv h r = l" "map (pv h) rs = ps" "set (l # ps) \<subseteq> dom h" "distinct (l # ps)"
  proof -
    have *: "distinct (l # ps)" "set (l # ps) \<subseteq> dom h" "map (nx h) (l # ps) = r # rs" "map (pv h) (r # rs) = l # ps"
      using assms(1) unfolding ring_Cons r by blast+
    have "set (ps @ [l]) = set (l # ps)" "distinct (ps @ [l])" using *(1) by auto
    then have "set (r # rs) = set (l # ps)" "distinct (r # rs)" unfolding r by blast+
    then show "distinct (r # rs)" "t \<notin> set (r # rs)" "set (r # rs) = set (l # ps)" "nx h l = r" "map (nx h) ps = rs"
      "pv h r = l" "map (pv h) rs = ps" "set (l # ps) \<subseteq> dom h" "distinct (l # ps)"
      using * assms(3) by (blast, blast, blast, simp_all)
  qed
  let ?h = "with_prev (with_next (with_prev (with_next h l t) t l) t r) r t"
  have rin: "r \<in> set (l # ps)" unfolding R(3) [symmetric] by simp
  then have dm: "l \<in> dom h" "r \<in> dom h" using R(8) by auto
  have "list_insert_after l t h = Some ?h"
    using list_insert_after_eq [of l h t] dm assms(2) R(4) by simp
  moreover have "ring ?h (l # t # ps)"
    unfolding ring_Cons using R assms r by (auto simp: map_upd_other)
  moreover have "list_frame (l # t # ps) h ?h"
  proof -
    have "q \<noteq> r \<and> q \<noteq> l \<and> q \<noteq> t" if "q \<notin> set (l # t # ps)" for q using rin that by auto
    then show ?thesis using dm assms(2) by (simp add: list_frame_def insert_absorb)
  qed
  ultimately show ?thesis by blast
qed

lemma ring_remove:
  assumes "ring h (t # ps)" "ps \<noteq> []"
  shows "\<exists>h'. list_remove t h = Some h' \<and> ring h' ps \<and> list_frame ps h h'"
proof -
  obtain r rs where r: "ps = r # rs" using assms(2) by (cases ps) auto
  obtain l ls where l: "ps = ls @ [l]" using assms(2) by (cases ps rule: rev_cases) auto
  have R: "nx h t = r" "map (nx h) ps = rs @ [t]" "pv h r = t" "map (pv h) (rs @ [t]) = ps"
    "set (t # ps) \<subseteq> dom h" "distinct (t # ps)" using assms(1) r unfolding ring_Cons by auto
  have L: "pv h t = l" "map (pv h) rs = ls" "map (nx h) ls = rs" "nx h l = t" using R l by auto
  let ?h = "with_prev (with_next h l r) r l"
  have lr: "l \<in> set ps" "r \<in> set ps" unfolding l by (simp, simp add: l [symmetric] r)
  then have dm: "t \<in> dom h" "r \<in> dom h" "l \<in> dom h" using R(5) by auto
  have "list_remove t h = Some ?h" using list_remove_eq [of t h] dm R(1) L(1) by simp
  moreover have "ring ?h ps"
  proof -
    have "r \<notin> set rs" using R(6) r by simp
    moreover have "l \<notin> set ls" using R(6) l by simp
    ultimately have "map (nx ?h) ps = rs @ [r]" "map (pv ?h) (rs @ [r]) = ps" using L by (simp_all add: l)
    then show ?thesis using R r by (simp add: ring_def) auto
  qed
  moreover have "list_frame ps h ?h"
  proof -
    have "q \<noteq> r \<and> q \<noteq> l" if "q \<notin> set ps" for q using lr that by auto
    then show ?thesis using dm by (simp add: list_frame_def insert_absorb)
  qed
  ultimately show ?thesis by blast
qed

text \<open>A list of one node: removing it changes nothing, so that destroying it leaves no node behind.\<close>

lemma ring_remove_last:
  assumes "ring h [t]"
  shows "list_remove t h = Some h"
proof -
  obtain n where n: "h t = Some n" "nd_next n = t" "nd_prev n = t"
    using assms unfolding ring_Cons by (auto simp: nx_def pv_def)
  have "with_next h t t = h" using n by (cases n) (auto simp: with_next_def)
  moreover have "with_prev h t t = h" using n by (cases n) (auto simp: with_prev_def)
  ultimately show ?thesis using n by (simp add: list_remove_def Let_def set_link domI)
qed

lemma ring_destroy:
  assumes "ring h (t # ps)"
  shows "\<exists>h'. list_destroy t (h, freed) = Some (h'(t := None), freed @ [t]) \<and> (ps \<noteq> [] \<longrightarrow> ring (h'(t := None)) ps) \<and> list_frame ps h h'"
proof (cases "ps = []")
  case True
  have "t \<in> dom h" using assms by (simp add: ring_Cons)
  then show ?thesis using True assms ring_remove_last [of h t]
    by (auto simp: list_destroy_def dealloc_def list_frame_def)
next
  case False
  then obtain h' where h': "list_remove t h = Some h'" "ring h' ps" "list_frame ps h h'" using ring_remove assms by blast
  have t: "t \<in> dom h'" "t \<notin> set ps" using assms h'(3) by (auto simp: ring_Cons list_frame_def)
  have "ring (h'(t := None)) ps"
    using ring_cong [of ps "h'(t := None)" h'] h'(2) t(2) by auto
  then show ?thesis using h' t by (auto simp: list_destroy_def dealloc_def)
qed

section \<open>Destroying a list\<close>

text \<open>
  The loop looks ahead before it releases: the nodes it still reads are the ones not yet released. \<open>h0\<close> is the
  store before anything was.
\<close>

lemma store_cell: "h p = h0 p \<Longrightarrow> p \<in> dom h0 \<Longrightarrow> \<exists>n. h p = Some n \<and> nd_next n = nx h0 p \<and> nd_prev n = pv h0 p"
  using node_cases [of p h0] by auto

lemma destroy_loop_frees:
  assumes "\<And>p. p \<in> set (n # qs @ [t]) \<Longrightarrow> h p = h0 p" "set (n # qs @ [t]) \<subseteq> dom h0" "distinct (n # qs @ [t])"
    "map (nx h0) (n # qs) = qs @ [t]" "map (pv h0) (qs @ [t]) = n # qs"
  shows "destroy_loop t n (h, freed) = Some (h |` (- set (n # qs)), freed @ n # qs)"
  using assms
proof (induction qs arbitrary: n h freed)
  case Nil
  obtain y z where "h n = Some y" "h t = Some z" "nd_next y = t" "nd_prev z = n"
    using store_cell [of h n h0] store_cell [of h t h0] Nil by fastforce
  moreover have "n \<noteq> t" using Nil.prems(3) by simp
  moreover have "h(n := None) = h |` (- {n})" by (auto simp: restrict_map_def fun_eq_iff)
  ultimately show ?case by (simp add: destroy_loop.simps [of t n] destroy_loop.simps [of t t] dealloc_def)
next
  case (Cons q qs)
  obtain y z where y: "h n = Some y" "h q = Some z" "nd_next y = q" "nd_prev z = n"
    using store_cell [of h n h0] store_cell [of h q h0] Cons.prems by fastforce
  have "destroy_loop t q (h(n := None), freed @ [n]) =
      Some (h(n := None) |` (- set (q # qs)), (freed @ [n]) @ q # qs)"
    by (rule Cons.IH) (use Cons.prems in auto)
  moreover have "h(n := None) |` (- set (q # qs)) = h |` (- set (n # q # qs))"
    by (auto simp: restrict_map_def fun_eq_iff)
  moreover have "n \<noteq> t" using Cons.prems(3) by auto
  ultimately show ?case using y by (simp add: destroy_loop.simps [of t n] dealloc_def)
qed

lemma ring_destroy_all:
  assumes "ring h (t # ps)"
  shows "list_destroy_all t (h, freed) = Some (h |` (- set (t # ps)), freed @ ps @ [t])"
proof -
  obtain y where y: "h t = Some y" "nd_next y = nx h t" using assms by (auto simp: ring_Cons nx_def)
  have "destroy_loop t (nx h t) (h, freed) = Some (h |` (- set ps), freed @ ps)"
  proof (cases ps)
    case Nil
    then show ?thesis using assms by (simp add: ring_Cons destroy_loop.simps restrict_map_def)
  next
    case (Cons n qs)
    have "destroy_loop t n (h, freed) = Some (h |` (- set (n # qs)), freed @ n # qs)"
      by (rule destroy_loop_frees [where ?h0.0 = h]) (use assms Cons in \<open>auto simp: ring_Cons\<close>)
    then show ?thesis using assms Cons by (simp add: ring_Cons)
  qed
  moreover have "t \<notin> set ps" using assms by (simp add: ring_Cons)
  ultimately show ?thesis using y
    by (auto simp: list_destroy_all_def dealloc_def restrict_map_def fun_eq_iff)
qed

section \<open>Traversal\<close>

text \<open>What a traversal does to the data of a list.\<close>

fun visit :: "('a \<Rightarrow> 's \<Rightarrow> bool \<times> 'a \<times> 's) \<Rightarrow> 'a list \<Rightarrow> 's \<Rightarrow> 'a list \<times> 's" where
  "visit func [] s = ([], s)"
| "visit func (d # ds) s = (case func d s of (go, d', s') \<Rightarrow>
     if go then (case visit func ds s' of (ds', s'') \<Rightarrow> (d' # ds', s'')) else (d' # ds, s'))"

definition put_data :: "nat \<Rightarrow> 'a \<Rightarrow> 'a node_store \<Rightarrow> 'a node_store" where
  "put_data p d h = h(p \<mapsto> (the (h p))\<lparr> nd_data := d \<rparr>)"

fun put_datas :: "nat list \<Rightarrow> 'a list \<Rightarrow> 'a node_store \<Rightarrow> 'a node_store" where
  "put_datas (p # ps) (d # ds) h = put_datas ps ds (put_data p d h)"
| "put_datas _ _ h = h"

lemma put_data_simps [simp]:
  "nx (put_data p d h) = nx h" "pv (put_data p d h) = pv h" "dt (put_data p d h) = (dt h)(p := d)"
  "dom (put_data p d h) = insert p (dom h)" "x \<noteq> p \<Longrightarrow> put_data p d h x = h x"
  by (auto simp: nx_def pv_def dt_def put_data_def)

lemma put_datas_links [simp]: "nx (put_datas ps ds h) = nx h" "pv (put_datas ps ds h) = pv h"
  by (induction ps ds h rule: put_datas.induct) simp_all

lemma put_datas_same: "set ps \<subseteq> dom h \<Longrightarrow> put_datas ps (map (dt h) ps) h = h"
proof (induction ps)
  case (Cons p ps)
  then have "put_data p (dt h p) h = h" by (auto simp: put_data_def dt_def)
  then show ?case using Cons by simp
qed simp

lemma foreach_visits:
  assumes "set (n # qs) \<subseteq> dom h" "distinct (n # qs)" "t \<notin> set qs" "map (nx h) (n # qs) = qs @ [t]"
  shows "foreach_loop func t n h s =
    (case visit func (map (dt h) (n # qs)) s of (ds, s') \<Rightarrow> Some (put_datas (n # qs) ds h, s'))"
  using assms
proof (induction qs arbitrary: n h s)
  case Nil
  then obtain y where "h n = Some y" "nd_next y = t" "nd_data y = dt h n" by (auto simp: nx_def dt_def)
  then show ?case by (auto simp: foreach_loop.simps Let_def put_data_def split: prod.splits)
next
  case (Cons q qs)
  then obtain y where y: "h n = Some y" "nd_next y = q" "nd_data y = dt h n" by (auto simp: nx_def dt_def)
  obtain go d s' where f: "func (dt h n) s = (go, d, s')" by (metis prod_cases3)
  have up: "h(n \<mapsto> y\<lparr> nd_data := d \<rparr>) = put_data n d h" using y by (simp add: put_data_def)
  have tq: "t \<noteq> q" using Cons.prems(3) by simp
  have d: "map (dt (put_data n d h)) (q # qs) = map (dt h) (q # qs)" using Cons.prems(2) by simp
  show ?case
  proof (cases go)
    case True
    have "foreach_loop func t q (put_data n d h) s' =
        (case visit func (map (dt (put_data n d h)) (q # qs)) s' of (ds, s') \<Rightarrow>
          Some (put_datas (q # qs) ds (put_data n d h), s'))"
      by (rule Cons.IH) (use Cons.prems in auto)
    then show ?thesis unfolding d using y f up tq True
      by (subst foreach_loop.simps) (auto simp: Let_def split: prod.splits)
  next
    case False
    have "set (q # qs) \<subseteq> dom (put_data n d h)" using Cons.prems(1) by auto
    from put_datas_same [OF this] have "put_datas (q # qs) (map (dt h) (q # qs)) (put_data n d h) = put_data n d h"
      unfolding d .
    then show ?thesis using y f up False
      by (subst foreach_loop.simps) (simp add: Let_def)
  qed
qed

lemma length_visit: "visit func ds s = (ds', s') \<Longrightarrow> length ds' = length ds"
  by (induction ds arbitrary: s ds') (auto split: prod.splits if_splits)

lemma put_datas_outside: "p \<notin> set ps \<Longrightarrow> put_datas ps ds h p = h p"
  by (induction ps ds h rule: put_datas.induct) auto

lemma put_datas_data:
  "length ds = length ps \<Longrightarrow> distinct ps \<Longrightarrow> set ps \<subseteq> dom h \<Longrightarrow>
    map (dt (put_datas ps ds h)) ps = ds \<and> dom (put_datas ps ds h) = dom h"
proof (induction ps ds h rule: put_datas.induct)
  case (1 p ps d ds h)
  have "dt (put_datas ps ds (put_data p d h)) p = d"
    using put_datas_outside [of p ps ds "put_data p d h"] 1(3) by (simp add: dt_def put_data_def)
  then show ?case using 1 by (auto simp: insert_absorb)
qed simp_all

lemma ring_put_datas: "ring h ps \<Longrightarrow> length ds = length ps \<Longrightarrow> ring (put_datas ps ds h) ps"
  using put_datas_data [of ds ps h] by (simp add: ring_def)

section \<open>Properties\<close>

text \<open>
  Editing a circular list, seen from any of its nodes: a new node put behind a node is the next one, with
  its data; destroying a node releases exactly that node, once, and leaves the others a list in their order,
  with their data; what lies outside the list stays. It does not matter at which node one looks.
\<close>

lemma list_editing:
  assumes "ring h (l # ps)"
  shows "(\<forall>p d. h p = None \<longrightarrow> (\<exists>h'. list_insert_after l p (snd (list_create (Some p) d h)) = Some h' \<and>
      ring h' (l # p # ps) \<and> map (dt h') (l # p # ps) = dt h l # d # map (dt h) ps \<and> dom h' = insert p (dom h) \<and>
      (\<forall>q. q \<notin> set (l # p # ps) \<longrightarrow> h' q = h q))) \<and>
    (\<exists>h'. list_destroy l (h, freed) = Some (h', freed @ [l]) \<and> dom h' = dom h - {l} \<and>
      (ps \<noteq> [] \<longrightarrow> ring h' ps) \<and> map (dt h') ps = map (dt h) ps \<and> (\<forall>q. q \<notin> set (l # ps) \<longrightarrow> h' q = h q)) \<and>
    ring h (rotate n (l # ps))"
proof (intro conjI allI impI)
  fix p d
  assume p: "h p = None"
  let ?h = "h(p \<mapsto> \<lparr> nd_data = d, nd_prev = p, nd_next = p \<rparr>)"
  have out: "p \<notin> set (l # ps)" using assms p by (auto simp: ring_Cons)
  then have "ring ?h (l # ps)" using ring_cong [of "l # ps" ?h h] assms by auto
  then obtain h' where h': "list_insert_after l p ?h = Some h'" "ring h' (l # p # ps)" "list_frame (l # p # ps) ?h h'"
    using ring_insert [of ?h l ps p] out by auto
  moreover have "dt ?h p = d" "\<forall>q \<in> set (l # ps). dt ?h q = dt h q" using out by (auto simp: dt_def)
  ultimately show "\<exists>h'. list_insert_after l p (snd (list_create (Some p) d h)) = Some h' \<and>
      ring h' (l # p # ps) \<and> map (dt h') (l # p # ps) = dt h l # d # map (dt h) ps \<and> dom h' = insert p (dom h) \<and>
      (\<forall>q. q \<notin> set (l # p # ps) \<longrightarrow> h' q = h q)"
    by (intro exI [of _ h']) (simp add: list_create_def list_frame_def)
next
  obtain h' where h': "list_destroy l (h, freed) = Some (h'(l := None), freed @ [l])"
      "ps \<noteq> [] \<longrightarrow> ring (h'(l := None)) ps" "list_frame ps h h'"
    using ring_destroy [OF assms, of freed] by blast
  have l: "l \<notin> set ps" using assms by (simp add: ring_Cons)
  then have "map (dt (h'(l := None))) ps = map (dt h') ps" by (auto simp: dt_def)
  then show "\<exists>h'. list_destroy l (h, freed) = Some (h', freed @ [l]) \<and> dom h' = dom h - {l} \<and>
      (ps \<noteq> [] \<longrightarrow> ring h' ps) \<and> map (dt h') ps = map (dt h) ps \<and> (\<forall>q. q \<notin> set (l # ps) \<longrightarrow> h' q = h q)"
    using h' by (intro exI [of _ "h'(l := None)"]) (auto simp: list_frame_def)
qed (rule ring_rotate [OF assms])

definition two_nodes :: "string node_store" where
  "two_nodes = [1 \<mapsto> \<lparr> nd_data = ''a'', nd_prev = 2, nd_next = 2 \<rparr>, 2 \<mapsto> \<lparr> nd_data = ''b'', nd_prev = 1, nd_next = 1 \<rparr>]"

lemma ring_two_nodes: "ring two_nodes [1, 2]"
  by (simp add: ring_def two_nodes_def nx_def pv_def)

text \<open>
  C31. The two loops over a list end, from whichever node they start: \<^verbatim>\<open>destroy_all\<close> releases every node of the
  list exactly once, the one it started from last, without looking at a released one; \<^verbatim>\<open>foreach\<close> applies the
  function to the data in the order of the list, as far as the function says so, and keeps the list.
\<close>

theorem list_loops_end:
  assumes "ring h (t # ps)"
  shows "list_destroy_all t (h, freed) = Some (h |` (- set (t # ps)), freed @ ps @ [t]) \<and>
    (\<exists>h'. list_foreach func t h s = Some (h', snd (visit func (map (dt h) (t # ps)) s)) \<and> ring h' (t # ps) \<and>
      map (dt h') (t # ps) = fst (visit func (map (dt h) (t # ps)) s) \<and> (\<forall>q. q \<notin> set (t # ps) \<longrightarrow> h' q = h q))"
proof -
  obtain ds s' where v: "visit func (map (dt h) (t # ps)) s = (ds, s')" by (metis surj_pair)
  have len: "length ds = length (t # ps)" using length_visit [OF v] by simp
  have "list_foreach func t h s = Some (put_datas (t # ps) ds h, s')"
    using foreach_visits [of t ps h t func s] assms v by (simp add: list_foreach_def ring_Cons)
  moreover have "map (dt (put_datas (t # ps) ds h)) (t # ps) = ds"
    using put_datas_data [OF len] assms by (simp only: ring_def)
  ultimately show ?thesis
    using ring_destroy_all [OF assms] ring_put_datas [OF assms len] put_datas_outside [of _ "t # ps" ds h] v by auto
qed

theorem list_loops_end_witness:
  "list_destroy_all 1 (two_nodes, []) = Some (Map.empty, [2, 1]) \<and>
   (\<exists>h'. list_foreach (\<lambda>d n. (n < 0, d @ ''!'', n + 1)) 1 two_nodes (0 :: nat) = Some (h', 1) \<and> map (dt h') [1, 2] = [''a!'', ''b''])"
proof -
  let ?f = "\<lambda>d n. (n < (0 :: nat), d @ ''!'', n + 1)"
  have "dt two_nodes 1 = ''a''" "dt two_nodes 2 = ''b''" by (simp_all add: two_nodes_def dt_def)
  then have "visit ?f (map (dt two_nodes) [1, 2]) 0 = ([''a!'', ''b''], 1)" by simp
  moreover have "two_nodes |` (- {1, 2}) = Map.empty" by (auto simp: two_nodes_def restrict_map_def)
  ultimately show ?thesis using list_loops_end [OF ring_two_nodes, of "[]" ?f 0] by auto
qed

end
