(* ===== verification/Sdk_Serializer.thy ===== *)
theory Sdk_Serializer
  imports Lzo_Memops
begin

text \<open>
  \<^verbatim>\<open>tools/binary_serializer.hpp\<close>, release build: the overloads of \<^verbatim>\<open>amtsSerialize\<close>,
  \<^verbatim>\<open>amtsDeserialize\<close>, \<^verbatim>\<open>amtsSize\<close> and \<^verbatim>\<open>amtsMove\<close> for plain data, arrays of \<^verbatim>\<open>wchar_t\<close>, strings and
  vectors of these, nested to any depth. The C++ type selects the overload: it is a datatype here. A
  value of plain data, of an array or of a string is its bytes. \<^verbatim>\<open>buffer\<close> is the rest of the memory
  behind the pointer; an access beyond it, which the code is meant to prevent by \<^verbatim>\<open>size\<close>, is \<^term>\<open>None\<close>.
\<close>

section \<open>Types and values\<close>

text \<open>Plain data of \<open>n\<close> bytes, \<^verbatim>\<open>wchar_t[n]\<close>, \<^verbatim>\<open>std::basic_string\<close> of characters of \<open>n\<close> bytes, \<^verbatim>\<open>std::vector\<close>.\<close>

datatype ty = Pod nat | Wide nat | Str nat | Vec ty

datatype val = Raw "u8 list" | Seq "val list"

text \<open>
  The machine and the build: byte order, \<^verbatim>\<open>sizeof(wchar_t)\<close>, whether \<^verbatim>\<open>SERIALIZER_COMPACT_STR_ARRAYS\<close> is
  defined, and the largest number of elements \<^verbatim>\<open>resize\<close> accepts, without an exception, of a container
  of each type.
\<close>

record ser_cfg =
  big_endian :: bool
  wchar_size :: nat
  compact :: bool
  max_count :: "ty \<Rightarrow> nat"

definition put_int :: "ser_cfg \<Rightarrow> nat \<Rightarrow> nat \<Rightarrow> u8 list" where
  "put_int c k v = (if big_endian c then rev (le_bytes k v) else le_bytes k v)"

definition get_int :: "ser_cfg \<Rightarrow> u8 list \<Rightarrow> nat" where
  "get_int c bs = le_val (if big_endian c then rev bs else bs)"

text \<open>\<^verbatim>\<open>wcsnlen\<close>: the characters before the first one that is zero.\<close>

fun wcsnlen :: "nat \<Rightarrow> nat \<Rightarrow> u8 list \<Rightarrow> nat" where
  "wcsnlen w 0 bs = 0"
| "wcsnlen w (Suc n) bs = (if \<forall>b \<in> set (take w bs). b = 0 then 0 else Suc (wcsnlen w n (drop w bs)))"

fun raw_length :: "val \<Rightarrow> nat" where
  "raw_length (Raw bs) = length bs"
| "raw_length (Seq vs) = length vs"

text \<open>\<^verbatim>\<open>amtsSize\<close>: results are 32 bits wide, the sum over a vector 64.\<close>

fun amtsSize :: "ser_cfg \<Rightarrow> ty \<Rightarrow> val \<Rightarrow> nat" where
  "amtsSize c (Pod n) v = uw 32 n"
| "amtsSize c (Wide n) v = (if compact c
     then uw 32 (4 + (case v of Raw bs \<Rightarrow> wcsnlen (wchar_size c) n bs | Seq _ \<Rightarrow> 0) * wchar_size c)
     else uw 32 (n * wchar_size c))"
| "amtsSize c (Str k) v = uw 32 (8 + uw 64 (raw_length v))"
| "amtsSize c (Vec ty) v = uw 32 (uw 64 (8 + (case v of Seq vs \<Rightarrow> \<Sum>x \<leftarrow> vs. amtsSize c ty x | Raw _ \<Rightarrow> 0)))"

section \<open>Serialization\<close>

text \<open>The bytes written, how many more the memory has room for, and the argument \<^verbatim>\<open>size\<close>.\<close>

record out_buf =
  written :: "u8 list"
  room :: nat
  out_size :: nat

text \<open>\<^verbatim>\<open>memcpy(buffer, p, n); buffer += n; size -= n\<close>.\<close>

definition put_bytes :: "u8 list \<Rightarrow> out_buf \<Rightarrow> out_buf option" where
  "put_bytes bs s = (if length bs \<le> room s
     then Some \<lparr> written = written s @ bs, room = room s - length bs, out_size = usub 32 (out_size s) (length bs) \<rparr>
     else None)"

definition ser_pod :: "u8 list \<Rightarrow> out_buf \<Rightarrow> (bool \<times> out_buf) option" where
  "ser_pod bs s = (if out_size s \<ge> length bs then do { s \<leftarrow> put_bytes bs s; Some (True, s) } else Some (False, s))"

fun ser_elems :: "(val \<Rightarrow> out_buf \<Rightarrow> (bool \<times> out_buf) option) \<Rightarrow> val list \<Rightarrow> out_buf \<Rightarrow> (bool \<times> out_buf) option" where
  "ser_elems f [] s = Some (True, s)"
| "ser_elems f (v # vs) s = do { (ok, s) \<leftarrow> f v s; (if ok then ser_elems f vs s else Some (False, s)) }"

definition ser_wide :: "ser_cfg \<Rightarrow> nat \<Rightarrow> u8 list \<Rightarrow> out_buf \<Rightarrow> (bool \<times> out_buf) option" where
  "ser_wide c n bs s =
     (if compact c then
        if out_size s \<ge> amtsSize c (Wide n) (Raw bs) then
          let count = wcsnlen (wchar_size c) n bs; sz = uw 32 (count * wchar_size c) in do {
            (ok, s) \<leftarrow> ser_pod (put_int c 4 count) s;
            (if ok then do { s \<leftarrow> put_bytes (take sz bs) s; Some (True, s) } else Some (False, s)) }
        else Some (False, s)
      else if out_size s \<ge> amtsSize c (Wide n) (Raw bs) then do { s \<leftarrow> put_bytes bs s; Some (True, s) }
      else Some (False, s))"

definition ser_str :: "ser_cfg \<Rightarrow> nat \<Rightarrow> u8 list \<Rightarrow> out_buf \<Rightarrow> (bool \<times> out_buf) option" where
  "ser_str c k bs s = do {
     let count = length bs div k;
     (ok, s) \<leftarrow> ser_pod (put_int c 8 count) s;
     (if \<not> ok then Some (False, s)
      else let sz = uw 64 (count * k) in
        if sz > out_size s then Some (False, s)
        else if sz > 0 then do { s \<leftarrow> put_bytes (take sz bs) s; Some (True, s) }
        else Some (True, s)) }"

fun amtsSerialize :: "ser_cfg \<Rightarrow> ty \<Rightarrow> val \<Rightarrow> out_buf \<Rightarrow> (bool \<times> out_buf) option" where
  "amtsSerialize c (Pod n) (Raw bs) s = ser_pod bs s"
| "amtsSerialize c (Wide n) (Raw bs) s = ser_wide c n bs s"
| "amtsSerialize c (Str k) (Raw bs) s = ser_str c k bs s"
| "amtsSerialize c (Vec ty) (Seq vs) s =
     (if amtsSize c (Vec ty) (Seq vs) > out_size s then Some (False, s)
      else do {
        (ok, s) \<leftarrow> ser_pod (put_int c 8 (length vs)) s;
        (if \<not> ok then Some (False, s) else ser_elems (amtsSerialize c ty) vs s) })"
| "amtsSerialize c _ _ s = None"

section \<open>Deserialization\<close>

text \<open>The memory from \<^verbatim>\<open>buffer\<close> on, and \<^verbatim>\<open>size\<close>.\<close>

record in_buf =
  rest_bytes :: "u8 list"
  in_size :: nat

definition get_bytes :: "nat \<Rightarrow> in_buf \<Rightarrow> (u8 list \<times> in_buf) option" where
  "get_bytes n s = (if n \<le> length (rest_bytes s)
     then Some (take n (rest_bytes s), \<lparr> rest_bytes = drop n (rest_bytes s), in_size = usub 32 (in_size s) n \<rparr>)
     else None)"

text \<open>The target, as the code leaves it, is part of the result.\<close>

definition des_pod :: "nat \<Rightarrow> u8 list \<Rightarrow> in_buf \<Rightarrow> (bool \<times> u8 list \<times> in_buf) option" where
  "des_pod n t s = (if in_size s \<ge> n then do { (bs, s) \<leftarrow> get_bytes n s; Some (True, bs, s) } else Some (False, t, s))"

text \<open>The elements are read over those of the resized vector, from the first on.\<close>

fun des_elems :: "(val \<Rightarrow> in_buf \<Rightarrow> (bool \<times> val \<times> in_buf) option) \<Rightarrow> val list \<Rightarrow> in_buf \<Rightarrow>
    (bool \<times> val list \<times> in_buf) option" where
  "des_elems f [] s = Some (True, [], s)"
| "des_elems f (t # ts) s = do {
     (ok, t, s) \<leftarrow> f t s;
     (if ok then do { (ok, ts, s) \<leftarrow> des_elems f ts s; Some (ok, t # ts, s) } else Some (False, t # ts, s)) }"

fun default_val :: "ser_cfg \<Rightarrow> ty \<Rightarrow> val" where
  "default_val c (Pod n) = Raw (replicate n 0)"
| "default_val c (Wide n) = Raw (replicate (n * wchar_size c) 0)"
| "default_val c (Str k) = Raw []"
| "default_val c (Vec ty) = Seq []"

definition resize_elems :: "'a \<Rightarrow> nat \<Rightarrow> 'a list \<Rightarrow> 'a list" where
  "resize_elems d n xs = take n xs @ replicate (n - length xs) d"

definition des_wide :: "ser_cfg \<Rightarrow> nat \<Rightarrow> u8 list \<Rightarrow> in_buf \<Rightarrow> (bool \<times> u8 list \<times> in_buf) option" where
  "des_wide c n t s =
     (if compact c then do {
        (ok, count, s) \<leftarrow> des_pod 4 [] s;
        (if ok \<and> get_int c count \<le> n then
           let sz = uw 32 (get_int c count * wchar_size c) in do {
             (bs, s) \<leftarrow> get_bytes sz s;
             (if get_int c count < n then Some (True, bs @ replicate (wchar_size c) 0 @ drop (sz + wchar_size c) t, s)
              else None) }
         else Some (False, t, s)) }
      else if in_size s \<ge> n then do { (bs, s) \<leftarrow> get_bytes (n * wchar_size c) s; Some (True, bs, s) }
      else Some (False, t, s))"

definition des_str :: "ser_cfg \<Rightarrow> nat \<Rightarrow> u8 list \<Rightarrow> in_buf \<Rightarrow> (bool \<times> u8 list \<times> in_buf) option" where
  "des_str c k t s =
     (if in_size s < 8 then Some (False, t, s)
      else do {
        (ok, count, s) \<leftarrow> des_pod 8 [] s;
        let sz = uw 64 (get_int c count * k);
        (if in_size s < sz then Some (False, t, s)
         else if sz > 0 then
           if get_int c count > max_count c (Str k) then Some (False, t, s)
           else do { (bs, s) \<leftarrow> get_bytes sz s; Some (True, bs, s) }
         else Some (True, t, s)) })"

fun amtsDeserialize :: "ser_cfg \<Rightarrow> ty \<Rightarrow> val \<Rightarrow> in_buf \<Rightarrow> (bool \<times> val \<times> in_buf) option" where
  "amtsDeserialize c (Pod n) (Raw t) s = map_option (map_prod id (map_prod Raw id)) (des_pod n t s)"
| "amtsDeserialize c (Wide n) (Raw t) s = map_option (map_prod id (map_prod Raw id)) (des_wide c n t s)"
| "amtsDeserialize c (Str k) (Raw t) s = map_option (map_prod id (map_prod Raw id)) (des_str c k t s)"
| "amtsDeserialize c (Vec ty) (Seq ts) s =
     (if in_size s < 8 then Some (False, Seq ts, s)
      else do {
        (ok, count, s) \<leftarrow> des_pod 8 [] s;
        (if get_int c count > max_count c (Vec ty) then Some (False, Seq ts, s)
         else map_option (map_prod id (map_prod Seq id))
           (des_elems (amtsDeserialize c ty) (resize_elems (default_val c ty) (get_int c count) ts) s)) })"
| "amtsDeserialize c _ _ s = None"

section \<open>Moving\<close>

text \<open>The new source and target; what a string is left with is up to the library: \<open>left\<close>.\<close>

fun amtsMove :: "u8 list \<Rightarrow> ty \<Rightarrow> val \<Rightarrow> val \<Rightarrow> val \<times> val" where
  "amtsMove left (Pod n) src dst = (src, src)"
| "amtsMove left (Wide n) src dst = (src, src)"
| "amtsMove left (Str k) src dst = (Raw left, src)"
| "amtsMove left (Vec ty) src dst = (dst, src)"

section \<open>Types, and the reference encoding\<close>

text \<open>
  What the compiler and the library guarantee of a type: sizes fit their widths and the bytes of the
  largest container do.
\<close>

fun ok_ty :: "ser_cfg \<Rightarrow> ty \<Rightarrow> bool" where
  "ok_ty c (Pod n) = (n < 2 ^ 32)"
| "ok_ty c (Wide n) = (0 < wchar_size c \<and> 4 + n * wchar_size c < 2 ^ 32)"
| "ok_ty c (Str k) = (0 < k \<and> max_count c (Str k) * k < 2 ^ 64)"
| "ok_ty c (Vec ty) = (ok_ty c ty \<and> max_count c (Vec ty) < 2 ^ 64)"

fun well_typed :: "ser_cfg \<Rightarrow> ty \<Rightarrow> val \<Rightarrow> bool" where
  "well_typed c (Pod n) (Raw bs) = (length bs = n)"
| "well_typed c (Wide n) (Raw bs) = (length bs = n * wchar_size c)"
| "well_typed c (Str k) (Raw bs) = (k dvd length bs \<and> length bs div k \<le> max_count c (Str k))"
| "well_typed c (Vec ty) (Seq vs) = ((\<forall>v \<in> set vs. well_typed c ty v) \<and> length vs \<le> max_count c (Vec ty))"
| "well_typed c _ _ = False"

fun ser_enc :: "ser_cfg \<Rightarrow> ty \<Rightarrow> val \<Rightarrow> u8 list" where
  "ser_enc c (Wide n) (Raw bs) = (if compact c then
     let k = wcsnlen (wchar_size c) n bs in put_int c 4 k @ take (k * wchar_size c) bs else bs)"
| "ser_enc c (Str k) (Raw bs) = put_int c 8 (length bs div k) @ bs"
| "ser_enc c (Vec ty) (Seq vs) = put_int c 8 (length vs) @ concat (map (ser_enc c ty) vs)"
| "ser_enc c _ (Raw bs) = bs"
| "ser_enc c _ (Seq vs) = []"

lemma wcsnlen_le: "wcsnlen w n bs \<le> n"
  by (induction w n bs rule: wcsnlen.induct) auto

lemma length_put_int [simp]: "length (put_int c k v) = k"
  by (simp add: put_int_def)

lemma get_put_int: "v < 256 ^ k \<Longrightarrow> get_int c (put_int c k v) = v"
  by (simp add: get_int_def put_int_def le_val_le_bytes)

lemma get_int_less: "length bs = k \<Longrightarrow> get_int c bs < 256 ^ k"
  using le_val_less [of bs] le_val_less [of "rev bs"] by (auto simp: get_int_def)

lemma sum_list_mod: "(\<Sum>x \<leftarrow> xs. f x mod m) mod m = (\<Sum>x \<leftarrow> xs. f x) mod m" for f :: "'a \<Rightarrow> nat"
proof (induction xs)
  case (Cons x xs)
  have "(f x mod m + (\<Sum>x \<leftarrow> xs. f x mod m)) mod m = (f x + (\<Sum>x \<leftarrow> xs. f x mod m) mod m) mod m"
    by (simp add: mod_simps)
  then show ?case by (simp only: Cons.IH list.map sum_list.Cons) (simp add: mod_simps)
qed simp

text \<open>\<^verbatim>\<open>amtsSize\<close> is the length of the encoding, at the width of its result.\<close>

lemma amtsSize_enc:
  assumes "well_typed c ty v" "ok_ty c ty"
  shows "amtsSize c ty v = uw 32 (length (ser_enc c ty v))"
  using assms
proof (induction c ty v rule: well_typed.induct)
  case (2 c n bs)
  then show ?case using wcsnlen_le [of "wchar_size c" n bs] mult_le_mono1 [OF wcsnlen_le, of "wchar_size c" n bs "wchar_size c"]
    by (simp add: Let_def min_def)
next
  case (3 c k bs)
  then have "length bs \<le> max_count c (Str k) * k" by (metis dvd_div_mult_self mult_le_mono1 well_typed.simps(3))
  then have "length bs < 2 ^ 64" using 3 by (simp del: power_numeral)
  then show ?case by simp
next
  case (4 c ty vs)
  have "(\<Sum>x \<leftarrow> vs. amtsSize c ty x) = (\<Sum>x \<leftarrow> vs. length (ser_enc c ty x) mod 2 ^ 32)"
    by (rule arg_cong [where f = sum_list], rule map_cong) (use 4 in \<open>simp_all add: uw_def\<close>)
  then have "(8 + (\<Sum>x \<leftarrow> vs. amtsSize c ty x)) mod 2 ^ 32 = (8 + (\<Sum>x \<leftarrow> vs. length (ser_enc c ty x))) mod 2 ^ 32"
    using sum_list_mod [of "\<lambda>x. length (ser_enc c ty x)" "2 ^ 32" vs] by (metis mod_add_right_eq)
  moreover have "n mod 2 ^ 64 mod 2 ^ 32 = n mod (2 ^ 32 :: nat)" for n :: nat by (simp add: mod_mod_cancel)
  ultimately show ?case by (simp add: uw_def length_concat comp_def)
qed auto

section \<open>What serialization writes\<close>

definition adv :: "u8 list \<Rightarrow> out_buf \<Rightarrow> out_buf" where
  "adv bs s = \<lparr> written = written s @ bs, room = room s - length bs, out_size = out_size s - length bs \<rparr>"

definition out_ok :: "out_buf \<Rightarrow> bool" where
  "out_ok s \<longleftrightarrow> out_size s < 2 ^ 32 \<and> out_size s \<le> room s"

text \<open>
  What a serializer of the bytes \<open>e\<close> is to do: it succeeds exactly when they fit into \<^verbatim>\<open>size\<close>, has then
  written all of them, and otherwise a prefix of them.
\<close>

definition wrote :: "u8 list \<Rightarrow> out_buf \<Rightarrow> (bool \<times> out_buf) option \<Rightarrow> bool" where
  "wrote e s r \<longleftrightarrow> (\<exists>n. r = Some (length e \<le> out_size s, adv (take n e) s) \<and> n \<le> length e \<and> n \<le> out_size s \<and>
     (length e \<le> out_size s \<longrightarrow> n = length e))"

lemma adv_simps [simp]:
  "out_size (adv bs s) = out_size s - length bs" "written (adv bs s) = written s @ bs"
  "adv [] s = s" "adv bs (adv as s) = adv (as @ bs) s"
  by (simp_all add: adv_def)

lemma out_ok_adv: "out_ok s \<Longrightarrow> length bs \<le> out_size s \<Longrightarrow> out_ok (adv bs s)"
  by (auto simp: out_ok_def adv_def)

lemma put_bytes_adv: "out_ok s \<Longrightarrow> length bs \<le> out_size s \<Longrightarrow> put_bytes bs s = Some (adv bs s)"
  by (simp add: put_bytes_def out_ok_def adv_def usub_le)

lemma wrote_none: "out_size s < length e \<Longrightarrow> wrote e s (Some (False, s))"
  unfolding wrote_def by (rule exI [of _ 0]) simp

lemma wrote_all: "length e \<le> out_size s \<Longrightarrow> wrote e s (Some (True, adv e s))"
  unfolding wrote_def by (rule exI [of _ "length e"]) simp

lemma wrote_put: "out_ok s \<Longrightarrow> length e \<le> out_size s \<Longrightarrow> wrote e s (do { s \<leftarrow> put_bytes e s; Some (True, s) })"
  by (simp add: put_bytes_adv wrote_all)

lemma wrote_pod: "out_ok s \<Longrightarrow> wrote e s (ser_pod e s)"
  by (simp add: ser_pod_def put_bytes_adv wrote_all wrote_none)

lemma if_neg: "(if \<not> b then x else y) = (if b then y else x)"
  by simp

text \<open>One serializer after another, as the code composes them.\<close>

lemma wrote_seq:
  assumes r: "wrote e1 s r" and s: "out_ok s" and f: "\<And>s. out_ok s \<Longrightarrow> wrote e2 s (f s)"
  shows "wrote (e1 @ e2) s (do { (ok, s) \<leftarrow> r; (if ok then f s else Some (False, s)) })"
proof -
  obtain n where n: "r = Some (length e1 \<le> out_size s, adv (take n e1) s)" "n \<le> length e1" "n \<le> out_size s"
    "length e1 \<le> out_size s \<longrightarrow> n = length e1" using r unfolding wrote_def by blast
  show ?thesis
  proof (cases "length e1 \<le> out_size s")
    case True
    then have "wrote e2 (adv e1 s) (f (adv e1 s))" using f out_ok_adv s by blast
    then obtain m where "f (adv e1 s) = Some (length e2 \<le> out_size s - length e1, adv (e1 @ take m e2) s)"
      "m \<le> length e2" "m \<le> out_size s - length e1" "length e2 \<le> out_size s - length e1 \<longrightarrow> m = length e2"
      unfolding wrote_def by auto
    then show ?thesis using True n unfolding wrote_def by (intro exI [of _ "length e1 + m"]) auto
  next
    case False
    then show ?thesis using n unfolding wrote_def by (intro exI [of _ n]) auto
  qed
qed

lemma wrote_elems:
  assumes "\<And>v s. v \<in> set vs \<Longrightarrow> out_ok s \<Longrightarrow> wrote (e v) s (f v s)" "out_ok s"
  shows "wrote (concat (map e vs)) s (ser_elems f vs s)"
  using assms
proof (induction vs arbitrary: s)
  case Nil
  then show ?case using wrote_all [of "[]" s] by simp
next
  case (Cons v vs)
  show ?case unfolding ser_elems.simps list.map concat.simps by (rule wrote_seq) (use Cons in auto)
qed

lemma wrote_wide:
  assumes "length bs = n * wchar_size c" "ok_ty c (Wide n)" "out_ok s"
  shows "wrote (ser_enc c (Wide n) (Raw bs)) s (ser_wide c n bs s)"
proof -
  let ?k = "wcsnlen (wchar_size c) n bs"
  have le: "?k * wchar_size c \<le> n * wchar_size c" by (rule mult_le_mono1 [OF wcsnlen_le])
  have sz: "amtsSize c (Wide n) (Raw bs) = length (ser_enc c (Wide n) (Raw bs))"
    using amtsSize_enc [of c "Wide n" "Raw bs"] assms le by (simp add: Let_def min_def)
  have uk: "uw 32 (?k * wchar_size c) = ?k * wchar_size c" 
    by (rule uw_less) (use order.strict_trans1 [OF le, of "2 ^ 32"] assms(2) in simp)
  show ?thesis
  proof (cases "length (ser_enc c (Wide n) (Raw bs)) \<le> out_size s")
    case False
    then have "ser_wide c n bs s = Some (False, s)" unfolding ser_wide_def sz by (simp del: ser_enc.simps)
    then show ?thesis using False wrote_none by simp
  next
    case True
    then have "ser_wide c n bs s = Some (True, adv (ser_enc c (Wide n) (Raw bs)) s)"
      unfolding ser_wide_def sz using assms le uk
      by (cases "compact c") (simp_all add: Let_def ser_pod_def put_bytes_adv out_ok_adv)
    then show ?thesis using True wrote_all by simp
  qed
qed

lemma wrote_str:
  assumes "well_typed c (Str k) (Raw bs)" "ok_ty c (Str k)" "out_ok s"
  shows "wrote (ser_enc c (Str k) (Raw bs)) s (ser_str c k bs s)"
proof -
  have b: "length bs div k * k = length bs" using assms by simp
  then have "length bs < 2 ^ 64" using assms mult_le_mono1 [of "length bs div k" "max_count c (Str k)" k] by simp
  then have sz: "uw 64 (length bs div k * k) = length bs" unfolding b by simp
  show ?thesis
    unfolding ser_str_def ser_enc.simps sz Let_def take_all_iff [THEN iffD2, OF order_refl] if_neg
    by (rule wrote_seq) (use assms wrote_pod wrote_put wrote_none wrote_all [of "[]"] in \<open>auto simp: not_less\<close>)
qed

theorem amtsSerialize_wrote:
  assumes "well_typed c ty v" "ok_ty c ty" "out_ok s"
  shows "wrote (ser_enc c ty v) s (amtsSerialize c ty v s)"
  using assms
proof (induction c ty v arbitrary: s rule: well_typed.induct)
  case (1 c n bs)
  then show ?case using wrote_pod by simp
next
  case (2 c n bs)
  then show ?case using wrote_wide by simp
next
  case (3 c k bs)
  then show ?case using wrote_str by simp
next
  case (4 c ty vs)
  let ?e = "ser_enc c (Vec ty) (Seq vs)"
  have IH: "wrote (ser_enc c ty v) s (amtsSerialize c ty v s)" if "v \<in> set vs" "out_ok s" for v s
    using 4 that by simp
  have "wrote ?e s (do { (ok, s) \<leftarrow> ser_pod (put_int c 8 (length vs)) s;
      (if ok then ser_elems (amtsSerialize c ty) vs s else Some (False, s)) })"
    unfolding ser_enc.simps by (rule wrote_seq) (use IH 4 wrote_pod wrote_elems in auto)
  moreover have "amtsSize c (Vec ty) (Seq vs) \<le> length ?e"
    using amtsSize_enc [of c "Vec ty" "Seq vs"] 4 by (simp add: uw_def)
  ultimately show ?case using wrote_none [of s ?e] unfolding amtsSerialize.simps if_neg
    by (cases "out_size s < amtsSize c (Vec ty) (Seq vs)") (simp_all del: ser_enc.simps amtsSize.simps)
qed simp_all

section \<open>What deserialization reads\<close>

text \<open>Whatever the bytes are, a target of the type is left a value of it.\<close>

lemma des_elems_typed:
  assumes "\<And>t s ok v s'. f t s = Some (ok, v, s') \<Longrightarrow> P t \<Longrightarrow> P v"
  shows "des_elems f ts s = Some (ok, vs, s') \<Longrightarrow> \<forall>t \<in> set ts. P t \<Longrightarrow> length vs = length ts \<and> (\<forall>v \<in> set vs. P v)"
proof (induction ts arbitrary: s vs ok s')
  case (Cons t ts)
  then show ?case using assms by (fastforce split: bind_splits if_splits)
qed simp

lemma des_pod_typed: "des_pod n t s = Some (ok, bs, s') \<Longrightarrow> length t = n \<Longrightarrow> length bs = n"
  by (auto simp: des_pod_def get_bytes_def split: bind_splits if_splits)

lemma well_typed_default: "well_typed c ty (default_val c ty)"
  by (cases ty) simp_all

lemma des_wide_typed:
  assumes "des_wide c n t s = Some (ok, bs, s')" "length t = n * wchar_size c" "ok_ty c (Wide n)"
  shows "length bs = n * wchar_size c"
proof (cases "compact c")
  case False
  then show ?thesis using assms by (auto simp: des_wide_def get_bytes_def split: bind_splits if_splits)
next
  case True
  show ?thesis
  proof (cases "bs = t")
    case False
    then obtain k x where k: "k < n" "bs = x @ replicate (wchar_size c) 0 @ drop (uw 32 (k * wchar_size c) + wchar_size c) t"
        "length x = uw 32 (k * wchar_size c)"
      using assms True by (auto simp: des_wide_def get_bytes_def Let_def split: bind_splits if_splits)
    have le: "k * wchar_size c + wchar_size c \<le> n * wchar_size c"
      using mult_le_mono1 [of "Suc k" n "wchar_size c"] k by simp
    then have "uw 32 (k * wchar_size c) = k * wchar_size c"
      using assms(3) by (intro uw_less) (simp del: power_numeral)
    then show ?thesis using le k assms(2) by simp
  qed (use assms in simp)
qed

lemma des_str_typed:
  assumes "des_str c k t s = Some (ok, bs, s')" "well_typed c (Str k) (Raw t)" "ok_ty c (Str k)"
  shows "well_typed c (Str k) (Raw bs)"
proof (cases "bs = t")
  case False
  then obtain n where n: "n \<le> max_count c (Str k)" "length bs = uw 64 (n * k)"
    using assms(1) by (auto simp: des_str_def get_bytes_def Let_def not_less split: bind_splits if_splits)
  have "n * k < 2 ^ 64" 
    using order.strict_trans1 [OF mult_le_mono1 [OF n(1)], of k "2 ^ 64"] assms(3) by simp
  then show ?thesis using n assms(3) by simp
qed (use assms in simp)

lemma des_vec_typed:
  assumes "amtsDeserialize c (Vec ty) (Seq ts) s = Some (ok, v, s')" "well_typed c (Vec ty) (Seq ts)"
    and IH: "\<And>t s ok v s'. amtsDeserialize c ty t s = Some (ok, v, s') \<Longrightarrow> well_typed c ty t \<Longrightarrow> well_typed c ty v"
  shows "well_typed c (Vec ty) v"
proof (cases "v = Seq ts")
  case False
  then obtain k s1 vs where k: "k \<le> max_count c (Vec ty)" "v = Seq vs"
      "des_elems (amtsDeserialize c ty) (resize_elems (default_val c ty) k ts) s1 = Some (ok, vs, s')"
    using assms(1) by (auto simp: not_less split: bind_splits if_splits) blast
  have "\<forall>t \<in> set (resize_elems (default_val c ty) k ts). well_typed c ty t"
    using assms(2) well_typed_default by (auto simp: resize_elems_def dest: in_set_takeD)
  then have "length vs = length (resize_elems (default_val c ty) k ts) \<and> (\<forall>v \<in> set vs. well_typed c ty v)"
    using des_elems_typed [OF _ k(3), of "well_typed c ty"] IH by blast
  then show ?thesis using k by (simp add: resize_elems_def)
qed (use assms in simp)

lemma des_typed:
  "amtsDeserialize c ty t s = Some (ok, v, s') \<Longrightarrow> well_typed c ty t \<Longrightarrow> ok_ty c ty \<Longrightarrow> well_typed c ty v"
proof (induction ty arbitrary: t s ok v s')
  case (Pod n)
  then show ?case using des_pod_typed by (cases t) auto
next
  case (Wide n)
  then show ?case using des_wide_typed by (cases t) auto
next
  case (Str k)
  then show ?case using des_str_typed by (cases t) (auto simp del: well_typed.simps(3))
next
  case (Vec ty)
  then obtain ts where t: "t = Seq ts" by (cases t) auto
  show ?case by (rule des_vec_typed) (use Vec t in auto)
qed

section \<open>What deserialization consumes\<close>

definition in_ok :: "in_buf \<Rightarrow> bool" where
  "in_ok s \<longleftrightarrow> in_size s < 2 ^ 32 \<and> in_size s \<le> length (rest_bytes s)"

definition skip :: "nat \<Rightarrow> in_buf \<Rightarrow> in_buf" where
  "skip n s = \<lparr> rest_bytes = drop n (rest_bytes s), in_size = in_size s - n \<rparr>"

text \<open>A deserializer that looks at no byte beyond \<^verbatim>\<open>size\<close>.\<close>

definition reads :: "in_buf \<Rightarrow> (bool \<times> 'a \<times> in_buf) option \<Rightarrow> bool" where
  "reads s r \<longleftrightarrow> (\<exists>ok v n. r = Some (ok, v, skip n s) \<and> n \<le> in_size s)"

lemma skip_simps [simp]: "in_size (skip n s) = in_size s - n" "skip n (skip k s) = skip (k + n) s" "skip 0 s = s"
  by (simp_all add: skip_def add.commute)

lemma in_ok_skip: "in_ok s \<Longrightarrow> n \<le> in_size s \<Longrightarrow> in_ok (skip n s)"
  by (auto simp: in_ok_def skip_def)

lemma get_bytes_skip: "in_ok s \<Longrightarrow> n \<le> in_size s \<Longrightarrow> get_bytes n s = Some (take n (rest_bytes s), skip n s)"
  by (simp add: get_bytes_def in_ok_def skip_def usub_le)

lemma reads_stay: "reads s (Some (ok, v, s))"
  unfolding reads_def by (intro exI [of _ 0] exI) auto

lemma reads_some: "n \<le> in_size s \<Longrightarrow> reads s (Some (ok, v, skip n s))"
  unfolding reads_def by blast

lemma reads_seq:
  assumes "reads s r" "in_ok s" "\<And>ok v s. in_ok s \<Longrightarrow> reads s (f ok v s)"
  shows "reads s (do { (ok, v, s) \<leftarrow> r; f ok v s })"
proof -
  obtain ok v n where n: "r = Some (ok, v, skip n s)" "n \<le> in_size s" using assms(1) unfolding reads_def by blast
  then have "reads (skip n s) (f ok v (skip n s))" using assms in_ok_skip by blast
  then obtain ok' v' m where "f ok v (skip n s) = Some (ok', v', skip (n + m) s)" "m \<le> in_size s - n"
    unfolding reads_def by auto
  then show ?thesis using n by (simp add: reads_some)
qed

lemma reads_map: "reads s r \<Longrightarrow> reads s (map_option (map_prod id (map_prod f id)) r)"
  by (auto simp: reads_def)

lemma reads_pod: "in_ok s \<Longrightarrow> reads s (des_pod n t s)"
  by (simp add: des_pod_def get_bytes_skip reads_some reads_stay)

lemma reads_str: "in_ok s \<Longrightarrow> reads s (des_str c k t s)"
  unfolding des_str_def
  by (cases "in_size s < 8") (auto simp: reads_stay Let_def get_bytes_skip not_less intro!: reads_seq reads_pod reads_some)

lemma reads_elems:
  assumes "\<And>t s. P t \<Longrightarrow> in_ok s \<Longrightarrow> reads s (f t s)"
  shows "\<forall>t \<in> set ts. P t \<Longrightarrow> in_ok s \<Longrightarrow> reads s (des_elems f ts s)"
proof (induction ts arbitrary: s)
  case (Cons t ts)
  then show ?case using assms by (auto simp: reads_stay intro!: reads_seq)
qed (simp add: reads_stay)

fun wide_free :: "ty \<Rightarrow> bool" where
  "wide_free (Wide n) = False"
| "wide_free (Vec ty) = wide_free ty"
| "wide_free _ = True"

lemma des_reads: "wide_free ty \<Longrightarrow> well_typed c ty t \<Longrightarrow> in_ok s \<Longrightarrow> reads s (amtsDeserialize c ty t s)"
proof (induction ty arbitrary: t s)
  case (Pod n)
  then show ?case by (cases t) (auto intro: reads_map reads_pod)
next
  case (Str k)
  then show ?case by (cases t) (auto intro: reads_map reads_str)
next
  case (Vec ty)
  then obtain ts where t: "t = Seq ts" by (cases t) auto
  have "\<forall>t \<in> set (resize_elems (default_val c ty) k ts). well_typed c ty t" for k
    using Vec t well_typed_default by (auto simp: resize_elems_def dest: in_set_takeD)
  then have "reads s (des_elems (amtsDeserialize c ty) (resize_elems (default_val c ty) k ts) s)" if "in_ok s" for k s
    using reads_elems [of "well_typed c ty"] Vec that by simp
  then show ?case using Vec(4) unfolding t amtsDeserialize.simps
    by (auto simp: reads_stay intro!: reads_seq reads_pod reads_map)
qed simp

section \<open>Round trip\<close>

text \<open>
  What is read back: the value, but for the characters behind the end of a compactly stored text.
  The code relies on that end being within the array.
\<close>

fun canon :: "ser_cfg \<Rightarrow> ty \<Rightarrow> val \<Rightarrow> val" where
  "canon c (Wide n) (Raw bs) = Raw (if compact c then
     let k = wcsnlen (wchar_size c) n bs * wchar_size c in take k bs @ replicate (length bs - k) 0 else bs)"
| "canon c (Vec ty) (Seq vs) = Seq (map (canon c ty) vs)"
| "canon c _ v = v"

fun texts_end :: "ser_cfg \<Rightarrow> ty \<Rightarrow> val \<Rightarrow> bool" where
  "texts_end c (Wide n) (Raw bs) = (compact c \<longrightarrow> wcsnlen (wchar_size c) n bs < n)"
| "texts_end c (Vec ty) (Seq vs) = (\<forall>v \<in> set vs. texts_end c ty v)"
| "texts_end c _ _ = True"

lemma canon_id: "\<not> compact c \<Longrightarrow> canon c ty v = v"
  by (induction c ty v rule: canon.induct) (auto intro: map_idI)

lemma texts_end_plain: "\<not> compact c \<Longrightarrow> texts_end c ty v"
  by (induction c ty v rule: texts_end.induct) auto

text \<open>\<open>s\<close> is at the bytes \<open>e\<close>, and a deserializer gets the value \<open>v\<close> out of them.\<close>

definition at_bytes :: "u8 list \<Rightarrow> in_buf \<Rightarrow> bool" where
  "at_bytes e s \<longleftrightarrow> in_ok s \<and> length e \<le> in_size s \<and> take (length e) (rest_bytes s) = e"

definition gets :: "u8 list \<Rightarrow> 'a \<Rightarrow> in_buf \<Rightarrow> (bool \<times> 'a \<times> in_buf) option \<Rightarrow> bool" where
  "gets e v s r \<longleftrightarrow> r = Some (True, v, skip (length e) s)"

lemma at_bytes_append:
  "at_bytes (a @ b) s \<longleftrightarrow> at_bytes a s \<and> at_bytes b (skip (length a) s)"
  by (auto simp: at_bytes_def in_ok_def skip_def take_add append_eq_append_conv)

lemma get_bytes_at: "at_bytes e s \<Longrightarrow> get_bytes (length e) s = Some (e, skip (length e) s)"
  by (simp add: at_bytes_def get_bytes_skip)

lemma des_pod_at: "at_bytes e s \<Longrightarrow> length e = n \<Longrightarrow> des_pod n t s = Some (True, e, skip n s)"
  using get_bytes_at [of e s] by (auto simp: des_pod_def at_bytes_def)

lemma gets_wide:
  assumes "well_typed c (Wide n) (Raw bs)" "ok_ty c (Wide n)" "texts_end c (Wide n) (Raw bs)"
    "at_bytes (ser_enc c (Wide n) (Raw bs)) s"
  shows "gets (ser_enc c (Wide n) (Raw bs)) (canon c (Wide n) (Raw bs)) s
    (amtsDeserialize c (Wide n) (default_val c (Wide n)) s)"
proof (cases "compact c")
  case False
  then have "n \<le> in_size s" using assms(1,2,4) by (cases "wchar_size c") (auto simp: at_bytes_def)
  then show ?thesis using False assms get_bytes_at [of bs s] by (simp add: gets_def des_wide_def)
next
  case True
  define k where "k = wcsnlen (wchar_size c) n bs"
  define e where "e = take (k * wchar_size c) bs"
  have k: "k < n" using assms(3) True by (simp add: k_def)
  then have le: "k * wchar_size c \<le> n * wchar_size c" "k * wchar_size c + wchar_size c \<le> n * wchar_size c"
    using mult_le_mono1 [of "Suc k" n "wchar_size c"] by simp_all
  have uk: "uw 32 (k * wchar_size c) = length e" "length e = k * wchar_size c"
    using le assms(1,2) by (simp_all add: e_def)
  have "k \<le> k * wchar_size c" using assms(2) by (cases "wchar_size c") auto
  moreover have "n * wchar_size c < 256 ^ 4" using assms(2) by simp
  ultimately have "k < 256 ^ 4" using le by linarith
  then have g: "get_int c (put_int c 4 k) = k" by (rule get_put_int)
  have "at_bytes (put_int c 4 k) s" "at_bytes e (skip 4 s)"
    using assms(4) True at_bytes_append [of "put_int c 4 k" e s] by (simp_all add: Let_def k_def e_def)
  then have "des_wide c n (replicate (n * wchar_size c) 0) s =
      Some (True, e @ replicate (wchar_size c) 0 @ replicate (n * wchar_size c - (k * wchar_size c + wchar_size c)) 0,
        skip (4 + length e) s)"
    using True k g get_bytes_at [of e "skip 4 s"]
    by (simp add: des_wide_def Let_def des_pod_at uk)
  moreover have "ser_enc c (Wide n) (Raw bs) = put_int c 4 k @ e" "canon c (Wide n) (Raw bs) = Raw (e @ replicate (n * wchar_size c - k * wchar_size c) 0)"
    using True assms(1) by (simp_all add: Let_def k_def e_def)
  ultimately show ?thesis using le by (simp add: gets_def replicate_add [symmetric])
qed

lemma gets_str:
  assumes "well_typed c (Str k) (Raw bs)" "ok_ty c (Str k)" "at_bytes (ser_enc c (Str k) (Raw bs)) s"
  shows "gets (ser_enc c (Str k) (Raw bs)) (Raw bs) s (amtsDeserialize c (Str k) (Raw []) s)"
proof -
  let ?n = "length bs div k"
  have b: "?n * k = length bs" "?n \<le> max_count c (Str k)" using assms(1) by simp_all
  then have b64: "length bs < 2 ^ 64"
    using order.strict_trans1 [OF mult_le_mono1 [OF b(2)], of k "2 ^ 64"] assms(2) by simp
  then have "?n < 256 ^ 8" using order.strict_trans1 [OF div_le_dividend [of "length bs" k]] by simp
  then have g: "get_int c (put_int c 8 ?n) = ?n" by (rule get_put_int)
  have "at_bytes (put_int c 8 ?n) s" "at_bytes bs (skip 8 s)"
    using assms(3) at_bytes_append [of "put_int c 8 ?n" bs s] by simp_all
  moreover from this have "8 \<le> in_size s" "length bs \<le> in_size s - 8" by (simp_all add: at_bytes_def)
  ultimately have "des_str c k [] s = Some (True, bs, skip (8 + length bs) s)"
    using b b64 g get_bytes_at [of bs "skip 8 s"] by (auto simp: des_str_def des_pod_at Let_def)
  then show ?thesis by (simp add: gets_def)
qed

lemma gets_elems:
  assumes "\<And>v s. v \<in> set vs \<Longrightarrow> at_bytes (e v) s \<Longrightarrow> gets (e v) (h v) s (f d s)"
  shows "at_bytes (concat (map e vs)) s \<Longrightarrow>
    gets (concat (map e vs)) (map h vs) s (des_elems f (replicate (length vs) d) s)"
  using assms by (induction vs arbitrary: s) (fastforce simp: gets_def at_bytes_append)+

theorem amtsDeserialize_enc:
  assumes "well_typed c ty v" "ok_ty c ty" "texts_end c ty v" "at_bytes (ser_enc c ty v) s"
  shows "gets (ser_enc c ty v) (canon c ty v) s (amtsDeserialize c ty (default_val c ty) s)"
  using assms
proof (induction ty arbitrary: v s)
  case (Pod n)
  then show ?case by (cases v) (auto simp: gets_def des_pod_at)
next
  case (Wide n)
  then show ?case by (cases v) (auto simp del: ser_enc.simps canon.simps amtsDeserialize.simps default_val.simps intro: gets_wide)
next
  case (Str k)
  then show ?case using gets_str by (cases v) auto
next
  case (Vec ty)
  then obtain vs where v: "v = Seq vs" by (cases v) auto
  have len: "length vs \<le> max_count c (Vec ty)" "length vs < 256 ^ 8" using Vec v by auto
  have at: "at_bytes (put_int c 8 (length vs)) s" "at_bytes (concat (map (ser_enc c ty) vs)) (skip 8 s)"
    using Vec.prems(4) v at_bytes_append [of "put_int c 8 (length vs)" "concat (map (ser_enc c ty) vs)" s] by simp_all
  have "gets (ser_enc c ty x) (canon c ty x) s (amtsDeserialize c ty (default_val c ty) s)"
    if "x \<in> set vs" "at_bytes (ser_enc c ty x) s" for x s using Vec v that by simp
  then have "gets (concat (map (ser_enc c ty) vs)) (map (canon c ty) vs) (skip 8 s)
      (des_elems (amtsDeserialize c ty) (replicate (length vs) (default_val c ty)) (skip 8 s))"
    using at(2) by (rule gets_elems)
  then show ?case using at len v
    by (simp add: gets_def des_pod_at get_put_int resize_elems_def) (simp add: at_bytes_def)
qed

section \<open>Properties\<close>

text \<open>
  Reading a \<^verbatim>\<open>wchar_t[n]\<close> tests the number of characters against the size in bytes, and copies all bytes:
  with fewer of them the copy leaves the memory.
\<close>

lemma des_wide_overread:
  assumes "\<not> compact c" "n \<le> in_size s" "length (rest_bytes s) < n * wchar_size c"
  shows "amtsDeserialize c (Wide n) (Raw t) s = None"
  using assms by (simp add: des_wide_def get_bytes_def)

text \<open>
  A string whose bytes are counted as zero is read without touching the target. The count may be zero, or one
  whose product with the size of a character is a multiple of $2^{64}$.
\<close>

lemma des_str_stale:
  assumes "at_bytes (put_int c 8 count) s" "count < 2 ^ 64" "uw 64 (count * k) = 0"
  shows "amtsDeserialize c (Str k) (Raw t) s = Some (True, Raw t, skip 8 s)"
proof -
  have "8 \<le> in_size s" using assms(1) by (simp add: at_bytes_def)
  moreover have "get_int c (put_int c 8 count) = count" using assms(2) by (intro get_put_int) simp
  ultimately show ?thesis using assms by (simp add: des_str_def des_pod_at)
qed

text \<open>
  C28. Serialization stays within \<^verbatim>\<open>size\<close>: when the memory has that many bytes, it never writes outside it, what
  it has written is a prefix of the encoding of the value, \<^verbatim>\<open>buffer\<close> and \<^verbatim>\<open>size\<close> are moved by exactly the bytes
  written, and it reports success exactly when the whole encoding fits, however long the value is.
\<close>

theorem serialize_safe:
  assumes "ok_ty c ty" "well_typed c ty v" "out_size s < 2 ^ 32" "out_size s \<le> room s"
  shows "\<exists>n \<le> out_size s. amtsSerialize c ty v s = Some (length (ser_enc c ty v) \<le> out_size s,
      \<lparr> written = written s @ take n (ser_enc c ty v), room = room s - n, out_size = out_size s - n \<rparr>) \<and>
    (length (ser_enc c ty v) \<le> out_size s \<longrightarrow> n = length (ser_enc c ty v))"
proof -
  obtain n where n: "amtsSerialize c ty v s = Some (length (ser_enc c ty v) \<le> out_size s, adv (take n (ser_enc c ty v)) s)"
    "n \<le> length (ser_enc c ty v)" "n \<le> out_size s" "length (ser_enc c ty v) \<le> out_size s \<longrightarrow> n = length (ser_enc c ty v)"
    using amtsSerialize_wrote [of c ty v s] assms unfolding wrote_def out_ok_def by blast
  then have "adv (take n (ser_enc c ty v)) s = \<lparr> written = written s @ take n (ser_enc c ty v), room = room s - n, out_size = out_size s - n \<rparr>"
    by (simp add: adv_def)
  then show ?thesis using n by metis
qed

text \<open>The build of a 64-bit Linux system and of a compact one.\<close>

definition linux_cfg :: ser_cfg where
  "linux_cfg = \<lparr> big_endian = False, wchar_size = 4, compact = False, max_count = (\<lambda>_. 2 ^ 32) \<rparr>"

definition compact_cfg :: ser_cfg where
  "compact_cfg = linux_cfg \<lparr> compact := True, wchar_size := 2 \<rparr>"

lemmas cfg_defs = linux_cfg_def compact_cfg_def

theorem serialize_safe_witness:
  "\<exists>n \<le> 12. amtsSerialize linux_cfg (Vec (Str 1)) (Seq [Raw [104, 105], Raw []]) \<lparr> written = [], room = 20, out_size = 12 \<rparr> =
      Some (False, \<lparr> written = take n (ser_enc linux_cfg (Vec (Str 1)) (Seq [Raw [104, 105], Raw []])), room = 20 - n, out_size = 12 - n \<rparr>)"
proof -
  let ?v = "Seq [Raw [104, 105], Raw []]" and ?s = "\<lparr> written = [], room = 20, out_size = 12 \<rparr>"
  have "length (ser_enc linux_cfg (Vec (Str 1)) ?v) = 26" by simp
  moreover have "ok_ty linux_cfg (Vec (Str 1))" "well_typed linux_cfg (Vec (Str 1)) ?v" by (simp_all add: cfg_defs)
  ultimately show ?thesis using serialize_safe [of linux_cfg "Vec (Str 1)" ?v ?s]
    by (simp del: ser_enc.simps amtsSerialize.simps ok_ty.simps well_typed.simps)
qed

text \<open>
  C29. Round trip: a value whose encoding fits into \<^verbatim>\<open>size\<close> is serialized in exactly \<^verbatim>\<open>amtsSize\<close> bytes, and
  reading these into a fresh object, whatever follows them, succeeds, consumes exactly these bytes and gives
  the value back. The text in a compactly stored array ends within the array, and what is behind its end is lost.
\<close>

theorem serialize_roundtrip:
  assumes "ok_ty c ty" "well_typed c ty v" "texts_end c ty v"
    "out_size s < 2 ^ 32" "out_size s \<le> room s" "length (ser_enc c ty v) \<le> out_size s"
  shows "\<exists>bs. amtsSerialize c ty v s = Some (True, \<lparr> written = written s @ bs, room = room s - length bs,
        out_size = out_size s - length bs \<rparr>) \<and>
      length bs = amtsSize c ty v \<and>
      (\<forall>more m. length bs \<le> m \<and> m < 2 ^ 32 \<and> m \<le> length (bs @ more) \<longrightarrow>
        amtsDeserialize c ty (default_val c ty) \<lparr> rest_bytes = bs @ more, in_size = m \<rparr> =
        Some (True, canon c ty v, \<lparr> rest_bytes = more, in_size = m - length bs \<rparr>))"
proof (intro exI conjI allI impI)
  let ?e = "ser_enc c ty v"
  show "amtsSerialize c ty v s = Some (True, \<lparr> written = written s @ ?e, room = room s - length ?e, out_size = out_size s - length ?e \<rparr>)"
    using amtsSerialize_wrote [of c ty v s] assms by (auto simp: wrote_def out_ok_def adv_def)
  show "length ?e = amtsSize c ty v" using amtsSize_enc [of c ty v] assms by simp
  fix more m
  assume m: "length ?e \<le> m \<and> m < 2 ^ 32 \<and> m \<le> length (?e @ more)"
  then have "at_bytes ?e \<lparr> rest_bytes = ?e @ more, in_size = m \<rparr>" by (simp add: at_bytes_def in_ok_def)
  then show "amtsDeserialize c ty (default_val c ty) \<lparr> rest_bytes = ?e @ more, in_size = m \<rparr> =
      Some (True, canon c ty v, \<lparr> rest_bytes = more, in_size = m - length ?e \<rparr>)"
    using amtsDeserialize_enc [OF assms(2,1,3)] by (simp add: gets_def skip_def)
qed

theorem serialize_roundtrip_witness:
  "\<exists>bs. amtsSerialize compact_cfg (Vec (Wide 3)) (Seq [Raw [104, 0, 0, 0, 7, 7]]) \<lparr> written = [], room = 64, out_size = 64 \<rparr> =
      Some (True, \<lparr> written = bs, room = 64 - length bs, out_size = 64 - length bs \<rparr>) \<and>
    amtsDeserialize compact_cfg (Vec (Wide 3)) (Seq []) \<lparr> rest_bytes = bs, in_size = length bs \<rparr> =
      Some (True, Seq [Raw [104, 0, 0, 0, 0, 0]], \<lparr> rest_bytes = [], in_size = 0 \<rparr>)"
proof -
  let ?v = "Seq [Raw [104, 0, 0, 0, 7, 7]]" and ?s = "\<lparr> written = [], room = 64, out_size = 64 \<rparr>"
  have w: "wcsnlen 2 3 [104, 0, 0, 0, 7, 7] = 1" by (simp add: numeral_3_eq_3)
  have r: "replicate 4 x = [x, x, x, x]" for x :: u8 by (simp add: eval_nat_numeral)
  have "length (ser_enc compact_cfg (Vec (Wide 3)) ?v) = 14" by (simp add: cfg_defs w Let_def)
  moreover have "ok_ty compact_cfg (Vec (Wide 3))" "well_typed compact_cfg (Vec (Wide 3)) ?v" "texts_end compact_cfg (Vec (Wide 3)) ?v"
    by (simp_all add: cfg_defs w)
  ultimately obtain bs where bs: "amtsSerialize compact_cfg (Vec (Wide 3)) ?v ?s =
      Some (True, \<lparr> written = bs, room = 64 - length bs, out_size = 64 - length bs \<rparr>)"
    "length bs = amtsSize compact_cfg (Vec (Wide 3)) ?v"
    "\<forall>more m. length bs \<le> m \<and> m < 2 ^ 32 \<and> m \<le> length (bs @ more) \<longrightarrow>
        amtsDeserialize compact_cfg (Vec (Wide 3)) (Seq []) \<lparr> rest_bytes = bs @ more, in_size = m \<rparr> =
        Some (True, canon compact_cfg (Vec (Wide 3)) ?v, \<lparr> rest_bytes = more, in_size = m - length bs \<rparr>)"
    using serialize_roundtrip [of compact_cfg "Vec (Wide 3)" ?v ?s]
    unfolding default_val.simps out_buf.select_convs append_Nil
    by (elim meta_impE exE) simp_all
  have "length bs = 14" using bs(2) by (simp add: cfg_defs w)
  moreover have "canon compact_cfg (Vec (Wide 3)) ?v = Seq [Raw [104, 0, 0, 0, 0, 0]]"
    by (simp add: cfg_defs w Let_def r)
  ultimately have "amtsDeserialize compact_cfg (Vec (Wide 3)) (Seq []) \<lparr> rest_bytes = bs, in_size = length bs \<rparr> =
      Some (True, Seq [Raw [104, 0, 0, 0, 0, 0]], \<lparr> rest_bytes = [], in_size = 0 \<rparr>)"
    using bs(3) [THEN spec [of _ "[]"], THEN spec [of _ "length bs"]] by (simp del: amtsDeserialize.simps)
  then show ?thesis using bs(1) by blast
qed

text \<open>
  C30. Reading arbitrary bytes is type safe: whatever they are, and whether or not the reading succeeds, the
  target is left a value of its type. Unless the type contains an array of \<^verbatim>\<open>wchar_t\<close>, no byte beyond \<^verbatim>\<open>size\<close>
  is looked at, and \<^verbatim>\<open>buffer\<close> and \<^verbatim>\<open>size\<close> are moved by the same number of bytes.
\<close>

theorem deserialize_type_sound:
  assumes "ok_ty c ty" "well_typed c ty t"
  shows "(\<forall>ok v s'. amtsDeserialize c ty t s = Some (ok, v, s') \<longrightarrow> well_typed c ty v) \<and>
    (wide_free ty \<and> in_size s < 2 ^ 32 \<and> in_size s \<le> length (rest_bytes s) \<longrightarrow>
      (\<exists>ok v. \<exists>n \<le> in_size s. amtsDeserialize c ty t s = Some (ok, v, \<lparr> rest_bytes = drop n (rest_bytes s), in_size = in_size s - n \<rparr>)))"
  using des_typed [of c ty t s] des_reads [of ty c t s] assms unfolding reads_def in_ok_def skip_def by blast

theorem deserialize_type_sound_witness:
  "\<exists>ok v. \<exists>n \<le> 30. amtsDeserialize linux_cfg (Vec (Str 1)) (Seq []) \<lparr> rest_bytes = replicate 30 1, in_size = 30 \<rparr> =
      Some (ok, v, \<lparr> rest_bytes = replicate (30 - n) 1, in_size = 30 - n \<rparr>) \<and> well_typed linux_cfg (Vec (Str 1)) v"
proof -
  let ?s = "\<lparr> rest_bytes = replicate 30 (1 :: u8), in_size = 30 \<rparr>"
  have ok: "ok_ty linux_cfg (Vec (Str 1))" "well_typed linux_cfg (Vec (Str 1)) (Seq [])" by (simp_all add: cfg_defs)
  obtain r v n where n: "n \<le> 30" and r: "amtsDeserialize linux_cfg (Vec (Str 1)) (Seq []) ?s =
      Some (r, v, \<lparr> rest_bytes = drop n (rest_bytes ?s), in_size = 30 - n \<rparr>)"
    using deserialize_type_sound [OF ok, of ?s] by auto
  moreover have "well_typed linux_cfg (Vec (Str 1)) v" using deserialize_type_sound [OF ok, of ?s] r by blast
  ultimately show ?thesis by (intro exI [of _ r] exI [of _ v] exI [of _ n]) (simp only: drop_replicate select_convs simp_thms)
qed

end
