(* ===== verification/Sdk_Chain_Executor.thy ===== *)
theory Sdk_Chain_Executor
  imports Sdk_Prelude
begin

text \<open>
  \<^verbatim>\<open>tools/chain_executor.hpp\<close>: a pool of threads that executes the jobs of one key one after another and the
  jobs of different keys side by side. Every region that a spin lock guards is one atomic function of the
  shared state; the threads are program counters between these regions, and the system is the relation of
  their steps in any order. The waiting for the event ends with a timeout, so that a waiting thread may look
  for work at any time. \<^verbatim>\<open>make_shared\<close> is taken to succeed; a job is its \<^verbatim>\<open>shared_ptr\<close>, and what it does when
  it is executed, such as adding jobs, is a step of its own.
\<close>

section \<open>The shared state\<close>

record 'j task_chain =
  tc_tasks :: "'j list"
  tc_pending :: bool

definition chain_new :: "'j task_chain" where
  "chain_new = \<lparr> tc_tasks = [], tc_pending = False \<rparr>"

definition chain_add_task :: "'j \<Rightarrow> 'j task_chain \<Rightarrow> bool \<times> 'j task_chain" where
  "chain_add_task v ch =
     (let ch = ch\<lparr> tc_tasks := tc_tasks ch @ [v] \<rparr> in
      if \<not> tc_pending ch then (True, ch\<lparr> tc_pending := True \<rparr>) else (False, ch))"

text \<open>The second result is what is swapped into the argument of \<^verbatim>\<open>get_task\<close>, if anything is.\<close>

definition chain_get_task :: "'j task_chain \<Rightarrow> bool \<times> 'j option \<times> 'j task_chain" where
  "chain_get_task ch = (case tc_tasks ch of
     [] \<Rightarrow> (False, None, ch\<lparr> tc_pending := False \<rparr>)
   | v # vs \<Rightarrow> (tc_pending ch, Some v, ch\<lparr> tc_tasks := vs \<rparr>))"

text \<open>
  A thread in \<^verbatim>\<open>add_task\<close>: before the map of chains, before the chain, before the list of chains that have
  work, and done. A worker waits, holds a chain before \<^verbatim>\<open>get_task\<close>, executes a job, or has returned.
\<close>

datatype ('k, 'j) producer = Lookup 'k 'j | Adding nat 'j | Readying nat | Done

datatype 'j worker = Waiting | Holding nat | Running nat 'j | Exited

text \<open>What happened so far, for the specification only.\<close>

datatype 'j event = Added nat 'j | Started nat 'j | Finished nat 'j

record ('k, 'j) pool_state =
  chain_obj :: "nat \<Rightarrow> 'j task_chain"
  chains_list :: "'k \<rightharpoonup> nat"
  ready2work :: "nat list"
  next_id :: nat
  producers :: "('k, 'j) producer list"
  workers :: "'j worker list"
  stop_flag :: bool
  hist :: "'j event list"

definition exec_init :: "nat \<Rightarrow> ('k, 'j) pool_state" where
  "exec_init n = \<lparr> chain_obj = (\<lambda>_. chain_new), chains_list = Map.empty, ready2work = [], next_id = 0,
     producers = [], workers = replicate n Waiting, stop_flag = False, hist = [] \<rparr>"

text \<open>
  A \<^verbatim>\<open>weak_ptr\<close> in the list of chains with work can be locked as long as a \<^verbatim>\<open>shared_ptr\<close> to the chain exists:
  in the map, in a thread that adds a task, or in a worker.
\<close>

fun worker_holds :: "nat \<Rightarrow> 'j worker \<Rightarrow> bool" where
  "worker_holds c (Holding d) = (d = c)"
| "worker_holds c (Running d j) = (d = c)"
| "worker_holds c _ = False"

fun producer_refs :: "nat \<Rightarrow> ('k, 'j) producer \<Rightarrow> bool" where
  "producer_refs c (Adding d j) = (d = c)"
| "producer_refs c (Readying d) = (d = c)"
| "producer_refs c _ = False"

definition alive :: "('k, 'j) pool_state \<Rightarrow> nat \<Rightarrow> bool" where
  "alive s c \<longleftrightarrow> c \<in> ran (chains_list s) \<or> (\<exists>p \<in> set (producers s). producer_refs c p) \<or>
     (\<exists>w \<in> set (workers s). worker_holds c w)"

text \<open>The first region of \<^verbatim>\<open>add_task\<close>.\<close>

definition find_chain :: "'k \<Rightarrow> ('k, 'j) pool_state \<Rightarrow> nat \<times> ('k, 'j) pool_state" where
  "find_chain k s = (case chains_list s k of
     Some c \<Rightarrow> (c, s)
   | None \<Rightarrow> (next_id s, s\<lparr> chain_obj := (chain_obj s)(next_id s := chain_new),
       chains_list := (chains_list s)(k \<mapsto> next_id s), next_id := Suc (next_id s) \<rparr>))"

fun pop_ready :: "(nat \<Rightarrow> bool) \<Rightarrow> nat list \<Rightarrow> nat option \<times> nat list" where
  "pop_ready live [] = (None, [])"
| "pop_ready live (c # cs) = (if live c then (Some c, cs) else pop_ready live cs)"

definition pop_chain :: "('k, 'j) pool_state \<Rightarrow> nat option \<times> ('k, 'j) pool_state" where
  "pop_chain s = (case pop_ready (alive s) (ready2work s) of (c, cs) \<Rightarrow> (c, s\<lparr> ready2work := cs \<rparr>))"

definition remove_chain :: "'k \<Rightarrow> ('k, 'j) pool_state \<Rightarrow> ('k, 'j) pool_state" where
  "remove_chain k s = s\<lparr> chains_list := (chains_list s)(k := None) \<rparr>"

section \<open>Steps of the threads\<close>

definition put_producer :: "nat \<Rightarrow> ('k, 'j) producer \<Rightarrow> ('k, 'j) pool_state \<Rightarrow> ('k, 'j) pool_state" where
  "put_producer i p s = s\<lparr> producers := (producers s)[i := p] \<rparr>"

definition put_worker :: "nat \<Rightarrow> 'j worker \<Rightarrow> ('k, 'j) pool_state \<Rightarrow> ('k, 'j) pool_state" where
  "put_worker i w s = s\<lparr> workers := (workers s)[i := w] \<rparr>"

definition note_event :: "'j event \<Rightarrow> ('k, 'j) pool_state \<Rightarrow> ('k, 'j) pool_state" where
  "note_event e s = s\<lparr> hist := hist s @ [e] \<rparr>"

definition put_chain :: "nat \<Rightarrow> 'j task_chain \<Rightarrow> ('k, 'j) pool_state \<Rightarrow> ('k, 'j) pool_state" where
  "put_chain c ch s = s\<lparr> chain_obj := (chain_obj s)(c := ch) \<rparr>"

text \<open>One step of a thread in \<^verbatim>\<open>add_task\<close>.\<close>

fun producer_step :: "nat \<Rightarrow> ('k, 'j) producer \<Rightarrow> ('k, 'j) pool_state \<Rightarrow> ('k, 'j) pool_state" where
  "producer_step i (Lookup k j) s = (case find_chain k s of (c, s) \<Rightarrow> put_producer i (Adding c j) s)"
| "producer_step i (Adding c j) s = (case chain_add_task j (chain_obj s c) of (first, ch) \<Rightarrow>
     note_event (Added c j) (put_producer i (if first then Readying c else Done) (put_chain c ch s)))"
| "producer_step i (Readying c) s = put_producer i Done (s\<lparr> ready2work := ready2work s @ [c] \<rparr>)"
| "producer_step i Done s = s"

text \<open>One step of \<^verbatim>\<open>threadManager\<close>.\<close>

fun worker_step :: "nat \<Rightarrow> 'j worker \<Rightarrow> ('k, 'j) pool_state \<Rightarrow> ('k, 'j) pool_state" where
  "worker_step i Waiting s =
     (if stop_flag s then put_worker i Exited s
      else case pop_chain s of (None, s) \<Rightarrow> s | (Some c, s) \<Rightarrow> put_worker i (Holding c) s)"
| "worker_step i (Holding c) s =
     (if stop_flag s then put_worker i Exited s
      else case chain_get_task (chain_obj s c) of
        (True, Some j, ch) \<Rightarrow> note_event (Started c j) (put_worker i (Running c j) (put_chain c ch s))
      | (_, _, ch) \<Rightarrow> put_worker i Waiting (put_chain c ch s))"
| "worker_step i (Running c j) s = note_event (Finished c j) (put_worker i (Holding c) s)"
| "worker_step i Exited s = s"

inductive exec_step :: "('k, 'j) pool_state \<Rightarrow> ('k, 'j) pool_state \<Rightarrow> bool" where
  submit: "exec_step s (s\<lparr> producers := producers s @ [Lookup k j] \<rparr>)"
| produce: "i < length (producers s) \<Longrightarrow> exec_step s (producer_step i (producers s ! i) s)"
| work: "i < length (workers s) \<Longrightarrow> exec_step s (worker_step i (workers s ! i) s)"
| remove: "exec_step s (remove_chain k s)"
| stop: "exec_step s (s\<lparr> stop_flag := True \<rparr>)"

inductive exec_reach :: "nat \<Rightarrow> ('k, 'j) pool_state \<Rightarrow> bool" for n where
  init: "exec_reach n (exec_init n)"
| steps: "exec_reach n s \<Longrightarrow> exec_step s s' \<Longrightarrow> exec_reach n s'"

section \<open>The invariant\<close>

definition added_to :: "'j event list \<Rightarrow> nat \<Rightarrow> 'j list" where
  "added_to es c = concat (map (\<lambda>e. case e of Added d j \<Rightarrow> if d = c then [j] else [] | _ \<Rightarrow> []) es)"

definition started_of :: "'j event list \<Rightarrow> nat \<Rightarrow> 'j list" where
  "started_of es c = concat (map (\<lambda>e. case e of Started d j \<Rightarrow> if d = c then [j] else [] | _ \<Rightarrow> []) es)"

definition finished_of :: "'j event list \<Rightarrow> nat \<Rightarrow> 'j list" where
  "finished_of es c = concat (map (\<lambda>e. case e of Finished d j \<Rightarrow> if d = c then [j] else [] | _ \<Rightarrow> []) es)"

fun job_of :: "nat \<Rightarrow> 'j worker \<Rightarrow> 'j list" where
  "job_of c (Running d j) = (if d = c then [j] else [])"
| "job_of c _ = []"

definition running_jobs :: "'j worker list \<Rightarrow> nat \<Rightarrow> 'j list" where
  "running_jobs ws c = concat (map (job_of c) ws)"

text \<open>
  The right to look for work in a chain is a token: an entry of the list of chains with work, a worker at the
  chain, or a thread that is about to make the entry. A living chain has one token when it is marked as
  pending, and none otherwise.
\<close>

fun readies :: "nat \<Rightarrow> ('k, 'j) producer \<Rightarrow> bool" where
  "readies c (Readying d) = (d = c)"
| "readies c _ = False"

definition tokens :: "('k, 'j) pool_state \<Rightarrow> nat \<Rightarrow> nat" where
  "tokens s c = count_list (ready2work s) c + length (filter (worker_holds c) (workers s)) +
     length (filter (readies c) (producers s))"

text \<open>After a stop a worker may leave a chain behind with work in it.\<close>

definition tokens_ok :: "('k, 'j) pool_state \<Rightarrow> bool" where
  "tokens_ok s \<longleftrightarrow> (\<forall>c. alive s c \<longrightarrow> tokens s c \<le> of_bool (tc_pending (chain_obj s c)) \<and>
     (\<not> stop_flag s \<longrightarrow> tokens s c = of_bool (tc_pending (chain_obj s c))))"

definition ids_ok :: "('k, 'j) pool_state \<Rightarrow> bool" where
  "ids_ok s \<longleftrightarrow> (\<forall>c \<ge> next_id s. \<not> alive s c \<and> c \<notin> set (ready2work s) \<and> chain_obj s c = chain_new) \<and>
     inj_on (chains_list s) (dom (chains_list s))"

definition tasks_ok :: "('k, 'j) pool_state \<Rightarrow> bool" where
  "tasks_ok s \<longleftrightarrow> (\<forall>c. (\<not> tc_pending (chain_obj s c) \<longrightarrow> tc_tasks (chain_obj s c) = []) \<and>
     added_to (hist s) c = started_of (hist s) c @ tc_tasks (chain_obj s c) \<and>
     started_of (hist s) c = finished_of (hist s) c @ running_jobs (workers s) c)"

definition exec_ok :: "('k, 'j) pool_state \<Rightarrow> bool" where
  "exec_ok s \<longleftrightarrow> tokens_ok s \<and> ids_ok s \<and> tasks_ok s"

section \<open>What the updates change\<close>

lemma filter_update:
  assumes "i < length xs"
  shows "length (filter P (xs[i := y])) + of_bool (P (xs ! i)) = length (filter P xs) + of_bool (P y)"
  using assms
proof (induction xs arbitrary: i)
  case (Cons x xs)
  then show ?case by (cases i) auto
qed simp

lemma filter_update_le: "i < length xs \<Longrightarrow> P (xs ! i) \<Longrightarrow> 0 < length (filter P xs)"
  by (auto simp: filter_empty_conv)

text \<open>When at most one element counts, a concatenation is the part of that one.\<close>

lemma concat_single:
  assumes "i < length xs" "P (xs ! i)" "length (filter P xs) \<le> 1" "\<And>x. \<not> P x \<Longrightarrow> f x = []" "f y = [] \<or> P y"
  shows "concat (map f xs) = f (xs ! i)" "concat (map f (xs[i := y])) = f y"
proof -
  have no: "concat (map f xs) = []" if "filter P xs = []" for xs
    using that assms(4) by (auto simp: filter_empty_conv)
  have "concat (map f xs) = f (xs ! i) \<and> concat (map f (xs[i := y])) = f y"
    using assms(1-3)
  proof (induction xs arbitrary: i)
    case (Cons x xs)
    show ?case
    proof (cases i)
      case 0
      then show ?thesis using Cons.prems no [of xs] by simp
    next
      case (Suc n)
      have "0 < length (filter P xs)" using Cons.prems Suc by (intro filter_update_le [of n]) auto
      then have "\<not> P x" "length (filter P xs) \<le> 1" using Cons.prems(3) by (auto split: if_splits)
      then show ?thesis using Cons Suc assms(4) by simp
    qed
  qed simp
  then show "concat (map f xs) = f (xs ! i)" "concat (map f (xs[i := y])) = f y" by simp_all
qed

lemma concat_update_same:
  assumes "i < length xs" "f y = f (xs ! i)"
  shows "concat (map f (xs[i := y])) = concat (map f xs)"
  by (metis assms list_update_id map_update)

lemmas update_defs = put_producer_def put_worker_def put_chain_def note_event_def

lemma tokens_producer:
  "i < length (producers s) \<Longrightarrow> tokens (put_producer i p s) c + of_bool (readies c (producers s ! i)) =
    tokens s c + of_bool (readies c p)"
  using filter_update [of i "producers s" "readies c" p] by (simp add: tokens_def put_producer_def)

lemma tokens_worker:
  "i < length (workers s) \<Longrightarrow> tokens (put_worker i w s) c + of_bool (worker_holds c (workers s ! i)) =
    tokens s c + of_bool (worker_holds c w)"
  using filter_update [of i "workers s" "worker_holds c" w] by (simp add: tokens_def put_worker_def)

lemma update_fields [simp]:
  "chain_obj (put_producer i p s) = chain_obj s" "chains_list (put_producer i p s) = chains_list s"
  "ready2work (put_producer i p s) = ready2work s" "next_id (put_producer i p s) = next_id s"
  "workers (put_producer i p s) = workers s" "stop_flag (put_producer i p s) = stop_flag s" "hist (put_producer i p s) = hist s"
  "chain_obj (put_worker i w s) = chain_obj s" "chains_list (put_worker i w s) = chains_list s"
  "ready2work (put_worker i w s) = ready2work s" "next_id (put_worker i w s) = next_id s"
  "producers (put_worker i w s) = producers s" "stop_flag (put_worker i w s) = stop_flag s" "hist (put_worker i w s) = hist s"
  "chain_obj (note_event e s) = chain_obj s" "chains_list (note_event e s) = chains_list s"
  "ready2work (note_event e s) = ready2work s" "next_id (note_event e s) = next_id s" "producers (note_event e s) = producers s"
  "workers (note_event e s) = workers s" "stop_flag (note_event e s) = stop_flag s" "hist (note_event e s) = hist s @ [e]"
  "chain_obj (put_chain c ch s) = (chain_obj s)(c := ch)" "chains_list (put_chain c ch s) = chains_list s"
  "ready2work (put_chain c ch s) = ready2work s" "next_id (put_chain c ch s) = next_id s" "producers (put_chain c ch s) = producers s"
  "workers (put_chain c ch s) = workers s" "stop_flag (put_chain c ch s) = stop_flag s" "hist (put_chain c ch s) = hist s"
  "workers (put_worker i w s) = (workers s)[i := w]" "producers (put_producer i p s) = (producers s)[i := p]"
  by (simp_all add: update_defs)

lemma tokens_ready [simp]: "tokens (s\<lparr> ready2work := ready2work s @ [c] \<rparr>) d = tokens s d + of_bool (c = d)"
  by (simp add: tokens_def)

lemma tokens_simps [simp]:
  "tokens (put_chain d ch s) c = tokens s c" "tokens (note_event e s) c = tokens s c"
  "tokens (s\<lparr> chain_obj := f \<rparr>) c = tokens s c" "tokens (s\<lparr> chains_list := m \<rparr>) c = tokens s c"
  "tokens (s\<lparr> next_id := n \<rparr>) c = tokens s c" "tokens (s\<lparr> stop_flag := b \<rparr>) c = tokens s c"
  by (simp_all add: tokens_def update_defs)

lemma alive_simps [simp]:
  "alive (put_chain d ch s) c = alive s c" "alive (note_event e s) c = alive s c"
  "alive (s\<lparr> ready2work := r \<rparr>) c = alive s c" "alive (s\<lparr> chain_obj := f \<rparr>) c = alive s c"
  "alive (s\<lparr> next_id := n \<rparr>) c = alive s c" "alive (s\<lparr> stop_flag := b \<rparr>) c = alive s c"
  by (simp_all add: alive_def update_defs)

lemma alive_producer: "alive (put_producer i p s) c \<Longrightarrow> alive s c \<or> producer_refs c p"
  using set_update_subset_insert [of "producers s" i p] by (fastforce simp: alive_def put_producer_def)

lemma alive_worker: "alive (put_worker i w s) c \<Longrightarrow> alive s c \<or> worker_holds c w"
  using set_update_subset_insert [of "workers s" i w] by (fastforce simp: alive_def put_worker_def)

lemma alive_refs:
  "i < length (producers s) \<Longrightarrow> producer_refs c (producers s ! i) \<Longrightarrow> alive s c"
  "i < length (workers s) \<Longrightarrow> worker_holds c (workers s ! i) \<Longrightarrow> alive s c"
  "chains_list s k = Some c \<Longrightarrow> alive s c"
  by (auto simp: alive_def ran_def)

lemma hist_simps [simp]:
  "added_to (es @ [Added d j]) c = added_to es c @ (if d = c then [j] else [])"
  "added_to (es @ [Started d j]) c = added_to es c" "added_to (es @ [Finished d j]) c = added_to es c"
  "started_of (es @ [Started d j]) c = started_of es c @ (if d = c then [j] else [])"
  "started_of (es @ [Added d j]) c = started_of es c" "started_of (es @ [Finished d j]) c = started_of es c"
  "finished_of (es @ [Finished d j]) c = finished_of es c @ (if d = c then [j] else [])"
  "finished_of (es @ [Added d j]) c = finished_of es c" "finished_of (es @ [Started d j]) c = finished_of es c"
  by (simp_all add: added_to_def started_of_def finished_of_def)

lemma pop_ready_split:
  "pop_ready live cs = (r, rest) \<Longrightarrow> (case r of
     None \<Rightarrow> rest = [] \<and> (\<forall>c \<in> set cs. \<not> live c)
   | Some c \<Rightarrow> live c \<and> (\<exists>dead. cs = dead @ c # rest \<and> (\<forall>d \<in> set dead. \<not> live d)))"
proof (induction cs)
  case (Cons d cs)
  then show ?case by (cases "live d") (auto split: option.splits intro: exI [of _ "[]"] exI [of _ "d # _"])
qed simp

section \<open>Every step keeps the invariant\<close>

lemma exec_okD:
  assumes "exec_ok s"
  shows "alive s c \<Longrightarrow> tokens s c \<le> of_bool (tc_pending (chain_obj s c))"
    "alive s c \<Longrightarrow> \<not> stop_flag s \<Longrightarrow> tokens s c = of_bool (tc_pending (chain_obj s c))"
    "\<not> tc_pending (chain_obj s c) \<Longrightarrow> tc_tasks (chain_obj s c) = []"
    "added_to (hist s) c = started_of (hist s) c @ tc_tasks (chain_obj s c)"
    "started_of (hist s) c = finished_of (hist s) c @ running_jobs (workers s) c"
    "next_id s \<le> c \<Longrightarrow> \<not> alive s c" "next_id s \<le> c \<Longrightarrow> c \<notin> set (ready2work s)" "next_id s \<le> c \<Longrightarrow> chain_obj s c = chain_new"
    "inj_on (chains_list s) (dom (chains_list s))"
  using assms by (auto simp: exec_ok_def tokens_ok_def ids_ok_def tasks_ok_def)

text \<open>Workers at one chain: at most one, so that the jobs that run there are its job.\<close>

lemma one_worker:
  assumes "exec_ok s" "alive s c"
  shows "length (filter (worker_holds c) (workers s)) \<le> 1"
  using exec_okD(1) [OF assms] by (cases "tc_pending (chain_obj s c)") (auto simp: tokens_def)

lemma job_of_other: "\<not> worker_holds c w \<Longrightarrow> job_of c w = []"
  by (cases w) auto

lemma running_update:
  assumes "exec_ok s" "i < length (workers s)" "worker_holds c (workers s ! i)" "worker_holds c w \<or> job_of c w = []"
  shows "running_jobs (workers s) c = job_of c (workers s ! i)" "running_jobs ((workers s)[i := w]) c = job_of c w"
  using concat_single [of i "workers s" "worker_holds c" "job_of c" w] one_worker [OF assms(1) alive_refs(2)] assms(2-4)
    job_of_other by (auto simp: running_jobs_def)

lemma running_same:
  "i < length (workers s) \<Longrightarrow> job_of c w = job_of c (workers s ! i) \<Longrightarrow>
    running_jobs ((workers s)[i := w]) c = running_jobs (workers s) c"
  unfolding running_jobs_def by (rule concat_update_same)

lemma ids_okI:
  assumes "exec_ok s"
    and "\<And>c. alive s' c \<Longrightarrow> alive s c" "next_id s' = next_id s"
    and "\<And>c. next_id s \<le> c \<Longrightarrow> chain_obj s' c = chain_obj s c"
    and "\<And>c. c \<in> set (ready2work s') \<Longrightarrow> c \<in> set (ready2work s) \<or> alive s c"
    and "inj_on (chains_list s') (dom (chains_list s'))"
  shows "ids_ok s'"
  unfolding ids_ok_def using exec_okD(6,7,8) [OF assms(1)] assms(2-6) by metis

text \<open>
  A step that touches neither chains nor history: it is enough to look at tokens, living chains and jobs.
\<close>

lemma exec_okI:
  assumes "exec_ok s"
    and "\<And>c. alive s' c \<Longrightarrow> alive s c"
    and "\<And>c. alive s' c \<Longrightarrow> tokens s' c \<le> tokens s c \<and> (\<not> stop_flag s' \<longrightarrow> tokens s' c = tokens s c)"
    and "chain_obj s' = chain_obj s" "hist s' = hist s" "next_id s' = next_id s" "stop_flag s \<longrightarrow> stop_flag s'"
    and "\<And>c. c \<in> set (ready2work s') \<Longrightarrow> c \<in> set (ready2work s) \<or> alive s c"
    and "inj_on (chains_list s') (dom (chains_list s'))"
    and "\<And>c. running_jobs (workers s') c = running_jobs (workers s) c"
  shows "exec_ok s'"
proof -
  have "tokens_ok s'"
    unfolding tokens_ok_def using exec_okD(1,2) [OF assms(1)] assms(2-4,7) by (metis order_trans)
  moreover have "ids_ok s'" by (rule ids_okI [OF assms(1)]) (use assms in auto)
  moreover have "tasks_ok s'"
    unfolding tasks_ok_def using exec_okD(3,4,5) [OF assms(1)] assms(4,5,10) by metis
  ultimately show ?thesis by (simp add: exec_ok_def)
qed

lemma submit_ok:
  assumes "exec_ok s"
  shows "exec_ok (s\<lparr> producers := producers s @ [Lookup k j] \<rparr>)"
  by (rule exec_okI [OF assms]) (auto simp: alive_def tokens_def exec_okD(9) [OF assms])

lemma remove_ok:
  assumes "exec_ok s"
  shows "exec_ok (remove_chain k s)"
proof (rule exec_okI [OF assms])
  show "inj_on (chains_list (remove_chain k s)) (dom (chains_list (remove_chain k s)))"
    using exec_okD(9) [OF assms] by (auto simp: remove_chain_def inj_on_def)
  show "alive s c" if "alive (remove_chain k s) c" for c
    using that by (auto simp: alive_def remove_chain_def ran_def split: if_splits)
qed (auto simp: remove_chain_def)

lemma stop_ok:
  assumes "exec_ok s"
  shows "exec_ok (s\<lparr> stop_flag := True \<rparr>)"
  by (rule exec_okI [OF assms]) (auto simp: exec_okD(9) [OF assms])

lemma lookup_ok:
  assumes "exec_ok s" "i < length (producers s)" "producers s ! i = Lookup k j"
  shows "exec_ok (producer_step i (Lookup k j) s)"
proof (cases "chains_list s k")
  case (Some c)
  have eq: "producer_step i (Lookup k j) s = put_producer i (Adding c j) s" using Some by (simp add: find_chain_def)
  have al: "alive s c" using Some by (rule alive_refs)
  show ?thesis unfolding eq
  proof (rule exec_okI [OF assms(1)])
    show "alive s d" if "alive (put_producer i (Adding c j) s) d" for d using alive_producer [OF that] al by auto
    show "tokens (put_producer i (Adding c j) s) d \<le> tokens s d \<and>
        (\<not> stop_flag (put_producer i (Adding c j) s) \<longrightarrow> tokens (put_producer i (Adding c j) s) d = tokens s d)" for d
      using tokens_producer [OF assms(2), of "Adding c j" d] assms(3) by simp
  qed (auto simp: exec_okD(9) [OF assms(1)])
next
  case None
  let ?n = "next_id s"
  let ?s = "put_producer i (Adding ?n j) (s\<lparr> chains_list := (chains_list s)(k \<mapsto> ?n), next_id := Suc ?n \<rparr>)"
  have fresh: "\<not> alive s ?n" "?n \<notin> set (ready2work s)" "chain_obj s ?n = chain_new" using exec_okD(6-8) [OF assms(1)] by auto
  have "(chain_obj s)(?n := chain_new) = chain_obj s" using fresh(3) by auto
  then have eq: "producer_step i (Lookup k j) s = ?s" using None by (simp add: find_chain_def update_defs)
  have al: "alive s d \<or> d = ?n" if "alive ?s d" for d
    using alive_producer [OF that] None by (auto simp: alive_def)
  have tk: "tokens ?s d = tokens s d" for d
    using tokens_producer [of i "s\<lparr> chains_list := (chains_list s)(k \<mapsto> ?n), next_id := Suc ?n \<rparr>" "Adding ?n j" d] assms(2,3)
    by simp
  have readies_refs: "readies ?n p \<Longrightarrow> producer_refs ?n p" for p :: "('a, 'b) producer" by (cases p) auto
  have tn: "tokens s ?n = 0"
    using fresh(1,2) readies_refs by (auto simp: tokens_def alive_def filter_empty_conv count_list_0_iff)
  have "tokens_ok ?s"
    unfolding tokens_ok_def tk
  proof (intro allI impI)
    fix d assume "alive ?s d"
    then have "alive s d \<or> d = ?n" by (rule al)
    then show "tokens s d \<le> of_bool (tc_pending (chain_obj ?s d)) \<and>
        (\<not> stop_flag ?s \<longrightarrow> tokens s d = of_bool (tc_pending (chain_obj ?s d)))"
      using tn fresh(3) exec_okD(1,2) [OF assms(1)] by (elim disjE) (simp_all add: chain_new_def)
  qed
  moreover have "ids_ok ?s"
    unfolding ids_ok_def
  proof (intro conjI allI impI)
    fix d assume "next_id ?s \<le> d"
    then have d: "?n \<le> d" "d \<noteq> ?n" by simp_all
    then show "\<not> alive ?s d" using al exec_okD(6) [OF assms(1)] by blast
    show "d \<notin> set (ready2work ?s)" "chain_obj ?s d = chain_new"
      using d exec_okD(7,8) [OF assms(1)] by simp_all
  next
    have "chains_list s k' \<noteq> Some ?n" for k' using alive_refs(3) [of s k' ?n] fresh(1) by blast
    then show "inj_on (chains_list ?s) (dom (chains_list ?s))"
      using exec_okD(9) [OF assms(1)] by (auto simp: inj_on_def)
  qed
  moreover have "tasks_ok ?s" using assms(1) by (simp add: exec_ok_def tasks_ok_def)
  ultimately show ?thesis unfolding eq by (simp add: exec_ok_def)
qed

lemma adding_ok:
  fixes s :: "('k, 'j) pool_state"
  assumes "exec_ok s" "i < length (producers s)" "producers s ! i = Adding c j"
  shows "exec_ok (producer_step i (Adding c j) s)"
proof -
  have al: "alive s c" using alive_refs(1) [OF assms(2)] assms(3) by simp
  let ?p = "(if tc_pending (chain_obj s c) then Done else Readying c) :: ('k, 'j) producer"
  let ?ch = "\<lparr> tc_tasks = tc_tasks (chain_obj s c) @ [j], tc_pending = True \<rparr>"
  let ?s = "note_event (Added c j) (put_producer i ?p (put_chain c ?ch s))"
  have eq: "producer_step i (Adding c j) s = ?s"
    by (cases "chain_obj s c") (auto simp: chain_add_task_def)
  have al': "alive s d" if "alive ?s d" for d
    using alive_producer [of i ?p "put_chain c ?ch s" d] that al by (auto split: if_splits)
  have tk: "tokens ?s d = tokens s d + of_bool (readies d ?p)" for d
    using tokens_producer [of i "put_chain c ?ch s" ?p d] assms(2,3) by (simp add: put_chain_def)
  have "tokens_ok ?s"
    unfolding tokens_ok_def tk
  proof (intro allI impI)
    fix d assume "alive ?s d"
    then have "alive s d" by (rule al')
    then show "tokens s d + of_bool (readies d ?p) \<le> of_bool (tc_pending (chain_obj ?s d)) \<and>
        (\<not> stop_flag ?s \<longrightarrow> tokens s d + of_bool (readies d ?p) = of_bool (tc_pending (chain_obj ?s d)))"
      using exec_okD(1,2) [OF assms(1), of d] by (cases "d = c"; cases "tc_pending (chain_obj s c)") simp_all
  qed
  moreover have "ids_ok ?s"
  proof -
    have "next_id s \<le> d \<Longrightarrow> d \<noteq> c" for d using al exec_okD(6) [OF assms(1)] by blast
    then show ?thesis by (intro ids_okI [OF assms(1) al']) (auto simp: exec_okD(9) [OF assms(1)])
  qed
  moreover have "tasks_ok ?s"
    using exec_okD(3,4,5) [OF assms(1)] unfolding tasks_ok_def by simp
  ultimately show ?thesis unfolding eq by (simp add: exec_ok_def)
qed

lemma readying_ok:
  assumes "exec_ok s" "i < length (producers s)" "producers s ! i = Readying c"
  shows "exec_ok (producer_step i (Readying c) s)"
proof -
  let ?s = "put_producer i Done (s\<lparr> ready2work := ready2work s @ [c] \<rparr>)"
  have al: "alive s c" using alive_refs(1) [OF assms(2)] assms(3) by simp
  have "tokens ?s d = tokens s d" for d
    using tokens_producer [of i "s\<lparr> ready2work := ready2work s @ [c] \<rparr>" Done d] assms(2,3) by simp
  moreover have "alive s d" if "alive ?s d" for d using alive_producer [OF that] by simp
  ultimately show ?thesis unfolding producer_step.simps
    by (intro exec_okI [OF assms(1)]) (use al in \<open>auto simp: exec_okD(9) [OF assms(1)]\<close>)
qed

text \<open>The steps of a worker.\<close>

lemma exit_ok:
  assumes "exec_ok s" "i < length (workers s)" "stop_flag s" "\<And>c. job_of c (workers s ! i) = []"
  shows "exec_ok (put_worker i Exited s)"
proof (rule exec_okI [OF assms(1)])
  show "alive s d" if "alive (put_worker i Exited s) d" for d using alive_worker [OF that] by simp
  show "tokens (put_worker i Exited s) d \<le> tokens s d \<and>
      (\<not> stop_flag (put_worker i Exited s) \<longrightarrow> tokens (put_worker i Exited s) d = tokens s d)" for d
    using tokens_worker [OF assms(2), of Exited d] assms(3) by simp
  show "running_jobs (workers (put_worker i Exited s)) d = running_jobs (workers s) d" for d
    using running_same [of i s d Exited] assms(2,4) by simp
qed (use assms in \<open>auto simp: exec_okD(9) [OF assms(1)]\<close>)

lemma pop_ok:
  assumes "exec_ok s" "i < length (workers s)" "workers s ! i = Waiting" "\<not> stop_flag s"
  shows "exec_ok (worker_step i Waiting s)"
proof -
  obtain r rest where p: "pop_ready (alive s) (ready2work s) = (r, rest)" by fastforce
  note sp = pop_ready_split [OF p]
  show ?thesis
  proof (cases r)
    case None
    then have eq: "worker_step i Waiting s = s\<lparr> ready2work := [] \<rparr>" using sp p assms(4) by (simp add: pop_chain_def)
    have "tokens (s\<lparr> ready2work := [] \<rparr>) c = tokens s c" if "alive s c" for c
      using sp None that by (auto simp: tokens_def count_list_0_iff)
    then show ?thesis unfolding eq by (intro exec_okI [OF assms(1)]) (auto simp: exec_okD(9) [OF assms(1)])
  next
    case (Some c)
    then obtain dead where d: "alive s c" "ready2work s = dead @ c # rest" "\<forall>d \<in> set dead. \<not> alive s d" using sp by auto
    let ?s = "put_worker i (Holding c) (s\<lparr> ready2work := rest \<rparr>)"
    have eq: "worker_step i Waiting s = ?s" using Some p assms(4) by (simp add: pop_chain_def)
    have al: "alive s x" if "alive ?s x" for x using alive_worker [OF that] d by auto
    have tk: "tokens ?s x = tokens s x" if "alive s x" for x
    proof -
      have "count_list dead x = 0" using d(3) that by (auto simp: count_list_0_iff)
      then have "tokens s x = tokens (s\<lparr> ready2work := rest \<rparr>) x + of_bool (c = x)" using d(2) by (simp add: tokens_def)
      then show ?thesis
        using tokens_worker [of i "s\<lparr> ready2work := rest \<rparr>" "Holding c" x] assms(2,3) by simp
    qed
    have "running_jobs (workers ?s) x = running_jobs (workers s) x" for x
      using running_same [of i s x "Holding c"] assms(2,3) by simp
    then show ?thesis unfolding eq
      by (intro exec_okI [OF assms(1)]) (use al tk d in \<open>auto simp: exec_okD(9) [OF assms(1)]\<close>)
  qed
qed

text \<open>A worker at a chain takes a job, finishes one, or leaves.\<close>

lemma worker_at_okI:
  assumes "exec_ok s" "i < length (workers s)" "worker_holds c (workers s ! i)" "\<not> stop_flag s \<or> worker_holds c w"
    and s': "s' = put_worker i w (put_chain c ch s)\<lparr> hist := h \<rparr>"
    and w: "\<And>d. worker_holds d w \<Longrightarrow> d = c"
    and "tc_pending ch \<longleftrightarrow> worker_holds c w \<and> tc_pending (chain_obj s c)" "tc_pending ch \<or> tc_tasks ch = []"
    and h: "added_to h c = started_of h c @ tc_tasks ch" "started_of h c = finished_of h c @ job_of c w"
      "\<And>d. d \<noteq> c \<Longrightarrow> added_to h d = added_to (hist s) d \<and> started_of h d = started_of (hist s) d \<and> finished_of h d = finished_of (hist s) d"
  shows "exec_ok s'"
proof -
  have al: "alive s c" by (rule alive_refs(2) [OF assms(2,3)])
  have pend: "tc_pending (chain_obj s c)"
    using exec_okD(1) [OF assms(1) al] filter_update_le [OF assms(2), of "worker_holds c"] assms(3)
    by (cases "tc_pending (chain_obj s c)") (auto simp: tokens_def)
  have al': "alive s d" if "alive s' d" for d
    using that alive_worker [of i w "put_chain c ch s" d] al w unfolding s' by (auto simp: alive_def)
  have tk: "tokens s' d + of_bool (worker_holds d (workers s ! i)) = tokens s d + of_bool (worker_holds d w)" for d
    using tokens_worker [of i "put_chain c ch s" w d] assms(2) unfolding s' by (simp add: tokens_def)
  have other: "\<not> worker_holds d (workers s ! i)" if "d \<noteq> c" for d
    using assms(3) that by (cases "workers s ! i") auto
  have "tokens_ok s'"
    unfolding tokens_ok_def
  proof (intro allI impI)
    fix d assume "alive s' d"
    then have ad: "alive s d" by (rule al')
    show "tokens s' d \<le> of_bool (tc_pending (chain_obj s' d)) \<and>
        (\<not> stop_flag s' \<longrightarrow> tokens s' d = of_bool (tc_pending (chain_obj s' d)))"
    proof (cases "d = c")
      case True
      have "tokens s' c + 1 = tokens s c + of_bool (worker_holds c w)" using tk [of c] assms(3) by simp
      moreover have "chain_obj s' c = ch" "stop_flag s' = stop_flag s" by (simp_all add: s')
      ultimately show ?thesis
        using exec_okD(1,2) [OF assms(1) al] assms(7) pend unfolding True
        by (cases "worker_holds c w") simp_all
    next
      case False
      then have "tokens s' d = tokens s d" using tk [of d] other [of d] w [of d] by (cases "worker_holds d w") auto
      moreover have "chain_obj s' d = chain_obj s d" "stop_flag s' = stop_flag s" using False by (simp_all add: s')
      ultimately show ?thesis using exec_okD(1,2) [OF assms(1) ad] by simp
    qed
  qed
  moreover have "ids_ok s'"
  proof -
    have "next_id s \<le> d \<Longrightarrow> d \<noteq> c" for d using al exec_okD(6) [OF assms(1)] by blast
    then show ?thesis by (intro ids_okI [OF assms(1) al']) (auto simp: s' exec_okD(9) [OF assms(1)])
  qed
  moreover have "tasks_ok s'"
    unfolding tasks_ok_def
  proof
    fix d
    show "(\<not> tc_pending (chain_obj s' d) \<longrightarrow> tc_tasks (chain_obj s' d) = []) \<and>
        added_to (hist s') d = started_of (hist s') d @ tc_tasks (chain_obj s' d) \<and>
        started_of (hist s') d = finished_of (hist s') d @ running_jobs (workers s') d"
    proof (cases "d = c")
      case True
      have "running_jobs ((workers s)[i := w]) c = job_of c w"
        using running_update(2) [OF assms(1-3), of w] job_of_other [of c w] by blast
      then show ?thesis using True assms(8) h(1,2) by (auto simp: s')
    next
      case False
      have "running_jobs (workers s') d = running_jobs (workers s) d"
      proof -
        have "job_of d w = []" "job_of d (workers s ! i) = []" using job_of_other other False w by blast+
        then show ?thesis using running_same [OF assms(2), of d w] by (simp add: s')
      qed
      then show ?thesis using False h(3) exec_okD(3,4,5) [OF assms(1), of d] by (simp add: s')
    qed
  qed
  ultimately show ?thesis by (simp add: exec_ok_def)
qed

lemma holding_ok:
  assumes "exec_ok s" "i < length (workers s)" "workers s ! i = Holding c" "\<not> stop_flag s"
  shows "exec_ok (worker_step i (Holding c) s)"
proof -
  let ?ch = "chain_obj s c"
  have idle: "running_jobs (workers s) c = []" using running_update(1) [OF assms(1,2), of c Waiting] assms(3) by simp
  show ?thesis
  proof (cases "tc_tasks ?ch")
    case Nil
    have eq: "worker_step i (Holding c) s = put_worker i Waiting (put_chain c (?ch\<lparr> tc_pending := False \<rparr>) s)\<lparr> hist := hist s \<rparr>"
      using Nil assms(4) by (simp add: chain_get_task_def update_defs)
    have "started_of (hist s) c = finished_of (hist s) c" "added_to (hist s) c = started_of (hist s) c"
      using exec_okD(4,5) [OF assms(1), of c] Nil unfolding idle by simp_all
    then show ?thesis
      by (intro worker_at_okI [OF assms(1,2) _ _ eq]) (use assms Nil in auto)
  next
    case (Cons j js)
    then have "tc_pending ?ch" using exec_okD(3) [OF assms(1), of c] by auto
    then have eq: "worker_step i (Holding c) s =
        put_worker i (Running c j) (put_chain c (?ch\<lparr> tc_tasks := js \<rparr>) s)\<lparr> hist := hist s @ [Started c j] \<rparr>"
      using Cons assms(4) by (simp add: chain_get_task_def update_defs)
    have "started_of (hist s) c = finished_of (hist s) c" "added_to (hist s) c = started_of (hist s) c @ j # js"
      using exec_okD(4,5) [OF assms(1), of c] Cons unfolding idle by simp_all
    then show ?thesis
      by (intro worker_at_okI [OF assms(1,2) _ _ eq]) (use assms Cons \<open>tc_pending ?ch\<close> in auto)
  qed
qed

lemma running_ok:
  assumes "exec_ok s" "i < length (workers s)" "workers s ! i = Running c j"
  shows "exec_ok (worker_step i (Running c j) s)"
proof -
  let ?ch = "chain_obj s c"
  have job: "running_jobs (workers s) c = [j]" using running_update(1) [OF assms(1,2), of c Waiting] assms(3) by simp
  have eq: "worker_step i (Running c j) s = put_worker i (Holding c) (put_chain c ?ch s)\<lparr> hist := hist s @ [Finished c j] \<rparr>"
    by (simp add: update_defs)
  show ?thesis
    by (rule worker_at_okI [OF assms(1,2) _ _ eq])
      (use assms job exec_okD(3,4,5) [OF assms(1), of c] in auto)
qed

lemma worker_step_ok:
  assumes "exec_ok s" "i < length (workers s)"
  shows "exec_ok (worker_step i (workers s ! i) s)"
proof (cases "workers s ! i")
  case Waiting
  have "exec_ok (worker_step i Waiting s)"
    using assms Waiting pop_ok [of s i] exit_ok [of s i] by (cases "stop_flag s") (simp, blast)
  then show ?thesis unfolding Waiting .
next
  case (Holding c)
  have "exec_ok (worker_step i (Holding c) s)"
    using assms Holding holding_ok [of s i] exit_ok [of s i] by (cases "stop_flag s") (simp, blast)
  then show ?thesis unfolding Holding .
next
  case (Running c j)
  then show ?thesis using assms running_ok [of s i c j] by simp
qed (use assms in simp)

lemma producer_step_ok:
  assumes "exec_ok s" "i < length (producers s)"
  shows "exec_ok (producer_step i (producers s ! i) s)"
proof (cases "producers s ! i")
  case (Lookup k j)
  show ?thesis using lookup_ok [OF assms Lookup] unfolding Lookup .
next
  case (Adding c j)
  show ?thesis using adding_ok [OF assms Adding] unfolding Adding .
next
  case (Readying c)
  show ?thesis using readying_ok [OF assms Readying] unfolding Readying .
qed (use assms in simp)

lemma exec_step_ok: "exec_step s s' \<Longrightarrow> exec_ok s \<Longrightarrow> exec_ok s'"
  by (erule exec_step.cases) (auto intro: submit_ok producer_step_ok worker_step_ok remove_ok stop_ok)

lemma exec_init_ok:
  assumes s: "s = exec_init n"
  shows "exec_ok s"
proof -
  have "\<not> alive s c" for c by (auto simp: alive_def s exec_init_def)
  moreover have "running_jobs (workers s) c = []" for c by (simp add: running_jobs_def s exec_init_def)
  moreover have "chain_obj s c = chain_new" "ready2work s = []" "hist s = []" "chains_list s = Map.empty" for c
    by (simp_all add: s exec_init_def)
  ultimately show ?thesis
    by (simp add: exec_ok_def tokens_ok_def ids_ok_def tasks_ok_def chain_new_def added_to_def started_of_def finished_of_def)
qed

lemma exec_reach_ok: "exec_reach n s \<Longrightarrow> exec_ok s"
  by (induction rule: exec_reach.induct) (auto intro: exec_init_ok exec_step_ok)

section \<open>The work comes to an end\<close>

text \<open>Workers leave their loop only after a stop, and their number does not change.\<close>

lemma length_workers [simp]: "length (workers (worker_step i w s)) = length (workers s)"
  by (cases "(i, w, s)" rule: worker_step.cases)
    (auto simp: pop_chain_def split: prod.splits option.splits bool.splits)

lemma workers_producer [simp]: "workers (producer_step i p s) = workers s" "stop_flag (producer_step i p s) = stop_flag s"
  by (cases "(i, p, s)" rule: producer_step.cases;
      auto simp: find_chain_def chain_add_task_def Let_def split: option.splits prod.splits)+

lemma worker_step_fields [simp]:
  "stop_flag (worker_step i w s) = stop_flag s" "producers (worker_step i w s) = producers s"
  "chains_list (worker_step i w s) = chains_list s" "next_id (worker_step i w s) = next_id s"
  "added_to (hist (worker_step i w s)) = added_to (hist s)"
  by (cases "(i, w, s)" rule: worker_step.cases;
      auto simp: pop_chain_def fun_eq_iff split: prod.splits option.splits bool.splits)+

lemma worker_step_exit: "Exited \<in> set (workers (worker_step i w s)) \<Longrightarrow> Exited \<in> set (workers s) \<or> stop_flag s"
  using set_update_subset_insert [of "workers s" i]
  by (cases "(i, w, s)" rule: worker_step.cases)
    (fastforce simp: pop_chain_def split: prod.splits option.splits bool.splits if_splits)+

lemma exec_reach_workers: "exec_reach n s \<Longrightarrow> length (workers s) = n \<and> (Exited \<in> set (workers s) \<longrightarrow> stop_flag s)"
proof (induction rule: exec_reach.induct)
  case (steps s s')
  from steps.hyps(2) steps.IH show ?case
    by (cases rule: exec_step.cases) (auto dest: worker_step_exit simp: remove_chain_def)
qed (simp add: exec_init_def)

text \<open>A step of a worker that changes something, and how much is left to do.\<close>

definition busy_step :: "('k, 'j) pool_state \<Rightarrow> ('k, 'j) pool_state \<Rightarrow> bool" where
  "busy_step s s' \<longleftrightarrow> (\<exists>i < length (workers s). s' = worker_step i (workers s ! i) s \<and> s' \<noteq> s)"

fun worker_left :: "'j worker \<Rightarrow> nat" where
  "worker_left (Holding c) = 1"
| "worker_left (Running c j) = 2"
| "worker_left _ = 0"

definition work_left :: "('k, 'j) pool_state \<Rightarrow> nat" where
  "work_left s = 2 * (\<Sum>c < next_id s. length (tc_tasks (chain_obj s c))) + 2 * length (ready2work s) +
     sum_list (map worker_left (workers s))"

lemma sum_list_update_left:
  "i < length ws \<Longrightarrow> sum_list (map worker_left (ws[i := w])) + worker_left (ws ! i) = sum_list (map worker_left ws) + worker_left w"
proof (induction ws arbitrary: i)
  case (Cons x ws)
  then show ?case by (cases i) auto
qed simp

lemma sum_tasks_update:
  fixes n :: nat
  assumes "c < n"
  shows "(\<Sum>d < n. length (tc_tasks ((f(c := ch)) d))) + length (tc_tasks (f c)) = (\<Sum>d < n. length (tc_tasks (f d))) + length (tc_tasks ch)"
proof -
  have "(\<Sum>d < n. length (tc_tasks ((f(c := ch)) d))) = length (tc_tasks ch) + (\<Sum>d \<in> {..<n} - {c}. length (tc_tasks (f d)))"
    using assms by (subst sum.remove [of _ c]) auto
  moreover have "(\<Sum>d < n. length (tc_tasks (f d))) = length (tc_tasks (f c)) + (\<Sum>d \<in> {..<n} - {c}. length (tc_tasks (f d)))"
    using assms by (subst sum.remove [of _ c]) auto
  ultimately show ?thesis by simp
qed

lemma work_left_worker:
  "i < length (workers s) \<Longrightarrow> work_left (put_worker i w s) + worker_left (workers s ! i) = work_left s + worker_left w"
  using sum_list_update_left [of i "workers s" w] by (simp add: work_left_def)

lemma work_left_note [simp]: "work_left (note_event e s) = work_left s"
  by (simp add: work_left_def)

lemma work_left_chain:
  "c < next_id s \<Longrightarrow> work_left (put_chain c ch s) + 2 * length (tc_tasks (chain_obj s c)) = work_left s + 2 * length (tc_tasks ch)"
  using sum_tasks_update [of c "next_id s" "chain_obj s" ch] by (simp add: work_left_def)

lemma busy_step_less:
  assumes "exec_ok s" "\<not> stop_flag s" "busy_step s s'"
  shows "work_left s' < work_left s"
proof -
  obtain i where i: "i < length (workers s)" "s' = worker_step i (workers s ! i) s" "s' \<noteq> s"
    using assms(3) by (auto simp: busy_step_def)
  show ?thesis
  proof (cases "workers s ! i")
    case Waiting
    obtain r rest where p: "pop_ready (alive s) (ready2work s) = (r, rest)" by fastforce
    show ?thesis
    proof (cases r)
      case None
      then have "rest = []" "s' = s\<lparr> ready2work := [] \<rparr>"
        using pop_ready_split [OF p] p i assms(2) Waiting by (simp_all add: pop_chain_def)
      then show ?thesis using i(3) by (cases "ready2work s") (auto simp: work_left_def)
    next
      case (Some c)
      then obtain dead where d: "ready2work s = dead @ c # rest" using pop_ready_split [OF p] by auto
      have "s' = put_worker i (Holding c) (s\<lparr> ready2work := rest \<rparr>)"
        using Some p i assms(2) Waiting by (simp add: pop_chain_def)
      then show ?thesis using work_left_worker [of i "s\<lparr> ready2work := rest \<rparr>" "Holding c"] i(1) Waiting d
        by (simp add: work_left_def)
    qed
  next
    case (Holding c)
    have "alive s c" using alive_refs(2) [OF i(1)] Holding by simp
    then have c: "c < next_id s" using exec_okD(6) [OF assms(1), of c] by (meson not_le)
    show ?thesis
    proof (cases "tc_tasks (chain_obj s c)")
      case Nil
      then have "s' = put_worker i Waiting (put_chain c ((chain_obj s c)\<lparr> tc_pending := False \<rparr>) s)"
        using i(2) Holding assms(2) by (simp add: chain_get_task_def)
      then show ?thesis
        using work_left_worker [of i "put_chain c ((chain_obj s c)\<lparr> tc_pending := False \<rparr>) s" Waiting]
          work_left_chain [OF c, of "(chain_obj s c)\<lparr> tc_pending := False \<rparr>"] i(1) Holding by simp
    next
      case (Cons j js)
      then have "s' = note_event (Started c j) (put_worker i (Running c j) (put_chain c ((chain_obj s c)\<lparr> tc_tasks := js \<rparr>) s))"
      proof -
        have "tc_pending (chain_obj s c)" using exec_okD(3) [OF assms(1), of c] Cons by auto
        then show ?thesis using i(2) Holding assms(2) Cons by (simp add: chain_get_task_def)
      qed
      then show ?thesis
        using work_left_worker [of i "put_chain c ((chain_obj s c)\<lparr> tc_tasks := js \<rparr>) s" "Running c j"]
          work_left_chain [OF c, of "(chain_obj s c)\<lparr> tc_tasks := js \<rparr>"] i(1) Holding Cons by simp
    qed
  next
    case (Running c j)
    then show ?thesis using work_left_worker [OF i(1), of "Holding c"] i(2) by simp
  qed (use i in simp)
qed

text \<open>When no worker can do anything, all of them wait and there is no work in any chain.\<close>

lemma idle_state:
  assumes "\<not> stop_flag s" "\<forall>s'. \<not> busy_step s s'" "Exited \<notin> set (workers s)" "workers s \<noteq> []"
  shows "ready2work s = [] \<and> (\<forall>w \<in> set (workers s). w = Waiting)"
proof -
  have same: "worker_step i (workers s ! i) s = s" if "i < length (workers s)" for i
    using assms(2) that by (auto simp: busy_step_def)
  have w: "workers s ! i = Waiting" if i: "i < length (workers s)" for i
  proof (cases "workers s ! i")
    case (Holding c)
    have "worker_step i (workers s ! i) s \<noteq> s"
    proof
      assume *: "worker_step i (workers s ! i) s = s"
      then have "workers (worker_step i (workers s ! i) s) ! i = Holding c" using Holding by simp
      then show False using i Holding assms(1) by (auto simp: chain_get_task_def split: list.splits bool.splits)
    qed
    then show ?thesis using same i by blast
  next
    case (Running c j)
    then have "workers (worker_step i (workers s ! i) s) ! i = Holding c" using i by simp
    then show ?thesis unfolding same [OF i] using Running by simp
  next
    case Exited
    then show ?thesis using assms(3) i nth_mem by metis
  qed simp
  have "0 < length (workers s)" using assms(4) by simp
  then have p: "worker_step 0 Waiting s = s" using same [of 0] w [of 0] by simp
  have "ready2work s = []"
  proof (rule ccontr)
    assume ne: "ready2work s \<noteq> []"
    obtain r rest where pr: "pop_ready (alive s) (ready2work s) = (r, rest)" by fastforce
    have "length rest < length (ready2work s)"
      using pop_ready_split [OF pr] ne by (cases r) auto
    moreover have "ready2work (worker_step 0 Waiting s) = rest"
      using pr assms(1) by (cases r) (simp_all add: pop_chain_def)
    ultimately show False using p by simp
  qed
  then show ?thesis using w by (auto simp: in_set_conv_nth)
qed

section \<open>Properties\<close>

lemma filter_unique:
  assumes "length (filter P xs) \<le> 1" "i < length xs" "j < length xs" "P (xs ! i)" "P (xs ! j)"
  shows "i = j"
proof -
  have "card {k. k < length xs \<and> P (xs ! k)} \<le> Suc 0" using assms(1) by (simp add: length_filter_conv_card)
  moreover have "finite {k. k < length xs \<and> P (xs ! k)}" by simp
  ultimately show ?thesis using assms(2-5) by (simp add: card_le_Suc0_iff_eq)
qed

lemma running_cases:
  assumes "exec_ok s"
  shows "running_jobs (workers s) c = [] \<or> (\<exists>j. running_jobs (workers s) c = [j] \<and> Running c j \<in> set (workers s))"
proof (cases "\<exists>i < length (workers s). \<exists>j. workers s ! i = Running c j")
  case True
  then obtain i j where "i < length (workers s)" "workers s ! i = Running c j" by blast
  then show ?thesis using running_update(1) [OF assms, of i c Waiting] nth_mem [of i "workers s"] by auto
next
  case False
  have "job_of c w = []" if "w \<in> set (workers s)" for w
    using False that by (cases w) (auto simp: in_set_conv_nth)
  then show ?thesis by (simp add: running_jobs_def)
qed

text \<open>
  C26. Whatever the interleaving of the threads, of jobs being added, of keys being removed and of a stop: no two
  workers are at the chain of one key at the same time; the jobs of a chain are started in the order in which they
  were added, none twice and none left out; a job is started only when the one before it is finished; and the
  chains in the map belong to different keys.
\<close>

theorem chain_pool_order:
  assumes "exec_reach n s"
  shows "(\<forall>i j c. i < length (workers s) \<and> j < length (workers s) \<and> worker_holds c (workers s ! i) \<and>
      worker_holds c (workers s ! j) \<longrightarrow> i = j) \<and>
    (\<forall>c. added_to (hist s) c = started_of (hist s) c @ tc_tasks (chain_obj s c)) \<and>
    (\<forall>c. started_of (hist s) c = finished_of (hist s) c \<or>
      (\<exists>j. started_of (hist s) c = finished_of (hist s) c @ [j] \<and> Running c j \<in> set (workers s))) \<and>
    inj_on (chains_list s) (dom (chains_list s))"
proof (intro conjI allI impI)
  note ok = exec_reach_ok [OF assms]
  show "i = j" if "i < length (workers s) \<and> j < length (workers s) \<and> worker_holds c (workers s ! i) \<and>
      worker_holds c (workers s ! j)" for i j c
    by (rule filter_unique [of "worker_holds c" "workers s"])
      (use one_worker [OF ok alive_refs(2) [of i]] that in auto)
  show "added_to (hist s) c = started_of (hist s) c @ tc_tasks (chain_obj s c)" for c by (rule exec_okD(4) [OF ok])
  show "started_of (hist s) c = finished_of (hist s) c \<or>
      (\<exists>j. started_of (hist s) c = finished_of (hist s) c @ [j] \<and> Running c j \<in> set (workers s))" for c
    using exec_okD(5) [OF ok, of c] running_cases [OF ok, of c] by fastforce
  show "inj_on (chains_list s) (dom (chains_list s))" by (rule exec_okD(9) [OF ok])
qed

text \<open>A pool of two workers where a job of key 5 has just been added.\<close>

definition one_job :: "(nat, string) pool_state" where
  "one_job = producer_step 0 (Readying 0) (producer_step 0 (Adding 0 ''job'') (producer_step 0 (Lookup 5 ''job'')
     ((exec_init 2)\<lparr> producers := [Lookup 5 ''job''] \<rparr>)))"

lemma one_job_fields:
  "producers one_job = [Done]" "\<not> stop_flag one_job" "added_to (hist one_job) 0 = [''job'']" "chains_list one_job = [5 \<mapsto> 0]"
  by (simp_all add: one_job_def find_chain_def exec_init_def chain_add_task_def chain_new_def update_defs added_to_def)

lemma one_job_reached: "exec_reach 2 one_job"
proof -
  let ?s0 = "(exec_init 2)\<lparr> producers := [Lookup 5 ''job''] \<rparr> :: (nat, string) pool_state"
  let ?s1 = "producer_step 0 (Lookup 5 ''job'') ?s0"
  let ?s2 = "producer_step 0 (Adding 0 ''job'') ?s1"
  have "exec_reach 2 ?s0"
    using exec_reach.steps [OF exec_reach.init submit [of "exec_init 2" 5 "''job''"]] by (simp add: exec_init_def)
  moreover have "exec_step ?s0 ?s1" using produce [of 0 ?s0] by simp
  ultimately have 1: "exec_reach 2 ?s1" by (rule exec_reach.steps)
  have p1: "producers ?s1 = [Adding 0 ''job'']" by (simp add: find_chain_def exec_init_def)
  have "exec_step ?s1 ?s2" using produce [of 0 ?s1] unfolding p1 by simp
  with 1 have 2: "exec_reach 2 ?s2" by (rule exec_reach.steps)
  have p2: "producers ?s2 = [Readying 0]"
    using p1 by (simp add: find_chain_def exec_init_def chain_add_task_def chain_new_def update_defs)
  have "exec_step ?s2 (producer_step 0 (Readying 0) ?s2)" using produce [of 0 ?s2] unfolding p2 by simp
  with 2 show ?thesis unfolding one_job_def by (rule exec_reach.steps)
qed

theorem chain_pool_order_witness:
  "added_to (hist one_job) 0 = started_of (hist one_job) 0 @ tc_tasks (chain_obj one_job 0) \<and> added_to (hist one_job) 0 = [''job'']"
  using chain_pool_order [OF one_job_reached] one_job_fields(3) by blast

lemma busy_reach: "busy_step\<^sup>*\<^sup>* s t \<Longrightarrow> exec_reach n s \<Longrightarrow> exec_reach n t"
  by (induction rule: rtranclp_induct) (auto simp: busy_step_def intro: exec_reach.steps work)

lemma busy_same:
  "busy_step\<^sup>*\<^sup>* s t \<Longrightarrow> stop_flag t = stop_flag s \<and> producers t = producers s \<and> chains_list t = chains_list s \<and>
    added_to (hist t) = added_to (hist s)"
  by (induction rule: rtranclp_induct) (auto simp: busy_step_def)

lemma busy_ends:
  assumes "exec_reach n s" "\<not> stop_flag s"
  shows "\<exists>t. busy_step\<^sup>*\<^sup>* s t \<and> (\<forall>t'. \<not> busy_step t t')"
  using assms
proof (induction "work_left s" arbitrary: s rule: less_induct)
  case less
  show ?case
  proof (cases "\<exists>s'. busy_step s s'")
    case True
    then obtain s' where s': "busy_step s s'" by blast
    have "exec_reach n s'" "\<not> stop_flag s'"
      using busy_reach [of s s' n] busy_same [of s s'] s' less.prems by (auto intro: r_into_rtranclp)
    then obtain t where "busy_step\<^sup>*\<^sup>* s' t" "\<forall>t'. \<not> busy_step t t'"
      using less.hyps [OF busy_step_less [OF exec_reach_ok [OF less.prems(1)] less.prems(2) s']] by blast
    then show ?thesis using s' by (meson converse_rtranclp_into_rtranclp)
  qed blast
qed

lemma no_decreasing_nats: "\<not> (\<forall>i. f (Suc i) < (f i :: nat))"
  using wf_iff_no_infinite_down_chain [of "less_than"] by (auto simp: wf_less_than)

text \<open>
  C27. The work comes to an end and all of it is done: from any reachable state in which no thread is adding a job and
  nobody stops the pool, the workers cannot go on taking steps for ever, and when none of them has anything to do,
  every job added to the chain of a key in the map has been executed.
\<close>

theorem chain_pool_finishes:
  assumes "exec_reach n s" "\<not> stop_flag s" "0 < n" "\<forall>p \<in> set (producers s). p = Done"
  shows "(\<nexists>f. f 0 = s \<and> (\<forall>i. busy_step (f i) (f (Suc i)))) \<and>
    (\<forall>t. busy_step\<^sup>*\<^sup>* s t \<and> (\<forall>t'. \<not> busy_step t t') \<longrightarrow> chains_list t = chains_list s \<and>
      (\<forall>c \<in> ran (chains_list t). finished_of (hist t) c = added_to (hist t) c \<and> added_to (hist t) c = added_to (hist s) c))"
proof (intro conjI allI impI ballI notI)
  assume "\<exists>f. f 0 = s \<and> (\<forall>i. busy_step (f i) (f (Suc i)))"
  then obtain f where f: "f 0 = s" "\<And>i. busy_step (f i) (f (Suc i))" by blast
  have run: "busy_step\<^sup>*\<^sup>* s (f i)" for i
    by (induction i) (use f in \<open>auto intro: rtranclp.rtrancl_into_rtrancl\<close>)
  have "work_left (f (Suc i)) < work_left (f i)" for i
    using busy_step_less [OF exec_reach_ok [OF busy_reach [OF run assms(1)]] _ f(2)] busy_same [OF run [of i]] assms(2) by simp
  then show False using no_decreasing_nats [of "\<lambda>i. work_left (f i)"] by blast
next
  fix t
  assume t: "busy_step\<^sup>*\<^sup>* s t \<and> (\<forall>t'. \<not> busy_step t t')"
  note same = busy_same [OF t [THEN conjunct1]] and reach = busy_reach [OF t [THEN conjunct1] assms(1)]
  show "chains_list t = chains_list s" using same by blast
  fix c assume c: "c \<in> ran (chains_list t)"
  have ws: "workers t \<noteq> []" "Exited \<notin> set (workers t)" using exec_reach_workers [OF reach] assms(2,3) same by auto
  have idle: "ready2work t = []" "\<forall>w \<in> set (workers t). w = Waiting"
    using idle_state [OF _ _ ws(2,1)] t same assms(2) by simp_all
  have "filter (worker_holds c) (workers t) = []" "filter (readies c) (producers t) = []" "running_jobs (workers t) c = []"
    using idle(2) same assms(4) by (auto simp: filter_empty_conv running_jobs_def)
  then have "tokens t c = 0" using idle(1) by (simp add: tokens_def)
  moreover have "alive t c" using c by (simp add: alive_def)
  ultimately have "\<not> tc_pending (chain_obj t c)"
    using exec_okD(2) [OF exec_reach_ok [OF reach], of c] same assms(2) by auto
  then have "tc_tasks (chain_obj t c) = []" by (rule exec_okD(3) [OF exec_reach_ok [OF reach]])
  then show "finished_of (hist t) c = added_to (hist t) c" "added_to (hist t) c = added_to (hist s) c"
    using exec_okD(4,5) [OF exec_reach_ok [OF reach], of c] same \<open>running_jobs (workers t) c = []\<close> by simp_all
qed

theorem chain_pool_finishes_witness:
  "\<exists>t. busy_step\<^sup>*\<^sup>* one_job t \<and> (\<forall>t'. \<not> busy_step t t') \<and> finished_of (hist t) 0 = [''job'']"
proof -
  obtain t where t: "busy_step\<^sup>*\<^sup>* one_job t" "\<forall>t'. \<not> busy_step t t'"
    using busy_ends [OF one_job_reached one_job_fields(2)] by blast
  then have "chains_list t = chains_list one_job \<and> (\<forall>c \<in> ran (chains_list t).
      finished_of (hist t) c = added_to (hist t) c \<and> added_to (hist t) c = added_to (hist one_job) c)"
    using chain_pool_finishes [OF one_job_reached] by (simp add: one_job_fields)
  then have "finished_of (hist t) 0 = [''job'']" using one_job_fields(3,4) by auto
  then show ?thesis using t by blast
qed

end
