(* ===== verification/Sdk_Thread_Pool.thy ===== *)
theory Sdk_Thread_Pool
  imports Sdk_Prelude "HOL-Library.Multiset"
begin

text \<open>
  \<^verbatim>\<open>tools/thread_pool.hpp\<close>: tasks are added, later released by \<^verbatim>\<open>run_task\<close>, and run by the threads of the pool. A step
  is what a thread does under a lock or with one atomic operation; the steps of all threads interleave. A task in the
  list is an object clients have a pointer to; \<open>ready\<close> is its flag, which the code keeps inverted. The event may be
  missed: the threads wait for it one second at most. One pool is modelled, with its counter of identifiers; in the code the
  counter is a static variable that all pools of a type share, so that with several of them the identifiers of one are
  not consecutive.
\<close>

section \<open>Tasks\<close>

record ('f, 'c) task =
  tk_id :: nat
  tk_func :: "'f option"
  tk_ready :: bool
  tk_cbs :: "'c list"
  tk_blocked :: bool

definition task_default :: "('f, 'c) task" where
  "task_default = \<lparr> tk_id = 0, tk_func = None, tk_ready = False, tk_cbs = [], tk_blocked = False \<rparr>"

definition task_new :: "nat \<Rightarrow> 'f \<Rightarrow> ('f, 'c) task" where
  "task_new task_id_global f =
    \<lparr> tk_id = Suc task_id_global, tk_func = Some f, tk_ready = False, tk_cbs = [], tk_blocked = False \<rparr>"

definition task_run :: "('f, 'c) task \<Rightarrow> ('f, 'c) task" where
  "task_run t = t\<lparr> tk_ready := True \<rparr>"

definition swap_and_block :: "'c list \<Rightarrow> ('f, 'c) task \<Rightarrow> bool \<times> 'c list \<times> ('f, 'c) task" where
  "swap_and_block cbs t = (if \<not> tk_blocked t then (True, tk_cbs t, t\<lparr> tk_cbs := cbs, tk_blocked := True \<rparr>) else (False, cbs, t))"

definition add_cb :: "'c option \<Rightarrow> ('f, 'c) task \<Rightarrow> bool \<times> ('f, 'c) task" where
  "add_cb f t = (case f of None \<Rightarrow> (False, t)
     | Some c \<Rightarrow> if \<not> tk_blocked t then (True, t\<lparr> tk_cbs := tk_cbs t @ [c] \<rparr>) else (False, t))"

definition task_clear :: "('f, 'c) task \<Rightarrow> ('f, 'c) task" where
  "task_clear t = t\<lparr> tk_func := None, tk_cbs := [] \<rparr>"

text \<open>\<^verbatim>\<open>t.swap(c)\<close>: both tasks afterwards. The flag of \<open>c\<close> is tested and set, so that \<open>c\<close> is not ready.\<close>

definition task_swap :: "('f, 'c) task \<Rightarrow> ('f, 'c) task \<Rightarrow> ('f, 'c) task \<times> ('f, 'c) task" where
  "task_swap t c = (c, t\<lparr> tk_ready := False \<rparr>)"

text \<open>
  Callbacks: those added before the task is blocked are handed out, in order; afterwards none is accepted.
\<close>

fun add_cbs :: "'c list \<Rightarrow> ('f, 'c) task \<Rightarrow> ('f, 'c) task" where
  "add_cbs [] t = t"
| "add_cbs (c # cs) t = add_cbs cs (snd (add_cb (Some c) t))"

lemma add_cbs_unblocked: "\<not> tk_blocked t \<Longrightarrow> add_cbs cs t = t\<lparr> tk_cbs := tk_cbs t @ cs \<rparr>"
  by (induction cs arbitrary: t) (simp_all add: add_cb_def)

lemma callbacks_handed_out:
  assumes "swap_and_block [] (add_cbs cs (task_new n f)) = (ok, out, t)"
  shows "ok \<and> out = cs \<and> add_cb (Some c) t = (False, t) \<and> swap_and_block ds t = (False, ds, t)"
proof -
  have "add_cbs cs (task_new n f) = (task_new n f)\<lparr> tk_cbs := cs \<rparr>" using add_cbs_unblocked [of "task_new n f" cs] by (simp add: task_new_def)
  then have "(ok, out, t) = (True, cs, (task_new n f)\<lparr> tk_cbs := [], tk_blocked := True \<rparr>)"
    using assms by (simp add: swap_and_block_def task_new_def)
  then show ?thesis by (simp add: add_cb_def swap_and_block_def task_new_def)
qed

section \<open>The pool\<close>

datatype e_worker_state = k_ws_initing | k_ws_working | k_ws_exit

text \<open>Where the thread of a context is, with its \<^verbatim>\<open>active_task\<close>; \<open>Absent\<close> when there is none.\<close>

datatype ('f, 'c) thread_at = Absent | Initing | Idle "('f, 'c) task" | Draining "('f, 'c) task" | Executing "('f, 'c) task"
  | Checking "('f, 'c) task" | Left

record ('f, 'c) tpool =
  tp_tasks :: "('f, 'c) task list"
  tp_state :: "e_worker_state list"
  tp_threads :: "('f, 'c) thread_at list"
  tp_have_task :: bool
  task_id_global :: nat
  tp_requested :: "nat list"
  tp_finished :: "nat list"

definition tp_new :: "nat \<Rightarrow> ('f, 'c) tpool" where
  "tp_new pool_size = \<lparr> tp_tasks = [], tp_state = replicate pool_size k_ws_initing, tp_threads = replicate pool_size Absent,
     tp_have_task = False, task_id_global = 0, tp_requested = [], tp_finished = [] \<rparr>"

definition add_task :: "'f \<Rightarrow> ('f, 'c) tpool \<Rightarrow> nat \<times> ('f, 'c) tpool" where
  "add_task f s = (let t = task_new (task_id_global s) f in
     (tk_id t, s\<lparr> tp_tasks := tp_tasks s @ [t], task_id_global := Suc (task_id_global s) \<rparr>))"

text \<open>\<^verbatim>\<open>run_task\<close> on a task that is in the list; the event is set in a step of its own.\<close>

definition run_task :: "nat \<Rightarrow> ('f, 'c) tpool \<Rightarrow> ('f, 'c) tpool" where
  "run_task i s = s\<lparr> tp_tasks := map (\<lambda>t. if tk_id t = i then task_run t else t) (tp_tasks s), tp_requested := tp_requested s @ [i] \<rparr>"

fun pop_task :: "('f, 'c) task \<Rightarrow> ('f, 'c) task list \<Rightarrow> bool \<times> ('f, 'c) task \<times> ('f, 'c) task list" where
  "pop_task f [] = (False, f, [])"
| "pop_task f (t # ts) =
     (if tk_ready t then (True, snd (task_swap t f), ts)
      else case pop_task f ts of (found, f, ts) \<Rightarrow> (found, f, t # ts))"

definition put_thread :: "nat \<Rightarrow> ('f, 'c) thread_at \<Rightarrow> ('f, 'c) tpool \<Rightarrow> ('f, 'c) tpool" where
  "put_thread ix w s = s\<lparr> tp_threads := (tp_threads s)[ix := w] \<rparr>"

definition put_state :: "nat \<Rightarrow> e_worker_state \<Rightarrow> ('f, 'c) tpool \<Rightarrow> ('f, 'c) tpool" where
  "put_state ix st s = s\<lparr> tp_state := (tp_state s)[ix := st] \<rparr>"

text \<open>
  One step of \<^verbatim>\<open>_thread_worker\<close>. Waiting ends with the event or without it; the weak exchange may end the first
  loop at any time. An exception of the function is caught, so that running ends like returning.
\<close>

fun thread_step :: "nat \<Rightarrow> ('f, 'c) thread_at \<Rightarrow> ('f, 'c) tpool \<Rightarrow> ('f, 'c) tpool" where
  "thread_step ix Initing s = put_thread ix (Idle task_default) s"
| "thread_step ix (Idle active) s = put_thread ix (Draining active) (s\<lparr> tp_have_task := False \<rparr>)"
| "thread_step ix (Draining active) s = (case pop_task active (tp_tasks s) of (found, active, tasks) \<Rightarrow>
     put_thread ix (if found then Executing active else Checking active) (s\<lparr> tp_tasks := tasks \<rparr>))"
| "thread_step ix (Executing active) s =
     put_thread ix (Draining (task_clear active)) (s\<lparr> tp_finished := tp_finished s @ [tk_id active] \<rparr>)"
| "thread_step ix (Checking active) s = put_thread ix (if tp_state s ! ix = k_ws_working then Idle active else Left) s"
| "thread_step ix w s = s"

text \<open>The steps of \<^verbatim>\<open>init\<close> and \<^verbatim>\<open>deinit\<close> for one context, of clients, and of the threads.\<close>

inductive pool_step :: "('f, 'c) tpool \<Rightarrow> ('f, 'c) tpool \<Rightarrow> bool" where
  create: "ix < length (tp_threads s) \<Longrightarrow> tp_threads s ! ix = Absent \<Longrightarrow>
    pool_step s (put_thread ix Initing (put_state ix k_ws_initing s))"
| start: "tp_threads s ! ix \<noteq> Absent \<Longrightarrow> pool_step s (put_state ix k_ws_working s)"
| deinit: "pool_step s (put_state ix k_ws_exit s)"
| join: "ix < length (tp_threads s) \<Longrightarrow> tp_threads s ! ix = Left \<Longrightarrow> pool_step s (put_thread ix Absent s)"
| add: "pool_step s (snd (add_task f s))"
| run: "i \<in> tk_id ` set (tp_tasks s) \<Longrightarrow> pool_step s (run_task i s)"
| signal: "pool_step s (s\<lparr> tp_have_task := True \<rparr>)"
| thread: "ix < length (tp_threads s) \<Longrightarrow> pool_step s (thread_step ix (tp_threads s ! ix) s)"

inductive pool_reach :: "nat \<Rightarrow> ('f, 'c) tpool \<Rightarrow> bool" for n where
  new: "pool_reach n (tp_new n)"
| steps: "pool_reach n s \<Longrightarrow> pool_step s s' \<Longrightarrow> pool_reach n s'"

section \<open>The invariant\<close>

fun task_of :: "('f, 'c) thread_at \<Rightarrow> nat list" where
  "task_of (Executing t) = [tk_id t]"
| "task_of _ = []"

definition executing :: "('f, 'c) tpool \<Rightarrow> nat multiset" where
  "executing s = mset (concat (map task_of (tp_threads s)))"

definition ready_ids :: "('f, 'c) task list \<Rightarrow> nat set" where
  "ready_ids ts = tk_id ` {t \<in> set ts. tk_ready t}"

definition issued :: "nat \<Rightarrow> nat multiset" where
  "issued n = mset_set {1..n}"

lemma issued_simps [simp]: "issued 0 = {#}" "issued (Suc n) = add_mset (Suc n) (issued n)"
  by (simp_all add: issued_def atLeastAtMostSuc_conv)

text \<open>Every number up to the last belongs to one task, which is in the list, running, or done.\<close>

definition tpool_ok :: "('f, 'c) tpool \<Rightarrow> bool" where
  "tpool_ok s \<longleftrightarrow> mset (map tk_id (tp_tasks s)) + executing s + mset (tp_finished s) = issued (task_id_global s) \<and>
     set (tp_requested s) = ready_ids (tp_tasks s) \<union> set_mset (executing s) \<union> set (tp_finished s)"

lemma executing_put:
  "ix < length (tp_threads s) \<Longrightarrow> executing (put_thread ix w s) + mset (task_of (tp_threads s ! ix)) = executing s + mset (task_of w)"
proof -
  have "mset (concat (map f (xs[i := y]))) + mset (f (xs ! i)) = mset (concat (map f xs)) + mset (f y)" if "i < length xs"
    for f :: "('a, 'b) thread_at \<Rightarrow> nat list" and xs i y
    using that
  proof (induction xs arbitrary: i)
    case (Cons x xs)
    then show ?case by (cases i) (simp_all add: ac_simps)
  qed simp
  then show "ix < length (tp_threads s) \<Longrightarrow> ?thesis" by (simp add: executing_def put_thread_def)
qed

lemma pop_task_split:
  "pop_task f ts = (found, f', rest) \<Longrightarrow>
    (if found then \<exists>pre t post. ts = pre @ t # post \<and> rest = pre @ post \<and> tk_ready t \<and> f' = t\<lparr> tk_ready := False \<rparr> \<and> ready_ids pre = {}
     else rest = ts \<and> f' = f \<and> ready_ids ts = {})"
proof (induction ts arbitrary: rest)
  case (Cons t ts)
  show ?case
  proof (cases "tk_ready t")
    case True
    then show ?thesis using Cons.prems by (intro if_splits(2) [THEN iffD2]) (auto simp: task_swap_def ready_ids_def intro: exI [of _ "[]"])
  next
    case False
    obtain r1 where p: "pop_task f ts = (found, f', r1)" "rest = t # r1"
      using Cons.prems False by (cases "pop_task f ts") auto
    have e: "ready_ids (t # us) = ready_ids us" for us using False by (auto simp: ready_ids_def)
    show ?thesis
    proof (cases found)
      case True
      obtain pre t0 post where "ts = pre @ t0 # post" "r1 = pre @ post" "tk_ready t0" "f' = t0\<lparr> tk_ready := False \<rparr>" "ready_ids pre = {}"
        using Cons.IH [OF p(1)] True by auto
      then show ?thesis using True p(2) e [of pre] by (auto intro!: exI [of _ "t # pre"])
    next
      case False
      then show ?thesis using Cons.IH [OF p(1)] p(2) e [of ts] by simp
    qed
  qed
qed (simp add: ready_ids_def)

lemma executing_frame [simp]:
  "executing (put_state ix st s) = executing s" "executing (s\<lparr> tp_tasks := ts \<rparr>) = executing s"
  "executing (s\<lparr> tp_have_task := b \<rparr>) = executing s" "executing (s\<lparr> tp_finished := fs \<rparr>) = executing s"
  "executing (snd (add_task f s)) = executing s" "executing (run_task i s) = executing s"
  by (simp_all add: executing_def put_state_def add_task_def run_task_def Let_def)

lemma put_fields [simp]:
  "tp_tasks (put_thread ix w s) = tp_tasks s" "tp_finished (put_thread ix w s) = tp_finished s"
  "tp_requested (put_thread ix w s) = tp_requested s" "task_id_global (put_thread ix w s) = task_id_global s"
  "tp_threads (put_thread ix w s) = (tp_threads s)[ix := w]" "tp_state (put_thread ix w s) = tp_state s"
  "tp_tasks (put_state ix st s) = tp_tasks s" "tp_finished (put_state ix st s) = tp_finished s"
  "tp_requested (put_state ix st s) = tp_requested s" "task_id_global (put_state ix st s) = task_id_global s"
  "tp_threads (put_state ix st s) = tp_threads s" "tp_state (put_state ix st s) = (tp_state s)[ix := st]"
  by (simp_all add: put_thread_def put_state_def)

text \<open>A thread that changes its place without a task.\<close>

lemma tpool_ok_move:
  assumes "tpool_ok s" "ix < length (tp_threads s)" "task_of w = task_of (tp_threads s ! ix)"
    and "tp_tasks s' = tp_tasks s" "tp_finished s' = tp_finished s" "tp_requested s' = tp_requested s"
    and "task_id_global s' = task_id_global s" "tp_threads s' = tp_threads s"
  shows "tpool_ok (put_thread ix w s')"
proof -
  have "executing (put_thread ix w s') = executing s"
    using executing_put [of ix s' w] assms by (simp add: executing_def)
  then show ?thesis using assms by (simp add: tpool_ok_def)
qed

lemma ready_ids_append: "ready_ids (xs @ ys) = ready_ids xs \<union> ready_ids ys"
  by (auto simp: ready_ids_def)

lemma ready_ids_Cons: "ready_ids (t # ts) = (if tk_ready t then {tk_id t} else {}) \<union> ready_ids ts"
  by (auto simp: ready_ids_def)

lemma tpool_ok_thread:
  assumes "tpool_ok s" "ix < length (tp_threads s)"
  shows "tpool_ok (thread_step ix (tp_threads s ! ix) s)"
proof (cases "tp_threads s ! ix")
  case (Draining active)
  obtain found f ts where p: "pop_task active (tp_tasks s) = (found, f, ts)" by (cases "pop_task active (tp_tasks s)")
  show ?thesis
  proof (cases found)
    case True
    obtain pre t post where t: "tp_tasks s = pre @ t # post" "ts = pre @ post" "tk_ready t" "f = t\<lparr> tk_ready := False \<rparr>" "ready_ids pre = {}"
      using pop_task_split [OF p] True by auto
    have e: "executing (put_thread ix (Executing f) (s\<lparr> tp_tasks := ts \<rparr>)) = add_mset (tk_id t) (executing s)"
      using executing_put [of ix "s\<lparr> tp_tasks := ts \<rparr>" "Executing f"] assms(2) Draining t(4) by simp
    have "ready_ids (tp_tasks s) = insert (tk_id t) (ready_ids ts)"
      unfolding t(1,2) ready_ids_append ready_ids_Cons using t(3) by simp
    then show ?thesis using assms(1) p True t(1,2) e Draining by (simp add: tpool_ok_def)
  next
    case False
    then have "ts = tp_tasks s" using pop_task_split [OF p] by simp
    then show ?thesis using False p Draining by (simp add: tpool_ok_move [OF assms])
  qed
next
  case (Executing active)
  let ?s = "s\<lparr> tp_finished := tp_finished s @ [tk_id active] \<rparr>"
  have "add_mset (tk_id active) (executing (put_thread ix (Draining (task_clear active)) ?s)) = executing s"
    using executing_put [of ix ?s "Draining (task_clear active)"] assms(2) Executing by simp
  then have "executing s = add_mset (tk_id active) (executing (put_thread ix (Draining (task_clear active)) ?s))" by simp
  then show ?thesis using assms(1) Executing by (simp add: tpool_ok_def)
qed (simp_all add: tpool_ok_move [OF assms] assms(1))

lemma map_id_run: "map tk_id (map (\<lambda>t. if tk_id t = i then task_run t else t) ts) = map tk_id ts"
  by (simp add: task_run_def)

lemma ready_ids_run:
  "ready_ids (map (\<lambda>t. if tk_id t = i then task_run t else t) ts) = ready_ids ts \<union> ({i} \<inter> tk_id ` set ts)"
proof (induction ts)
  case (Cons t ts)
  then show ?case by (auto simp: ready_ids_Cons task_run_def)
qed (simp add: ready_ids_def)

lemma tpool_ok_step: "pool_step s s' \<Longrightarrow> tpool_ok s \<Longrightarrow> tpool_ok s'"
proof (induction rule: pool_step.induct)
  case (add s f)
  have "executing (s\<lparr> tp_tasks := ts, task_id_global := n \<rparr>) = executing s" for ts n by (simp add: executing_def)
  moreover have "ready_ids (tp_tasks s @ [task_new n f]) = ready_ids (tp_tasks s)" for n
    by (auto simp: ready_ids_def task_new_def)
  ultimately show ?case using add by (simp add: tpool_ok_def add_task_def Let_def) (simp add: task_new_def)
next
  case (run i s)
  have "mset (map tk_id (tp_tasks (run_task i s))) = mset (map tk_id (tp_tasks s))"
    using arg_cong [OF map_id_run [of i "tp_tasks s"], of mset] by (simp add: run_task_def del: map_map mset_map)
  moreover have "ready_ids (tp_tasks (run_task i s)) = insert i (ready_ids (tp_tasks s))"
    using ready_ids_run [of i "tp_tasks s"] run(1) by (simp add: run_task_def)
  ultimately show ?case using run(2) by (simp add: tpool_ok_def) (simp add: run_task_def)
next
  case (thread ix s)
  then show ?case by (intro tpool_ok_thread)
next
  case (create ix s)
  then show ?case by (intro tpool_ok_move [of s]) (simp_all add: tpool_ok_def)
next
  case (join ix s)
  then show ?case by (intro tpool_ok_move [of s]) simp_all
qed (simp_all add: tpool_ok_def)

lemma tpool_ok_reach: "pool_reach n s \<Longrightarrow> tpool_ok s"
proof (induction rule: pool_reach.induct)
  case new
  show ?case by (simp add: tpool_ok_def tp_new_def executing_def ready_ids_def)
qed (rule tpool_ok_step)


section \<open>A working thread\<close>

fun thread_run :: "nat \<Rightarrow> nat \<Rightarrow> ('f, 'c) tpool \<Rightarrow> ('f, 'c) tpool" where
  "thread_run 0 ix s = s"
| "thread_run (Suc n) ix s = thread_run n ix (thread_step ix (tp_threads s ! ix) s)"

lemma thread_run_add: "thread_run (m + n) ix s = thread_run n ix (thread_run m ix s)"
  by (induction m arbitrary: s) simp_all

lemma thread_step_frame:
  "tp_state (thread_step ix w s) = tp_state s \<and> tp_requested (thread_step ix w s) = tp_requested s \<and>
   length (tp_threads (thread_step ix w s)) = length (tp_threads s) \<and>
   (jx \<noteq> ix \<longrightarrow> tp_threads (thread_step ix w s) ! jx = tp_threads s ! jx)"
  by (cases "(ix, w, s)" rule: thread_step.cases) (simp_all add: put_thread_def split: prod.splits)

lemma thread_run_frame:
  "tp_state (thread_run n ix s) = tp_state s \<and> tp_requested (thread_run n ix s) = tp_requested s \<and>
   length (tp_threads (thread_run n ix s)) = length (tp_threads s) \<and>
   (jx \<noteq> ix \<longrightarrow> tp_threads (thread_run n ix s) ! jx = tp_threads s ! jx)"
proof (induction n arbitrary: s)
  case (Suc n)
  then show ?case using thread_step_frame [of ix "tp_threads s ! ix" s jx] by simp
qed simp

lemma tpool_ok_run: "tpool_ok s \<Longrightarrow> ix < length (tp_threads s) \<Longrightarrow> tpool_ok (thread_run n ix s)"
proof (induction n arbitrary: s)
  case (Suc n)
  then show ?case using tpool_ok_thread [of s ix] thread_step_frame [of ix "tp_threads s ! ix" s] by simp
qed simp

text \<open>A thread that looks for tasks takes one after the other until none is ready.\<close>

lemma thread_drain:
  "ix < length (tp_threads s) \<Longrightarrow> tp_threads s ! ix = Draining a \<Longrightarrow>
    \<exists>k b. k \<le> 2 * length (tp_tasks s) + 1 \<and> tp_threads (thread_run k ix s) ! ix = Checking b \<and> ready_ids (tp_tasks (thread_run k ix s)) = {}"
proof (induction "length (tp_tasks s)" arbitrary: s a rule: less_induct)
  case less
  obtain found f ts where p: "pop_task a (tp_tasks s) = (found, f, ts)" by (cases "pop_task a (tp_tasks s)")
  show ?case
  proof (cases found)
    case True
    let ?s1 = "thread_step ix (Draining a) s" and ?s2 = "thread_run 2 ix s"
    have "length (tp_tasks s) = Suc (length ts)" using pop_task_split [OF p] True by auto
    moreover have s2: "?s2 = put_thread ix (Draining (task_clear f)) (put_thread ix (Executing f) (s\<lparr> tp_tasks := ts \<rparr>)
        \<lparr> tp_finished := tp_finished s @ [tk_id f] \<rparr>)"
      using less.prems p True by (simp add: numeral_2_eq_2)
    ultimately have l: "length (tp_tasks ?s2) < length (tp_tasks s)" "ix < length (tp_threads ?s2)" "tp_threads ?s2 ! ix = Draining (task_clear f)"
      "Suc (length (tp_tasks ?s2)) = length (tp_tasks s)"
      using less.prems(1) by (simp_all add: s2)
    obtain k b where k: "k \<le> 2 * length (tp_tasks ?s2) + 1" "tp_threads (thread_run k ix ?s2) ! ix = Checking b"
      "ready_ids (tp_tasks (thread_run k ix ?s2)) = {}" using less.hyps [OF l(1-3)] by blast
    moreover have "thread_run (2 + k) ix s = thread_run k ix ?s2" by (rule thread_run_add)
    ultimately show ?thesis using l(4) by (intro exI [of _ "2 + k"] exI [of _ b]) (simp del: thread_run.simps add_2_eq_Suc)
  next
    case False
    then have "thread_run 1 ix s = put_thread ix (Checking f) (s\<lparr> tp_tasks := ts \<rparr>)" "ready_ids ts = {}"
      using less.prems p pop_task_split [OF p] by simp_all
    then show ?thesis using less.prems(1) by (intro exI [of _ 1] exI [of _ f]) simp
  qed
qed

lemma reach_draining:
  assumes "ix < length (tp_threads s)" "tp_threads s ! ix \<noteq> Absent" "tp_threads s ! ix \<noteq> Left" "tp_state s ! ix = k_ws_working"
  shows "\<exists>k a. k \<le> 2 \<and> tp_threads (thread_run k ix s) ! ix = Draining a \<and> tp_tasks (thread_run k ix s) = tp_tasks s"
proof (cases "tp_threads s ! ix")
  case Initing
  then show ?thesis using assms by (intro exI [of _ 2] exI [of _ task_default]) (simp add: numeral_2_eq_2)
next
  case (Idle a)
  then show ?thesis using assms by (intro exI [of _ 1] exI [of _ a]) simp
next
  case (Draining a)
  then show ?thesis by (intro exI [of _ 0] exI [of _ a]) simp
next
  case (Executing a)
  then show ?thesis using assms by (intro exI [of _ 1] exI [of _ "task_clear a"]) simp
next
  case (Checking a)
  then show ?thesis using assms by (intro exI [of _ 2] exI [of _ a]) (simp add: numeral_2_eq_2)
qed (use assms in simp_all)

section \<open>Properties\<close>

text \<open>A pool of one thread, started, and with one task that has been released.\<close>

definition demo_started :: "(nat, nat) tpool" where
  "demo_started = put_state 0 k_ws_working (put_thread 0 Initing (put_state 0 k_ws_initing (tp_new 1)))"

definition demo_pool :: "(nat, nat) tpool" where
  "demo_pool = run_task 1 (snd (add_task 7 demo_started))"

lemma reach_thread: "pool_reach n s \<Longrightarrow> ix < length (tp_threads s) \<Longrightarrow> pool_reach n (thread_run k ix s)"
proof (induction k arbitrary: s)
  case (Suc k)
  then show ?case using pool_reach.steps [OF Suc.prems(1) pool_step.thread [OF Suc.prems(2)]] thread_step_frame [of ix "tp_threads s ! ix" s]
    by simp
qed simp

lemma reach_released:
  assumes "pool_reach n s"
  shows "pool_reach n (run_task (Suc (task_id_global s)) (snd (add_task f s)))"
proof -
  have "pool_reach n (snd (add_task f s))" by (rule pool_reach.steps [OF assms pool_step.add])
  then show ?thesis by (rule pool_reach.steps) (rule pool_step.run, simp add: add_task_def Let_def task_new_def)
qed

lemma demo_reach: "pool_reach 1 demo_started" "pool_reach 1 demo_pool"
proof -
  have "pool_reach 1 (put_thread 0 Initing (put_state 0 k_ws_initing (tp_new 1)) :: (nat, nat) tpool)"
    by (rule pool_reach.steps [OF pool_reach.new pool_step.create]) (simp_all add: tp_new_def)
  then show s: "pool_reach 1 demo_started" unfolding demo_started_def
    by (rule pool_reach.steps) (rule pool_step.start, simp add: tp_new_def)
  then show "pool_reach 1 demo_pool" using reach_released [OF s, of 7] by (simp add: demo_pool_def) (simp add: demo_started_def tp_new_def)
qed

lemmas demo_simps = demo_pool_def demo_started_def tp_new_def add_task_def run_task_def task_run_def task_new_def Let_def

text \<open>
  C38. However the threads interleave, every task is in the list of the pool, run by one thread, or done, and it is so
  once; it is run or done only after \<^verbatim>\<open>run_task\<close> has been called for it, and after that call it is never lost while it
  waits.
\<close>

theorem thread_pool_once:
  assumes "pool_reach n s"
  shows "mset (map tk_id (tp_tasks s)) + executing s + mset (tp_finished s) = mset_set {1..task_id_global s} \<and>
    set (tp_requested s) = ready_ids (tp_tasks s) \<union> set_mset (executing s) \<union> set (tp_finished s)"
  using tpool_ok_reach [OF assms] by (simp add: tpool_ok_def issued_def)

theorem thread_pool_once_witness:
  "mset (map tk_id (tp_tasks demo_pool)) + executing demo_pool + mset (tp_finished demo_pool) = mset_set {1..1} \<and>
   set (tp_requested demo_pool) = {1}"
proof -
  have g: "task_id_global demo_pool = 1" "tp_requested demo_pool = [1]" by (simp_all add: demo_simps)
  show ?thesis using conjunct1 [OF thread_pool_once [OF demo_reach(2)]] unfolding g by simp
qed

text \<open>
  C39. Tasks get done: from any state that can be reached, a thread whose context is working, wherever it is, needs at
  most two steps for each task in the list and three more until no released task waits: each of them is done, or
  another thread is at it.
\<close>

theorem thread_pool_finishes:
  assumes "pool_reach n s" "ix < length (tp_threads s)" "tp_threads s ! ix \<noteq> Absent" "tp_threads s ! ix \<noteq> Left"
    and "tp_state s ! ix = k_ws_working"
  shows "\<exists>k \<le> 2 * length (tp_tasks s) + 3. ready_ids (tp_tasks (thread_run k ix s)) = {} \<and>
    (\<forall>i \<in> set (tp_requested s). i \<in> set (tp_finished (thread_run k ix s)) \<or>
      (\<exists>jx < length (tp_threads s). jx \<noteq> ix \<and> i \<in> set (task_of (tp_threads s ! jx))))"
proof -
  obtain k1 a where k1: "k1 \<le> 2" "tp_threads (thread_run k1 ix s) ! ix = Draining a" "tp_tasks (thread_run k1 ix s) = tp_tasks s"
    using reach_draining [OF assms(2-5)] by blast
  let ?s1 = "thread_run k1 ix s"
  have "ix < length (tp_threads ?s1)" using assms(2) thread_run_frame [of k1 ix s] by simp
  then obtain k2 b where k2: "k2 \<le> 2 * length (tp_tasks s) + 1" "tp_threads (thread_run k2 ix ?s1) ! ix = Checking b"
    "ready_ids (tp_tasks (thread_run k2 ix ?s1)) = {}" using thread_drain [of ix ?s1 a] k1(2,3) by auto
  let ?s' = "thread_run (k1 + k2) ix s"
  have s': "tp_threads ?s' ! ix = Checking b" "ready_ids (tp_tasks ?s') = {}" using k2 by (simp_all add: thread_run_add)
  have ok: "tpool_ok ?s'" by (rule tpool_ok_run [OF tpool_ok_reach [OF assms(1)] assms(2)])
  have fr: "tp_requested ?s' = tp_requested s" "length (tp_threads ?s') = length (tp_threads s)"
    "jx \<noteq> ix \<Longrightarrow> tp_threads ?s' ! jx = tp_threads s ! jx" for jx
    using thread_run_frame [of "k1 + k2" ix s] by simp_all
  have "i \<in> set (tp_finished ?s') \<or> (\<exists>jx < length (tp_threads s). jx \<noteq> ix \<and> i \<in> set (task_of (tp_threads s ! jx)))"
    if "i \<in> set (tp_requested s)" for i
  proof (cases "i \<in> set (tp_finished ?s')")
    case False
    then have "i \<in># executing ?s'" using ok that s'(2) fr(1) by (auto simp: tpool_ok_def)
    then obtain w where "w \<in> set (tp_threads ?s')" "i \<in> set (task_of w)" by (auto simp: executing_def)
    then obtain jx where jx: "jx < length (tp_threads s)" "i \<in> set (task_of (tp_threads ?s' ! jx))"
      using fr(2) by (auto simp: in_set_conv_nth)
    then have "jx \<noteq> ix" using s'(1) by auto
    then show ?thesis using jx fr(3) by auto
  qed simp
  then show ?thesis using s'(2) k1(1) k2(1) by (intro exI [of _ "k1 + k2"]) auto
qed

theorem thread_pool_finishes_witness:
  "\<exists>k \<le> 5. ready_ids (tp_tasks (thread_run k 0 demo_pool)) = {} \<and> 1 \<in> set (tp_finished (thread_run k 0 demo_pool))"
  using thread_pool_finishes [OF demo_reach(2), of 0] by (auto simp: demo_simps)

text \<open>
  A thread that has found no task and not yet looked at its state does not see a task that is released before the
  pool is shut down: it leaves, and the task stays in the list.
\<close>

lemma task_left_behind:
  "\<exists>s :: (nat, nat) tpool. pool_reach 1 s \<and> tp_threads s = [Left] \<and> ready_ids (tp_tasks s) = {1}"
proof -
  let ?s1 = "thread_run 3 0 demo_started"
  let ?s2 = "run_task (Suc (task_id_global ?s1)) (snd (add_task 7 ?s1))"
  let ?s3 = "put_state 0 k_ws_exit ?s2"
  have "0 < length (tp_threads demo_started)" by (simp add: demo_simps)
  then have "pool_reach 1 ?s1" by (rule reach_thread [OF demo_reach(1)])
  from reach_released [OF this, of 7] have "pool_reach 1 ?s3" by (rule pool_reach.steps) (rule pool_step.deinit)
  then have r: "pool_reach 1 (thread_run 1 0 ?s3)" by (rule reach_thread) (simp add: demo_simps numeral_3_eq_3)
  have "tp_threads (thread_run 1 0 ?s3) = [Left]" "ready_ids (tp_tasks (thread_run 1 0 ?s3)) = {1}"
    by (simp_all add: demo_simps numeral_3_eq_3 put_thread_def put_state_def ready_ids_Cons) (simp add: ready_ids_def)
  then show ?thesis using r by blast
qed

end
