(* ===== verification/Sdk_Hash.thy ===== *)
theory Sdk_Hash
  imports Sdk_Prelude
begin

unbundle bit_operations_syntax

text \<open>
  \<^verbatim>\<open>tools/hash.hpp\<close>: the FNV-1a hashes of 64 and 32 bits, and the MD5 of a block in hexadecimal digits. The
  digest itself is a parameter.
\<close>

section \<open>Hashes\<close>

definition fnv1a_step :: "'w::len word \<Rightarrow> u8 \<Rightarrow> 'w word \<Rightarrow> 'w word" where
  "fnv1a_step prime b r = (r XOR ucast b) * prime"

definition fnv1a_hash_bytes :: "u8 list \<Rightarrow> u64" where
  "fnv1a_hash_bytes bs = fold (fnv1a_step 1099511628211) bs 14695981039346656037"

definition fnv1a_hash_bytes_32 :: "u8 list \<Rightarrow> u32" where
  "fnv1a_hash_bytes_32 bs = fold (fnv1a_step 16777619) bs 2166136261"

text \<open>\<^verbatim>\<open>sprintf\<close> with the format for a byte in two hexadecimal digits; it ends with a zero.\<close>

definition hex_digit :: "nat \<Rightarrow> u8" where
  "hex_digit n = word_of_nat (if n < 10 then 48 + n else 87 + n)"

definition sprintf_02x :: "u8 \<Rightarrow> u8 list" where
  "sprintf_02x b = [hex_digit (unat b div 16), hex_digit (unat b mod 16), 0]"

fun md5_print :: "nat \<Rightarrow> u8 list \<Rightarrow> u8 list \<Rightarrow> u8 list option" where
  "md5_print ix [] out = Some out"
| "md5_print ix (b # bs) out = do { out \<leftarrow> put_at (ix * 2) (sprintf_02x b) out; md5_print (Suc ix) bs out }"

definition md5 :: "(u8 list \<Rightarrow> u8 list) \<Rightarrow> u8 list \<Rightarrow> u8 list \<Rightarrow> u8 list option" where
  "md5 MD5 src out = md5_print 0 (MD5 src) out"

text \<open>What \<^verbatim>\<open>md5\<close> leaves in the buffer: two digits per byte, each pair ended by a zero that the next one covers.\<close>

definition hex_of :: "u8 \<Rightarrow> u8 list" where
  "hex_of b = [hex_digit (unat b div 16), hex_digit (unat b mod 16)]"

lemma length_hex [simp]: "length (concat (map hex_of bs)) = 2 * length bs"
  by (induction bs) (simp_all add: hex_of_def)

lemma md5_print_eq:
  assumes "length pre = ix * 2" "2 * length bs + 1 \<le> length out"
  shows "\<exists>z. md5_print ix bs (pre @ out) = Some (pre @ concat (map hex_of bs) @ z # drop (2 * length bs + 1) out) \<and>
    (bs \<noteq> [] \<longrightarrow> z = 0)"
  using assms
proof (induction bs arbitrary: ix pre out)
  case Nil
  then show ?case by (cases out) auto
next
  case (Cons b bs)
  have p: "put_at (ix * 2) (sprintf_02x b) (pre @ out) = Some ((pre @ hex_of b) @ 0 # drop 3 out)"
    using Cons.prems by (subst put_at_append) (auto simp: sprintf_02x_def hex_of_def numeral_3_eq_3)
  obtain z where z: "md5_print (Suc ix) bs ((pre @ hex_of b) @ 0 # drop 3 out) =
      Some ((pre @ hex_of b) @ concat (map hex_of bs) @ z # drop (2 * length bs + 1) (0 # drop 3 out))" "bs \<noteq> [] \<longrightarrow> z = 0"
  proof -
    have len: "length (pre @ hex_of b) = Suc ix * 2" "2 * length bs + 1 \<le> length (0 # drop 3 out)"
      using Cons.prems by (simp_all add: hex_of_def)
    show thesis using Cons.IH [OF len] that by blast
  qed
  show ?case
  proof (cases "bs = []")
    case True
    then show ?thesis using p by simp
  next
    case False
    then show ?thesis using p z by (auto simp: numeral_3_eq_3)
  qed
qed

lemma md5_hex:
  assumes "length (MD5 src) = 16" "33 \<le> length out"
  shows "md5 MD5 src out = Some (concat (map hex_of (MD5 src)) @ 0 # drop 33 out)"
proof -
  have "MD5 src \<noteq> []" using assms(1) by auto
  then show ?thesis using md5_print_eq [of "[]" 0 "MD5 src" out] assms by (auto simp: md5_def)
qed

end
