(* ===== verification/Sdk_Dataport.thy ===== *)
theory Sdk_Dataport
  imports Lzo_Memops Sdk_Hash
begin

unbundle bit_operations_syntax

text \<open>
  \<^verbatim>\<open>dataport/dataport_direct.hpp\<close>: a file of records, each a header with hash and size in
  front of its data. The file is opened with \<^verbatim>\<open>a+\<close>, so that writing appends. What the C library decides is an
  argument: whether the file can be opened, how many bytes of a block get written, which sizes a vector may
  be given. A read that fails for another reason than the end of the file is not modelled, nor is another process that
  changes the file. The files stay below \<open>2\<^sup>6\<^sup>3\<close> bytes.
\<close>

section \<open>The file\<close>

datatype edata_error = ok | open_file_failed | invalid_arg | write_operation_failed | read_operation_failed
  | memory_resize_failed | invalid_hash | set_file_position_failed

record message_header =
  mh_hash :: u64
  mh_size :: u64

record dataport =
  db_bytes :: "u8 list"
  db_opened :: bool

text \<open>The byte order of the machine, and the answers of the library.\<close>

record io_env =
  io_big :: bool
  fopen_ok :: bool
  fwrite_bytes :: nat
  resize_max :: nat

definition int_bytes :: "bool \<Rightarrow> u64 \<Rightarrow> u8 list" where
  "int_bytes big v = (if big then rev (le_bytes 8 (unat v)) else le_bytes 8 (unat v))"

definition bytes_int :: "bool \<Rightarrow> u8 list \<Rightarrow> u64" where
  "bytes_int big bs = word_of_nat (le_val (if big then rev bs else bs))"

definition header_bytes :: "bool \<Rightarrow> message_header \<Rightarrow> u8 list" where
  "header_bytes big h = int_bytes big (mh_hash h) @ int_bytes big (mh_size h)"

definition bytes_header :: "bool \<Rightarrow> u8 list \<Rightarrow> message_header" where
  "bytes_header big bs = \<lparr> mh_hash = bytes_int big (take 8 bs), mh_size = bytes_int big (take 8 (drop 8 bs)) \<rparr>"

definition data_format :: "bool \<Rightarrow> message_header \<Rightarrow> u8 list \<Rightarrow> u8 list \<Rightarrow> u8 list option" where
  "data_format big header data out = do {
     let out = resize_bytes (16 + length data) out;
     out \<leftarrow> put_at 0 (header_bytes big header) out;
     put_at 16 data out }"

definition database_open :: "io_env \<Rightarrow> dataport \<Rightarrow> edata_error \<times> dataport" where
  "database_open io s = (if db_opened s then (ok, s)
     else if fopen_ok io then (ok, s\<lparr> db_opened := True \<rparr>) else (open_file_failed, s))"

text \<open>\<open>buf\<close> is what the buffer from the cache holds; \<^verbatim>\<open>header\<close> refers into it.\<close>

definition database_write :: "io_env \<Rightarrow> u8 list \<Rightarrow> message_header \<Rightarrow> u8 list \<Rightarrow> dataport \<Rightarrow>
    (edata_error \<times> nat \<times> dataport) option" where
  "database_write io buf msg_header data s = do {
     let buf = resize_bytes 16 buf;
     buf \<leftarrow> put_at 8 (int_bytes (io_big io) (word_of_nat (length data))) buf;
     buf \<leftarrow> put_at 0 (int_bytes (io_big io) (fnv1a_hash_bytes data)) buf;
     buf \<leftarrow> data_format (io_big io) msg_header data buf;
     let addr = length (db_bytes s);
     let s = s\<lparr> db_bytes := db_bytes s @ take (fwrite_bytes io) buf \<rparr>;
     Some (if length buf \<le> fwrite_bytes io then ok else write_operation_failed, addr, s) }"

text \<open>\<^verbatim>\<open>fread\<close> of one block of \<open>n\<close> bytes over \<open>t\<close>: whether it was read whole, and what is in memory then.\<close>

definition fread_block :: "nat \<Rightarrow> u8 list \<Rightarrow> u8 list \<Rightarrow> bool \<times> u8 list" where
  "fread_block n t bs = (n > 0 \<and> n \<le> length bs, take n bs @ drop (length (take n bs)) t)"

definition database_read :: "io_env \<Rightarrow> int \<Rightarrow> u8 list \<Rightarrow> dataport \<Rightarrow> edata_error \<times> u8 list" where
  "database_read io addr data s =
     (if addr < 0 then (set_file_position_failed, data)
      else let rest = drop (nat addr) (db_bytes s) in
        if length rest < 16 then (read_operation_failed, data)
        else let header = bytes_header (io_big io) (take 16 rest); n = unat (mh_size header) in
          if n > resize_max io then (memory_resize_failed, data)
          else case fread_block n (resize_bytes n data) (drop 16 rest) of (whole, data) \<Rightarrow>
            (if \<not> whole then read_operation_failed
             else if fnv1a_hash_bytes data = mh_hash header then ok else invalid_hash, data))"

definition dp_add :: "io_env \<Rightarrow> u8 list \<Rightarrow> u8 list \<Rightarrow> nat \<Rightarrow> dataport \<Rightarrow> (edata_error \<times> nat \<times> dataport) option" where
  "dp_add io buf data addr s = (if data = [] then Some (invalid_arg, addr, s)
     else case database_open io s of
         (ok, s) \<Rightarrow> database_write io buf \<lparr> mh_hash = 0, mh_size = 0 \<rparr> data s
       | (e, s) \<Rightarrow> Some (e, addr, s))"

definition dp_get :: "io_env \<Rightarrow> int \<Rightarrow> u8 list \<Rightarrow> dataport \<Rightarrow> edata_error \<times> u8 list \<times> dataport" where
  "dp_get io addr data s = (if addr = 0 then (invalid_arg, data, s)
     else case database_open io s of
         (ok, s) \<Rightarrow> (case database_read io addr data s of (e, data) \<Rightarrow> (e, data, s))
       | (e, s) \<Rightarrow> (e, data, s))"

section \<open>Records\<close>

text \<open>What a record is meant to be: a header that describes the data behind it.\<close>

definition record_bytes :: "bool \<Rightarrow> u8 list \<Rightarrow> u8 list" where
  "record_bytes big d = header_bytes big \<lparr> mh_hash = fnv1a_hash_bytes d, mh_size = word_of_nat (length d) \<rparr> @ d"

lemma length_int_bytes [simp]: "length (int_bytes big v) = 8"
  by (simp add: int_bytes_def)

lemma bytes_int_bytes [simp]: "bytes_int big (int_bytes big v) = v"
proof -
  have "unat v < 2 ^ 64" using unsigned_less [of v] by simp
  then have "unat v mod 256 ^ 8 = unat v" by simp
  then show ?thesis by (simp add: bytes_int_def int_bytes_def le_val_le_bytes)
qed

lemma int_bytes_int: "length bs = 8 \<Longrightarrow> int_bytes big (bytes_int big bs) = bs"
proof -
  assume l: "length bs = 8"
  have *: "le_bytes 8 (unat (word_of_nat (le_val xs) :: u64)) = xs" if "length xs = 8" for xs
  proof -
    have "le_val xs < 256 ^ 8" using le_val_less [of xs] that by simp
    then have "unat (word_of_nat (le_val xs) :: u64) = le_val xs" by (simp add: unat_of_nat)
    moreover have "le_val (le_bytes 8 (le_val xs)) = le_val xs" using \<open>le_val xs < 256 ^ 8\<close> by (simp add: le_val_le_bytes)
    ultimately show ?thesis using le_val_inj [of "le_bytes 8 (le_val xs)" xs] that by simp
  qed
  then show ?thesis using l by (simp add: int_bytes_def bytes_int_def)
qed

lemma bytes_header_bytes [simp]: "bytes_header big (header_bytes big h) = h"
  by (simp add: bytes_header_def header_bytes_def)

lemma header_bytes_header: "length bs = 16 \<Longrightarrow> header_bytes big (bytes_header big bs) = bs"
  by (simp add: header_bytes_def bytes_header_def int_bytes_int)

lemma length_header_bytes [simp]: "length (header_bytes big h) = 16"
  by (simp add: header_bytes_def)

text \<open>What \<^verbatim>\<open>get\<close> finds at an address: the header, and as many bytes as it says.\<close>

definition header_at :: "io_env \<Rightarrow> u8 list \<Rightarrow> message_header" where
  "header_at io rest = bytes_header (io_big io) (take 16 rest)"

lemma database_read_eq:
  assumes "0 \<le> addr" "rest = drop (nat addr) (db_bytes s)" "n = unat (mh_size (header_at io rest))"
  shows "database_read io addr t s = (ok, d) \<longleftrightarrow> 16 \<le> length rest \<and> n \<le> resize_max io \<and> 0 < n \<and> n \<le> length rest - 16 \<and>
    d = take n (drop 16 rest) \<and> fnv1a_hash_bytes d = mh_hash (header_at io rest)"
proof -
  have f: "fread_block n (resize_bytes n t) (drop 16 rest) = (True, take n (drop 16 rest))" if "0 < n" "n \<le> length rest - 16"
    using that by (simp add: fread_block_def)
  have nf: "fst (fread_block n (resize_bytes n t) (drop 16 rest)) = (0 < n \<and> n \<le> length rest - 16)"
    by (simp add: fread_block_def)
  have "database_read io addr t s =
      (if length rest < 16 then (read_operation_failed, t)
       else if n > resize_max io then (memory_resize_failed, t)
       else case fread_block n (resize_bytes n t) (drop 16 rest) of (whole, data) \<Rightarrow>
         (if \<not> whole then read_operation_failed
          else if fnv1a_hash_bytes data = mh_hash (header_at io rest) then ok else invalid_hash, data))"
    using assms by (simp only: database_read_def Let_def header_at_def not_less [symmetric] if_False)
  moreover have "(case fread_block n (resize_bytes n t) (drop 16 rest) of (whole, data) \<Rightarrow>
         (if \<not> whole then read_operation_failed
          else if fnv1a_hash_bytes data = mh_hash (header_at io rest) then ok else invalid_hash, data)) = (ok, d) \<longleftrightarrow>
      0 < n \<and> n \<le> length rest - 16 \<and> d = take n (drop 16 rest) \<and> fnv1a_hash_bytes d = mh_hash (header_at io rest)"
    using f nf by (cases "0 < n \<and> n \<le> length rest - 16") (auto split: prod.splits)
  ultimately show ?thesis by auto
qed

lemma database_read_ok:
  assumes "0 \<le> addr"
  shows "database_read io addr t s = (ok, d) \<longleftrightarrow>
    d \<noteq> [] \<and> length d \<le> resize_max io \<and> length d < 2 ^ 64 \<and>
    (\<exists>pre post. db_bytes s = pre @ record_bytes (io_big io) d @ post \<and> length pre = nat addr)"
  (is "?L \<longleftrightarrow> ?R")
proof
  assume L: ?L
  define rest where "rest = drop (nat addr) (db_bytes s)"
  define n where "n = unat (mh_size (header_at io rest))"
  have r: "16 \<le> length rest" "n \<le> resize_max io" "0 < n" "n \<le> length rest - 16" "d = take n (drop 16 rest)"
    "fnv1a_hash_bytes d = mh_hash (header_at io rest)"
    using L unfolding database_read_eq [OF assms rest_def n_def] by blast+
  then have len: "length d = n" by simp
  then have "header_at io rest = \<lparr> mh_hash = fnv1a_hash_bytes d, mh_size = word_of_nat (length d) \<rparr>"
    using r(6) n_def by (cases "header_at io rest") simp
  then have "take 16 rest = header_bytes (io_big io) \<lparr> mh_hash = fnv1a_hash_bytes d, mh_size = word_of_nat (length d) \<rparr>"
    using header_bytes_header [of "take 16 rest" "io_big io"] r(1) by (simp add: header_at_def)
  then have "rest = record_bytes (io_big io) d @ drop n (drop 16 rest)"
    unfolding record_bytes_def r(5) by (metis append.assoc append_take_drop_id)
  then have "db_bytes s = take (nat addr) (db_bytes s) @ record_bytes (io_big io) d @ drop n (drop 16 rest)"
    unfolding rest_def by (metis append_take_drop_id)
  moreover have "length (take (nat addr) (db_bytes s)) = nat addr" using r(1) by (simp add: rest_def)
  moreover have "d \<noteq> []" "length d \<le> resize_max io" using len r(2,3) by auto
  moreover have "length d < 2 ^ 64" using len n_def unsigned_less [of "mh_size (header_at io rest)"] by simp
  ultimately show ?R by blast
next
  assume ?R
  then obtain pre post where d: "d \<noteq> []" "length d \<le> resize_max io" "length d < 2 ^ 64"
    "db_bytes s = pre @ record_bytes (io_big io) d @ post" "length pre = nat addr" by blast
  define rest where "rest = drop (nat addr) (db_bytes s)"
  have rest: "rest = record_bytes (io_big io) d @ post" using d(4,5) by (simp add: rest_def)
  then have h: "header_at io rest = \<lparr> mh_hash = fnv1a_hash_bytes d, mh_size = word_of_nat (length d) \<rparr>"
    by (simp add: header_at_def record_bytes_def)
  then have n: "length d = unat (mh_size (header_at io rest))" using d(3) by (simp add: unat_of_nat)
  show ?L unfolding database_read_eq [OF assms rest_def n]
    using d(1,2) h by (simp add: rest record_bytes_def)
qed

section \<open>Properties\<close>

text \<open>
  C40. \<^verbatim>\<open>get\<close> succeeds exactly when the file can be opened and holds, at the address, which is not zero, a whole
  record: a header whose size and hash describe the bytes behind it, at least one of them; and then it returns
  these bytes. So neither a damaged nor a cut record is ever returned.
\<close>

theorem dataport_get:
  "dp_get io addr t s = (ok, d, s') \<longleftrightarrow> 0 < addr \<and> (db_opened s \<or> fopen_ok io) \<and> s' = s\<lparr> db_opened := True \<rparr> \<and>
     d \<noteq> [] \<and> length d \<le> resize_max io \<and> length d < 2 ^ 64 \<and>
     (\<exists>pre post. db_bytes s = pre @ record_bytes (io_big io) d @ post \<and> length pre = nat addr)"
proof (cases "0 < addr \<and> (db_opened s \<or> fopen_ok io)")
  case True
  then have "database_open io s = (ok, s\<lparr> db_opened := True \<rparr>)" by (cases s) (auto simp: database_open_def)
  then have "dp_get io addr t s = (ok, d, s') \<longleftrightarrow>
      database_read io addr t (s\<lparr> db_opened := True \<rparr>) = (ok, d) \<and> s' = s\<lparr> db_opened := True \<rparr>"
    using True by (auto simp: dp_get_def split: prod.splits)
  then show ?thesis using True database_read_ok [of addr io t "s\<lparr> db_opened := True \<rparr>" d] by auto
next
  case False
  have "dp_get io addr t s \<noteq> (ok, d, s')"
    using False by (auto simp: dp_get_def database_open_def database_read_def)
  then show ?thesis using False by blast
qed

lemma data_format_eq: "data_format big h d out = Some (header_bytes big h @ d)"
proof -
  let ?out = "resize_bytes (16 + length d) out"
  have "put_at 0 (header_bytes big h) ?out = Some (header_bytes big h @ drop 16 ?out)" by (simp add: put_at_def)
  moreover have "put_at 16 d (header_bytes big h @ drop 16 ?out) = Some (header_bytes big h @ d)"
    by (subst put_at_append) simp_all
  ultimately show ?thesis by (simp add: data_format_def Let_def)
qed

lemma database_write_eq:
  "database_write io buf h d s = Some (if 16 + length d \<le> fwrite_bytes io then ok else write_operation_failed,
     length (db_bytes s), s\<lparr> db_bytes := db_bytes s @ take (fwrite_bytes io) (header_bytes (io_big io) h @ d) \<rparr>)"
proof -
  have "put_at 8 (int_bytes big v) (resize_bytes 16 buf) \<noteq> None" for big v by (simp add: put_at_def)
  then obtain b1 where b1: "put_at 8 (int_bytes (io_big io) (word_of_nat (length d))) (resize_bytes 16 buf) = Some b1" by blast
  then have "length b1 = 16" by (auto simp: put_at_def split: if_splits)
  then obtain b2 where "put_at 0 (int_bytes (io_big io) (fnv1a_hash_bytes d)) b1 = Some b2" by (simp add: put_at_def)
  then show ?thesis using b1 by (simp add: database_write_def data_format_eq Let_def)
qed

lemma zero_header: "header_bytes big \<lparr> mh_hash = 0, mh_size = 0 \<rparr> = replicate 16 0"
proof -
  have "le_bytes k 0 = replicate k 0" for k by (induction k) simp_all
  then show ?thesis by (simp add: header_bytes_def int_bytes_def replicate_add [symmetric])
qed

text \<open>
  What \<^verbatim>\<open>add\<close> has stored cannot be read back: \<^verbatim>\<open>_data_format\<close> copies the empty header of the message over the
  one filled in before, so that size and hash in the file are zero, and \<^verbatim>\<open>get\<close> at the address that \<^verbatim>\<open>add\<close>
  returned reports a failed read. The first record of a file has the address zero, which \<^verbatim>\<open>get\<close> refuses.
\<close>

lemma dataport_add_get:
  assumes "dp_add io buf d addr0 s = Some (ok, addr, s')" "int addr < 2 ^ 63"
  shows "db_bytes s' = db_bytes s @ replicate 16 0 @ d \<and> addr = length (db_bytes s) \<and>
    dp_get io' (int addr) t s' = (if addr = 0 then (invalid_arg, t, s') else (read_operation_failed, [], s'))"
proof -
  have d: "d \<noteq> []" using assms(1) by (auto simp: dp_add_def)
  obtain s1 where s1: "database_open io s = (ok, s1)" using assms(1) d
    by (auto simp: dp_add_def database_open_def split: if_splits)
  then have o: "db_opened s1" "db_bytes s1 = db_bytes s" by (auto simp: database_open_def split: if_splits)
  have w: "database_write io buf \<lparr> mh_hash = 0, mh_size = 0 \<rparr> d s1 = Some (ok, addr, s')"
    using assms(1) d s1 by (simp add: dp_add_def)
  then have fit: "16 + length d \<le> fwrite_bytes io" unfolding database_write_eq by (auto split: if_splits)
  then have s': "addr = length (db_bytes s)" "s' = s1\<lparr> db_bytes := db_bytes s @ replicate 16 0 @ d \<rparr>"
    using w o unfolding database_write_eq zero_header by (auto split: if_splits)
  have "bytes_header big (replicate 16 0) = \<lparr> mh_hash = 0, mh_size = 0 \<rparr>" for big
    using bytes_header_bytes [of big "\<lparr> mh_hash = 0, mh_size = 0 \<rparr>"] unfolding zero_header .
  then have "database_read io' (int addr) t s' = (read_operation_failed, [])"
    by (simp add: database_read_def Let_def s' fread_block_def resize_bytes_def)
  then have "dp_get io' (int addr) t s' = (if addr = 0 then (invalid_arg, t, s') else (read_operation_failed, [], s'))"
    using o by (simp add: dp_get_def database_open_def s')
  then show ?thesis using s' by simp
qed

end
