(* ===== verification/Sdk_Frames.thy ===== *)
theory Sdk_Frames
  imports Sdk_Prelude "HOL-Library.Monad_Syntax"
begin

text \<open>
  \<^verbatim>\<open>tools/static_frame.hpp\<close> and \<^verbatim>\<open>tools/dynamic_frame.hpp\<close>: a window over the last elements of a sequence, in an
  array with one slot more than the window is long. The functions the operations are given get a reference to
  an element and may change it; what they return by reference is written by the caller afterwards.
\<close>

section \<open>Slots\<close>

text \<open>\<open>k\<close> slots, the newest element at \<open>it\<close>, the older ones in front of it.\<close>

definition iterator_to_node :: "nat \<Rightarrow> nat \<Rightarrow> nat" where
  "iterator_to_node k it = it mod k"

definition frame_slot :: "nat \<Rightarrow> nat \<Rightarrow> nat \<Rightarrow> nat" where
  "frame_slot k it offset = iterator_to_node k (usub 64 (it + k) offset)"

definition last_slot :: "nat \<Rightarrow> nat \<Rightarrow> nat \<Rightarrow> nat" where
  "last_slot k it sz = iterator_to_node k (uw 64 (usub 64 (it + k) sz + 1))"

section \<open>The static frame\<close>

record 'a static_frame =
  sf_data :: "'a list"
  sf_iterator :: nat
  sf_size :: nat

definition sf_new :: "nat \<Rightarrow> 'a \<Rightarrow> 'a static_frame" where
  "sf_new SZ d = \<lparr> sf_data = replicate (SZ + 1) d, sf_iterator = 0, sf_size = 0 \<rparr>"

definition sf_get_from_first :: "nat \<Rightarrow> nat \<Rightarrow> 'a static_frame \<Rightarrow> 'a" where
  "sf_get_from_first SZ offset fr = sf_data fr ! frame_slot (SZ + 1) (sf_iterator fr) offset"

definition sf_get_first :: "nat \<Rightarrow> 'a static_frame \<Rightarrow> 'a" where
  "sf_get_first SZ fr = sf_data fr ! iterator_to_node (SZ + 1) (sf_iterator fr)"

definition sf_get_last :: "nat \<Rightarrow> 'a static_frame \<Rightarrow> 'a" where
  "sf_get_last SZ fr = sf_data fr ! last_slot (SZ + 1) (sf_iterator fr) SZ"

definition sf_pop_back :: "nat \<Rightarrow> ('a \<Rightarrow> 'a) \<Rightarrow> 'a static_frame \<Rightarrow> 'a static_frame" where
  "sf_pop_back SZ f fr = (if sf_size fr > 0 then
     let i = frame_slot (SZ + 1) (sf_iterator fr) (sf_size fr - 1) in
     fr\<lparr> sf_data := (sf_data fr)[i := f (sf_data fr ! i)], sf_size := sf_size fr - 1 \<rparr> else fr)"

text \<open>The second result is the slot the returned reference is for.\<close>

definition sf_move_fwd :: "nat \<Rightarrow> ('a \<Rightarrow> 'a) \<Rightarrow> 'a static_frame \<Rightarrow> 'a static_frame \<times> nat" where
  "sf_move_fwd SZ f fr =
     (let i = last_slot (SZ + 1) (sf_iterator fr) SZ;
          fr = fr\<lparr> sf_data := (sf_data fr)[i := f (sf_data fr ! i)] \<rparr>;
          fr = fr\<lparr> sf_iterator := uw 64 (sf_iterator fr + 1) mod (SZ + 1) \<rparr>;
          fr = fr\<lparr> sf_size := min (uw 64 (sf_size fr + 1)) SZ \<rparr> in
      (fr, iterator_to_node (SZ + 1) (sf_iterator fr)))"

definition sf_move_bck :: "nat \<Rightarrow> ('a \<Rightarrow> 'a) \<Rightarrow> 'a static_frame \<Rightarrow> 'a static_frame" where
  "sf_move_bck SZ f fr =
     (let i = iterator_to_node (SZ + 1) (sf_iterator fr);
          fr = fr\<lparr> sf_data := (sf_data fr)[i := f (sf_data fr ! i)] \<rparr>;
          fr = fr\<lparr> sf_iterator := usub 64 (sf_iterator fr + (SZ + 1)) 1 mod (SZ + 1) \<rparr> in
      fr\<lparr> sf_size := min (usub 64 (sf_size fr) 1) 0 \<rparr>)"

section \<open>The dynamic frame\<close>

text \<open>The vector may be shorter than the number of slots: an access beyond it is \<^term>\<open>None\<close>.\<close>

record 'a dynamic_frame =
  df_data :: "'a list"
  df_virtual_blocks :: nat
  df_iterator :: nat
  df_size :: nat
  df_sz :: nat

definition df_new :: "nat \<Rightarrow> 'a \<Rightarrow> 'a dynamic_frame" where
  "df_new cap d = \<lparr> df_data = replicate cap d, df_virtual_blocks = cap + 1, df_iterator = 0, df_size = 0, df_sz = cap \<rparr>"

definition df_at :: "nat \<Rightarrow> 'a dynamic_frame \<Rightarrow> 'a option" where
  "df_at i fr = (if i < length (df_data fr) then Some (df_data fr ! i) else None)"

definition df_get_from_first :: "nat \<Rightarrow> 'a dynamic_frame \<Rightarrow> 'a option" where
  "df_get_from_first offset fr = df_at (frame_slot (df_virtual_blocks fr) (df_iterator fr) offset) fr"

definition df_get_first :: "'a dynamic_frame \<Rightarrow> 'a option" where
  "df_get_first fr = df_at (iterator_to_node (df_virtual_blocks fr) (df_iterator fr)) fr"

definition df_get_last :: "'a dynamic_frame \<Rightarrow> 'a option" where
  "df_get_last fr = df_at (last_slot (df_virtual_blocks fr) (df_iterator fr) (df_sz fr)) fr"

definition df_move_fwd :: "('a \<Rightarrow> 'a) \<Rightarrow> 'a dynamic_frame \<Rightarrow> ('a dynamic_frame \<times> nat) option" where
  "df_move_fwd f fr = do {
     let i = last_slot (df_virtual_blocks fr) (df_iterator fr) (df_sz fr);
     x \<leftarrow> df_at i fr;
     let fr = fr\<lparr> df_data := (df_data fr)[i := f x] \<rparr>;
     let fr = fr\<lparr> df_iterator := uw 64 (df_iterator fr + 1) mod df_virtual_blocks fr \<rparr>;
     let fr = fr\<lparr> df_size := min (uw 64 (df_size fr + 1)) (df_sz fr) \<rparr>;
     let j = iterator_to_node (df_virtual_blocks fr) (df_iterator fr);
     _ \<leftarrow> df_at j fr;
     Some (fr, j) }"

definition df_move_bck :: "('a \<Rightarrow> 'a) \<Rightarrow> 'a dynamic_frame \<Rightarrow> 'a dynamic_frame option" where
  "df_move_bck f fr = do {
     let i = iterator_to_node (df_virtual_blocks fr) (df_iterator fr);
     x \<leftarrow> df_at i fr;
     let fr = fr\<lparr> df_data := (df_data fr)[i := f x] \<rparr>;
     let fr = fr\<lparr> df_iterator := usub 64 (df_iterator fr + df_virtual_blocks fr) 1 mod df_virtual_blocks fr \<rparr>;
     Some (fr\<lparr> df_size := min (usub 64 (df_size fr) 1) 0 \<rparr>) }"

text \<open>The elements from the oldest to the newest: the loop of \<^verbatim>\<open>reserve\<close>, from index \<open>n - 1\<close> down.\<close>

fun df_copy_out :: "nat \<Rightarrow> 'a dynamic_frame \<Rightarrow> 'a list option" where
  "df_copy_out 0 fr = Some []"
| "df_copy_out (Suc n) fr = do { x \<leftarrow> df_get_from_first n fr; xs \<leftarrow> df_copy_out n fr; Some (x # xs) }"

definition df_reserve :: "nat \<Rightarrow> 'a \<Rightarrow> 'a dynamic_frame \<Rightarrow> 'a dynamic_frame option" where
  "df_reserve sz d fr = (if sz > df_sz fr then do {
       tmp \<leftarrow> df_copy_out (df_size fr) fr;
       Some (fr\<lparr> df_data := take (sz + 1) tmp @ replicate (sz + 1 - length tmp) d, df_sz := sz,
         df_virtual_blocks := sz + 1, df_iterator := usub 64 (df_size fr) 1 \<rparr>) }
     else Some fr)"

section \<open>Windows\<close>

text \<open>The elements of a frame, the newest first.\<close>

definition window :: "'a list \<Rightarrow> nat \<Rightarrow> nat \<Rightarrow> 'a list" where
  "window data it n = map (\<lambda>i. data ! ((it + length data - i) mod length data)) [0..<n]"

lemma length_window [simp]: "length (window data it n) = n"
  by (simp add: window_def)

lemma window_nth [simp]: "i < n \<Longrightarrow> window data it n ! i = data ! ((it + length data - i) mod length data)"
  by (simp add: window_def)

lemma frame_slot_eq: "i \<le> it + k \<Longrightarrow> it + k < 2 ^ 64 \<Longrightarrow> frame_slot k it i = (it + k - i) mod k"
  by (simp add: frame_slot_def iterator_to_node_def usub_le)

lemma last_slot_eq: "k = sz + 1 \<Longrightarrow> it + k < 2 ^ 64 - 1 \<Longrightarrow> last_slot k it sz = (it + 2) mod k"
  by (simp add: last_slot_def iterator_to_node_def usub_le)

text \<open>Different offsets below the number of slots are different slots.\<close>

lemma slots_differ:
  assumes "it < k" "i < k" "j < k" "i \<noteq> (j :: nat)"
  shows "(it + k - i) mod k \<noteq> (it + k - j) mod k"
proof
  assume *: "(it + k - i) mod k = (it + k - j) mod k"
  have "i \<le> it + k" "j \<le> it + k" using assms by auto
  then have "int (it + k - i) mod int k = int (it + k - j) mod int k" using * by (metis of_nat_mod)
  then have "(int it + int k - int i) mod int k = (int it + int k - int j) mod int k"
    using \<open>i \<le> it + k\<close> \<open>j \<le> it + k\<close> by (simp add: of_nat_diff)
  then have "int k dvd (int j - int i)" by (simp add: mod_eq_dvd_iff)
  then show False using assms(2-4) zdvd_imp_le [of "int k" "int j - int i"] zdvd_imp_le [of "int k" "int i - int j"]
    by (cases "i < j") (auto simp: dvd_diff_commute)
qed

lemma next_slot:
  assumes "it < k" "i < k"
  shows "((it + 1) mod k + k - Suc i) mod k = (it + k - i) mod k" "((it + 1) mod k + k - 0) mod k = (it + 1) mod k"
proof -
  show "((it + 1) mod k + k - Suc i) mod k = (it + k - i) mod k"
  proof (cases "it + 1 = k")
    case True
    then have "it + k - i = (k - Suc i) + k" "(it + 1) mod k = 0" using assms by simp_all
    then have "(it + k - i) mod k = (k - Suc i) mod k" by (simp only: mod_add_self2)
    then show ?thesis using \<open>(it + 1) mod k = 0\<close> by simp
  qed (use assms in simp)
qed simp

text \<open>
  Moving forward: the slot two behind the iterator is the oldest of a full window, and outside a window that is
  not full; the slot behind the iterator is outside in any case.
\<close>

lemma window_step:
  assumes "length data = k" "it < k" "n < k" "k = sz + 1" "0 < sz"
  shows "window (data[(it + 2) mod k := y, (it + 1) mod k := v]) ((it + 1) mod k) (min (n + 1) sz) =
    take sz (v # window data it n)"
proof (rule nth_equalityI)
  show "length (window (data[(it + 2) mod k := y, (it + 1) mod k := v]) ((it + 1) mod k) (min (n + 1) sz)) =
      length (take sz (v # window data it n))" by simp
next
  fix i assume "i < length (window (data[(it + 2) mod k := y, (it + 1) mod k := v]) ((it + 1) mod k) (min (n + 1) sz))"
  then have i: "i < n + 1" "i < sz" by simp_all
  let ?d = "data[(it + 2) mod k := y, (it + 1) mod k := v]"
  have w: "window ?d ((it + 1) mod k) (min (n + 1) sz) ! i = ?d ! (((it + 1) mod k + k - i) mod k)"
    using i assms(1) by simp
  show "window ?d ((it + 1) mod k) (min (n + 1) sz) ! i = take sz (v # window data it n) ! i"
  proof (cases i)
    case 0
    have "(it + 1) mod k < length data" using assms(1,2) by simp
    then have "?d ! (((it + 1) mod k + k - 0) mod k) = v" unfolding next_slot(2) [OF assms(2) assms(2)] by simp
    then show ?thesis unfolding w using 0 assms(5) by simp
  next
    case (Suc j)
    have "(it + k - j) mod k \<noteq> (it + k - (k - 1)) mod k" "(it + k - j) mod k \<noteq> (it + k - (k - 2)) mod k"
      using slots_differ [of it k j "k - 1"] slots_differ [of it k j "k - 2"] Suc i assms by auto
    moreover have "it + k - (k - 1) = it + 1" "it + k - (k - 2) = it + 2" using assms by auto
    ultimately show ?thesis unfolding w using Suc i assms next_slot(1) [of it k j] by simp
  qed
qed

section \<open>Pushing elements\<close>

text \<open>What a client does: the slot it is given back gets the new element.\<close>

definition sf_push :: "nat \<Rightarrow> ('a \<Rightarrow> 'a) \<Rightarrow> 'a static_frame \<Rightarrow> 'a \<Rightarrow> 'a static_frame" where
  "sf_push SZ f fr v = (case sf_move_fwd SZ f fr of (fr, i) \<Rightarrow> fr\<lparr> sf_data := (sf_data fr)[i := v] \<rparr>)"

definition df_push :: "('a \<Rightarrow> 'a) \<Rightarrow> 'a \<Rightarrow> 'a dynamic_frame \<Rightarrow> 'a dynamic_frame option" where
  "df_push f v fr = do { (fr, i) \<leftarrow> df_move_fwd f fr; Some (fr\<lparr> df_data := (df_data fr)[i := v] \<rparr>) }"

definition sf_ok :: "nat \<Rightarrow> 'a static_frame \<Rightarrow> bool" where
  "sf_ok SZ fr \<longleftrightarrow> 0 < SZ \<and> SZ < 2 ^ 31 \<and> length (sf_data fr) = SZ + 1 \<and> sf_iterator fr < SZ + 1 \<and> sf_size fr \<le> SZ"

definition sf_window :: "'a static_frame \<Rightarrow> 'a list" where
  "sf_window fr = window (sf_data fr) (sf_iterator fr) (sf_size fr)"

lemma sf_push_window:
  assumes "sf_ok SZ fr"
  shows "sf_ok SZ (sf_push SZ f fr v) \<and> sf_window (sf_push SZ f fr v) = take SZ (v # sf_window fr)"
proof -
  let ?k = "SZ + 1" and ?it = "sf_iterator fr"
  have b: "0 < SZ" "SZ < 2 ^ 31" "length (sf_data fr) = ?k" "?it < ?k" "sf_size fr < ?k" using assms by (simp_all add: sf_ok_def)
  let ?d = "(sf_data fr)[(?it + 2) mod ?k := f (sf_data fr ! ((?it + 2) mod ?k)), (?it + 1) mod ?k := v]"
  have u: "uw 64 (?it + 1) = ?it + 1" "uw 64 (sf_size fr + 1) = sf_size fr + 1" using b by simp_all
  have "sf_push SZ f fr v = \<lparr> sf_data = ?d, sf_iterator = (?it + 1) mod ?k, sf_size = min (sf_size fr + 1) SZ \<rparr>"
    using b u by (cases fr) (simp add: sf_push_def sf_move_fwd_def Let_def last_slot_eq iterator_to_node_def)
  then show ?thesis using window_step [OF b(3,4,5) refl b(1)] b by (simp add: sf_ok_def sf_window_def)
qed

lemma sf_get_window:
  assumes "sf_ok SZ fr" "i < sf_size fr"
  shows "sf_get_from_first SZ i fr = sf_window fr ! i"
  using assms frame_slot_eq [of i "sf_iterator fr" "SZ + 1"] by (simp add: sf_ok_def sf_window_def sf_get_from_first_def)

lemma sf_last_window:
  assumes "sf_ok SZ fr" "sf_size fr = SZ"
  shows "sf_get_last SZ fr = last (sf_window fr)"
proof -
  have *: "0 < SZ" "length (sf_data fr) = SZ + 1" "sf_iterator fr < SZ + 1" "SZ < 2 ^ 31" using assms by (simp_all add: sf_ok_def)
  then have "last (sf_window fr) = sf_window fr ! (SZ - 1)" using assms(2) by (simp add: sf_window_def last_conv_nth window_def)
  also have "\<dots> = sf_data fr ! ((sf_iterator fr + (SZ + 1) - (SZ - 1)) mod (SZ + 1))" using * assms(2) by (simp add: sf_window_def)
  also have "sf_iterator fr + (SZ + 1) - (SZ - 1) = sf_iterator fr + 2" using * by simp
  finally show ?thesis using * by (simp add: sf_get_last_def last_slot_eq)
qed

lemma sf_pop_window:
  assumes "sf_ok SZ fr" "0 < sf_size fr"
  shows "sf_ok SZ (sf_pop_back SZ f fr) \<and> sf_window (sf_pop_back SZ f fr) = butlast (sf_window fr)"
proof -
  let ?k = "SZ + 1" and ?n = "sf_size fr"
  have b: "length (sf_data fr) = ?k" "sf_iterator fr < ?k" "?n \<le> SZ" "SZ < 2 ^ 31" using assms(1) by (simp_all add: sf_ok_def)
  have s: "frame_slot ?k (sf_iterator fr) (?n - 1) = (sf_iterator fr + ?k - (?n - 1)) mod ?k" using b by (intro frame_slot_eq) auto
  have "sf_window (sf_pop_back SZ f fr) = butlast (sf_window fr)"
  proof (rule nth_equalityI)
    show "length (sf_window (sf_pop_back SZ f fr)) = length (butlast (sf_window fr))"
      using assms(2) by (simp add: sf_window_def sf_pop_back_def Let_def)
  next
    fix i assume "i < length (sf_window (sf_pop_back SZ f fr))"
    then have i: "i < ?n - 1" using assms(2) by (simp add: sf_window_def sf_pop_back_def Let_def)
    then have "(sf_iterator fr + ?k - i) mod ?k \<noteq> (sf_iterator fr + ?k - (?n - 1)) mod ?k"
      using slots_differ [of "sf_iterator fr" ?k i "?n - 1"] b by auto
    then show "sf_window (sf_pop_back SZ f fr) ! i = butlast (sf_window fr) ! i"
      using i b s assms(2) by (simp add: sf_window_def sf_pop_back_def Let_def nth_butlast del: add_Suc_right)
  qed
  then show ?thesis using assms by (auto simp: sf_ok_def sf_pop_back_def Let_def)
qed

lemma sf_pushes:
  assumes "0 < SZ" "SZ < 2 ^ 31"
  shows "sf_ok SZ (foldl (sf_push SZ f) (sf_new SZ d) vs) \<and>
    sf_window (foldl (sf_push SZ f) (sf_new SZ d) vs) = take SZ (rev vs)"
proof (induction vs rule: rev_induct)
  case Nil
  then show ?case using assms by (simp add: sf_ok_def sf_window_def window_def sf_new_def)
next
  case (snoc v vs)
  then show ?case using sf_push_window [of SZ "foldl (sf_push SZ f) (sf_new SZ d) vs" f v] assms
    by (cases SZ) (simp_all add: min_def)
qed

text \<open>\<^verbatim>\<open>move_bck\<close> is meant to take the newest element away; it takes all of them.\<close>

lemma sf_move_bck_empty: "sf_size (sf_move_bck SZ f fr) = 0"
  by (simp add: sf_move_bck_def Let_def)

section \<open>The dynamic frame\<close>

text \<open>
  A new frame has one slot less than it counts: already the first element of a frame for one is put behind the
  end of the vector. \<^verbatim>\<open>reserve\<close> makes it right. It leaves the iterator of an empty frame at the largest number.
\<close>

lemma df_new_overrun: "df_move_fwd f (df_new 1 d) = None"
  by (simp add: df_move_fwd_def df_new_def last_slot_def iterator_to_node_def df_at_def usub_def uw_def)

definition df_ok :: "'a dynamic_frame \<Rightarrow> bool" where
  "df_ok fr \<longleftrightarrow> 0 < df_sz fr \<and> df_sz fr < 2 ^ 31 \<and> df_virtual_blocks fr = df_sz fr + 1 \<and>
     length (df_data fr) = df_sz fr + 1 \<and> df_size fr \<le> df_sz fr \<and>
     (df_iterator fr < df_sz fr + 1 \<or> df_iterator fr = 2 ^ 64 - 1 \<and> df_size fr = 0)"

definition df_window :: "'a dynamic_frame \<Rightarrow> 'a list" where
  "df_window fr = window (df_data fr) (df_iterator fr) (df_size fr)"

lemma df_get_window:
  assumes "df_ok fr" "i < df_size fr"
  shows "df_get_from_first i fr = Some (df_window fr ! i)"
  using assms frame_slot_eq [of i "df_iterator fr" "df_sz fr + 1"]
  by (auto simp: df_ok_def df_window_def df_get_from_first_def df_at_def)

lemma df_push_window:
  assumes "df_ok fr"
  shows "\<exists>fr'. df_push f v fr = Some fr' \<and> df_ok fr' \<and> df_sz fr' = df_sz fr \<and>
    df_window fr' = take (df_sz fr) (v # df_window fr)"
proof (cases "df_iterator fr < df_sz fr + 1")
  case True
  let ?k = "df_sz fr + 1" and ?it = "df_iterator fr"
  have b: "0 < df_sz fr" "df_sz fr < 2 ^ 31" "length (df_data fr) = ?k" "?it < ?k" "df_size fr < ?k" "df_virtual_blocks fr = ?k"
    using assms True by (simp_all add: df_ok_def)
  let ?d = "(df_data fr)[(?it + 2) mod ?k := f (df_data fr ! ((?it + 2) mod ?k)), (?it + 1) mod ?k := v]"
  have u: "uw 64 (?it + 1) = ?it + 1" "uw 64 (df_size fr + 1) = df_size fr + 1" using b by simp_all
  have "df_push f v fr = Some (fr\<lparr> df_data := ?d, df_iterator := (?it + 1) mod ?k, df_size := min (df_size fr + 1) (df_sz fr) \<rparr>)"
    using b u by (cases fr) (simp add: df_push_def df_move_fwd_def Let_def last_slot_eq iterator_to_node_def df_at_def)
  then show ?thesis using window_step [OF b(3,4,5) refl b(1)] b by (simp add: df_ok_def df_window_def)
next
  case False
  then have b: "df_iterator fr = 2 ^ 64 - 1" "df_size fr = 0" "0 < df_sz fr" "df_sz fr < 2 ^ 31"
    "length (df_data fr) = df_sz fr + 1" "df_virtual_blocks fr = df_sz fr + 1" using assms by (auto simp: df_ok_def)
  have "usub 64 (2 ^ 64 - 1 + (df_sz fr + 1)) (df_sz fr) = 0" by (simp add: usub_def)
  then have s: "last_slot (df_sz fr + 1) (2 ^ 64 - 1) (df_sz fr) = 1" using b by (simp add: last_slot_def iterator_to_node_def)
  have u: "uw 64 (2 ^ 64 - 1 + 1) = 0" "uw 64 (0 + 1) = 1" "uw 64 18446744073709551616 = 0" by (simp_all add: uw_def)
  have "df_push f v fr = Some (fr\<lparr> df_data := (df_data fr)[1 := f (df_data fr ! 1), 0 := v], df_iterator := 0, df_size := 1 \<rparr>)"
    unfolding df_push_def df_move_fwd_def Let_def b(1,2,6) s u using b u(3) by (cases fr) (simp add: iterator_to_node_def df_at_def)
  then show ?thesis using b by (cases "df_sz fr") (simp_all add: df_ok_def df_window_def window_def)
qed

lemma df_copy_out_rev:
  assumes "\<And>i. i < n \<Longrightarrow> df_get_from_first i fr = Some (xs ! i)" "n \<le> length xs"
  shows "df_copy_out n fr = Some (rev (take n xs))"
  using assms by (induction n) (simp_all add: take_Suc_conv_app_nth)

lemma df_reserve_window:
  assumes "df_ok fr" "df_sz fr < sz" "sz < 2 ^ 31"
  shows "\<exists>fr'. df_reserve sz d fr = Some fr' \<and> df_ok fr' \<and> df_sz fr' = sz \<and> df_window fr' = df_window fr"
proof -
  let ?w = "df_window fr" and ?n = "df_size fr"
  have n: "length ?w = ?n" "?n \<le> df_sz fr" using assms(1) by (simp_all add: df_window_def df_ok_def)
  have "df_copy_out ?n fr = Some (rev ?w)" using df_copy_out_rev [of ?n fr ?w] df_get_window [OF assms(1)] n by simp
  then have r: "df_reserve sz d fr = Some (fr\<lparr> df_data := rev ?w @ replicate (sz + 1 - ?n) d, df_sz := sz,
      df_virtual_blocks := sz + 1, df_iterator := usub 64 ?n 1 \<rparr>)" (is "_ = Some ?fr")
    using assms(2) n by (simp add: df_reserve_def)
  have it: "usub 64 ?n 1 = (if ?n = 0 then 2 ^ 64 - 1 else ?n - 1)"
    using n assms by (cases "?n = 0") (simp_all add: usub_le, simp add: usub_def)
  have "df_window ?fr = ?w"
  proof (rule nth_equalityI)
    show "length (df_window ?fr) = length ?w" by (simp add: df_window_def)
  next
    fix i assume "i < length (df_window ?fr)"
    then have i: "i < ?n" by (simp add: df_window_def)
    have "(?n - 1 + (sz + 1) - i) mod (sz + 1) = ?n - 1 - i"
    proof -
      have "?n - 1 + (sz + 1) - i = (?n - 1 - i) + (sz + 1)" using i by simp
      then show ?thesis using i n assms(2) by (simp only: mod_add_self2) simp
    qed
    then show "df_window ?fr ! i = ?w ! i"
      using i n assms(2) it by (simp add: df_window_def nth_append rev_nth)
  qed
  then show ?thesis using r it n assms by (auto simp: df_ok_def)
qed

section \<open>Properties\<close>

text \<open>
  The static frame is a window over the last elements: after any sequence of elements it has as many of them
  as fit, \<^verbatim>\<open>get_from_first\<close> finds them by age, the newest first; the element \<^verbatim>\<open>move_fwd\<close> hands to its function
  when the frame is full is the oldest, the one that leaves; \<^verbatim>\<open>pop_back\<close> takes the oldest away.
\<close>

lemma static_frame_window:
  assumes "0 < SZ" "SZ < 2 ^ 31" "fr = foldl (sf_push SZ f) (sf_new SZ d) vs"
  shows "sf_size fr = min (length vs) SZ \<and> (\<forall>i < sf_size fr. sf_get_from_first SZ i fr = rev vs ! i) \<and>
    (SZ \<le> length vs \<longrightarrow> sf_get_last SZ fr = vs ! (length vs - SZ)) \<and>
    (0 < sf_size fr \<longrightarrow> sf_window (sf_pop_back SZ g fr) = butlast (take SZ (rev vs)))"
proof -
  have w: "sf_ok SZ fr" "sf_window fr = take SZ (rev vs)" using sf_pushes [OF assms(1,2), of f d vs] assms(3) by simp_all
  then have n: "sf_size fr = min (length vs) SZ" by (metis length_rev length_take length_window sf_window_def)
  have "sf_get_from_first SZ i fr = rev vs ! i" if "i < sf_size fr" for i
    using sf_get_window [OF w(1) that] w(2) that n by simp
  moreover have "sf_get_last SZ fr = vs ! (length vs - SZ)" if "SZ \<le> length vs"
  proof -
    have "take SZ (rev vs) \<noteq> []" "length (take SZ (rev vs)) = SZ" using that assms(1) by auto
    then have "last (take SZ (rev vs)) = rev vs ! (SZ - 1)" using assms(1) by (simp add: last_conv_nth)
    then show ?thesis using sf_last_window [OF w(1)] w(2) n that assms(1) by (simp add: rev_nth)
  qed
  ultimately show ?thesis using n sf_pop_window [OF w(1)] w(2) by simp
qed

end
