(* ===== verification/Sdk_Stack_Allocator.thy ===== *)
theory Sdk_Stack_Allocator
  imports Sdk_Prelude
begin

unbundle bit_operations_syntax

text \<open>
  \<^verbatim>\<open>tools/stack_allocator.hpp\<close>: one block of memory that is handed out from the front, never taken back piece
  by piece. Addresses are 64 bits wide.
\<close>

section \<open>State and operations\<close>

record stack_alloc =
  mem_ptr :: nat
  end_ptr :: nat
  cur_ptr :: nat

text \<open>\<open>mem\<close> is what \<^verbatim>\<open>malloc\<close> returned, zero when it failed.\<close>

definition sa_new :: "nat \<Rightarrow> nat \<Rightarrow> stack_alloc" where
  "sa_new cap mem = \<lparr> mem_ptr = mem, end_ptr = uw 64 (mem + (if mem \<noteq> 0 then cap else 0)), cur_ptr = mem \<rparr>"

definition ALIGN_MEM :: "nat \<Rightarrow> nat \<Rightarrow> nat" where
  "ALIGN_MEM mem base = unat ((word_of_nat (uw 64 (mem + (base - 1))) :: u64) AND NOT (word_of_nat (base - 1)))"

definition sa_allocate :: "nat \<Rightarrow> nat \<Rightarrow> stack_alloc \<Rightarrow> nat option \<times> stack_alloc" where
  "sa_allocate al sz s =
     (let ptr = ALIGN_MEM (cur_ptr s) al in
      if uw 64 (ptr + sz) > end_ptr s then (None, s)
      else (Some ptr, s\<lparr> cur_ptr := uw 64 (ptr + sz) \<rparr>))"

definition sa_contains :: "nat \<Rightarrow> stack_alloc \<Rightarrow> bool" where
  "sa_contains ptr s \<longleftrightarrow> ptr \<ge> mem_ptr s \<and> ptr < end_ptr s"

definition sa_clear :: "stack_alloc \<Rightarrow> stack_alloc" where
  "sa_clear s = s\<lparr> cur_ptr := mem_ptr s \<rparr>"

definition sa_size :: "stack_alloc \<Rightarrow> nat" where
  "sa_size s = usub 64 (cur_ptr s) (mem_ptr s)"

definition sa_remains :: "stack_alloc \<Rightarrow> nat" where
  "sa_remains s = usub 64 (end_ptr s) (cur_ptr s)"

section \<open>Alignment\<close>

text \<open>The next multiple of a power of two, unless it is beyond the end of the address space.\<close>

lemma and_not_mask: "x AND NOT (mask k) = push_bit k (drop_bit k x)" for x :: "'w::len word"
  by (rule bit_word_eqI) (auto simp: bit_simps)

lemma unat_and_not_mask: "unat (x AND NOT (mask k)) = unat x div 2 ^ k * 2 ^ k" for x :: u64
proof -
  have "unat x div 2 ^ k * 2 ^ k \<le> unat x" by simp
  also have "\<dots> < 2 ^ 64" using unsigned_less [of x] by simp
  finally have "take_bit 64 (push_bit k (drop_bit k (unat x))) = unat x div 2 ^ k * 2 ^ k"
    by (simp add: push_bit_eq_mult drop_bit_eq_div take_bit_eq_mod)
  moreover have "unat (push_bit k (drop_bit k x)) = take_bit 64 (push_bit k (drop_bit k (unat x)))"
  proof -
    have "unat x < 2 ^ 64" using unsigned_less [of x] by simp
    then have "take_bit 64 (unat x) = unat x" by (simp add: take_bit_nat_eq_self)
    then show ?thesis by (simp only: unsigned_push_bit_eq unsigned_drop_bit_eq) simp
  qed
  ultimately show ?thesis by (simp only: and_not_mask)
qed

lemma ALIGN_MEM_eq:
  assumes "al = 2 ^ k" "k < 64" "mem + (al - 1) < 2 ^ 64"
  shows "ALIGN_MEM mem al = (mem + (al - 1)) div al * al"
proof -
  have "word_of_nat (al - 1) = (mask k :: u64)" using assms(1) by (simp add: mask_eq_exp_minus_1 of_nat_diff)
  moreover have "unat (word_of_nat (mem + (al - 1)) :: u64) = mem + (al - 1)" using assms(3) by (simp add: unat_of_nat del: of_nat_add)
  ultimately show ?thesis using assms by (simp add: ALIGN_MEM_def unat_and_not_mask del: of_nat_add)
qed

lemma ALIGN_MEM_bounds:
  assumes "al = 2 ^ k" "k < 64" "mem + (al - 1) < 2 ^ 64"
  shows "mem \<le> ALIGN_MEM mem al" "ALIGN_MEM mem al < mem + al" "al dvd ALIGN_MEM mem al"
proof -
  have "(mem + (al - 1)) div al * al + (mem + (al - 1)) mod al = mem + (al - 1)" by (rule div_mult_mod_eq)
  moreover have "(mem + (al - 1)) mod al < al" "0 < al" using assms(1) by simp_all
  ultimately show "mem \<le> ALIGN_MEM mem al" "ALIGN_MEM mem al < mem + al" using ALIGN_MEM_eq [OF assms] by linarith+
  show "al dvd ALIGN_MEM mem al" using ALIGN_MEM_eq [OF assms] by simp
qed

section \<open>A run of the allocator\<close>

text \<open>The blocks handed out since the last \<^verbatim>\<open>clear\<close>, the newest first; requests are alignment and size.\<close>

fun sa_run :: "(nat \<times> nat) list \<Rightarrow> stack_alloc \<Rightarrow> (nat \<times> nat) list \<times> stack_alloc" where
  "sa_run [] s = ([], s)"
| "sa_run ((al, sz) # rs) s = (case sa_run rs s of (bs, s) \<Rightarrow>
     (case sa_allocate al sz s of (None, s) \<Rightarrow> (bs, s) | (Some p, s) \<Rightarrow> ((p, sz) # bs, s)))"

definition sa_ok :: "stack_alloc \<Rightarrow> bool" where
  "sa_ok s \<longleftrightarrow> mem_ptr s \<le> cur_ptr s \<and> cur_ptr s \<le> end_ptr s \<and> end_ptr s + 2 ^ 16 \<le> 2 ^ 64"

definition request_ok :: "stack_alloc \<Rightarrow> nat \<times> nat \<Rightarrow> bool" where
  "request_ok s r \<longleftrightarrow> (\<exists>k < 16. fst r = 2 ^ k) \<and> snd r + end_ptr s + 2 ^ 16 \<le> 2 ^ 64"

lemma sa_allocate_ok:
  assumes "sa_ok s" "request_ok s (al, sz)"
  shows "(\<exists>p. sa_allocate al sz s = (Some p, s\<lparr> cur_ptr := p + sz \<rparr>) \<and> al dvd p \<and> cur_ptr s \<le> p \<and> p + sz \<le> end_ptr s) \<or>
    (sa_allocate al sz s = (None, s) \<and> end_ptr s < ALIGN_MEM (cur_ptr s) al + sz)"
proof -
  obtain k where k: "al = 2 ^ k" "k < 16" using assms(2) by (auto simp: request_ok_def)
  have "al \<le> 2 ^ 16" unfolding k(1) using k(2) by (intro power_increasing) auto
  then have a: "cur_ptr s + (al - 1) < 2 ^ 64" using assms(1) by (auto simp: sa_ok_def)
  note b = ALIGN_MEM_bounds [OF k(1) _ a]
  have "ALIGN_MEM (cur_ptr s) al + sz < 2 ^ 64"
    using b k(2) \<open>al \<le> 2 ^ 16\<close> assms by (auto simp: sa_ok_def request_ok_def)
  then show ?thesis using b k(2) by (auto simp: sa_allocate_def Let_def)
qed

definition blocks_ok :: "stack_alloc \<Rightarrow> (nat \<times> nat) list \<Rightarrow> bool" where
  "blocks_ok s bs \<longleftrightarrow> (\<forall>(p, n) \<in> set bs. mem_ptr s \<le> p \<and> p + n \<le> cur_ptr s) \<and>
     sorted_wrt (\<lambda>(p, n) (q, m). q + m \<le> p) bs"

lemma sa_run_ok:
  assumes "sa_ok s" "cur_ptr s = mem_ptr s" "\<forall>r \<in> set rs. request_ok s r"
  shows "case sa_run rs s of (bs, s') \<Rightarrow> sa_ok s' \<and> mem_ptr s' = mem_ptr s \<and> end_ptr s' = end_ptr s \<and> blocks_ok s' bs"
  using assms(3)
proof (induction rs)
  case Nil
  then show ?case using assms(1) by (simp add: blocks_ok_def)
next
  case (Cons r rs)
  obtain al sz where r: "r = (al, sz)" by (cases r)
  obtain bs s' where run: "sa_run rs s = (bs, s')" by (cases "sa_run rs s")
  then have IH: "sa_ok s'" "mem_ptr s' = mem_ptr s" "end_ptr s' = end_ptr s" "blocks_ok s' bs" using Cons by simp_all
  have "request_ok s' (al, sz)" using Cons.prems r IH(3) by (simp add: request_ok_def)
  from sa_allocate_ok [OF IH(1) this] show ?case
  proof (elim disjE exE)
    fix p assume p: "sa_allocate al sz s' = (Some p, s'\<lparr> cur_ptr := p + sz \<rparr>) \<and> al dvd p \<and> cur_ptr s' \<le> p \<and> p + sz \<le> end_ptr s'"
    then have "blocks_ok (s'\<lparr> cur_ptr := p + sz \<rparr>) ((p, sz) # bs)" using IH(1,4) by (fastforce simp: blocks_ok_def sa_ok_def)
    then show ?thesis using p IH run r by (simp add: sa_ok_def)
  qed (use IH run r in auto)
qed

text \<open>
  The sum of address and size is tested after it has wrapped around: a request near \<open>2\<^sup>6\<^sup>4\<close> is granted,
  and the next block is in front of the memory.
\<close>

lemma sa_allocate_wraps:
  "sa_allocate 1 (2 ^ 64 - 16) (sa_new 64 4096) = (Some 4096, \<lparr> mem_ptr = 4096, end_ptr = 4160, cur_ptr = 4080 \<rparr>)"
proof -
  have "ALIGN_MEM 4096 1 = 4096" using ALIGN_MEM_eq [of 1 0 4096] by simp
  then show ?thesis by (simp add: sa_allocate_def sa_new_def uw_def Let_def)
qed

end
