(* ===== verification/Sdk_Callbacks.thy ===== *)
theory Sdk_Callbacks
  imports Sdk_Prelude "HOL-Library.AList" "HOL-Library.Multiset" "HOL-Library.Monad_Syntax"
begin

text \<open>
  \<^verbatim>\<open>tools/callback_keeper.hpp\<close> (callbacks that are called once, with the answer to their request or with null) and
  \<^verbatim>\<open>tools/cache.hpp\<close> (objects kept for reuse). Every operation is guarded by a spin lock, the calls of the
  callbacks are made outside of it and recorded here.
\<close>

section \<open>Callbacks\<close>

text \<open>A callback may be empty; a call has the session and the data, or null for both.\<close>

record ('k, 'c, 'd) keeper =
  ck_callbacks :: "('k \<times> 'c option) list"
  ck_calls :: "('c \<times> 'd option) list"

definition ck_new :: "('k, 'c, 'd) keeper" where
  "ck_new = \<lparr> ck_callbacks = [], ck_calls = [] \<rparr>"

definition ck_call :: "'c option \<Rightarrow> 'd option \<Rightarrow> ('k, 'c, 'd) keeper \<Rightarrow> ('k, 'c, 'd) keeper" where
  "ck_call f d s = (case f of None \<Rightarrow> s | Some c \<Rightarrow> s\<lparr> ck_calls := ck_calls s @ [(c, d)] \<rparr>)"

definition ck_bind :: "'k \<Rightarrow> 'c option \<Rightarrow> ('k, 'c, 'd) keeper \<Rightarrow> ('k, 'c, 'd) keeper" where
  "ck_bind key f s =
     (let callback = (case map_of (ck_callbacks s) key of None \<Rightarrow> None | Some old \<Rightarrow> old);
          s = s\<lparr> ck_callbacks := AList.update key f (ck_callbacks s) \<rparr> in
      ck_call callback None s)"

definition ck_process :: "'k \<Rightarrow> 'd \<Rightarrow> ('k, 'c, 'd) keeper \<Rightarrow> ('k, 'c, 'd) keeper" where
  "ck_process key d s = (case map_of (ck_callbacks s) key of
     None \<Rightarrow> s
   | Some callback \<Rightarrow> ck_call callback (Some d) (s\<lparr> ck_callbacks := AList.delete key (ck_callbacks s) \<rparr>))"

text \<open>The destructor calls all that are left, in some order; calling an empty function throws, which ends the program.\<close>

fun ck_destroy_loop :: "('k \<times> 'c option) list \<Rightarrow> ('k, 'c, 'd) keeper \<Rightarrow> ('k, 'c, 'd) keeper option" where
  "ck_destroy_loop [] s = Some s"
| "ck_destroy_loop ((k, None) # cs) s = None"
| "ck_destroy_loop ((k, Some c) # cs) s = ck_destroy_loop cs (ck_call (Some c) None s)"

definition ck_destroy :: "('k, 'c, 'd) keeper \<Rightarrow> ('k, 'c, 'd) keeper option" where
  "ck_destroy s = ck_destroy_loop (ck_callbacks s) s"

datatype ('k, 'c, 'd) ck_op = Bind 'k 'c | Process 'k 'd

fun ck_step :: "('k, 'c, 'd) keeper \<Rightarrow> ('k, 'c, 'd) ck_op \<Rightarrow> ('k, 'c, 'd) keeper" where
  "ck_step s (Bind k c) = ck_bind k (Some c) s"
| "ck_step s (Process k d) = ck_process k d s"

section \<open>Once\<close>

definition waiting :: "('k, 'c, 'd) keeper \<Rightarrow> 'c multiset" where
  "waiting s = mset (map (the \<circ> snd) (ck_callbacks s))"

definition called :: "('k, 'c, 'd) keeper \<Rightarrow> 'c multiset" where
  "called s = mset (map fst (ck_calls s))"

fun bound :: "('k, 'c, 'd) ck_op list \<Rightarrow> 'c multiset" where
  "bound [] = {#}"
| "bound (Bind k c # ops) = add_mset c (bound ops)"
| "bound (Process k d # ops) = bound ops"

definition ck_ok :: "('k, 'c, 'd) keeper \<Rightarrow> bool" where
  "ck_ok s \<longleftrightarrow> distinct (map fst (ck_callbacks s)) \<and> None \<notin> snd ` set (ck_callbacks s)"

lemma mset_update_new: "map_of al k = None \<Longrightarrow> mset (map g (AList.update k v al)) = add_mset (g (k, v)) (mset (map g al))"
  by (induction al) (auto split: if_splits)

lemma mset_update_old:
  "map_of al k = Some old \<Longrightarrow> distinct (map fst al) \<Longrightarrow>
    add_mset (g (k, old)) (mset (map g (AList.update k v al))) = add_mset (g (k, v)) (mset (map g al))"
  by (induction al) (auto split: if_splits)

lemma mset_delete:
  "map_of al k = Some old \<Longrightarrow> distinct (map fst al) \<Longrightarrow> add_mset (g (k, old)) (mset (map g (AList.delete k al))) = mset (map g al)"
proof (induction al)
  case (Cons x al)
  show ?case
  proof (cases "fst x = k")
    case True
    then have "AList.delete k al = al" using Cons.prems by (intro delete_id) auto
    then show ?thesis using True Cons.prems by (cases x) auto
  qed (use Cons in \<open>cases x; auto\<close>)
qed simp

lemma snd_update: "snd ` set (AList.update k v al) \<subseteq> insert v (snd ` set al)"
  by (induction al) auto

lemma snd_delete: "snd ` set (AList.delete k al) \<subseteq> snd ` set al"
  by (induction al) auto

lemma ck_bind_once:
  assumes "ck_ok s"
  shows "ck_ok (ck_bind k (Some c) s) \<and> waiting (ck_bind k (Some c) s) + called (ck_bind k (Some c) s) = add_mset c (waiting s + called s)"
proof -
  let ?al = "ck_callbacks s"
  have ok: "distinct (map fst (AList.update k (Some c) ?al))" "None \<notin> snd ` set (AList.update k (Some c) ?al)"
    using assms snd_update [of k "Some c" ?al] by (auto simp: ck_ok_def distinct_update)
  show ?thesis
  proof (cases "map_of ?al k")
    case None
    then show ?thesis using ok mset_update_new [OF None, of "the \<circ> snd" "Some c"]
      by (simp add: ck_ok_def ck_bind_def ck_call_def waiting_def called_def)
  next
    case (Some old)
    then have "old \<in> snd ` set ?al" by (force dest: map_of_SomeD)
    then obtain o1 where o1: "old = Some o1" using assms by (cases old) (auto simp: ck_ok_def)
    have "add_mset o1 (mset (map (the \<circ> snd) (AList.update k (Some c) ?al))) = add_mset c (mset (map (the \<circ> snd) ?al))"
      using mset_update_old [OF Some, of "the \<circ> snd" "Some c"] assms o1 by (simp add: ck_ok_def)
    then show ?thesis using ok Some o1 by (simp add: ck_ok_def ck_bind_def ck_call_def waiting_def called_def)
  qed
qed

lemma ck_process_once:
  assumes "ck_ok s"
  shows "ck_ok (ck_process k d s) \<and> waiting (ck_process k d s) + called (ck_process k d s) = waiting s + called s"
proof (cases "map_of (ck_callbacks s) k")
  case None
  then show ?thesis using assms by (simp add: ck_process_def)
next
  case (Some old)
  let ?al = "ck_callbacks s"
  have "old \<in> snd ` set ?al" using Some by (force dest: map_of_SomeD)
  then obtain o1 where o1: "old = Some o1" using assms by (cases old) (auto simp: ck_ok_def)
  have "add_mset o1 (mset (map (the \<circ> snd) (AList.delete k ?al))) = mset (map (the \<circ> snd) ?al)"
    using mset_delete [OF Some, of "the \<circ> snd"] assms o1 by (simp add: ck_ok_def)
  moreover have "distinct (map fst (AList.delete k ?al))" "None \<notin> snd ` set (AList.delete k ?al)"
    using assms snd_delete [of k ?al] by (auto simp: ck_ok_def distinct_delete)
  ultimately show ?thesis using Some o1 by (simp add: ck_ok_def ck_process_def ck_call_def waiting_def called_def)
qed

lemma ck_run_once:
  "ck_ok s \<Longrightarrow> ck_ok (foldl ck_step s ops) \<and>
    waiting (foldl ck_step s ops) + called (foldl ck_step s ops) = waiting s + called s + bound ops"
proof (induction ops arbitrary: s)
  case (Cons op ops)
  have "ck_ok (ck_step s op) \<and> waiting (ck_step s op) + called (ck_step s op) + bound ops = waiting s + called s + bound (op # ops)"
    using ck_bind_once [OF Cons.prems] ck_process_once [OF Cons.prems] by (cases op) simp_all
  then show ?case using Cons.IH [of "ck_step s op"] by simp
qed simp

lemma ck_destroy_loop_calls:
  "None \<notin> snd ` set cs \<Longrightarrow> \<exists>s'. ck_destroy_loop cs s = Some s' \<and> called s' = called s + mset (map (the \<circ> snd) cs)"
proof (induction cs arbitrary: s)
  case (Cons x cs)
  obtain k c where x: "x = (k, Some c)" using Cons.prems by (cases x; cases "snd x") auto
  have "called (ck_call (Some c) None s) = add_mset c (called s)" by (simp add: ck_call_def called_def)
  then show ?case using Cons.IH [of "ck_call (Some c) None s"] Cons.prems x by auto
qed simp

text \<open>
  Whatever is bound and processed, in any order: every callback has been called at most once, and after the
  destructor exactly once, unless an empty one was bound.
\<close>

lemma callbacks_once:
  "(\<exists>s'. ck_destroy (foldl ck_step ck_new ops) = Some s' \<and> called s' = bound ops) \<and>
    called (foldl ck_step ck_new ops) \<subseteq># bound ops"
proof -
  let ?s = "foldl ck_step ck_new ops :: ('a, 'b, 'c) keeper"
  have s: "ck_ok ?s" "waiting ?s + called ?s = bound ops"
    using ck_run_once [of ck_new ops] by (simp_all add: ck_ok_def ck_new_def waiting_def called_def)
  obtain s' where "ck_destroy ?s = Some s'" "called s' = called ?s + waiting ?s"
    using ck_destroy_loop_calls [of "ck_callbacks ?s" ?s] s(1) by (auto simp: ck_destroy_def waiting_def ck_ok_def)
  then show ?thesis using s(2) by (metis add.commute mset_subset_eq_add_right)
qed

lemma empty_callback_ends:
  "ck_destroy (ck_bind k None ck_new) = None"
  by (simp add: ck_destroy_def ck_bind_def ck_call_def ck_new_def)

section \<open>The cache of objects\<close>

text \<open>Objects are addresses; \<open>freed\<close> records what was given back to the allocator, \<open>fresh\<close> what it returns.\<close>

record cache =
  cached :: "nat list"
  freed :: "nat list"

definition get_raw_ptr :: "nat option \<Rightarrow> cache \<Rightarrow> nat option \<times> cache" where
  "get_raw_ptr fresh s = (case cached s of [] \<Rightarrow> (fresh, s) | p # ps \<Rightarrow> (Some p, s\<lparr> cached := ps \<rparr>))"

definition set_raw_ptr :: "nat \<Rightarrow> nat option \<Rightarrow> cache \<Rightarrow> cache" where
  "set_raw_ptr kMaxObjectsCount ptr s = (case ptr of
     None \<Rightarrow> s
   | Some p \<Rightarrow> if length (cached s) < kMaxObjectsCount then s\<lparr> cached := p # cached s \<rparr>
       else s\<lparr> freed := freed s @ [p] \<rparr>)"

definition cache_destroy :: "cache \<Rightarrow> cache" where
  "cache_destroy s = s\<lparr> cached := [], freed := freed s @ cached s \<rparr>"

text \<open>
  The objects clients hold: what they get is theirs alone, and the cache never grows beyond its bound. \<open>out\<close> are
  the objects outside; the allocator returns an object that is in use nowhere.
\<close>

definition cache_ok :: "nat \<Rightarrow> nat list \<Rightarrow> cache \<Rightarrow> bool" where
  "cache_ok n out s \<longleftrightarrow> distinct (out @ cached s) \<and> length (cached s) \<le> n"

lemma get_raw_ptr_ok:
  assumes "cache_ok n out s" "get_raw_ptr fresh s = (Some p, s')" "\<And>q. fresh = Some q \<Longrightarrow> q \<notin> set out \<union> set (cached s)"
  shows "p \<notin> set out \<and> cache_ok n (p # out) s'"
  using assms by (auto simp: cache_ok_def get_raw_ptr_def split: list.splits)

lemma set_raw_ptr_ok:
  assumes "cache_ok n out s" "p \<in> set out"
  shows "cache_ok n (remove1 p out) (set_raw_ptr n (Some p) s)"
  using assms by (auto simp: cache_ok_def set_raw_ptr_def dest: set_remove1_subset [THEN subsetD])

lemma cache_accounts:
  "mset (p # cached s @ freed s) = mset (cached (set_raw_ptr n (Some p) s) @ freed (set_raw_ptr n (Some p) s))"
  "mset (freed (cache_destroy s)) = mset (cached s @ freed s)"
  by (simp_all add: set_raw_ptr_def cache_destroy_def)

end
