(* ===== verification/Sdk_Strings.thy ===== *)
theory Sdk_Strings
  imports Sdk_Prelude "HOL-Library.Monad_Syntax"
begin

text \<open>
  Loops over characters: \<^verbatim>\<open>str_tokenize\<close> of \<^verbatim>\<open>tools/string_utils.hpp\<close>, the dump of a byte vector of
  \<^verbatim>\<open>tools/string_converter.hpp\<close>, and \<^verbatim>\<open>r_substr\<close> of \<^verbatim>\<open>sdk_defines.hpp\<close>. A character is a number, a pointer the
  index into its array; an access outside of it is \<^term>\<open>None\<close>.
\<close>

section \<open>Tokens\<close>

text \<open>
  The calls of the function, as pairs of pointers, in order. \<open>chs\<close> is the array of separators with the zero that
  ends its literal.
\<close>

function tokenize_loop :: "nat list \<Rightarrow> nat list \<Rightarrow> nat \<Rightarrow> nat \<Rightarrow> (nat \<times> nat) list option" where
  "tokenize_loop data chs ptr tok_beg =
     (if ptr < length data then
        if data ! ptr \<noteq> 0 then
          if data ! ptr \<in> set chs then
            map_option ((@) (if ptr \<noteq> tok_beg then [(tok_beg, ptr)] else [])) (tokenize_loop data chs (Suc ptr) (Suc ptr))
          else tokenize_loop data chs (Suc ptr) tok_beg
        else Some (if ptr \<noteq> tok_beg then [(tok_beg, ptr)] else [])
      else None)"
  by pat_completeness auto
termination by (relation "measure (\<lambda>(data, chs, ptr, tok_beg). length data - ptr)") auto

declare tokenize_loop.simps [simp del]

definition str_tokenize :: "nat list \<Rightarrow> nat list \<Rightarrow> (nat \<times> nat) list option" where
  "str_tokenize data chs = tokenize_loop data chs 0 0"

text \<open>The reference: the longest runs without separators.\<close>

fun words_of :: "('a \<Rightarrow> bool) \<Rightarrow> 'a list \<Rightarrow> 'a list \<Rightarrow> 'a list list" where
  "words_of sep w [] = (if w = [] then [] else [w])"
| "words_of sep w (c # cs) = (if sep c then (if w = [] then [] else [w]) @ words_of sep [] cs else words_of sep (w @ [c]) cs)"

definition token_text :: "nat list \<Rightarrow> nat \<times> nat \<Rightarrow> nat list" where
  "token_text data = (\<lambda>(b, e). take (e - b) (drop b data))"

lemma tokenize_loop_words:
  assumes "data = pre @ w @ cs @ 0 # rest" "length pre = tok_beg" "length (pre @ w) = ptr" "0 \<notin> set cs"
  shows "\<exists>ts. tokenize_loop data chs ptr tok_beg = Some ts \<and> map (token_text data) ts = words_of (\<lambda>c. c \<in> set chs) w cs \<and>
    (\<forall>(b, e) \<in> set ts. b < e \<and> e \<le> length (pre @ w @ cs))"
  using assms
proof (induction cs arbitrary: pre w ptr tok_beg)
  case Nil
  have e: "data = (pre @ w) @ 0 # rest" using Nil by simp
  have "data ! length (pre @ w) = 0" unfolding e by (rule nth_append_length)
  then have "ptr < length data" "data ! ptr = 0" using Nil by simp_all
  moreover have "token_text data (tok_beg, ptr) = w" using Nil by (auto simp: token_text_def)
  ultimately show ?case using Nil by (subst tokenize_loop.simps) auto
next
  case (Cons c cs)
  then have p: "ptr < length data" "data ! ptr = c" "c \<noteq> 0" by (auto simp: nth_append)
  have w: "token_text data (tok_beg, ptr) = w" "ptr \<noteq> tok_beg \<longleftrightarrow> w \<noteq> []" using Cons.prems by (auto simp: token_text_def)
  show ?case
  proof (cases "c \<in> set chs")
    case True
    obtain ts where "tokenize_loop data chs (Suc ptr) (Suc ptr) = Some ts" "map (token_text data) ts = words_of (\<lambda>c. c \<in> set chs) [] cs"
        "\<forall>(b, e) \<in> set ts. b < e \<and> e \<le> length ((pre @ w @ [c]) @ [] @ cs)"
      using Cons.IH [of "pre @ w @ [c]" "[]" "Suc ptr" "Suc ptr"] Cons.prems by auto
    then show ?thesis using True p w Cons.prems(2,3) by (subst tokenize_loop.simps) auto
  next
    case False
    then show ?thesis using Cons.IH [of pre "w @ [c]" tok_beg "Suc ptr"] Cons.prems p
      by (subst tokenize_loop.simps) simp
  qed
qed

text \<open>The tokens are these runs; no call is made for an empty one, and none outside the string.\<close>

lemma str_tokenize_words:
  assumes "0 \<notin> set cs"
  shows "\<exists>ts. str_tokenize (cs @ 0 # rest) chs = Some ts \<and> map (token_text (cs @ 0 # rest)) ts = words_of (\<lambda>c. c \<in> set chs) [] cs \<and>
    (\<forall>(b, e) \<in> set ts. b < e \<and> e \<le> length cs)"
  using tokenize_loop_words [of "cs @ 0 # rest" "[]" "[]" cs rest 0 0 chs] assms by (simp add: str_tokenize_def)

section \<open>The end of a path\<close>

text \<open>\<open>ptr\<close> counts from one behind: the loop of \<^verbatim>\<open>r_substr_single\<close> leaves it on the character or in front of the array.\<close>

fun r_substr_single :: "nat list \<Rightarrow> nat \<Rightarrow> nat \<Rightarrow> nat" where
  "r_substr_single data ch 0 = 0"
| "r_substr_single data ch (Suc p) = (if data ! p \<noteq> ch then r_substr_single data ch p else Suc p)"

definition r_substr :: "nat list \<Rightarrow> nat list \<Rightarrow> nat" where
  "r_substr data chs = fold (\<lambda>ch ptr. max (r_substr_single data ch (length data)) ptr) chs 0"

lemma r_substr_single_last:
  "n \<le> length data \<Longrightarrow> r_substr_single data ch n \<le> n \<and>
    (r_substr_single data ch n = 0 \<longleftrightarrow> ch \<notin> set (take n data)) \<and>
    (0 < r_substr_single data ch n \<longrightarrow> data ! (r_substr_single data ch n - 1) = ch) \<and>
    (\<forall>i. r_substr_single data ch n \<le> i \<and> i < n \<longrightarrow> data ! i \<noteq> ch)"
proof (induction n)
  case (Suc n)
  then show ?case by (auto simp: take_Suc_conv_app_nth less_Suc_eq)
qed simp

lemma fold_max: "fold (\<lambda>x m. max (f x) m) xs a = Max (insert a (f ` set xs))" for f :: "'a \<Rightarrow> nat"
proof (induction xs arbitrary: a)
  case (Cons x xs)
  have "Max (insert (max (f x) a) (f ` set xs)) = Max (insert (f x) (insert a (f ` set xs)))"
    by (cases "set xs = {}") (simp_all add: Max_insert max.assoc)
  then show ?case using Cons by (simp add: insert_commute)
qed simp

text \<open>
  The zero that ends the literal of separators is searched for as well. When \<open>data\<close> is a literal it ends with a
  zero, too, and the result is always its end.
\<close>

lemma r_substr_literals: "r_substr (cs @ [0]) (chs @ [0]) = length (cs @ [0])"
proof -
  let ?f = "\<lambda>c. r_substr_single (cs @ [0]) c (length (cs @ [0]))"
  have le: "?f c \<le> length (cs @ [0])" for c
    using conjunct1 [OF r_substr_single_last [OF order.refl]] .
  have last: "?f 0 = length (cs @ [0])" by simp
  have "Max (insert 0 (?f ` set (chs @ [0]))) = length (cs @ [0])"
  proof (rule Max_eqI)
    show "y \<le> length (cs @ [0])" if "y \<in> insert 0 (?f ` set (chs @ [0]))" for y
      using that le by (elim insertE imageE) (simp_all only: le le0)
    show "length (cs @ [0]) \<in> insert 0 (?f ` set (chs @ [0]))"
      by (rule insertI2, rule image_eqI [where x = 0]) (use last in simp_all)
  qed simp
  then show ?thesis unfolding r_substr_def fold_max .
qed

section \<open>The dump of bytes\<close>

text \<open>\<open>fmt\<close> is \<^verbatim>\<open>sprintf\<close> with the format of a byte: eight characters, behind which it puts a zero.\<close>

fun dump_loop :: "(nat \<Rightarrow> nat list) \<Rightarrow> nat \<Rightarrow> nat list \<Rightarrow> nat list \<Rightarrow> nat \<Rightarrow> nat list \<Rightarrow> (nat list \<times> nat \<times> nat list) option" where
  "dump_loop fmt pos [] buf count to = Some (buf, count, to)"
| "dump_loop fmt pos (b # bs) buf count to =
     (let (buf, count, to) = (if pos mod 16 = 0 \<and> pos \<noteq> 0 then (buf[0 := 10], 1, to @ take count buf) else (buf, count, to)) in do {
       buf \<leftarrow> put_at count (fmt b @ [0]) buf;
       dump_loop fmt (Suc pos) bs buf (count + 8) to })"

definition str_conv_bytes :: "(nat \<Rightarrow> nat list) \<Rightarrow> nat list \<Rightarrow> nat list \<Rightarrow> nat list \<Rightarrow> nat list \<Rightarrow> nat list \<Rightarrow> nat list option" where
  "str_conv_bytes fmt label no_data buf from to = (if from \<noteq> [] then do {
       (buf, count, to) \<leftarrow> dump_loop fmt 0 from buf 0 to;
       Some ((if length from mod 16 \<noteq> 0 then to @ take count buf else to) @ label @ from) }
     else Some (to @ no_data))"

text \<open>
  What the loop has in the buffer after the bytes \<open>bs\<close>: the line of the last ones, and all the lines before it
  in the result.
\<close>

fun dump_lines :: "(nat \<Rightarrow> nat list) \<Rightarrow> nat \<Rightarrow> nat list \<Rightarrow> nat list \<Rightarrow> nat list \<Rightarrow> nat list \<times> nat list" where
  "dump_lines fmt pos [] line to = (line, to)"
| "dump_lines fmt pos (b # bs) line to =
     (if pos mod 16 = 0 \<and> pos \<noteq> 0 then dump_lines fmt (Suc pos) bs (10 # fmt b) (to @ line)
      else dump_lines fmt (Suc pos) bs (line @ fmt b) to)"

lemma dump_loop_lines:
  assumes "\<And>b. length (fmt b) = 8" "512 \<le> length buf" "take (length line) buf = line"
    "length line \<le> 1 + 8 * (if pos mod 16 = 0 \<and> pos \<noteq> 0 then 16 else pos mod 16)"
  shows "\<exists>buf'. dump_loop fmt pos bs buf (length line) to =
    Some (buf', length (fst (dump_lines fmt pos bs line to)), snd (dump_lines fmt pos bs line to)) \<and>
    take (length (fst (dump_lines fmt pos bs line to))) buf' = fst (dump_lines fmt pos bs line to)"
  using assms(2-)
proof (induction bs arbitrary: pos buf line to)
  case (Cons b bs)
  have fits: "put_at (length l) (fmt b @ [0]) bf = Some (l @ fmt b @ [0] @ drop (length l + 9) bf)"
    if "take (length l) bf = l" "length l \<le> 129" "512 \<le> length bf" for l bf
    using that assms(1) by (simp add: put_at_def)
  show ?case
  proof (cases "pos mod 16 = 0 \<and> pos \<noteq> 0")
    case True
    have len: "length (10 # fmt b) \<le> 1 + 8 * (if Suc pos mod 16 = 0 \<and> Suc pos \<noteq> 0 then 16 else Suc pos mod 16)"
      using True assms(1) by (auto simp: mod_Suc)
    have t: "take (length [10]) (buf[0 := 10]) = [10]" using Cons.prems(1) by (cases buf) auto
    note p = fits [OF t]
    show ?thesis
      using Cons.IH [of "[10] @ fmt b @ [0] @ drop 10 (buf[0 := 10])" "10 # fmt b" "Suc pos" "to @ line"]
        len True Cons.prems assms(1) p by simp
  next
    case False
    have m: "Suc pos mod 16 = (if pos mod 16 = 15 then 0 else Suc (pos mod 16))" by (simp add: mod_Suc)
    have "length (line @ fmt b) \<le> 1 + 8 * (if Suc pos mod 16 = 0 \<and> Suc pos \<noteq> 0 then 16 else Suc pos mod 16)"
      using False Cons.prems(3) assms(1) m by (auto split: if_splits)
    moreover have "length line \<le> 129" using Cons.prems(3) by (auto split: if_splits)
    ultimately show ?thesis
      using Cons.IH [of "line @ fmt b @ [0] @ drop (length line + 9) buf" "line @ fmt b" "Suc pos" to]
        fits [OF Cons.prems(2)] False Cons.prems assms(1) by (simp only: dump_loop.simps dump_lines.simps if_not_P [OF False] Let_def prod.case) simp
  qed
qed simp

end
