(* ===== verification/Sdk_Threaded_Handler.thy ===== *)
theory Sdk_Threaded_Handler
  imports Sdk_Ring_Queue "HOL-Library.Multiset"
begin

text \<open>
  \<^verbatim>\<open>tools/threaded_handler.hpp\<close>: messages are constructed in a ring buffer by any number of clients and handled by one
  thread; and \<^verbatim>\<open>buffer_auto_commit\<close> of \<^verbatim>\<open>tools/ring_buffer.hpp\<close>, through which they get there. A step is what a client
  or the thread does in one operation of the buffer, of the event or of the object; the steps of all of them interleave.
  A call that would wait leaves the state as it is. A message is an object of some size; \<open>th_obj\<close> is what lies in the
  buffer, by its offset. \<open>th_sent\<close>, \<open>th_msg\<close> and \<open>th_done\<close> record the order of allocation and what was handled, with
  whether a function was set then.

  A constructor that throws is a step of its own, \<open>Throws\<close>: the scope is left by the exception, and the destructor of
  \<^verbatim>\<open>buffer_auto_commit\<close> commits the block all the same, without an object in it. The properties say where they leave this
  step out; \<open>throwing_constructor\<close> shows what it leads to. That the thread can be created, and that the function is not
  exchanged in the middle of a call (the thread reads it without the lock), is taken for granted.
\<close>

section \<open>Commit at the end of a scope\<close>

record auto_commit =
  ac_buffer :: bool
  ac_handle :: nat

definition ac_new :: auto_commit where
  "ac_new = \<lparr> ac_buffer = True, ac_handle = k_invalid_handle \<rparr>"

definition ac_empty :: auto_commit where
  "ac_empty = \<lparr> ac_buffer = False, ac_handle = k_invalid_handle \<rparr>"

text \<open>The new object and what is left of the old one.\<close>

definition ac_move :: "auto_commit \<Rightarrow> auto_commit \<times> auto_commit" where
  "ac_move c = (c, c\<lparr> ac_buffer := False, ac_handle := k_invalid_handle \<rparr>)"

definition ac_allocate :: "ring_cfg \<Rightarrow> nat \<Rightarrow> bool \<Rightarrow> auto_commit \<Rightarrow> ring_buffer \<Rightarrow> (alloc_result \<times> auto_commit \<times> ring_buffer) option" where
  "ac_allocate c sz no_wait b r =
     (if ac_handle b = k_invalid_handle \<and> ac_buffer b then do {
        (x, r) \<leftarrow> rb_allocate c no_wait sz r;
        Some (x, (case x of Block h p \<Rightarrow> b\<lparr> ac_handle := h \<rparr> | _ \<Rightarrow> b), r) }
      else Some (Null, b, r))"

definition ac_destroy :: "ring_cfg \<Rightarrow> auto_commit \<Rightarrow> ring_buffer \<Rightarrow> ring_buffer option" where
  "ac_destroy c b r = (if ac_buffer b then rb_commit c (ac_handle b) r else Some r)"

section \<open>State\<close>

datatype work_status = k_exit | k_work

text \<open>Where the thread is: none, the test of the loop, the event, the buffer, a message, or behind the loop.\<close>

datatype proc_at = No_thread | Loop_test | Waits | Peeks | Handles nat | Frees nat | Ended

text \<open>Where a call of \<^verbatim>\<open>push\<close> or \<^verbatim>\<open>push_no_wait\<close> is.\<close>

datatype 'm pushing = Starting bool 'm | Allocating bool 'm | Constructing 'm auto_commit nat | Committing 'm auto_commit nat
  | Giving_up auto_commit | Setting | Pushed

record 'm handler =
  th_rb :: ring_buffer
  th_obj :: "nat \<Rightarrow> 'm option"
  th_status :: "work_status option"
  th_thread :: proc_at
  th_event :: bool
  th_f :: bool
  th_pushes :: "'m pushing list"
  th_msg :: "nat \<Rightarrow> 'm option"
  th_sent :: "'m list"
  th_done :: "('m \<times> bool) list"

definition th_new :: "bool \<Rightarrow> 'm handler" where
  "th_new f = \<lparr> th_rb = ring_new, th_obj = (\<lambda>p. None), th_status = None, th_thread = No_thread, th_event = False, th_f = f,
     th_pushes = [], th_msg = (\<lambda>p. None), th_sent = [], th_done = [] \<rparr>"

section \<open>Steps\<close>

definition set_push :: "nat \<Rightarrow> 'm pushing \<Rightarrow> 'm handler \<Rightarrow> 'm handler" where
  "set_push i x s = s\<lparr> th_pushes := (th_pushes s)[i := x] \<rparr>"

text \<open>\<^verbatim>\<open>_push\<close> of one client.\<close>

fun push_step :: "ring_cfg \<Rightarrow> ('m \<Rightarrow> nat) \<Rightarrow> nat \<Rightarrow> 'm pushing \<Rightarrow> 'm handler \<Rightarrow> 'm handler option" where
  "push_step c sizeof i (Starting no_wait m) s =
     Some (set_push i (Allocating no_wait m)
       (if th_thread s = No_thread then s\<lparr> th_status := Some k_work, th_thread := Loop_test \<rparr> else s))"
| "push_step c sizeof i (Allocating no_wait m) s = do {
     (x, b, r) \<leftarrow> ac_allocate c (sizeof m) no_wait ac_new (th_rb s);
     Some (case x of
        Null \<Rightarrow> set_push i (Giving_up b) (s\<lparr> th_rb := r \<rparr>)
      | Wait \<Rightarrow> s\<lparr> th_rb := r \<rparr>
      | Block h p \<Rightarrow> set_push i (Constructing m b p)
          (s\<lparr> th_rb := r, th_msg := (th_msg s)(p \<mapsto> m), th_sent := th_sent s @ [m] \<rparr>)) }"
| "push_step c sizeof i (Constructing m b p) s = Some (set_push i (Committing m b p) (s\<lparr> th_obj := (th_obj s)(p \<mapsto> m) \<rparr>))"
| "push_step c sizeof i (Committing m b p) s = do {
     r \<leftarrow> ac_destroy c b (th_rb s);
     Some (set_push i Setting (s\<lparr> th_rb := r \<rparr>)) }"
| "push_step c sizeof i (Giving_up b) s = do {
     r \<leftarrow> ac_destroy c b (th_rb s);
     Some (set_push i Pushed (s\<lparr> th_rb := r \<rparr>)) }"
| "push_step c sizeof i Setting s = Some (set_push i Pushed (s\<lparr> th_event := True \<rparr>))"
| "push_step c sizeof i Pushed s = Some s"

text \<open>The constructor throws: nothing is in the block, and the scope ends with the exception, without the event.\<close>

fun push_throws :: "nat \<Rightarrow> 'm pushing \<Rightarrow> 'm handler \<Rightarrow> 'm handler" where
  "push_throws i (Constructing m b p) s = set_push i (Giving_up b) s"
| "push_throws i _ s = s"

text \<open>
  \<^verbatim>\<open>proc\<close>. Waiting ends with the event or, at the latest when its time is over, without it; the infinite timeout is over at
  once (lemma \<open>infinite_timeout\<close>). An exception of the function is caught.
\<close>

fun proc_step :: "ring_cfg \<Rightarrow> proc_at \<Rightarrow> 'm handler \<Rightarrow> 'm handler option" where
  "proc_step c Loop_test s = do {
     st \<leftarrow> th_status s;
     Some (s\<lparr> th_thread := (if st \<noteq> k_exit then Waits else Ended) \<rparr>) }"
| "proc_step c Waits s = Some (s\<lparr> th_thread := Peeks, th_event := False \<rparr>)"
| "proc_step c Peeks s = do {
     (x, r) \<leftarrow> rb_peek c (th_rb s);
     Some (s\<lparr> th_rb := r, th_thread := (case x of Peek p n \<Rightarrow> Handles p | Peek_Null \<Rightarrow> Loop_test | Peek_Wait \<Rightarrow> Peeks) \<rparr>) }"
| "proc_step c (Handles p) s = do {
     m \<leftarrow> th_obj s p;
     Some (s\<lparr> th_thread := Frees p, th_done := th_done s @ [(m, th_f s)] \<rparr>) }"
| "proc_step c (Frees p) s = do {
     f \<leftarrow> rb_free c (th_rb s);
     Some (case f of None \<Rightarrow> s | Some r \<Rightarrow> s\<lparr> th_rb := r, th_obj := (th_obj s)(p := None), th_thread := Peeks \<rparr>) }"
| "proc_step c w s = Some s"

datatype 'm label = Push bool 'm | Client nat | Throws nat | Worker | Stop | Join | Set_callback bool

text \<open>\<^verbatim>\<open>stop\<close> is \<open>Stop\<close>, and \<open>Join\<close> when the thread has ended.\<close>

fun th_exec :: "ring_cfg \<Rightarrow> ('m \<Rightarrow> nat) \<Rightarrow> 'm label \<Rightarrow> 'm handler \<Rightarrow> 'm handler option" where
  "th_exec c sizeof (Push no_wait m) s = Some (s\<lparr> th_pushes := th_pushes s @ [Starting no_wait m] \<rparr>)"
| "th_exec c sizeof (Client i) s = (if i < length (th_pushes s) then push_step c sizeof i (th_pushes s ! i) s else Some s)"
| "th_exec c sizeof (Throws i) s = Some (if i < length (th_pushes s) then push_throws i (th_pushes s ! i) s else s)"
| "th_exec c sizeof Worker s = proc_step c (th_thread s) s"
| "th_exec c sizeof Stop s = Some (s\<lparr> th_status := Some k_exit, th_event := True \<rparr>)"
| "th_exec c sizeof Join s = Some (if th_thread s = Ended then s\<lparr> th_thread := No_thread \<rparr> else s)"
| "th_exec c sizeof (Set_callback f) s = Some (s\<lparr> th_f := f \<rparr>)"

text \<open>No constructor throws in these steps.\<close>

fun throws :: "'m label \<Rightarrow> bool" where
  "throws (Throws i) = True"
| "throws _ = False"

definition no_throw :: "'m label list \<Rightarrow> bool" where
  "no_throw ls \<longleftrightarrow> list_all (Not \<circ> throws) ls"

fun th_run :: "ring_cfg \<Rightarrow> ('m \<Rightarrow> nat) \<Rightarrow> 'm label list \<Rightarrow> 'm handler \<Rightarrow> 'm handler option" where
  "th_run c sizeof [] s = Some s"
| "th_run c sizeof (l # ls) s = do { s \<leftarrow> th_exec c sizeof l s; th_run c sizeof ls s }"

section \<open>The invariant\<close>

text \<open>The block that a client has and the thread has not.\<close>

fun block_of :: "'m pushing \<Rightarrow> nat list" where
  "block_of (Constructing m b p) = [p]"
| "block_of (Committing m b p) = [p]"
| "block_of _ = []"

definition claimed :: "'m pushing list \<Rightarrow> nat list" where
  "claimed ps = concat (map block_of ps)"

definition ac_ok :: "ring_cfg \<Rightarrow> auto_commit \<Rightarrow> nat \<Rightarrow> bool" where
  "ac_ok c b p \<longleftrightarrow> ac_buffer b \<and> ac_handle b mod rb_size c + sizeof_prefix c = p \<and> ac_handle b \<noteq> k_invalid_handle"

fun push_ok :: "ring_cfg \<Rightarrow> 'm handler \<Rightarrow> entry list \<Rightarrow> 'm pushing \<Rightarrow> bool" where
  "push_ok c s q (Constructing m b p) \<longleftrightarrow> p \<in> fst ` set q \<and> ac_ok c b p \<and> th_msg s p = Some m"
| "push_ok c s q (Committing m b p) \<longleftrightarrow> p \<in> fst ` set q \<and> ac_ok c b p \<and> th_msg s p = Some m \<and> th_obj s p = Some m"
| "push_ok c s q (Giving_up b) \<longleftrightarrow> ac_handle b = k_invalid_handle"
| "push_ok c s q _ \<longleftrightarrow> True"

fun worker_ok :: "proc_at \<Rightarrow> entry list \<Rightarrow> bool" where
  "worker_ok (Handles p) q \<longleftrightarrow> (\<exists>n q'. q = (p, n, commited) # q')"
| "worker_ok (Frees p) q \<longleftrightarrow> (\<exists>n q'. q = (p, n, commited) # q')"
| "worker_ok _ q \<longleftrightarrow> True"

definition entry_ok :: "'m handler \<Rightarrow> entry \<Rightarrow> bool" where
  "entry_ok s e \<longleftrightarrow> th_msg s (fst e) \<noteq> None \<and> (if fst e \<in> set (claimed (th_pushes s)) then snd (snd e) = busy
     else snd (snd e) = commited \<and> th_obj s (fst e) = th_msg s (fst e))"

text \<open>The blocks whose message has not been handled.\<close>

definition unread :: "proc_at \<Rightarrow> entry list \<Rightarrow> entry list" where
  "unread w q = (case w of Frees p \<Rightarrow> tl q | _ \<Rightarrow> q)"

definition th_inv :: "ring_cfg \<Rightarrow> 'm handler \<Rightarrow> entry list \<Rightarrow> bool" where
  "th_inv c s q \<longleftrightarrow> rb_ok c \<and> rb_abs c (th_rb s) q \<and> distinct (map fst q) \<and> (\<forall>e \<in> set q. entry_ok s e) \<and>
     distinct (claimed (th_pushes s)) \<and> (\<forall>x \<in> set (th_pushes s). push_ok c s q x) \<and>
     worker_ok (th_thread s) q \<and> (th_thread s \<noteq> No_thread \<longrightarrow> th_status s \<noteq> None) \<and>
     map Some (th_sent s) = map (Some \<circ> fst) (th_done s) @ map (th_msg s \<circ> fst) (unread (th_thread s) q)"

lemma claimed_update:
  assumes "i < length ps"
  shows "mset (claimed (ps[i := x])) + mset (block_of (ps ! i)) = mset (claimed ps) + mset (block_of x)"
proof -
  have "claimed ps = claimed (take i ps) @ block_of (ps ! i) @ claimed (drop (Suc i) ps)"
    by (subst id_take_nth_drop [OF assms]) (simp add: claimed_def)
  moreover have "claimed (ps[i := x]) = claimed (take i ps) @ block_of x @ claimed (drop (Suc i) ps)"
    using assms by (simp add: upd_conv_take_nth_drop claimed_def)
  ultimately show ?thesis by simp
qed

lemma claimed_same: "i < length ps \<Longrightarrow> block_of x = block_of (ps ! i) \<Longrightarrow> claimed (ps[i := x]) = claimed ps"
  unfolding claimed_def by (simp add: map_update) (metis length_map list_update_id nth_map)

lemma claimed_take:
  assumes "i < length ps" "block_of (ps ! i) = []" "block_of x = [p]" "p \<notin> set (claimed ps)" "distinct (claimed ps)"
  shows "set (claimed (ps[i := x])) = insert p (set (claimed ps)) \<and> distinct (claimed (ps[i := x]))"
proof -
  have "mset (claimed (ps[i := x])) = mset (p # claimed ps)" using claimed_update [OF assms(1), of x] assms(2,3) by simp
  then show ?thesis using assms(4,5) by (metis distinct.simps(2) list.simps(15) mset_eq_imp_distinct_iff mset_eq_setD)
qed

lemma claimed_give:
  assumes "i < length ps" "block_of (ps ! i) = [p]" "block_of x = []" "distinct (claimed ps)"
  shows "set (claimed ps) = insert p (set (claimed (ps[i := x]))) \<and> p \<notin> set (claimed (ps[i := x])) \<and> distinct (claimed (ps[i := x]))"
proof -
  have "mset (claimed ps) = mset (p # claimed (ps[i := x]))" using claimed_update [OF assms(1), of x] assms(2,3) by simp
  then show ?thesis using assms(4) by (metis distinct.simps(2) list.simps(15) mset_eq_imp_distinct_iff mset_eq_setD)
qed

lemma push_ok_cong: "th_msg s = th_msg s' \<Longrightarrow> th_obj s = th_obj s' \<Longrightarrow> push_ok c s q x = push_ok c s' q x"
  by (cases x) simp_all

lemma push_ok_frame [simp]:
  "push_ok c (s\<lparr> th_event := ev \<rparr>) q x = push_ok c s q x" "push_ok c (s\<lparr> th_f := f \<rparr>) q x = push_ok c s q x"
  "push_ok c (s\<lparr> th_status := st \<rparr>) q x = push_ok c s q x" "push_ok c (s\<lparr> th_thread := w \<rparr>) q x = push_ok c s q x"
  "push_ok c (s\<lparr> th_pushes := ps \<rparr>) q x = push_ok c s q x" "push_ok c (s\<lparr> th_rb := r \<rparr>) q x = push_ok c s q x"
  "push_ok c (s\<lparr> th_done := d \<rparr>) q x = push_ok c s q x" "push_ok c (s\<lparr> th_sent := l \<rparr>) q x = push_ok c s q x"
  by (rule push_ok_cong; simp)+

lemma entry_ok_frame [simp]:
  "entry_ok (s\<lparr> th_event := ev \<rparr>) e = entry_ok s e" "entry_ok (s\<lparr> th_f := f \<rparr>) e = entry_ok s e"
  "entry_ok (s\<lparr> th_status := st \<rparr>) e = entry_ok s e" "entry_ok (s\<lparr> th_thread := w \<rparr>) e = entry_ok s e"
  "entry_ok (s\<lparr> th_rb := r \<rparr>) e = entry_ok s e" "entry_ok (s\<lparr> th_done := d \<rparr>) e = entry_ok s e"
  "entry_ok (s\<lparr> th_sent := l \<rparr>) e = entry_ok s e"
  by (simp_all add: entry_ok_def)

lemma th_inv_frame [simp]:
  "th_inv c (s\<lparr> th_event := ev \<rparr>) q = th_inv c s q" "th_inv c (s\<lparr> th_f := f \<rparr>) q = th_inv c s q"
  by (simp_all add: th_inv_def)

lemma th_inv_rb: "th_inv c s q \<Longrightarrow> rb_abs c r q \<Longrightarrow> th_inv c (s\<lparr> th_rb := r \<rparr>) q"
  by (simp add: th_inv_def)

lemma th_inv_status: "th_inv c s q \<Longrightarrow> th_inv c (s\<lparr> th_status := Some st \<rparr>) q"
  by (simp add: th_inv_def)

text \<open>A client moves on without a change of its block.\<close>

lemma th_inv_push:
  assumes "th_inv c s q" "i < length (th_pushes s)" "block_of x = block_of (th_pushes s ! i)" "push_ok c s q x"
  shows "th_inv c (set_push i x s) q"
proof -
  have "claimed ((th_pushes s)[i := x]) = claimed (th_pushes s)" using assms(2,3) by (rule claimed_same)
  moreover have "push_ok c s q y" if "y \<in> set ((th_pushes s)[i := x])" for y
    using that assms(1,4) set_update_subset_insert [of "th_pushes s" i x] by (auto simp: th_inv_def)
  ultimately show ?thesis using assms(1) by (auto simp: th_inv_def set_push_def entry_ok_def)
qed

lemma block_queued: "push_ok c s q x \<Longrightarrow> p \<in> set (block_of x) \<Longrightarrow> p \<in> fst ` set q"
  by (cases x) simp_all

lemma claimed_queued: "th_inv c s q \<Longrightarrow> p \<in> set (claimed (th_pushes s)) \<Longrightarrow> p \<in> fst ` set q"
  using block_queued by (fastforce simp: th_inv_def claimed_def)

text \<open>A client gets a block.\<close>

lemma th_inv_alloc:
  assumes "th_inv c s q" "i < length (th_pushes s)" "block_of (th_pushes s ! i) = []"
    and "rb_abs c r (q @ [(p, n, busy)])" "p \<notin> fst ` set q" "ac_ok c b p"
  shows "th_inv c (set_push i (Constructing m b p) (s\<lparr> th_rb := r, th_msg := (th_msg s)(p \<mapsto> m), th_sent := th_sent s @ [m] \<rparr>)) (q @ [(p, n, busy)])"
proof -
  let ?s = "set_push i (Constructing m b p) (s\<lparr> th_rb := r, th_msg := (th_msg s)(p \<mapsto> m), th_sent := th_sent s @ [m] \<rparr>)"
  have np: "p \<notin> set (claimed (th_pushes s))" using claimed_queued [OF assms(1)] assms(5) by blast
  have cl: "set (claimed (th_pushes ?s)) = insert p (set (claimed (th_pushes s)))" "distinct (claimed (th_pushes ?s))"
    using claimed_take [OF assms(2,3) _ np] assms(1) by (simp_all add: set_push_def th_inv_def)
  have e: "entry_ok ?s e" if "e \<in> set (q @ [(p, n, busy)])" for e
  proof (cases "fst e = p")
    case True
    then have "e = (p, n, busy)" using that assms(5) by force
    then show ?thesis using cl(1) by (simp add: entry_ok_def set_push_def)
  next
    case False
    then have "entry_ok s e" using that assms(1) by (auto simp: th_inv_def)
    then show ?thesis using False cl(1) unfolding entry_ok_def by (simp add: set_push_def)
  qed
  have x: "push_ok c ?s (q @ [(p, n, busy)]) x" if "x \<in> set (th_pushes ?s)" for x
  proof (cases "x = Constructing m b p")
    case True
    then show ?thesis using assms(6) by (simp add: set_push_def)
  next
    case False
    then have "x \<in> set (th_pushes s)" using that set_update_subset_insert [of "th_pushes s" i "Constructing m b p"] by (auto simp: set_push_def)
    then have "push_ok c s q x" using assms(1) by (simp add: th_inv_def)
    then show ?thesis using assms(5) by (cases x) (auto simp: set_push_def)
  qed
  have m: "map (th_msg ?s \<circ> fst) (unread (th_thread s) q) = map (th_msg s \<circ> fst) (unread (th_thread s) q)"
    using assms(5) by (cases "th_thread s"; cases q) (auto simp: unread_def set_push_def)
  have u: "unread (th_thread s) (q @ [(p, n, busy)]) = unread (th_thread s) q @ [(p, n, busy)]"
    using assms(1) by (cases "th_thread s") (auto simp: unread_def th_inv_def)
  have w: "worker_ok (th_thread s) (q @ [(p, n, busy)])" using assms(1) by (cases "th_thread s") (auto simp: th_inv_def)
  show ?thesis
    unfolding th_inv_def using assms(1,4,5) cl(2) e x m u w
    by (auto simp: th_inv_def set_push_def)
qed

text \<open>A client constructs its message, then commits its block.\<close>

lemma th_inv_construct:
  assumes "th_inv c s q" "i < length (th_pushes s)" "th_pushes s ! i = Constructing m b p"
  shows "th_inv c (set_push i (Committing m b p) (s\<lparr> th_obj := (th_obj s)(p \<mapsto> m) \<rparr>)) q"
proof -
  let ?s = "s\<lparr> th_obj := (th_obj s)(p \<mapsto> m) \<rparr>"
  have x: "push_ok c s q (Constructing m b p)" using assms by (metis nth_mem th_inv_def)
  have cl: "p \<in> set (claimed (th_pushes s))" using assms(2,3) by (force simp: claimed_def in_set_conv_nth)
  have "entry_ok ?s e" if "entry_ok s e" for e using that cl by (auto simp: entry_ok_def)
  moreover have "push_ok c ?s q y" if "push_ok c s q y" for y using that x by (cases y) auto
  ultimately have "th_inv c ?s q" using assms(1) by (simp add: th_inv_def)
  then show ?thesis using assms(2,3) x by (intro th_inv_push) auto
qed

lemma map_fst_mark [simp]: "map fst (mark p st q) = map fst q"
  by (auto simp: mark_def)

lemma image_fst_mark [simp]: "fst ` set (mark p st q) = fst ` set q"
  by (metis map_fst_mark set_map)

lemma mark_fst: "map (f \<circ> fst) (mark p st q) = map (f \<circ> fst) q"
  by (auto simp: mark_def)

lemma push_ok_fst: "fst ` set q = fst ` set q' \<Longrightarrow> push_ok c s q x = push_ok c s q' x"
  by (cases x) simp_all

lemma th_inv_commit:
  assumes "th_inv c s q" "i < length (th_pushes s)" "th_pushes s ! i = Committing m b p" "rb_abs c r (mark p commited q)"
  shows "th_inv c (set_push i Setting (s\<lparr> th_rb := r \<rparr>)) (mark p commited q)"
proof -
  let ?s = "set_push i Setting (s\<lparr> th_rb := r \<rparr>)" and ?q = "mark p commited q"
  have x: "push_ok c s q (Committing m b p)" using assms(1-3) by (metis nth_mem th_inv_def)
  have cl: "set (claimed (th_pushes s)) = insert p (set (claimed (th_pushes ?s)))" "p \<notin> set (claimed (th_pushes ?s))"
    "distinct (claimed (th_pushes ?s))"
    using claimed_give [of i "th_pushes s" p Setting] assms(1-3) by (simp_all add: set_push_def th_inv_def)
  have "entry_ok ?s e" if mem: "e \<in> set ?q" for e
  proof -
    obtain p' n st where e: "(p', n, st) \<in> set q" "e = (p', n, if p' = p then commited else st)" using mem by (auto simp: mark_def)
    then have "entry_ok s (p', n, st)" using assms(1) by (auto simp: th_inv_def)
    then show ?thesis using x e(2) cl(1,2) unfolding entry_ok_def by (simp add: set_push_def split: if_splits)
  qed
  moreover have "push_ok c ?s ?q y" if "y \<in> set (th_pushes ?s)" for y
  proof -
    have "y = Setting \<or> y \<in> set (th_pushes s)" using that set_update_subset_insert [of "th_pushes s" i Setting] by (auto simp: set_push_def)
    then have "push_ok c s q y" using assms(1) by (auto simp: th_inv_def)
    then show ?thesis using push_ok_fst [of ?q q c s y] by (simp add: set_push_def)
  qed
  moreover have "worker_ok (th_thread s) ?q" using assms(1) by (cases "th_thread s") (auto simp: th_inv_def mark_def)
  moreover have "map (th_msg s \<circ> fst) (unread (th_thread s) ?q) = map (th_msg s \<circ> fst) (unread (th_thread s) q)"
    by (cases "th_thread s") (simp_all add: unread_def mark_fst, simp add: mark_def map_tl [symmetric] split_beta comp_def)
  ultimately show ?thesis unfolding th_inv_def using assms(1,4) cl(3) by (auto simp: th_inv_def set_push_def)
qed

text \<open>One step of a client.\<close>

lemma ac_new_allocate:
  "ac_allocate c sz nw ac_new r = do { (x, r) \<leftarrow> rb_allocate c nw sz r;
     Some (x, (case x of Block h p \<Rightarrow> \<lparr> ac_buffer = True, ac_handle = h \<rparr> | _ \<Rightarrow> ac_new), r) }"
  by (auto simp: ac_allocate_def ac_new_def split: Option.bind_split alloc_result.split)

lemma push_step_alloc:
  assumes "th_inv c s q" "i < length (th_pushes s)" "th_pushes s ! i = Allocating nw m"
  shows "\<exists>s' q'. push_step c sizeof i (Allocating nw m) s = Some s' \<and> th_inv c s' q'"
proof (cases "0 < sizeof m \<and> 4 * sizeof m \<le> rb_size c")
  case False
  then have "rb_allocate c nw (sizeof m) (th_rb s) = Some (Null, th_rb s)"
    by (auto simp: rb_allocate_def drop_bit_eq_div)
  moreover have "th_inv c (set_push i (Giving_up ac_new) s) q"
    using assms by (intro th_inv_push) (simp_all add: ac_new_def)
  ultimately show ?thesis by (simp add: ac_new_allocate) blast
next
  case True
  have abs: "rb_abs c (th_rb s) q" using assms(1) by (simp add: th_inv_def)
  obtain x r where a: "rb_allocate c nw (sizeof m) (th_rb s) = Some (x, r)"
    "case x of Null \<Rightarrow> nw \<and> rb_abs c r q | Wait \<Rightarrow> \<not> nw \<and> rb_abs c r q
     | Block h p \<Rightarrow> \<exists>n. sizeof m \<le> n \<and> p + n \<le> rb_size c \<and> h mod rb_size c + sizeof_prefix c = p \<and> h \<noteq> k_invalid_handle \<and>
         rb_abs c r (q @ [(p, n, busy)]) \<and> (\<forall>(p', n', s) \<in> set q. p' + n' \<le> p - sizeof_prefix c \<or> p + n \<le> p' - sizeof_prefix c)"
    using rb_allocate_queue [OF abs] True by blast
  show ?thesis
  proof (cases x)
    case Null
    then have "th_inv c (set_push i (Giving_up ac_new) (s\<lparr> th_rb := r \<rparr>)) q"
      using assms a(2) by (intro th_inv_push th_inv_rb) (simp_all add: ac_new_def)
    then show ?thesis using a(1) Null by (simp add: ac_new_allocate) blast
  next
    case Wait
    then have "th_inv c (s\<lparr> th_rb := r \<rparr>) q" using assms a(2) by (intro th_inv_rb) simp_all
    then show ?thesis using a(1) Wait by (simp add: ac_new_allocate) blast
  next
    case (Block h p)
    obtain n where n: "sizeof m \<le> n" "h mod rb_size c + sizeof_prefix c = p" "h \<noteq> k_invalid_handle" "rb_abs c r (q @ [(p, n, busy)])"
      "\<forall>(p', n', s) \<in> set q. p' + n' \<le> p - sizeof_prefix c \<or> p + n \<le> p' - sizeof_prefix c" using a(2) Block by auto
    have "rb_ok c" using assms(1) by (simp add: th_inv_def)
    then have "0 < sizeof_prefix c" using rb_facts(3,8) [of c] by simp
    then have "p \<notin> fst ` set q" using n(1,2,5) True by fastforce
    then have "th_inv c (set_push i (Constructing m \<lparr> ac_buffer = True, ac_handle = h \<rparr> p)
        (s\<lparr> th_rb := r, th_msg := (th_msg s)(p \<mapsto> m), th_sent := th_sent s @ [m] \<rparr>)) (q @ [(p, n, busy)])"
      using assms n(2-4) by (intro th_inv_alloc) (simp_all add: ac_ok_def)
    then show ?thesis using a(1) Block by (simp add: ac_new_allocate) blast
  qed
qed

lemma push_step_inv:
  assumes "th_inv c s q" "i < length (th_pushes s)"
  shows "\<exists>s' q'. push_step c sizeof i (th_pushes s ! i) s = Some s' \<and> th_inv c s' q'"
proof -
  have x: "push_ok c s q (th_pushes s ! i)" using assms by (metis nth_mem th_inv_def)
  show ?thesis
  proof (cases "th_pushes s ! i")
    case (Starting nw m)
    let ?s = "if th_thread s = No_thread then s\<lparr> th_status := Some k_work, th_thread := Loop_test \<rparr> else s"
    have "th_inv c ?s q" using assms(1) by (simp add: th_inv_def unread_def)
    then have "th_inv c (set_push i (Allocating nw m) ?s) q" using assms(2) Starting by (intro th_inv_push) simp_all
    then show ?thesis unfolding Starting push_step.simps by blast
  next
    case (Allocating nw m)
    then show ?thesis using push_step_alloc [OF assms] by metis
  next
    case (Constructing m b p)
    then show ?thesis using th_inv_construct [OF assms] by simp blast
  next
    case (Committing m b p)
    obtain n st where "(p, n, st) \<in> set q" using x Committing by auto
    then obtain r where "rb_commit c (ac_handle b) (th_rb s) = Some r" "rb_abs c r (mark p commited q)"
      using ring_mark [of c "th_rb s" q p n st "ac_handle b"] assms(1) x Committing by (auto simp: th_inv_def ac_ok_def)
    then show ?thesis using th_inv_commit [OF assms Committing] x Committing by (simp add: ac_destroy_def ac_ok_def) blast
  next
    case (Giving_up b)
    then have "ac_destroy c b (th_rb s) = Some (th_rb s)" using x by (simp add: ac_destroy_def rb_commit_def update_block_state_def)
    moreover have "th_inv c (set_push i Pushed s) q" using assms Giving_up by (intro th_inv_push) simp_all
    ultimately show ?thesis using Giving_up by simp blast
  next
    case Setting
    have "th_inv c (set_push i Pushed (s\<lparr> th_event := True \<rparr>)) q" using assms Setting by (intro th_inv_push) simp_all
    then show ?thesis using Setting by simp blast
  next
    case Pushed
    then show ?thesis using assms(1) by simp blast
  qed
qed

text \<open>The steps of the thread on the first block.\<close>

lemma worker_peek_empty:
  assumes "th_inv c s []" "th_thread s = Peeks"
  shows "\<exists>r. proc_step c Peeks s = Some (s\<lparr> th_rb := r, th_thread := Loop_test \<rparr>) \<and> th_inv c (s\<lparr> th_rb := r, th_thread := Loop_test \<rparr>) []"
proof -
  obtain r where "rb_peek c (th_rb s) = Some (Peek_Null, r)" "rb_abs c r []"
    using peek_empty [of c "th_rb s" "[]"] assms(1) by (auto simp: th_inv_def)
  then show ?thesis using assms by (intro exI [of _ r]) (simp add: th_inv_def unread_def)
qed

lemma th_first_block:
  assumes "th_inv c s ((p, n, commited) # q')"
  shows "rb_peek c (th_rb s) = Some (Peek p n, th_rb s) \<and> (\<exists>r. rb_free c (th_rb s) = Some (Some r) \<and> rb_abs c r q')"
proof -
  have "rb_abs c (th_rb s) ((p, n, commited) # q')" using assms by (simp add: th_inv_def)
  then show ?thesis by (rule peek_ready) (simp add: is_skipped_def)
qed

lemma worker_peek:
  assumes "th_inv c s ((p, n, commited) # q')" "th_thread s = Peeks"
  shows "proc_step c Peeks s = Some (s\<lparr> th_thread := Handles p \<rparr>) \<and> th_inv c (s\<lparr> th_thread := Handles p \<rparr>) ((p, n, commited) # q')"
  using assms th_first_block [OF assms(1)] by (simp add: th_inv_def unread_def)

lemma worker_handle:
  assumes "th_inv c s ((p, n, commited) # q')" "th_thread s = Handles p"
  shows "\<exists>m. proc_step c (Handles p) s = Some (s\<lparr> th_thread := Frees p, th_done := th_done s @ [(m, th_f s)] \<rparr>) \<and>
    th_inv c (s\<lparr> th_thread := Frees p, th_done := th_done s @ [(m, th_f s)] \<rparr>) ((p, n, commited) # q')"
proof -
  obtain m where m: "th_msg s p = Some m" "th_obj s p = Some m" using assms(1) by (auto simp: th_inv_def entry_ok_def split: if_splits)
  then show ?thesis using assms by (intro exI [of _ m]) (simp add: th_inv_def unread_def)
qed

lemma worker_free:
  assumes "th_inv c s ((p, n, commited) # q')" "th_thread s = Frees p"
  shows "\<exists>r. proc_step c (Frees p) s = Some (s\<lparr> th_rb := r, th_obj := (th_obj s)(p := None), th_thread := Peeks \<rparr>) \<and>
    th_inv c (s\<lparr> th_rb := r, th_obj := (th_obj s)(p := None), th_thread := Peeks \<rparr>) q'"
proof -
  obtain r where r: "rb_free c (th_rb s) = Some (Some r)" "rb_abs c r q'"
    using th_first_block [OF assms(1)] by blast
  let ?s = "s\<lparr> th_rb := r, th_obj := (th_obj s)(p := None), th_thread := Peeks \<rparr>"
  have p: "p \<notin> fst ` set q'" "p \<notin> set (claimed (th_pushes s))" using assms(1) by (auto simp: th_inv_def entry_ok_def split: if_splits)
  have "entry_ok ?s e" if "e \<in> set q'" for e
    using that assms(1) p(1) by (auto simp: th_inv_def entry_ok_def image_iff split: if_splits)
  moreover have "push_ok c ?s q' x" if "x \<in> set (th_pushes s)" for x
  proof -
    have "push_ok c s ((p, n, commited) # q') x" "p \<notin> set (block_of x)" using that assms(1) p(2) by (auto simp: th_inv_def claimed_def)
    then show ?thesis by (cases x) auto
  qed
  ultimately have "th_inv c ?s q'" using assms r(2) by (simp add: th_inv_def unread_def)
  then show ?thesis using r(1) by (intro exI [of _ r]) simp
qed

lemma proc_step_inv:
  assumes "th_inv c s q"
  shows "\<exists>s' q'. proc_step c (th_thread s) s = Some s' \<and> th_inv c s' q'"
proof (cases "th_thread s")
  case Loop_test
  then obtain st where "th_status s = Some st" using assms by (auto simp: th_inv_def)
  then show ?thesis using Loop_test assms by (auto simp: th_inv_def unread_def)
next
  case Waits
  then have "th_inv c (s\<lparr> th_thread := Peeks, th_event := False \<rparr>) q" using assms by (simp add: th_inv_def unread_def)
  then show ?thesis unfolding Waits proc_step.simps by blast
next
  case Peeks
  show ?thesis
  proof (cases q)
    case Nil
    then show ?thesis unfolding Peeks using worker_peek_empty [of c s] Peeks assms by blast
  next
    case (Cons e q')
    obtain p n st where e: "e = (p, n, st)" by (cases e)
    have "st = busy \<or> st = commited" using assms Cons e by (auto simp: th_inv_def entry_ok_def split: if_splits)
    then show ?thesis
    proof
      assume "st = busy"
      then have "rb_peek c (th_rb s) = Some (Peek_Wait, th_rb s)"
        using peek_busy [of c "th_rb s" q p n q'] assms Cons e by (auto simp: th_inv_def is_skipped_def)
      then have "proc_step c (th_thread s) s = Some s" using Peeks by (cases s) simp
      then show ?thesis using assms by blast
    next
      assume "st = commited"
      then show ?thesis unfolding Peeks using worker_peek [of c s p n q'] Peeks assms Cons e by blast
    qed
  qed
next
  case (Handles p)
  then obtain n q' where "q = (p, n, commited) # q'" using assms by (auto simp: th_inv_def)
  then show ?thesis unfolding Handles using worker_handle [of c s p n q'] Handles assms by blast
next
  case (Frees p)
  then obtain n q' where "q = (p, n, commited) # q'" using assms by (auto simp: th_inv_def)
  then show ?thesis unfolding Frees using worker_free [of c s p n q'] Frees assms by blast
qed (use assms in auto)

lemma th_exec_inv:
  fixes l :: "'m label"
  assumes "th_inv c s q" "\<not> throws l"
  shows "\<exists>s' q'. th_exec c sizeof l s = Some s' \<and> th_inv c s' q'"
proof (cases l)
  case (Push nw m)
  have "claimed (th_pushes s @ [Starting nw m]) = claimed (th_pushes s)" by (simp add: claimed_def)
  then have "th_inv c (s\<lparr> th_pushes := th_pushes s @ [Starting nw m] \<rparr>) q" using assms(1) by (auto simp: th_inv_def entry_ok_def)
  then show ?thesis using Push by simp blast
next
  case (Client i)
  then show ?thesis using push_step_inv [OF assms(1), of i sizeof] assms by (cases "i < length (th_pushes s)") auto
next
  case Worker
  then show ?thesis using proc_step_inv [OF assms(1)] by simp
next
  case Stop
  then show ?thesis using th_inv_status [OF assms(1), of k_exit] by auto
next
  case Join
  then show ?thesis using assms by (auto simp: th_inv_def unread_def)
next
  case (Set_callback f)
  then show ?thesis using assms by auto
qed (use assms in auto)

lemma th_run_inv: "th_inv c s q \<Longrightarrow> no_throw ls \<Longrightarrow> \<exists>s' q'. th_run c sizeof ls s = Some s' \<and> th_inv c s' q'"
proof (induction ls arbitrary: s q)
  case (Cons l ls)
  have "\<not> throws l" using Cons.prems(2) by (simp add: no_throw_def)
  from th_exec_inv [OF Cons.prems(1) this] obtain s1 q1 where "th_exec c sizeof l s = Some s1" "th_inv c s1 q1" by blast
  then show ?case using Cons.IH Cons.prems(2) by (simp add: no_throw_def)
qed auto

lemma th_new_inv: "rb_ok c \<Longrightarrow> th_inv c (th_new f) []"
  using ring_new_abs by (simp add: th_inv_def th_new_def claimed_def unread_def)

section \<open>The thread empties the buffer\<close>

lemma th_run_add: "th_run c sizeof (as @ bs) s = do { s \<leftarrow> th_run c sizeof as s; th_run c sizeof bs s }"
  by (induction as arbitrary: s) (auto split: Option.bind_split)

lemma worker_runs:
  assumes "proc_step c (th_thread s) s = Some s1" "th_run c sizeof (replicate k Worker) s1 = Some s'"
  shows "th_run c sizeof (replicate (Suc k) Worker) s = Some s'"
  using assms by simp

text \<open>Where the thread comes to a halt: the buffer is found empty, or its first block is still a client's.\<close>

definition drained :: "'m handler \<Rightarrow> entry list \<Rightarrow> bool" where
  "drained s q \<longleftrightarrow> q = [] \<and> th_thread s = Loop_test \<or> (\<exists>p n q'. q = (p, n, busy) # q' \<and> th_thread s = Peeks)"

text \<open>\<open>leads\<close>: steps of the thread lead there, and neither add a message nor move a client.\<close>

definition leads :: "ring_cfg \<Rightarrow> ('m \<Rightarrow> nat) \<Rightarrow> 'm handler \<Rightarrow> 'm handler \<Rightarrow> bool" where
  "leads c sizeof s s' \<longleftrightarrow> (\<exists>k. th_run c sizeof (replicate k Worker) s = Some s') \<and> th_sent s' = th_sent s \<and> th_pushes s' = th_pushes s"

lemma leads_refl: "leads c sizeof s s"
  unfolding leads_def by (intro conjI exI [of _ 0]) simp_all

lemma leads_step:
  assumes "proc_step c (th_thread s) s = Some s1" "th_sent s1 = th_sent s" "th_pushes s1 = th_pushes s" "leads c sizeof s1 s'"
  shows "leads c sizeof s s'"
proof -
  obtain k where "th_run c sizeof (replicate k Worker) s1 = Some s'" using assms(4) by (auto simp: leads_def)
  from worker_runs [OF assms(1) this] show ?thesis using assms(2-4) unfolding leads_def by metis
qed

text \<open>A message handled and its block given back.\<close>

lemma leads_free:
  assumes "th_inv c s ((p, n, commited) # q)" "th_thread s = Frees p"
  shows "\<exists>s1. leads c sizeof s s1 \<and> th_inv c s1 q \<and> th_thread s1 = Peeks"
proof -
  obtain r where r: "proc_step c (Frees p) s = Some (s\<lparr> th_rb := r, th_obj := (th_obj s)(p := None), th_thread := Peeks \<rparr>)"
    "th_inv c (s\<lparr> th_rb := r, th_obj := (th_obj s)(p := None), th_thread := Peeks \<rparr>) q" using worker_free [OF assms] by blast
  have "leads c sizeof s (s\<lparr> th_rb := r, th_obj := (th_obj s)(p := None), th_thread := Peeks \<rparr>)"
    by (rule leads_step [OF _ _ _ leads_refl]) (use r(1) assms(2) in simp_all)
  with r(2) show ?thesis by force
qed

lemma leads_trans: "leads c sizeof s s1 \<Longrightarrow> leads c sizeof s1 s2 \<Longrightarrow> leads c sizeof s s2"
  unfolding leads_def by (auto simp: th_run_add replicate_add) (metis bind.bind_lunit replicate_add th_run_add)

lemma leads_handle:
  assumes "th_inv c s ((p, n, commited) # q)" "th_thread s = Handles p"
  shows "\<exists>s1. leads c sizeof s s1 \<and> th_inv c s1 q \<and> th_thread s1 = Peeks"
proof -
  obtain m where m: "proc_step c (Handles p) s = Some (s\<lparr> th_thread := Frees p, th_done := th_done s @ [(m, th_f s)] \<rparr>)"
    "th_inv c (s\<lparr> th_thread := Frees p, th_done := th_done s @ [(m, th_f s)] \<rparr>) ((p, n, commited) # q)"
    using worker_handle [OF assms] by blast
  let ?s1 = "s\<lparr> th_thread := Frees p, th_done := th_done s @ [(m, th_f s)] \<rparr>"
  obtain s2 where s2: "leads c sizeof ?s1 s2" "th_inv c s2 q" "th_thread s2 = Peeks" using leads_free [OF m(2)] by auto
  have "leads c sizeof s s2" by (rule leads_step [OF _ _ _ s2(1)]) (use m(1) assms(2) in simp_all)
  with s2 show ?thesis by blast
qed

text \<open>The thread takes the blocks one after the other up to the first that is still a client's.\<close>

lemma worker_drains:
  assumes "th_inv c s q" "th_thread s = Peeks"
  shows "\<exists>s' q'. leads c sizeof s s' \<and> th_inv c s' q' \<and> drained s' q'"
  using assms
proof (induction q arbitrary: s)
  case Nil
  then obtain r where r: "proc_step c Peeks s = Some (s\<lparr> th_rb := r, th_thread := Loop_test \<rparr>)"
    "th_inv c (s\<lparr> th_rb := r, th_thread := Loop_test \<rparr>) []" using worker_peek_empty by blast
  have "leads c sizeof s (s\<lparr> th_rb := r, th_thread := Loop_test \<rparr>)"
    by (rule leads_step [OF _ _ _ leads_refl]) (use r(1) Nil.prems(2) in simp_all)
  with r(2) show ?case by (intro exI [of _ "s\<lparr> th_rb := r, th_thread := Loop_test \<rparr>"] exI [of _ "[]"]) (simp add: drained_def)
next
  case (Cons e q)
  obtain p n st where e: "e = (p, n, st)" by (cases e)
  have "st = busy \<or> st = commited" using Cons.prems(1) e by (auto simp: th_inv_def entry_ok_def split: if_splits)
  then show ?case
  proof
    assume "st = busy"
    then show ?thesis using Cons.prems e leads_refl by (intro exI [of _ s] exI [of _ "e # q"]) (simp add: drained_def)
  next
    assume st: "st = commited"
    have 1: "proc_step c Peeks s = Some (s\<lparr> th_thread := Handles p \<rparr>)" "th_inv c (s\<lparr> th_thread := Handles p \<rparr>) ((p, n, commited) # q)"
      using worker_peek [of c s p n q] Cons.prems unfolding e st by auto
    obtain s2 where s2: "leads c sizeof (s\<lparr> th_thread := Handles p \<rparr>) s2" "th_inv c s2 q" "th_thread s2 = Peeks"
      using leads_handle [OF 1(2)] by auto
    have "leads c sizeof s s2" by (rule leads_step [OF _ _ _ s2(1)]) (use 1(1) Cons.prems(2) in simp_all)
    then show ?thesis using Cons.IH [OF s2(2,3)] leads_trans by blast
  qed
qed

lemma worker_finishes:
  assumes "th_inv c s q" "th_thread s \<noteq> No_thread" "th_thread s \<noteq> Ended" "th_status s = Some k_work"
  shows "\<exists>s' q'. leads c sizeof s s' \<and> th_inv c s' q' \<and> drained s' q'"
proof -
  have peeks: ?thesis if "leads c sizeof s s1" "th_inv c s1 q1" "th_thread s1 = Peeks" for s1 q1
    using worker_drains [OF that(2,3)] leads_trans [OF that(1)] by blast
  have waits: "leads c sizeof s2 (s2\<lparr> th_thread := Peeks, th_event := False \<rparr>)" if "th_thread s2 = Waits" for s2 :: "'a handler"
    by (rule leads_step [OF _ _ _ leads_refl]) (use that in simp_all)
  show ?thesis
  proof (cases "th_thread s")
    case Loop_test
    let ?s1 = "s\<lparr> th_thread := Waits \<rparr>"
    have "leads c sizeof s (?s1\<lparr> th_thread := Peeks, th_event := False \<rparr>)"
      by (rule leads_step [OF _ _ _ waits]) (use Loop_test assms(4) in simp_all)
    moreover have "th_inv c (?s1\<lparr> th_thread := Peeks, th_event := False \<rparr>) q" using assms(1) Loop_test by (simp add: th_inv_def unread_def)
    ultimately show ?thesis by (rule peeks) simp
  next
    case Waits
    moreover have "th_inv c (s\<lparr> th_thread := Peeks, th_event := False \<rparr>) q" using assms(1) Waits by (simp add: th_inv_def unread_def)
    ultimately show ?thesis using peeks [OF waits] by simp
  next
    case Peeks
    then show ?thesis using worker_drains [OF assms(1)] by blast
  next
    case (Handles p)
    then obtain n q' where "q = (p, n, commited) # q'" using assms(1) by (auto simp: th_inv_def)
    then show ?thesis using leads_handle [of c s p n q'] assms(1) Handles peeks by blast
  next
    case (Frees p)
    then obtain n q' where "q = (p, n, commited) # q'" using assms(1) by (auto simp: th_inv_def)
    then show ?thesis using leads_free [of c s p n q'] assms(1) Frees peeks by blast
  qed (use assms in auto)
qed

lemma th_inv_sent:
  assumes "th_inv c s q"
  shows "\<exists>later. th_sent s = map fst (th_done s) @ later \<and> map Some later = map (th_msg s \<circ> fst) (unread (th_thread s) q)"
proof -
  have e: "map Some (th_sent s) = map Some (map fst (th_done s)) @ map (th_msg s \<circ> fst) (unread (th_thread s) q)"
    using assms by (simp add: th_inv_def)
  then obtain xs later where xs: "th_sent s = xs @ later" "map Some xs = map Some (map fst (th_done s))"
    "map Some later = map (th_msg s \<circ> fst) (unread (th_thread s) q)" by (auto simp: map_eq_append_conv)
  have "xs = map fst (th_done s)" using xs(2) unfolding inj_map_eq_map [OF inj_Some] .
  then show ?thesis using xs(1,3) by blast
qed

text \<open>The client of a busy block is between the allocation of its message and the end of its scope.\<close>

lemma busy_client:
  assumes "th_inv c s ((p, n, busy) # q)"
  shows "\<exists>m b. th_msg s p = Some m \<and> (Constructing m b p \<in> set (th_pushes s) \<or> Committing m b p \<in> set (th_pushes s))"
proof -
  have "p \<in> set (claimed (th_pushes s))" using assms by (auto simp: th_inv_def entry_ok_def split: if_splits)
  then obtain x where x: "x \<in> set (th_pushes s)" "p \<in> set (block_of x)" by (auto simp: claimed_def)
  then have "push_ok c s ((p, n, busy) # q) x" using assms by (simp add: th_inv_def)
  then show ?thesis using x by (cases x) auto
qed

section \<open>Properties\<close>

text \<open>
  C21. Whatever the steps of the clients, of the thread and of those who stop it are, and in whatever order, as long as
  no constructor of a message throws: no step is undefined, that is no block is read that is not whole and no object that
  is not there; and what has been handled is a prefix of the messages in the order of their allocation, so that each is
  handled at most once and none overtakes another.
\<close>

theorem handler_fifo:
  assumes "rb_ok c" "no_throw ls"
  shows "\<exists>s later. th_run c sizeof ls (th_new f) = Some s \<and> th_sent s = map fst (th_done s) @ later"
  using th_run_inv [OF th_new_inv [OF assms(1)] assms(2)] th_inv_sent by metis

theorem handler_fifo_witness:
  "\<exists>s later. th_run demo_ring (\<lambda>_. 10) [Push True 7, Client 0, Worker] (th_new True) = Some s \<and>
    (th_sent s :: nat list) = map fst (th_done s) @ later"
  by (rule handler_fifo [OF demo_ring_ok]) (simp add: no_throw_def)

text \<open>
  C22. While the handler works and no constructor throws, its thread gets everything done that it can: from every state
  the steps lead to, in which it has not been stopped, steps of the thread alone handle, in their order, all messages up
  to the first whose client has allocated its block and not yet left the scope that commits it. When there is no such
  client, they handle all messages.
\<close>

theorem handler_finishes:
  assumes "rb_ok c" "no_throw ls" "th_run c sizeof ls (th_new f) = Some s" "th_status s = Some k_work"
    and "th_thread s \<noteq> No_thread" "th_thread s \<noteq> Ended"
  shows "\<exists>k s' later. th_run c sizeof (replicate k Worker) s = Some s' \<and> th_sent s' = th_sent s \<and>
    th_sent s = map fst (th_done s') @ later \<and>
    (later = [] \<or> (\<exists>b p. Constructing (hd later) b p \<in> set (th_pushes s) \<or> Committing (hd later) b p \<in> set (th_pushes s)))"
proof -
  obtain q where inv: "th_inv c s q" using th_run_inv [OF th_new_inv [OF assms(1)] assms(2), of sizeof f] assms(3) by auto
  obtain s' q' where g: "leads c sizeof s s'" "th_inv c s' q'" "drained s' q'" using worker_finishes [OF inv assms(5,6,4)] by blast
  obtain later where l: "th_sent s' = map fst (th_done s') @ later" "map Some later = map (th_msg s' \<circ> fst) (unread (th_thread s') q')"
    using th_inv_sent [OF g(2)] by blast
  have "later = [] \<or> (\<exists>b p. Constructing (hd later) b p \<in> set (th_pushes s') \<or> Committing (hd later) b p \<in> set (th_pushes s'))"
    using g(3) unfolding drained_def
  proof (elim disjE exE conjE)
    fix p n q'' assume q: "q' = (p, n, busy) # q''" "th_thread s' = Peeks"
    then have "map Some later = th_msg s' p # map (th_msg s' \<circ> fst) q''" using l(2) by (simp add: unread_def)
    then show ?thesis using busy_client [of c s' p n q''] g(2) q(1) by (cases later; auto) blast+
  qed (use l(2) in \<open>simp add: unread_def\<close>)
  then show ?thesis using g(1) l(1) unfolding leads_def by metis
qed

definition demo_pushed :: "nat label list" where
  "demo_pushed = Push True 7 # replicate 6 (Client 0)"

lemma demo_push_run:
  "\<exists>r. th_run demo_ring (\<lambda>_. 10) demo_pushed (th_new True) = Some ((th_new True)\<lparr> th_rb := r, th_obj := [16 \<mapsto> 7],
     th_status := Some k_work, th_thread := Loop_test, th_event := True, th_pushes := [Pushed], th_msg := [16 \<mapsto> 7], th_sent := [7] \<rparr>)"
proof -
  obtain m where m: "rb_allocate demo_ring True 10 ring_new = Some (Block 0 16, \<lparr> rb_mem = m, ix_read = 0, ix_write = 32 \<rparr>)"
    "m 0 = Some \<lparr> pr_size = 16, pr_state = busy \<rparr>" using demo_alloc by blast
  have "replicate 6 (Client 0 :: nat label) = [Client 0, Client 0, Client 0, Client 0, Client 0, Client 0]"
    by (simp add: numeral_eq_Suc)
  then show ?thesis using m
    by (simp add: demo_pushed_def th_new_def set_push_def ac_new_allocate ac_destroy_def rb_commit_def update_block_state_def
        k_invalid_handle_def)
qed

theorem handler_finishes_witness:
  "\<exists>s k s'. th_run demo_ring (\<lambda>_. 10) demo_pushed (th_new True) = Some s \<and> th_run demo_ring (\<lambda>_. 10) (replicate k Worker) s = Some s' \<and>
    map fst (th_done s') = [7]"
proof -
  obtain s where s: "th_run demo_ring (\<lambda>_. 10) demo_pushed (th_new True) = Some s" "th_status s = Some k_work" "th_thread s = Loop_test"
    "th_pushes s = [Pushed]" "th_sent s = [7]" using demo_push_run by auto
  have "no_throw demo_pushed" by (auto simp: no_throw_def demo_pushed_def list_all_iff)
  from handler_finishes [OF demo_ring_ok this s(1,2)] s(3-5) show ?thesis using s(1) by fastforce
qed

text \<open>
  A constructor that throws: its block is committed with nothing in it, and the thread hands it to the function.
\<close>

lemma throwing_constructor:
  "th_run demo_ring (\<lambda>_. 10) ([Push True (7 :: nat), Client 0, Client 0, Throws 0, Client 0] @ replicate 4 Worker) (th_new True) = None"
  "\<exists>s. th_run demo_ring (\<lambda>_. 10) ([Push True (7 :: nat), Client 0, Client 0, Throws 0, Client 0] @ replicate 3 Worker) (th_new True) = Some s \<and>
    th_thread s = Handles 16 \<and> th_obj s 16 = None"
proof -
  obtain m where m: "rb_allocate demo_ring True 10 ring_new = Some (Block 0 16, \<lparr> rb_mem = m, ix_read = 0, ix_write = 32 \<rparr>)"
    "m 0 = Some \<lparr> pr_size = 16, pr_state = busy \<rparr>" using demo_alloc by blast
  let ?r = "\<lparr> rb_mem = m(0 \<mapsto> \<lparr> pr_size = 16, pr_state = commited \<rparr>), ix_read = 0, ix_write = 32 \<rparr>"
  have peek: "rb_peek demo_ring ?r = Some (Peek 16 16, ?r)"
    unfolding rb_peek_def
    by (subst rb_scan.simps) (simp add: get_first_block_def demo_ring_sizes Let_def)
  have four: "replicate 4 Worker = [Worker, Worker, Worker, Worker :: nat label]" and
    three: "replicate 3 Worker = [Worker, Worker, Worker :: nat label]" by (simp_all add: numeral_eq_Suc)
  show "th_run demo_ring (\<lambda>_. 10) ([Push True (7 :: nat), Client 0, Client 0, Throws 0, Client 0] @ replicate 4 Worker) (th_new True) = None"
    using m peek by (simp add: four three th_new_def set_push_def ac_new_allocate ac_destroy_def rb_commit_def update_block_state_def
      k_invalid_handle_def)
  show "\<exists>s. th_run demo_ring (\<lambda>_. 10) ([Push True (7 :: nat), Client 0, Client 0, Throws 0, Client 0] @ replicate 3 Worker) (th_new True) = Some s \<and>
    th_thread s = Handles 16 \<and> th_obj s 16 = None"
    using m peek by (simp add: four three th_new_def set_push_def ac_new_allocate ac_destroy_def rb_commit_def update_block_state_def
      k_invalid_handle_def)
qed

text \<open>
  A handler that is stopped does not: a message that comes before the test of the loop, when the thread has found the
  buffer empty or has not yet begun, stays in the buffer.
\<close>

lemma message_left_behind:
  "\<exists>s. th_run demo_ring (\<lambda>_. 10) (demo_pushed @ [Stop, Worker, Join]) (th_new True) = Some s \<and>
    th_thread s = No_thread \<and> th_pushes s = [Pushed] \<and> th_sent s = [7] \<and> th_done s = []"
  unfolding th_run_add using demo_push_run by (auto simp: th_new_def)

end
