(* ===== verification/Sdk_Blocker.thy ===== *)
theory Sdk_Blocker
  imports Sdk_Prelude
begin

text \<open>
  Locks and events: \<^verbatim>\<open>tools/blocker.hpp\<close>, a flag that threads spin on with three kinds of guard objects, the macro
  \<^verbatim>\<open>guard_lock\<close> of \<^verbatim>\<open>sdk_defines.hpp\<close>, and \<^verbatim>\<open>tools/wait_for_single_object.hpp\<close>. A step is one operation on the flag, so that
  the steps of all threads interleave; threads are numbered.
\<close>

section \<open>The flag\<close>

text \<open>The operations of \<^verbatim>\<open>atomic_flag\<close>: the old value and the new one.\<close>

definition test_and_set :: "bool \<Rightarrow> bool \<times> bool" where
  "test_and_set f = (f, True)"

text \<open>One turn of the loop of \<^verbatim>\<open>lock\<close>: whether it ends.\<close>

definition lock_turn :: "bool \<Rightarrow> bool \<times> bool" where
  "lock_turn f = (case test_and_set f of (old, f) \<Rightarrow> (\<not> old, f))"

definition tryLock :: "bool \<Rightarrow> bool \<times> bool" where
  "tryLock f = (case test_and_set f of (old, f) \<Rightarrow> (\<not> old, f))"

definition unlock :: "bool \<Rightarrow> bool" where
  "unlock f = False"

section \<open>Guards\<close>

datatype kind = Infinite_kind | Flag_kind

text \<open>A constructed guard with its member \<^verbatim>\<open>_locked\<close> or \<^verbatim>\<open>_meLocked\<close>.\<close>

datatype guard = Infinite | Infinite_flag bool | Try bool

fun guard_new :: "kind \<Rightarrow> guard" where
  "guard_new Infinite_kind = Infinite"
| "guard_new Flag_kind = Infinite_flag True"

definition try_new :: "bool \<Rightarrow> guard \<times> bool" where
  "try_new f = (case tryLock f of (me, f) \<Rightarrow> (Try me, f))"

fun guard_destroy :: "guard \<Rightarrow> bool \<Rightarrow> bool" where
  "guard_destroy Infinite f = unlock f"
| "guard_destroy (Infinite_flag locked) f = unlock f"
| "guard_destroy (Try me) f = (if me then unlock f else f)"

definition flag_release :: "bool \<Rightarrow> guard \<times> bool" where
  "flag_release f = (Infinite_flag False, unlock f)"

text \<open>What the guard tells its user: \<^verbatim>\<open>operator bool\<close>, \<^verbatim>\<open>meLocked\<close>; the plain guard always holds the lock.\<close>

fun guard_holds :: "guard \<Rightarrow> bool" where
  "guard_holds Infinite = True"
| "guard_holds (Infinite_flag locked) = locked"
| "guard_holds (Try me) = me"

section \<open>Threads\<close>

datatype place = Outside | Spins kind | Has guard

record locked =
  lk_flag :: bool
  lk_at :: "nat \<Rightarrow> place"

definition locked_new :: locked where
  "locked_new = \<lparr> lk_flag = False, lk_at = (\<lambda>t. Outside) \<rparr>"

definition goes :: "nat \<Rightarrow> place \<Rightarrow> bool \<Rightarrow> locked \<Rightarrow> locked" where
  "goes t x f s = s\<lparr> lk_flag := f, lk_at := (lk_at s)(t := x) \<rparr>"

text \<open>\<open>rel\<close> tells whether \<^verbatim>\<open>release\<close> is ever called.\<close>

inductive lock_step :: "bool \<Rightarrow> locked \<Rightarrow> locked \<Rightarrow> bool" for rel where
  enter: "lk_at s t = Outside \<Longrightarrow> lock_step rel s (goes t (Spins k) (lk_flag s) s)"
| spin: "lk_at s t = Spins k \<Longrightarrow> lock_turn (lk_flag s) = (ends, f) \<Longrightarrow>
    lock_step rel s (goes t (if ends then Has (guard_new k) else Spins k) f s)"
| attempt: "lk_at s t = Outside \<Longrightarrow> try_new (lk_flag s) = (g, f) \<Longrightarrow> lock_step rel s (goes t (Has g) f s)"
| leave: "lk_at s t = Has g \<Longrightarrow> lock_step rel s (goes t Outside (guard_destroy g (lk_flag s)) s)"
| release: "rel \<Longrightarrow> lk_at s t = Has (Infinite_flag locked) \<Longrightarrow> flag_release (lk_flag s) = (g, f) \<Longrightarrow> lock_step rel s (goes t (Has g) f s)"

inductive lock_reach :: "bool \<Rightarrow> locked \<Rightarrow> bool" for rel where
  new: "lock_reach rel locked_new"
| steps: "lock_reach rel s \<Longrightarrow> lock_step rel s s' \<Longrightarrow> lock_reach rel s'"

fun inside :: "place \<Rightarrow> bool" where
  "inside (Has g) = guard_holds g"
| "inside _ = False"

text \<open>The flag is set exactly while a thread is inside, and there is one at most; a flag guard holds the lock.\<close>

definition lock_inv :: "locked \<Rightarrow> bool" where
  "lock_inv s \<longleftrightarrow> (\<forall>t u. inside (lk_at s t) \<and> inside (lk_at s u) \<longrightarrow> t = u) \<and> (lk_flag s \<longleftrightarrow> (\<exists>t. inside (lk_at s t))) \<and>
     (\<forall>t. lk_at s t \<noteq> Has (Infinite_flag False))"

lemma guard_new_inside [simp]: "guard_holds (guard_new k)"
  by (cases k) simp_all

lemma guard_new_holds [simp]: "guard_new k \<noteq> Infinite_flag False"
  by (cases k) simp_all

text \<open>A thread moves that is inside neither before nor after, gets in, or gets out.\<close>

lemma lock_inv_idle:
  "lock_inv s \<Longrightarrow> \<not> inside (lk_at s t) \<Longrightarrow> \<not> inside x \<Longrightarrow> x \<noteq> Has (Infinite_flag False) \<Longrightarrow> lock_inv (goes t x (lk_flag s) s)"
  unfolding lock_inv_def goes_def by (auto split: if_splits)

lemma lock_inv_in:
  "lock_inv s \<Longrightarrow> \<not> lk_flag s \<Longrightarrow> inside x \<Longrightarrow> lock_inv (goes t x True s)"
  unfolding lock_inv_def goes_def by (auto split: if_splits)

lemma lock_inv_out:
  "lock_inv s \<Longrightarrow> inside (lk_at s t) \<Longrightarrow> lock_inv (goes t Outside False s)"
  unfolding lock_inv_def goes_def by (auto split: if_splits)

lemma lock_step_inv:
  assumes "lock_step False s s'" "lock_inv s"
  shows "lock_inv s'"
  using assms(1)
proof (cases rule: lock_step.cases)
  case (enter t k)
  then show ?thesis using lock_inv_idle [OF assms(2), of t "Spins k"] by simp
next
  case (spin t k ends f)
  then show ?thesis using lock_inv_idle [OF assms(2), of t "Spins k"] lock_inv_in [OF assms(2), of "Has (guard_new k)" t]
    by (cases "lk_flag s") (simp_all add: lock_turn_def test_and_set_def)
next
  case (attempt t g f)
  then show ?thesis using lock_inv_idle [OF assms(2), of t "Has (Try False)"] lock_inv_in [OF assms(2), of "Has (Try True)" t]
    by (cases "lk_flag s") (auto simp: try_new_def tryLock_def test_and_set_def)
next
  case (leave t g)
  show ?thesis
  proof (cases "inside (lk_at s t)")
    case True
    then show ?thesis using leave lock_inv_out [OF assms(2) True] by (cases g) (auto simp: unlock_def)
  next
    case False
    then have "g = Try False" using leave(2) assms(2) by (cases g) (auto simp: lock_inv_def)
    then show ?thesis using leave lock_inv_idle [OF assms(2) False, of Outside] by simp
  qed
qed simp

lemma lock_reach_inv: "lock_reach False s \<Longrightarrow> lock_inv s"
proof (induction rule: lock_reach.induct)
  case new
  show ?case by (simp add: lock_inv_def locked_new_def)
next
  case (steps s s')
  then show ?case using lock_step_inv by blast
qed

section \<open>Events\<close>

text \<open>
  \<^verbatim>\<open>wait_for_single_object\<close>: the flag is clear while the event is set. \<^verbatim>\<open>wait\<close> tests it and, when it is not set, goes to
  sleep in a step of its own; \<^verbatim>\<open>set\<close> clears the flag and then notifies one sleeper, without the mutex.
\<close>

datatype waiter = Not_waiting | Tests | Falls_asleep | Sleeps | Late

record wait_event =
  ev_flag :: bool
  ev_at :: "nat \<Rightarrow> waiter"
  ev_notify :: nat
  ev_sets :: nat
  ev_waits :: nat

definition event_new :: wait_event where
  "event_new = \<lparr> ev_flag = True, ev_at = (\<lambda>t. Not_waiting), ev_notify = 0, ev_sets = 0, ev_waits = 0 \<rparr>"

text \<open>The duration of the wait: the argument in milliseconds, as a signed number.\<close>

definition wait_ms :: "u64 \<Rightarrow> int" where
  "wait_ms wait_timeout_ms = sint wait_timeout_ms"

definition ev_goes :: "nat \<Rightarrow> waiter \<Rightarrow> wait_event \<Rightarrow> wait_event" where
  "ev_goes t x s = s\<lparr> ev_at := (ev_at s)(t := x) \<rparr>"

definition took :: "wait_event \<Rightarrow> wait_event" where
  "took s = (case test_and_set (ev_flag s) of (old, f) \<Rightarrow> s\<lparr> ev_flag := f, ev_waits := ev_waits s + (if old then 0 else 1) \<rparr>)"

text \<open>A sleeper wakes when it is notified, when its time is over, or for no reason.\<close>

inductive event_step :: "wait_event \<Rightarrow> wait_event \<Rightarrow> bool" where
  wait: "ev_at s t = Not_waiting \<Longrightarrow> event_step s (ev_goes t Tests s)"
| test: "ev_at s t = Tests \<Longrightarrow> event_step s (ev_goes t (if ev_flag s then Falls_asleep else Not_waiting) (took s))"
| sleep: "ev_at s t = Falls_asleep \<Longrightarrow> event_step s (ev_goes t Sleeps s)"
| late: "ev_at s t = Sleeps \<Longrightarrow> event_step s (ev_goes t Late s)"
| last: "ev_at s t = Late \<Longrightarrow> event_step s (ev_goes t Not_waiting (took s))"
| wake: "ev_at s t = Sleeps \<Longrightarrow> event_step s (ev_goes t Tests s)"
| set: "event_step s (s\<lparr> ev_flag := False, ev_notify := Suc (ev_notify s), ev_sets := Suc (ev_sets s) \<rparr>)"
| notify: "ev_notify s = Suc n \<Longrightarrow> ev_at s t = Sleeps \<Longrightarrow> event_step s (ev_goes t Tests (s\<lparr> ev_notify := n \<rparr>))"
| notify_none: "ev_notify s = Suc n \<Longrightarrow> \<forall>t. ev_at s t \<noteq> Sleeps \<Longrightarrow> event_step s (s\<lparr> ev_notify := n \<rparr>)"

inductive event_reach :: "wait_event \<Rightarrow> bool" where
  new: "event_reach event_new"
| steps: "event_reach s \<Longrightarrow> event_step s s' \<Longrightarrow> event_reach s'"

text \<open>Each setting lets one wait succeed at most.\<close>

lemma event_sets: "event_reach s \<Longrightarrow> ev_waits s + (if ev_flag s then 0 else 1) \<le> ev_sets s"
proof (induction rule: event_reach.induct)
  case (steps s s')
  have t: "ev_waits (took s) + (if ev_flag (took s) then 0 else 1) \<le> ev_waits s + (if ev_flag s then 0 else 1)"
    "ev_sets (took s) = ev_sets s" by (simp_all add: took_def test_and_set_def)
  show ?case using steps(2,3) t by cases (auto simp: ev_goes_def split: if_splits)
qed (simp add: event_new_def)

text \<open>
  Setting may go unnoticed: between its test and its sleep a waiter has not yet joined the sleepers, so that the
  notification finds nobody, and it sleeps although the event is set until its time is over. The infinite timeout is no
  time at all: as a signed number of milliseconds it is -1, so that the wait returns at once.
\<close>

lemma wakeup_lost:
  "\<exists>s. event_reach s \<and> \<not> ev_flag s \<and> ev_notify s = 0 \<and> ev_at s t = Sleeps"
proof -
  let ?s1 = "ev_goes t Falls_asleep (took (ev_goes t Tests event_new))"
  let ?s2 = "?s1\<lparr> ev_flag := False, ev_notify := 1, ev_sets := 1 \<rparr>"
  let ?s3 = "?s2\<lparr> ev_notify := 0 \<rparr>"
  have s0: "event_reach (ev_goes t Tests event_new)"
    by (rule event_reach.steps [OF event_reach.new event_step.wait]) (simp add: event_new_def)
  have "event_reach ?s1" using event_reach.steps [OF s0 event_step.test [of _ t]] by (simp add: ev_goes_def event_new_def took_def)
  then have "event_reach ?s2" using event_reach.steps [OF _ event_step.set, of ?s1] by (simp add: ev_goes_def event_new_def took_def test_and_set_def)
  then have "event_reach ?s3"
    by (rule event_reach.steps) (rule event_step.notify_none [of _ 0], simp_all add: ev_goes_def event_new_def took_def test_and_set_def)
  then have "event_reach (ev_goes t Sleeps ?s3)"
    by (rule event_reach.steps) (rule event_step.sleep, simp add: ev_goes_def)
  then show ?thesis by (intro exI [of _ "ev_goes t Sleeps ?s3"]) (simp add: ev_goes_def)
qed

lemma infinite_timeout: "wait_ms 0xffffffffffffffff = -1"
  by (simp add: wait_ms_def)

section \<open>Mutual exclusion\<close>

text \<open>
  C23. Guards exclude each other: in every state that any threads can reach with guards of any of the three kinds, if none
  of them is released before its scope ends, at most one thread is told that it holds the lock, and the flag is set
  exactly while there is one; and when there is none, whichever spinning thread turns next gets the lock.
\<close>

theorem guards_exclude:
  assumes "lock_reach False s"
  shows "(inside (lk_at s t) \<and> inside (lk_at s u) \<longrightarrow> t = u) \<and> (lk_flag s \<longleftrightarrow> (\<exists>t. inside (lk_at s t))) \<and>
    ((\<forall>t. \<not> inside (lk_at s t)) \<longrightarrow> lk_at s t = Spins k \<longrightarrow> lock_step False s (goes t (Has (guard_new k)) True s))"
proof -
  have inv: "lock_inv s" by (rule lock_reach_inv [OF assms])
  have "lock_step False s (goes t (Has (guard_new k)) True s)" if "\<forall>t. \<not> inside (lk_at s t)" "lk_at s t = Spins k"
  proof -
    have "lock_turn (lk_flag s) = (True, True)" using inv that(1) by (simp add: lock_inv_def lock_turn_def test_and_set_def)
    then show ?thesis using lock_step.spin [OF that(2)] by (metis (full_types))
  qed
  then show ?thesis using inv by (auto simp: lock_inv_def)
qed

definition demo_locked :: locked where
  "demo_locked = goes 1 (Has (Try True)) True (goes 2 (Spins Infinite_kind) False locked_new)"

theorem guards_exclude_witness:
  "lk_flag demo_locked \<and> inside (lk_at demo_locked 1) \<and> \<not> inside (lk_at demo_locked 2)"
proof -
  have "lock_reach False (goes 2 (Spins Infinite_kind) False locked_new)"
    using lock_reach.steps [OF lock_reach.new lock_step.enter, of 2 False Infinite_kind] by (simp add: locked_new_def)
  from lock_reach.steps [OF this lock_step.attempt, of 1 "Try True" True]
  have "lock_reach False demo_locked" by (simp add: demo_locked_def goes_def locked_new_def try_new_def tryLock_def test_and_set_def)
  note g = guards_exclude [OF this, of 1 2 Infinite_kind]
  have "inside (lk_at demo_locked 1)" by (simp add: demo_locked_def goes_def)
  then show ?thesis using g by auto
qed

text \<open>
  The macro \<^verbatim>\<open>guard_lock\<close> releases its guard at the end of the loop and then destroys it, which clears the flag again,
  though another thread may have set it in the meantime: two threads are inside.
\<close>

lemma guard_lock_breaks:
  "\<exists>s. lock_reach True s \<and> inside (lk_at s 1) \<and> inside (lk_at s 2)"
proof -
  let ?a = "goes 0 (Spins Flag_kind) False locked_new"
  let ?b = "goes 0 (Has (Infinite_flag True)) True ?a"
  let ?c = "goes 0 (Has (Infinite_flag False)) False ?b"
  let ?d = "goes 1 (Has (Try True)) True ?c"
  let ?e = "goes 0 Outside False ?d"
  let ?f = "goes 2 (Has (Try True)) True ?e"
  note defs = goes_def locked_new_def lock_turn_def try_new_def tryLock_def test_and_set_def flag_release_def unlock_def
  have a: "lock_reach True ?a" using lock_reach.steps [OF lock_reach.new lock_step.enter, of 0 True Flag_kind] by (simp add: defs)
  have b: "lock_reach True ?b" using lock_reach.steps [OF a lock_step.spin, of 0 Flag_kind True True] by (simp add: defs)
  have c: "lock_reach True ?c" using lock_reach.steps [OF b lock_step.release, of 0 True "Infinite_flag False" False] by (simp add: defs)
  have d: "lock_reach True ?d" using lock_reach.steps [OF c lock_step.attempt, of 1 "Try True" True] by (simp add: defs)
  have e: "lock_reach True ?e" using lock_reach.steps [OF d lock_step.leave, of 0 "Infinite_flag False"] by (simp add: defs)
  have "lock_reach True ?f" using lock_reach.steps [OF e lock_step.attempt, of 2 "Try True" True] by (simp add: defs)
  then show ?thesis by (intro exI [of _ ?f]) (simp add: defs)
qed

end
