(* ===== verification/Sdk_File.thy ===== *)
theory Sdk_File
  imports Sdk_Frames Sdk_Dataport
begin

text \<open>
  \<^verbatim>\<open>read_all_file\<close> of \<^verbatim>\<open>tools/file.hpp\<close>. What is on the disk and how much each call of \<^verbatim>\<open>fread\<close> delivers are
  parameters.
\<close>

section \<open>Reading a file\<close>

text \<open>
  The loop over \<^verbatim>\<open>fread\<close>: \<open>reads\<close> tells how many bytes the calls deliver, at most what they are asked for; \<open>pos\<close> is the
  position in the file. Every call stores at the beginning of the buffer. \<^term>\<open>None\<close> is a loop that has not ended when
  no more is known about the calls.
\<close>

primrec read_loop :: "nat list \<Rightarrow> u8 list \<Rightarrow> nat \<Rightarrow> u8 list \<Rightarrow> (nat \<times> u8 list) option" where
  "read_loop [] contents accum data = None"
| "read_loop (n # reads) contents accum data =
     (let got = take (min n (length data - accum)) (drop accum contents);
          accum = accum + length got;
          data = got @ drop (length got) data in
      if accum < length data then read_loop reads contents accum data else Some (accum, data))"

definition read_all_file :: "u8 list option \<Rightarrow> nat list \<Rightarrow> u8 list \<Rightarrow> (bool \<times> u8 list) option" where
  "read_all_file file reads data = (case file of
     None \<Rightarrow> Some (False, data)
   | Some contents \<Rightarrow>
       let data = resize_bytes (length contents) data in
       if data = [] then Some (False, data)
       else do {
         (accum, data) \<leftarrow> read_loop reads contents 0 data;
         Some (length data = accum, data) })"

text \<open>
  When one call delivers the whole file, it is read; when the first one delivers less, the next one stores over it, and
  wrong data are returned as a success. An empty file is a failure.
\<close>

lemma read_loop_whole:
  "length data = length contents \<Longrightarrow> length contents \<le> n \<Longrightarrow> read_loop (n # reads) contents 0 data = Some (length contents, contents)"
  by (simp add: Let_def)

lemma read_at_once:
  assumes "contents \<noteq> []" "length contents \<le> n"
  shows "read_all_file (Some contents) (n # reads) data = Some (True, contents)"
proof -
  have "resize_bytes (length contents) data \<noteq> []" using assms(1) by (metis length_0_conv length_resize_bytes)
  then show ?thesis using read_loop_whole [OF _ assms(2), of "resize_bytes (length contents) data" reads]
    by (simp add: read_all_file_def Let_def del: read_loop.simps)
qed

lemma read_loop_first:
  "length data = length contents \<Longrightarrow> k < length contents \<Longrightarrow>
    read_loop (k # reads) contents 0 data = read_loop reads contents k (take k contents @ drop k data)"
  by (simp add: Let_def min_def)

lemma read_loop_last:
  "length data = length contents \<Longrightarrow> k < length contents \<Longrightarrow> length contents - k \<le> n \<Longrightarrow>
    read_loop (n # reads) contents k data = Some (length contents, drop k contents @ drop (length contents - k) data)"
  by (simp add: Let_def)

lemma read_loop_parts:
  assumes "length data = length contents" "k < length contents" "length contents - k \<le> n"
  shows "read_loop (k # n # reads) contents 0 data =
    Some (length contents, drop k contents @ drop (length contents - k) (take k contents @ drop k data))"
  unfolding read_loop_first [OF assms(1,2)] using assms by (intro read_loop_last) simp_all

lemma read_in_parts_wrong:
  assumes "k < length contents" "length contents - k \<le> n"
  shows "read_all_file (Some contents) (k # n # reads) data =
    Some (True, drop k contents @ drop (length contents - k) (take k contents @ drop k (resize_bytes (length contents) data)))"
proof -
  have "resize_bytes (length contents) data \<noteq> []" using assms(1) by (metis length_0_conv length_resize_bytes not_less_zero)
  then show ?thesis using read_loop_parts [OF _ assms, of "resize_bytes (length contents) data" reads] assms(1)
    by (simp add: read_all_file_def Let_def del: read_loop.simps)
qed

lemma read_in_parts_example: "read_all_file (Some [1, 2, 3, 4]) [2, 2] [] = Some (True, [3, 4, 0, 0])"
  using read_in_parts_wrong [of 2 "[1, 2, 3, 4]" 2 "[]" "[]"] by (simp add: resize_bytes_def)

end
