(* ===== verification/Sdk_Json_String.thy ===== *)
theory Sdk_Json_String
  imports Sdk_Hash
begin

unbundle bit_operations_syntax

text \<open>
  The strings of \<^verbatim>\<open>tools/json_writer.hpp\<close>: decoding of UTF-8 and the escapes of a quoted string. A string of the
  program is its list of bytes. The theory states what is read back by a parser of string literals, which knows
  nothing of the writer.
\<close>

section \<open>Strings\<close>

definition chars_of :: "string \<Rightarrow> u8 list" where
  "chars_of = map of_char"

definition hex2 :: "u8 list" where
  "hex2 = chars_of (''000102030405060708090a0b0c0d0e0f'' @
     ''101112131415161718191a1b1c1d1e1f'' @
     ''202122232425262728292a2b2c2d2e2f'' @
     ''303132333435363738393a3b3c3d3e3f'' @
     ''404142434445464748494a4b4c4d4e4f'' @
     ''505152535455565758595a5b5c5d5e5f'' @
     ''606162636465666768696a6b6c6d6e6f'' @
     ''707172737475767778797a7b7c7d7e7f'' @
     ''808182838485868788898a8b8c8d8e8f'' @
     ''909192939495969798999a9b9c9d9e9f'' @
     ''a0a1a2a3a4a5a6a7a8a9aaabacadaeaf'' @
     ''b0b1b2b3b4b5b6b7b8b9babbbcbdbebf'' @
     ''c0c1c2c3c4c5c6c7c8c9cacbcccdcecf'' @
     ''d0d1d2d3d4d5d6d7d8d9dadbdcdddedf'' @
     ''e0e1e2e3e4e5e6e7e8e9eaebecedeeef'' @
     ''f0f1f2f3f4f5f6f7f8f9fafbfcfdfeff'')"

definition toHex16Bit :: "u32 \<Rightarrow> u8 list" where
  "toHex16Bit x = (let hi = drop_bit 8 x AND 0xff; lo = x AND 0xff in
     [hex2 ! unat (2 * hi), hex2 ! unat (2 * hi + 1), hex2 ! unat (2 * lo), hex2 ! unat (2 * lo + 1)])"

text \<open>
  The code point at the front of the string \<open>s\<close>, and how far the pointer is moved; the loop moves it one further.
  The characters of \<open>s\<close> may be signed: all that is used of those behind the first are six bits.
\<close>

definition utf8ToCodepoint :: "u8 list \<Rightarrow> u32 \<times> nat" where
  "utf8ToCodepoint s =
     (let firstByte = ucast (s ! 0) :: u32 in
      if firstByte < 0x80 then (firstByte, 0)
      else if firstByte < 0xE0 then
        if length s < 2 then (0xFFFD, 0)
        else let calculated = push_bit 6 (firstByte AND 0x1F) OR (ucast (s ! 1) AND 0x3F) in
          (if calculated < 0x80 then 0xFFFD else calculated, 1)
      else if firstByte < 0xF0 then
        if length s < 3 then (0xFFFD, 0)
        else let calculated = push_bit 12 (firstByte AND 0x0F) OR push_bit 6 (ucast (s ! 1) AND 0x3F) OR (ucast (s ! 2) AND 0x3F) in
          (if calculated \<ge> 0xD800 \<and> calculated \<le> 0xDFFF then 0xFFFD
           else if calculated < 0x800 then 0xFFFD else calculated, 2)
      else if firstByte < 0xF8 then
        if length s < 4 then (0xFFFD, 0)
        else let calculated = push_bit 18 (firstByte AND 0x07) OR push_bit 12 (ucast (s ! 1) AND 0x3F)
            OR push_bit 6 (ucast (s ! 2) AND 0x3F) OR (ucast (s ! 3) AND 0x3F) in
          (if calculated < 0x10000 then 0xFFFD else calculated, 3)
      else (0xFFFD, 0))"

definition put_codepoint :: "u32 \<Rightarrow> u8 list" where
  "put_codepoint cp =
     (if cp < 0x80 \<and> cp \<ge> 0x20 then [ucast cp]
      else if cp < 0x10000 then [92, 117] @ toHex16Bit cp
      else let cp = cp - 0x10000 in
        [92, 117] @ toHex16Bit (drop_bit 10 cp + 0xD800) @ [92, 117] @ toHex16Bit ((cp AND 0x3FF) + 0xDC00))"

text \<open>The cases of the switch: the character and the one put behind a backslash for it.\<close>

definition short_escapes :: "(u8 \<times> u8) list" where
  "short_escapes = [(34, 34), (92, 92), (8, 98), (12, 102), (10, 110), (13, 114), (9, 116)]"

function quoted_loop :: "u8 list \<Rightarrow> u8 list" where
  "quoted_loop [] = []"
| "quoted_loop (c # cs) = (case map_of short_escapes c of
     Some e \<Rightarrow> [92, e] @ quoted_loop cs
   | None \<Rightarrow> (case utf8ToCodepoint (c # cs) of (cp, n) \<Rightarrow> put_codepoint cp @ quoted_loop (drop n cs)))"
  by pat_completeness auto
termination by (relation "measure length") auto

definition value_2_quoted_str :: "u8 list option \<Rightarrow> u8 list \<Rightarrow> u8 list" where
  "value_2_quoted_str value out = (case value of None \<Rightarrow> out | Some s \<Rightarrow> out @ [34] @ quoted_loop s @ [34])"

section \<open>Unicode\<close>

text \<open>The encodings of a code point in bytes and in units of sixteen bits.\<close>

definition utf8 :: "nat \<Rightarrow> u8 list" where
  "utf8 cp = map word_of_nat
     (if cp < 0x80 then [cp]
      else if cp < 0x800 then [0xC0 + cp div 64, 0x80 + cp mod 64]
      else if cp < 0x10000 then [0xE0 + cp div 4096, 0x80 + cp div 64 mod 64, 0x80 + cp mod 64]
      else [0xF0 + cp div 262144, 0x80 + cp div 4096 mod 64, 0x80 + cp div 64 mod 64, 0x80 + cp mod 64])"

definition utf16 :: "nat \<Rightarrow> nat list" where
  "utf16 cp = (if cp < 0x10000 then [cp] else [0xD800 + (cp - 0x10000) div 1024, 0xDC00 + (cp - 0x10000) mod 1024])"

definition scalar_value :: "nat \<Rightarrow> bool" where
  "scalar_value cp \<longleftrightarrow> cp < 0xD800 \<or> 0xE000 \<le> cp \<and> cp < 0x110000"

text \<open>A string literal of JSON behind its first quote, in ASCII: its units and what follows it.\<close>

definition hex_val :: "u8 \<Rightarrow> nat option" where
  "hex_val b = (if 48 \<le> b \<and> b \<le> 57 then Some (unat b - 48) else if 97 \<le> b \<and> b \<le> 102 then Some (unat b - 87)
     else if 65 \<le> b \<and> b \<le> 70 then Some (unat b - 55) else None)"

fun hex4 :: "u8 list \<Rightarrow> nat option" where
  "hex4 [a, b, c, d] = do { a \<leftarrow> hex_val a; b \<leftarrow> hex_val b; c \<leftarrow> hex_val c; d \<leftarrow> hex_val d;
     Some (((a * 16 + b) * 16 + c) * 16 + d) }"
| "hex4 _ = None"

definition unescapes :: "(u8 \<times> nat) list" where
  "unescapes = [(34, 34), (92, 92), (47, 47), (98, 8), (102, 12), (110, 10), (114, 13), (116, 9)]"

fun json_chars :: "u8 list \<Rightarrow> (nat list \<times> u8 list) option" where
  "json_chars [] = None"
| "json_chars (b # bs) =
     (if b = 34 then Some ([], bs)
      else if b = 92 then (case bs of
          [] \<Rightarrow> None
        | e # es \<Rightarrow>
            if e = 117 then do { u \<leftarrow> hex4 (take 4 es); (us, r) \<leftarrow> json_chars (drop 4 es); Some (u # us, r) }
            else do { u \<leftarrow> map_of unescapes e; (us, r) \<leftarrow> json_chars es; Some (u # us, r) })
      else if 32 \<le> b \<and> b < 128 then do { (us, r) \<leftarrow> json_chars bs; Some (unat b # us, r) }
      else None)"


lemma hex2_eq: "hex2 = concat (map hex_of (map word_of_nat [0..<256]))"
  by code_simp

section \<open>Escapes\<close>

lemma concat_pairs_nth:
  "(\<And>x. x \<in> set xs \<Longrightarrow> length (f x) = 2) \<Longrightarrow> i < length xs \<Longrightarrow>
    concat (map f xs) ! (2 * i) = f (xs ! i) ! 0 \<and> concat (map f xs) ! (2 * i + 1) = f (xs ! i) ! 1"
proof (induction xs arbitrary: i)
  case (Cons x xs)
  then show ?case by (cases i) (simp_all add: nth_append)
qed simp

lemma hex2_nth:
  assumes "n < 256"
  shows "hex2 ! (2 * n) = hex_digit (n div 16)" "hex2 ! (2 * n + 1) = hex_digit (n mod 16)"
proof -
  have "hex2 = concat (map (\<lambda>n. hex_of (word_of_nat n)) [0..<256])" by (simp only: hex2_eq map_map o_def)
  then show "hex2 ! (2 * n) = hex_digit (n div 16)" "hex2 ! (2 * n + 1) = hex_digit (n mod 16)"
    using concat_pairs_nth [of "[0..<256]" "\<lambda>n. hex_of (word_of_nat n)" n] assms
    by (simp_all add: hex_of_def unat_u8_of_nat)
qed

lemma toHex16Bit_digits:
  assumes "unat x < 65536"
  shows "toHex16Bit x = [hex_digit (unat x div 4096), hex_digit (unat x div 256 mod 16),
    hex_digit (unat x div 16 mod 16), hex_digit (unat x mod 16)]"
proof -
  let ?n = "unat x"
  have hi: "unat (drop_bit 8 x AND 0xff) = ?n div 256"
  proof -
    have "?n < 2 ^ 32" using unsigned_less [of x] by simp
    then have "unat (drop_bit 8 x) = ?n div 256"
      by (simp only: unsigned_drop_bit_eq) (simp add: drop_bit_eq_div take_bit_nat_eq_self)
    moreover have "drop_bit 8 x AND 0xff = drop_bit 8 x AND mask 8" by (simp add: mask_eq_exp_minus_1)
    ultimately show ?thesis using assms by (simp only: unat_and_mask) simp
  qed
  have lo: "unat (x AND 0xff) = ?n mod 256"
    using unat_and_mask [of x 8] by (simp add: mask_eq_exp_minus_1)
  have dbl: "unat (2 * y) = 2 * unat y" "unat (2 * y + 1) = 2 * unat y + 1" if "unat y < 256" for y :: u32
    using that by (simp_all add: unat_word_ariths unat_mult_lem)
  show ?thesis
    using hex2_nth [of "?n div 256"] hex2_nth [of "?n mod 256"] assms
      mod_mult2_eq [of ?n 16 16] mod_mod_cancel [of 16 256 ?n]
    by (simp add: toHex16Bit_def Let_def dbl hi lo div_mult2_eq [symmetric])
qed

lemma hex_val_digit: "n < 16 \<Longrightarrow> hex_val (hex_digit n) = Some n"
  by (auto simp: hex_val_def hex_digit_def word_le_nat_alt unat_u8_of_nat)

lemma hex4_toHex16Bit: "unat x < 65536 \<Longrightarrow> hex4 (toHex16Bit x) = Some (unat x)"
proof -
  have "((n div 4096 * 16 + n div 256 mod 16) * 16 + n div 16 mod 16) * 16 + n mod 16 = n" for n :: nat
    using div_mult_mod_eq [of n 16] div_mult_mod_eq [of "n div 16" 16] div_mult_mod_eq [of "n div 256" 16]
    by (simp add: div_mult2_eq [symmetric])
  moreover assume "unat x < 65536"
  ultimately show ?thesis by (simp add: toHex16Bit_digits hex_val_digit)
qed

lemma json_chars_u:
  "unat x < 65536 \<Longrightarrow> json_chars ([92, 117] @ toHex16Bit x @ bs) = map_option (\<lambda>(us, r). (unat x # us, r)) (json_chars bs)"
  using hex4_toHex16Bit [of x] by (simp add: toHex16Bit_digits split: Option.bind_split)


section \<open>Decoding\<close>

text \<open>The code points the loop finds, in any bytes.\<close>

function code_points :: "u8 list \<Rightarrow> nat list" where
  "code_points [] = []"
| "code_points (c # cs) = (case utf8ToCodepoint (c # cs) of (cp, n) \<Rightarrow> unat cp # code_points (drop n cs))"
  by pat_completeness auto
termination by (relation "measure length") auto

lemma unat_or_low:
  fixes x y :: u32
  assumes "unat y < 2 ^ k" "unat x * 2 ^ k < 2 ^ 32"
  shows "unat (push_bit k x OR y) = unat x * 2 ^ k + unat y"
proof -
  have "unat (push_bit k x OR y) = push_bit k (unat x) OR unat y"
  proof -
    have "unat (push_bit k x) = push_bit k (unat x)"
      using assms(2) by (simp only: unsigned_push_bit_eq) (simp add: push_bit_eq_mult take_bit_nat_eq_self)
    then show ?thesis by (simp only: unsigned_or_eq)
  qed
  also have "\<dots> = push_bit k (unat x) + unat y"
  proof (rule disjunctive_add [symmetric])
    fix n
    have "\<not> bit (unat y) n" if "k \<le> n"
    proof -
      have "unat y < 2 ^ n" using assms(1) that by (meson less_le_trans one_le_numeral power_increasing)
      then show ?thesis by (simp add: bit_iff_odd)
    qed
    then show "\<not> bit (push_bit k (unat x)) n \<or> \<not> bit (unat y) n" by (auto simp: bit_push_bit_iff)
  qed
  finally show ?thesis by (simp add: push_bit_eq_mult)
qed

lemma unat_ucast_byte: "unat (ucast b :: u32) = unat b" for b :: u8
  using u8_less [of b] by (simp add: unsigned_ucast_eq take_bit_nat_eq_self)

lemma six_bits: "unat ((ucast b :: u32) AND 0x3F) = unat b mod 64" for b :: u8
  using unat_and_mask [of "ucast b :: u32" 6] by (simp add: mask_eq_exp_minus_1 unat_ucast_byte)

lemma lead_bits:
  "unat ((ucast b :: u32) AND 0x1F) = unat b mod 32" "unat ((ucast b :: u32) AND 0x0F) = unat b mod 16"
  "unat ((ucast b :: u32) AND 0x07) = unat b mod 8" for b :: u8
  using unat_and_mask [of "ucast b :: u32" 5] unat_and_mask [of "ucast b :: u32" 4] unat_and_mask [of "ucast b :: u32" 3]
  by (simp_all add: mask_eq_exp_minus_1 unat_ucast_byte)


lemma unat_codepoints:
  fixes a b c d :: u8
  shows "unat (push_bit 6 ((ucast a :: u32) AND 0x1F) OR (ucast b AND 0x3F)) = unat a mod 32 * 64 + unat b mod 64"
    "unat (push_bit 12 ((ucast a :: u32) AND 0x0F) OR push_bit 6 (ucast b AND 0x3F) OR (ucast c AND 0x3F)) =
      unat a mod 16 * 4096 + unat b mod 64 * 64 + unat c mod 64"
    "unat (push_bit 18 ((ucast a :: u32) AND 0x07) OR push_bit 12 (ucast b AND 0x3F) OR push_bit 6 (ucast c AND 0x3F)
      OR (ucast d AND 0x3F)) = unat a mod 8 * 262144 + unat b mod 64 * 4096 + unat c mod 64 * 64 + unat d mod 64"
proof -
  have m: "unat x mod 64 < 64" "unat x mod 32 < 32" "unat x mod 16 < 16" "unat x mod 8 < 8" for x :: u8 by simp_all
  have two: "unat (push_bit 6 ((ucast b :: u32) AND 0x3F) OR (ucast c AND 0x3F)) = unat b mod 64 * 64 + unat c mod 64" for b c :: u8
    using m(1) [of b] m(1) [of c] by (subst unat_or_low) (simp_all add: six_bits del: push_bit_and)
  have three: "unat (push_bit 12 ((ucast b :: u32) AND 0x3F) OR (push_bit 6 (ucast c AND 0x3F) OR (ucast d AND 0x3F))) =
      unat b mod 64 * 4096 + (unat c mod 64 * 64 + unat d mod 64)" for b c d :: u8
    using m(1) [of b] m(1) [of c] m(1) [of d] by (subst unat_or_low) (simp_all add: two six_bits del: push_bit_and)
  show "unat (push_bit 6 ((ucast a :: u32) AND 0x1F) OR (ucast b AND 0x3F)) = unat a mod 32 * 64 + unat b mod 64"
    using m(2) [of a] m(1) [of b] by (subst unat_or_low) (simp_all add: six_bits lead_bits del: push_bit_and)
  show "unat (push_bit 12 ((ucast a :: u32) AND 0x0F) OR push_bit 6 (ucast b AND 0x3F) OR (ucast c AND 0x3F)) =
      unat a mod 16 * 4096 + unat b mod 64 * 64 + unat c mod 64"
    using m(3) [of a] m(1) [of b] m(1) [of c] unfolding or.assoc
    by (subst unat_or_low) (simp_all add: two lead_bits del: push_bit_and)
  show "unat (push_bit 18 ((ucast a :: u32) AND 0x07) OR push_bit 12 (ucast b AND 0x3F) OR push_bit 6 (ucast c AND 0x3F)
      OR (ucast d AND 0x3F)) = unat a mod 8 * 262144 + unat b mod 64 * 4096 + unat c mod 64 * 64 + unat d mod 64"
    using m(4) [of a] m(1) [of b] m(1) [of c] m(1) [of d] unfolding or.assoc
    by (subst unat_or_low) (simp_all add: three lead_bits del: push_bit_and)
qed

text \<open>The same over natural numbers.\<close>

definition decode :: "u8 list \<Rightarrow> nat \<times> nat" where
  "decode s = (let a = unat (s ! 0); b = unat (s ! 1) mod 64; c = unat (s ! 2) mod 64; d = unat (s ! 3) mod 64 in
     if a < 128 then (a, 0)
     else if a < 224 then if length s < 2 then (65533, 0)
       else let v = a mod 32 * 64 + b in (if v < 128 then 65533 else v, 1)
     else if a < 240 then if length s < 3 then (65533, 0)
       else let v = a mod 16 * 4096 + b * 64 + c in (if 55296 \<le> v \<and> v \<le> 57343 \<or> v < 2048 then 65533 else v, 2)
     else if a < 248 then if length s < 4 then (65533, 0)
       else let v = a mod 8 * 262144 + b * 4096 + c * 64 + d in (if v < 65536 then 65533 else v, 3)
     else (65533, 0))"

lemma utf8ToCodepoint_decode: "map_prod unat id (utf8ToCodepoint s) = decode s"
proof -
  have l: "(ucast (s ! 0) :: u32) < word_of_nat n \<longleftrightarrow> unat (s ! 0) < n" if "n < 2 ^ 32" for n
    using that by (simp add: word_less_nat_alt unat_ucast_byte unat_of_nat)
  show ?thesis using l [of 128] l [of 224] l [of 240] l [of 248]
    by (simp add: utf8ToCodepoint_def decode_def Let_def word_less_nat_alt word_le_nat_alt unat_codepoints unat_ucast_byte del: push_bit_and)
qed


lemma decode_cases:
  "utf8ToCodepoint s = (cp, n) \<Longrightarrow> decode s = (unat cp, n)"
  using utf8ToCodepoint_decode [of s] by simp

lemma decode_bounds: "fst (decode s) < 2097152" "128 \<le> unat (s ! 0) \<Longrightarrow> 128 \<le> fst (decode s)"
  "unat (s ! 0) < 128 \<Longrightarrow> decode s = (unat (s ! 0), 0)"
proof -
  have m: "unat x mod 64 < 64" "unat x mod 32 < 32" "unat x mod 16 < 16" "unat x mod 8 < 8" for x :: u8 by simp_all
  have "unat (s ! 0) mod 32 * 64 + unat (s ! Suc 0) mod 64 < 2097152" using m(2) [of "s ! 0"] m(1) [of "s ! Suc 0"] by linarith
  moreover have "unat (s ! 0) mod 16 * 4096 + unat (s ! Suc 0) mod 64 * 64 + unat (s ! 2) mod 64 < 2097152"
    using m(3) [of "s ! 0"] m(1) [of "s ! Suc 0"] m(1) [of "s ! 2"] by linarith
  moreover have "unat (s ! 0) mod 8 * 262144 + unat (s ! Suc 0) mod 64 * 4096 + unat (s ! 2) mod 64 * 64 + unat (s ! 3) mod 64 < 2097152"
    using m(4) [of "s ! 0"] m(1) [of "s ! Suc 0"] m(1) [of "s ! 2"] m(1) [of "s ! 3"] by linarith
  ultimately show "fst (decode s) < 2097152" using u8_less [of "s ! 0"] by (simp add: decode_def Let_def)
  show "128 \<le> unat (s ! 0) \<Longrightarrow> 128 \<le> fst (decode s)" by (simp add: decode_def Let_def)
  show "unat (s ! 0) < 128 \<Longrightarrow> decode s = (unat (s ! 0), 0)" by (simp add: decode_def)
qed

lemma utf8_lead: "x < 32 \<Longrightarrow> (192 + x) mod 32 = x" "x < 16 \<Longrightarrow> (224 + x) mod 16 = x" "x < 8 \<Longrightarrow> (240 + x) mod 8 = x"
  "(128 + x mod 64) mod 64 = x mod 64" for x :: nat
  using mod_add_left_eq [of 192 32 x] mod_add_left_eq [of 224 16 x] mod_add_left_eq [of 240 8 x] mod_add_left_eq [of 128 64 "x mod 64"]
  by simp_all

lemma digits64:
  "n div 64 * 64 + n mod 64 = n" "n div 4096 * 4096 + n div 64 mod 64 * 64 + n mod 64 = n"
  "n div 262144 * 262144 + n div 4096 mod 64 * 4096 + n div 64 mod 64 * 64 + n mod 64 = n" for n :: nat
proof -
  have "n div 64 div 64 = n div 4096" "n div 4096 div 64 = n div 262144" by (simp_all add: div_mult2_eq [symmetric])
  then show "n div 64 * 64 + n mod 64 = n" "n div 4096 * 4096 + n div 64 mod 64 * 64 + n mod 64 = n"
      "n div 262144 * 262144 + n div 4096 mod 64 * 4096 + n div 64 mod 64 * 64 + n mod 64 = n"
    using div_mult_mod_eq [of n 64] div_mult_mod_eq [of "n div 64" 64] div_mult_mod_eq [of "n div 4096" 64] by linarith+
qed

lemma decode_utf8:
  assumes "scalar_value cp"
  shows "decode (utf8 cp @ bs) = (cp, length (utf8 cp) - 1)"
proof -
  have c: "unat (word_of_nat (128 + x mod 64) :: u8) = 128 + x mod 64" for x
    using mod_less_divisor [of 64 x] by (intro unat_u8_of_nat) linarith
  consider "cp < 128" | "128 \<le> cp" "cp < 2048" | "2048 \<le> cp" "cp < 65536" "\<not> (55296 \<le> cp \<and> cp \<le> 57343)"
    | "65536 \<le> cp" "cp < 1114112"
    using assms by (fastforce simp: scalar_value_def)
  then show ?thesis
  proof cases
    case 1
    then show ?thesis by (simp add: utf8_def decode_def unat_u8_of_nat)
  next
    case 2
    then have "unat (word_of_nat (192 + cp div 64) :: u8) = 192 + cp div 64" "cp div 64 < 32"
      by (simp_all only: unat_u8_of_nat)
    then show ?thesis using 2 c [of cp] by (simp add: utf8_def decode_def Let_def utf8_lead digits64 del: of_nat_add)
  next
    case 3
    then have "unat (word_of_nat (224 + cp div 4096) :: u8) = 224 + cp div 4096" "cp div 4096 < 16"
      by (simp_all only: unat_u8_of_nat)
    then show ?thesis using 3 c [of cp] c [of "cp div 64"]
      by (simp add: utf8_def decode_def Let_def utf8_lead digits64 del: of_nat_add)
  next
    case 4
    then have "unat (word_of_nat (240 + cp div 262144) :: u8) = 240 + cp div 262144" "cp div 262144 < 8"
      by (simp_all only: unat_u8_of_nat)
    then show ?thesis using 4 c [of cp] c [of "cp div 64"] c [of "cp div 4096"]
      by (simp add: utf8_def decode_def Let_def utf8_lead digits64 del: of_nat_add)
  qed
qed


lemma code_points_utf8_append:
  assumes "scalar_value cp"
  shows "code_points (utf8 cp @ bs) = cp # code_points bs"
proof -
  obtain c cs where u: "utf8 cp = c # cs" by (cases "utf8 cp") (auto simp: utf8_def split: if_splits)
  obtain w n where w: "utf8ToCodepoint (c # cs @ bs) = (w, n)" by (cases "utf8ToCodepoint (c # cs @ bs)")
  then have "(unat w, n) = (cp, length cs)" using decode_utf8 [OF assms, of bs] decode_cases [OF w] u by simp
  then show ?thesis using w by (simp add: u)
qed

lemma code_points_utf8: "list_all scalar_value cps \<Longrightarrow> code_points (concat (map utf8 cps)) = cps"
  by (induction cps) (simp_all add: code_points_utf8_append)

section \<open>Reading strings back\<close>

lemma surrogates:
  fixes cp :: u32
  assumes "65536 \<le> unat cp" "unat cp < 2097152"
  shows "unat (drop_bit 10 (cp - 0x10000) + 0xD800) = 55296 + (unat cp - 65536) div 1024"
    "unat ((cp - 0x10000 AND 0x3FF) + 0xDC00) = 56320 + (unat cp - 65536) mod 1024"
    "unat (drop_bit 10 (cp - 0x10000) + 0xD800) < 65536" "unat ((cp - 0x10000 AND 0x3FF) + 0xDC00) < 65536"
proof -
  let ?v = "cp - 0x10000"
  have v: "unat ?v = unat cp - 65536" using assms(1) by (simp add: unat_sub word_le_nat_alt)
  have "unat (drop_bit 10 ?v) = unat ?v div 1024"
  proof -
    have "unat ?v < 2 ^ 32" using unsigned_less [of ?v] by simp
    then show ?thesis by (simp only: unsigned_drop_bit_eq) (simp add: drop_bit_eq_div take_bit_nat_eq_self)
  qed
  then show hi: "unat (drop_bit 10 ?v + 0xD800) = 55296 + (unat cp - 65536) div 1024"
    using assms(2) v by (subst unat_add_lem [THEN iffD1]) auto
  have "unat (?v AND 0x3FF) = (unat cp - 65536) mod 1024"
    using unat_and_mask [of ?v 10] v by (simp add: mask_eq_exp_minus_1)
  then show lo: "unat ((?v AND 0x3FF) + 0xDC00) = 56320 + (unat cp - 65536) mod 1024"
    by (subst unat_add_lem [THEN iffD1]) auto
  have "(unat cp - 65536) mod 1024 < 1024" by simp
  then show "unat (drop_bit 10 ?v + 0xD800) < 65536" "unat ((?v AND 0x3FF) + 0xDC00) < 65536"
    unfolding hi lo using assms(2) by linarith+
qed

lemma put_codepoint_cases:
  obtains (char) "32 \<le> unat cp" "unat cp < 128" "put_codepoint cp = [ucast cp]" "unat (ucast cp :: u8) = unat cp"
  | (escape) "unat cp < 65536" "put_codepoint cp = [92, 117] @ toHex16Bit cp"
  | (pair) "65536 \<le> unat cp" "put_codepoint cp = [92, 117] @ toHex16Bit (drop_bit 10 (cp - 0x10000) + 0xD800) @
      [92, 117] @ toHex16Bit ((cp - 0x10000 AND 0x3FF) + 0xDC00)"
proof -
  have l: "cp < 0x80 \<longleftrightarrow> unat cp < 128" "cp \<ge> 0x20 \<longleftrightarrow> 32 \<le> unat cp" "cp < 0x10000 \<longleftrightarrow> unat cp < 65536"
    by (simp_all add: word_less_nat_alt word_le_nat_alt)
  consider "unat cp < 128" "32 \<le> unat cp" | "\<not> (unat cp < 128 \<and> 32 \<le> unat cp)" "unat cp < 65536" | "65536 \<le> unat cp" by linarith
  then show thesis
  proof cases
    case 1
    then have "put_codepoint cp = [ucast cp]" unfolding put_codepoint_def l by simp
    moreover have "unat (ucast cp :: u8) = unat cp" using 1 by (simp add: unsigned_ucast_eq take_bit_nat_eq_self)
    ultimately show thesis using 1 by (intro char)
  next
    case 2
    then have "put_codepoint cp = [92, 117] @ toHex16Bit cp" unfolding put_codepoint_def l by auto
    then show thesis using 2 by (intro escape)
  next
    case 3
    then have "put_codepoint cp = [92, 117] @ toHex16Bit (drop_bit 10 (cp - 0x10000) + 0xD800) @
        [92, 117] @ toHex16Bit ((cp - 0x10000 AND 0x3FF) + 0xDC00)" unfolding put_codepoint_def l Let_def by auto
    then show thesis using 3 by (intro pair)
  qed
qed

lemma json_chars_codepoint:
  assumes "unat cp < 2097152" "cp \<noteq> 34" "cp \<noteq> 92"
  shows "json_chars (put_codepoint cp @ bs) = map_option (\<lambda>(us, r). (utf16 (unat cp) @ us, r)) (json_chars bs)"
proof (cases cp rule: put_codepoint_cases)
  case char
  have "unat cp \<noteq> 34" "unat cp \<noteq> 92" using assms(2,3) by (simp_all add: word_unat_eq_iff)
  then have "(ucast cp :: u8) \<noteq> 34" "(ucast cp :: u8) \<noteq> 92" "32 \<le> (ucast cp :: u8)" "(ucast cp :: u8) < 128"
    using char by (auto simp: word_le_nat_alt word_less_nat_alt)
  then show ?thesis using char by (simp add: utf16_def split: Option.bind_split)
next
  case escape
  then show ?thesis using json_chars_u [of cp bs] by (simp only: append_assoc utf16_def if_True append.simps)
next
  case pair
  note s = surrogates [OF pair(1) assms(1)]
  have "json_chars (put_codepoint cp @ bs) = map_option (\<lambda>(us, r). ((55296 + (unat cp - 65536) div 1024) # us, r))
      (map_option (\<lambda>(us, r). ((56320 + (unat cp - 65536) mod 1024) # us, r)) (json_chars bs))"
    unfolding pair(2) append_assoc json_chars_u [OF s(3)] json_chars_u [OF s(4)] unfolding s(1,2) ..
  then show ?thesis using pair(1) by (cases "json_chars bs") (auto simp: utf16_def)
qed

lemma json_chars_loop:
  "json_chars (quoted_loop s @ 34 # bs) = Some (concat (map utf16 (code_points s)), bs)"
proof (induction s rule: quoted_loop.induct)
  case 1
  then show ?case by simp
next
  case (2 c cs)
  show ?case
  proof (cases "map_of short_escapes c")
    case None
    then have c: "c \<noteq> 34" "c \<noteq> 92" by (auto simp: short_escapes_def)
    obtain cp n where cp: "utf8ToCodepoint (c # cs) = (cp, n)" by (cases "utf8ToCodepoint (c # cs)")
    have d: "decode (c # cs) = (unat cp, n)" by (rule decode_cases [OF cp])
    have "unat c \<noteq> 34" "unat c \<noteq> 92" using c by (simp_all add: word_unat_eq_iff)
    then have "unat cp < 2097152" "unat cp \<noteq> 34" "unat cp \<noteq> 92"
      using decode_bounds [of "c # cs"] d by (cases "unat c < 128"; force)+
    then have "unat cp < 2097152" "cp \<noteq> 34" "cp \<noteq> 92" by auto
    then show ?thesis using None cp 2(1) [OF None cp [symmetric]] by (simp add: json_chars_codepoint)
  next
    case (Some e)
    then have "(c, e) \<in> set short_escapes" by (rule map_of_SomeD)
    then have ce: "unat c < 128" "e \<noteq> 117" "map_of unescapes e = Some (unat c)"
      by (auto simp: short_escapes_def unescapes_def)
    then have "utf8ToCodepoint (c # cs) = (ucast c, 0)" by (simp add: utf8ToCodepoint_def word_less_nat_alt unat_ucast_byte)
    then show ?thesis using Some ce 2(2) [OF Some] by (simp add: unat_ucast_byte utf16_def)
  qed
qed

definition json_string :: "u8 list \<Rightarrow> (nat list \<times> u8 list) option" where
  "json_string bs = (case bs of [] \<Rightarrow> None | b # r \<Rightarrow> if b = 34 then json_chars r else None)"

definition units :: "u8 list \<Rightarrow> nat list" where
  "units s = concat (map utf16 (code_points s))"

lemma json_string_quoted: "json_string (value_2_quoted_str (Some s) [] @ bs) = Some (units s, bs)"
  by (simp add: json_string_def value_2_quoted_str_def json_chars_loop units_def)

text \<open>All that is written is ASCII without the control characters below 32; the byte 127 is written as it is.\<close>

definition plain_ascii :: "u8 list \<Rightarrow> bool" where
  "plain_ascii bs \<longleftrightarrow> list_all (\<lambda>b. 32 \<le> b \<and> b < 128) bs"

lemma plain_ascii_append [simp]: "plain_ascii (xs @ ys) \<longleftrightarrow> plain_ascii xs \<and> plain_ascii ys"
  by (simp add: plain_ascii_def)

lemma plain_ascii_Cons [simp]: "plain_ascii (b # bs) \<longleftrightarrow> 32 \<le> b \<and> b < 128 \<and> plain_ascii bs" "plain_ascii []"
  by (auto simp: plain_ascii_def)

lemma toHex16Bit_plain_ascii: "unat x < 65536 \<Longrightarrow> plain_ascii (toHex16Bit x)"
proof -
  have "32 \<le> hex_digit n \<and> hex_digit n < 128" if "n < 16" for n
    using that by (auto simp: hex_digit_def word_le_nat_alt word_less_nat_alt unat_u8_of_nat)
  moreover assume "unat x < 65536"
  ultimately show ?thesis by (simp add: toHex16Bit_digits)
qed

lemma put_codepoint_plain_ascii: "unat cp < 2097152 \<Longrightarrow> plain_ascii (put_codepoint cp)"
  by (cases cp rule: put_codepoint_cases)
    (auto simp: toHex16Bit_plain_ascii surrogates word_le_nat_alt word_less_nat_alt)

lemma quoted_loop_plain_ascii: "plain_ascii (quoted_loop s)"
proof (induction s rule: quoted_loop.induct)
  case (2 c cs)
  show ?case
  proof (cases "map_of short_escapes c")
    case None
    obtain cp n where cp: "utf8ToCodepoint (c # cs) = (cp, n)" by (cases "utf8ToCodepoint (c # cs)")
    then have "unat cp < 2097152" using decode_bounds(1) [of "c # cs"] decode_cases [OF cp] by simp
    then show ?thesis using None cp 2(1) [OF None cp [symmetric]] by (simp add: put_codepoint_plain_ascii)
  next
    case (Some e)
    then have "32 \<le> e \<and> e < 128" using map_of_SomeD [OF Some] by (auto simp: short_escapes_def)
    then show ?thesis using Some 2(2) [OF Some] by simp
  qed
qed simp

end
