(* ===== verification/Sdk_Json.thy ===== *)
theory Sdk_Json
  imports Sdk_Json_String
begin

text \<open>
  The values of \<^verbatim>\<open>tools/json_writer.hpp\<close>, with the conversions of numbers from \<^verbatim>\<open>tools/string_converter.hpp\<close>. The
  theory states what is read back by a parser of JSON without blanks.
\<close>

section \<open>Values\<close>

text \<open>
  A value as the writer sees it: its type and what the accessor for this type returns; \<^verbatim>\<open>getString\<close> may fail. An
  object has its members in the order of \<^verbatim>\<open>getMemberNames\<close>.
\<close>

datatype 'r jvalue = nullValue | intValue int | uintValue nat | realValue 'r | stringValue "u8 list option" | booleanValue bool
  | arrayValue "'r jvalue list" | objectValue "(u8 list \<times> 'r jvalue) list"

fun dec_digits :: "nat \<Rightarrow> u8 list" where
  "dec_digits n = (if n < 10 then [48 + word_of_nat n] else dec_digits (n div 10) @ [48 + word_of_nat (n mod 10)])"

declare dec_digits.simps [simp del]

text \<open>\<^verbatim>\<open>sprintf\<close> with the formats of integers, and the conversions through a buffer of 16 or 32 characters.\<close>

definition sprintf_d :: "int \<Rightarrow> u8 list" where
  "sprintf_d i = (if i < 0 then 45 # dec_digits (nat (- i)) else dec_digits (nat i))"

definition str_conv_buf :: "nat \<Rightarrow> u8 list \<Rightarrow> u8 list \<Rightarrow> u8 list option" where
  "str_conv_buf n txt to = (if length txt + 1 \<le> n then Some (to @ txt) else None)"

definition str_conv_int :: "int \<Rightarrow> u8 list \<Rightarrow> u8 list option" where
  "str_conv_int from to = str_conv_buf 32 (sprintf_d from) to"

definition str_conv_uint :: "nat \<Rightarrow> u8 list \<Rightarrow> u8 list option" where
  "str_conv_uint from to = str_conv_buf 32 (dec_digits from) to"

definition str_conv_bool :: "bool \<Rightarrow> u8 list \<Rightarrow> u8 list option" where
  "str_conv_bool from to = str_conv_buf 16 (chars_of (if from then ''true'' else ''false'')) to"

definition str_conv_real :: "('r \<Rightarrow> u8 list) \<Rightarrow> 'r \<Rightarrow> u8 list \<Rightarrow> u8 list option" where
  "str_conv_real fmt from to = str_conv_buf 32 (fmt from) to"

fun write_value :: "('r \<Rightarrow> u8 list) \<Rightarrow> 'r jvalue \<Rightarrow> u8 list \<Rightarrow> u8 list option"
  and write_elems :: "('r \<Rightarrow> u8 list) \<Rightarrow> nat \<Rightarrow> 'r jvalue list \<Rightarrow> u8 list \<Rightarrow> u8 list option"
  and write_members :: "('r \<Rightarrow> u8 list) \<Rightarrow> bool \<Rightarrow> (u8 list \<times> 'r jvalue) list \<Rightarrow> u8 list \<Rightarrow> u8 list option" where
  "write_value fmt nullValue out = Some (out @ chars_of ''null'')"
| "write_value fmt (intValue i) out = str_conv_int i out"
| "write_value fmt (uintValue n) out = str_conv_uint n out"
| "write_value fmt (realValue r) out = str_conv_real fmt r out"
| "write_value fmt (stringValue s) out = Some (value_2_quoted_str s out)"
| "write_value fmt (booleanValue b) out = str_conv_bool b out"
| "write_value fmt (arrayValue vs) out = do { out \<leftarrow> write_elems fmt 0 vs (out @ chars_of ''[''); Some (out @ chars_of '']'') }"
| "write_value fmt (objectValue ms) out = do { out \<leftarrow> write_members fmt True ms (out @ chars_of ''{''); Some (out @ chars_of ''}'') }"
| "write_elems fmt index [] out = Some out"
| "write_elems fmt index (v # vs) out =
     do { out \<leftarrow> write_value fmt v (if index > 0 then out @ chars_of '','' else out); write_elems fmt (Suc index) vs out }"
| "write_members fmt begin_it [] out = Some out"
| "write_members fmt begin_it (m # ms) out = do {
     let out = (if \<not> begin_it then out @ chars_of '','' else out);
     let out = value_2_quoted_str (Some (fst m)) out;
     out \<leftarrow> write_value fmt (snd m) (out @ chars_of '':'');
     write_members fmt False ms out }"

definition json_write :: "bool \<Rightarrow> ('r \<Rightarrow> u8 list) \<Rightarrow> 'r jvalue \<Rightarrow> u8 list \<Rightarrow> u8 list option" where
  "json_write append_endl fmt root out = do { out \<leftarrow> write_value fmt root out; Some (if append_endl then out @ [10] else out) }"

section \<open>A parser of documents\<close>

datatype jdoc = JNull | JNum int | JBool bool | JStr "nat list" | JArr "jdoc list" | JObj "(nat list \<times> jdoc) list"

definition is_digit :: "u8 \<Rightarrow> bool" where
  "is_digit b \<longleftrightarrow> 48 \<le> b \<and> b \<le> 57"

definition digits_val :: "u8 list \<Rightarrow> nat" where
  "digits_val ds = foldl (\<lambda>n d. n * 10 + (unat d - 48)) 0 ds"

definition json_digits :: "u8 list \<Rightarrow> (nat \<times> u8 list) option" where
  "json_digits bs = (if takeWhile is_digit bs = [] then None else Some (digits_val (takeWhile is_digit bs), dropWhile is_digit bs))"

definition json_number :: "u8 list \<Rightarrow> (jdoc \<times> u8 list) option" where
  "json_number bs = (case bs of
     [] \<Rightarrow> None
   | b # r \<Rightarrow> if b = 45 then map_option (\<lambda>(n, r). (JNum (- int n), r)) (json_digits r)
       else map_option (\<lambda>(n, r). (JNum (int n), r)) (json_digits bs))"

definition json_word :: "string \<Rightarrow> jdoc \<Rightarrow> u8 list \<Rightarrow> (jdoc \<times> u8 list) option" where
  "json_word w d bs = (if take (length w) bs = chars_of w then Some (d, drop (length w) bs) else None)"

fun json_value :: "nat \<Rightarrow> u8 list \<Rightarrow> (jdoc \<times> u8 list) option"
  and json_elems :: "nat \<Rightarrow> u8 list \<Rightarrow> (jdoc list \<times> u8 list) option"
  and json_members :: "nat \<Rightarrow> u8 list \<Rightarrow> ((nat list \<times> jdoc) list \<times> u8 list) option" where
  "json_value 0 bs = None"
| "json_value (Suc k) [] = None"
| "json_value (Suc k) (b # bs) =
     (if b = 110 then json_word ''null'' JNull (b # bs)
      else if b = 116 then json_word ''true'' (JBool True) (b # bs)
      else if b = 102 then json_word ''false'' (JBool False) (b # bs)
      else if b = 34 then map_option (\<lambda>(us, r). (JStr us, r)) (json_chars bs)
      else if b = 91 then
        if take 1 bs = [93] then Some (JArr [], drop 1 bs) else map_option (\<lambda>(vs, r). (JArr vs, r)) (json_elems k bs)
      else if b = 123 then
        if take 1 bs = [125] then Some (JObj [], drop 1 bs) else map_option (\<lambda>(ms, r). (JObj ms, r)) (json_members k bs)
      else json_number (b # bs))"
| "json_elems 0 bs = None"
| "json_elems (Suc k) bs = do {
     (v, r) \<leftarrow> json_value k bs;
     if take 1 r = [44] then map_option (\<lambda>(vs, r). (v # vs, r)) (json_elems k (drop 1 r))
     else if take 1 r = [93] then Some ([v], drop 1 r) else None }"
| "json_members 0 bs = None"
| "json_members (Suc k) bs = do {
     (us, r) \<leftarrow> json_string bs;
     (v, r) \<leftarrow> (if take 1 r = [58] then json_value k (drop 1 r) else None);
     if take 1 r = [44] then map_option (\<lambda>(ms, r). ((us, v) # ms, r)) (json_members k (drop 1 r))
     else if take 1 r = [125] then Some ([(us, v)], drop 1 r) else None }"

definition json_parse :: "u8 list \<Rightarrow> (jdoc \<times> u8 list) option" where
  "json_parse bs = json_value (length bs) bs"


section \<open>Numbers\<close>

lemma unat_digit: "n < 10 \<Longrightarrow> unat (48 + word_of_nat n :: u8) = 48 + n"
  using unat_u8_of_nat [of "48 + n"] by simp

lemma dec_digits_digits: "list_all is_digit (dec_digits n) \<and> dec_digits n \<noteq> []"
proof (induction n rule: dec_digits.induct)
  case (1 n)
  have "is_digit (48 + word_of_nat m)" if "m < 10" for m
    using unat_digit [OF that] that by (simp add: is_digit_def word_le_nat_alt)
  then show ?case using 1 by (subst (1 2) dec_digits.simps) auto
qed

lemma digits_val_dec_digits: "digits_val (dec_digits n) = n"
proof (induction n rule: dec_digits.induct)
  case (1 n)
  show ?case
  proof (cases "n < 10")
    case True
    then show ?thesis by (subst dec_digits.simps) (simp add: digits_val_def unat_digit)
  next
    case False
    then have "digits_val (dec_digits (n div 10)) = n div 10" using 1 by simp
    then show ?thesis using False by (subst dec_digits.simps) (simp add: digits_val_def unat_digit)
  qed
qed

lemma length_dec_digits: "n < 10 ^ Suc k \<Longrightarrow> length (dec_digits n) \<le> Suc k"
proof (induction k arbitrary: n)
  case (Suc k)
  then have "n div 10 < 10 ^ Suc k" by (simp add: less_mult_imp_div_less)
  then show ?case using Suc.IH [of "n div 10"] by (subst dec_digits.simps) simp
qed (subst dec_digits.simps, simp)

definition no_digit :: "u8 list \<Rightarrow> bool" where
  "no_digit rest \<longleftrightarrow> rest = [] \<or> \<not> is_digit (hd rest)"

lemma json_digits_dec:
  assumes "no_digit rest"
  shows "json_digits (dec_digits n @ rest) = Some (n, rest)"
proof -
  have d: "\<forall>x \<in> set (dec_digits n). is_digit x" "dec_digits n \<noteq> []"
    using dec_digits_digits [of n] by (simp_all add: list_all_iff)
  have "takeWhile is_digit (dec_digits n @ rest) = dec_digits n" "dropWhile is_digit (dec_digits n @ rest) = rest"
    using d assms by (cases rest; simp add: no_digit_def takeWhile_append dropWhile_append)+
  then show ?thesis using d(2) digits_val_dec_digits [of n] by (simp add: json_digits_def)
qed

lemma dec_digits_first: "dec_digits n @ rest = b # bs \<Longrightarrow> is_digit b"
  using dec_digits_digits [of n] by (cases "dec_digits n") auto

lemma json_number_d:
  assumes "no_digit rest"
  shows "json_number (sprintf_d i @ rest) = Some (JNum i, rest)"
proof (cases "i < 0")
  case True
  then show ?thesis using json_digits_dec [OF assms] by (simp add: json_number_def sprintf_d_def)
next
  case False
  obtain b bs where b: "dec_digits (nat i) @ rest = b # bs" using dec_digits_digits [of "nat i"] by (cases "dec_digits (nat i)") auto
  then have "b \<noteq> 45" using dec_digits_first [OF b] by (auto simp: is_digit_def)
  then show ?thesis using False b json_digits_dec [OF assms, of "nat i"] by (simp add: json_number_def sprintf_d_def)
qed

lemma json_value_d:
  assumes "no_digit rest" "0 < k"
  shows "json_value k (sprintf_d i @ rest) = Some (JNum i, rest)"
proof -
  obtain b bs where b: "sprintf_d i @ rest = b # bs" using dec_digits_digits [of "nat i"]
    by (cases "sprintf_d i") (auto simp: sprintf_d_def split: if_splits)
  have "b = 45 \<or> is_digit b" using b dec_digits_first [of "nat i" rest b bs] by (auto simp: sprintf_d_def split: if_splits)
  then have "b \<noteq> 110" "b \<noteq> 116" "b \<noteq> 102" "b \<noteq> 34" "b \<noteq> 91" "b \<noteq> 123" by (auto simp: is_digit_def)
  then show ?thesis using json_number_d [OF assms(1), of i] assms(2) b by (cases k) simp_all
qed


section \<open>Writing and reading back\<close>

fun doc_of :: "'r jvalue \<Rightarrow> jdoc" where
  "doc_of nullValue = JNull"
| "doc_of (intValue i) = JNum i"
| "doc_of (uintValue n) = JNum (int n)"
| "doc_of (realValue r) = JNull"
| "doc_of (stringValue s) = JStr (case s of None \<Rightarrow> [] | Some s \<Rightarrow> units s)"
| "doc_of (booleanValue b) = JBool b"
| "doc_of (arrayValue vs) = JArr (map doc_of vs)"
| "doc_of (objectValue ms) = JObj (map (\<lambda>(s, v). (units s, doc_of v)) ms)"

text \<open>Integers of 64 bits, strings that are there, and no reals, whose text the C library decides.\<close>

fun jv_ok :: "'r jvalue \<Rightarrow> bool" where
  "jv_ok (intValue i) \<longleftrightarrow> - (2 ^ 63) \<le> i \<and> i < 2 ^ 63"
| "jv_ok (uintValue n) \<longleftrightarrow> n < 2 ^ 64"
| "jv_ok (realValue r) \<longleftrightarrow> False"
| "jv_ok (stringValue s) \<longleftrightarrow> s \<noteq> None"
| "jv_ok (arrayValue vs) \<longleftrightarrow> (\<forall>v \<in> set vs. jv_ok v)"
| "jv_ok (objectValue ms) \<longleftrightarrow> (\<forall>m \<in> set ms. jv_ok (snd m))"
| "jv_ok _ \<longleftrightarrow> True"

definition writes :: "('r \<Rightarrow> u8 list) \<Rightarrow> 'r jvalue \<Rightarrow> u8 list \<Rightarrow> bool" where
  "writes fmt v t \<longleftrightarrow> (\<forall>out. write_value fmt v out = Some (out @ t)) \<and> t \<noteq> [] \<and> hd t \<noteq> 93 \<and> plain_ascii t \<and>
     (\<forall>k rest. length t \<le> k \<and> no_digit rest \<longrightarrow> json_value k (t @ rest) = Some (doc_of v, rest))"

lemma chars_of_words [simp]: "chars_of ''null'' = [110, 117, 108, 108]" "chars_of ''true'' = [116, 114, 117, 101]"
  "chars_of ''false'' = [102, 97, 108, 115, 101]" "chars_of ''['' = [91]" "chars_of '']'' = [93]" "chars_of ''{'' = [123]"
  "chars_of ''}'' = [125]" "chars_of '','' = [44]" "chars_of '':'' = [58]"
  by (simp_all add: chars_of_def)

lemma json_value_word:
  "0 < k \<Longrightarrow> json_value k (chars_of ''null'' @ rest) = Some (JNull, rest)"
  "0 < k \<Longrightarrow> json_value k (chars_of ''true'' @ rest) = Some (JBool True, rest)"
  "0 < k \<Longrightarrow> json_value k (chars_of ''false'' @ rest) = Some (JBool False, rest)"
  by (cases k; simp add: json_word_def)+

lemma plain_ascii_digits: "list_all is_digit ds \<Longrightarrow> plain_ascii ds"
proof -
  have "32 \<le> b \<and> b < 128" if "is_digit b" for b
    using that by (auto simp: is_digit_def word_le_nat_alt word_less_nat_alt)
  then show "list_all is_digit ds \<Longrightarrow> plain_ascii ds" by (auto simp: plain_ascii_def list_all_iff)
qed

lemma sprintf_d_text: "plain_ascii (sprintf_d i) \<and> sprintf_d i \<noteq> [] \<and> hd (sprintf_d i) \<noteq> 93"
proof -
  have "dec_digits n \<noteq> [] \<and> hd (dec_digits n) \<noteq> 93 \<and> plain_ascii (dec_digits n)" for n
    using dec_digits_digits [of n] plain_ascii_digits [of "dec_digits n"] by (cases "dec_digits n") (auto simp: is_digit_def)
  then show ?thesis by (simp add: sprintf_d_def)
qed

lemma writes_number:
  assumes "length (sprintf_d i) \<le> 31" "\<And>out. write_value fmt v out = str_conv_buf 32 (sprintf_d i) out" "doc_of v = JNum i"
  shows "writes fmt v (sprintf_d i)"
proof -
  have "0 < k" if "length (sprintf_d i) \<le> k" for k using that sprintf_d_text [of i] by (cases k) auto
  then show ?thesis using assms sprintf_d_text [of i] json_value_d by (auto simp: writes_def str_conv_buf_def)
qed

lemma writes_int:
  assumes "- (2 ^ 63) \<le> i" "i < 2 ^ 63"
  shows "writes fmt (intValue i) (sprintf_d i)"
proof (rule writes_number)
  have "nat (- i) < 10 ^ Suc 18" "nat i < 10 ^ Suc 18" using assms by simp_all
  from this [THEN length_dec_digits] show "length (sprintf_d i) \<le> 31" by (simp add: sprintf_d_def)
qed (simp_all add: str_conv_int_def)

lemma writes_uint:
  assumes "n < 2 ^ 64"
  shows "writes fmt (uintValue n) (dec_digits n)"
proof -
  have "n < 10 ^ Suc 19" using assms by simp
  then have "length (sprintf_d (int n)) \<le> 31" using length_dec_digits [of n 19] by (simp add: sprintf_d_def)
  from writes_number [OF this, of fmt "uintValue n"] show ?thesis by (simp add: sprintf_d_def str_conv_uint_def)
qed

lemma writes_string: "writes fmt (stringValue (Some s)) (34 # quoted_loop s @ [34])"
proof -
  have "json_value k (34 # quoted_loop s @ 34 # rest) = Some (JStr (units s), rest)" if "0 < k" for k rest
    using that by (cases k) (simp_all add: json_chars_loop units_def)
  then show ?thesis using quoted_loop_plain_ascii [of s] by (simp add: writes_def value_2_quoted_str_def)
qed

lemma writes_simple: "writes fmt nullValue (chars_of ''null'')" "writes fmt (booleanValue b) (chars_of (if b then ''true'' else ''false''))"
  using json_value_word by (auto simp: writes_def str_conv_bool_def str_conv_buf_def simp del: json_value.simps)

lemma writes_elems:
  assumes "\<And>v. v \<in> set (w # vs) \<Longrightarrow> \<exists>t. writes fmt v t"
  shows "\<exists>t. (\<forall>i out. write_elems fmt i (w # vs) out = Some (out @ (if i > 0 then [44] else []) @ t)) \<and> t \<noteq> [] \<and> hd t \<noteq> 93 \<and>
    plain_ascii t \<and> (\<forall>k rest. length t < k \<longrightarrow> json_elems k (t @ 93 # rest) = Some (map doc_of (w # vs), rest))"
  using assms
proof (induction vs arbitrary: w)
  case Nil
  then obtain t where t: "writes fmt w t" by auto
  have "json_elems k (t @ 93 # rest) = Some ([doc_of w], rest)" if "length t < k" for k rest
    using t that by (cases k) (auto simp: writes_def no_digit_def is_digit_def)
  then show ?case using t by (intro exI [of _ t]) (auto simp: writes_def)
next
  case (Cons v vs)
  obtain t where t: "writes fmt w t" using Cons.prems by auto
  obtain ts where ts: "\<And>i out. write_elems fmt i (v # vs) out = Some (out @ (if i > 0 then [44] else []) @ ts)"
    "ts \<noteq> []" "hd ts \<noteq> 93" "plain_ascii ts"
    "\<And>k rest. length ts < k \<Longrightarrow> json_elems k (ts @ 93 # rest) = Some (map doc_of (v # vs), rest)"
    using Cons.IH [of v] Cons.prems by auto
  have "json_elems k ((t @ 44 # ts) @ 93 # rest) = Some (map doc_of (w # v # vs), rest)" if "length (t @ 44 # ts) < k" for k rest
    using t ts(5) [of "k - 1" rest] that by (cases k) (auto simp: writes_def no_digit_def is_digit_def)
  moreover have "write_elems fmt i (w # v # vs) out = Some (out @ (if i > 0 then [44] else []) @ t @ 44 # ts)" for i out
    using t ts(1) by (simp del: write_elems.simps add: write_elems.simps(2) [of fmt _ w "v # vs"] writes_def)
  ultimately show ?case using t ts(2-4) by (intro exI [of _ "t @ 44 # ts"]) (simp add: writes_def del: write_elems.simps list.map)
qed


lemma writes_members:
  assumes "\<And>m. m \<in> set (w # ms) \<Longrightarrow> \<exists>t. writes fmt (snd m) t"
  shows "\<exists>t. (\<forall>b out. write_members fmt b (w # ms) out = Some (out @ (if b then [] else [44]) @ 34 # t)) \<and>
    plain_ascii t \<and> (\<forall>k rest. length t < k \<longrightarrow>
      json_members k (34 # t @ 125 # rest) = Some (map (\<lambda>(s, v). (units s, doc_of v)) (w # ms), rest))"
  using assms
proof (induction ms arbitrary: w)
  case Nil
  then obtain t where t: "writes fmt (snd w) t" by fastforce
  let ?t = "quoted_loop (fst w) @ 34 # 58 # t"
  have "json_members k (34 # ?t @ 125 # rest) = Some ([(units (fst w), doc_of (snd w))], rest)" if "length ?t < k" for k rest
    using t that by (cases k) (auto simp: writes_def no_digit_def is_digit_def json_string_def json_chars_loop units_def)
  then show ?case using t quoted_loop_plain_ascii [of "fst w"]
    by (intro exI [of _ ?t]) (auto simp: writes_def value_2_quoted_str_def Let_def split_beta)
next
  case (Cons v ms)
  obtain t where t: "writes fmt (snd w) t" using Cons.prems [of w] by auto
  obtain ts where ts: "\<And>b out. write_members fmt b (v # ms) out = Some (out @ (if b then [] else [44]) @ 34 # ts)" "plain_ascii ts"
    "\<And>k rest. length ts < k \<Longrightarrow>
      json_members k (34 # ts @ 125 # rest) = Some (map (\<lambda>(s, v). (units s, doc_of v)) (v # ms), rest)"
    using Cons.IH [of v] Cons.prems by auto
  let ?t = "quoted_loop (fst w) @ 34 # 58 # t @ 44 # 34 # ts"
  have "json_members k (34 # ?t @ 125 # rest) = Some (map (\<lambda>(s, v). (units s, doc_of v)) (w # v # ms), rest)" if "length ?t < k" for k rest
    using t ts(3) [of "k - 1" rest] that
    by (cases k) (auto simp: writes_def no_digit_def is_digit_def json_string_def json_chars_loop units_def split_beta)
  moreover have "write_members fmt b (w # v # ms) out = Some (out @ (if b then [] else [44]) @ 34 # ?t)" for b out
    using t ts(1) by (simp del: write_members.simps add: write_members.simps(2) [of fmt _ w "v # ms"] writes_def value_2_quoted_str_def Let_def)
  ultimately show ?case using t ts(2) quoted_loop_plain_ascii [of "fst w"]
    by (intro exI [of _ ?t]) (simp add: writes_def del: write_members.simps list.map)
qed

lemma writes_all: "jv_ok v \<Longrightarrow> \<exists>t. writes fmt v t"
proof (induction v)
  case (intValue i)
  then show ?case using writes_int [of i fmt] by (intro exI) simp
next
  case (uintValue n)
  then show ?case using writes_uint [of n fmt] by (intro exI) simp
next
  case (arrayValue vs)
  show ?case
  proof (cases vs)
    case Nil
    have "json_value k (91 # 93 # rest) = Some (JArr [], rest)" if "0 < k" for k rest using that by (cases k) simp_all
    then show ?thesis using Nil by (intro exI [of _ "[91, 93]"]) (auto simp: writes_def)
  next
    case (Cons w ws)
    then have "\<exists>t. writes fmt v t" if "v \<in> set (w # ws)" for v
      using arrayValue.IH [of v] arrayValue.prems that Cons by auto
    then obtain t where t: "\<And>i out. write_elems fmt i (w # ws) out = Some (out @ (if i > 0 then [44] else []) @ t)" "t \<noteq> []" "hd t \<noteq> 93"
      "plain_ascii t" "\<And>k rest. length t < k \<Longrightarrow> json_elems k (t @ 93 # rest) = Some (map doc_of (w # ws), rest)"
      using writes_elems [of w ws fmt] by blast
    have "json_value k (91 # t @ 93 # rest) = Some (JArr (map doc_of (w # ws)), rest)" if "length (91 # t @ [93]) \<le> k" for k rest
      using t(2,3) t(5) [of "k - 1" rest] that by (cases k; cases t) auto
    then show ?thesis using Cons t(1,2,4)
      by (intro exI [of _ "91 # t @ [93]"]) (simp add: writes_def del: write_elems.simps list.map json_value.simps)
  qed
next
  case (objectValue ms)
  show ?case
  proof (cases ms)
    case Nil
    have "json_value k (123 # 125 # rest) = Some (JObj [], rest)" if "0 < k" for k rest using that by (cases k) simp_all
    then show ?thesis using Nil by (intro exI [of _ "[123, 125]"]) (auto simp: writes_def)
  next
    case (Cons w ws)
    have "\<exists>t. writes fmt (snd m) t" if "m \<in> set (w # ws)" for m
      using objectValue.IH [of m "snd m"] objectValue.prems that Cons by (cases m) auto
    then obtain t where t: "\<And>b out. write_members fmt b (w # ws) out = Some (out @ (if b then [] else [44]) @ 34 # t)"
      "plain_ascii t" "\<And>k rest. length t < k \<Longrightarrow>
        json_members k (34 # t @ 125 # rest) = Some (map (\<lambda>(s, v). (units s, doc_of v)) (w # ws), rest)"
      using writes_members [of w ws fmt] by blast
    have "json_value k (123 # 34 # t @ 125 # rest) = Some (JObj (map (\<lambda>(s, v). (units s, doc_of v)) (w # ws)), rest)"
      if "length (123 # 34 # t @ [125]) \<le> k" for k rest
      using t(3) [of "k - 1" rest] that by (cases k) auto
    then show ?thesis using Cons t(1,2)
      by (intro exI [of _ "123 # 34 # t @ [125]"]) (simp add: writes_def del: write_members.simps list.map json_value.simps)
  qed
next
  case (stringValue s)
  then obtain b where "s = Some b" by auto
  then show ?case using writes_string by (intro exI) simp
next
  case (booleanValue b)
  show ?case using writes_simple(2) by (rule exI)
qed (use writes_simple(1) in \<open>auto intro: exI\<close>)


lemma json_write_read:
  assumes "jv_ok v"
  shows "\<exists>t. json_write True fmt v out = Some (out @ t @ [10]) \<and> plain_ascii t \<and> json_parse t = Some (doc_of v, [])"
proof -
  obtain t where t: "writes fmt v t" using writes_all [OF assms] by blast
  then have "json_value (length t) (t @ []) = Some (doc_of v, [])" unfolding writes_def no_digit_def by blast
  then show ?thesis using t by (intro exI [of _ t]) (simp add: writes_def json_write_def json_parse_def)
qed

section \<open>Documents\<close>

text \<open>
  The document a value stands for, over code points: a string is the UTF-8 encoding of a sequence of them. This is said
  without the decoder of the writer.
\<close>

definition utf8_text :: "u8 list \<Rightarrow> nat list \<Rightarrow> bool" where
  "utf8_text s cps \<longleftrightarrow> list_all scalar_value cps \<and> s = concat (map utf8 cps)"

inductive stands_for :: "'r jvalue \<Rightarrow> jdoc \<Rightarrow> bool" where
  sf_null: "stands_for nullValue JNull"
| sf_int: "stands_for (intValue i) (JNum i)"
| sf_uint: "stands_for (uintValue n) (JNum (int n))"
| sf_bool: "stands_for (booleanValue b) (JBool b)"
| sf_string: "utf8_text s cps \<Longrightarrow> stands_for (stringValue (Some s)) (JStr cps)"
| sf_array: "list_all2 stands_for vs ds \<Longrightarrow> stands_for (arrayValue vs) (JArr ds)"
| sf_object: "list_all2 (\<lambda>m n. utf8_text (fst m) (fst n) \<and> stands_for (snd m) (snd n)) ms ns \<Longrightarrow> stands_for (objectValue ms) (JObj ns)"

text \<open>The same document with its strings in units of sixteen bits, as a literal of JSON denotes them.\<close>

fun in_units :: "jdoc \<Rightarrow> jdoc" where
  "in_units (JStr cps) = JStr (concat (map utf16 cps))"
| "in_units (JArr ds) = JArr (map in_units ds)"
| "in_units (JObj ns) = JObj (map (\<lambda>(cps, d). (concat (map utf16 cps), in_units d)) ns)"
| "in_units d = d"

lemma units_utf8: "utf8_text s cps \<Longrightarrow> units s = concat (map utf16 cps)"
  by (simp add: utf8_text_def units_def code_points_utf8)

lemma doc_of_stands_for: "stands_for v d \<Longrightarrow> doc_of v = in_units d"
proof (induction rule: stands_for.induct)
  case (sf_array vs ds)
  then show ?case by (auto simp: list_all2_conv_all_nth intro: nth_equalityI)
next
  case (sf_object ms ns)
  then show ?case by (auto simp: list_all2_conv_all_nth units_utf8 split_beta intro: nth_equalityI)
qed (simp_all add: units_utf8)

lemma json_write_document:
  assumes "jv_ok v"
  shows "\<exists>t r. json_write True fmt v out = Some (out @ t @ [10]) \<and> plain_ascii t \<and> json_parse t = Some (r, []) \<and>
    (\<forall>d. stands_for v d \<longrightarrow> r = in_units d)"
  using json_write_read [OF assms, of fmt out] doc_of_stands_for by metis

section \<open>Properties\<close>

text \<open>
  A quoted string is read back by any parser of JSON: whatever the bytes are, what the writer puts out is one
  literal of plain ASCII characters, and what follows it is left; if the bytes are the UTF-8 encoding of a
  sequence of code points, the units of the literal are their UTF-16 encoding.
\<close>

lemma json_string_roundtrip:
  "\<exists>t us. value_2_quoted_str (Some s) out = out @ t \<and> plain_ascii t \<and> json_string (t @ rest) = Some (us, rest) \<and>
     (list_all scalar_value cps \<and> s = concat (map utf8 cps) \<longrightarrow> us = concat (map utf16 cps))"
proof -
  have "json_string ((34 # quoted_loop s @ [34]) @ rest) = Some (units s, rest)"
    using json_string_quoted [of s rest] by (simp add: value_2_quoted_str_def)
  moreover have "units s = concat (map utf16 cps)" if "list_all scalar_value cps" "s = concat (map utf8 cps)"
    using that by (simp add: units_def code_points_utf8)
  ultimately show ?thesis using quoted_loop_plain_ascii [of s]
    by (intro exI [of _ "34 # quoted_loop s @ [34]"] exI [of _ "units s"]) (simp add: value_2_quoted_str_def)
qed

text \<open>
  C37. A document is read back as it was: for every value with integers of 64 bits and without reals and strings that are
  not there, \<^verbatim>\<open>write\<close> appends one line of plain ASCII characters, which a parser of JSON reads to its end. If the value
  stands for a document, that is if its strings and names are the UTF-8 encodings of sequences of code points, then what
  is read is this document, with the UTF-16 encodings of the same sequences.
\<close>

theorem json_write_roundtrip:
  assumes "jv_ok v"
  shows "\<exists>t r. json_write True fmt v out = Some (out @ t @ [10]) \<and> plain_ascii t \<and> json_parse t = Some (r, []) \<and>
    (\<forall>d. stands_for v d \<longrightarrow> r = in_units d)"
  by (rule json_write_document [OF assms])

theorem json_write_roundtrip_witness:
  "\<exists>t. json_write True (\<lambda>_ :: nat. []) (objectValue [([195, 169], intValue (- 7)), ([], arrayValue [nullValue, booleanValue True])]) [] = Some (t @ [10]) \<and>
     json_parse t = Some (JObj [([233], JNum (- 7)), ([], JArr [JNull, JBool True])], [])"
proof -
  let ?v = "objectValue [([195, 169], intValue (- 7)), ([], arrayValue [nullValue, booleanValue True])] :: nat jvalue"
  have "stands_for ?v (JObj [([233], JNum (- 7)), ([], JArr [JNull, JBool True])])"
    by (intro stands_for.intros list_all2_Cons [THEN iffD2] conjI)
      (auto simp: utf8_text_def utf8_def scalar_value_def intro!: stands_for.intros exI)
  moreover have "jv_ok ?v" by simp
  ultimately show ?thesis using json_write_roundtrip [of ?v "\<lambda>_ :: nat. []" "[]"] by (fastforce simp: utf16_def)
qed

text \<open>The text of a large real does not fit into its buffer of 32 characters.\<close>

lemma json_real_overrun: "31 < length (fmt r) \<Longrightarrow> json_write e fmt (realValue r) out = None"
  by (simp add: json_write_def str_conv_real_def str_conv_buf_def)

end
