(* ===== verification/Sdk_Json_Fields.thy ===== *)
theory Sdk_Json_Fields
  imports Sdk_Json
begin

text \<open>
  \<^verbatim>\<open>tools/json_serializer.hpp\<close>: fields of a JSON value are looked up, tested and copied, and vectors become JSON arrays.
  The library of JSON values is a record of its functions; \<^term>\<open>None\<close> of the lookup is its exception for a value that has
  no members. A result is whether the field was taken, and the target.
\<close>

section \<open>Fields\<close>

record ('v, 'd) json_api =
  j_find :: "'v \<Rightarrow> u8 list \<Rightarrow> 'v option option"
  isBool :: "'v \<Rightarrow> bool"
  asBool :: "'v \<Rightarrow> bool"
  isDouble :: "'v \<Rightarrow> bool"
  asDouble :: "'v \<Rightarrow> 'd"
  isUInt :: "'v \<Rightarrow> bool"
  asUInt :: "'v \<Rightarrow> u32"
  isInt :: "'v \<Rightarrow> bool"
  asInt :: "'v \<Rightarrow> u32"
  isInt64 :: "'v \<Rightarrow> bool"
  asInt64 :: "'v \<Rightarrow> u64"
  isUInt64 :: "'v \<Rightarrow> bool"
  asUInt64 :: "'v \<Rightarrow> u64"
  isString :: "'v \<Rightarrow> bool"
  asCString :: "'v \<Rightarrow> u8 list"
  getString :: "'v \<Rightarrow> u8 list option"
  isNull :: "'v \<Rightarrow> bool"
  isArray :: "'v \<Rightarrow> bool"
  j_elements :: "'v \<Rightarrow> 'v list"

definition get_field :: "('v, 'd) json_api \<Rightarrow> 'v \<Rightarrow> u8 list \<Rightarrow> ('v \<Rightarrow> bool) \<Rightarrow> ('v \<Rightarrow> 'a) \<Rightarrow> 'a \<Rightarrow> (bool \<times> 'a) option" where
  "get_field api json name test as result = do {
     value \<leftarrow> j_find api json name;
     Some (case value of None \<Rightarrow> (False, result) | Some v \<Rightarrow> if test v then (True, as v) else (False, result)) }"

definition get_bool :: "('v, 'd) json_api \<Rightarrow> 'v \<Rightarrow> u8 list \<Rightarrow> bool \<Rightarrow> (bool \<times> bool) option" where
  "get_bool api json name = get_field api json name (isBool api) (asBool api)"

definition get_double :: "('v, 'd) json_api \<Rightarrow> 'v \<Rightarrow> u8 list \<Rightarrow> 'd \<Rightarrow> (bool \<times> 'd) option" where
  "get_double api json name = get_field api json name (isDouble api) (asDouble api)"

definition get_uint16 :: "('v, 'd) json_api \<Rightarrow> 'v \<Rightarrow> u8 list \<Rightarrow> u16 \<Rightarrow> (bool \<times> u16) option" where
  "get_uint16 api json name = get_field api json name (isUInt api) (\<lambda>v. ucast (asUInt api v))"

definition get_uint32 :: "('v, 'd) json_api \<Rightarrow> 'v \<Rightarrow> u8 list \<Rightarrow> u32 \<Rightarrow> (bool \<times> u32) option" where
  "get_uint32 api json name = get_field api json name (isUInt api) (asUInt api)"

definition get_int32 :: "('v, 'd) json_api \<Rightarrow> 'v \<Rightarrow> u8 list \<Rightarrow> u32 \<Rightarrow> (bool \<times> u32) option" where
  "get_int32 api json name = get_field api json name (isInt api) (asInt api)"

definition get_int64 :: "('v, 'd) json_api \<Rightarrow> 'v \<Rightarrow> u8 list \<Rightarrow> u64 \<Rightarrow> (bool \<times> u64) option" where
  "get_int64 api json name = get_field api json name (isInt64 api) (asInt64 api)"

definition get_uint64 :: "('v, 'd) json_api \<Rightarrow> 'v \<Rightarrow> u8 list \<Rightarrow> u64 \<Rightarrow> (bool \<times> u64) option" where
  "get_uint64 api json name = get_field api json name (isUInt64 api) (asUInt64 api)"

text \<open>\<^verbatim>\<open>strncpy\<close> into an array of \<open>n\<close> characters: cut, or filled up with zeros.\<close>

definition strncpy :: "nat \<Rightarrow> u8 list \<Rightarrow> u8 list" where
  "strncpy n s = take n s @ replicate (n - length s) 0"

definition get_chars :: "('v, 'd) json_api \<Rightarrow> 'v \<Rightarrow> u8 list \<Rightarrow> u8 list \<Rightarrow> (bool \<times> u8 list) option" where
  "get_chars api json name result = get_field api json name (isString api) (\<lambda>v. strncpy (length result) (asCString api v)) result"

definition get_string_field :: "('v, 'd) json_api \<Rightarrow> 'v \<Rightarrow> u8 list \<Rightarrow> u8 list \<Rightarrow> (bool \<times> u8 list) option" where
  "get_string_field api json name result = do {
     value \<leftarrow> j_find api json name;
     Some (case value of None \<Rightarrow> (False, result) | Some v \<Rightarrow>
       (case getString api v of None \<Rightarrow> (False, result) | Some s \<Rightarrow> (True, s))) }"

definition get_value :: "('v, 'd) json_api \<Rightarrow> 'v \<Rightarrow> u8 list \<Rightarrow> 'v option \<Rightarrow> (bool \<times> 'v option) option" where
  "get_value api json name = get_field api json name (\<lambda>v. \<not> isNull api v) Some"

primrec uint_array_loop :: "('v, 'd) json_api \<Rightarrow> 'v list \<Rightarrow> nat \<Rightarrow> u32 list \<Rightarrow> (bool \<times> u32 list) option" where
  "uint_array_loop api [] ix result = Some (True, result)"
| "uint_array_loop api (v # vs) ix result =
     (if \<not> isUInt api v then Some (False, result)
      else if ix < length result then uint_array_loop api vs (ix + 1) (result[ix := asUInt api v]) else None)"

definition get_uint_array :: "('v, 'd) json_api \<Rightarrow> 'v \<Rightarrow> u8 list \<Rightarrow> u32 list \<Rightarrow> (bool \<times> u32 list) option" where
  "get_uint_array api json name result = do {
     value \<leftarrow> j_find api json name;
     (case value of None \<Rightarrow> Some (False, result) | Some v \<Rightarrow>
        if isArray api v then uint_array_loop api (j_elements api v) 0 result else Some (False, result)) }"

text \<open>What is not taken leaves the target as it is, but for an array with a wrong element in it.\<close>

lemma get_field_not_taken: "get_field api json name test as result = Some (False, r) \<Longrightarrow> r = result"
  by (auto simp: get_field_def bind_eq_Some_conv split: option.splits if_splits)

text \<open>A field of 16 bits is what was sent when that is less than \<open>2\<^sup>1\<^sup>6\<close>; above, it is another number.\<close>

lemma get_uint16_value:
  assumes "j_find api json name = Some (Some v)" "isUInt api v"
  shows "\<exists>x. get_uint16 api json name result = Some (True, x) \<and> (unat x = unat (asUInt api v) \<longleftrightarrow> unat (asUInt api v) < 2 ^ 16)"
proof -
  have "unat (ucast (asUInt api v) :: u16) = unat (asUInt api v) mod 2 ^ 16" by (simp add: unsigned_ucast_eq take_bit_eq_mod)
  moreover have "unat (asUInt api v) mod 2 ^ 16 < 2 ^ 16" by simp
  ultimately have "unat (ucast (asUInt api v) :: u16) = unat (asUInt api v) \<longleftrightarrow> unat (asUInt api v) < 2 ^ 16"
    by (metis mod_less)
  then show ?thesis using assms by (simp add: get_uint16_def get_field_def)
qed

text \<open>A string is there as a string of C when it is shorter than the array; otherwise the array has no end mark.\<close>

lemma strncpy_string:
  assumes "0 \<notin> set s"
  shows "length (strncpy n s) = n" "length s < n \<Longrightarrow> takeWhile (\<lambda>b. b \<noteq> 0) (strncpy n s) = s" "n \<le> length s \<Longrightarrow> 0 \<notin> set (strncpy n s)"
proof -
  show "length (strncpy n s) = n" by (simp add: strncpy_def)
  show "takeWhile (\<lambda>b. b \<noteq> 0) (strncpy n s) = s" if "length s < n"
  proof -
    have "n - length s \<noteq> 0" using that by simp
    then obtain k where "n - length s = Suc k" by (rule not0_implies_Suc [THEN exE])
    then have "strncpy n s = s @ 0 # replicate k 0" using that by (simp add: strncpy_def)
    moreover have "b \<noteq> 0" if "b \<in> set s" for b using that assms by metis
    ultimately show ?thesis by (simp add: takeWhile_append2)
  qed
  show "0 \<notin> set (strncpy n s)" if "n \<le> length s" using that assms by (auto simp: strncpy_def dest: in_set_takeD)
qed

text \<open>An array is read when its elements fit; if there are more of them than the target has, the code writes behind it.\<close>

lemma uint_array_fits:
  "list_all (isUInt api) vs \<Longrightarrow> ix + length vs \<le> length result \<Longrightarrow>
    uint_array_loop api vs ix result = Some (True, take ix result @ map (asUInt api) vs @ drop (ix + length vs) result)"
proof (induction vs arbitrary: ix result)
  case (Cons v vs)
  then show ?case by (simp add: take_Suc_conv_app_nth)
qed simp

lemma uint_array_overrun:
  "list_all (isUInt api) vs \<Longrightarrow> ix \<le> length result \<Longrightarrow> length result < ix + length vs \<Longrightarrow> uint_array_loop api vs ix result = None"
  by (induction vs arbitrary: ix result) auto

section \<open>Vectors\<close>

text \<open>
  \<^verbatim>\<open>add_to_json\<close>: a wide string, whose conversion is a parameter, or a vector of such sources. Access to an element of a
  JSON value makes an array of it that is long enough; a value of another type throws.
\<close>

datatype 'w jsource = Wide 'w | Vec "'w jsource list"

definition elements_upto :: "nat \<Rightarrow> 'r jvalue \<Rightarrow> 'r jvalue list option" where
  "elements_upto n dst = (case dst of
     nullValue \<Rightarrow> Some (replicate n nullValue)
   | arrayValue vs \<Rightarrow> Some (vs @ replicate (n - length vs) nullValue)
   | _ \<Rightarrow> None)"

fun add_to_json :: "('w \<Rightarrow> u8 list) \<Rightarrow> 'w jsource \<Rightarrow> 'r jvalue \<Rightarrow> (bool \<times> 'r jvalue) option"
and add_elements :: "('w \<Rightarrow> u8 list) \<Rightarrow> 'w jsource list \<Rightarrow> nat \<Rightarrow> 'r jvalue \<Rightarrow> (bool \<times> 'r jvalue) option" where
  "add_to_json conv (Wide w) dst = Some (True, stringValue (Some (conv w)))"
| "add_to_json conv (Vec xs) dst = add_elements conv xs 0 dst"
| "add_elements conv [] ix dst = Some (True, dst)"
| "add_elements conv (x # xs) ix dst = do {
     vs \<leftarrow> elements_upto (ix + 1) dst;
     (ok, v) \<leftarrow> add_to_json conv x (vs ! ix);
     if ok then add_elements conv xs (ix + 1) (arrayValue (vs[ix := v])) else Some (False, arrayValue (vs[ix := v])) }"

fun source_doc :: "('w \<Rightarrow> u8 list) \<Rightarrow> 'w jsource \<Rightarrow> 'r jvalue" where
  "source_doc conv (Wide w) = stringValue (Some (conv w))"
| "source_doc conv (Vec xs) = (if xs = [] then nullValue else arrayValue (map (source_doc conv) xs))"

text \<open>
  A source becomes the document that it is, with one exception: an empty vector leaves the value null, so that it is no
  array. The document is printed as JSON.
\<close>

lemma add_elements_doc:
  "\<forall>x \<in> set xs. add_to_json conv x (nullValue :: 'r jvalue) = Some (True, source_doc conv x) \<Longrightarrow>
    add_elements conv xs (length vs) (arrayValue vs :: 'r jvalue) = Some (True, arrayValue (vs @ map (source_doc conv) xs))"
proof (induction xs arbitrary: vs)
  case (Cons x xs)
  then show ?case using Cons.IH [of "vs @ [source_doc conv x]"] by (simp add: elements_upto_def)
qed simp

lemma add_to_json_doc: "add_to_json conv x (nullValue :: 'r jvalue) = Some (True, source_doc conv x)"
proof (induction x)
  case (Vec xs)
  show ?case
  proof (cases xs)
    case (Cons y ys)
    then show ?thesis using Vec add_elements_doc [of ys conv "[source_doc conv y :: 'r jvalue]"] by (simp add: elements_upto_def)
  qed simp
qed simp

lemma source_doc_ok: "jv_ok (source_doc conv x)"
  by (induction x) simp_all

lemma source_printed:
  "\<exists>t. json_write True (fmt :: 'r \<Rightarrow> u8 list) (source_doc conv x) [] = Some (t @ [10]) \<and>
     json_parse t = Some (doc_of (source_doc conv x :: 'r jvalue), [])"
  using json_write_read [OF source_doc_ok [of conv x], of fmt "[]"] by auto

end
