(* ===== verification/Sdk_Random.thy ===== *)
theory Sdk_Random
  imports Sdk_Json_String
begin

text \<open>
  \<^verbatim>\<open>random_string\<close> of \<^verbatim>\<open>tools/random.hpp\<close>. What the calls of \<^verbatim>\<open>random64\<close> return is a parameter: call \<open>k\<close> returns \<open>rnd k\<close>.
\<close>

definition src_data :: "u8 list" where
  "src_data = chars_of ''ABCDEFGHIJKLMNOPQRSTUVWXYZ!@#$%^&*()_+-=1234567890abcdefghijklmnopqrstuvwxyz;:'' @ [39, 34, 92] @ chars_of ''|/?.>,<''"

definition random_char :: "u64 \<Rightarrow> nat \<Rightarrow> u8" where
  "random_char src i = (let sh = i * 8; ix = drop_bit sh (src AND push_bit sh 0xff) in src_data ! (unat ix mod length src_data))"

definition random_put :: "u64 \<Rightarrow> nat \<Rightarrow> nat \<Rightarrow> u8 list \<Rightarrow> u8 list" where
  "random_put src count rem dst = fold (\<lambda>i dst. dst[count + i := random_char src i]) [0..<rem] dst"

lemma length_random_fold [simp]: "length (fold (\<lambda>i dst. dst[count + i := random_char src i]) is dst) = length dst"
  by (induction "is" arbitrary: dst) simp_all

lemma length_random_put [simp]: "length (random_put src count r dst) = length dst"
  by (simp add: random_put_def)

function random_loop :: "(nat \<Rightarrow> u64) \<Rightarrow> nat \<Rightarrow> nat \<Rightarrow> u8 list \<Rightarrow> u8 list" where
  "random_loop rnd k count dst =
     (if count < length dst then
        random_loop rnd (k + 1) (count + 4) (random_put (rnd k) count (min (length dst - count) 4) dst)
      else dst)"
  by pat_completeness auto
termination
  by (relation "measure (\<lambda>(rnd, k, count, dst). length dst - count)") auto

declare random_loop.simps [simp del]

definition random_string :: "(nat \<Rightarrow> u64) \<Rightarrow> u8 list \<Rightarrow> u8 list" where
  "random_string rnd dst = random_loop rnd 0 0 dst"

text \<open>Each of four bytes of a random number selects a character; every place of the array gets one.\<close>

lemma length_src_data: "length src_data = 88"
  by (simp add: src_data_def chars_of_def)

lemma nth_random_put:
  "count + r \<le> length dst \<Longrightarrow> j < length dst \<Longrightarrow>
    random_put src count r dst ! j = (if count \<le> j \<and> j < count + r then random_char src (j - count) else dst ! j)"
proof (induction r)
  case (Suc r)
  have "random_put src count (Suc r) dst = (random_put src count r dst)[count + r := random_char src r]" by (simp add: random_put_def)
  then show ?case using Suc by (auto simp: nth_list_update)
qed (auto simp: random_put_def)

lemma random_loop_chars:
  "j < length dst \<Longrightarrow> count = 4 * k \<Longrightarrow>
    random_loop rnd k count dst ! j = (if count \<le> j then random_char (rnd (j div 4)) (j mod 4) else dst ! j)"
proof (induction rnd k count dst rule: random_loop.induct)
  case (1 rnd k count dst)
  show ?case
  proof (cases "count < length dst")
    case True
    define d where "d = random_put (rnd k) count (min (length dst - count) 4) dst"
    have "random_loop rnd k count dst ! j = random_loop rnd (k + 1) (count + 4) d ! j"
      using True unfolding d_def by (subst random_loop.simps) simp
    moreover have "random_loop rnd (k + 1) (count + 4) d ! j = (if count + 4 \<le> j then random_char (rnd (j div 4)) (j mod 4) else d ! j)"
      unfolding d_def by (rule "1.IH" [OF True]) (simp_all add: "1.prems")
    moreover have "d ! j = (if count \<le> j \<and> j < count + min (length dst - count) 4 then random_char (rnd k) (j - count) else dst ! j)"
      unfolding d_def by (rule nth_random_put) (use "1.prems"(1) True in linarith)+
    moreover have "j div 4 = k \<and> j mod 4 = j - count" if "count \<le> j" "j < count + 4"
      using that unfolding "1.prems"(2) by presburger
    ultimately show ?thesis using "1.prems"(1) by auto
  next
    case False
    then show ?thesis using "1.prems"(1) by (subst random_loop.simps) simp
  qed
qed

lemma random_string_chars: "random_string rnd dst = map (\<lambda>j. random_char (rnd (j div 4)) (j mod 4)) [0..<length dst]"
proof (rule nth_equalityI)
  have "length (random_loop rnd k count dst) = length dst" for k count
    by (induction rnd k count dst rule: random_loop.induct) (subst random_loop.simps, simp)
  then show "length (random_string rnd dst) = length (map (\<lambda>j. random_char (rnd (j div 4)) (j mod 4)) [0..<length dst])"
    by (simp add: random_string_def)
  then show "random_string rnd dst ! j = map (\<lambda>j. random_char (rnd (j div 4)) (j mod 4)) [0..<length dst] ! j"
    if "j < length (random_string rnd dst)" for j
    using that random_loop_chars [of j dst 0 0 rnd] by (simp add: random_string_def)
qed

lemma random_string_from_data: "set (random_string rnd dst) \<subseteq> set src_data"
proof -
  have "random_char src i \<in> set src_data" for src i unfolding random_char_def Let_def by (rule nth_mem) (simp add: length_src_data)
  then show ?thesis by (auto simp: random_string_chars)
qed

end
