(* ===== verification/Ws_User.thy ===== *)
theory Ws_User
  imports Ws_Connection
begin

text \<open>
  A user of the WebSocket server: \<^verbatim>\<open>user_t\<close> of \<^verbatim>\<open>web_server/server_ws_user_win.hpp\<close>. It puts messages together from the
  payloads of frames, hands them to the functions bound to it, and sends frames made in place. The bound functions are
  parameters, which may change the user and a state \<open>'s\<close> of their own; so is the cipher of OpenSSL.
\<close>

section \<open>State\<close>

text \<open>The static functions that the user registers with its connection; their argument is the user.\<close>

datatype user_cb = frame_recv_cb | pong_recv_cb | user_disconnect_cb

record user_t =
  us_wscon :: "user_cb ws_conn_t option"
  us_msg :: "u8 list"
  us_pong_data :: "u8 list"
  us_aes_key :: "u8 list option"
  us_aes_ivc :: "u8 list option"
  us_encrypt :: bool

text \<open>The callback units of a user, empty or a function, which may be undefined.\<close>

type_synonym 's user_fn = "user_t \<Rightarrow> 's \<Rightarrow> (user_t \<times> 's) option"

record 's user_cbs =
  on_pong_recv :: "'s user_fn option"
  on_frame_recv :: "'s user_fn option"
  on_disconnect :: "'s user_fn option"
  on_close :: "'s user_fn option"

definition user_new :: "user_cb ws_conn_t option \<Rightarrow> bool \<Rightarrow> user_t" where
  "user_new wscon encrypt = \<lparr> us_wscon = wscon, us_msg = [], us_pong_data = [], us_aes_key = None, us_aes_ivc = None,
     us_encrypt = encrypt \<rparr>"

definition store_aes_data :: "u8 list option \<Rightarrow> u8 list option \<Rightarrow> user_t \<Rightarrow> user_t option" where
  "store_aes_data aes_key aes_ivc u =
     (if (aes_key \<noteq> None \<and> aes_ivc \<noteq> None) \<or> (aes_key = None \<and> aes_ivc = None)
      then Some (u\<lparr> us_aes_key := aes_key, us_aes_ivc := aes_ivc \<rparr>) else None)"

definition attach_buffer_eventsock :: "user_t \<Rightarrow> user_t option" where
  "attach_buffer_eventsock u = (case us_wscon u of
     None \<Rightarrow> Some u
   | Some c \<Rightarrow> if bev c then None else Some (u\<lparr> us_wscon := Some (c\<lparr> bev := True \<rparr>) \<rparr>))"

definition start_handling :: "user_t \<Rightarrow> user_t \<times> user_cb action list" where
  "start_handling u = (case us_wscon u of
     None \<Rightarrow> (u, [])
   | Some c \<Rightarrow>
       let c = ws_conn_setcb FRAME_RECV (Some frame_recv_cb) c;
           c = ws_conn_setcb PONG (Some pong_recv_cb) c;
           c = ws_conn_setcb CLOSE (Some user_disconnect_cb) c in
       (u\<lparr> us_wscon := Some c \<rparr>, ws_serve_start c))"

text \<open>\<^verbatim>\<open>bufferevent_free\<close>: no callback runs any more.\<close>

definition disconnect :: "user_t \<Rightarrow> user_t" where
  "disconnect u = (case us_wscon u of
     None \<Rightarrow> u
   | Some c \<Rightarrow> if bev c then u\<lparr> us_wscon := Some (c\<lparr> bev := False \<rparr>) \<rparr> else u)"

definition extract_data :: "u8 list \<Rightarrow> user_t \<Rightarrow> u8 list \<times> user_t" where
  "extract_data data u = (us_msg u, u\<lparr> us_msg := [] \<rparr>)"

section \<open>Receiving\<close>

definition append_payload :: "frame_t \<Rightarrow> u8 list \<Rightarrow> u8 list option" where
  "append_payload f s = (if payload_len f > 0 then (case payload_data f of
       None \<Rightarrow> None
     | Some d \<Rightarrow> if unat (payload_len f) \<le> length d then Some (s @ take (unat (payload_len f)) d) else None)
     else Some s)"

definition run_unit :: "'s user_fn option \<Rightarrow> 's user_fn" where
  "run_unit cb u s = (case cb of None \<Rightarrow> Some (u, s) | Some f \<Rightarrow> f u s)"

definition on_pong_received :: "'s user_cbs \<Rightarrow> frame_t \<Rightarrow> user_t \<Rightarrow> 's \<Rightarrow> (user_t \<times> 's) option" where
  "on_pong_received cbs f u s = do {
     pong \<leftarrow> append_payload f (us_pong_data u);
     let u = u\<lparr> us_pong_data := pong \<rparr>;
     (if fin f = 1 then do { (u, s) \<leftarrow> run_unit (on_pong_recv cbs) u s; Some (u\<lparr> us_pong_data := [] \<rparr>, s) } else Some (u, s)) }"

definition on_frame_received :: "'s user_cbs \<Rightarrow> frame_t \<Rightarrow> user_t \<Rightarrow> 's \<Rightarrow> (user_t \<times> 's) option" where
  "on_frame_received cbs f u s = do {
     msg \<leftarrow> append_payload f (us_msg u);
     let u = u\<lparr> us_msg := msg \<rparr>;
     (if fin f = 1 then do { (u, s) \<leftarrow> run_unit (on_frame_recv cbs) u s; Some (u\<lparr> us_msg := [] \<rparr>, s) } else Some (u, s)) }"

definition on_user_disconnect :: "'s user_cbs \<Rightarrow> 's user_fn" where
  "on_user_disconnect cbs u s = do { (u, s) \<leftarrow> run_unit (on_close cbs) u s; run_unit (on_disconnect cbs) u s }"

text \<open>
  What the actions of a connection mean to its user. A registered function runs in the middle of a callback of the
  connection, but before the rest of the callback only sets the next step; so it can be run behind the callback.
\<close>

fun user_action :: "'s user_cbs \<Rightarrow> user_cb action \<Rightarrow> user_t \<Rightarrow> 's \<Rightarrow> (user_t \<times> 's) option" where
  "user_action cbs (Call frame_recv_cb f) u s = on_frame_received cbs f u s"
| "user_action cbs (Call pong_recv_cb f) u s = on_pong_received cbs f u s"
| "user_action cbs (Call user_disconnect_cb f) u s = on_user_disconnect cbs u s"
| "user_action cbs a u s = Some (u, s)"

fun user_actions :: "'s user_cbs \<Rightarrow> user_cb action list \<Rightarrow> user_t \<Rightarrow> 's \<Rightarrow> (user_t \<times> 's) option" where
  "user_actions cbs [] u s = Some (u, s)"
| "user_actions cbs (a # as) u s = do { (u, s) \<leftarrow> user_action cbs a u s; user_actions cbs as u s }"

text \<open>Events of libevent that find data to read; there are none when the user has been disconnected.\<close>

fun user_events :: "'s user_cbs \<Rightarrow> (nat \<Rightarrow> 'i \<Rightarrow> u8 list \<times> 'i) \<Rightarrow> nat \<Rightarrow> user_t \<Rightarrow> 's \<Rightarrow> 'i \<Rightarrow> (user_t \<times> 's \<times> 'i) option" where
  "user_events cbs rd 0 u s i = Some (u, s, i)"
| "user_events cbs rd (Suc k) u s i = (case us_wscon u of
     None \<Rightarrow> Some (u, s, i)
   | Some c \<Rightarrow> if \<not> bev c then Some (u, s, i) else do {
       let (bs, i) = rd (ntoread c) i;
       (c, a) \<leftarrow> frame_read_cb bs c;
       (u, s) \<leftarrow> user_actions cbs a (u\<lparr> us_wscon := Some c \<rparr>) s;
       user_events cbs rd k u s i })"

text \<open>The end of the connection, reported by libevent.\<close>

definition user_close :: "'s user_cbs \<Rightarrow> user_t \<Rightarrow> 's \<Rightarrow> (user_t \<times> 's) option" where
  "user_close cbs u s = (case us_wscon u of None \<Rightarrow> Some (u, s) | Some c \<Rightarrow> user_actions cbs (close_cb c) u s)"

section \<open>Sending\<close>

text \<open>The functions of OpenSSL with what they write; \<^term>\<open>None\<close> is a failure.\<close>

record evp_lib =
  evp_max_block_length :: nat
  evp_cipher_ctx_new :: bool
  evp_encrypt_init :: "u8 list \<Rightarrow> u8 list \<Rightarrow> bool"
  evp_encrypt_update :: "u8 list \<Rightarrow> u8 list \<Rightarrow> u8 list \<Rightarrow> u8 list option"
  evp_encrypt_final :: "u8 list \<Rightarrow> u8 list \<Rightarrow> u8 list \<Rightarrow> u8 list option"

text \<open>\<^term>\<open>None\<close> is the result -1; the context is then not freed.\<close>

definition encrypt :: "evp_lib \<Rightarrow> u8 list \<Rightarrow> u8 list \<Rightarrow> u8 list \<Rightarrow> u8 list option" where
  "encrypt evp plaintext key iv =
     (if \<not> evp_cipher_ctx_new evp then None
      else if \<not> evp_encrypt_init evp key iv then None
      else do {
        a \<leftarrow> evp_encrypt_update evp key iv plaintext;
        b \<leftarrow> evp_encrypt_final evp key iv plaintext;
        Some (a @ b) })"

definition fb_begin_prepare :: "u8 list" where
  "fb_begin_prepare = replicate k_prefix_size 0"

text \<open>A frame buffer: the string, and where in it the frame is.\<close>

type_synonym frame_buffer_t = "u8 list \<times> (nat \<times> nat) option"

definition fb_data :: "frame_buffer_t \<Rightarrow> u8 list option" where
  "fb_data fb = (case snd fb of None \<Rightarrow> None | Some (p, n) \<Rightarrow> Some (take n (drop p (fst fb))))"

definition fb_end_prepare_ping :: "u8 list \<Rightarrow> frame_buffer_t" where
  "fb_end_prepare_ping data = frame_buffer_new_str 1 0x9 data"

definition fb_end_prepare :: "evp_lib \<Rightarrow> bool \<Rightarrow> u8 list option \<Rightarrow> u8 list option \<Rightarrow> u8 list \<Rightarrow> u8 list \<Rightarrow> frame_buffer_t option" where
  "fb_end_prepare evp enc aes_key aes_ivc data tmp = (case (aes_key, aes_ivc) of
     (Some key, Some ivc) \<Rightarrow>
       if enc then
         if length data < k_prefix_size \<or> 2 ^ 31 \<le> length data then None
         else do {
           let tmp = resize_bytes (length data + evp_max_block_length evp) tmp;
           tmp \<leftarrow> put_at 0 (take k_prefix_size data) tmp;
           (case encrypt evp (drop k_prefix_size data) key ivc of
              None \<Rightarrow> Some (frame_buffer_new_str 1 1 data)
            | Some c \<Rightarrow> do {
                tmp \<leftarrow> put_at k_prefix_size c tmp;
                Some (frame_buffer_new_str 1 1 (resize_bytes (length c + k_prefix_size) tmp)) }) }
       else Some (frame_buffer_new_str 1 1 data)
   | (None, None) \<Rightarrow> Some (frame_buffer_new_str 1 1 data)
   | _ \<Rightarrow> None)"

text \<open>\<open>ret\<close> is what \<^verbatim>\<open>bufferevent_write\<close> returns.\<close>

definition user_send :: "int \<Rightarrow> user_t \<Rightarrow> frame_buffer_t \<Rightarrow> user_cb action list \<times> bool" where
  "user_send ret u evb = (case us_wscon u of
     None \<Rightarrow> ([], False)
   | Some c \<Rightarrow> (case send_a_frame ret c (fb_data evb) of (a, r) \<Rightarrow> (a, r = 0)))"

section \<open>Messages and fragments\<close>

text \<open>Pings and pongs may come between the fragments of a message; they are whole frames.\<close>

fun is_control :: "message \<Rightarrow> bool" where
  "is_control (f, oc, key, d) \<longleftrightarrow> f = 1 \<and> (oc = 9 \<or> oc = 10)"

text \<open>The messages that a sequence of frames completes, when \<open>m\<close> has arrived before, and what is left over.\<close>

fun assemble :: "u8 list \<Rightarrow> message list \<Rightarrow> u8 list list \<times> u8 list" where
  "assemble m [] = ([], m)"
| "assemble m ((f, oc, key, d) # fs) =
     (if is_control (f, oc, key, d) then assemble m fs
      else if f = 1 then (case assemble [] fs of (ts, r) \<Rightarrow> ((m @ d) # ts, r))
      else assemble (m @ d) fs)"

text \<open>A message as a client cuts it: fragments with key and payload, each behind some control frames.\<close>

type_synonym fragment = "message list \<times> u8 list \<times> u8 list"

fun frames_of :: "u8 \<Rightarrow> fragment list \<Rightarrow> message list" where
  "frames_of oc [] = []"
| "frames_of oc [(ctl, key, d)] = ctl @ [(1, oc, key, d)]"
| "frames_of oc ((ctl, key, d) # fr # frs) = ctl @ (0, oc, key, d) # frames_of 0 (fr # frs)"

definition text_of :: "fragment list \<Rightarrow> u8 list" where
  "text_of frs = concat (map (\<lambda>(ctl, key, d). d) frs)"

definition client_ok :: "u8 \<times> fragment list \<Rightarrow> bool" where
  "client_ok m \<longleftrightarrow> fst m \<in> {1, 2} \<and> snd m \<noteq> [] \<and>
     (\<forall>(ctl, key, d) \<in> set (snd m). length key = 4 \<and> length d < 2 ^ 31 \<and> (\<forall>x \<in> set ctl. message_ok x \<and> is_control x))"

lemma assemble_control: "\<forall>x \<in> set ctl. is_control x \<Longrightarrow> assemble m (ctl @ fs) = assemble m fs"
proof (induction ctl)
  case (Cons x ctl)
  then show ?case by (cases x) simp
qed simp

lemma assemble_frames:
  assumes "frs \<noteq> []" "oc \<notin> {9, 10}" "\<forall>(ctl, key, d) \<in> set frs. \<forall>x \<in> set ctl. is_control x"
  shows "assemble m (frames_of oc frs @ fs) = (case assemble [] fs of (ts, r) \<Rightarrow> ((m @ text_of frs) # ts, r))"
  using assms
proof (induction oc frs arbitrary: m rule: frames_of.induct)
  case (3 oc ctl key d fr frs)
  then show ?case using assemble_control [of ctl m] by (simp add: text_of_def split: prod.splits)
qed (auto simp: assemble_control text_of_def split: prod.splits)

lemma assemble_messages:
  assumes "\<forall>m \<in> set ms. client_ok m"
  shows "assemble [] (concat (map (\<lambda>(oc, frs). frames_of oc frs) ms)) = (map (text_of \<circ> snd) ms, [])"
  using assms
proof (induction ms)
  case (Cons m ms)
  obtain oc frs where m: "m = (oc, frs)" by (cases m)
  have "frs \<noteq> []" "oc \<notin> {9, 10}" "\<forall>(ctl, key, d) \<in> set frs. \<forall>x \<in> set ctl. is_control x"
    using Cons.prems by (auto simp: m client_ok_def)
  from assemble_frames [OF this, of "[]"] show ?case using Cons by (simp add: m)
qed simp

lemma control_not_close: "is_control x \<Longrightarrow> \<not> is_close x"
  by (cases x) auto

lemma frames_of_ok:
  assumes "oc \<le> 2" "\<forall>(ctl, key, d) \<in> set frs. length key = 4 \<and> length d < 2 ^ 31 \<and> (\<forall>x \<in> set ctl. message_ok x \<and> is_control x)"
    and "x \<in> set (frames_of oc frs)"
  shows "message_ok x \<and> \<not> is_close x"
proof -
  have l: "k \<le> 2 \<Longrightarrow> k \<le> 15 \<and> k \<noteq> 8" for k :: u8 by (auto simp: word_le_nat_alt)
  show ?thesis using assms
    by (induction oc frs rule: frames_of.induct) (use l in \<open>auto dest: control_not_close\<close>)
qed

section \<open>Receiving messages\<close>

lemma frame_read_cb_bev: "frame_read_cb bs c = Some (c', a) \<Longrightarrow> bev c' = bev c"
  by (auto simp: frame_read_cb_def frame_step_one_def frame_step_two_def frame_step_three_def frame_step_four_def recv_whole_def
      await_def Let_def split: if_splits Step.splits Option.bind_splits option.splits)

lemma user_actions_append:
  "user_actions cbs (a @ b) u s = do { (u, s) \<leftarrow> user_actions cbs a u s; user_actions cbs b u s }"
proof (induction a arbitrary: u s)
  case (Cons x a)
  then show ?case by (auto split: Option.bind_split prod.splits)
qed simp

lemma user_actions_visible: "user_actions cbs a u s = user_actions cbs (visible a) u s"
proof (induction a arbitrary: u s)
  case (Cons x a)
  have "visible (x # a) = (case x of Watermark_Read n \<Rightarrow> visible a | _ \<Rightarrow> x # visible a)"
    by (simp add: visible_def split: action.split)
  then show ?case using Cons by (cases x) (auto split: Option.bind_split prod.splits)
qed simp

text \<open>Actions that take the user from one state to another, whatever its connection does in the meantime.\<close>

definition at_conn :: "user_cb ws_conn_t \<Rightarrow> user_t \<Rightarrow> user_t" where
  "at_conn c u = u\<lparr> us_wscon := Some c \<rparr>"

definition moves :: "'s user_cbs \<Rightarrow> user_cb action list \<Rightarrow> user_t \<Rightarrow> 's \<Rightarrow> user_t \<Rightarrow> 's \<Rightarrow> bool" where
  "moves cbs acts u s u' s' \<longleftrightarrow> (\<forall>c. user_actions cbs acts (at_conn c u) s = Some (at_conn c u', s'))"

lemma at_conn_simps [simp]: "us_wscon (at_conn c u) = Some c" "at_conn c (at_conn c' u) = at_conn c u"
  "us_msg (at_conn c u) = us_msg u" "us_pong_data (at_conn c u) = us_pong_data u"
  by (simp_all add: at_conn_def)

lemma moves_visible: "visible a = visible b \<Longrightarrow> moves cbs a u s u' s' = moves cbs b u s u' s'"
  unfolding moves_def using user_actions_visible [of cbs a] user_actions_visible [of cbs b] by simp

lemma moves_none: "moves cbs [] u s u s"
  by (simp add: moves_def)

text \<open>While at most one action concerns the user, its events follow those of the connection.\<close>

lemma user_events_follow:
  assumes "frame_events rd k c i = Some (c', i', acts)" "bev c" "moves cbs acts u s u' s'" "length (visible acts) \<le> 1"
  shows "user_events cbs rd k (at_conn c u) s i = Some (at_conn c' u', s', i')"
  using assms
proof (induction k arbitrary: c i acts u s)
  case 0
  then have "moves cbs [] u s u' s'" "c' = c" "i' = i" by auto
  then show ?case by (simp add: moves_def)
next
  case (Suc k)
  obtain bs i1 where rd: "rd (ntoread c) i = (bs, i1)" by (cases "rd (ntoread c) i")
  obtain c1 a b where c1: "frame_read_cb bs c = Some (c1, a)" "frame_events rd k c1 i1 = Some (c', i', b)" "acts = a @ b"
    using Suc.prems(1) rd by (auto split: Option.bind_splits prod.splits)
  have bev: "bev c1" using frame_read_cb_bev [OF c1(1)] Suc.prems(2) by simp
  obtain u1 s1 where m: "moves cbs a u s u1 s1" "moves cbs b u1 s1 u' s'" "length (visible b) \<le> 1"
  proof (cases "visible a = []")
    case True
    then have "moves cbs a u s u s" "moves cbs b u s u' s'" "length (visible b) \<le> 1"
      using Suc.prems(3,4) moves_none [of cbs u s] moves_visible [of a "[]" cbs u s] moves_visible [of b acts cbs u s]
      by (simp_all add: c1(3))
    then show thesis by (rule that)
  next
    case False
    then have b: "visible b = []" using Suc.prems(4) by (cases "visible a") (auto simp: c1(3))
    then have "moves cbs a u s u' s'" "moves cbs b u' s' u' s'" "length (visible b) \<le> 1"
      using Suc.prems(3) moves_none [of cbs u' s'] moves_visible [of b "[]" cbs u' s'] moves_visible [of a acts cbs u s]
      by (simp_all add: c1(3))
    then show thesis by (rule that)
  qed
  then have "user_actions cbs a (at_conn c1 u) s = Some (at_conn c1 u1, s1)" by (simp add: moves_def)
  moreover have "user_events cbs rd k (at_conn c1 u1) s1 i1 = Some (at_conn c' u', s', i')"
    by (rule Suc.IH [OF c1(2) bev m(2,3)])
  ultimately show ?case using rd c1(1) Suc.prems(2) by (simp add: at_conn_def)
qed

text \<open>
  What the bound function is to do with a text, while \<open>good\<close> holds of its state: it may change the message, and nothing
  else of the user.
\<close>

definition takes :: "'s user_cbs \<Rightarrow> ('s \<Rightarrow> bool) \<Rightarrow> (u8 list \<Rightarrow> 's \<Rightarrow> 's) \<Rightarrow> u8 list \<Rightarrow> bool" where
  "takes cbs good g txt \<longleftrightarrow> (\<forall>u s. us_msg u = txt \<and> good s \<longrightarrow> good (g txt s) \<and>
     (\<exists>x. run_unit (on_frame_recv cbs) u s = Some (u\<lparr> us_msg := x \<rparr>, g txt s)))"

text \<open>The same of one state, and of a sequence of texts from one state on.\<close>

definition taken :: "'s user_cbs \<Rightarrow> (u8 list \<Rightarrow> 's \<Rightarrow> 's) \<Rightarrow> 's \<Rightarrow> u8 list \<Rightarrow> bool" where
  "taken cbs g s txt \<longleftrightarrow> (\<forall>u. us_msg u = txt \<longrightarrow> (\<exists>x. run_unit (on_frame_recv cbs) u s = Some (u\<lparr> us_msg := x \<rparr>, g txt s)))"

fun taken_all :: "'s user_cbs \<Rightarrow> (u8 list \<Rightarrow> 's \<Rightarrow> 's) \<Rightarrow> 's \<Rightarrow> u8 list list \<Rightarrow> bool" where
  "taken_all cbs g s [] \<longleftrightarrow> True"
| "taken_all cbs g s (t # ts) \<longleftrightarrow> taken cbs g s t \<and> taken_all cbs g (g t s) ts"

lemma taken_all_append: "taken_all cbs g s (ts @ ts') \<longleftrightarrow> taken_all cbs g s ts \<and> taken_all cbs g (fold g ts s) ts'"
  by (induction ts arbitrary: s) simp_all

lemma takes_taken: "takes cbs good g t \<Longrightarrow> good s \<Longrightarrow> taken cbs g s t \<and> good (g t s)"
  unfolding takes_def taken_def by (metis user_t.select_convs(2))

lemma takes_all: "\<forall>t \<in> set ts. takes cbs good g t \<Longrightarrow> good s \<Longrightarrow> taken_all cbs g s ts \<and> good (fold g ts s)"
proof (induction ts arbitrary: s)
  case (Cons t ts)
  then show ?case using takes_taken [of cbs good g t s] by simp
qed simp

text \<open>One frame.\<close>

fun fed :: "(u8 list \<Rightarrow> 's \<Rightarrow> 's) \<Rightarrow> message \<Rightarrow> u8 list \<times> 's \<Rightarrow> u8 list \<times> 's" where
  "fed g (f, oc, key, d) (m, s) =
     (if is_control (f, oc, key, d) then (m, s) else if f = 1 then ([], g (m @ d) s) else (m @ d, s))"

lemma append_frame_after:
  "length d < 2 ^ 31 \<Longrightarrow> append_payload (frame_after (f, oc, key, d) g) m = Some (m @ d)"
  by (cases "d = []") (simp_all add: append_payload_def payload_pos word_neq_0_conv [symmetric] word_unat_eq_iff)

lemma moves_frame:
  assumes "message_ok x" "frame_recv_cb_unit c = Some frame_recv_cb" "pong_cb_unit c = Some pong_recv_cb" "us_pong_data u = []"
    and "\<forall>t \<in> set (fst (assemble (us_msg u) [x])). taken cbs g s t" "on_pong_recv cbs = None"
    and "fed g x (us_msg u, s) = (m', s')"
  shows "moves cbs (calls_of x (conn_after x c)) u s (u\<lparr> us_msg := m' \<rparr>) s'"
proof -
  obtain f oc key d where x: "x = (f, oc, key, d)" by (cases x)
  note ap = append_frame_after [of d f oc key "frame c"]
  have d: "length d < 2 ^ 31" using assms(1) by (simp add: x)
  have fin: "fin (frame_after (f, oc, key, d) g') = f" for g' by simp
  have at: "(at_conn c' u)\<lparr> us_msg := m1 \<rparr> = at_conn c' (u\<lparr> us_msg := m1 \<rparr>)" for c' m1 by (simp add: at_conn_def)
  consider (ping) "f = 1" "oc = 9" | (pong) "f = 1" "oc = 10" | (last) "f = 1" "oc \<noteq> 9" "oc \<noteq> 10" | (part) "f \<noteq> 1" by blast
  then show ?thesis
  proof cases
    case ping
    then show ?thesis using assms(7) by (cases u) (auto simp: x calls_of.simps moves_def at_conn_def)
  next
    case pong
    then show ?thesis using assms(3,4,6,7) ap [OF d]
      by (simp add: x calls_of.simps moves_def call_def on_pong_received_def run_unit_def at_conn_def)
  next
    case last
    then have "taken cbs g s (us_msg u @ d)" using assms(5) by (simp add: x)
    then have t: "\<exists>y. run_unit (on_frame_recv cbs) (at_conn c' (u\<lparr> us_msg := us_msg u @ d \<rparr>)) s =
        Some ((at_conn c' (u\<lparr> us_msg := us_msg u @ d \<rparr>))\<lparr> us_msg := y \<rparr>, g (us_msg u @ d) s)" for c'
      unfolding taken_def by (metis at_conn_simps(3) user_t.select_convs(2) user_t.surjective user_t.update_convs(2))
    have "user_actions cbs (calls_of x (conn_after x c)) (at_conn c' u) s = Some (at_conn c' (u\<lparr> us_msg := m' \<rparr>), s')" for c'
      using t [of c'] assms(2,7) last ap [OF d]
      by (auto simp: x calls_of.simps call_def on_frame_received_def at [symmetric])
    then show ?thesis by (simp add: moves_def)
  next
    case part
    then show ?thesis using assms(2,7) ap [OF d]
      by (simp add: x calls_of.simps moves_def call_def on_frame_received_def at_conn_def)
  qed
qed

lemma user_frame:
  assumes "bev_reads rd avail" "message_ok x" "\<not> is_close x" "ready c"
    and "frame_recv_cb_unit c = Some frame_recv_cb" "pong_cb_unit c = Some pong_recv_cb" "us_pong_data u = []"
    and "\<forall>t \<in> set (fst (assemble (us_msg u) [x])). taken cbs g s t" "on_pong_recv cbs = None"
    and "fed g x (us_msg u, s) = (m', s')" "avail i = wire x @ rest"
  shows "\<exists>k i'. user_events cbs rd k (at_conn c u) s i = Some (at_conn (conn_after x c) (u\<lparr> us_msg := m' \<rparr>), s', i') \<and> avail i' = rest"
proof -
  obtain k i' acts where k: "frame_events rd k c i = Some (conn_after x c, i', acts)" "avail i' = rest"
    "visible acts = calls_of x (conn_after x c)"
    using runs_message [OF assms(1,2,4,3), of rest] assms(11) by (auto simp: runs_def)
  have "moves cbs (calls_of x (conn_after x c)) u s (u\<lparr> us_msg := m' \<rparr>) s'"
    by (rule moves_frame [OF assms(2,5-10)])
  then have "moves cbs acts u s (u\<lparr> us_msg := m' \<rparr>) s'"
    using moves_visible [of acts "calls_of x (conn_after x c)" cbs u s] k(3) by simp
  moreover have "length (visible acts) \<le> 1" unfolding k(3) by (cases x) (simp add: calls_of.simps call_def split: option.split)
  moreover have "bev c" using assms(4) by (simp add: ready_def)
  ultimately show ?thesis using user_events_follow [OF k(1)] k(2) by (intro exI [of _ k] exI [of _ i']) simp
qed

lemma user_events_add:
  "user_events cbs rd (j + k) u s i = do { (u, s, i) \<leftarrow> user_events cbs rd j u s i; user_events cbs rd k u s i }"
proof (induction j arbitrary: u s i)
  case (Suc j)
  have "user_events cbs rd k u s i = Some (u, s, i)" if "us_wscon u = None \<or> (\<exists>c. us_wscon u = Some c \<and> \<not> bev c)"
    using that by (cases k) auto
  then show ?case using Suc by (auto simp: Let_def split: option.split prod.splits Option.bind_split)
qed simp

lemma assemble_Cons:
  "assemble m (x # fs) = (case assemble m [x] of (ts, r) \<Rightarrow> (case assemble r fs of (ts', r) \<Rightarrow> (ts @ ts', r)))"
  by (cases x) (simp split: prod.split)

lemma units_after [simp]:
  "frame_recv_cb_unit (conn_after x c) = frame_recv_cb_unit c" "pong_cb_unit (conn_after x c) = pong_cb_unit c"
  by (cases x; simp)+

lemma units_after_all [simp]:
  "frame_recv_cb_unit (conn_after_all xs c) = frame_recv_cb_unit c" "pong_cb_unit (conn_after_all xs c) = pong_cb_unit c"
  by (induction xs arbitrary: c) (simp_all del: conn_after.simps)

lemma user_frames:
  assumes "bev_reads rd avail" "on_pong_recv cbs = None" "\<forall>x \<in> set fs. message_ok x \<and> \<not> is_close x"
    and "ready c" "frame_recv_cb_unit c = Some frame_recv_cb" "pong_cb_unit c = Some pong_recv_cb" "us_pong_data u = []"
    and "assemble (us_msg u) fs = (ts, r)" "taken_all cbs g s ts" "avail i = concat (map wire fs) @ rest"
  shows "\<exists>k i'. user_events cbs rd k (at_conn c u) s i =
    Some (at_conn (conn_after_all fs c) (u\<lparr> us_msg := r \<rparr>), fold g ts s, i') \<and> avail i' = rest"
  using assms(3-)
proof (induction fs arbitrary: c u s i ts)
  case Nil
  then show ?case by (intro exI [of _ 0] exI [of _ i]) (simp add: at_conn_def)
next
  case (Cons x fs)
  obtain ts1 r1 where a1: "assemble (us_msg u) [x] = (ts1, r1)" by (cases "assemble (us_msg u) [x]")
  obtain ts2 where a2: "assemble r1 fs = (ts2, r)" "ts = ts1 @ ts2"
    using Cons.prems(6) a1 assemble_Cons [of "us_msg u" x fs] by (auto split: prod.splits)
  have f: "fed g x (us_msg u, s) = (r1, fold g ts1 s)"
    using a1 by (cases x) (auto split: if_splits)
  have tk: "taken_all cbs g s ts1" "taken_all cbs g (fold g ts1 s) ts2" using Cons.prems(7) unfolding a2(2) taken_all_append by simp_all
  have tk1: "\<forall>t \<in> set (fst (assemble (us_msg u) [x])). taken cbs g s t" using tk(1) a1 by (cases x) (auto split: if_splits)
  have "message_ok x" "\<not> is_close x" using Cons.prems(1) by simp_all
  from user_frame [OF assms(1) this Cons.prems(2-5) tk1 assms(2) f, of i "concat (map wire fs) @ rest"] Cons.prems(8) obtain j i1 where
    j: "user_events cbs rd j (at_conn c u) s i = Some (at_conn (conn_after x c) (u\<lparr> us_msg := r1 \<rparr>), fold g ts1 s, i1)"
      "avail i1 = concat (map wire fs) @ rest" by auto
  have "ready (conn_after x c)" using Cons.prems(1,2) by (intro ready_after) simp_all
  then obtain k i2 where "user_events cbs rd k (at_conn (conn_after x c) (u\<lparr> us_msg := r1 \<rparr>)) (fold g ts1 s) i1 =
      Some (at_conn (conn_after_all fs (conn_after x c)) (u\<lparr> us_msg := r1, us_msg := r \<rparr>), fold g ts2 (fold g ts1 s), i2)" "avail i2 = rest"
    using Cons.IH [where c = "conn_after x c" and u = "u\<lparr> us_msg := r1 \<rparr>" and ts = ts2 and i = i1 and s = "fold g ts1 s"]
      Cons.prems(1,3-5) a2 j(2) tk(2) by (auto simp del: conn_after.simps)
  then have "user_events cbs rd (j + k) (at_conn c u) s i = Some (at_conn (conn_after_all (x # fs) c) (u\<lparr> us_msg := r \<rparr>), fold g ts s, i2)"
    unfolding user_events_add using j(1) a2(2) by simp
  then show ?case using \<open>avail i2 = rest\<close> by auto
qed

section \<open>A function that disconnects\<close>

text \<open>The events up to the action in which the user is disconnected; there are no more.\<close>

lemma user_events_cut:
  assumes "frame_events rd k c i = Some (c', i', acts)" "bev c" "visible acts = [a]"
    and "\<forall>c. user_action cbs a (at_conn c u) s = Some (at_conn (c\<lparr> bev := False \<rparr>) u', s')"
  shows "\<exists>j i' c'. user_events cbs rd j (at_conn c u) s i = Some (at_conn c' u', s', i') \<and> \<not> bev c'"
  using assms(1-3)
proof (induction k arbitrary: c i acts)
  case 0
  then show ?case by simp
next
  case (Suc k)
  obtain bs i1 where rd: "rd (ntoread c) i = (bs, i1)" by (cases "rd (ntoread c) i")
  obtain c1 a1 b where c1: "frame_read_cb bs c = Some (c1, a1)" "frame_events rd k c1 i1 = Some (c', i', b)" "acts = a1 @ b"
    using Suc.prems(1) rd by (auto split: Option.bind_splits prod.splits)
  have bev: "bev c1" using frame_read_cb_bev [OF c1(1)] Suc.prems(2) by simp
  consider "visible a1 = []" "visible b = [a]" | "visible a1 = [a]" using Suc.prems(3) c1(3) by (cases "visible a1") auto
  then show ?case
  proof cases
    case 1
    then have "user_actions cbs a1 (at_conn c1 u) s = Some (at_conn c1 u, s)" using user_actions_visible [of cbs a1] by simp
    moreover obtain j i2 c2 where "user_events cbs rd j (at_conn c1 u) s i1 = Some (at_conn c2 u', s', i2)" "\<not> bev c2"
      using Suc.IH [OF c1(2) bev 1(2)] by blast
    ultimately have "user_events cbs rd (Suc j) (at_conn c u) s i = Some (at_conn c2 u', s', i2)"
      using rd c1(1) Suc.prems(2) by (simp add: at_conn_def)
    then show ?thesis using \<open>\<not> bev c2\<close> by blast
  next
    case 2
    then have "user_actions cbs a1 (at_conn c1 u) s = Some (at_conn (c1\<lparr> bev := False \<rparr>) u', s')"
      using user_actions_visible [of cbs a1] assms(4) by simp
    then have "user_events cbs rd (Suc 0) (at_conn c u) s i = Some (at_conn (c1\<lparr> bev := False \<rparr>) u', s', i1)"
      using rd c1(1) Suc.prems(2) by (simp add: at_conn_def)
    then show ?thesis by (intro exI [of _ "Suc 0"] exI [of _ i1] exI [of _ "c1\<lparr> bev := False \<rparr>"]) simp
  qed
qed

text \<open>Once disconnected, a user stays as it is.\<close>

lemma user_events_dead:
  "us_wscon u = Some c \<Longrightarrow> \<not> bev c \<Longrightarrow> user_events cbs rd n u s i = Some (u, s, i)"
  by (cases n) simp_all

lemma at_conn_cut: "disconnect (at_conn c u) = at_conn (c\<lparr> bev := False \<rparr>) u"
  by (cases c) (simp add: disconnect_def at_conn_def)

text \<open>The last frame of a message, and what has arrived before it.\<close>

lemma frames_of_last:
  assumes "frs \<noteq> []" "oc \<notin> {9, 10}" "\<forall>(ctl, key, d) \<in> set frs. \<forall>x \<in> set ctl. is_control x"
  shows "\<exists>fs oc' key d r. frames_of oc frs = fs @ [(1, oc', key, d)] \<and> oc' \<notin> {9, 10} \<and> assemble m fs = ([], r) \<and> m @ text_of frs = r @ d"
  using assms
proof (induction oc frs arbitrary: m rule: frames_of.induct)
  case (2 oc ctl key d)
  then show ?case using assemble_control [of ctl m "[]"]
    by (intro exI [of _ ctl] exI [of _ oc] exI [of _ key] exI [of _ d] exI [of _ m]) (simp add: text_of_def)
next
  case (3 oc ctl key d fr frs)
  have p: "fr # frs \<noteq> []" "(0 :: u8) \<notin> {9, 10}" "\<forall>(ctl, key, d) \<in> set (fr # frs). \<forall>x \<in> set ctl. is_control x"
    using 3(4) by auto
  obtain fs oc' key' d' r where "frames_of 0 (fr # frs) = fs @ [(1, oc', key', d')]" "oc' \<notin> {9, 10}"
    "assemble (m @ d) fs = ([], r)" "(m @ d) @ text_of (fr # frs) = r @ d'" using "3.IH" [OF p, of "m @ d"] by blast
  then show ?case using assemble_control [of ctl m "(0, oc, key, d) # fs"] 3(4)
    by (intro exI [of _ "ctl @ (0, oc, key, d) # fs"] exI [of _ oc'] exI [of _ key'] exI [of _ d'] exI [of _ r]) (simp add: text_of_def)
qed simp

section \<open>Sending a text\<close>

text \<open>What a text becomes: a failure of the cipher leaves it as it is.\<close>

definition sent_body :: "evp_lib \<Rightarrow> user_t \<Rightarrow> u8 list \<Rightarrow> u8 list" where
  "sent_body evp u txt = (case (us_aes_key u, us_aes_ivc u) of
     (Some key, Some ivc) \<Rightarrow> if us_encrypt u then (case encrypt evp txt key ivc of None \<Rightarrow> txt | Some c \<Rightarrow> c) else txt
   | _ \<Rightarrow> txt)"

lemma text_frame:
  assumes "length pre = 16" "length d < 2 ^ 64"
  shows "fb_data (frame_buffer_new_str 1 1 (pre @ d)) = Some (rfc_server_frame 1 1 d)"
proof -
  obtain data' p len where r: "frame_in_place 1 1 0 [0, 0, 0, 0] (pre @ d) = (data', p, len)" by (metis prod_cases3)
  then have "take len (drop p data') = rfc_server_frame 1 1 d"
    using frame_in_place_rfc [of 1 1 "pre @ d" "[0, 0, 0, 0]" data' p len] assms by simp
  then show ?thesis using r assms(1) by (simp add: frame_buffer_new_str_def k_prefix_size_def fb_data_def)
qed

text \<open>The lengths that OpenSSL documents: the cipher text is longer by at most one block.\<close>

definition evp_ok :: "evp_lib \<Rightarrow> bool" where
  "evp_ok evp \<longleftrightarrow> (\<forall>txt key ivc c. encrypt evp txt key ivc = Some c \<longrightarrow> length c \<le> length txt + evp_max_block_length evp)"

lemma fb_end_prepare_text:
  assumes "evp_ok evp" "evp_max_block_length evp \<le> 32" "length txt < 2 ^ 31 - 16" "(us_aes_key u = None) = (us_aes_ivc u = None)"
  shows "\<exists>fb. fb_end_prepare evp (us_encrypt u) (us_aes_key u) (us_aes_ivc u) (fb_begin_prepare @ txt) tmp = Some fb \<and>
    fb_data fb = Some (rfc_server_frame 1 1 (sent_body evp u txt))"
proof -
  have pre: "length fb_begin_prepare = 16" by (simp add: fb_begin_prepare_def k_prefix_size_def)
  have plain: "fb_data (frame_buffer_new_str 1 1 (fb_begin_prepare @ txt)) = Some (rfc_server_frame 1 1 txt)"
    using text_frame [OF pre] assms(3) by simp
  show ?thesis
  proof (cases "us_encrypt u \<and> us_aes_key u \<noteq> None")
    case True
    then obtain key ivc where k: "us_encrypt u" "us_aes_key u = Some key" "us_aes_ivc u = Some ivc" using assms(4) by auto
    let ?tmp = "resize_bytes (length (fb_begin_prepare @ txt) + evp_max_block_length evp) tmp"
    have p0: "put_at 0 (take 16 (fb_begin_prepare @ txt)) ?tmp = Some (fb_begin_prepare @ drop 16 ?tmp)"
      using pre by (simp add: put_at_def)
    show ?thesis
    proof (cases "encrypt evp txt key ivc")
      case None
      then show ?thesis using k plain p0 pre assms(3) by (simp add: fb_end_prepare_def sent_body_def k_prefix_size_def Let_def)
    next
      case (Some c)
      then have len: "length c \<le> length txt + evp_max_block_length evp" using assms(1) by (simp add: evp_ok_def)
      have "put_at 16 c (fb_begin_prepare @ drop 16 ?tmp) = Some (fb_begin_prepare @ c @ drop (length c) (drop 16 ?tmp))"
        using put_at_append [of fb_begin_prepare 16 c "drop 16 ?tmp"] len pre by (simp add: put_at_def)
      moreover have "resize_bytes (length c + 16) (fb_begin_prepare @ c @ drop (length c) (drop 16 ?tmp)) = fb_begin_prepare @ c"
        using pre by (simp add: resize_bytes_def)
      moreover have "fb_data (frame_buffer_new_str 1 1 (fb_begin_prepare @ c)) = Some (rfc_server_frame 1 1 c)"
        using text_frame [OF pre] len assms(2,3) by simp
      ultimately show ?thesis using k Some p0 pre assms(3)
        by (simp add: fb_end_prepare_def sent_body_def k_prefix_size_def Let_def)
    qed
  next
    case False
    then show ?thesis using plain assms(4)
      by (intro exI [of _ "frame_buffer_new_str 1 1 (fb_begin_prepare @ txt)"]) (auto simp: fb_end_prepare_def sent_body_def split: option.split)
  qed
qed

lemma client_frames_ok:
  assumes "\<forall>m \<in> set ms. client_ok m" "x \<in> set (concat (map (\<lambda>(oc, frs). frames_of oc frs) ms))"
  shows "message_ok x \<and> \<not> is_close x"
proof -
  obtain oc frs where m: "(oc, frs) \<in> set ms" "x \<in> set (frames_of oc frs)" using assms(2) by auto
  then have "client_ok (oc, frs)" using assms(1) by blast
  then show ?thesis using frames_of_ok [OF _ _ m(2)] by (auto simp: client_ok_def)
qed

lemma messages_taken:
  assumes "bev_reads rd avail" "\<forall>m \<in> set ms. client_ok m" "taken_all cbs g s (map (text_of \<circ> snd) ms)" "on_pong_recv cbs = None"
    and "us_wscon u = Some c" "ready c" "frame_recv_cb_unit c = Some frame_recv_cb" "pong_cb_unit c = Some pong_recv_cb"
    and "us_msg u = []" "us_pong_data u = []"
    and "avail i = concat (map wire (concat (map (\<lambda>(oc, frs). frames_of oc frs) ms))) @ rest"
  shows "\<exists>k i' c'. user_events cbs rd k u s i = Some (u\<lparr> us_wscon := Some c' \<rparr>, fold g (map (text_of \<circ> snd) ms) s, i') \<and>
    avail i' = rest \<and> ready c' \<and> frame_recv_cb_unit c' = Some frame_recv_cb \<and> pong_cb_unit c' = Some pong_recv_cb"
proof -
  let ?fs = "concat (map (\<lambda>(oc, frs). frames_of oc frs) ms)"
  have fs: "message_ok x \<and> \<not> is_close x" if x: "x \<in> set ?fs" for x using client_frames_ok [OF assms(2) x] .
  have as: "assemble (us_msg u) ?fs = (map (text_of \<circ> snd) ms, [])"
    unfolding assms(9) by (rule assemble_messages [OF assms(2)])
  have u: "at_conn c u = u" "\<And>c'. at_conn c' (u\<lparr> us_msg := [] \<rparr>) = u\<lparr> us_wscon := Some c' \<rparr>"
    using assms(5,9) by (cases u; simp add: at_conn_def)+
  have "\<exists>k i'. user_events cbs rd k (at_conn c u) s i =
      Some (at_conn (conn_after_all ?fs c) (u\<lparr> us_msg := [] \<rparr>), fold g (map (text_of \<circ> snd) ms) s, i') \<and> avail i' = rest"
    by (rule user_frames [where avail = avail and u = u and c = c and cbs = cbs and g = g])
      (use assms(1,3,4,6,7,8,10,11) as fs in auto)
  moreover have "ready (conn_after_all ?fs c)" using ready_after_all [OF assms(6)] fs by blast
  moreover have "frame_recv_cb_unit (conn_after_all ?fs c) = Some frame_recv_cb" "pong_cb_unit (conn_after_all ?fs c) = Some pong_recv_cb"
    using assms(7,8) by simp_all
  ultimately show ?thesis unfolding u by blast
qed

text \<open>A message at whose end the bound function disconnects the user.\<close>

lemma message_cut:
  assumes "bev_reads rd avail" "client_ok m" "on_pong_recv cbs = None"
    and "us_wscon u = Some c" "ready c" "frame_recv_cb_unit c = Some frame_recv_cb" "pong_cb_unit c = Some pong_recv_cb"
    and "us_msg u = []" "us_pong_data u = []" "avail i = concat (map wire (frames_of (fst m) (snd m))) @ rest"
    and cut: "\<And>v. us_msg v = text_of (snd m) \<Longrightarrow> \<exists>y. run_unit (on_frame_recv cbs) v s = Some (disconnect (v\<lparr> us_msg := y \<rparr>), s')"
  shows "\<exists>k i' c'. user_events cbs rd k u s i = Some (u\<lparr> us_wscon := Some c' \<rparr>, s', i') \<and> \<not> bev c'"
proof -
  have "snd m \<noteq> []" "fst m \<notin> {9, 10}" "\<forall>(ctl, key, d) \<in> set (snd m). \<forall>x \<in> set ctl. is_control x"
    using assms(2) by (auto simp: client_ok_def)
  from frames_of_last [OF this, of "us_msg u"] obtain fs oc key d r where
    f: "frames_of (fst m) (snd m) = fs @ [(1, oc, key, d)]" "oc \<notin> {9, 10}" "assemble (us_msg u) fs = ([], r)" "text_of (snd m) = r @ d"
    unfolding assms(8) by auto
  let ?x = "(1, oc, key, d) :: message"
  have all: "x \<in> set (fs @ [?x]) \<Longrightarrow> message_ok x \<and> \<not> is_close x" for x
    using client_frames_ok [of "[m]" x] assms(2) unfolding f(1) [symmetric] by (simp add: split_beta)
  then have fs: "\<forall>x \<in> set fs. message_ok x \<and> \<not> is_close x" by simp
  have "?x \<in> set (fs @ [?x])" by simp
  from all [OF this] have x: "message_ok ?x" "\<not> is_close ?x" by blast+
  have in1: "avail i = concat (map wire fs) @ (wire ?x @ rest)" using assms(10) f(1) by simp
  let ?c1 = "conn_after_all fs c" and ?u1 = "u\<lparr> us_msg := r \<rparr>"
  obtain j i1 where j: "user_events cbs rd j (at_conn c u) s i = Some (at_conn ?c1 ?u1, s, i1)" "avail i1 = wire ?x @ rest"
    using user_frames [OF assms(1,3) fs assms(5-7,9) f(3), of undefined s i "wire ?x @ rest"] in1 by auto
  have rdy: "ready ?c1" using ready_after_all [OF assms(5)] fs by blast
  obtain k c2 i2 acts where k: "frame_events rd k ?c1 i1 = Some (c2, i2, acts)"
    "visible acts = [Call frame_recv_cb (frame (conn_after ?x ?c1))]"
    using runs_message [OF assms(1) x(1) rdy x(2), of rest] j(2) f(2) assms(6)
    by (auto simp: runs_def calls_of.simps call_def simp del: conn_after.simps)
  have "us_msg (u\<lparr> us_msg := [] \<rparr>) = []" by simp
  have u: "u\<lparr> us_msg := [] \<rparr> = u" using assms(8) by (cases u) simp
  have act: "user_action cbs (Call frame_recv_cb (frame (conn_after ?x ?c1))) (at_conn c' ?u1) s = Some (at_conn (c'\<lparr> bev := False \<rparr>) u, s')" for c'
  proof -
    have d: "length d < 2 ^ 31" using x(1) by simp
    obtain y where y: "run_unit (on_frame_recv cbs) ((at_conn c' ?u1)\<lparr> us_msg := r @ d \<rparr>) s =
        Some (disconnect ((at_conn c' ?u1)\<lparr> us_msg := r @ d, us_msg := y \<rparr>), s')"
      using cut [of "(at_conn c' ?u1)\<lparr> us_msg := r @ d \<rparr>"] f(4) by auto
    have e: "(at_conn c' ?u1)\<lparr> us_msg := r @ d, us_msg := y \<rparr> = at_conn c' (u\<lparr> us_msg := y \<rparr>)" by (simp add: at_conn_def)
    have "(at_conn (c'\<lparr> bev := False \<rparr>) (u\<lparr> us_msg := y \<rparr>))\<lparr> us_msg := [] \<rparr> = at_conn (c'\<lparr> bev := False \<rparr>) (u\<lparr> us_msg := [] \<rparr>)"
      by (simp add: at_conn_def)
    then show ?thesis
      using y append_frame_after [OF d, of 1 oc key "frame ?c1" r] unfolding e at_conn_cut u
      by (simp add: on_frame_received_def)
  qed
  have "bev ?c1" using rdy by (simp add: ready_def)
  from user_events_cut [OF k(1) this k(2) allI [OF act]] obtain l i3 c3 where
    l: "user_events cbs rd l (at_conn ?c1 ?u1) s i1 = Some (at_conn c3 u, s', i3)" "\<not> bev c3" by blast
  have "at_conn c u = u" "at_conn c3 u = u\<lparr> us_wscon := Some c3 \<rparr>" using assms(4) by (cases u; simp add: at_conn_def)+
  then have "user_events cbs rd (j + l) u s i = Some (u\<lparr> us_wscon := Some c3 \<rparr>, s', i3)"
    unfolding user_events_add using j(1) l(1) by simp
  then show ?thesis using l(2) by blast
qed

section \<open>Properties\<close>

text \<open>
  C32. Messages are put together: a client may cut its messages into fragments of any number and length and send pings
  and pongs between them; the bound function is called once for each message, in order, with the whole text, nothing is
  left over, and the connection waits for the next frame at the first byte behind them. A fragment has less than
  \<open>2\<^sup>3\<^sup>1\<close> bytes, no function is bound for pongs, and the bound function changes its own state and the message, and
  nothing else of the user.
\<close>

theorem messages_delivered:
  assumes "bev_reads rd avail" "\<forall>m \<in> set ms. client_ok m \<and> takes cbs good g (text_of (snd m))" "on_pong_recv cbs = None"
    and "us_wscon u = Some c" "ready c" "frame_recv_cb_unit c = Some frame_recv_cb" "pong_cb_unit c = Some pong_recv_cb"
    and "us_msg u = []" "us_pong_data u = []" "good s"
    and "avail i = concat (map wire (concat (map (\<lambda>(oc, frs). frames_of oc frs) ms))) @ rest"
  shows "\<exists>k i' c'. user_events cbs rd k u s i = Some (u\<lparr> us_wscon := Some c' \<rparr>, fold g (map (text_of \<circ> snd) ms) s, i') \<and>
    avail i' = rest \<and> ready c' \<and> good (fold g (map (text_of \<circ> snd) ms) s)"
proof -
  have tk: "taken_all cbs g s (map (text_of \<circ> snd) ms) \<and> good (fold g (map (text_of \<circ> snd) ms) s)"
    by (rule takes_all) (use assms(2,10) in auto)
  have ok: "\<forall>m \<in> set ms. client_ok m" using assms(2) by blast
  show ?thesis using messages_taken [OF assms(1) ok conjunct1 [OF tk] assms(3-9,11)] tk by blast
qed

definition demo_user :: user_t where
  "demo_user = (user_new (Some (fst (frame_recv_loop
     (ws_conn_setcb PONG (Some pong_recv_cb) (ws_conn_setcb FRAME_RECV (Some frame_recv_cb) (ws_conn_new\<lparr> bev := True \<rparr>)))))) False)"

definition demo_cbs :: "u8 list list user_cbs" where
  "demo_cbs = \<lparr> on_pong_recv = None, on_frame_recv = Some (\<lambda>u s. Some (u, us_msg u # s)), on_disconnect = None, on_close = None \<rparr>"

text \<open>A message in two fragments with a ping between them.\<close>

definition demo_message :: "u8 \<times> fragment list" where
  "demo_message = (1, [([], [1, 2, 3, 4], [104]), ([(1, 9, [0, 0, 0, 0], [])], [5, 6, 7, 8], [105])])"

theorem messages_delivered_witness:
  "\<exists>k i' u'. user_events demo_cbs demo_rd k demo_user [] (concat (map wire (frames_of 1 (snd demo_message))) @ [0x81]) =
    Some (u', [[104, 105]], i') \<and> i' = [0x81]"
proof -
  have ok: "client_ok demo_message" "text_of (snd demo_message) = [104, 105]"
    by (simp_all add: client_ok_def demo_message_def text_of_def)
  have t: "takes demo_cbs (\<lambda>s. True) (\<lambda>t s. t # s) m" for m
    by (auto simp: takes_def demo_cbs_def run_unit_def intro: exI [of _ m])
  obtain c where c: "us_wscon demo_user = Some c" "ready c" "frame_recv_cb_unit c = Some frame_recv_cb" "pong_cb_unit c = Some pong_recv_cb"
    by (simp add: demo_user_def user_new_def ready_def frame_recv_loop_def ws_conn_setcb_def ws_conn_new_def frame_new_def)
  have u: "us_msg demo_user = []" "us_pong_data demo_user = []" by (simp_all add: demo_user_def user_new_def)
  have "\<forall>m \<in> set [demo_message]. client_ok m \<and> takes demo_cbs (\<lambda>s. True) (\<lambda>t s. t # s) (text_of (snd m))" using ok t by simp
  moreover have "on_pong_recv demo_cbs = None" by (simp add: demo_cbs_def)
  moreover have "fst demo_message = 1" by (simp add: demo_message_def)
  ultimately show ?thesis
    using messages_delivered [OF demo_rd_ok _ _ c u, of "[demo_message]" demo_cbs "\<lambda>s. True" "\<lambda>t s. t # s" "[]"] ok(2)
    by (fastforce simp: split_beta)
qed

text \<open>
  C33. What a handler writes behind the room that \<^verbatim>\<open>fb_begin_prepare\<close> leaves is sent as one text frame of RFC 6455: the text,
  or its cipher text when the user encrypts and both key and vector are stored. When the cipher fails, the text is sent
  as it is. The text has less than two gigabytes, and of key and vector both are stored or none.
\<close>

theorem text_sent:
  assumes "us_wscon u = Some c" "bev c" "evp_ok evp" "evp_max_block_length evp \<le> 32" "length txt < 2 ^ 31 - 16"
    and "(us_aes_key u = None) = (us_aes_ivc u = None)"
  shows "\<exists>fb. fb_end_prepare evp (us_encrypt u) (us_aes_key u) (us_aes_ivc u) (fb_begin_prepare @ txt) tmp = Some fb \<and>
    user_send ret u fb = ([Send (rfc_server_frame 1 1 (case (us_aes_key u, us_aes_ivc u) of
        (Some key, Some ivc) \<Rightarrow> if us_encrypt u then (case encrypt evp txt key ivc of None \<Rightarrow> txt | Some c \<Rightarrow> c) else txt
      | _ \<Rightarrow> txt))], ret = 0)"
proof -
  obtain fb where fb: "fb_end_prepare evp (us_encrypt u) (us_aes_key u) (us_aes_ivc u) (fb_begin_prepare @ txt) tmp = Some fb"
    "fb_data fb = Some (rfc_server_frame 1 1 (sent_body evp u txt))"
    using fb_end_prepare_text [OF assms(3-6)] by blast
  then show ?thesis using assms(1,2)
    by (intro exI [of _ fb]) (simp add: user_send_def send_a_frame_def rfc_server_frame_def sent_body_def)
qed

definition demo_evp :: evp_lib where
  "demo_evp = \<lparr> evp_max_block_length = 32, evp_cipher_ctx_new = True, evp_encrypt_init = (\<lambda>key iv. True),
     evp_encrypt_update = (\<lambda>key iv t. Some (map (\<lambda>b. b + 1) t)), evp_encrypt_final = (\<lambda>key iv t. Some [9]) \<rparr>"

theorem text_sent_witness:
  "\<exists>fb. fb_end_prepare demo_evp True (Some [7]) (Some [8]) (fb_begin_prepare @ [104, 105]) [] = Some fb \<and>
    user_send 0 (demo_user\<lparr> us_encrypt := True, us_aes_key := Some [7], us_aes_ivc := Some [8] \<rparr>) fb =
      ([Send [0x81, 3, 105, 106, 9]], True)"
proof -
  let ?u = "demo_user\<lparr> us_encrypt := True, us_aes_key := Some [7], us_aes_ivc := Some [8] \<rparr>"
  have e: "evp_ok demo_evp" by (auto simp: evp_ok_def encrypt_def demo_evp_def)
  obtain c where c: "us_wscon ?u = Some c" "bev c"
    by (simp add: demo_user_def user_new_def frame_recv_loop_def ws_conn_setcb_def ws_conn_new_def)
  have u: "us_aes_key ?u = Some [7]" "us_aes_ivc ?u = Some [8]" "us_encrypt ?u" by simp_all
  have "encrypt demo_evp [104, 105] [7] [8] = Some [105, 106, 9]" by (simp add: encrypt_def demo_evp_def)
  then show ?thesis using text_sent [OF c e, of "[104, 105]" "[]" 0] unfolding u
    by (simp add: demo_evp_def rfc_server_frame_def rfc_length_def)
qed

text \<open>
  \<^verbatim>\<open>disconnect\<close> frees the buffer event without a callback, so that nobody is told: \<^verbatim>\<open>on_disconnect\<close>, which removes the
  user from the list of the server, is not called by it or later.
\<close>

lemma disconnected_silent:
  assumes "us_wscon u = Some c" "bev c"
  shows "us_wscon (disconnect u) = Some (c\<lparr> bev := False \<rparr>) \<and> user_events cbs rd k (disconnect u) s i = Some (disconnect u, s, i)"
  using assms by (cases k) (simp_all add: disconnect_def)

end
