(* ===== verification/Web_Server.thy ===== *)
theory Web_Server
  imports Lzo_Roundtrip Sdk_Json
begin

text \<open>
  The path of a request through \<^verbatim>\<open>web_server/server_win.hpp\<close>: the body is decompressed if its header says so, parsed
  and handed to the request handler, whose response is written as JSON, compressed if the server is set to, and
  sent. What lies outside is a parameter: comparison of headers, the JSON parser, the request handler and the uploaders.
  Calls of the HTTP library are recorded as actions, in order.
\<close>

section \<open>State\<close>

datatype http_code = HTTP_OK | HTTP_NOCONTENT | HTTP_BADREQUEST | HTTP_BADMETHOD | HTTP_INTERNAL

datatype http_action = Add_header string string | Send_reply http_code string "u8 list option" | Send_error http_code string | Own_request

record http_request =
  rq_options :: bool
  rq_headers :: "(string \<times> string) list"
  rq_body :: "u8 list"

text \<open>What the JSON parser and a handler do: they may throw.\<close>

datatype 'q parsed = Parse_throws | Parse_fails | Parsed 'q

datatype 'r outcome = Throws | Refuses | Responds "'r jvalue" "u8 list" bool

text \<open>The machine: the build of the compressor, and where the buffers are.\<close>

record server_env =
  sv_cfg :: lzo_cfg
  sv_compression :: bool
  sv_text_addr :: nat
  sv_request_addr :: nat
  sv_uncompressed_addr :: nat

record ('u, 'h) worker_ctx =
  wc_request_data :: "u8 list"
  wc_uncompressed_data :: "u8 list"
  wc_response_str :: "u8 list"
  wc_lzo_tmp_memory :: "u16 list"
  wc_uploaders :: "('u \<times> 'h) list"

definition two_buffers :: "u8 list \<Rightarrow> u8 list \<Rightarrow> region mem" where
  "two_buffers i t r = (case r of In \<Rightarrow> i | Out \<Rightarrow> t)"

section \<open>Responses\<close>

definition response_headers :: "http_action list" where
  "response_headers = [Add_header ''Server'' ''AMTS_WebAPI'', Add_header ''Connection'' ''close'',
     Add_header ''Access-Control-Allow-Origin'' ''*'', Add_header ''Access-Control-Allow-Headers'' ''origin, content-type, accept'',
     Add_header ''Content-Type'' ''application/json'']"

text \<open>The contents of \<^verbatim>\<open>lzo_tmp_memory\<close> do not matter to the compressor, which leaves its dictionary there.\<close>

definition compress_response :: "server_env \<Rightarrow> u8 list \<Rightarrow> ('u, 'h) worker_ctx \<Rightarrow>
    (u8 list option \<times> http_action list \<times> ('u, 'h) worker_ctx) option" where
  "compress_response e in_data wc =
     (if \<not> sv_compression e then Some (Some in_data, response_headers, wc)
      else do {
        let data_compressed = resize_bytes (length in_data + length in_data div 16 + 64 + 3) (wc_request_data wc);
        (result, m, compressed_data_sz) \<leftarrow> lzo1x_1_compress (sv_cfg e) (sv_text_addr e) (two_buffers in_data data_compressed)
          (length in_data) (wc_lzo_tmp_memory wc);
        let wc = wc\<lparr> wc_request_data := m Out \<rparr>;
        Some (if result \<noteq> LZO_E_OK then (None, response_headers, wc)
          else (Some (take compressed_data_sz (m Out)), response_headers @ [Add_header ''Accept-Compression'' ''lzo''], wc)) })"

text \<open>\<open>is_empty\<close> is \<^verbatim>\<open>Json::Value::empty\<close>. Without any data the size is zero.\<close>

definition make_response :: "server_env \<Rightarrow> ('r \<Rightarrow> u8 list) \<Rightarrow> ('r jvalue \<Rightarrow> bool) \<Rightarrow> 'r jvalue \<Rightarrow> u8 list \<Rightarrow> ('u, 'h) worker_ctx \<Rightarrow>
    (u8 list option \<times> http_action list \<times> ('u, 'h) worker_ctx) option" where
  "make_response e fmt is_empty response direct_data wc =
     (if direct_data \<noteq> [] then compress_response e direct_data wc
      else if \<not> is_empty response then do {
        response_str \<leftarrow> json_write True fmt response [];
        compress_response e response_str (wc\<lparr> wc_response_str := response_str \<rparr>) }
      else Some (Some [], [], wc))"

definition send_response :: "u8 list option \<Rightarrow> http_action" where
  "send_response out = (case out of
     None \<Rightarrow> Send_error HTTP_INTERNAL ''Compression failed.''
   | Some data \<Rightarrow> if length data = 0 then Send_reply HTTP_NOCONTENT ''OK'' None else Send_reply HTTP_OK ''OK'' (Some data))"

section \<open>Requests\<close>

datatype compression_header = Not_compressed | Lzo_compressed | Unsupported

fun header_loop :: "(string \<Rightarrow> string \<Rightarrow> bool) \<Rightarrow> (string \<times> string) list \<Rightarrow> compression_header" where
  "header_loop strcasecmp [] = Not_compressed"
| "header_loop strcasecmp ((key, value) # kvs) =
     (if strcasecmp key ''Accept-Compression'' then
        if strcasecmp value ''lzo'' then Lzo_compressed else Unsupported
      else header_loop strcasecmp kvs)"

text \<open>Decompression of the body: the data, or the error to send.\<close>

definition decompress_request :: "server_env \<Rightarrow> ('u, 'h) worker_ctx \<Rightarrow> ((http_action + u8 list) \<times> ('u, 'h) worker_ctx) option" where
  "decompress_request e wc = do {
     let uncompressed = resize_bytes (4 * 1024 * 1024) (wc_uncompressed_data wc);
     run \<leftarrow> lzo1x_decompress_safe (sv_cfg e) \<lparr> in_len = length (wc_request_data wc), out_cap = length uncompressed,
       in_addr = sv_request_addr e, out_addr = sv_uncompressed_addr e \<rparr> (two_buffers (wc_request_data wc) uncompressed);
     (result, s) \<leftarrow> run;
     let wc = wc\<lparr> wc_uncompressed_data := d_mem s Out \<rparr>;
     Some (if result \<noteq> LZO_E_INPUT_OVERRUN then Inl (Send_error HTTP_BADREQUEST ''Big request.'')
       else if result \<noteq> LZO_E_OK then Inl (Send_error HTTP_BADREQUEST ''Decompression failed.'')
       else Inr (take (d_op s) (d_mem s Out)), wc) }"

text \<open>Parsing and handling inside the \<^verbatim>\<open>try\<close>: the error to send, or what the handler returned.\<close>

definition handle_data :: "(u8 list \<Rightarrow> 'q parsed) \<Rightarrow> ('q \<Rightarrow> 'r outcome) \<Rightarrow> u8 list \<Rightarrow> http_action + ('r jvalue \<times> u8 list \<times> bool)" where
  "handle_data parse on_request data = (case parse data of
     Parse_throws \<Rightarrow> Inl (Send_error HTTP_INTERNAL ''Internal error.'')
   | Parse_fails \<Rightarrow> Inl (Send_error HTTP_BADREQUEST ''No json data'')
   | Parsed q \<Rightarrow> (case on_request q of
         Throws \<Rightarrow> Inl (Send_error HTTP_INTERNAL ''Internal error.'')
       | Refuses \<Rightarrow> Inl (Send_error HTTP_BADMETHOD ''No request handler for current method.'')
       | Responds response direct_data hold \<Rightarrow> Inr (response, direct_data, hold)))"

definition options_headers :: "http_action list" where
  "options_headers = [Add_header ''Server'' ''AMTS_WebAPI'', Add_header ''Access-Control-Allow-Origin'' ''*'',
     Add_header ''Access-Control-Allow-Headers'' ''origin, content-type, accept'', Add_header ''Access-Control-Max-Age'' ''3628800'',
     Add_header ''Access-Control-Allow-Methods'' ''PUT,DELETE,GET,POST'']"

definition process_request :: "server_env \<Rightarrow> (string \<Rightarrow> string \<Rightarrow> bool) \<Rightarrow> (u8 list \<Rightarrow> 'q parsed) \<Rightarrow> ('q \<Rightarrow> 'r outcome) \<Rightarrow>
    ('r \<Rightarrow> u8 list) \<Rightarrow> ('r jvalue \<Rightarrow> bool) \<Rightarrow> http_request \<Rightarrow> ('u, 'h) worker_ctx \<Rightarrow> (http_action list \<times> ('u, 'h) worker_ctx) option" where
  "process_request e strcasecmp parse on_request fmt is_empty req wc =
     (if rq_options req then Some (options_headers @ [Send_reply HTTP_NOCONTENT ''No Content'' None], wc)
      else if length (rq_body req) = 0 then Some ([Send_reply HTTP_NOCONTENT ''No Content'' None], wc)
      else if header_loop strcasecmp (rq_headers req) = Unsupported then
        Some ([Send_error HTTP_BADREQUEST ''Unsupported compression type.''], wc)
      else do {
        let wc = wc\<lparr> wc_request_data := rq_body req \<rparr>;
        (data, wc) \<leftarrow> (if header_loop strcasecmp (rq_headers req) = Lzo_compressed then decompress_request e wc
          else Some (Inr (wc_request_data wc), wc));
        (case data of
           Inl err \<Rightarrow> Some ([err], wc)
         | Inr data \<Rightarrow> (case handle_data parse on_request data of
               Inl err \<Rightarrow> Some ([err], wc)
             | Inr (response, direct_data, hold) \<Rightarrow>
                 if hold then Some ([Own_request], wc)
                 else do {
                   (out, headers, wc) \<leftarrow> make_response e fmt is_empty response direct_data wc;
                   Some (headers @ [send_response out], wc) })) })"

section \<open>Uploaders\<close>

text \<open>
  The loop over the registered uploaders; the actions are listed for the request each of them belongs to. The second
  result tells whether the loop came to its end. An exception of an uploader is caught nowhere.
\<close>

fun upload_loop :: "server_env \<Rightarrow> ('u \<Rightarrow> 'r outcome) \<Rightarrow> ('r \<Rightarrow> u8 list) \<Rightarrow> ('r jvalue \<Rightarrow> bool) \<Rightarrow> ('u \<times> 'h) list \<Rightarrow> ('u, 'h) worker_ctx \<Rightarrow>
    (('h \<times> http_action list) list \<times> bool \<times> ('u, 'h) worker_ctx) option" where
  "upload_loop e run fmt is_empty [] wc = Some ([], True, wc)"
| "upload_loop e run fmt is_empty ((f, h) # fs) wc = (case run f of
     Throws \<Rightarrow> None
   | Refuses \<Rightarrow> Some ([(h, [Send_error HTTP_BADMETHOD ''Process request failed. Uploader not prepared.''])], False, wc)
   | Responds response direct_data hold \<Rightarrow> do {
       (out, headers, wc) \<leftarrow> make_response e fmt is_empty response direct_data wc;
       if out = None \<or> out = Some [] then Some ([(h, headers @ [send_response out])], False, wc)
       else do {
         (as, done, wc) \<leftarrow> upload_loop e run fmt is_empty fs wc;
         Some ((h, headers @ [send_response out]) # as, done, wc) } })"

definition event_handler :: "server_env \<Rightarrow> ('u \<Rightarrow> 'r outcome) \<Rightarrow> ('r \<Rightarrow> u8 list) \<Rightarrow> ('r jvalue \<Rightarrow> bool) \<Rightarrow> bool \<Rightarrow> ('u, 'h) worker_ctx \<Rightarrow>
    (('h \<times> http_action list) list \<times> ('u, 'h) worker_ctx) option" where
  "event_handler e run fmt is_empty ev_upload wc =
     (if ev_upload then do {
        (as, done, wc) \<leftarrow> upload_loop e run fmt is_empty (wc_uploaders wc) wc;
        Some (as, if done then wc\<lparr> wc_uploaders := [] \<rparr> else wc) }
      else Some ([], wc))"

definition register_uploader :: "'u \<Rightarrow> 'h \<Rightarrow> ('u, 'h) worker_ctx \<Rightarrow> ('u, 'h) worker_ctx" where
  "register_uploader f h wc = wc\<lparr> wc_uploaders := wc_uploaders wc @ [(f, h)] \<rparr>"


section \<open>Bodies of responses\<close>

text \<open>What the server sets up: a supported build, and a working memory of \<^verbatim>\<open>LZO1X_1_MEM_COMPRESS\<close> bytes.\<close>

definition sv_ok :: "server_env \<Rightarrow> ('u, 'h) worker_ctx \<Rightarrow> bool" where
  "sv_ok e wc \<longleftrightarrow> cfg_ok (sv_cfg e) \<and> 16384 \<le> length (wc_lzo_tmp_memory wc)"

text \<open>A body stands for a text.\<close>

definition body_of :: "server_env \<Rightarrow> u8 list \<Rightarrow> u8 list \<Rightarrow> bool" where
  "body_of e txt body \<longleftrightarrow> (if sv_compression e then lzo_stream body txt else body = txt)"

definition headers_of :: "server_env \<Rightarrow> http_action list" where
  "headers_of e = response_headers @ (if sv_compression e then [Add_header ''Accept-Compression'' ''lzo''] else [])"

lemma lzo_stream_nonempty: "lzo_stream bs txt \<Longrightarrow> bs \<noteq> []"
proof
  assume "lzo_stream bs txt" "bs = []"
  then have "fmt_steps (F_start, [], []) (F_eof 1, [], txt)" by (simp add: lzo_stream_def)
  then obtain y where "fmt_step (F_start, [], []) y" by (rule converse_rtranclpE) auto
  then show False by (rule fmt_step_startE) simp_all
qed

lemma compress_response_body:
  assumes "sv_ok e wc"
  obtains body wc' where "compress_response e txt wc = Some (Some body, headers_of e, wc')" "body_of e txt body"
    "wc_uploaders wc' = wc_uploaders wc" "sv_ok e wc'"
proof (cases "sv_compression e")
  case True
  let ?m = "two_buffers txt (resize_bytes (length txt + length txt div 16 + 64 + 3) (wc_request_data wc))"
  have ok: "compress_ok (sv_cfg e) ?m (wc_lzo_tmp_memory wc)" using assms by (simp add: compress_ok_def sv_ok_def two_buffers_def)
  obtain m n where c: "compress (sv_cfg e) (sv_text_addr e) ?m (wc_lzo_tmp_memory wc) = Some (LZO_E_OK, m, n)"
    using compress_ref [OF ok] by metis
  then have "lzo1x_1_compress (sv_cfg e) (sv_text_addr e) ?m (length txt) (wc_lzo_tmp_memory wc) = Some (LZO_E_OK, m, n)"
    by (simp add: two_buffers_def)
  moreover have "lzo_stream (take n (m Out)) txt"
    using compress_refD(6) [OF ok c] ref_compress_stream by (simp add: two_buffers_def)
  ultimately show thesis using True assms
    by (intro that [of "take n (m Out)" "wc\<lparr> wc_request_data := m Out \<rparr>"])
      (simp_all add: compress_response_def headers_of_def body_of_def sv_ok_def)
next
  case False
  then show thesis using assms by (intro that [of "txt" wc]) (simp_all add: compress_response_def headers_of_def body_of_def)
qed

lemma body_of_nonempty: "body_of e txt body \<Longrightarrow> txt \<noteq> [] \<Longrightarrow> body \<noteq> []"
  using lzo_stream_nonempty by (auto simp: body_of_def split: if_splits)

lemma make_response_json:
  assumes "sv_ok e wc" "\<not> is_empty v" "json_write True fmt v [] = Some txt" "txt \<noteq> []"
  obtains body wc' where "make_response e fmt is_empty v [] wc = Some (Some body, headers_of e, wc')" "body_of e txt body" "body \<noteq> []"
    "wc_uploaders wc' = wc_uploaders wc" "sv_ok e wc'"
proof -
  have "sv_ok e (wc\<lparr> wc_response_str := txt \<rparr>)" using assms(1) by (simp add: sv_ok_def)
  then obtain body wc' where "compress_response e txt (wc\<lparr> wc_response_str := txt \<rparr>) = Some (Some body, headers_of e, wc')"
    "body_of e txt body" "wc_uploaders wc' = wc_uploaders wc" "sv_ok e wc'" by (rule compress_response_body) simp
  then show thesis using that assms(2-4) body_of_nonempty by (simp add: make_response_def)
qed

section \<open>The uploaders\<close>

definition uploader_ready :: "('u \<Rightarrow> 'r outcome) \<Rightarrow> ('r jvalue \<Rightarrow> bool) \<Rightarrow> 'u \<Rightarrow> bool" where
  "uploader_ready run is_empty f \<longleftrightarrow> (case run f of Responds v d hold \<Rightarrow> d = [] \<and> \<not> is_empty v \<and> jv_ok v | _ \<Rightarrow> False)"

definition reply_of :: "server_env \<Rightarrow> ('u \<Rightarrow> 'r outcome) \<Rightarrow> 'u \<times> 'h \<Rightarrow> 'h \<times> http_action list \<Rightarrow> bool" where
  "reply_of e run u r \<longleftrightarrow> fst r = snd u \<and> (\<exists>v d hold body t. run (fst u) = Responds v d hold \<and>
     snd r = headers_of e @ [Send_reply HTTP_OK ''OK'' (Some body)] \<and> body_of e (t @ [10]) body \<and> json_parse t = Some (doc_of v, []))"

lemma upload_loop_ready:
  "sv_ok e wc \<Longrightarrow> \<forall>u \<in> set us. uploader_ready run is_empty (fst u) \<Longrightarrow>
    \<exists>as wc'. upload_loop e run fmt is_empty us wc = Some (as, True, wc') \<and> list_all2 (reply_of e run) us as \<and> sv_ok e wc'"
proof (induction us arbitrary: wc)
  case (Cons u us)
  obtain f h where u: "u = (f, h)" by (cases u)
  obtain v hold where v: "run f = Responds v [] hold" "\<not> is_empty v" "jv_ok v"
    using Cons.prems(2) u by (auto simp: uploader_ready_def split: outcome.splits)
  obtain t where t: "json_write True fmt v [] = Some (t @ [10])" "json_parse t = Some (doc_of v, [])"
    using json_write_read [OF v(3)] by (metis append_Nil)
  obtain body wc1 where r: "make_response e fmt is_empty v [] wc = Some (Some body, headers_of e, wc1)"
    "body_of e (t @ [10]) body" "body \<noteq> []" "sv_ok e wc1"
    using make_response_json [of e wc is_empty v fmt "t @ [10]"] Cons.prems(1) v(2) t(1) by (metis append_is_Nil_conv not_Cons_self2)
  obtain as wc' where as: "upload_loop e run fmt is_empty us wc1 = Some (as, True, wc')" "list_all2 (reply_of e run) us as" "sv_ok e wc'"
    using Cons.IH [OF r(4)] Cons.prems(2) by auto
  have "reply_of e run u (h, headers_of e @ [send_response (Some body)])"
    using v(1) r t(2) by (auto simp: reply_of_def u send_response_def)
  then show ?case using v(1) r as by (simp add: u)
qed simp

text \<open>When all of them have something to send, each request is answered once, in order, and none is left.\<close>

lemma uploaders_served:
  assumes "sv_ok e wc" "\<forall>u \<in> set (wc_uploaders wc). uploader_ready run is_empty (fst u)"
  shows "\<exists>as wc'. event_handler e run fmt is_empty True wc = Some (as, wc') \<and> wc_uploaders wc' = [] \<and>
    list_all2 (reply_of e run) (wc_uploaders wc) as"
proof -
  obtain as wc' where "upload_loop e run fmt is_empty (wc_uploaders wc) wc = Some (as, True, wc')"
    "list_all2 (reply_of e run) (wc_uploaders wc) as" using upload_loop_ready [OF assms] by blast
  then show ?thesis by (simp add: event_handler_def)
qed

text \<open>
  An uploader with nothing to send ends the function: it is answered and stays registered, so that the next event
  answers the same request again, and the uploaders behind it are never reached.
\<close>

lemma uploader_answered_again:
  assumes "wc_uploaders wc = (f, h) # us" "run f = Responds v [] hold" "is_empty v"
  shows "event_handler e run fmt is_empty True wc = Some ([(h, [Send_reply HTTP_NOCONTENT ''OK'' None])], wc)"
  using assms by (simp add: event_handler_def make_response_def send_response_def)

section \<open>Properties\<close>

text \<open>
  C35. The response of a handler reaches the client: when the body of a request is parsed and its handler responds
  with a value that is not empty, without reals, strings that are not there or integers beyond 64 bits, the server
  replies with a body that stands for one line of text, which a parser of JSON reads to its end. If the value stands for
  a document, what is read is that document. The body is the text itself, or, if the server compresses, an LZO1X stream
  of it, and then the header says so.
\<close>

theorem response_reaches_client:
  assumes "sv_ok e wc" "\<not> rq_options req" "rq_body req \<noteq> []" "header_loop cmp (rq_headers req) = Not_compressed"
    and "parse (rq_body req) = Parsed q" "on_request q = Responds v [] False" "\<not> is_empty v" "jv_ok v"
  shows "\<exists>body txt r wc'. process_request e cmp parse on_request fmt is_empty req wc = Some (headers_of e @ [Send_reply HTTP_OK ''OK'' (Some body)], wc') \<and>
    (if sv_compression e then lzo_stream body (txt @ [10]) else body = txt @ [10]) \<and> json_parse txt = Some (r, []) \<and>
    (\<forall>d. stands_for v d \<longrightarrow> r = in_units d) \<and> sv_ok e wc'"
proof -
  obtain t r where t: "json_write True fmt v [] = Some (t @ [10])" "json_parse t = Some (r, [])" "\<forall>d. stands_for v d \<longrightarrow> r = in_units d"
    using json_write_document [OF assms(8)] by (metis append_Nil)
  have "sv_ok e (wc\<lparr> wc_request_data := rq_body req \<rparr>)" using assms(1) by (simp add: sv_ok_def)
  then obtain body wc' where b: "make_response e fmt is_empty v [] (wc\<lparr> wc_request_data := rq_body req \<rparr>) = Some (Some body, headers_of e, wc')"
    "body_of e (t @ [10]) body" "body \<noteq> []" "sv_ok e wc'"
    using make_response_json [of e _ is_empty v fmt "t @ [10]"] assms(7) t(1) by (metis append_is_Nil_conv not_Cons_self2)
  then show ?thesis using assms(2-6) t(2,3)
    by (intro exI [of _ body] exI [of _ t] exI [of _ r] exI [of _ wc'])
      (simp add: process_request_def handle_data_def send_response_def body_of_def)
qed

definition demo_server :: server_env where
  "demo_server = \<lparr> sv_cfg = cfg_amd64, sv_compression = True, sv_text_addr = 4096, sv_request_addr = 8192, sv_uncompressed_addr = 16384 \<rparr>"

definition demo_worker :: "(nat, nat) worker_ctx" where
  "demo_worker = \<lparr> wc_request_data = [], wc_uncompressed_data = [], wc_response_str = [], wc_lzo_tmp_memory = comp_wrkmem, wc_uploaders = [] \<rparr>"

definition demo_request :: "string \<Rightarrow> http_request" where
  "demo_request v = \<lparr> rq_options = False, rq_headers = [(''Accept-Compression'', v)], rq_body = [104, 105] \<rparr>"

lemma demo_sv_ok: "sv_ok demo_server demo_worker"
  using cfg_ok_builds by (simp add: sv_ok_def demo_server_def demo_worker_def comp_wrkmem_def)

theorem response_reaches_client_witness:
  "\<exists>body t wc'. process_request demo_server (\<lambda>a b. False) Parsed (\<lambda>q. Responds (stringValue (Some q)) [] False) (\<lambda>_ :: nat. []) (\<lambda>_. False)
      (demo_request []) demo_worker = Some (headers_of demo_server @ [Send_reply HTTP_OK ''OK'' (Some body)], wc') \<and>
    lzo_stream body (t @ [10]) \<and> json_parse t = Some (JStr [104, 105], [])"
proof -
  have "stands_for (stringValue (Some [104, 105]) :: nat jvalue) (JStr [104, 105])"
    by (rule sf_string) (simp add: utf8_text_def utf8_def scalar_value_def)
  then show ?thesis using response_reaches_client [OF demo_sv_ok, of "demo_request []" "\<lambda>a b. False" Parsed "[104, 105]"
      "\<lambda>q. Responds (stringValue (Some q)) [] False" "stringValue (Some [104, 105])" "\<lambda>_. False" "\<lambda>_ :: nat. []"]
    by (fastforce simp: demo_request_def demo_server_def utf16_def)
qed

text \<open>
  C36. No compressed request is served: after the decompression the test for the code of a too small buffer is the wrong
  way round, so that whatever the body is, also a proper stream, the request is refused, and neither parser nor handler
  see it.
\<close>

theorem compressed_request_refused:
  assumes "cfg_ok (sv_cfg e)" "\<not> rq_options req" "rq_body req \<noteq> []" "header_loop cmp (rq_headers req) = Lzo_compressed"
    and "length (rq_body req) < 2 ^ uint_bits (sv_cfg e)" "sv_uncompressed_addr e + 4194304 < 2 ^ uint_bits (sv_cfg e)"
  shows "\<exists>msg wc'. process_request e cmp parse on_request fmt is_empty req wc = Some ([Send_error HTTP_BADREQUEST msg], wc')"
proof -
  let ?u = "resize_bytes (4 * 1024 * 1024) (wc_uncompressed_data wc)"
  let ?e = "\<lparr> in_len = length (rq_body req), out_cap = length ?u, in_addr = sv_request_addr e, out_addr = sv_uncompressed_addr e \<rparr>"
  have "env_ok (sv_cfg e) ?e (two_buffers (rq_body req) ?u)" using assms by (simp add: env_ok_def two_buffers_def)
  then obtain r s where "lzo1x_decompress_safe (sv_cfg e) ?e (two_buffers (rq_body req) ?u) = Some (Some (r, s))"
    using lzo1x_decompress_safe_post by blast
  then have "\<exists>msg wc'. decompress_request e (wc\<lparr> wc_request_data := rq_body req \<rparr>) = Some (Inl (Send_error HTTP_BADREQUEST msg), wc')"
    by (auto simp: decompress_request_def Let_def LZO_E_INPUT_OVERRUN_def LZO_E_OK_def)
  then show ?thesis using assms(2-4) by (auto simp: process_request_def)
qed

theorem compressed_request_refused_witness:
  "\<exists>msg wc'. process_request demo_server (=) Parsed (\<lambda>q. Responds (stringValue (Some q)) [] False) (\<lambda>_ :: nat. []) (\<lambda>_. False)
      (demo_request ''lzo'') demo_worker = Some ([Send_error HTTP_BADREQUEST msg], wc')"
  using cfg_ok_builds by (intro compressed_request_refused) (simp_all add: demo_request_def demo_server_def cfg_amd64_def)

end
