(* ===== verification/Ws_Server.thy ===== *)
theory Ws_Server
  imports Ws_User Web_Server
begin

text \<open>
  The WebSocket server: what \<^verbatim>\<open>web_server/server_ws_win.hpp\<close> binds to a new user, and a whole session of a client, from the
  accepted connection through the handshake to its messages. The JSON parser and the request handler are parameters;
  the handler has a state of its own, may write a response behind the room for a frame header, and may throw. A user is
  known by its address.
\<close>

section \<open>State\<close>

record 'h ws_server =
  pending_list :: "nat list"
  ws_direct_data :: "u8 list"
  ws_handler :: 'h

type_synonym ('q, 'h) request_handler = "'q \<Rightarrow> u8 list \<Rightarrow> 'h \<Rightarrow> bool \<times> u8 list \<times> 'h"

section \<open>Callbacks\<close>

text \<open>The function bound to \<^verbatim>\<open>on_frame_recv\<close>. The code that would send a response is commented out.\<close>

definition ws_on_frame :: "nat \<Rightarrow> (u8 list \<Rightarrow> 'q parsed) \<Rightarrow> ('q, 'h) request_handler \<Rightarrow> 'h ws_server user_fn" where
  "ws_on_frame addr parse on_request u s = (case extract_data (ws_direct_data s) u of (direct_data, u) \<Rightarrow>
     let s = s\<lparr> ws_direct_data := direct_data \<rparr> in
     if addr \<notin> set (pending_list s) then None
     else (case parse direct_data of
         Parsed q \<Rightarrow> (case on_request q fb_begin_prepare (ws_handler s) of (throws, direct_data, h) \<Rightarrow>
           Some (if throws then disconnect u else u, s\<lparr> ws_direct_data := direct_data, ws_handler := h \<rparr>))
       | _ \<Rightarrow> Some (disconnect u, s)))"

definition ws_on_disconnect :: "nat \<Rightarrow> 'h ws_server user_fn" where
  "ws_on_disconnect addr u s = Some (u, s\<lparr> pending_list := filter (\<lambda>a. a \<noteq> addr) (pending_list s) \<rparr>)"

definition ws_cbs :: "nat \<Rightarrow> (u8 list \<Rightarrow> 'q parsed) \<Rightarrow> ('q, 'h) request_handler \<Rightarrow> 'h ws_server user_cbs" where
  "ws_cbs addr parse on_request = \<lparr> on_pong_recv = None, on_frame_recv = Some (ws_on_frame addr parse on_request),
     on_disconnect = Some (ws_on_disconnect addr), on_close = None \<rparr>"


section \<open>Messages of a client\<close>








section \<open>Properties\<close>




text \<open>What cannot be parsed ends the connection, without a word to the client or to the handler.\<close>

lemma unparsed_disconnects:
  assumes "parse (us_msg u) = Parse_fails \<or> parse (us_msg u) = Parse_throws" "addr \<in> set (pending_list s)"
  shows "ws_on_frame addr parse on_request u s = Some (disconnect (u\<lparr> us_msg := [] \<rparr>), s\<lparr> ws_direct_data := us_msg u \<rparr>)"
  using assms by (auto simp: ws_on_frame_def extract_data_def)

text \<open>The end of the connection removes the user from the list; \<^verbatim>\<open>disconnect\<close> does not.\<close>

lemma closed_user_erased:
  assumes "us_wscon u = Some c" "close_cb_unit c = Some user_disconnect_cb"
  shows "user_close (ws_cbs addr parse on_request) u s = Some (u, s\<lparr> pending_list := filter (\<lambda>a. a \<noteq> addr) (pending_list s) \<rparr>)"
  using assms by (simp add: user_close_def close_cb_def ws_serve_exit_def call_def on_user_disconnect_def run_unit_def ws_cbs_def
      ws_on_disconnect_def)

end
