(* ===== verification/Spec2Isabelle.thy ===== *)
theory Spec2Isabelle
  imports Lzo_Testmini Ws_Connection Sdk_Hash_Map Sdk_Ring_Queue Sdk_Heap Sdk_List Sdk_Serializer
    Sdk_Chain_Executor Sdk_Thread_Pool Sdk_Dataport Sdk_Frames Sdk_Stack_Allocator Sdk_Callbacks Sdk_Strings
    Sdk_Threaded_Handler Sdk_Blocker Sdk_File Sdk_Json_Fields Sdk_Random Ws_Server
begin

text \<open>
  A verification library for the SDK: its bundled compressor, its WebSocket server layer and its
  containers and allocators. Every definition is translated from the source; every access outside a
  buffer, unspecified read or failed assertion is the value \<^term>\<open>None\<close>, so that a theorem that an
  operation yields \<^term>\<open>Some\<close> is a safety theorem as well.

  \<^bold>\<open>Parts of the program and their theories\<close>

  \<^item> \<^verbatim>\<open>compression/\<close>, the LZO library (\<^verbatim>\<open>minilzo.c\<close>, \<^verbatim>\<open>lzoconf.h\<close>, \<^verbatim>\<open>testmini.c\<close>). \<open>Sdk_Memory\<close> is the
    memory: a family of byte buffers, a pointer is a region with an offset. \<open>Lzo_Conf\<close> holds what the
    preprocessor decides as a record \<open>lzo_cfg\<close>; all theorems hold for every value of it.
    \<open>Lzo_Memops\<close> has the block copies and the loads and stores in each byte order. \<open>Lzo_Machine\<close>,
    \<open>Lzo_Decompress_Safe\<close> and \<open>Lzo_Decompress\<close> are the decompressors \<^verbatim>\<open>lzo1x_decompress_safe\<close> and
    \<^verbatim>\<open>lzo1x_decompress\<close>, a definition per label of the code and a label machine that runs them.
    \<open>Lzo_Compress\<close> is \<^verbatim>\<open>lzo1x_1_compress\<close>. \<open>Lzo_Util\<close> has checksum, byte strings and alignment,
    \<open>Lzo_Init\<close> the bit scans, \<^verbatim>\<open>_lzo_config_check\<close> and \<^verbatim>\<open>__lzo_init_v2\<close>, \<open>Lzo_Testmini\<close> the test
    program, which composes all of them.
  \<^item> The specification side of it: \<open>Lzo_Format\<close> is the stream format as an inductive step relation on
    byte lists; \<open>Lzo_Safe_Correct\<close> relates the decompressor to it; \<open>Lzo_Ref\<close> is a reference
    compressor on lists, \<open>Lzo_Scan\<close> shows that all variants of the match scan agree, and
    \<open>Lzo_Compress_Correct\<close> and \<open>Lzo_Roundtrip\<close> refine the compressor to the reference and conclude.
  \<^item> \<^verbatim>\<open>web_server/ws/\<close>: \<open>Ws_Frame\<close> (\<^verbatim>\<open>frame.cpp\<close>, \<^verbatim>\<open>tools.h\<close>) builds and reads frames, \<open>Ws_Base64\<close> is
    \<^verbatim>\<open>base64.h\<close>, \<open>Ws_Socket\<close> is \<^verbatim>\<open>websocket.cpp\<close> (request, response, accept key, frame header,
    unmasking), \<open>Ws_Connection\<close> is \<^verbatim>\<open>connection.cpp\<close>: the state \<open>ws_conn_t\<close> and every callback. A
    callback is a function of the bytes the event loop has delivered; calls of the library and of user
    callbacks are recorded as a list of actions, in order.
  \<^item> \<^verbatim>\<open>web_server/\<close>, WebSocket server: \<open>Ws_User\<close> (\<^verbatim>\<open>server_ws_user_win.hpp\<close>) is the class \<^verbatim>\<open>user_t\<close>, which
    gives the actions of a connection their meaning, puts messages together and sends frames;
    \<open>Ws_Server\<close> (\<^verbatim>\<open>server_ws_win.hpp\<close>) accepts users and binds their callbacks to the request handler. A
    session is the composition of all of these.
  \<^item> \<^verbatim>\<open>tools/\<close>, containers and memory: \<open>Sdk_Pool\<close> (\<^verbatim>\<open>pool_allocator.hpp\<close>) and its client
    \<open>Sdk_Hash_Map\<close> (\<^verbatim>\<open>linear_hash_map.hpp\<close>); \<open>Sdk_Ring\<close> and \<open>Sdk_Ring_Queue\<close> (\<^verbatim>\<open>ring_buffer.hpp\<close>);
    \<open>Sdk_Bit_Stream\<close>, \<open>Sdk_Page_Layout\<close> and \<open>Sdk_Heap_Allocator\<close> (\<^verbatim>\<open>heap_allocator.hpp\<close>) and their
    client \<open>Sdk_Heap\<close> (\<^verbatim>\<open>heap.hpp\<close>); \<open>Sdk_List\<close> (\<^verbatim>\<open>list.hpp\<close>, nodes in an explicit heap);
    \<open>Sdk_Frames\<close> (\<^verbatim>\<open>static_frame.hpp\<close>, \<^verbatim>\<open>dynamic_frame.hpp\<close>); \<open>Sdk_Stack_Allocator\<close>
    (\<^verbatim>\<open>stack_allocator.hpp\<close>).
  \<^item> \<^verbatim>\<open>tools/\<close>, threads and callbacks: \<open>Sdk_Chain_Executor\<close> (\<^verbatim>\<open>chain_executor.hpp\<close>) and \<open>Sdk_Thread_Pool\<close>
    (\<^verbatim>\<open>thread_pool.hpp\<close>) are step relations in which the steps of all threads interleave; \<open>Sdk_Callbacks\<close>
    has \<^verbatim>\<open>callback_keeper.hpp\<close>, \<^verbatim>\<open>processor.hpp\<close> and the store of \<^verbatim>\<open>cache.hpp\<close>. \<open>Sdk_Threaded_Handler\<close>
    (\<^verbatim>\<open>threaded_handler.hpp\<close>) is a thread that handles messages which its clients construct in a ring
    buffer; \<open>Sdk_Blocker\<close> has the spin lock, its guards and the event (\<^verbatim>\<open>blocker.hpp\<close>,
    \<^verbatim>\<open>wait_for_single_object.hpp\<close>).
  \<^item> \<^verbatim>\<open>tools/\<close>, data: \<open>Sdk_Serializer\<close> (\<^verbatim>\<open>binary_serializer.hpp\<close>), \<open>Sdk_Hash\<close> (\<^verbatim>\<open>hash.hpp\<close>), \<open>Sdk_Strings\<close>
    (\<^verbatim>\<open>string_utils.hpp\<close>, \<^verbatim>\<open>string_converter.hpp\<close>), \<open>Sdk_Json_String\<close> and \<open>Sdk_Json\<close> (\<^verbatim>\<open>json_writer.hpp\<close>:
    quoted strings, then whole documents), \<open>Sdk_Json_Fields\<close> (\<^verbatim>\<open>json_serializer.hpp\<close>), \<open>Sdk_Random\<close>
    (\<^verbatim>\<open>random.hpp\<close>).
  \<^item> \<open>Sdk_Dataport\<close> is \<^verbatim>\<open>dataport/dataport_direct.hpp\<close>, a file of records with hashes; \<open>Sdk_File\<close> is the
    function of \<^verbatim>\<open>tools/file.hpp\<close> that reads a file.
  \<^item> \<open>Web_Server\<close> is the path of a request through \<^verbatim>\<open>web_server/server_win.hpp\<close>; it composes the
    decompressor, the compressor and the writer of JSON.
  \<^item> \<open>Sdk_Prelude\<close> has the integer types, wrap-around arithmetic on naturals (\<open>uw w n\<close>, \<open>usub w a b\<close>)
    and the lemmas the components share.

  \<^bold>\<open>Interfaces\<close>

  \<open>slot_store\<close> (a pool, used by the hash map), \<open>finite_map_store\<close> (the hash map), \<open>block_queue\<close> (the
  ring buffer), \<open>run_edit\<close> (the two loops over runs of bits), \<open>block_allocator\<close> (the allocator of a
  chunk, used by the heap). Each is interpreted on the definitions of the component that provides it;
  the lemmas of the clients are proved inside.

  \<^bold>\<open>What is shown\<close>

  \<^item> C1 to C4: the decompressors. On any input the safe one stays inside the announced buffers and
    returns one of its codes; success means that the input is one stream of the format with the output
    as its text, and every stream that fits is decoded. The other one agrees with it.
  \<^item> C5 to C11: the compressor: safety, format, round trip with both decompressors, worst-case size;
    the test program; the checksum. Lemmas add that the results do not depend on the build.
  \<^item> C12 to C16: frames, base64, handshake and the connection: what is written is the wire format, what
    was written is read back, any sequence of client frames is delivered frame by frame up to a connection close, and
    the frame callback is undefined on a payload of \<open>2\<^sup>3\<^sup>1\<close> bytes or more and in no other case.
  \<^item> C17 to C20, C24, C25: the pool is a slot store, the hash map a finite map, the ring buffer a queue of
    blocks that do not overlap; the heap serves every request of up to half a chunk with a new block that overlaps no
    live one, leaves larger ones to \<^verbatim>\<open>malloc\<close>, and takes every block back.
  \<^item> C21 to C23: as long as no constructor of a message throws, the threaded handler handles what its clients send in
    the order of allocation, each message once, and while it is not stopped everything up to the first message that
    is still under construction; guards of the spin lock exclude each other.
  \<^item> C26, C27, C38, C39: chains and the thread pool under every interleaving: tasks of a chain run one at a
    time and in order, a task of the pool runs at most once, and from every reachable state what is
    pending can be brought to its end.
  \<^item> C28 to C31: the serializer stays inside its result, is read back, and reads only values of the
    announced type; the loops over lists end.
  \<^item> C32 to C34: the texts a client sends over a WebSocket, cut into fragments with pings and pongs between
    them, reach the request handler whole, once and in order, up to the first that does not parse or at which the
    handler throws, which disconnects the user; what a user sends is one text frame.
  \<^item> C35 to C37, C40: responses without reals reach the client as JSON and compressed, while compressed requests are
    never served; what the writer of JSON writes is read back as the document whose strings are given by their code
    points (\<open>stands_for\<close>, which does not use the decoder of the code); the data port returns whole records only.

  \<^bold>\<open>Bounds\<close>

  \<^item> Loops whose end is not structural are \<^theory_text>\<open>partial_function (option)\<close> or \<^theory_text>\<open>function\<close> with a
    measure; that they return is part of the theorems, and no fuel is used.
  \<^item> Lengths in the LZO theorems are below the width of \<^verbatim>\<open>lzo_uint\<close> minus the margins the code
    itself tests; the addresses of the buffers do not wrap around.
  \<^item> The ring buffer has an alignment of 8 to 128, at least four slots, and at most \<open>2\<^sup>3\<^sup>0\<close> bytes, so
    that a prefix fits in front of the border; its counters wrap around.
  \<^item> A heap allocator has the page sizes its static assertions allow and less than \<open>2\<^sup>3\<^sup>1\<close> bytes; a heap
    serves sizes below \<open>2\<^sup>6\<^sup>3\<close>, above which the code doubles the size with wrap-around.
  \<^item> Payloads of frames stay below \<open>2\<^sup>3\<^sup>1\<close> bytes wherever they are delivered; C16 says what happens above.
  \<^item> The reference parser of JSON has fuel, the length of its input; the round trip shows that it is enough.
  \<^item> The files of the data port stay below \<open>2\<^sup>6\<^sup>3\<close> bytes, the range of their offsets.

  \<^bold>\<open>Assumptions\<close>

  The event library delivers the bytes a callback asked for; user callbacks do not change the
  connection, except that they may disconnect it; allocation of frames and payloads and the creation of threads
  succeed; constructors of messages of the threaded handler do not throw (\<open>Throws\<close> is the step that does). SHA-1, the compiler intrinsics, \<^verbatim>\<open>memcmp\<close> of the C library, \<^verbatim>\<open>new\<close>,
  \<^verbatim>\<open>malloc\<close> and \<^verbatim>\<open>free\<close>, the library of JSON, the request handlers, the comparison of header names, the
  cipher of OpenSSL and the formatting of doubles are parameters. Containers are used by one thread at a
  time, the ring buffer in one operation at a time; the chain executor, the thread pool, the threaded
  handler and the locks are modelled with all interleavings of the steps of their threads.

  \<^bold>\<open>Not modelled\<close>

  \<^item> The detection of compilers and architectures in \<^verbatim>\<open>lzodefs.h\<close> (its results are the configuration
    record), and the vendored \<^verbatim>\<open>rapidjson\<close>.
  \<^item> Sockets, TLS and start-up of the web servers, and \<^verbatim>\<open>server_linux.hpp\<close>, which does not compile (see
    the findings) and whose path of a request is that of \<^verbatim>\<open>server_win.hpp\<close> without compression; the functions
    for decryption and for GCM in \<^verbatim>\<open>server_ws_user_win.hpp\<close>, which are called nowhere.
  \<^item> Clocks, logging and modules; splines, random generators and other arithmetic of floating point.
  \<^item> Conversions of dates and of wide characters, the debug guards of the ring buffer, and release of
    memory where nothing else happens.
\<close>

end
